(* ===== verification/Prelude.thy ===== *)
theory Prelude
  imports Main "HOL-Library.Word" "HOL-Library.Signed_Division"
begin

text \<open>
  Shared vocabulary of the development: Go's sized integers as words, the conversions between
  them that the sources use, the named collections that carry the component proofs, and the
  generic facts on lists and options several components need.
\<close>

unbundle bit_operations_syntax

named_theorems go_conv \<open>Go integer conversions and their algebra\<close>
named_theorems ir_defs \<open>definitions of the IR data model to unfold by simp\<close>

section \<open>Go's sized integers\<close>

type_synonym i64 = "64 word"
type_synonym u64 = "64 word"

text \<open>
  A Go \<open>int64\<close> and a Go \<open>uint64\<close> are the same 64 bits; \<open>sint\<close> and \<open>uint\<close> read them.  The
  conversions below are \<open>int64(int32(v))\<close>, \<open>int64(uint32(v))\<close> and so on.
\<close>

definition int32_of :: "i64 \<Rightarrow> i64" where
  "int32_of v = scast (ucast v :: 32 word)"

definition uint32_of :: "i64 \<Rightarrow> i64" where
  "uint32_of v = ucast (ucast v :: 32 word)"

definition int16_of :: "i64 \<Rightarrow> i64" where
  "int16_of v = scast (ucast v :: 16 word)"

definition uint16_of :: "i64 \<Rightarrow> i64" where
  "uint16_of v = ucast (ucast v :: 16 word)"

definition int8_of :: "i64 \<Rightarrow> i64" where
  "int8_of v = scast (ucast v :: 8 word)"

definition uint8_of :: "i64 \<Rightarrow> i64" where
  "uint8_of v = ucast (ucast v :: 8 word)"

text \<open>Go's integer division and remainder truncate toward zero.\<close>

definition go_sdiv :: "i64 \<Rightarrow> i64 \<Rightarrow> i64" where
  "go_sdiv a b = word_of_int (sint a sdiv sint b)"

definition go_srem :: "i64 \<Rightarrow> i64 \<Rightarrow> i64" where
  "go_srem a b = word_of_int (sint a smod sint b)"

lemma ucast_int32_of [go_conv, simp]: "(ucast (int32_of v) :: 32 word) = ucast v"
  by (rule bit_word_eqI) (simp add: int32_of_def bit_simps)

lemma ucast_uint32_of [go_conv, simp]: "(ucast (uint32_of v) :: 32 word) = ucast v"
  by (rule bit_word_eqI) (simp add: uint32_of_def bit_simps)

lemma int32_of_cong: "(ucast a :: 32 word) = ucast b \<Longrightarrow> int32_of a = int32_of b"
  by (simp add: int32_of_def)

lemma uint32_of_cong: "(ucast a :: 32 word) = ucast b \<Longrightarrow> uint32_of a = uint32_of b"
  by (simp add: uint32_of_def)

lemma int32_of_idem [go_conv, simp]: "int32_of (int32_of v) = int32_of v"
  by (rule int32_of_cong) simp

lemma int32_of_uint32_of [go_conv, simp]: "int32_of (uint32_of v) = int32_of v"
  by (rule int32_of_cong) simp

lemma uint32_of_int32_of [go_conv, simp]: "uint32_of (int32_of v) = uint32_of v"
  by (rule uint32_of_cong) simp

lemma uint32_of_idem [go_conv, simp]: "uint32_of (uint32_of v) = uint32_of v"
  by (rule uint32_of_cong) simp

lemma int32_of_eq_iff: "int32_of a = int32_of b \<longleftrightarrow> (ucast a :: 32 word) = ucast b"
  by (metis int32_of_cong ucast_int32_of)

lemma uint32_of_eq_iff: "uint32_of a = uint32_of b \<longleftrightarrow> (ucast a :: 32 word) = ucast b"
  by (metis uint32_of_cong ucast_uint32_of)

lemma int32_of_0 [simp]: "int32_of 0 = 0"
  by (simp add: int32_of_def)

lemma int32_of_1 [simp]: "int32_of 1 = 1"
  by (simp add: int32_of_def)

lemma int32_of_minus_1 [simp]: "int32_of (-1) = -1"
  by (rule bit_word_eqI) (auto simp add: int32_of_def bit_simps)

lemma uint32_of_0 [simp]: "uint32_of 0 = 0"
  by (simp add: uint32_of_def)

section \<open>Lists\<close>

lemma sorted_wrt_less_distinct: "sorted_wrt (<) (xs :: 'a :: linorder list) \<Longrightarrow> distinct xs"
  by (induction xs) auto

lemma list_all2_refl_on: "(\<And>x. x \<in> set xs \<Longrightarrow> P x x) \<Longrightarrow> list_all2 P xs xs"
  by (induction xs) auto

text \<open>The first index of a list at or after which a predicate holds.\<close>

fun find_index :: "('a \<Rightarrow> bool) \<Rightarrow> 'a list \<Rightarrow> nat option" where
  "find_index P [] = None"
| "find_index P (x # xs) = (if P x then Some 0 else map_option Suc (find_index P xs))"

lemma find_index_Some:
  "find_index P xs = Some i \<Longrightarrow> i < length xs \<and> P (xs ! i) \<and> (\<forall>j < i. \<not> P (xs ! j))"
proof (induction xs arbitrary: i)
  case Nil
  then show ?case by simp
next
  case (Cons x xs)
  show ?case
  proof (cases "P x")
    case True
    with Cons.prems show ?thesis by simp
  next
    case False
    with Cons.prems obtain k where k: "find_index P xs = Some k" "i = Suc k" by auto
    with Cons.IH[OF k(1)] False show ?thesis
      by (auto simp: less_Suc_eq_0_disj)
  qed
qed

lemma find_index_None: "find_index P xs = None \<longleftrightarrow> (\<forall>x \<in> set xs. \<not> P x)"
  by (induction xs) auto

section \<open>Loops whose body may fail\<close>

text \<open>A \<open>for range\<close> loop whose body updates a state and may panic or return early with \<open>None\<close>.\<close>

fun fold_opt :: "('a \<Rightarrow> 's \<Rightarrow> 's option) \<Rightarrow> 'a list \<Rightarrow> 's \<Rightarrow> 's option" where
  "fold_opt f [] s = Some s"
| "fold_opt f (x # xs) s = Option.bind (f x s) (fold_opt f xs)"

lemma fold_opt_Nil_eq [simp]: "fold_opt f [] = Some"
  by (rule ext) simp

lemma fold_opt_map: "fold_opt f (map g xs) s = fold_opt (\<lambda>x. f (g x)) xs s"
  by (induction xs arbitrary: s) (auto split: Option.bind_splits)

lemma fold_opt_append:
  "fold_opt f (xs @ ys) s = Option.bind (fold_opt f xs s) (fold_opt f ys)"
  by (induction xs arbitrary: s) (auto split: Option.bind_splits)

text \<open>An invariant of the body that also makes it succeed is an invariant of the loop.\<close>

lemma fold_opt_invar:
  assumes "I [] s"
    and "\<And>x ys zs t. xs = ys @ x # zs \<Longrightarrow> I ys t \<Longrightarrow> \<exists>t'. f x t = Some t' \<and> I (ys @ [x]) t'"
  shows "\<exists>s'. fold_opt f xs s = Some s' \<and> I xs s'"
  using assms
proof (induction xs rule: rev_induct)
  case Nil
  then show ?case by simp
next
  case (snoc x xs)
  have "\<exists>s'. fold_opt f xs s = Some s' \<and> I xs s'"
    by (rule snoc.IH[OF snoc.prems(1)]) (auto intro: snoc.prems(2))
  then obtain s1 where s1: "fold_opt f xs s = Some s1" "I xs s1" by blast
  with snoc.prems(2)[of xs x "[]" s1] show ?case by (auto simp: fold_opt_append)
qed

section \<open>Loops that return at the first error\<close>

fun e_fold :: "('a \<Rightarrow> 's \<Rightarrow> 'e + 's) \<Rightarrow> 'a list \<Rightarrow> 's \<Rightarrow> 'e + 's" where
  "e_fold f [] s = Inr s"
| "e_fold f (x # xs) s = (case f x s of Inl e \<Rightarrow> Inl e | Inr s' \<Rightarrow> e_fold f xs s')"

text \<open>\<open>if err != nil { return err }\<close>, then go on with what follows.\<close>

definition e_then :: "'e + 'a \<Rightarrow> ('a \<Rightarrow> 'e + 'b) \<Rightarrow> 'e + 'b" where
  "e_then a k = (case a of Inl e \<Rightarrow> Inl e | Inr x \<Rightarrow> k x)"

abbreviation e_each :: "('a \<Rightarrow> 'e + unit) \<Rightarrow> 'a list \<Rightarrow> 'e + unit" where
  "e_each f xs \<equiv> e_fold (\<lambda>x _. f x) xs ()"

lemma e_then_Inr [simp]: "e_then a k = Inr y \<longleftrightarrow> (\<exists>x. a = Inr x \<and> k x = Inr y)"
  by (auto simp: e_then_def split: sum.splits)

lemma e_fold_append: "e_fold f (xs @ ys) s = e_then (e_fold f xs s) (e_fold f ys)"
  by (induction xs arbitrary: s) (auto simp: e_then_def split: sum.splits)

lemma e_each_ok [simp]: "e_each f xs = Inr u \<longleftrightarrow> (\<forall>x \<in> set xs. f x = Inr ())"
  by (induction xs) (auto split: sum.splits)

text \<open>A loop whose body checks a condition and updates the state by a function.\<close>

lemma e_fold_checked:
  assumes "\<And>x s. f x s = (if P x s then Inr (g x s) else Inl (err x s))"
  shows "e_fold f xs s = Inr s' \<longleftrightarrow> s' = fold g xs s \<and> (\<forall>i < length xs. P (xs ! i) (fold g (take i xs) s))"
proof (induction xs arbitrary: s)
  case (Cons x xs)
  show ?case
  proof (cases "P x s")
    case True
    then show ?thesis using Cons.IH[of "g x s"] assms[of x s] by (auto simp: less_Suc_eq_0_disj All_less_Suc2)
  next
    case False
    then show ?thesis using assms[of x s] by auto
  qed
qed auto

text \<open>A fallible map over a list.\<close>

lemma those_map_total: "(\<And>x. x \<in> set xs \<Longrightarrow> F x \<noteq> None) \<Longrightarrow> \<exists>ys. those (map F xs) = Some ys"
  by (induction xs) (auto split: option.splits)

lemma those_map_SomeD: "those (map F xs) = Some ys \<Longrightarrow> list_all2 (\<lambda>x y. F x = Some y) xs ys"
proof (induction xs arbitrary: ys)
  case (Cons x xs)
  then obtain y zs where "F x = Some y" "those (map F xs) = Some zs" "ys = y # zs" by (auto split: option.splits)
  then show ?case using Cons.IH by simp
qed simp

end
