(* ===== verification/IR_Types.thy ===== *)
theory IR_Types
  imports Prelude
begin

text \<open>
  The classes of SSA values (\<open>ir/type.go\<close>): the register classes \<open>Cls\<close>, the memory sub-classes
  \<open>SubCls\<close>, and aggregate types with their layout.  \<open>walk\<close> lays an aggregate out and reports
  each scalar leaf; sizes are nonnegative, aligned and contain every leaf.
\<close>

section \<open>Register classes\<close>

datatype cls = ClsW | ClsL | ClsS | ClsD | ClsP | ClsQ | ClsM

definition cls_IsInt :: "cls \<Rightarrow> bool" where
  "cls_IsInt c \<longleftrightarrow> c = ClsW \<or> c = ClsL \<or> c = ClsP \<or> c = ClsM"

definition cls_IsFloat :: "cls \<Rightarrow> bool" where
  "cls_IsFloat c \<longleftrightarrow> c = ClsS \<or> c = ClsD \<or> c = ClsQ"

definition cls_IsPtr :: "cls \<Rightarrow> bool" where
  "cls_IsPtr c \<longleftrightarrow> c = ClsP \<or> c = ClsM"

definition cls_IsManaged :: "cls \<Rightarrow> bool" where
  "cls_IsManaged c \<longleftrightarrow> c = ClsM"

fun cls_Size :: "cls \<Rightarrow> int" where
  "cls_Size ClsW = 4"
| "cls_Size ClsS = 4"
| "cls_Size ClsL = 8"
| "cls_Size ClsD = 8"
| "cls_Size ClsP = 8"
| "cls_Size ClsM = 8"
| "cls_Size ClsQ = 16"

fun cls_String :: "cls \<Rightarrow> string" where
  "cls_String ClsW = ''w''"
| "cls_String ClsL = ''l''"
| "cls_String ClsS = ''s''"
| "cls_String ClsD = ''d''"
| "cls_String ClsP = ''p''"
| "cls_String ClsQ = ''q''"
| "cls_String ClsM = ''m''"

lemmas cls_class_defs [ir_defs] = cls_IsInt_def cls_IsFloat_def cls_IsPtr_def cls_IsManaged_def

section \<open>Memory sub-classes\<close>

datatype subcls = SubB | SubUB | SubH | SubUH | SubW | SubL | SubS | SubD | SubQ

fun subcls_Cls :: "subcls \<Rightarrow> cls" where
  "subcls_Cls SubS = ClsS"
| "subcls_Cls SubD = ClsD"
| "subcls_Cls SubQ = ClsQ"
| "subcls_Cls SubL = ClsL"
| "subcls_Cls _ = ClsW"

fun subcls_Size :: "subcls \<Rightarrow> int" where
  "subcls_Size SubB = 1"
| "subcls_Size SubUB = 1"
| "subcls_Size SubH = 2"
| "subcls_Size SubUH = 2"
| "subcls_Size SubW = 4"
| "subcls_Size SubS = 4"
| "subcls_Size SubL = 8"
| "subcls_Size SubD = 8"
| "subcls_Size SubQ = 16"

fun subcls_ElemString :: "subcls \<Rightarrow> string" where
  "subcls_ElemString SubB = ''b''"
| "subcls_ElemString SubUB = ''b''"
| "subcls_ElemString SubH = ''h''"
| "subcls_ElemString SubUH = ''h''"
| "subcls_ElemString SubL = ''l''"
| "subcls_ElemString SubS = ''s''"
| "subcls_ElemString SubD = ''d''"
| "subcls_ElemString SubQ = ''q''"
| "subcls_ElemString SubW = ''w''"

fun subcls_String :: "subcls \<Rightarrow> string" where
  "subcls_String SubB = ''sb''"
| "subcls_String SubUB = ''ub''"
| "subcls_String SubH = ''sh''"
| "subcls_String SubUH = ''uh''"
| "subcls_String SubW = ''w''"
| "subcls_String SubL = ''l''"
| "subcls_String SubS = ''s''"
| "subcls_String SubD = ''d''"
| "subcls_String SubQ = ''q''"

section \<open>Aggregate types\<close>

text \<open>
  An \<open>*AggType\<close> is immutable once built and its nesting is a tree, so the pointer is modelled by
  the value it points to and a nil pointer by \<open>None\<close>.  Go's \<open>int\<close> sizes are unbounded \<open>int\<close>.
\<close>

datatype aggtype = AggType (at_Name: string) (at_Align: int) (at_Size: int) (at_Opaque: bool)
    (at_Packed: bool) (at_Fields: "field list") (at_Union: bool) (at_Cases: "field list list")
  and field = Field (fd_Sub: subcls) (fd_Type: "aggtype option") (fd_Count: int) (fd_Pointer: bool)

record leaf =
  l_Sub :: subcls
  l_Off :: int

definition field_count :: "field \<Rightarrow> int" where
  "field_count f = (if fd_Count f > 1 then fd_Count f else 1)"

definition roundUpInt :: "int \<Rightarrow> int \<Rightarrow> int" where
  "roundUpInt n a = (if a \<le> 0 then n else ((n + a - 1) sdiv a) * a)"

text \<open>
  \<open>walk t base\<close> is (leaves emitted in order, size, align, simple).  The Go code threads an
  \<open>emit\<close> callback that may be nil; the model always collects the leaves, and the callers that
  pass nil ignore them.  \<open>walkFieldsSimple\<close> carries the loop's variables \<open>off\<close> and \<open>align\<close>.
\<close>

fun walk :: "aggtype \<Rightarrow> int \<Rightarrow> leaf list \<times> int \<times> int \<times> bool"
and walkCases :: "field list list \<Rightarrow> int \<Rightarrow> bool \<Rightarrow> int \<Rightarrow> int \<Rightarrow> leaf list \<times> int \<times> int"
and walkFieldsSimple ::
  "field list \<Rightarrow> int \<Rightarrow> bool \<Rightarrow> int \<Rightarrow> int \<Rightarrow> bool \<Rightarrow> leaf list \<times> int \<times> int \<times> bool"
and field_SizeAlign :: "field \<Rightarrow> int \<times> int"
where
  "walk (AggType nm al sz opq pk fs un cs) base =
     (if opq then ([], sz, (if al = 0 then 1 else al), False)
      else
        let (ls, sze, align, simple) =
          (if un then (let (ls, s, a) = walkCases cs base pk 0 1 in (ls, s, a, False))
           else walkFieldsSimple fs base pk 0 1 True);
          align' = (if al > align then al else align)
        in (ls, roundUpInt sze align', align', simple))"
| "walkCases [] base pk sze align = ([], sze, align)"
| "walkCases (c # cs) base pk sze align =
     (let (ls, s, a, _) = walkFieldsSimple c base pk 0 1 True;
          (ls', sze', align') =
            walkCases cs base pk (if s > sze then s else sze) (if a > align then a else align)
      in (ls @ ls', sze', align'))"
| "walkFieldsSimple [] base pk off align simple = ([], off, align, simple)"
| "walkFieldsSimple (f # fs) base pk off align simple =
     (let (fsz, fa) = field_SizeAlign f;
          align1 = (if \<not> pk \<and> fa > align then fa else align);
          off1 = (if \<not> pk then roundUpInt off fa else off);
          n = nat (field_count f);
          (ls, simple1) =
            (case f of
               Field sub (Some t) c p \<Rightarrow>
                 (let ws = map (\<lambda>i. walk t (base + off1 + int i * fsz)) [0..<n]
                  in (concat (map fst ws), simple \<and> (\<forall>w \<in> set ws. snd (snd (snd w)))))
             | Field sub None c p \<Rightarrow>
                 (map (\<lambda>i. \<lparr>l_Sub = sub, l_Off = base + off1 + int i * fsz\<rparr>) [0..<n], simple));
          (ls', sze, align', simple') =
            walkFieldsSimple fs base pk (off1 + int n * fsz) align1 simple1
      in (ls @ ls', sze, align', simple'))"
| "field_SizeAlign (Field sub (Some t) c p) = (let (_, s, a, _) = walk t 0 in (s, a))"
| "field_SizeAlign (Field sub None c p) = (subcls_Size sub, subcls_Size sub)"

definition Layout :: "aggtype \<Rightarrow> int \<times> int" where
  "Layout t = (let (_, sze, align, _) = walk t 0 in (sze, align))"

definition Leaves :: "aggtype \<Rightarrow> leaf list \<times> bool" where
  "Leaves t = (let (ls, _, _, simple) = walk t 0 in (ls, simple))"

section \<open>Where an aggregate's leaves are\<close>

subsection \<open>The layout does not depend on the base offset\<close>


definition base_indep :: "aggtype \<Rightarrow> bool" where
  "base_indep t \<longleftrightarrow> (\<forall>b. snd (walk t b) = snd (walk t 0))"

definition field_indep :: "field \<Rightarrow> bool" where
  "field_indep f \<longleftrightarrow> (\<forall>t. fd_Type f = Some t \<longrightarrow> base_indep t)"

lemma base_indepD: "base_indep t \<Longrightarrow> snd (snd (snd (walk t b))) = snd (snd (snd (walk t 0)))"
  by (metis base_indep_def)

lemma walkFieldsSimple_base:
  "\<forall>f \<in> set fs. field_indep f \<Longrightarrow>
   snd (walkFieldsSimple fs b pk off al sm) = snd (walkFieldsSimple fs 0 pk off al sm)"
proof (induction fs arbitrary: off al sm)
  case Nil
  then show ?case by simp
next
  case (Cons f fs)
  have IH: "snd (walkFieldsSimple fs b pk off al sm) = snd (walkFieldsSimple fs 0 pk off al sm)" for off al sm
    by (rule Cons.IH) (use Cons.prems in simp)
  obtain sub ty c p where f: "f = Field sub ty c p" by (cases f)
  show ?case
  proof (cases ty)
    case None
    then show ?thesis by (simp add: f Let_def case_prod_unfold IH)
  next
    case (Some t)
    then have "base_indep t" using Cons.prems f by (simp add: field_indep_def)
    then obtain r where r: "\<And>x. snd (walk t x) = r" unfolding base_indep_def by blast
    show ?thesis using Some by (simp add: f Let_def case_prod_unfold IH r)
  qed
qed

lemma walkCases_base:
  "\<forall>c \<in> set cs. \<forall>f \<in> set c. field_indep f \<Longrightarrow>
   snd (walkCases cs b pk sz al) = snd (walkCases cs 0 pk sz al)"
proof (induction cs arbitrary: sz al)
  case (Cons c cs)
  have "snd (walkFieldsSimple c b pk 0 1 True) = snd (walkFieldsSimple c 0 pk 0 1 True)"
    by (rule walkFieldsSimple_base) (use Cons.prems in simp)
  moreover have "snd (walkCases cs b pk sz al) = snd (walkCases cs 0 pk sz al)" for sz al
    by (rule Cons.IH) (use Cons.prems in simp)
  ultimately show ?case by (simp add: Let_def case_prod_unfold)
qed simp

lemma base_indep_all: "base_indep t" "field_indep f"
proof (induction t and f)
  case (AggType nm al sz opq pk fs un cs)
  obtain r where r: "\<And>b. snd (walkFieldsSimple fs b pk 0 1 True) = r"
    using walkFieldsSimple_base[of fs _ pk 0 1 True] AggType by blast
  obtain q where q: "\<And>b. snd (walkCases cs b pk 0 1) = q"
    using walkCases_base[of cs _ pk 0 1] AggType by blast
  show ?case by (simp add: base_indep_def Let_def case_prod_unfold r q)
next
  case (Field sub ty c p)
  then show ?case by (auto simp: field_indep_def)
qed

definition agg_size :: "aggtype \<Rightarrow> int" where
  "agg_size t = fst (Layout t)"

definition agg_align :: "aggtype \<Rightarrow> int" where
  "agg_align t = snd (Layout t)"

lemma walk_eq: "walk t b = (fst (walk t b), agg_size t, agg_align t, snd (Leaves t))"
proof -
  have "snd (walk t b) = snd (walk t 0)"
    using base_indep_all(1) unfolding base_indep_def by blast
  then show ?thesis
    by (simp add: agg_size_def agg_align_def Layout_def Leaves_def Let_def case_prod_unfold prod_eq_iff)
qed

definition elem_leaves :: "field \<Rightarrow> int \<Rightarrow> leaf list" where
  "elem_leaves f b = (case fd_Type f of
     Some t \<Rightarrow> fst (walk t b) | None \<Rightarrow> [\<lparr>l_Sub = fd_Sub f, l_Off = b\<rparr>])"

definition elem_simple :: "field \<Rightarrow> bool" where
  "elem_simple f = (case fd_Type f of Some t \<Rightarrow> snd (Leaves t) | None \<Rightarrow> True)"

definition elem_size :: "field \<Rightarrow> int" where
  "elem_size f = fst (field_SizeAlign f)"

definition elem_align :: "field \<Rightarrow> int" where
  "elem_align f = snd (field_SizeAlign f)"

lemma elem_size_simps [simp]:
  "elem_size (Field sub (Some t) c p) = agg_size t"
  "elem_size (Field sub None c p) = subcls_Size sub"
  "elem_align (Field sub (Some t) c p) = agg_align t"
  "elem_align (Field sub None c p) = subcls_Size sub"
  by (simp_all add: elem_size_def elem_align_def agg_size_def agg_align_def Layout_def case_prod_unfold)

lemma field_count_pos: "field_count f \<ge> 1"
  by (simp add: field_count_def)

definition fields_leaves :: "field \<Rightarrow> int \<Rightarrow> leaf list" where
  "fields_leaves f b = concat (map (\<lambda>i. elem_leaves f (b + int i * elem_size f)) [0..<nat (field_count f)])"

lemma walkFieldsSimple_Cons:
  "walkFieldsSimple (f # fs) base pk off al sm =
     (let off1 = (if pk then off else roundUpInt off (elem_align f));
          (ls, sz, al', sm') = walkFieldsSimple fs base pk
             (off1 + field_count f * elem_size f)
             (if \<not> pk \<and> elem_align f > al then elem_align f else al) (sm \<and> elem_simple f)
      in (fields_leaves f (base + off1) @ ls, sz, al', sm'))"
proof -
  obtain sub ty c p where f: "f = Field sub ty c p" by (cases f)
  show ?thesis
  proof (cases ty)
    case None
    have "map (\<lambda>i. \<lparr>l_Sub = sub, l_Off = x + int i * s\<rparr>) [0..<n] =
       concat (map (\<lambda>i. [\<lparr>l_Sub = sub, l_Off = x + int i * s\<rparr>]) [0..<n])" for n x s
      by (induction n) auto
    with None f show ?thesis using field_count_pos[of f]
      by (simp add: Let_def case_prod_unfold fields_leaves_def elem_leaves_def elem_simple_def)
  next
    case (Some t)
    have *: "snd (walk t b) = (agg_size t, agg_align t, snd (Leaves t))" for b
      by (subst walk_eq) simp
    have ex: "(\<exists>w. w < nat (field_count f)) = True" using field_count_pos[of f] by (auto intro: exI[of _ 0])
    show ?thesis using Some field_count_pos[of f] ex
      by (simp add: f Let_def case_prod_unfold fields_leaves_def elem_leaves_def elem_simple_def * comp_def)
  qed
qed


declare walkFieldsSimple.simps(2) [simp del]

subsection \<open>Alignments are powers of two\<close>

definition pow2 :: "int \<Rightarrow> bool" where
  "pow2 a \<longleftrightarrow> (\<exists>k < (63 :: nat). a = 2 ^ k)"

lemma pow2_pos: "pow2 a \<Longrightarrow> 0 < a"
  by (auto simp: pow2_def)

lemma pow2_dvd: "pow2 a \<Longrightarrow> pow2 b \<Longrightarrow> a \<le> b \<Longrightarrow> a dvd b"
proof -
  assume "pow2 a" "pow2 b" "a \<le> b"
  then obtain i j where ij: "a = 2 ^ i" "b = 2 ^ j" by (auto simp: pow2_def)
  with \<open>a \<le> b\<close> have "i \<le> j" by simp
  with ij show ?thesis by (simp add: le_imp_power_dvd)
qed

lemma pow2_I: "k < 63 \<Longrightarrow> pow2 (2 ^ k)"
  by (auto simp: pow2_def)

lemma pow2_numerals [simp]: "pow2 1" "pow2 2" "pow2 4" "pow2 8" "pow2 16"
  using pow2_I[of 0] pow2_I[of 1] pow2_I[of 2] pow2_I[of 3] pow2_I[of 4] by simp_all

lemma pow2_subcls_Size [simp]: "pow2 (subcls_Size s)"
  by (cases s) auto

lemma subcls_Size_pos [simp]: "0 < subcls_Size s" by (cases s) auto

lemma roundUpInt_props:
  assumes "0 \<le> n" "0 < a"
  shows "n \<le> roundUpInt n a" "a dvd roundUpInt n a" "roundUpInt n a < n + a"
proof -
  have "(n + a - 1) sdiv a = (n + a - 1) div a"
    using assms by (simp add: signed_divide_int_def sgn_if)
  then have eq: "roundUpInt n a = (n + a - 1) div a * a"
    using assms by (simp add: roundUpInt_def)
  have m: "(n + a - 1) div a * a + (n + a - 1) mod a = n + a - 1" by simp
  have b: "0 \<le> (n + a - 1) mod a" "(n + a - 1) mod a < a" using assms by simp_all
  show "n \<le> roundUpInt n a" "roundUpInt n a < n + a" using eq m b by linarith+
  show "a dvd roundUpInt n a" by (simp add: eq)
qed

subsection \<open>Where the leaves are\<close>

definition leaf_end :: "leaf \<Rightarrow> int" where
  "leaf_end l = l_Off l + subcls_Size (l_Sub l)"

definition leaves_within :: "int \<Rightarrow> int \<Rightarrow> leaf list \<Rightarrow> bool" where
  "leaves_within lo hi ls \<longleftrightarrow> (\<forall>l \<in> set ls. lo \<le> l_Off l \<and> leaf_end l \<le> hi)"

definition leaves_ordered :: "leaf list \<Rightarrow> bool" where
  "leaves_ordered ls \<longleftrightarrow> sorted_wrt (\<lambda>x y. leaf_end x \<le> l_Off y) ls"

lemma leaves_within_append [simp]:
  "leaves_within lo hi (xs @ ys) \<longleftrightarrow> leaves_within lo hi xs \<and> leaves_within lo hi ys"
  by (auto simp: leaves_within_def)

lemma leaves_within_mono:
  "leaves_within lo hi ls \<Longrightarrow> lo' \<le> lo \<Longrightarrow> hi \<le> hi' \<Longrightarrow> leaves_within lo' hi' ls"
  by (force simp: leaves_within_def)

lemma leaves_ordered_append:
  "leaves_ordered xs \<Longrightarrow> leaves_ordered ys \<Longrightarrow> leaves_within lo mid xs \<Longrightarrow>
   leaves_within mid hi ys \<Longrightarrow> leaves_ordered (xs @ ys)"
  by (force simp: leaves_ordered_def sorted_wrt_append leaves_within_def)

text \<open>An inline array is its element's leaves, one stride after the other.\<close>

lemma concat_strides:
  assumes "0 \<le> s" and w: "\<And>b. leaves_within b (b + s) (g b)"
  shows "leaves_within b (b + int n * s) (concat (map (\<lambda>i. g (b + int i * s)) [0..<n]))"
    and "(\<And>b. leaves_ordered (g b)) \<Longrightarrow>
         leaves_ordered (concat (map (\<lambda>i. g (b + int i * s)) [0..<n]))"
proof (induction n)
  case 0
  case 1 show ?case by (simp add: leaves_within_def)
next
  case 0
  case 2 show ?case by (simp add: leaves_ordered_def)
next
  case (Suc n)
  case 1
  have "leaves_within (b + int n * s) (b + int n * s + s) (g (b + int n * s))" by (rule w)
  with Suc(1) show ?case using assms(1)
    by (auto simp: algebra_simps elim!: leaves_within_mono intro!: mult_nonneg_nonneg)
next
  case (Suc n)
  case 2
  show ?case
    using leaves_ordered_append[OF Suc(2)[OF 2] 2 Suc(1) w] by simp
qed


subsection \<open>Layout invariants\<close>

text \<open>
  Well-formed aggregates: explicit alignments are absent (0) or powers of two, opaque sizes are
  nonnegative, and so for every nested type.
\<close>

fun wf_agg :: "aggtype \<Rightarrow> bool" and wf_field :: "field \<Rightarrow> bool" where
  "wf_agg (AggType nm al sz opq pk fs un cs) \<longleftrightarrow>
     (al = 0 \<or> pow2 al) \<and> 0 \<le> sz \<and> (\<forall>f \<in> set fs. wf_field f) \<and> (\<forall>c \<in> set cs. \<forall>f \<in> set c. wf_field f)"
| "wf_field (Field sub (Some t) c p) \<longleftrightarrow> wf_agg t"
| "wf_field (Field sub None c p) \<longleftrightarrow> True"

definition agg_ok :: "aggtype \<Rightarrow> bool" where
  "agg_ok t \<longleftrightarrow> 0 \<le> agg_size t \<and> pow2 (agg_align t) \<and>
     (\<forall>b. leaves_within b (b + agg_size t) (fst (walk t b))) \<and>
     (snd (Leaves t) \<longrightarrow> (\<forall>b. leaves_ordered (fst (walk t b))))"

definition field_ok :: "field \<Rightarrow> bool" where
  "field_ok f \<longleftrightarrow> 0 \<le> elem_size f \<and> pow2 (elem_align f) \<and>
     (\<forall>b. leaves_within b (b + elem_size f) (elem_leaves f b)) \<and>
     (elem_simple f \<longrightarrow> (\<forall>b. leaves_ordered (elem_leaves f b)))"

lemma field_ok_Field:
  "(\<And>t. ty = Some t \<Longrightarrow> agg_ok t) \<Longrightarrow> field_ok (Field sub ty c p)"
  using less_imp_le[OF subcls_Size_pos[of sub]]
  by (cases ty) (auto simp: field_ok_def agg_ok_def elem_leaves_def elem_simple_def
      leaves_within_def leaves_ordered_def leaf_end_def)

lemma fields_leaves_ok:
  assumes "field_ok f"
  shows "leaves_within b (b + field_count f * elem_size f) (fields_leaves f b)"
    and "elem_simple f \<Longrightarrow> leaves_ordered (fields_leaves f b)"
  using concat_strides[of "elem_size f" "elem_leaves f" b "nat (field_count f)"]
    assms field_count_pos[of f]
  by (auto simp: field_ok_def fields_leaves_def)

lemma walkFieldsSimple_ok:
  assumes "\<forall>f \<in> set fs. field_ok f" "0 \<le> off" "pow2 al"
    and "walkFieldsSimple fs base pk off al sm = (ls, sz, al', sm')"
  shows "off \<le> sz \<and> pow2 al' \<and> al \<le> al' \<and> leaves_within (base + off) (base + sz) ls \<and>
    (sm' \<longrightarrow> sm \<and> leaves_ordered ls)"
  using assms
proof (induction fs arbitrary: off al sm ls)
  case Nil
  then show ?case by (auto simp: leaves_within_def leaves_ordered_def)
next
  case (Cons f fs)
  define off1 where "off1 = (if pk then off else roundUpInt off (elem_align f))"
  define al1 where "al1 = (if \<not> pk \<and> elem_align f > al then elem_align f else al)"
  define mid where "mid = off1 + field_count f * elem_size f"
  have f: "field_ok f" using Cons.prems by simp
  then have fpos: "0 < elem_align f" "0 \<le> elem_size f" by (auto simp: field_ok_def pow2_pos)
  have off1: "off \<le> off1" using roundUpInt_props(1)[OF Cons.prems(2) fpos(1)] by (simp add: off1_def)
  have mid: "off1 \<le> mid" using fpos field_count_pos[of f] by (simp add: mid_def)
  have al1: "pow2 al1" "al \<le> al1" using f Cons.prems(3) by (auto simp: al1_def field_ok_def)
  obtain ls2 where ls2: "walkFieldsSimple fs base pk mid al1 (sm \<and> elem_simple f) = (ls2, sz, al', sm')"
    and ls: "ls = fields_leaves f (base + off1) @ ls2"
    using Cons.prems(4) by (auto simp: walkFieldsSimple_Cons Let_def off1_def al1_def mid_def
        split: prod.splits)
  have rest: "mid \<le> sz" "pow2 al'" "al1 \<le> al'" "leaves_within (base + mid) (base + sz) ls2"
    "sm' \<Longrightarrow> sm \<and> elem_simple f \<and> leaves_ordered ls2"
    using Cons.IH[OF _ _ al1(1) ls2] Cons.prems off1 mid by auto
  have here: "leaves_within (base + off1) (base + mid) (fields_leaves f (base + off1))"
    using fields_leaves_ok(1)[OF f, of "base + off1"] by (simp add: mid_def add.assoc)
  have "leaves_ordered ls" if sm'
    unfolding ls using rest(4) rest(5)[OF that] fields_leaves_ok(2)[OF f] here
    by (auto intro: leaves_ordered_append)
  moreover have "leaves_within (base + off) (base + sz) ls"
    unfolding ls using here rest(1,4) off1 mid by (auto elim!: leaves_within_mono)
  ultimately show ?case using rest off1 mid al1 by auto
qed

lemma walkCases_ok:
  assumes "\<forall>c \<in> set cs. \<forall>f \<in> set c. field_ok f" "0 \<le> sz" "pow2 al"
    and "walkCases cs base pk sz al = (ls, sz', al')"
  shows "sz \<le> sz' \<and> pow2 al' \<and> leaves_within base (base + sz') ls"
  using assms
proof (induction cs arbitrary: sz al ls)
  case Nil
  then show ?case by (auto simp: leaves_within_def)
next
  case (Cons c cs)
  obtain ls1 s a m where w: "walkFieldsSimple c base pk 0 1 True = (ls1, s, a, m)"
    by (metis prod_cases4)
  have c: "0 \<le> s" "pow2 a" "leaves_within base (base + s) ls1"
    using walkFieldsSimple_ok[OF _ _ _ w] Cons.prems(1) by auto
  obtain ls2 where w2: "walkCases cs base pk (max sz s) (max al a) = (ls2, sz', al')"
    and ls: "ls = ls1 @ ls2"
    using Cons.prems(4) by (auto simp: w Let_def max_def split: prod.splits if_splits)
  have m: "pow2 (max al a)" using c Cons.prems(3) by (simp add: max_def)
  have "max sz s \<le> sz' \<and> pow2 al' \<and> leaves_within base (base + sz') ls2"
    using Cons.IH[OF _ _ m w2] Cons.prems by auto
  then show ?case using c ls by (auto elim: leaves_within_mono)
qed

lemma wf_agg_ok: "wf_agg t \<Longrightarrow> agg_ok t" "wf_field f \<Longrightarrow> field_ok f"
proof (induction t and f)
  case (AggType nm al sz opq pk fs un cs)
  let ?t = "AggType nm al sz opq pk fs un cs"
  have fs: "\<forall>f \<in> set fs. field_ok f" and cs: "\<forall>c \<in> set cs. \<forall>f \<in> set c. field_ok f"
    using AggType by auto
  have al: "al = 0 \<or> pow2 al" and sz: "0 \<le> sz" using AggType.prems by simp_all
  have round: "s \<le> roundUpInt s a \<and> pow2 a" if "0 \<le> s" "pow2 a" for s a
    using roundUpInt_props(1)[of s a] that pow2_pos by simp
  have A: "pow2 (if a < al then al else a)" if "pow2 a" for a
    using al that pow2_pos[OF that] by auto
  have "0 \<le> s \<and> pow2 a \<and> leaves_within b (b + s) ls \<and> (m \<longrightarrow> leaves_ordered ls)"
    if w: "walk ?t b = (ls, s, a, m)" for b ls s a m
  proof (cases opq)
    case True
    with w al sz show ?thesis by (auto simp: leaves_within_def split: if_splits)
  next
    case False
    obtain ls0 s0 a0 m0 where w0: "(if un then (let (ls, s, a) = walkCases cs b pk 0 1 in (ls, s, a, False))
         else walkFieldsSimple fs b pk 0 1 True) = (ls0, s0, a0, m0)"
      by (metis prod_cases4)
    have ok: "0 \<le> s0 \<and> pow2 a0 \<and> leaves_within b (b + s0) ls0 \<and> (m0 \<longrightarrow> leaves_ordered ls0)"
    proof (cases un)
      case True
      with w0 walkCases_ok[OF cs, of 0 1 b pk] show ?thesis by (auto split: prod.splits)
    next
      case False
      with w0 walkFieldsSimple_ok[OF fs, of 0 1 b pk True] show ?thesis by auto
    qed
    have eq: "a = (if a0 < al then al else a0)" "s = roundUpInt s0 a" "ls = ls0" "m = m0"
      using w False w0 by (auto simp: Let_def split: if_splits prod.splits)
    have "pow2 a" using ok A eq by blast
    then have "s0 \<le> s" using round ok eq by blast
    then show ?thesis using ok eq \<open>pow2 a\<close> by (auto elim: leaves_within_mono)
  qed
  then show ?case unfolding agg_ok_def using walk_eq[of ?t] by metis
next
  case (Field sub ty c p)
  then show ?case by (intro field_ok_Field) auto
qed


text \<open>Natural alignment, for aggregates in which no type is packed.\<close>

fun unpacked :: "aggtype \<Rightarrow> bool" and unpacked_field :: "field \<Rightarrow> bool" where
  "unpacked (AggType nm al sz opq pk fs un cs) \<longleftrightarrow>
     \<not> pk \<and> (\<forall>f \<in> set fs. unpacked_field f) \<and> (\<forall>c \<in> set cs. \<forall>f \<in> set c. unpacked_field f)"
| "unpacked_field (Field sub (Some t) c p) \<longleftrightarrow> unpacked t"
| "unpacked_field (Field sub None c p) \<longleftrightarrow> True"

definition leaves_aligned :: "int \<Rightarrow> int \<Rightarrow> leaf list \<Rightarrow> bool" where
  "leaves_aligned b a ls \<longleftrightarrow>
     (\<forall>l \<in> set ls. subcls_Size (l_Sub l) dvd (l_Off l - b) \<and> subcls_Size (l_Sub l) dvd a)"

definition agg_aligned :: "aggtype \<Rightarrow> bool" where
  "agg_aligned t \<longleftrightarrow> (\<forall>b. leaves_aligned b (agg_align t) (fst (walk t b))) \<and>
     (agg_align t dvd agg_size t \<or> (\<forall>b. fst (walk t b) = []))"

definition field_aligned :: "field \<Rightarrow> bool" where
  "field_aligned f \<longleftrightarrow> (\<forall>b. leaves_aligned b (elem_align f) (elem_leaves f b)) \<and>
     (elem_align f dvd elem_size f \<or> (\<forall>b. elem_leaves f b = []))"

lemma field_aligned_Field:
  "(\<And>t. ty = Some t \<Longrightarrow> agg_aligned t) \<Longrightarrow> field_aligned (Field sub ty c p)"
  by (cases ty) (auto simp: field_aligned_def agg_aligned_def elem_leaves_def leaves_aligned_def)

lemma leaves_aligned_append [simp]:
  "leaves_aligned b a (xs @ ys) \<longleftrightarrow> leaves_aligned b a xs \<and> leaves_aligned b a ys"
  by (auto simp: leaves_aligned_def)

lemma leaves_aligned_shift:
  "leaves_aligned b a ls \<Longrightarrow> a dvd (b - b') \<Longrightarrow> a dvd a' \<Longrightarrow> leaves_aligned b' a' ls"
  unfolding leaves_aligned_def
proof (intro ballI conjI)
  fix l assume *: "\<forall>l \<in> set ls. subcls_Size (l_Sub l) dvd (l_Off l - b) \<and> subcls_Size (l_Sub l) dvd a"
    and "a dvd (b - b')" "a dvd a'" "l \<in> set ls"
  then have "subcls_Size (l_Sub l) dvd (l_Off l - b) + (b - b')"
    by (meson dvd_add dvd_trans)
  then show "subcls_Size (l_Sub l) dvd (l_Off l - b')" by simp
  show "subcls_Size (l_Sub l) dvd a'" using * \<open>a dvd a'\<close> \<open>l \<in> set ls\<close> by (meson dvd_trans)
qed

lemma fields_leaves_aligned:
  assumes "field_aligned f" "elem_align f dvd (b - base)" "elem_align f dvd a"
  shows "leaves_aligned base a (fields_leaves f b)"
proof (cases "\<forall>b. elem_leaves f b = []")
  case True
  then show ?thesis by (simp add: fields_leaves_def leaves_aligned_def)
next
  case False
  then have d: "elem_align f dvd elem_size f" using assms(1) by (auto simp: field_aligned_def)
  have "leaves_aligned base a (elem_leaves f (b + int i * elem_size f))" for i
  proof (rule leaves_aligned_shift[OF _ _ assms(3)])
    show "leaves_aligned (b + int i * elem_size f) (elem_align f) (elem_leaves f (b + int i * elem_size f))"
      using assms(1) by (simp add: field_aligned_def)
    have "b + int i * elem_size f - base = (b - base) + int i * elem_size f" by simp
    then show "elem_align f dvd b + int i * elem_size f - base"
      using assms(2) d by (metis dvd_add dvd_mult)
  qed
  then show ?thesis by (auto simp: fields_leaves_def leaves_aligned_def)
qed

lemma walkFieldsSimple_aligned:
  assumes "\<forall>f \<in> set fs. field_ok f \<and> field_aligned f" "0 \<le> off" "pow2 al"
    and "walkFieldsSimple fs base False off al sm = (ls, sz, al', sm')"
  shows "leaves_aligned base al' ls"
  using assms
proof (induction fs arbitrary: off al sm ls)
  case Nil
  then show ?case by (auto simp: leaves_aligned_def)
next
  case (Cons f fs)
  define off1 where "off1 = roundUpInt off (elem_align f)"
  define al1 where "al1 = (if elem_align f > al then elem_align f else al)"
  define mid where "mid = off1 + field_count f * elem_size f"
  have f: "field_ok f" "field_aligned f" using Cons.prems by simp_all
  then have fpos: "pow2 (elem_align f)" "0 < elem_align f" "0 \<le> elem_size f"
    by (auto simp: field_ok_def pow2_pos)
  note ru = roundUpInt_props[OF Cons.prems(2) fpos(2)]
  have al1: "pow2 al1" "elem_align f \<le> al1" using fpos Cons.prems(3) by (auto simp: al1_def)
  have mid: "0 \<le> mid"
    using ru(1) Cons.prems(2) fpos(3) field_count_pos[of f] by (simp add: mid_def off1_def)
  obtain ls2 where ls2: "walkFieldsSimple fs base False mid al1 (sm \<and> elem_simple f) = (ls2, sz, al', sm')"
    and ls: "ls = fields_leaves f (base + off1) @ ls2"
    using Cons.prems(4) by (auto simp: walkFieldsSimple_Cons Let_def off1_def al1_def mid_def
        split: prod.splits)
  have "pow2 al' \<and> al1 \<le> al'"
    using walkFieldsSimple_ok[OF _ mid al1(1) ls2] Cons.prems(1) by auto
  then have "elem_align f dvd al'" using fpos(1) al1 pow2_dvd by force
  moreover have "elem_align f dvd base + off1 - base" using ru(2) by (simp add: off1_def)
  ultimately have "leaves_aligned base al' (fields_leaves f (base + off1))"
    by (rule fields_leaves_aligned[OF f(2), rotated])
  moreover have "leaves_aligned base al' ls2"
    using Cons.IH[OF _ mid al1(1) ls2] Cons.prems(1) by simp
  ultimately show ?case by (simp add: ls)
qed

lemma walkCases_aligned:
  assumes "\<forall>c \<in> set cs. \<forall>f \<in> set c. field_ok f \<and> field_aligned f" "0 \<le> sz" "pow2 al"
    and "walkCases cs base False sz al = (ls, sz', al')"
  shows "leaves_aligned base al' ls \<and> pow2 al' \<and> al \<le> al'"
  using assms
proof (induction cs arbitrary: sz al ls)
  case Nil
  then show ?case by (auto simp: leaves_aligned_def)
next
  case (Cons c cs)
  obtain ls1 s a m where w: "walkFieldsSimple c base False 0 1 True = (ls1, s, a, m)"
    by (metis prod_cases4)
  have c: "pow2 a" "0 \<le> s" "leaves_aligned base a ls1"
    using walkFieldsSimple_ok[OF _ _ _ w] walkFieldsSimple_aligned[OF _ _ _ w] Cons.prems(1) by auto
  obtain ls2 where w2: "walkCases cs base False (max sz s) (max al a) = (ls2, sz', al')"
    and ls: "ls = ls1 @ ls2"
    using Cons.prems(4) by (auto simp: w Let_def max_def split: prod.splits if_splits)
  have m: "pow2 (max al a)" using c Cons.prems(3) by (simp add: max_def)
  have r: "leaves_aligned base al' ls2 \<and> pow2 al' \<and> max al a \<le> al'"
    using Cons.IH[OF _ _ m w2] Cons.prems by auto
  then have "a dvd al'" using c(1) pow2_dvd by auto
  then show ?case using c r leaves_aligned_shift[of base a ls1 base al'] ls by auto
qed

lemma unpacked_aligned:
  "wf_agg t \<Longrightarrow> unpacked t \<Longrightarrow> agg_aligned t" "wf_field f \<Longrightarrow> unpacked_field f \<Longrightarrow> field_aligned f"
proof (induction t and f)
  case (AggType nm al sz opq pk fs un cs)
  let ?t = "AggType nm al sz opq pk fs un cs"
  have fs: "\<forall>f \<in> set fs. field_ok f \<and> field_aligned f"
    and cs: "\<forall>c \<in> set cs. \<forall>f \<in> set c. field_ok f \<and> field_aligned f"
    using AggType wf_agg_ok(2) by auto
  have pk: "\<not> pk" and al: "al = 0 \<or> pow2 al" using AggType.prems by simp_all
  have "leaves_aligned b a ls \<and> (a dvd s \<or> opq)"
    if w: "walk ?t b = (ls, s, a, m)" for b ls s a m
  proof (cases opq)
    case True
    with w show ?thesis by (auto simp: leaves_aligned_def split: if_splits)
  next
    case False
    obtain ls0 s0 a0 m0 where w0: "(if un then (let (ls, s, a) = walkCases cs b pk 0 1 in (ls, s, a, False))
         else walkFieldsSimple fs b pk 0 1 True) = (ls0, s0, a0, m0)"
      by (metis prod_cases4)
    have ok: "pow2 a0 \<and> leaves_aligned b a0 ls0 \<and> 0 \<le> s0"
    proof (cases un)
      case True
      with w0 walkCases_aligned[OF cs, of 0 1 b] walkCases_ok[of cs 0 1 b False] cs pk
      show ?thesis by (auto split: prod.splits)
    next
      case False
      with w0 walkFieldsSimple_aligned[OF fs, of 0 1 b True] walkFieldsSimple_ok[of fs 0 1 b False True] fs pk
      show ?thesis by auto
    qed
    have eq: "a = (if a0 < al then al else a0)" "s = roundUpInt s0 a" "ls = ls0"
      using w False w0 by (auto simp: Let_def split: if_splits prod.splits)
    have a: "pow2 a" "a0 \<le> a" using ok al eq(1) pow2_pos[of a0] by auto
    then have "a0 dvd a" using ok pow2_dvd by blast
    moreover have "a dvd s" using roundUpInt_props(2)[of s0 a] ok a pow2_pos eq by blast
    ultimately show ?thesis using ok eq leaves_aligned_shift[of b a0 ls0 b a] by simp
  qed
  note * = this
  have "fst (walk ?t b) = []" if opq for b using that by simp
  with * show ?case unfolding agg_aligned_def using walk_eq[of ?t] by metis
next
  case (Field sub ty c p)
  then show ?case by (intro field_aligned_Field) auto
qed


section \<open>Properties\<close>


definition example_inner :: aggtype where
  "example_inner = AggType ''inner'' 0 0 False False
     [Field SubUH None 1 False, Field SubL None 1 False] False []"

definition example_agg :: aggtype where
  "example_agg = AggType ''outer'' 0 0 False False
     [Field SubUB None 1 False, Field SubW None 3 False, Field SubB (Some example_inner) 2 False]
     False []"

lemma example_agg_eval:
  "wf_agg example_agg" "unpacked example_agg" "Layout example_agg = (48, 8)"
  "Leaves example_agg =
     ([\<lparr>l_Sub = SubUB, l_Off = 0\<rparr>, \<lparr>l_Sub = SubW, l_Off = 4\<rparr>, \<lparr>l_Sub = SubW, l_Off = 8\<rparr>,
       \<lparr>l_Sub = SubW, l_Off = 12\<rparr>, \<lparr>l_Sub = SubUH, l_Off = 16\<rparr>, \<lparr>l_Sub = SubL, l_Off = 24\<rparr>,
       \<lparr>l_Sub = SubUH, l_Off = 32\<rparr>, \<lparr>l_Sub = SubL, l_Off = 40\<rparr>], True)"
  by code_simp+


text \<open>
  In an aggregate with no packed type every leaf is naturally aligned: its size divides its
  offset and the alignment of the whole aggregate.
\<close>

theorem Leaves_naturally_aligned:
  assumes "wf_agg t" and "unpacked t" and "l \<in> set (fst (Leaves t))"
  shows "subcls_Size (l_Sub l) dvd l_Off l \<and> subcls_Size (l_Sub l) dvd snd (Layout t)"
proof -
  have "agg_aligned t" using assms(1,2) by (rule unpacked_aligned)
  then have "leaves_aligned 0 (agg_align t) (fst (walk t 0))" by (simp add: agg_aligned_def)
  with assms(3) show ?thesis
    by (auto simp: leaves_aligned_def agg_align_def Leaves_def Let_def case_prod_unfold)
qed

theorem Leaves_naturally_aligned_witness:
  "subcls_Size SubL dvd (40 :: int) \<and> subcls_Size SubL dvd snd (Layout example_agg)"
  using Leaves_naturally_aligned[OF example_agg_eval(1,2), of "\<lparr>l_Sub = SubL, l_Off = 40\<rparr>"]
  by (simp add: example_agg_eval(4))

end
