(* ===== verification/IR_Ops.thy ===== *)
theory IR_Ops
  imports IR_Types
begin

text \<open>
  Operand references (\<open>ir/ref.go\<close>) and opcodes (\<open>ir/op.go\<close>): the opcode numbers, the static table
  of their metadata, the mnemonic lookup the parser uses, and comparison predicates.
\<close>

section \<open>References\<close>

text \<open>
  The two burned kinds of the source have no constructor; \<open>refkind_num\<close> gives each kind the
  number the binary encoding writes.  A reference's id is a \<open>uint32\<close> index, modelled as \<open>nat\<close>.
\<close>

datatype refkind = RefNone | RefTemp | RefConst | RefType | RefSlot | RefReg | RefAggregate

primrec refkind_num :: "refkind \<Rightarrow> nat" where
  "refkind_num RefNone = 0"
| "refkind_num RefTemp = 1"
| "refkind_num RefConst = 2"
| "refkind_num RefType = 3"
| "refkind_num RefSlot = 4"
| "refkind_num RefReg = 7"
| "refkind_num RefAggregate = 8"

record ref =
  r_Kind :: refkind
  r_ID :: nat

definition R :: ref where
  "R = \<lparr>r_Kind = RefNone, r_ID = 0\<rparr>"

definition ref_IsNone :: "ref \<Rightarrow> bool" where
  "ref_IsNone r \<longleftrightarrow> r_Kind r = RefNone"

definition ref_IsTemp :: "ref \<Rightarrow> bool" where
  "ref_IsTemp r \<longleftrightarrow> r_Kind r = RefTemp"

definition ref_IsConst :: "ref \<Rightarrow> bool" where
  "ref_IsConst r \<longleftrightarrow> r_Kind r = RefConst"

definition tempRef :: "nat \<Rightarrow> ref" where
  "tempRef n = \<lparr>r_Kind = RefTemp, r_ID = n\<rparr>"

definition constRef :: "nat \<Rightarrow> ref" where
  "constRef n = \<lparr>r_Kind = RefConst, r_ID = n\<rparr>"

definition typeRef :: "nat \<Rightarrow> ref" where
  "typeRef n = \<lparr>r_Kind = RefType, r_ID = n\<rparr>"

definition slotRef :: "nat \<Rightarrow> ref" where
  "slotRef n = \<lparr>r_Kind = RefSlot, r_ID = n\<rparr>"

lemmas ref_defs [ir_defs] = R_def ref_IsNone_def ref_IsTemp_def ref_IsConst_def tempRef_def
  constRef_def typeRef_def slotRef_def

lemma ref_sel [simp]:
  "r_Kind R = RefNone" "r_Kind (tempRef n) = RefTemp" "r_ID (tempRef n) = n"
  "r_Kind (constRef n) = RefConst" "r_ID (constRef n) = n"
  by (simp_all add: ref_defs)

lemma tempRef_inject [simp]: "tempRef a = tempRef b \<longleftrightarrow> a = b"
  by (simp add: tempRef_def)

lemma constRef_inject [simp]: "constRef a = constRef b \<longleftrightarrow> a = b"
  by (simp add: constRef_def)

lemma ref_temp_eta: "r_Kind r = RefTemp \<Longrightarrow> r = tempRef (r_ID r)"
  by (cases r) (simp add: tempRef_def)

lemma ref_const_eta: "r_Kind r = RefConst \<Longrightarrow> r = constRef (r_ID r)"
  by (cases r) (simp add: constRef_def)

section \<open>Opcodes\<close>

text \<open>
  \<open>Op\<close> is a \<open>uint16\<close> whose constants are consecutive, with the burned numbers skipped; each opcode
  constant below is its number in the source.
\<close>

datatype op = Op (op_num: nat)

instantiation op :: linorder
begin

definition less_eq_op :: "op \<Rightarrow> op \<Rightarrow> bool" where
  "less_eq_op a b \<longleftrightarrow> op_num a \<le> op_num b"

definition less_op :: "op \<Rightarrow> op \<Rightarrow> bool" where
  "less_op a b \<longleftrightarrow> op_num a < op_num b"

instance
  by standard (auto simp: less_eq_op_def less_op_def intro: op.expand)

end

lemma Op_le [simp]: "Op a \<le> Op b \<longleftrightarrow> a \<le> b"
  by (simp add: less_eq_op_def)

abbreviation ONop :: op where "ONop \<equiv> Op 0"
abbreviation OAdd :: op where "OAdd \<equiv> Op 1"
abbreviation OSub :: op where "OSub \<equiv> Op 2"
abbreviation OMul :: op where "OMul \<equiv> Op 3"
abbreviation ODiv :: op where "ODiv \<equiv> Op 4"
abbreviation OUDiv :: op where "OUDiv \<equiv> Op 5"
abbreviation ORem :: op where "ORem \<equiv> Op 6"
abbreviation OURem :: op where "OURem \<equiv> Op 7"
abbreviation OAnd :: op where "OAnd \<equiv> Op 8"
abbreviation OOr :: op where "OOr \<equiv> Op 9"
abbreviation OXor :: op where "OXor \<equiv> Op 10"
abbreviation OShl :: op where "OShl \<equiv> Op 11"
abbreviation OShr :: op where "OShr \<equiv> Op 12"
abbreviation OSar :: op where "OSar \<equiv> Op 13"
abbreviation ONeg :: op where "ONeg \<equiv> Op 14"
abbreviation OCmp :: op where "OCmp \<equiv> Op 15"
abbreviation OStoreb :: op where "OStoreb \<equiv> Op 16"
abbreviation OStoreh :: op where "OStoreh \<equiv> Op 17"
abbreviation OStorew :: op where "OStorew \<equiv> Op 18"
abbreviation OStorel :: op where "OStorel \<equiv> Op 19"
abbreviation OStores :: op where "OStores \<equiv> Op 20"
abbreviation OStored :: op where "OStored \<equiv> Op 21"
abbreviation OStoreq :: op where "OStoreq \<equiv> Op 22"
abbreviation OLoadsb :: op where "OLoadsb \<equiv> Op 23"
abbreviation OLoadub :: op where "OLoadub \<equiv> Op 24"
abbreviation OLoadsh :: op where "OLoadsh \<equiv> Op 25"
abbreviation OLoaduh :: op where "OLoaduh \<equiv> Op 26"
abbreviation OLoadsw :: op where "OLoadsw \<equiv> Op 27"
abbreviation OLoaduw :: op where "OLoaduw \<equiv> Op 28"
abbreviation OLoadl :: op where "OLoadl \<equiv> Op 29"
abbreviation OLoads :: op where "OLoads \<equiv> Op 30"
abbreviation OLoadd :: op where "OLoadd \<equiv> Op 31"
abbreviation OLoadq :: op where "OLoadq \<equiv> Op 32"
abbreviation OAlloc4 :: op where "OAlloc4 \<equiv> Op 33"
abbreviation OAlloc8 :: op where "OAlloc8 \<equiv> Op 34"
abbreviation OAlloc16 :: op where "OAlloc16 \<equiv> Op 35"
abbreviation OAllocN :: op where "OAllocN \<equiv> Op 36"
abbreviation OHeapAlloc :: op where "OHeapAlloc \<equiv> Op 39"
abbreviation OBlit :: op where "OBlit \<equiv> Op 40"
abbreviation OExtsb :: op where "OExtsb \<equiv> Op 41"
abbreviation OExtub :: op where "OExtub \<equiv> Op 42"
abbreviation OExtsh :: op where "OExtsh \<equiv> Op 43"
abbreviation OExtuh :: op where "OExtuh \<equiv> Op 44"
abbreviation OExtsw :: op where "OExtsw \<equiv> Op 45"
abbreviation OExtuw :: op where "OExtuw \<equiv> Op 46"
abbreviation OExts :: op where "OExts \<equiv> Op 47"
abbreviation OTruncd :: op where "OTruncd \<equiv> Op 48"
abbreviation OStosi :: op where "OStosi \<equiv> Op 49"
abbreviation OStoui :: op where "OStoui \<equiv> Op 50"
abbreviation OSltof :: op where "OSltof \<equiv> Op 51"
abbreviation OUltof :: op where "OUltof \<equiv> Op 52"
abbreviation OCast :: op where "OCast \<equiv> Op 53"
abbreviation OCopy :: op where "OCopy \<equiv> Op 54"
abbreviation OCall :: op where "OCall \<equiv> Op 55"
abbreviation OArg :: op where "OArg \<equiv> Op 56"
abbreviation OPar :: op where "OPar \<equiv> Op 58"
abbreviation OParEnv :: op where "OParEnv \<equiv> Op 59"
abbreviation OVaStart :: op where "OVaStart \<equiv> Op 60"
abbreviation OVaArg :: op where "OVaArg \<equiv> Op 61"
abbreviation OBlockAddr :: op where "OBlockAddr \<equiv> Op 62"
abbreviation OGetReg :: op where "OGetReg \<equiv> Op 63"
abbreviation OSetReg :: op where "OSetReg \<equiv> Op 64"
abbreviation OThreadPtr :: op where "OThreadPtr \<equiv> Op 67"
abbreviation OTLSOffset :: op where "OTLSOffset \<equiv> Op 68"
abbreviation OTLSIndexAddr :: op where "OTLSIndexAddr \<equiv> Op 69"
abbreviation OSafepoint :: op where "OSafepoint \<equiv> Op 70"
abbreviation ORotr :: op where "ORotr \<equiv> Op 71"
abbreviation OBic :: op where "OBic \<equiv> Op 72"
abbreviation OPacia :: op where "OPacia \<equiv> Op 73"
abbreviation OClz :: op where "OClz \<equiv> Op 74"
abbreviation OAsm :: op where "OAsm \<equiv> Op 75"
abbreviation OSel :: op where "OSel \<equiv> Op 76"
abbreviation OIntrinsic :: op where "OIntrinsic \<equiv> Op 77"
abbreviation OMAdd :: op where "OMAdd \<equiv> Op 78"
abbreviation OMSub :: op where "OMSub \<equiv> Op 79"
abbreviation OSpill :: op where "OSpill \<equiv> Op 80"
abbreviation OReload :: op where "OReload \<equiv> Op 81"
abbreviation OLifeStart :: op where "OLifeStart \<equiv> Op 82"
abbreviation OLifeEnd :: op where "OLifeEnd \<equiv> Op 83"
abbreviation OUMulh :: op where "OUMulh \<equiv> Op 84"
abbreviation OSMulh :: op where "OSMulh \<equiv> Op 85"
abbreviation OCCmp :: op where "OCCmp \<equiv> Op 86"

abbreviation numOps :: nat where "numOps \<equiv> 87"

record opInfo =
  oi_name :: string
  oi_hasResult :: bool
  oi_commutative :: bool
  oi_private :: bool

definition opInfo0 :: opInfo where
  "opInfo0 = \<lparr>oi_name = [], oi_hasResult = False, oi_commutative = False, oi_private = False\<rparr>"

text \<open>
  The table, one entry per line of the source: (opcode, mnemonic, hasResult, commutative, private).
  An array element the source does not list (a burned number) is the zero \<open>opInfo\<close>.
\<close>

definition opTable_entries :: "(op \<times> string \<times> bool \<times> bool \<times> bool) list" where
  "opTable_entries = [
     (ONop, ''nop'', False, False, False),
     (OAdd, ''add'', True, True, False),
     (OSub, ''sub'', True, False, False),
     (OMul, ''mul'', True, True, False),
     (OUMulh, ''umulh'', True, True, False),
     (OSMulh, ''smulh'', True, True, False),
     (ODiv, ''div'', True, False, False),
     (OUDiv, ''udiv'', True, False, False),
     (ORem, ''rem'', True, False, False),
     (OURem, ''urem'', True, False, False),
     (OAnd, ''and'', True, True, False),
     (OOr, ''or'', True, True, False),
     (OXor, ''xor'', True, True, False),
     (OShl, ''shl'', True, False, False),
     (OShr, ''shr'', True, False, False),
     (OSar, ''sar'', True, False, False),
     (ORotr, ''rotr'', True, False, True),
     (OBic, ''bic'', True, False, True),
     (OPacia, ''pacia'', True, False, True),
     (OMAdd, ''madd'', True, False, True),
     (OMSub, ''msub'', True, False, True),
     (OSpill, ''spill'', False, False, True),
     (OReload, ''reload'', True, False, True),
     (OClz, ''clz'', True, False, False),
     (ONeg, ''neg'', True, False, False),
     (OCmp, [], True, False, False),
     (OStoreb, ''storeb'', False, False, False),
     (OStoreh, ''storeh'', False, False, False),
     (OStorew, ''storew'', False, False, False),
     (OStorel, ''storel'', False, False, False),
     (OStores, ''stores'', False, False, False),
     (OStored, ''stored'', False, False, False),
     (OStoreq, ''storeq'', False, False, False),
     (OLoadsb, ''loadsb'', True, False, False),
     (OLoadub, ''loadub'', True, False, False),
     (OLoadsh, ''loadsh'', True, False, False),
     (OLoaduh, ''loaduh'', True, False, False),
     (OLoadsw, ''loadsw'', True, False, False),
     (OLoaduw, ''loaduw'', True, False, False),
     (OLoadl, ''loadl'', True, False, False),
     (OLoads, ''loads'', True, False, False),
     (OLoadd, ''loadd'', True, False, False),
     (OLoadq, ''loadq'', True, False, False),
     (OAlloc4, ''alloc4'', True, False, False),
     (OAlloc8, ''alloc8'', True, False, False),
     (OAlloc16, ''alloc16'', True, False, False),
     (OAllocN, ''allocn'', True, False, False),
     (OHeapAlloc, ''heapalloc'', True, False, False),
     (OBlit, ''blit'', False, False, False),
     (OExtsb, ''extsb'', True, False, False),
     (OExtub, ''extub'', True, False, False),
     (OExtsh, ''extsh'', True, False, False),
     (OExtuh, ''extuh'', True, False, False),
     (OExtsw, ''extsw'', True, False, False),
     (OExtuw, ''extuw'', True, False, False),
     (OExts, ''exts'', True, False, False),
     (OTruncd, ''truncd'', True, False, False),
     (OStosi, ''stosi'', True, False, False),
     (OStoui, ''stoui'', True, False, False),
     (OSltof, ''sltof'', True, False, False),
     (OUltof, ''ultof'', True, False, False),
     (OCast, ''cast'', True, False, False),
     (OCopy, ''copy'', True, False, False),
     (OCall, ''call'', True, False, False),
     (OArg, ''arg'', False, False, False),
     (OPar, ''par'', True, False, False),
     (OParEnv, ''parenv'', True, False, False),
     (OVaStart, ''vastart'', False, False, False),
     (OVaArg, ''vaarg'', True, False, False),
     (OBlockAddr, ''blockaddr'', True, False, False),
     (OSafepoint, ''safept'', False, False, False),
     (OThreadPtr, ''threadptr'', True, False, True),
     (OTLSOffset, ''tlsoffset'', True, False, True),
     (OTLSIndexAddr, ''tlsindexaddr'', True, False, True),
     (OGetReg, ''getreg'', True, False, False),
     (OSetReg, ''setreg'', False, False, False),
     (OAsm, ''asm'', True, False, False),
     (OSel, ''select'', True, False, False),
     (OCCmp, ''ccmp'', True, False, True),
     (OIntrinsic, ''intrinsic'', False, False, False),
     (OLifeStart, ''lifetime.start'', False, False, False),
     (OLifeEnd, ''lifetime.end'', False, False, False)]"

definition opTable :: "op \<Rightarrow> opInfo" where
  "opTable o' = (case map_of opTable_entries o' of
     None \<Rightarrow> opInfo0
   | Some (n, h, c, p) \<Rightarrow> \<lparr>oi_name = n, oi_hasResult = h, oi_commutative = c, oi_private = p\<rparr>)"

text \<open>\<open>opTable[o]\<close> panics for a number past the table: \<open>None\<close>.\<close>

definition op_Info :: "op \<Rightarrow> opInfo option" where
  "op_Info o' = (if op_num o' < numOps then Some (opTable o') else None)"

definition op_HasResult :: "op \<Rightarrow> bool" where
  "op_HasResult o' = oi_hasResult (opTable o')"

definition op_IsCommutative :: "op \<Rightarrow> bool" where
  "op_IsCommutative o' = oi_commutative (opTable o')"

definition op_IsLoad :: "op \<Rightarrow> bool" where
  "op_IsLoad o' \<longleftrightarrow> OLoadsb \<le> o' \<and> o' \<le> OLoadq"

definition op_IsStore :: "op \<Rightarrow> bool" where
  "op_IsStore o' \<longleftrightarrow> OStoreb \<le> o' \<and> o' \<le> OStoreq"

definition op_IsAlloc :: "op \<Rightarrow> bool" where
  "op_IsAlloc o' \<longleftrightarrow> OAlloc4 \<le> o' \<and> o' \<le> OAlloc16"

definition op_IsLifetime :: "op \<Rightarrow> bool" where
  "op_IsLifetime o' \<longleftrightarrow> o' = OLifeStart \<or> o' = OLifeEnd"

definition op_String :: "op \<Rightarrow> string" where
  "op_String o' = oi_name (opTable o')"

text \<open>The mnemonic index, filled in opcode order; a later opcode would overwrite an earlier one.\<close>

definition opByName :: "string \<rightharpoonup> op" where
  "opByName = fold (\<lambda>n m.
     (let i = opTable (Op n) in
      if oi_name i \<noteq> [] \<and> \<not> oi_private i then m(oi_name i \<mapsto> Op n) else m)) [0..<numOps] Map.empty"

definition OpFromString :: "string \<Rightarrow> op option" where
  "OpFromString name = opByName name"

lemmas op_class_defs [ir_defs] = op_IsLoad_def op_IsStore_def op_IsAlloc_def op_IsLifetime_def

section \<open>Comparison predicates\<close>

datatype cmp = CmpEq | CmpNe | CmpSle | CmpSlt | CmpSge | CmpSgt | CmpUle | CmpUlt | CmpUge | CmpUgt
  | CmpFeq | CmpFne | CmpFle | CmpFlt | CmpFge | CmpFgt | CmpFo | CmpFuo

primrec cmp_num :: "cmp \<Rightarrow> nat" where
  "cmp_num CmpEq = 0"
| "cmp_num CmpNe = 1"
| "cmp_num CmpSle = 2"
| "cmp_num CmpSlt = 3"
| "cmp_num CmpSge = 4"
| "cmp_num CmpSgt = 5"
| "cmp_num CmpUle = 6"
| "cmp_num CmpUlt = 7"
| "cmp_num CmpUge = 8"
| "cmp_num CmpUgt = 9"
| "cmp_num CmpFeq = 10"
| "cmp_num CmpFne = 11"
| "cmp_num CmpFle = 12"
| "cmp_num CmpFlt = 13"
| "cmp_num CmpFge = 14"
| "cmp_num CmpFgt = 15"
| "cmp_num CmpFo = 16"
| "cmp_num CmpFuo = 17"

definition cmp_IsFloat :: "cmp \<Rightarrow> bool" where
  "cmp_IsFloat c \<longleftrightarrow> cmp_num CmpFeq \<le> cmp_num c"

primrec cmp_String :: "cmp \<Rightarrow> string" where
  "cmp_String CmpEq = ''eq''"
| "cmp_String CmpNe = ''ne''"
| "cmp_String CmpSle = ''sle''"
| "cmp_String CmpSlt = ''slt''"
| "cmp_String CmpSge = ''sge''"
| "cmp_String CmpSgt = ''sgt''"
| "cmp_String CmpUle = ''ule''"
| "cmp_String CmpUlt = ''ult''"
| "cmp_String CmpUge = ''uge''"
| "cmp_String CmpUgt = ''ugt''"
| "cmp_String CmpFeq = ''eq''"
| "cmp_String CmpFne = ''ne''"
| "cmp_String CmpFle = ''le''"
| "cmp_String CmpFlt = ''lt''"
| "cmp_String CmpFge = ''ge''"
| "cmp_String CmpFgt = ''gt''"
| "cmp_String CmpFo = ''o''"
| "cmp_String CmpFuo = ''uo''"

section \<open>The mnemonic lookup inverts the printer\<close>

text \<open>The opcodes a text file may name, with their mnemonics, in opcode order.\<close>

definition named_ops :: "(string \<times> op) list" where
  "named_ops = map (\<lambda>n. (op_String (Op n), Op n))
     (filter (\<lambda>n. op_String (Op n) \<noteq> [] \<and> \<not> oi_private (opTable (Op n))) [0..<numOps])"

lemma fold_upd_eq_map_of:
  "distinct (map fst kvs) \<Longrightarrow> fold (\<lambda>(k, v) m. m(k \<mapsto> v)) kvs m0 = m0 ++ map_of kvs"
proof (induction kvs arbitrary: m0)
  case Nil
  then show ?case by simp
next
  case (Cons kv kvs)
  obtain k v where [simp]: "kv = (k, v)" by (cases kv)
  have "map_of kvs k = None" using Cons.prems by (simp add: map_of_eq_None_iff)
  with Cons show ?case by (auto simp: map_add_def fun_eq_iff split: option.splits)
qed

lemma fold_cond: "fold (\<lambda>x m. if P x then f x m else m) xs m = fold f (filter P xs) m"
  by (induction xs arbitrary: m) auto

lemma fold_map_pairs:
  "fold (\<lambda>n m. m(k n \<mapsto> v n)) ns m = fold (\<lambda>(k, v) m. m(k \<mapsto> v)) (map (\<lambda>n. (k n, v n)) ns) m"
  by (induction ns arbitrary: m) auto

lemma opTable_names_distinct: "distinct (map (\<lambda>(o', n, _). n) opTable_entries)"
  unfolding opTable_entries_def by simp

lemma opTable_name_entry:
  "op_String o' = n \<Longrightarrow> n \<noteq> [] \<Longrightarrow> \<exists>rest. (o', n, rest) \<in> set opTable_entries"
  by (auto simp: op_String_def opTable_def opInfo0_def split: option.splits prod.splits
      dest!: map_of_SomeD)

lemma op_String_inj: "op_String a = op_String b \<Longrightarrow> op_String b \<noteq> [] \<Longrightarrow> a = b"
proof -
  assume "op_String a = op_String b" "op_String b \<noteq> []"
  then obtain r s where "(a, op_String b, r) \<in> set opTable_entries" "(b, op_String b, s) \<in> set opTable_entries"
    using opTable_name_entry by metis
  then show ?thesis
    using opTable_names_distinct by (auto simp: distinct_map inj_on_def)
qed

lemma named_ops_distinct: "distinct (map fst named_ops)"
  by (auto simp: named_ops_def distinct_map inj_on_def dest: op_String_inj simp del: upt_Suc)

lemma opByName_map_of: "opByName = map_of named_ops"
proof -
  have "opByName = fold (\<lambda>n m. if op_String (Op n) \<noteq> [] \<and> \<not> oi_private (opTable (Op n))
      then m(op_String (Op n) \<mapsto> Op n) else m) [0..<numOps] Map.empty"
    by (simp only: opByName_def op_String_def Let_def)
  also have "\<dots> = fold (\<lambda>(k, v) m. m(k \<mapsto> v)) named_ops Map.empty"
    by (simp only: fold_cond fold_map_pairs named_ops_def)
  also have "\<dots> = map_of named_ops"
    by (subst fold_upd_eq_map_of[OF named_ops_distinct]) simp
  finally show ?thesis .
qed

text \<open>
  Looking a mnemonic up finds exactly the opcode the printer gives that mnemonic: no two
  opcodes of the text format share one, and backend-private opcodes are never found.
\<close>

theorem OpFromString_inverts_String:
  "OpFromString name = Some o' \<longleftrightarrow>
     op_num o' < numOps \<and> name \<noteq> [] \<and> op_String o' = name \<and> \<not> oi_private (opTable o')"
proof -
  have "OpFromString name = Some o' \<longleftrightarrow> (name, o') \<in> set named_ops"
    by (simp add: OpFromString_def opByName_map_of map_of_eq_Some_iff[OF named_ops_distinct])
  also have "\<dots> \<longleftrightarrow> op_num o' < numOps \<and> name \<noteq> [] \<and> op_String o' = name \<and> \<not> oi_private (opTable o')"
    by (cases o') (auto simp: named_ops_def simp del: upt_Suc upt_rec_numeral)
  finally show ?thesis .
qed

end
