(* ===== verification/IR_Func.thy ===== *)
theory IR_Func
  imports IR_Ops
begin

text \<open>
  The SSA data model (\<open>ir/instr.go\<close>, \<open>ir/instrextra.go\<close>, \<open>ir/func.go\<close>) and the builder's state
  changes on it (\<open>ir/build.go\<close>).  Blocks are mutated through pointers and referenced from
  terminators, phis and predecessor lists, so a function carries an explicit store of its block
  objects, \<open>f_arena\<close>; a \<open>*Block\<close> is an index into it and a nil pointer is \<open>None\<close>.  \<open>f_Blocks\<close> is
  the function's block list, which need not name every object of the store.
\<close>

section \<open>Instructions\<close>

record srcpos =
  sp_File :: nat
  sp_Line :: nat
  sp_Col :: nat

definition srcpos_Valid :: "srcpos \<Rightarrow> bool" where
  "srcpos_Valid p \<longleftrightarrow> sp_File p \<noteq> 0 \<and> sp_Line p \<noteq> 0"

type_synonym bptr = nat

datatype asmOperandKind = AsmRegOut | AsmRegIn | AsmImm | AsmMem | AsmRegInOut

record asmOp =
  asm_Template :: string
  asm_Ops :: "asmOperandKind list"
  asm_ExactClobbers :: bool
  asm_Regs :: "string list"
  asm_Clobbers :: "string list"

record intrinOp =
  io_Name :: string

record valueGroup =
  vg_Index :: nat
  vg_Count :: nat
  vg_Type :: aggtype

datatype callConvention = CallConvPlatform | CallConvGoInternal

text \<open>An inline site is a chain through \<open>Parent\<close>, ending in nil.\<close>

datatype inlineSite = InlineSite (is_Callee: string) (is_Call: srcpos) (is_Parent: "inlineSite option")

record instrExtra =
  ex_AggArgs :: "aggtype option list"
  ex_ArgGroups :: "valueGroup list"
  ex_Defs :: "ref list"
  ex_StackResult :: ref
  ex_StackResultOffset :: int
  ex_RetAgg :: "aggtype option"
  ex_Blk :: "bptr option"
  ex_Asm :: "asmOp option"
  ex_Intrin :: "intrinOp option"
  ex_ClosureContext :: ref
  ex_Unroll :: int

definition instrExtra0 :: instrExtra where
  "instrExtra0 = \<lparr>ex_AggArgs = [], ex_ArgGroups = [], ex_Defs = [], ex_StackResult = R,
     ex_StackResultOffset = 0, ex_RetAgg = None, ex_Blk = None, ex_Asm = None, ex_Intrin = None,
     ex_ClosureContext = R, ex_Unroll = 0\<rparr>"

record instr =
  in_Args :: "ref list"
  in_To :: ref
  in_Aux :: i64
  in_Extra :: "instrExtra option"
  in_Pos :: srcpos
  in_Inl :: "inlineSite option"
  in_Amode :: int
  in_Op :: op
  in_Cls :: cls
  in_Cmp :: cmp
  in_CallConv :: callConvention
  in_CallConvSet :: bool
  in_RetValues :: bool
  in_Tail :: bool
  in_Volatile :: bool
  in_ClosureCall :: bool

definition srcpos0 :: srcpos where
  "srcpos0 = \<lparr>sp_File = 0, sp_Line = 0, sp_Col = 0\<rparr>"

text \<open>The zero \<open>Instr\<close>, which a composite literal with named fields starts from.\<close>

definition instr0 :: instr where
  "instr0 = \<lparr>in_Args = [], in_To = R, in_Aux = 0, in_Extra = None, in_Pos = srcpos0, in_Inl = None,
     in_Amode = 0, in_Op = ONop, in_Cls = ClsW, in_Cmp = CmpEq, in_CallConv = CallConvPlatform,
     in_CallConvSet = False, in_RetValues = False, in_Tail = False, in_Volatile = False,
     in_ClosureCall = False\<rparr>"

subsection \<open>Accessors that read through a nil \<open>Extra\<close>\<close>

definition instr_Unroll :: "instr \<Rightarrow> int" where
  "instr_Unroll i = (case in_Extra i of None \<Rightarrow> 0 | Some e \<Rightarrow> ex_Unroll e)"

definition instr_StackResult :: "instr \<Rightarrow> ref" where
  "instr_StackResult i = (case in_Extra i of None \<Rightarrow> R | Some e \<Rightarrow> ex_StackResult e)"

definition instr_StackResultOffset :: "instr \<Rightarrow> int" where
  "instr_StackResultOffset i = (case in_Extra i of None \<Rightarrow> 0 | Some e \<Rightarrow> ex_StackResultOffset e)"

definition instr_ClosureContext :: "instr \<Rightarrow> ref" where
  "instr_ClosureContext i = (case in_Extra i of None \<Rightarrow> R | Some e \<Rightarrow> ex_ClosureContext e)"

definition instr_RetAgg :: "instr \<Rightarrow> aggtype option" where
  "instr_RetAgg i = (case in_Extra i of None \<Rightarrow> None | Some e \<Rightarrow> ex_RetAgg e)"

definition instr_Blk :: "instr \<Rightarrow> bptr option" where
  "instr_Blk i = (case in_Extra i of None \<Rightarrow> None | Some e \<Rightarrow> ex_Blk e)"

definition instr_Asm :: "instr \<Rightarrow> asmOp option" where
  "instr_Asm i = (case in_Extra i of None \<Rightarrow> None | Some e \<Rightarrow> ex_Asm e)"

definition instr_Intrin :: "instr \<Rightarrow> intrinOp option" where
  "instr_Intrin i = (case in_Extra i of None \<Rightarrow> None | Some e \<Rightarrow> ex_Intrin e)"

definition instr_AggArgs :: "instr \<Rightarrow> aggtype option list" where
  "instr_AggArgs i = (case in_Extra i of None \<Rightarrow> [] | Some e \<Rightarrow> ex_AggArgs e)"

definition instr_ArgGroups :: "instr \<Rightarrow> valueGroup list" where
  "instr_ArgGroups i = (case in_Extra i of None \<Rightarrow> [] | Some e \<Rightarrow> ex_ArgGroups e)"

definition instr_Defs :: "instr \<Rightarrow> ref list" where
  "instr_Defs i = (case in_Extra i of None \<Rightarrow> [] | Some e \<Rightarrow> ex_Defs e)"

lemmas instr_accessor_defs [ir_defs] = instr_Unroll_def instr_StackResult_def
  instr_StackResultOffset_def instr_ClosureContext_def instr_RetAgg_def instr_Blk_def
  instr_Asm_def instr_Intrin_def instr_AggArgs_def instr_ArgGroups_def instr_Defs_def

text \<open>\<open>extra()\<close>: the write path, which allocates.\<close>

definition instr_extra :: "instr \<Rightarrow> instrExtra" where
  "instr_extra i = (case in_Extra i of None \<Rightarrow> instrExtra0 | Some e \<Rightarrow> e)"

definition instr_SetUnroll :: "int \<Rightarrow> instr \<Rightarrow> instr" where
  "instr_SetUnroll depth i = (if depth = 0 \<and> in_Extra i = None then i
     else i\<lparr>in_Extra := Some ((instr_extra i)\<lparr>ex_Unroll := depth\<rparr>)\<rparr>)"

definition instr_SetStackResult :: "ref \<Rightarrow> int \<Rightarrow> instr \<Rightarrow> instr" where
  "instr_SetStackResult slot offset i =
     i\<lparr>in_Extra := Some ((instr_extra i)\<lparr>ex_StackResult := slot, ex_StackResultOffset := offset\<rparr>)\<rparr>"

definition instr_SetClosureContext :: "ref \<Rightarrow> instr \<Rightarrow> instr" where
  "instr_SetClosureContext c i = (if ref_IsNone c \<and> in_Extra i = None then i
     else i\<lparr>in_Extra := Some ((instr_extra i)\<lparr>ex_ClosureContext := c\<rparr>)\<rparr>)"

definition instr_SetRetAgg :: "aggtype option \<Rightarrow> instr \<Rightarrow> instr" where
  "instr_SetRetAgg a i = (if a = None \<and> in_Extra i = None then i
     else i\<lparr>in_Extra := Some ((instr_extra i)\<lparr>ex_RetAgg := a\<rparr>)\<rparr>)"

definition instr_SetBlk :: "bptr option \<Rightarrow> instr \<Rightarrow> instr" where
  "instr_SetBlk b i = (if b = None \<and> in_Extra i = None then i
     else i\<lparr>in_Extra := Some ((instr_extra i)\<lparr>ex_Blk := b\<rparr>)\<rparr>)"

definition instr_SetAsm :: "asmOp option \<Rightarrow> instr \<Rightarrow> instr" where
  "instr_SetAsm a i = (if a = None \<and> in_Extra i = None then i
     else i\<lparr>in_Extra := Some ((instr_extra i)\<lparr>ex_Asm := a\<rparr>)\<rparr>)"

definition instr_SetIntrin :: "intrinOp option \<Rightarrow> instr \<Rightarrow> instr" where
  "instr_SetIntrin n i = (if n = None \<and> in_Extra i = None then i
     else i\<lparr>in_Extra := Some ((instr_extra i)\<lparr>ex_Intrin := n\<rparr>)\<rparr>)"

definition instr_SetAggArgs :: "aggtype option list \<Rightarrow> instr \<Rightarrow> instr" where
  "instr_SetAggArgs ts i = i\<lparr>in_Extra := Some ((instr_extra i)\<lparr>ex_AggArgs := ts\<rparr>)\<rparr>"

definition instr_SetArgGroups :: "valueGroup list \<Rightarrow> instr \<Rightarrow> instr" where
  "instr_SetArgGroups gs i = i\<lparr>in_Extra := Some ((instr_extra i)\<lparr>ex_ArgGroups := gs\<rparr>)\<rparr>"

definition instr_SetDefs :: "ref list \<Rightarrow> instr \<Rightarrow> instr" where
  "instr_SetDefs ds i = i\<lparr>in_Extra := Some ((instr_extra i)\<lparr>ex_Defs := ds\<rparr>)\<rparr>"

definition instr_AddDef :: "ref \<Rightarrow> instr \<Rightarrow> instr" where
  "instr_AddDef d i = i\<lparr>in_Extra := Some ((instr_extra i)\<lparr>ex_Defs := ex_Defs (instr_extra i) @ [d]\<rparr>)\<rparr>"

definition instr_Uses :: "instr \<Rightarrow> ref list" where
  "instr_Uses i = (let context = instr_ClosureContext i in
     if ref_IsNone context then in_Args i else in_Args i @ [context])"

definition instr_AsmRegOuts :: "instr \<Rightarrow> ref list" where
  "instr_AsmRegOuts i = (if instr_Asm i = None \<or> r_Kind (in_To i) \<noteq> RefTemp then []
     else in_To i # instr_Defs i)"

definition instr_Arg :: "instr \<Rightarrow> nat \<Rightarrow> ref" where
  "instr_Arg i k = (if k \<ge> length (in_Args i) then R else in_Args i ! k)"

section \<open>Blocks and terminators\<close>

record phi =
  p_Cls :: cls
  p_To :: ref
  p_Args :: "ref list"
  p_Blocks :: "bptr option list"

datatype jmpKind = JmpNone | JmpJmp | JmpJnz | JmpRet | JmpHlt | JmpBr | JmpSwitch | JmpTable

record switchCase =
  sc_Val :: i64
  sc_Blk :: "bptr option"

datatype likelyEdge = LikelyNone | LikelyTo | LikelyTo2

record jmp =
  j_Kind :: jmpKind
  j_Arg :: ref
  j_To :: "bptr option"
  j_To2 :: "bptr option"
  j_Args :: "ref list"
  j_Targets :: "bptr option list"
  j_Cases :: "switchCase list"
  j_Signed :: bool
  j_Likely :: likelyEdge

definition jmp0 :: jmp where
  "jmp0 = \<lparr>j_Kind = JmpNone, j_Arg = R, j_To = None, j_To2 = None, j_Args = [], j_Targets = [],
     j_Cases = [], j_Signed = False, j_Likely = LikelyNone\<rparr>"

record block =
  b_Name :: string
  b_ID :: nat
  b_SecondaryEntry :: bool
  b_SyntheticSuccs :: "bptr option list"
  b_Phis :: "phi list"
  b_Instrs :: "instr list"
  b_Jmp :: jmp
  b_Preds :: "bptr list"
  b_Sym :: string
  b_Pos :: srcpos
  b_curPos :: srcpos

definition block0 :: block where
  "block0 = \<lparr>b_Name = [], b_ID = 0, b_SecondaryEntry = False, b_SyntheticSuccs = [], b_Phis = [],
     b_Instrs = [], b_Jmp = jmp0, b_Preds = [], b_Sym = [], b_Pos = srcpos0, b_curPos = srcpos0\<rparr>"

text \<open>Successors, derived from the terminator; entries may be nil.\<close>

definition block_Succs :: "block \<Rightarrow> bptr option list" where
  "block_Succs b = (case j_Kind (b_Jmp b) of
     JmpJmp \<Rightarrow> (if j_To (b_Jmp b) \<noteq> None then [j_To (b_Jmp b)] else [])
   | JmpJnz \<Rightarrow> [j_To (b_Jmp b), j_To2 (b_Jmp b)]
   | JmpBr \<Rightarrow> j_Targets (b_Jmp b)
   | JmpTable \<Rightarrow> j_Targets (b_Jmp b)
   | JmpSwitch \<Rightarrow> j_To (b_Jmp b) # map sc_Blk (j_Cases (b_Jmp b))
   | _ \<Rightarrow> [])"

definition block_SuccCount :: "block \<Rightarrow> nat" where
  "block_SuccCount b = (case j_Kind (b_Jmp b) of
     JmpJmp \<Rightarrow> (if j_To (b_Jmp b) \<noteq> None then 1 else 0)
   | JmpJnz \<Rightarrow> 2
   | JmpBr \<Rightarrow> length (j_Targets (b_Jmp b))
   | JmpTable \<Rightarrow> length (j_Targets (b_Jmp b))
   | JmpSwitch \<Rightarrow> length (j_Cases (b_Jmp b)) + 1
   | _ \<Rightarrow> 0)"

text \<open>\<open>SuccAt\<close> panics (\<open>None\<close>) for an index outside the successors.\<close>

definition block_SuccAt :: "block \<Rightarrow> nat \<Rightarrow> bptr option option" where
  "block_SuccAt b i = (case j_Kind (b_Jmp b) of
     JmpJmp \<Rightarrow> (if i = 0 \<and> j_To (b_Jmp b) \<noteq> None then Some (j_To (b_Jmp b)) else None)
   | JmpJnz \<Rightarrow> (if i = 0 then Some (j_To (b_Jmp b)) else if i = 1 then Some (j_To2 (b_Jmp b)) else None)
   | JmpBr \<Rightarrow> (if i < length (j_Targets (b_Jmp b)) then Some (j_Targets (b_Jmp b) ! i) else None)
   | JmpTable \<Rightarrow> (if i < length (j_Targets (b_Jmp b)) then Some (j_Targets (b_Jmp b) ! i) else None)
   | JmpSwitch \<Rightarrow>
       (if i = 0 then Some (j_To (b_Jmp b))
        else if i - 1 < length (j_Cases (b_Jmp b)) then Some (sc_Blk (j_Cases (b_Jmp b) ! (i - 1)))
        else None)
   | _ \<Rightarrow> None)"

definition TailCall :: "block \<Rightarrow> instr option \<times> bool" where
  "TailCall b =
     (if b_Instrs b = [] \<or> j_Kind (b_Jmp b) \<noteq> JmpRet then (None, False)
      else let i = last (b_Instrs b) in
        if in_Op i \<noteq> OCall \<or> \<not> in_Tail i then (None, False)
        else if ref_IsNone (in_To i) then (Some i, ref_IsNone (j_Arg (b_Jmp b)))
        else (Some i, j_Arg (b_Jmp b) = in_To i))"

definition HasTailCall :: "block \<Rightarrow> bool" where
  "HasTailCall b = (\<exists>i \<in> set (b_Instrs b). in_Op i = OCall \<and> in_Tail i)"

section \<open>Functions\<close>

record temp =
  t_ID :: nat
  t_Name :: string
  t_Cls :: cls
  t_Slot :: int
  t_Reg :: int
  t_Fixed :: bool
  t_Agg :: "aggtype option"
  t_GCRef :: bool
  t_GCType :: nat
  t_ClosureContext :: bool

text \<open>\<open>NoReg\<close>\<close>

definition NoReg :: int where
  "NoReg = -1"

datatype constKind = ConstInt | ConstFloat | ConstSym

text \<open>A \<open>float64\<close> is its IEEE bit pattern.\<close>

record const =
  c_Kind :: constKind
  c_Cls :: cls
  c_Int :: i64
  c_Flt :: u64
  c_Sym :: string
  c_Thread :: bool

record aggregateValue =
  av_Type :: aggtype
  av_Parts :: "ref list"

record linkage =
  lk_Export :: bool
  lk_Thread :: bool
  lk_Section :: string
  lk_SecArgs :: string

text \<open>
  \<open>Params\<close> are pointers into \<open>Temps\<close>, modelled as temporary ids.  \<open>constIdx\<close> is the interning map:
  its keys have the fields of \<open>Const\<close>, in insertion order.
\<close>

record func =
  f_Name :: string
  f_Linkage :: linkage
  f_HasRet :: bool
  f_Retty :: cls
  f_RetAgg :: "aggtype option"
  f_RetValues :: bool
  f_Variadic :: bool
  f_CallConv :: callConvention
  f_ManagedFrame :: bool
  f_NoSplit :: bool
  f_SystemStack :: bool
  f_HasClosureContext :: bool
  f_ForceInline :: bool
  f_CostInline :: bool
  f_NoInline :: bool
  f_Params :: "nat list"
  f_ParamGroups :: "valueGroup list"
  f_Blocks :: "bptr list"
  f_Start :: "bptr option"
  f_arena :: "block list"
  f_Temps :: "temp list"
  f_Consts :: "const list"
  f_AggregateValues :: "aggregateValue list"
  f_lowered :: string
  f_nameSeq :: nat
  f_constIdx :: "(const \<times> nat) list"

definition func0 :: func where
  "func0 = \<lparr>f_Name = [], f_Linkage = \<lparr>lk_Export = False, lk_Thread = False, lk_Section = [], lk_SecArgs = []\<rparr>,
     f_HasRet = False, f_Retty = ClsW, f_RetAgg = None, f_RetValues = False, f_Variadic = False,
     f_CallConv = CallConvPlatform, f_ManagedFrame = False, f_NoSplit = False, f_SystemStack = False,
     f_HasClosureContext = False, f_ForceInline = False, f_CostInline = False, f_NoInline = False,
     f_Params = [], f_ParamGroups = [], f_Blocks = [], f_Start = None, f_arena = [], f_Temps = [],
     f_Consts = [], f_AggregateValues = [], f_lowered = [], f_nameSeq = 0, f_constIdx = []\<rparr>"

text \<open>Dereferencing a block pointer; a pointer no object of the store has reads as the zero block.\<close>

definition blk :: "func \<Rightarrow> bptr \<Rightarrow> block" where
  "blk f b = (if b < length (f_arena f) then f_arena f ! b else block0)"

definition upd_blk :: "bptr \<Rightarrow> (block \<Rightarrow> block) \<Rightarrow> func \<Rightarrow> func" where
  "upd_blk b g f = f\<lparr>f_arena := (f_arena f)[b := g (blk f b)]\<rparr>"

definition UsesGoInternalCallConvention :: "func \<Rightarrow> bool" where
  "UsesGoInternalCallConvention f \<longleftrightarrow> f_CallConv f = CallConvGoInternal"

definition UsesManagedFrame :: "func \<Rightarrow> bool" where
  "UsesManagedFrame f \<longleftrightarrow> f_ManagedFrame f"

text \<open>\<open>f.Temp(r)\<close>: nil for a reference that is not a temporary, a panic (outer \<open>None\<close>) out of range.\<close>

definition func_Temp :: "func \<Rightarrow> ref \<Rightarrow> temp option option" where
  "func_Temp f r = (if r_Kind r = RefTemp
     then (if r_ID r < length (f_Temps f) then Some (Some (f_Temps f ! r_ID r)) else None)
     else Some None)"

definition IsManagedDef :: "func \<Rightarrow> instr \<Rightarrow> bool option" where
  "IsManagedDef f i =
     (if cls_IsManaged (in_Cls i) then Some True
      else if r_Kind (in_To i) \<noteq> RefTemp then Some False
      else case func_Temp f (in_To i) of
        None \<Rightarrow> None
      | Some None \<Rightarrow> Some False
      | Some (Some t) \<Rightarrow> Some (t_GCRef t))"

datatype ir_error = AlreadyLowered string string string

definition MarkLowered :: "string \<Rightarrow> func \<Rightarrow> ir_error + func" where
  "MarkLowered target f =
     (if f_lowered f \<noteq> [] \<and> f_lowered f \<noteq> target
      then Inl (AlreadyLowered (f_Name f) (f_lowered f) target)
      else Inr (f\<lparr>f_lowered := target\<rparr>))"

text \<open>\<open>ClassOf\<close> panics on an aggregate reference and on an index out of range.\<close>

definition ClassOf :: "func \<Rightarrow> ref \<Rightarrow> cls option" where
  "ClassOf f r = (case r_Kind r of
     RefTemp \<Rightarrow> (if r_ID r < length (f_Temps f) then Some (t_Cls (f_Temps f ! r_ID r)) else None)
   | RefConst \<Rightarrow> (if r_ID r < length (f_Consts f) then Some (c_Cls (f_Consts f ! r_ID r)) else None)
   | RefAggregate \<Rightarrow> None
   | _ \<Rightarrow> Some ClsW)"

section \<open>The builder\<close>

fun nat_digits :: "nat \<Rightarrow> string" where
  "nat_digits n = (if n < 10 then [char_of (48 + n)]
     else nat_digits (n div 10) @ [char_of (48 + n mod 10)])"

declare nat_digits.simps [simp del]

definition newTemp :: "string \<Rightarrow> cls \<Rightarrow> func \<Rightarrow> ref \<times> func" where
  "newTemp name c f =
     (let f1 = (if name = [] then f\<lparr>f_nameSeq := f_nameSeq f + 1\<rparr> else f);
          name' = (if name = [] then ''t'' @ nat_digits (f_nameSeq f1) else name);
          tid = length (f_Temps f1);
          t = \<lparr>t_ID = tid, t_Name = name', t_Cls = c, t_Slot = -1, t_Reg = NoReg, t_Fixed = False,
               t_Agg = None, t_GCRef = False, t_GCType = 0, t_ClosureContext = False\<rparr>
      in (tempRef tid, f1\<lparr>f_Temps := f_Temps f1 @ [t]\<rparr>))"

definition NewTemp :: "string \<Rightarrow> cls \<Rightarrow> func \<Rightarrow> ref \<times> func" where
  "NewTemp name c f = newTemp name c f"

definition Param :: "string \<Rightarrow> cls \<Rightarrow> func \<Rightarrow> ref \<times> func" where
  "Param name c f = (let (r, f') = newTemp name c f in (r, f'\<lparr>f_Params := f_Params f' @ [r_ID r]\<rparr>))"

definition NewBlock :: "string \<Rightarrow> func \<Rightarrow> bptr \<times> func" where
  "NewBlock name f =
     (let f1 = (if name = [] then f\<lparr>f_nameSeq := f_nameSeq f + 1\<rparr> else f);
          name' = (if name = [] then ''b'' @ nat_digits (f_nameSeq f1) else name);
          p = length (f_arena f1);
          b = block0\<lparr>b_Name := name', b_ID := length (f_Blocks f1)\<rparr>;
          f2 = f1\<lparr>f_arena := f_arena f1 @ [b], f_Blocks := f_Blocks f1 @ [p]\<rparr>
      in (p, if f_Start f2 = None then f2\<lparr>f_Start := Some p\<rparr> else f2))"

definition Entry :: "func \<Rightarrow> bptr \<times> func" where
  "Entry f = (case f_Start f of None \<Rightarrow> NewBlock ''start'' f | Some b \<Rightarrow> (b, f))"

definition Goto :: "bptr \<Rightarrow> bptr option \<Rightarrow> func \<Rightarrow> func" where
  "Goto b target = upd_blk b (\<lambda>x. x\<lparr>b_Jmp := jmp0\<lparr>j_Kind := JmpJmp, j_To := target\<rparr>\<rparr>)"

definition Jnz :: "bptr \<Rightarrow> ref \<Rightarrow> bptr option \<Rightarrow> bptr option \<Rightarrow> func \<Rightarrow> func" where
  "Jnz b cond ifTrue ifFalse =
     upd_blk b (\<lambda>x. x\<lparr>b_Jmp := jmp0\<lparr>j_Kind := JmpJnz, j_Arg := cond, j_To := ifTrue, j_To2 := ifFalse\<rparr>\<rparr>)"

definition Ret :: "bptr \<Rightarrow> ref \<Rightarrow> func \<Rightarrow> func" where
  "Ret b v = upd_blk b (\<lambda>x. x\<lparr>b_Jmp := jmp0\<lparr>j_Kind := JmpRet, j_Arg := v\<rparr>\<rparr>)"

definition Hlt :: "bptr \<Rightarrow> func \<Rightarrow> func" where
  "Hlt b = upd_blk b (\<lambda>x. x\<lparr>b_Jmp := jmp0\<lparr>j_Kind := JmpHlt\<rparr>\<rparr>)"

definition SwitchTo :: "bptr \<Rightarrow> ref \<Rightarrow> bptr option \<Rightarrow> bool \<Rightarrow> switchCase list \<Rightarrow> func \<Rightarrow> func" where
  "SwitchTo b val deflt sgnd cases =
     upd_blk b (\<lambda>x. x\<lparr>b_Jmp := jmp0\<lparr>j_Kind := JmpSwitch, j_Arg := val, j_To := deflt,
       j_Signed := sgnd, j_Cases := cases\<rparr>\<rparr>)"

definition emit :: "bptr \<Rightarrow> op \<Rightarrow> cls \<Rightarrow> ref list \<Rightarrow> func \<Rightarrow> ref \<times> func" where
  "emit b o' c args f =
     (let i = instr0\<lparr>in_Op := o', in_Cls := c, in_Args := args, in_Pos := b_curPos (blk f b)\<rparr>;
          (res, f1) = (if op_HasResult o' then newTemp [] c f else (R, f));
          i' = (if op_HasResult o' then i\<lparr>in_To := res\<rparr> else i)
      in (res, upd_blk b (\<lambda>x. x\<lparr>b_Instrs := b_Instrs x @ [i']\<rparr>) f1))"

definition emitCmp :: "bptr \<Rightarrow> cmp \<Rightarrow> cls \<Rightarrow> ref \<Rightarrow> ref \<Rightarrow> func \<Rightarrow> ref \<times> func" where
  "emitCmp b pred resCls x y f =
     (let (res, f1) = newTemp [] resCls f;
          i = instr0\<lparr>in_Op := OCmp, in_Cls := resCls, in_To := res, in_Args := [x, y], in_Cmp := pred\<rparr>
      in (res, upd_blk b (\<lambda>z. z\<lparr>b_Instrs := b_Instrs z @ [i]\<rparr>) f1))"

subsection \<open>Interned constants\<close>

text \<open>
  The interning map's key holds a Go \<open>float64\<close>, and map keys are compared with \<open>==\<close>: a NaN equals
  nothing, and the two zeros are equal.
\<close>

definition f64_isNaN :: "u64 \<Rightarrow> bool" where
  "f64_isNaN x \<longleftrightarrow> (drop_bit 52 x AND 0x7FF) = 0x7FF \<and> x AND 0xFFFFFFFFFFFFF \<noteq> 0"

definition f64_isZero :: "u64 \<Rightarrow> bool" where
  "f64_isZero x \<longleftrightarrow> x AND 0x7FFFFFFFFFFFFFFF = 0"

definition f64_eq :: "u64 \<Rightarrow> u64 \<Rightarrow> bool" where
  "f64_eq x y \<longleftrightarrow> \<not> f64_isNaN x \<and> \<not> f64_isNaN y \<and> (x = y \<or> f64_isZero x \<and> f64_isZero y)"

definition constKey_eq :: "const \<Rightarrow> const \<Rightarrow> bool" where
  "constKey_eq a b \<longleftrightarrow> c_Kind a = c_Kind b \<and> c_Cls a = c_Cls b \<and> c_Int a = c_Int b \<and>
     f64_eq (c_Flt a) (c_Flt b) \<and> c_Sym a = c_Sym b \<and> c_Thread a = c_Thread b"

fun constIdx_lookup :: "(const \<times> nat) list \<Rightarrow> const \<Rightarrow> nat option" where
  "constIdx_lookup [] k = None"
| "constIdx_lookup ((k', i) # m) k = (if constKey_eq k' k then Some i else constIdx_lookup m k)"

definition internConst :: "const \<Rightarrow> func \<Rightarrow> ref \<times> func" where
  "internConst c f = (case constIdx_lookup (f_constIdx f) c of
     Some i \<Rightarrow> (constRef i, f)
   | None \<Rightarrow> (constRef (length (f_Consts f)),
       f\<lparr>f_Consts := f_Consts f @ [c], f_constIdx := f_constIdx f @ [(c, length (f_Consts f))]\<rparr>))"

definition const0 :: const where
  "const0 = \<lparr>c_Kind = ConstInt, c_Cls = ClsW, c_Int = 0, c_Flt = 0, c_Sym = [], c_Thread = False\<rparr>"

definition func_ConstInt :: "cls \<Rightarrow> i64 \<Rightarrow> func \<Rightarrow> ref \<times> func" where
  "func_ConstInt c v = internConst (const0\<lparr>c_Cls := c, c_Int := v\<rparr>)"

definition func_Single :: "u64 \<Rightarrow> func \<Rightarrow> ref \<times> func" where
  "func_Single v = internConst (const0\<lparr>c_Kind := ConstFloat, c_Cls := ClsS, c_Flt := v\<rparr>)"

definition func_Double :: "u64 \<Rightarrow> func \<Rightarrow> ref \<times> func" where
  "func_Double v = internConst (const0\<lparr>c_Kind := ConstFloat, c_Cls := ClsD, c_Flt := v\<rparr>)"

definition func_Sym :: "string \<Rightarrow> i64 \<Rightarrow> func \<Rightarrow> ref \<times> func" where
  "func_Sym name off = internConst (const0\<lparr>c_Kind := ConstSym, c_Cls := ClsP, c_Sym := name, c_Int := off\<rparr>)"

definition func_ThreadSym :: "string \<Rightarrow> func \<Rightarrow> ref \<times> func" where
  "func_ThreadSym name =
     internConst (const0\<lparr>c_Kind := ConstSym, c_Cls := ClsP, c_Sym := name, c_Thread := True\<rparr>)"

section \<open>Facts about the data model\<close>

text \<open>Reading back what an \<open>Extra\<close> setter wrote; setters touch nothing else of the instruction.\<close>

lemma instr_extra_get_set [simp]:
  "instr_Unroll (instr_SetUnroll d i) = d"
  "instr_StackResult (instr_SetStackResult r k i) = r"
  "instr_StackResultOffset (instr_SetStackResult r k i) = k"
  "instr_RetAgg (instr_SetRetAgg a i) = a"
  "instr_Blk (instr_SetBlk b i) = b"
  "instr_Asm (instr_SetAsm m i) = m"
  "instr_Intrin (instr_SetIntrin n i) = n"
  "instr_AggArgs (instr_SetAggArgs ts i) = ts"
  "instr_ArgGroups (instr_SetArgGroups gs i) = gs"
  "instr_Defs (instr_SetDefs ds i) = ds"
  "instr_Defs (instr_AddDef d' i) = instr_Defs i @ [d']"
  by (auto simp: instr_accessor_defs instr_SetUnroll_def instr_SetStackResult_def instr_SetRetAgg_def
      instr_SetBlk_def instr_SetAsm_def instr_SetIntrin_def instr_SetAggArgs_def
      instr_SetArgGroups_def instr_SetDefs_def instr_AddDef_def instr_extra_def instrExtra0_def
      split: option.splits)

lemma instr_ClosureContext_set:
  "instr_ClosureContext (instr_SetClosureContext c i) = (if ref_IsNone c \<and> in_Extra i = None then R else c)"
  by (auto simp: instr_ClosureContext_def instr_SetClosureContext_def split: option.splits)

lemma instr_SetClosureContext_sel [simp]:
  "in_Args (instr_SetClosureContext c i) = in_Args i" "in_To (instr_SetClosureContext c i) = in_To i"
  "in_Op (instr_SetClosureContext c i) = in_Op i" "in_Cls (instr_SetClosureContext c i) = in_Cls i"
  "in_Cmp (instr_SetClosureContext c i) = in_Cmp i"
  "instr_Defs (instr_SetClosureContext c i) = instr_Defs i"
  by (auto simp: instr_SetClosureContext_def instr_Defs_def instr_extra_def instrExtra0_def
      split: option.splits)

lemma length_block_Succs: "length (block_Succs b) = block_SuccCount b"
  by (auto simp: block_Succs_def block_SuccCount_def split: jmpKind.splits)

text \<open>
  \<open>SuccCount\<close> and \<open>SuccAt\<close> walk exactly the sequence \<open>Succs\<close> returns, nil entries included, and
  \<open>SuccAt\<close> panics for every index past it.
\<close>

theorem SuccAt_eq_Succs:
  "block_SuccCount b = length (block_Succs b) \<and>
   block_SuccAt b i = (if i < length (block_Succs b) then Some (block_Succs b ! i) else None)"
  by (auto simp: length_block_Succs block_Succs_def block_SuccCount_def block_SuccAt_def nth_Cons'
      split: jmpKind.splits)

lemma blk_upd_blk [simp]:
  "b < length (f_arena f) \<Longrightarrow> blk (upd_blk b g f) b' = (if b' = b then g (blk f b) else blk f b')"
  by (auto simp: blk_def upd_blk_def)

lemma upd_blk_sel [simp]:
  "f_Blocks (upd_blk b g f) = f_Blocks f" "f_Temps (upd_blk b g f) = f_Temps f"
  "f_Consts (upd_blk b g f) = f_Consts f" "f_constIdx (upd_blk b g f) = f_constIdx f"
  "f_Start (upd_blk b g f) = f_Start f" "length (f_arena (upd_blk b g f)) = length (f_arena f)"
  "f_Params (upd_blk b g f) = f_Params f" "f_lowered (upd_blk b g f) = f_lowered f"
  by (simp_all add: upd_blk_def)

lemma newTemp_facts:
  assumes "newTemp name c f = (r, f')"
  shows "r = tempRef (length (f_Temps f))" "length (f_Temps f') = Suc (length (f_Temps f))"
    "\<And>k. k < length (f_Temps f) \<Longrightarrow> f_Temps f' ! k = f_Temps f ! k"
    "t_Cls (f_Temps f' ! length (f_Temps f)) = c" "f_Consts f' = f_Consts f" "f_arena f' = f_arena f"
    "f_Blocks f' = f_Blocks f"
  using assms by (auto simp: newTemp_def Let_def nth_append)

section \<open>The constant pool\<close>

text \<open>
  What clients of the pool rely on: a reference handed out keeps naming the same constant, and
  interning a constant that is not a float yields a reference to exactly that constant.
\<close>

locale const_pool =
  fixes intern :: "'c \<Rightarrow> 's \<Rightarrow> nat \<times> 's"
    and pool :: "'s \<Rightarrow> 'c list"
    and invar :: "'s \<Rightarrow> bool"
    and same :: "'c \<Rightarrow> 'c \<Rightarrow> bool"
  assumes intern_invar: "invar s \<Longrightarrow> intern c s = (k, s') \<Longrightarrow> invar s'"
    and intern_get: "invar s \<Longrightarrow> intern c s = (k, s') \<Longrightarrow> k < length (pool s') \<and> same (pool s' ! k) c"
    and intern_prefix: "invar s \<Longrightarrow> intern c s = (k, s') \<Longrightarrow> \<exists>cs. pool s' = pool s @ cs"
begin

fun intern_all :: "'c list \<Rightarrow> 's \<Rightarrow> nat list \<times> 's" where
  "intern_all [] s = ([], s)"
| "intern_all (c # cs) s = (let (k, s1) = intern c s; (ks, s2) = intern_all cs s1 in (k # ks, s2))"

lemma intern_stable:
  assumes "invar s" "intern c s = (k, s')" "j < length (pool s)"
  shows "j < length (pool s') \<and> pool s' ! j = pool s ! j"
  using intern_prefix[OF assms(1,2)] assms(3) by (auto simp: nth_append)

lemma intern_all_correct:
  assumes "invar s" "intern_all cs s = (ks, s')"
  shows "invar s' \<and> length ks = length cs \<and>
    (\<forall>i < length cs. ks ! i < length (pool s') \<and> same (pool s' ! (ks ! i)) (cs ! i)) \<and>
    (\<forall>j < length (pool s). j < length (pool s') \<and> pool s' ! j = pool s ! j)"
  using assms
proof (induction cs arbitrary: s ks)
  case Nil
  then show ?case by simp
next
  case (Cons c cs)
  obtain k s1 where k: "intern c s = (k, s1)" by fastforce
  obtain ks2 where ks2: "intern_all cs s1 = (ks2, s')" "ks = k # ks2"
    using Cons.prems(2) k by (auto split: prod.splits)
  have inv1: "invar s1" by (rule intern_invar[OF Cons.prems(1) k])
  note IH = Cons.IH[OF inv1 ks2(1)]
  have k1: "k < length (pool s1)" "same (pool s1 ! k) c" using intern_get[OF Cons.prems(1) k] by auto
  have "ks ! i < length (pool s') \<and> same (pool s' ! (ks ! i)) ((c # cs) ! i)" if "i < length (c # cs)" for i
    using that IH k1 ks2(2) by (cases i) auto
  then show ?case using IH ks2(2) intern_stable[OF Cons.prems(1) k] by fastforce
qed

end

definition constIdx_ok :: "func \<Rightarrow> bool" where
  "constIdx_ok f \<longleftrightarrow> (\<forall>(k, i) \<in> set (f_constIdx f). i < length (f_Consts f) \<and> f_Consts f ! i = k)"

text \<open>Equal but for the sign of a floating zero, which is as much as the map key distinguishes.\<close>

definition const_same :: "const \<Rightarrow> const \<Rightarrow> bool" where
  "const_same a b \<longleftrightarrow> a = b \<or> f64_isZero (c_Flt a) \<and> f64_isZero (c_Flt b) \<and> a\<lparr>c_Flt := 0\<rparr> = b\<lparr>c_Flt := 0\<rparr>"

lemma constKey_eq_same: "constKey_eq a b \<Longrightarrow> const_same a b"
  by (cases a; cases b) (auto simp: constKey_eq_def const_same_def f64_eq_def)

lemma constIdx_lookup_Some: "constIdx_lookup m k = Some i \<Longrightarrow> \<exists>k'. (k', i) \<in> set m \<and> constKey_eq k' k"
  by (induction m k rule: constIdx_lookup.induct) (auto split: if_splits)

interpretation pool: const_pool "\<lambda>c f. (r_ID (fst (internConst c f)), snd (internConst c f))" f_Consts
  constIdx_ok const_same
proof
  fix c f k f'
  assume ok: "constIdx_ok f" and i: "(r_ID (fst (internConst c f)), snd (internConst c f)) = (k, f')"
  show "constIdx_ok f'" using ok i
    by (auto simp: internConst_def constIdx_ok_def nth_append split: option.splits) fastforce+
  show "k < length (f_Consts f') \<and> const_same (f_Consts f' ! k) c"
  proof (cases "constIdx_lookup (f_constIdx f) c")
    case None
    with i show ?thesis by (auto simp: internConst_def const_same_def)
  next
    case (Some j)
    then obtain k' where "(k', j) \<in> set (f_constIdx f)" "constKey_eq k' c"
      using constIdx_lookup_Some by blast
    with ok i Some show ?thesis by (auto simp: internConst_def constIdx_ok_def intro: constKey_eq_same)
  qed
  show "\<exists>cs. f_Consts f' = f_Consts f @ cs" using i
    by (auto simp: internConst_def split: option.splits)
qed

lemma internConst_kind: "r_Kind (fst (internConst c f)) = RefConst"
  by (auto simp: internConst_def split: option.splits)

lemma internConst_sel [simp]:
  "f_arena (snd (internConst c f)) = f_arena f" "f_Blocks (snd (internConst c f)) = f_Blocks f"
  "f_Temps (snd (internConst c f)) = f_Temps f" "f_Start (snd (internConst c f)) = f_Start f"
  "f_Params (snd (internConst c f)) = f_Params f"
  by (auto simp: internConst_def split: option.splits)

lemma func_ConstInt_get:
  assumes "constIdx_ok f" "func_ConstInt c v f = (r, f')"
  shows "constIdx_ok f'" "r_Kind r = RefConst" "r_ID r < length (f_Consts f')"
    "c_Kind (f_Consts f' ! r_ID r) = ConstInt" "c_Cls (f_Consts f' ! r_ID r) = c"
    "c_Int (f_Consts f' ! r_ID r) = v" "\<exists>cs. f_Consts f' = f_Consts f @ cs"
    "f_Temps f' = f_Temps f" "f_arena f' = f_arena f" "f_Blocks f' = f_Blocks f"
proof -
  let ?c = "const0\<lparr>c_Cls := c, c_Int := v\<rparr>"
  have i: "(r_ID (fst (internConst ?c f)), snd (internConst ?c f)) = (r_ID r, f')" and r: "fst (internConst ?c f) = r"
    and f': "snd (internConst ?c f) = f'"
    using assms(2) by (simp_all add: func_ConstInt_def)
  show "constIdx_ok f'" by (rule pool.intern_invar[OF assms(1) i])
  show "r_Kind r = RefConst" using internConst_kind[of ?c f] r by simp
  have g: "r_ID r < length (f_Consts f') \<and> const_same (f_Consts f' ! r_ID r) ?c"
    by (rule pool.intern_get[OF assms(1) i])
  then show "r_ID r < length (f_Consts f')" by simp
  from g have "f_Consts f' ! r_ID r = ?c \<or> (f_Consts f' ! r_ID r)\<lparr>c_Flt := 0\<rparr> = ?c\<lparr>c_Flt := 0\<rparr>"
    by (auto simp: const_same_def)
  then show "c_Kind (f_Consts f' ! r_ID r) = ConstInt" "c_Cls (f_Consts f' ! r_ID r) = c"
    "c_Int (f_Consts f' ! r_ID r) = v"
    by (cases "f_Consts f' ! r_ID r"; auto simp: const0_def)+
  show "\<exists>cs. f_Consts f' = f_Consts f @ cs" by (rule pool.intern_prefix[OF assms(1) i])
  show "f_Temps f' = f_Temps f" "f_arena f' = f_arena f" "f_Blocks f' = f_Blocks f"
    using internConst_sel[of ?c f] f' by simp_all
qed

end
