(* ===== verification/Temp_Set.thy ===== *)
theory Temp_Set
  imports IR_Ops
begin

text \<open>
  The bit set of temporaries that backs the dataflow analyses (\<open>analysis/bitset.go\<close>): a slice of
  64-bit words indexed by temporary id.  Every operation is translated with its bounds check (an
  index past the words panics, here \<open>None\<close>), and shown to refine a finite set of naturals.  The
  contract the analyses use is the locale \<open>temp_set_spec\<close>.
\<close>

section \<open>The representation and its operations\<close>

record tempset =
  ts_words :: "u64 list"

definition NewTempSet :: "nat \<Rightarrow> tempset" where
  "NewTempSet n = \<lparr>ts_words = replicate ((n + 63) div 64) 0\<rparr>"

definition ts_mask :: "nat \<Rightarrow> u64" where
  "ts_mask i = push_bit (i mod 64) 1"

text \<open>\<open>Add\<close> returns whether the set changed, and the set.\<close>

definition ts_Add :: "nat \<Rightarrow> tempset \<Rightarrow> (bool \<times> tempset) option" where
  "ts_Add i s =
     (let w = i div 64; b = ts_mask i in
      if w \<ge> length (ts_words s) then None
      else if ts_words s ! w AND b \<noteq> 0 then Some (False, s)
      else Some (True, s\<lparr>ts_words := (ts_words s)[w := ts_words s ! w OR b]\<rparr>))"

definition ts_AddRef :: "ref \<Rightarrow> tempset \<Rightarrow> (bool \<times> tempset) option" where
  "ts_AddRef r s = (if r_Kind r = RefTemp then ts_Add (r_ID r) s else Some (False, s))"

definition ts_Remove :: "nat \<Rightarrow> tempset \<Rightarrow> tempset option" where
  "ts_Remove i s =
     (if i div 64 \<ge> length (ts_words s) then None
      else Some (s\<lparr>ts_words := (ts_words s)[i div 64 := ts_words s ! (i div 64) AND NOT (ts_mask i)]\<rparr>))"

definition ts_Has :: "nat \<Rightarrow> tempset \<Rightarrow> bool option" where
  "ts_Has i s =
     (if i div 64 \<ge> length (ts_words s) then None
      else Some (ts_words s ! (i div 64) AND ts_mask i \<noteq> 0))"

text \<open>The loop of \<open>Union\<close> over the words, which reads \<open>o.words[i]\<close> and panics past its end.\<close>

fun union_loop :: "u64 list \<Rightarrow> u64 list \<Rightarrow> bool \<Rightarrow> (bool \<times> u64 list) option" where
  "union_loop [] _ changed = Some (changed, [])"
| "union_loop (w # ws) [] changed = None"
| "union_loop (w # ws) (v # vs) changed =
     (case union_loop ws vs (changed \<or> w OR v \<noteq> w) of
        None \<Rightarrow> None
      | Some (c, ws') \<Rightarrow> Some (c, (w OR v) # ws'))"

definition ts_Union :: "tempset \<Rightarrow> tempset \<Rightarrow> (bool \<times> tempset) option" where
  "ts_Union s o' = (case union_loop (ts_words s) (ts_words o') False of
     None \<Rightarrow> None
   | Some (c, ws) \<Rightarrow> Some (c, s\<lparr>ts_words := ws\<rparr>))"

definition ts_Copy :: "tempset \<Rightarrow> tempset" where
  "ts_Copy s = \<lparr>ts_words = ts_words s\<rparr>"

text \<open>\<open>SetTo\<close> is Go's \<open>copy\<close>: as many words as the shorter of the two has.\<close>

definition ts_SetTo :: "tempset \<Rightarrow> tempset \<Rightarrow> tempset" where
  "ts_SetTo s o' = s\<lparr>ts_words := take (length (ts_words s)) (ts_words o') @
     drop (length (ts_words o')) (ts_words s)\<rparr>"

text \<open>\<open>bits.OnesCount64\<close> and \<open>bits.TrailingZeros64\<close>.\<close>

definition OnesCount64 :: "u64 \<Rightarrow> nat" where
  "OnesCount64 w = length (filter (bit w) [0..<64])"

definition TrailingZeros64 :: "u64 \<Rightarrow> nat" where
  "TrailingZeros64 w = (case find_index (bit w) [0..<64] of None \<Rightarrow> 64 | Some k \<Rightarrow> k)"

definition ts_Len :: "tempset \<Rightarrow> nat" where
  "ts_Len s = foldl (\<lambda>n w. n + OnesCount64 w) 0 (ts_words s)"

lemma and_pred_less: "(w :: u64) \<noteq> 0 \<Longrightarrow> unat (w AND (w - 1)) < unat w"
  using word_and_le1[of w "w - 1"] measure_unat[of w] by (simp add: word_le_nat_alt)

text \<open>
  The inner loop of \<open>Members\<close> and \<open>All\<close>: peel the lowest set bit off a word until it is zero.
\<close>

function word_loop :: "nat \<Rightarrow> u64 \<Rightarrow> nat list" where
  "word_loop wi w = (if w = 0 then [] else (wi * 64 + TrailingZeros64 w) # word_loop wi (w AND (w - 1)))"
  by pat_completeness auto
termination
  by (relation "measure (\<lambda>(wi, w). unat w)") (auto simp: and_pred_less)

declare word_loop.simps [simp del]

fun members_loop :: "nat \<Rightarrow> u64 list \<Rightarrow> nat list" where
  "members_loop wi [] = []"
| "members_loop wi (w # ws) = word_loop wi w @ members_loop (Suc wi) ws"

definition ts_Members :: "tempset \<Rightarrow> nat list" where
  "ts_Members s = members_loop 0 (ts_words s)"

text \<open>
  The iterator \<open>All\<close>: the loop body \<open>yield\<close> acts on a state and says whether to go on; the result
  says whether the iteration ran to its end.
\<close>

function all_word :: "(nat \<Rightarrow> 's \<Rightarrow> bool \<times> 's) \<Rightarrow> nat \<Rightarrow> u64 \<Rightarrow> 's \<Rightarrow> bool \<times> 's" where
  "all_word yield wi w st =
     (if w = 0 then (True, st)
      else case yield (wi * 64 + TrailingZeros64 w) st of
        (False, st') \<Rightarrow> (False, st')
      | (True, st') \<Rightarrow> all_word yield wi (w AND (w - 1)) st')"
  by pat_completeness auto
termination
  by (relation "measure (\<lambda>(y, wi, w, st). unat w)") (auto simp: and_pred_less)

declare all_word.simps [simp del]

fun all_words :: "(nat \<Rightarrow> 's \<Rightarrow> bool \<times> 's) \<Rightarrow> nat \<Rightarrow> u64 list \<Rightarrow> 's \<Rightarrow> bool \<times> 's" where
  "all_words yield wi [] st = (True, st)"
| "all_words yield wi (w # ws) st = (case all_word yield wi w st of
     (False, st') \<Rightarrow> (False, st')
   | (True, st') \<Rightarrow> all_words yield (Suc wi) ws st')"

definition ts_All :: "tempset \<Rightarrow> (nat \<Rightarrow> 's \<Rightarrow> bool \<times> 's) \<Rightarrow> 's \<Rightarrow> bool \<times> 's" where
  "ts_All s yield st = all_words yield 0 (ts_words s) st"

fun equal_loop :: "u64 list \<Rightarrow> u64 list \<Rightarrow> bool" where
  "equal_loop (w # ws) (v # vs) = (if w \<noteq> v then False else equal_loop ws vs)"
| "equal_loop _ _ = True"

definition ts_Equal :: "tempset \<Rightarrow> tempset \<Rightarrow> bool" where
  "ts_Equal s o' = (if length (ts_words s) \<noteq> length (ts_words o') then False
     else equal_loop (ts_words s) (ts_words o'))"

section \<open>Words as sets of bits\<close>

lemma OnesCount64_card: "OnesCount64 w = card {n. bit w n}"
proof -
  have "distinct (filter (bit w) [0..<64])" by simp
  then have "OnesCount64 w = card (set (filter (bit w) [0..<64]))"
    unfolding OnesCount64_def by (simp only: distinct_card)
  also have "set (filter (bit w) [0..<64]) = {n. bit w n}"
    by (auto dest: bit_imp_le_length)
  finally show ?thesis .
qed

lemma TrailingZeros64_bit:
  assumes "w \<noteq> 0"
  shows "bit w (TrailingZeros64 w)" "\<And>k. k < TrailingZeros64 w \<Longrightarrow> \<not> bit w k"
proof -
  from assms obtain n where n: "bit w n" by (metis bit_0_eq bot_apply bot_bool_def bit_word_eqI)
  then have "n \<in> set [0..<64]" by (auto dest: bit_imp_le_length)
  with n obtain k where k: "find_index (bit w) [0..<64] = Some k"
    by (metis find_index_None option.exhaust)
  from find_index_Some[OF k] have "bit w k" "\<forall>j < k. \<not> bit w j" by auto
  with k show "bit w (TrailingZeros64 w)" "\<And>k. k < TrailingZeros64 w \<Longrightarrow> \<not> bit w k"
    by (auto simp: TrailingZeros64_def)
qed

text \<open>Clearing the lowest set bit, the way \<open>w &= w - 1\<close> does it.\<close>

lemma bit_and_pred:
  fixes w :: u64
  assumes "w \<noteq> 0"
  shows "bit (w AND (w - 1)) n \<longleftrightarrow> bit w n \<and> n \<noteq> TrailingZeros64 w"
proof -
  let ?t = "TrailingZeros64 w"
  define h where "h = push_bit (Suc ?t) (drop_bit (Suc ?t) w)"
  note tz = TrailingZeros64_bit[OF assms]
  have t: "?t < 64" using tz(1) by (auto dest: bit_imp_le_length)
  have hb: "bit h n \<longleftrightarrow> ?t < n \<and> bit w n" for n
    unfolding h_def bit_push_bit_iff bit_drop_bit_eq using bit_imp_le_length[of w n] by auto
  have pb: "bit (2 ^ ?t :: u64) n \<longleftrightarrow> n = ?t" for n
    using t by (auto simp: bit_exp_iff)
  have disj: "h AND 2 ^ ?t = 0" "h AND mask ?t = 0"
    by (rule bit_word_eqI, simp add: bit_and_iff hb pb bit_mask_iff)+
  have "w = h OR 2 ^ ?t"
    by (rule bit_word_eqI) (use tz in \<open>auto simp: bit_or_iff hb pb intro: linorder_neqE_nat\<close>)
  then have "w = h + 2 ^ ?t" using disj(1) by (simp add: disjunctive_add_eq_or)
  then have "w - 1 = h + mask ?t" by (simp add: mask_eq_exp_minus_1)
  then have w1: "w - 1 = h OR mask ?t" using disj(2) by (simp add: disjunctive_add_eq_or)
  show ?thesis
    unfolding bit_and_iff w1 using tz
    by (auto simp: bit_or_iff bit_mask_iff hb dest: bit_imp_le_length intro: linorder_neqE_nat)
qed


lemma bit_ts_mask [simp]: "bit (ts_mask i) n \<longleftrightarrow> n = i mod 64"
  by (auto simp: ts_mask_def bit_exp_iff)

lemma and_ts_mask: "w AND ts_mask i = 0 \<longleftrightarrow> \<not> bit w (i mod 64)"
proof
  assume "w AND ts_mask i = 0"
  then have "bit (w AND ts_mask i) (i mod 64) = bit (0 :: u64) (i mod 64)" by simp
  then show "\<not> bit w (i mod 64)" by (simp add: bit_and_iff)
qed (auto intro!: bit_word_eqI simp: bit_and_iff)

lemma div_mod_64_eq: "i div 64 = j div 64 \<Longrightarrow> i mod 64 = j mod 64 \<Longrightarrow> i = (j :: nat)"
  by (metis div_mult_mod_eq)

section \<open>The set a bit set stands for\<close>

definition ts_set :: "tempset \<Rightarrow> nat set" where
  "ts_set s = {i. i div 64 < length (ts_words s) \<and> bit (ts_words s ! (i div 64)) (i mod 64)}"

text \<open>How many ids fit: \<open>NewTempSet n\<close> rounds \<open>n\<close> up to whole words.\<close>

definition ts_cap :: "tempset \<Rightarrow> nat" where
  "ts_cap s = 64 * length (ts_words s)"

lemma div64_less: "i div 64 < n \<longleftrightarrow> i < 64 * (n :: nat)"
  by auto

lemma ts_set_cap: "ts_set s \<subseteq> {..<ts_cap s}"
  by (auto simp: ts_set_def ts_cap_def div64_less)

lemma finite_ts_set [simp]: "finite (ts_set s)"
  by (rule finite_subset[OF ts_set_cap]) simp

lemma ts_set_New [simp]: "ts_set (NewTempSet n) = {}"
  by (auto simp: ts_set_def NewTempSet_def)

lemma ts_cap_New: "n \<le> ts_cap (NewTempSet n)" "ts_cap (NewTempSet n) < n + 64"
  by (auto simp: ts_cap_def NewTempSet_def)

lemma ts_Add_spec:
  "ts_Add i s = (if i < ts_cap s then Some (i \<notin> ts_set s, snd (the (ts_Add i s))) else None)"
  "i < ts_cap s \<Longrightarrow> ts_Add i s = Some (c, s') \<Longrightarrow> ts_set s' = insert i (ts_set s)"
  "ts_Add i s = Some (c, s') \<Longrightarrow> ts_cap s' = ts_cap s"
proof -
  show "ts_Add i s = (if i < ts_cap s then Some (i \<notin> ts_set s, snd (the (ts_Add i s))) else None)"
    by (auto simp: ts_Add_def Let_def ts_cap_def ts_set_def and_ts_mask div64_less)
  show "i < ts_cap s \<Longrightarrow> ts_Add i s = Some (c, s') \<Longrightarrow> ts_set s' = insert i (ts_set s)"
    by (auto simp: ts_Add_def Let_def ts_cap_def ts_set_def and_ts_mask div64_less nth_list_update
        bit_or_iff split: if_splits intro: div_mod_64_eq)
  show "ts_Add i s = Some (c, s') \<Longrightarrow> ts_cap s' = ts_cap s"
    by (auto simp: ts_Add_def Let_def ts_cap_def split: if_splits)
qed

lemma ts_Remove_spec:
  "i < ts_cap s \<Longrightarrow> \<exists>s'. ts_Remove i s = Some s' \<and> ts_set s' = ts_set s - {i} \<and> ts_cap s' = ts_cap s"
proof -
  show "i < ts_cap s \<Longrightarrow> ?thesis"
    by (auto simp: ts_Remove_def ts_set_def ts_cap_def div64_less nth_list_update bit_and_iff bit_not_iff
        split: if_splits dest: div_mod_64_eq bit_imp_le_length)
qed

lemma ts_Has_spec: "ts_Has i s = (if i < ts_cap s then Some (i \<in> ts_set s) else None)"
  by (auto simp: ts_Has_def ts_set_def ts_cap_def and_ts_mask)

lemma union_loop_spec:
  "length ws \<le> length vs \<Longrightarrow>
   union_loop ws vs c = Some (c \<or> (\<exists>k < length ws. ws ! k OR vs ! k \<noteq> ws ! k), map2 (OR) ws vs)"
proof (induction ws vs c rule: union_loop.induct)
  case (3 w ws v vs c)
  then show ?case by (auto simp: less_Suc_eq_0_disj)
qed auto

lemma ts_Union_spec:
  assumes "ts_cap s = ts_cap t"
  shows "\<exists>s'. ts_Union s t = Some (\<not> ts_set t \<subseteq> ts_set s, s') \<and> ts_set s' = ts_set s \<union> ts_set t \<and> ts_cap s' = ts_cap s"
proof -
  have len: "length (ts_words s) = length (ts_words t)" using assms by (simp add: ts_cap_def)
  let ?s' = "s\<lparr>ts_words := map2 (OR) (ts_words s) (ts_words t)\<rparr>"
  let ?c = "\<exists>k < length (ts_words s). ts_words s ! k OR ts_words t ! k \<noteq> ts_words s ! k"
  have u: "ts_Union s t = Some (?c, ?s')" using len by (simp add: ts_Union_def union_loop_spec)
  have set': "ts_set ?s' = ts_set s \<union> ts_set t" using len by (auto simp: ts_set_def bit_or_iff)
  have "?c \<longleftrightarrow> \<not> ts_set t \<subseteq> ts_set s"
  proof
    assume ?c
    then obtain k n where k: "k < length (ts_words s)" "bit (ts_words t ! k) n" "\<not> bit (ts_words s ! k) n"
      by (auto simp: bit_eq_iff bit_or_iff)
    then have "n < 64" by (auto dest: bit_imp_le_length)
    with k len have "64 * k + n \<in> ts_set t - ts_set s" by (simp add: ts_set_def)
    then show "\<not> ts_set t \<subseteq> ts_set s" by blast
  next
    assume "\<not> ts_set t \<subseteq> ts_set s"
    then obtain i where i: "i \<in> ts_set t" "i \<notin> ts_set s" by blast
    then have "bit (ts_words s ! (i div 64) OR ts_words t ! (i div 64)) (i mod 64) \<noteq> bit (ts_words s ! (i div 64)) (i mod 64)"
      using len by (auto simp: ts_set_def bit_or_iff)
    then show ?c using i len by (auto simp: ts_set_def)
  qed
  with u set' len show ?thesis by (auto simp: ts_cap_def)
qed

lemma ts_SetTo_spec:
  "ts_cap s = ts_cap t \<Longrightarrow> ts_set (ts_SetTo s t) = ts_set t \<and> ts_cap (ts_SetTo s t) = ts_cap s"
  by (auto simp: ts_SetTo_def ts_set_def ts_cap_def)

lemma ts_Copy_spec: "ts_set (ts_Copy s) = ts_set s" "ts_cap (ts_Copy s) = ts_cap s"
  by (auto simp: ts_Copy_def ts_set_def ts_cap_def)

lemma equal_loop_iff: "length ws = length vs \<Longrightarrow> equal_loop ws vs \<longleftrightarrow> ws = vs"
  by (induction ws vs rule: equal_loop.induct) auto

lemma ts_set_inj:
  assumes "length (ts_words s) = length (ts_words t)" "ts_set s = ts_set t"
  shows "ts_words s = ts_words t"
proof (rule nth_equalityI[OF assms(1)])
  fix k assume k: "k < length (ts_words s)"
  show "ts_words s ! k = ts_words t ! k"
  proof (rule bit_word_eqI)
    fix n assume "n < LENGTH(64)"
    moreover have "64 * k + n \<in> ts_set s \<longleftrightarrow> 64 * k + n \<in> ts_set t" using assms(2) by simp
    ultimately show "bit (ts_words s ! k) n \<longleftrightarrow> bit (ts_words t ! k) n"
      using k assms(1) by (simp add: ts_set_def)
  qed
qed

section \<open>The contract the analyses rely on\<close>

locale temp_set_spec =
  fixes new :: "nat \<Rightarrow> 's"
    and add :: "nat \<Rightarrow> 's \<Rightarrow> (bool \<times> 's) option"
    and remove :: "nat \<Rightarrow> 's \<Rightarrow> 's option"
    and union :: "'s \<Rightarrow> 's \<Rightarrow> (bool \<times> 's) option"
    and setTo :: "'s \<Rightarrow> 's \<Rightarrow> 's"
    and \<alpha> :: "'s \<Rightarrow> nat set"
    and cap :: "'s \<Rightarrow> nat"
  assumes new: "\<alpha> (new n) = {}" "n \<le> cap (new n)"
    and add: "i < cap s \<Longrightarrow> \<exists>s'. add i s = Some (i \<notin> \<alpha> s, s') \<and> \<alpha> s' = insert i (\<alpha> s) \<and> cap s' = cap s"
    and remove: "i < cap s \<Longrightarrow> \<exists>s'. remove i s = Some s' \<and> \<alpha> s' = \<alpha> s - {i} \<and> cap s' = cap s"
    and union: "cap s = cap t \<Longrightarrow>
      \<exists>s'. union s t = Some (\<not> \<alpha> t \<subseteq> \<alpha> s, s') \<and> \<alpha> s' = \<alpha> s \<union> \<alpha> t \<and> cap s' = cap s"
    and setTo: "cap s = cap t \<Longrightarrow> \<alpha> (setTo s t) = \<alpha> t \<and> cap (setTo s t) = cap s"
begin

text \<open>Loops of insertions and deletions.\<close>

lemma add_all:
  assumes "\<And>x i. x \<in> set xs \<Longrightarrow> key x = Some i \<Longrightarrow> i < cap s"
  shows "\<exists>s'. fold_opt (\<lambda>x s. case key x of None \<Rightarrow> Some s | Some i \<Rightarrow> map_option snd (add i s)) xs s = Some s' \<and>
    \<alpha> s' = \<alpha> s \<union> {i. \<exists>x \<in> set xs. key x = Some i} \<and> cap s' = cap s"
proof (rule fold_opt_invar[where I = "\<lambda>ys t. \<alpha> t = \<alpha> s \<union> {i. \<exists>x \<in> set ys. key x = Some i} \<and> cap t = cap s"])
  fix x ys zs t
  assume xs: "xs = ys @ x # zs" and t: "\<alpha> t = \<alpha> s \<union> {i. \<exists>x \<in> set ys. key x = Some i} \<and> cap t = cap s"
  show "\<exists>t'. (case key x of None \<Rightarrow> Some t | Some i \<Rightarrow> map_option snd (add i t)) = Some t' \<and>
    \<alpha> t' = \<alpha> s \<union> {i. \<exists>x \<in> set (ys @ [x]). key x = Some i} \<and> cap t' = cap s"
  proof (cases "key x")
    case None
    with t show ?thesis by auto
  next
    case (Some i)
    with assms[of x i] xs t have "i < cap t" by simp
    from add[OF this] t Some show ?thesis by auto
  qed
qed auto

lemma remove_all:
  assumes "\<And>x i. x \<in> set xs \<Longrightarrow> key x = Some i \<Longrightarrow> i < cap s"
  shows "\<exists>s'. fold_opt (\<lambda>x s. case key x of None \<Rightarrow> Some s | Some i \<Rightarrow> remove i s) xs s = Some s' \<and>
    \<alpha> s' = \<alpha> s - {i. \<exists>x \<in> set xs. key x = Some i} \<and> cap s' = cap s"
proof (rule fold_opt_invar[where I = "\<lambda>ys t. \<alpha> t = \<alpha> s - {i. \<exists>x \<in> set ys. key x = Some i} \<and> cap t = cap s"])
  fix x ys zs t
  assume xs: "xs = ys @ x # zs" and t: "\<alpha> t = \<alpha> s - {i. \<exists>x \<in> set ys. key x = Some i} \<and> cap t = cap s"
  show "\<exists>t'. (case key x of None \<Rightarrow> Some t | Some i \<Rightarrow> remove i t) = Some t' \<and>
    \<alpha> t' = \<alpha> s - {i. \<exists>x \<in> set (ys @ [x]). key x = Some i} \<and> cap t' = cap s"
  proof (cases "key x")
    case None
    with t show ?thesis by auto
  next
    case (Some i)
    with assms[of x i] xs t have "i < cap t" by simp
    from remove[OF this] t Some show ?thesis by auto
  qed
qed auto

end

interpretation ts: temp_set_spec NewTempSet ts_Add ts_Remove ts_Union ts_SetTo ts_set ts_cap
proof
  fix i s
  assume "i < ts_cap s"
  then show "\<exists>s'. ts_Add i s = Some (i \<notin> ts_set s, s') \<and> ts_set s' = insert i (ts_set s) \<and> ts_cap s' = ts_cap s"
    using ts_Add_spec[of i s] by (metis (no_types, lifting))
qed (rule ts_set_New ts_cap_New ts_Remove_spec ts_Union_spec ts_SetTo_spec; assumption)+

section \<open>Enumeration\<close>

lemma word_loop_set: "set (word_loop wi w) = {wi * 64 + n | n. bit w n}"
proof (induction wi w rule: word_loop.induct)
  case (1 wi w)
  show ?case
  proof (cases "w = 0")
    case False
    have "set (word_loop wi w) = insert (wi * 64 + TrailingZeros64 w) {wi * 64 + n | n. bit (w AND (w - 1)) n}"
      using 1[OF False] False by (subst word_loop.simps) simp
    with bit_and_pred[OF False] TrailingZeros64_bit(1)[OF False] show ?thesis by auto
  qed (simp add: word_loop.simps)
qed

lemma word_loop_sorted: "sorted_wrt (<) (word_loop wi w)"
proof (induction wi w rule: word_loop.induct)
  case (1 wi w)
  show ?case
  proof (cases "w = 0")
    case False
    have "TrailingZeros64 w < n" if "bit w n" "n \<noteq> TrailingZeros64 w" for n
      using that TrailingZeros64_bit(2)[OF False] by (metis linorder_neqE_nat)
    then show ?thesis
      using 1[OF False] False by (subst word_loop.simps) (auto simp: word_loop_set bit_and_pred)
  qed (simp add: word_loop.simps)
qed

lemma length_word_loop: "length (word_loop wi w) = OnesCount64 w"
proof -
  have "length (word_loop wi w) = card ((\<lambda>n. wi * 64 + n) ` {n. bit w n})"
    using distinct_card[OF sorted_wrt_less_distinct[OF word_loop_sorted[of wi w]]]
    by (simp add: word_loop_set image_Collect)
  also have "\<dots> = card {n. bit w n}" by (rule card_image) (simp add: inj_on_def)
  finally show ?thesis by (simp add: OnesCount64_card)
qed

lemma members_loop_set:
  "set (members_loop wi ws) = {i. wi * 64 \<le> i \<and> i div 64 - wi < length ws \<and> bit (ws ! (i div 64 - wi)) (i mod 64)}"
proof (induction ws arbitrary: wi)
  case (Cons w ws)
  have 1: "{wi * 64 + n | n. bit w n} = {i. i div 64 = wi \<and> bit w (i mod 64)}" (is "?L = ?R")
  proof (intro subset_antisym subsetI)
    fix i assume "i \<in> ?L"
    then obtain n where "i = wi * 64 + n" "bit w n" by blast
    then show "i \<in> ?R" using bit_imp_le_length[of w n] by simp
  next
    fix i assume "i \<in> ?R"
    then have "i = wi * 64 + i mod 64" "bit w (i mod 64)" by auto
    then show "i \<in> ?L" by blast
  qed
  have 2: "i div 64 = wi \<or> (Suc wi) * 64 \<le> i" if "wi * 64 \<le> i" for i
    using that less_eq_div_iff_mult_less_eq[of 64 wi i] less_eq_div_iff_mult_less_eq[of 64 "Suc wi" i] by linarith
  have shift: "i div 64 - wi = Suc (i div 64 - Suc wi)" if "Suc wi * 64 \<le> i" for i
    using that less_eq_div_iff_mult_less_eq[of 64 "Suc wi" i] by linarith
  show ?case (is "?A = ?B")
  proof (rule set_eqI)
    fix i
    consider "i < wi * 64" | "i div 64 = wi" | "Suc wi * 64 \<le> i" using 2[of i] by linarith
    then show "i \<in> ?A \<longleftrightarrow> i \<in> ?B"
    proof cases
      case 3
      then have "i div 64 \<noteq> wi" "wi * 64 \<le> i" by auto
      with 3 show ?thesis by (simp add: word_loop_set Cons.IH 1 shift)
    qed (auto simp: word_loop_set Cons.IH 1)
  qed
qed simp

lemma members_loop_sorted: "sorted_wrt (<) (members_loop wi ws)"
proof (induction ws arbitrary: wi)
  case (Cons w ws)
  have "wi * 64 + n < j" if "bit w n" "Suc wi * 64 \<le> j" for n j
    using that bit_imp_le_length[of w n] by simp
  then show ?case
    using Cons.IH[of "Suc wi"] word_loop_sorted[of wi w]
    by (auto simp: sorted_wrt_append word_loop_set members_loop_set)
qed simp

lemma ts_Members_set [simp]: "set (ts_Members s) = ts_set s"
  by (auto simp: ts_Members_def members_loop_set ts_set_def)

lemma ts_Members_sorted: "sorted_wrt (<) (ts_Members s)"
  unfolding ts_Members_def by (rule members_loop_sorted)

lemma ts_Len_Members: "ts_Len s = length (ts_Members s)"
proof -
  have "foldl (\<lambda>n w. n + OnesCount64 w) k ws = k + length (members_loop wi ws)" for k wi ws
  proof (induction ws arbitrary: k wi)
    case (Cons w ws)
    show ?case using Cons.IH[of "k + OnesCount64 w" "Suc wi"] by (simp add: length_word_loop)
  qed simp
  then show ?thesis unfolding ts_Len_def ts_Members_def by (metis add_0)
qed

text \<open>Running a loop body over a list until it asks to stop.\<close>

fun yield_list :: "(nat \<Rightarrow> 's \<Rightarrow> bool \<times> 's) \<Rightarrow> nat list \<Rightarrow> 's \<Rightarrow> bool \<times> 's" where
  "yield_list yield [] st = (True, st)"
| "yield_list yield (x # xs) st = (case yield x st of (False, st') \<Rightarrow> (False, st') | (True, st') \<Rightarrow> yield_list yield xs st')"

lemma yield_list_append:
  "yield_list y (xs @ zs) st = (case yield_list y xs st of (False, st') \<Rightarrow> (False, st') | (True, st') \<Rightarrow> yield_list y zs st')"
  by (induction xs arbitrary: st) (auto split: prod.splits bool.splits)

lemma all_word_yield_list: "all_word y wi w st = yield_list y (word_loop wi w) st"
  by (induction y wi w st rule: all_word.induct)
    (subst all_word.simps, subst word_loop.simps, auto split: prod.splits bool.splits)

lemma ts_All_yield_list: "ts_All s y st = yield_list y (ts_Members s) st"
proof -
  have "all_words y wi ws st = yield_list y (members_loop wi ws) st" for wi ws
    by (induction ws arbitrary: wi st)
      (auto simp: all_word_yield_list yield_list_append split: prod.splits bool.splits)
  then show ?thesis by (simp add: ts_All_def ts_Members_def)
qed

text \<open>
  C11: the bit set refines finite sets of ids.  Within its capacity \<open>Add\<close>, \<open>Remove\<close>, \<open>Has\<close> and
  \<open>Union\<close> do not panic and act as insertion, deletion, membership and union, \<open>Add\<close> and \<open>Union\<close>
  reporting a change exactly when there is one; past the capacity the three panic.
\<close>

theorem tempset_refines_set:
  "(i < ts_cap s \<longrightarrow>
      (\<exists>s'. ts_Add i s = Some (i \<notin> ts_set s, s') \<and> ts_set s' = insert i (ts_set s)) \<and>
      (\<exists>s'. ts_Remove i s = Some s' \<and> ts_set s' = ts_set s - {i}) \<and>
      ts_Has i s = Some (i \<in> ts_set s)) \<and>
   (ts_cap s \<le> i \<longrightarrow> ts_Add i s = None \<and> ts_Remove i s = None \<and> ts_Has i s = None) \<and>
   (ts_cap s = ts_cap t \<longrightarrow>
      (\<exists>s'. ts_Union s t = Some (\<not> ts_set t \<subseteq> ts_set s, s') \<and> ts_set s' = ts_set s \<union> ts_set t) \<and>
      (ts_Equal s t \<longleftrightarrow> ts_set s = ts_set t) \<and>
      ts_set (ts_SetTo s t) = ts_set t)"
proof -
  have "ts_cap s = ts_cap t \<Longrightarrow> ts_Equal s t \<longleftrightarrow> ts_set s = ts_set t"
    using ts_set_inj[of s t] by (auto simp: ts_Equal_def ts_cap_def equal_loop_iff ts_set_def)
  moreover have "ts_cap s \<le> i \<Longrightarrow> ts_Add i s = None \<and> ts_Remove i s = None \<and> ts_Has i s = None"
    by (auto simp: ts_Add_def ts_Remove_def ts_Has_def ts_cap_def)
  ultimately show ?thesis
    using ts.add[of i s] ts.remove[of i s] ts_Has_spec[of i s] ts.union[of s t] ts.setTo[of s t] by auto
qed

definition example_set :: tempset where
  "example_set = \<lparr>ts_words = [5, 2]\<rparr>"

theorem tempset_refines_set_witness:
  "70 < ts_cap example_set \<and> ts_cap example_set \<le> 128 \<and>
   ts_Has 65 example_set = Some (65 \<in> ts_set example_set) \<and> ts_Add 128 example_set = None \<and>
   ts_Equal example_set example_set"
  using tempset_refines_set[of 65 example_set example_set] tempset_refines_set[of 128 example_set example_set]
  by (simp add: ts_cap_def example_set_def)

text \<open>
  \<open>Members\<close> and the allocation-free iterator \<open>All\<close> enumerate exactly the elements, each once, in
  ascending order, an iteration stopping where its body asks to; \<open>Len\<close> is the number of elements.
\<close>

theorem tempset_enumeration:
  "set (ts_Members s) = ts_set s \<and> sorted_wrt (<) (ts_Members s) \<and>
   ts_Len s = card (ts_set s) \<and> ts_All s y st = yield_list y (ts_Members s) st"
  using distinct_card[OF sorted_wrt_less_distinct[OF ts_Members_sorted[of s]]]
  by (simp add: ts_Members_sorted ts_Len_Members ts_All_yield_list)

end
