(* ===== verification/CFG.thy ===== *)
theory CFG
  imports IR_Func "HOL-Library.AList"
begin

text \<open>
  Control-flow graphs (\<open>analysis/cfg.go\<close>): predecessor lists, the reverse postorder of the blocks
  reachable from the entry, and the life cycle of the pooled numbering map.  A CFG's map from blocks
  to numbers is an association list, so that its length is Go's \<open>len\<close>.  The depth-first walk keeps
  the explicit stack of the source, its top first.
\<close>

section \<open>Recycled maps\<close>

text \<open>
  A \<open>sync.Pool\<close> of maps.  \<open>Get\<close> may hand out any pooled map or none (the runtime drops pooled
  objects at will), which the argument \<open>pick\<close> resolves.
\<close>

type_synonym ('k, 'v) gomap = "('k \<times> 'v) list"
type_synonym ('k, 'v) mappool = "('k, 'v) gomap list"

definition pooledNumberingLimit :: nat where
  "pooledNumberingLimit = 256"

definition takeNumbering :: "nat \<Rightarrow> nat option \<Rightarrow> ('k, 'v) mappool \<Rightarrow> ('k, 'v) gomap \<times> ('k, 'v) mappool" where
  "takeNumbering n pick pool =
     (if n \<le> pooledNumberingLimit
      then case pick of
             Some k \<Rightarrow> (if k < length pool then (pool ! k, take k pool @ drop (Suc k) pool) else ([], pool))
           | None \<Rightarrow> ([], pool)
      else ([], pool))"

text \<open>The tail of \<open>Release\<close>: a map that is too large is dropped, another is cleared and pooled.\<close>

definition putNumbering :: "('k, 'v) gomap \<Rightarrow> ('k, 'v) mappool \<Rightarrow> ('k, 'v) mappool" where
  "putNumbering m pool = (if length m > pooledNumberingLimit then pool else [] # pool)"

section \<open>Successors and predecessors\<close>

record cfg =
  cfg_RPO :: "bptr list"
  cfg_num :: "(bptr, int) gomap"
  cfg_released :: bool

definition cfg_Succs :: "block \<Rightarrow> bptr option list" where
  "cfg_Succs b = map (\<lambda>i. the (block_SuccAt b i)) [0..<block_SuccCount b] @ b_SyntheticSuccs b"

definition succCount :: "block \<Rightarrow> nat" where
  "succCount b = block_SuccCount b + length (b_SyntheticSuccs b)"

text \<open>\<open>succAt\<close>; outer \<open>None\<close> is the panic of an index out of range.\<close>

definition succAt :: "block \<Rightarrow> nat \<Rightarrow> bptr option option" where
  "succAt b i = (let executable = block_SuccCount b in
     if i < executable then block_SuccAt b i
     else if i - executable < length (b_SyntheticSuccs b) then Some (b_SyntheticSuccs b ! (i - executable))
     else None)"

text \<open>One step of the inner loop of \<open>fillPreds\<close>: the edge from \<open>b\<close> to its \<open>i\<close>-th successor.\<close>

definition fillPreds_edge :: "bptr \<Rightarrow> nat \<Rightarrow> func \<Rightarrow> func" where
  "fillPreds_edge b i f = (case succAt (blk f b) i of
     Some (Some s) \<Rightarrow>
       (if length (b_Preds (blk f s)) > 0 \<and> last (b_Preds (blk f s)) = b then f
        else upd_blk s (\<lambda>x. x\<lparr>b_Preds := b_Preds x @ [b]\<rparr>) f)
   | _ \<Rightarrow> f)"

definition fillPreds :: "func \<Rightarrow> func" where
  "fillPreds f =
     (let f1 = fold (\<lambda>b. upd_blk b (\<lambda>x. x\<lparr>b_Preds := []\<rparr>)) (f_Blocks f) f
      in fold (\<lambda>b g. fold (fillPreds_edge b) [0..<succCount (blk g b)] g) (f_Blocks f1) f1)"

definition FillPreds :: "func \<Rightarrow> func" where
  "FillPreds f = fillPreds f"

section \<open>Reverse postorder\<close>

text \<open>
  The inner loop of \<open>computeRPO\<close>: from position \<open>next\<close> on, the first successor that is not numbered
  yet, if any, and where the walk of the successors has got.
\<close>

function rpo_scan :: "block \<Rightarrow> (bptr, int) gomap \<Rightarrow> nat \<Rightarrow> bptr option \<times> nat" where
  "rpo_scan b num next =
     (if next < succCount b
      then case succAt b next of
             Some (Some s) \<Rightarrow>
               (if map_of num s \<noteq> None then rpo_scan b num (next + 1) else (Some s, next + 1))
           | _ \<Rightarrow> rpo_scan b num (next + 1)
      else (None, next))"
  by pat_completeness auto
termination
  by (relation "measure (\<lambda>(b, num, next). succCount b - next)") auto

declare rpo_scan.simps [simp del]

text \<open>Every block a terminator or a synthetic edge names; the walk can number no other.\<close>

definition succ_ptrs :: "func \<Rightarrow> bptr set" where
  "succ_ptrs f = {s. \<exists>b. Some s \<in> set (cfg_Succs (blk f b))}"

lemma block_SuccAt_in: "i < block_SuccCount b \<Longrightarrow> block_SuccAt b i = Some (block_Succs b ! i)"
  by (auto simp: block_Succs_def block_SuccCount_def block_SuccAt_def nth_Cons' split: jmpKind.splits)

lemma cfg_Succs_eq: "cfg_Succs b = block_Succs b @ b_SyntheticSuccs b"
proof -
  have "map (\<lambda>i. the (block_SuccAt b i)) [0..<block_SuccCount b] = block_Succs b"
    by (rule nth_equalityI) (simp_all add: length_block_Succs block_SuccAt_in)
  then show ?thesis by (simp add: cfg_Succs_def)
qed

lemma length_cfg_Succs [simp]: "length (cfg_Succs b) = succCount b"
  by (simp add: cfg_Succs_eq length_block_Succs succCount_def)

lemma succAt_eq: "succAt b i = (if i < succCount b then Some (cfg_Succs b ! i) else None)"
  by (auto simp: succAt_def Let_def cfg_Succs_eq nth_append length_block_Succs block_SuccAt_in succCount_def)

lemma cfg_Succs_block0 [simp]: "cfg_Succs block0 = []"
  by (simp add: cfg_Succs_eq block_Succs_def block0_def jmp0_def)

lemma finite_succ_ptrs: "finite (succ_ptrs f)"
proof -
  have "succ_ptrs f \<subseteq> (\<Union>b \<in> set (f_arena f). {s. Some s \<in> set (cfg_Succs b)})"
    by (auto simp: succ_ptrs_def blk_def split: if_splits) (metis nth_mem)
  moreover have "finite {s. Some s \<in> set xs}" for xs :: "bptr option list"
    by (rule finite_subset[of _ "the ` set xs"]) force+
  ultimately show ?thesis by (meson finite_UN finite_set finite_subset)
qed

lemma rpo_scan_steps:
  "\<not> n < succCount b \<Longrightarrow> rpo_scan b num n = (None, n)"
  "n < succCount b \<Longrightarrow> cfg_Succs b ! n = Some s \<Longrightarrow> map_of num s = None \<Longrightarrow> rpo_scan b num n = (Some s, n + 1)"
  "n < succCount b \<Longrightarrow> (\<And>s. cfg_Succs b ! n = Some s \<Longrightarrow> map_of num s \<noteq> None) \<Longrightarrow> rpo_scan b num n = rpo_scan b num (n + 1)"
proof -
  show "\<not> n < succCount b \<Longrightarrow> rpo_scan b num n = (None, n)" by (subst rpo_scan.simps) simp
  show "n < succCount b \<Longrightarrow> cfg_Succs b ! n = Some s \<Longrightarrow> map_of num s = None \<Longrightarrow> rpo_scan b num n = (Some s, n + 1)"
    by (subst rpo_scan.simps) (simp add: succAt_eq)
  show "n < succCount b \<Longrightarrow> (\<And>s. cfg_Succs b ! n = Some s \<Longrightarrow> map_of num s \<noteq> None) \<Longrightarrow> rpo_scan b num n = rpo_scan b num (n + 1)"
    by (subst rpo_scan.simps, cases "cfg_Succs b ! n") (simp_all add: succAt_eq)
qed

lemma rpo_scan_cases:
  assumes "rpo_scan b num next = (r, next')"
  shows "next \<le> next'"
    "r = None \<Longrightarrow> next \<le> succCount b \<Longrightarrow> next' = succCount b"
    "\<And>s. r = Some s \<Longrightarrow> next' \<le> succCount b \<and> 0 < next' \<and> cfg_Succs b ! (next' - 1) = Some s \<and> map_of num s = None"
    "\<And>i s. next \<le> i \<Longrightarrow> i < (if r = None then next' else next' - 1) \<Longrightarrow> cfg_Succs b ! i = Some s \<Longrightarrow> map_of num s \<noteq> None"
proof -
  have "next \<le> next' \<and> (r = None \<longrightarrow> next \<le> succCount b \<longrightarrow> next' = succCount b) \<and>
    (\<forall>s. r = Some s \<longrightarrow> next' \<le> succCount b \<and> next < next' \<and> cfg_Succs b ! (next' - 1) = Some s \<and> map_of num s = None) \<and>
    (\<forall>i s. next \<le> i \<longrightarrow> i < (if r = None then next' else next' - 1) \<longrightarrow> cfg_Succs b ! i = Some s \<longrightarrow> map_of num s \<noteq> None)"
    using assms
  proof (induction "succCount b - next" arbitrary: "next" rule: less_induct)
    case less
    consider "\<not> next < succCount b"
      | s where "next < succCount b" "cfg_Succs b ! next = Some s" "map_of num s = None"
      | "next < succCount b" "\<And>s. cfg_Succs b ! next = Some s \<Longrightarrow> map_of num s \<noteq> None" by blast
    then show ?case
    proof cases
      case 1
      with less.prems show ?thesis by (auto simp: rpo_scan_steps(1))
    next
      case 2
      with less.prems show ?thesis by (auto simp: rpo_scan_steps(2))
    next
      case 3
      have rec: "rpo_scan b num (next + 1) = (r, next')"
        using less.prems rpo_scan_steps(3)[OF 3] by simp
      have dec: "succCount b - (next + 1) < succCount b - next" using 3(1) by simp
      note IH = less.hyps[OF dec rec]
      have "map_of num s \<noteq> None" if "next \<le> i" "i < (if r = None then next' else next' - 1)" "cfg_Succs b ! i = Some s" for i s
      proof (cases "i = next")
        case True
        with that 3(2) show ?thesis by blast
      next
        case False
        with that(1) have "next + 1 \<le> i" by simp
        with that(2,3) IH show ?thesis by blast
      qed
      with IH 3(1) show ?thesis by auto
    qed
  qed
  then show "next \<le> next'"
    "r = None \<Longrightarrow> next \<le> succCount b \<Longrightarrow> next' = succCount b"
    "\<And>s. r = Some s \<Longrightarrow> next' \<le> succCount b \<and> 0 < next' \<and> cfg_Succs b ! (next' - 1) = Some s \<and> map_of num s = None"
    "\<And>i s. next \<le> i \<Longrightarrow> i < (if r = None then next' else next' - 1) \<Longrightarrow> cfg_Succs b ! i = Some s \<Longrightarrow> map_of num s \<noteq> None"
    by auto
qed

lemma rpo_scan_descend:
  assumes "rpo_scan (blk f b) num next = (Some s, next')"
  shows "Some s \<in> set (cfg_Succs (blk f b))" "map_of num s = None"
    "card (succ_ptrs f - dom ((map_of num)(s \<mapsto> v))) < card (succ_ptrs f - dom (map_of num))"
proof -
  have s: "next' \<le> succCount (blk f b)" "0 < next'" "cfg_Succs (blk f b) ! (next' - 1) = Some s" "map_of num s = None"
    using rpo_scan_cases(3)[OF assms] by auto
  have "next' - 1 < length (cfg_Succs (blk f b))" using s(1,2) by simp
  from nth_mem[OF this] s(3) show mem: "Some s \<in> set (cfg_Succs (blk f b))" by simp
  show "map_of num s = None" by (fact s(4))
  from mem have "s \<in> succ_ptrs f" by (auto simp: succ_ptrs_def)
  with s(4) have "succ_ptrs f - dom ((map_of num)(s \<mapsto> v)) \<subset> succ_ptrs f - dom (map_of num)" by auto
  then show "card (succ_ptrs f - dom ((map_of num)(s \<mapsto> v))) < card (succ_ptrs f - dom (map_of num))"
    by (intro psubset_card_mono) (auto simp: finite_succ_ptrs)
qed

text \<open>The walk: the numbering doubles as the visited set, with \<open>visiting = -1\<close> until the end.\<close>

function rpo_walk :: "func \<Rightarrow> (bptr, int) gomap \<Rightarrow> (bptr \<times> nat) list \<Rightarrow> bptr list \<Rightarrow> (bptr, int) gomap \<times> bptr list" where
  "rpo_walk f num [] post = (num, post)"
| "rpo_walk f num ((b, next) # stack) post =
     (case rpo_scan (blk f b) num next of
        (Some s, next') \<Rightarrow> rpo_walk f (AList.update s (-1) num) ((s, 0) # (b, next') # stack) post
      | (None, next') \<Rightarrow> rpo_walk f num stack (post @ [b]))"
  by pat_completeness auto
termination
  by (relation "inv_image (less_than <*lex*> less_than) (\<lambda>(f, num, stack, post). (card (succ_ptrs f - dom (map_of num)), length stack))")
    (auto simp del: fun_upd_apply dom_fun_upd simp: update_conv' rpo_scan_descend(3)[OF sym])

text \<open>The reverse pass: number the blocks of the reversed postorder by position.\<close>

definition computeRPO :: "func \<Rightarrow> (bptr, int) gomap \<Rightarrow> cfg" where
  "computeRPO f num0 =
     (let (num, post) = (case f_Start f of
            None \<Rightarrow> (num0, [])
          | Some e \<Rightarrow> rpo_walk f (AList.update e (-1) num0) [(e, 0)] []);
          rpo = rev post
      in \<lparr>cfg_RPO = rpo,
          cfg_num = fold (\<lambda>(i, b). AList.update b (int i)) (enumerate 0 rpo) num,
          cfg_released = False\<rparr>)"

definition BuildCFG :: "nat option \<Rightarrow> (bptr, int) mappool \<Rightarrow> func \<Rightarrow> cfg \<times> func \<times> (bptr, int) mappool" where
  "BuildCFG pick pool f =
     (let f1 = fillPreds f; (num0, pool1) = takeNumbering (length (f_Blocks f1)) pick pool
      in (computeRPO f1 num0, f1, pool1))"

definition cfg_Release :: "cfg \<Rightarrow> (bptr, int) mappool \<Rightarrow> cfg \<times> (bptr, int) mappool" where
  "cfg_Release c pool = (if cfg_released c then (c, pool)
     else (c\<lparr>cfg_released := True, cfg_num := []\<rparr>, putNumbering (cfg_num c) pool))"

text \<open>\<open>Num\<close> and \<open>Reachable\<close> panic (\<open>None\<close>) on a released CFG.\<close>

definition cfg_Num :: "cfg \<Rightarrow> bptr \<Rightarrow> int option" where
  "cfg_Num c b = (if cfg_released c then None
     else Some (case map_of (cfg_num c) b of Some n \<Rightarrow> n | None \<Rightarrow> -1))"

definition cfg_Reachable :: "cfg \<Rightarrow> bptr \<Rightarrow> bool option" where
  "cfg_Reachable c b = (if cfg_released c then None else Some (map_of (cfg_num c) b \<noteq> None))"

section \<open>Control-flow edges\<close>

definition cfg_edge :: "func \<Rightarrow> bptr \<Rightarrow> bptr \<Rightarrow> bool" where
  "cfg_edge f b s \<longleftrightarrow> Some s \<in> set (cfg_Succs (blk f b))"

abbreviation cfg_edges :: "func \<Rightarrow> (bptr \<times> bptr) set" where
  "cfg_edges f \<equiv> {(b, s). cfg_edge f b s}"

definition reachable :: "func \<Rightarrow> bptr \<Rightarrow> bool" where
  "reachable f b \<longleftrightarrow> (\<exists>e. f_Start f = Some e \<and> (e, b) \<in> (cfg_edges f)\<^sup>*)"

lemma cfg_edge_nth: "cfg_edge f b s \<longleftrightarrow> (\<exists>i < succCount (blk f b). cfg_Succs (blk f b) ! i = Some s)"
  by (auto simp: cfg_edge_def in_set_conv_nth)

section \<open>The walk is a depth-first postorder\<close>

fun linked :: "func \<Rightarrow> bptr list \<Rightarrow> bool" where
  "linked f (b # p # bs) \<longleftrightarrow> cfg_edge f p b \<and> linked f (p # bs)"
| "linked f _ \<longleftrightarrow> True"

text \<open>
  The invariant of the walk: numbered blocks are those on the stack or in the postorder, a stack
  frame is a successor of the frame below it, the successors before a frame's position and all
  successors of a finished block are numbered, and a finished block other than the entry has a
  predecessor that is finished later or still on the stack.
\<close>

definition walk_inv :: "func \<Rightarrow> bptr \<Rightarrow> (bptr, int) gomap \<Rightarrow> (bptr \<times> nat) list \<Rightarrow> bptr list \<Rightarrow> bool" where
  "walk_inv f e num stack post \<longleftrightarrow>
     dom (map_of num) = fst ` set stack \<union> set post \<and>
     distinct (map fst stack @ post) \<and>
     linked f (map fst stack) \<and>
     (stack \<noteq> [] \<longrightarrow> fst (last stack) = e \<and> e \<notin> set post) \<and>
     (stack = [] \<longrightarrow> post \<noteq> [] \<and> last post = e) \<and>
     (\<forall>b \<in> dom (map_of num). (e, b) \<in> (cfg_edges f)\<^sup>*) \<and>
     (\<forall>(b, n) \<in> set stack. n \<le> succCount (blk f b) \<and>
        (\<forall>i < n. \<forall>s. cfg_Succs (blk f b) ! i = Some s \<longrightarrow> s \<in> dom (map_of num))) \<and>
     (\<forall>b \<in> set post. \<forall>s. cfg_edge f b s \<longrightarrow> s \<in> dom (map_of num)) \<and>
     (\<forall>i < length post. post ! i \<noteq> e \<longrightarrow> (\<exists>p. cfg_edge f p (post ! i) \<and>
        (p \<in> fst ` set stack \<or> (\<exists>j. i < j \<and> j < length post \<and> post ! j = p))))"

lemma walk_invD:
  assumes "walk_inv f e num stack post"
  shows "dom (map_of num) = fst ` set stack \<union> set post"
    "distinct (map fst stack @ post)"
    "linked f (map fst stack)"
    "stack \<noteq> [] \<Longrightarrow> fst (last stack) = e \<and> e \<notin> set post"
    "stack = [] \<Longrightarrow> post \<noteq> [] \<and> last post = e"
    "\<And>b. b \<in> dom (map_of num) \<Longrightarrow> (e, b) \<in> (cfg_edges f)\<^sup>*"
    "\<And>b n. (b, n) \<in> set stack \<Longrightarrow> n \<le> succCount (blk f b)"
    "\<And>b n i s. (b, n) \<in> set stack \<Longrightarrow> i < n \<Longrightarrow> cfg_Succs (blk f b) ! i = Some s \<Longrightarrow> s \<in> dom (map_of num)"
    "\<And>b s. b \<in> set post \<Longrightarrow> cfg_edge f b s \<Longrightarrow> s \<in> dom (map_of num)"
    "\<And>i. i < length post \<Longrightarrow> post ! i \<noteq> e \<Longrightarrow> \<exists>p. cfg_edge f p (post ! i) \<and> (p \<in> fst ` set stack \<or> (\<exists>j. i < j \<and> j < length post \<and> post ! j = p))"
  using assms unfolding walk_inv_def by (blast+)

lemma walk_invI:
  assumes "dom (map_of num) = fst ` set stack \<union> set post"
    and "distinct (map fst stack @ post)"
    and "linked f (map fst stack)"
    and "stack \<noteq> [] \<Longrightarrow> fst (last stack) = e \<and> e \<notin> set post"
    and "stack = [] \<Longrightarrow> post \<noteq> [] \<and> last post = e"
    and "\<And>b. b \<in> dom (map_of num) \<Longrightarrow> (e, b) \<in> (cfg_edges f)\<^sup>*"
    and "\<And>b n. (b, n) \<in> set stack \<Longrightarrow> n \<le> succCount (blk f b)"
    and "\<And>b n i s. (b, n) \<in> set stack \<Longrightarrow> i < n \<Longrightarrow> cfg_Succs (blk f b) ! i = Some s \<Longrightarrow> s \<in> dom (map_of num)"
    and "\<And>b s. b \<in> set post \<Longrightarrow> cfg_edge f b s \<Longrightarrow> s \<in> dom (map_of num)"
    and "\<And>i. i < length post \<Longrightarrow> post ! i \<noteq> e \<Longrightarrow> \<exists>p. cfg_edge f p (post ! i) \<and> (p \<in> fst ` set stack \<or> (\<exists>j. i < j \<and> j < length post \<and> post ! j = p))"
  shows "walk_inv f e num stack post"
  unfolding walk_inv_def
proof (intro conjI)
  show "\<forall>(b, n) \<in> set stack. n \<le> succCount (blk f b) \<and>
      (\<forall>i < n. \<forall>s. cfg_Succs (blk f b) ! i = Some s \<longrightarrow> s \<in> dom (map_of num))"
    using assms(7,8) by blast
  show "\<forall>i < length post. post ! i \<noteq> e \<longrightarrow> (\<exists>p. cfg_edge f p (post ! i) \<and>
      (p \<in> fst ` set stack \<or> (\<exists>j. i < j \<and> j < length post \<and> post ! j = p)))"
    by (intro allI impI, rule assms(10))
  show "\<forall>b \<in> set post. \<forall>s. cfg_edge f b s \<longrightarrow> s \<in> dom (map_of num)" using assms(9) by blast
  show "\<forall>b \<in> dom (map_of num). (e, b) \<in> (cfg_edges f)\<^sup>*" using assms(6) by blast
  show "stack \<noteq> [] \<longrightarrow> fst (last stack) = e \<and> e \<notin> set post" using assms(4) by blast
  show "stack = [] \<longrightarrow> post \<noteq> [] \<and> last post = e" using assms(5) by blast
qed (fact assms)+

lemma walk_inv_push:
  assumes I: "walk_inv f e num ((b, next) # stack) post"
    and scan: "rpo_scan (blk f b) num next = (Some s, next')"
  shows "walk_inv f e (AList.update s (-1) num) ((s, 0) # (b, next') # stack) post"
proof -
  note I = walk_invD[OF I] and sc = rpo_scan_cases[OF scan] and d = rpo_scan_descend[OF scan]
  have edge: "cfg_edge f b s" using d(1) by (simp add: cfg_edge_def)
  have s: "s \<notin> dom (map_of num)" using d(2) by auto
  have dom': "dom (map_of (AList.update s (-1) num)) = insert s (dom (map_of num))" by (simp add: update_conv')
  have nx: "next' \<le> succCount (blk f b)" "0 < next'" "cfg_Succs (blk f b) ! (next' - 1) = Some s" using sc(3) by auto
  have done': "t \<in> insert s (dom (map_of num))" if it: "i < next'" "cfg_Succs (blk f b) ! i = Some t" for i t
  proof -
    consider "i < next" | "next \<le> i" "i < next' - 1" | "i = next' - 1" using it(1) by linarith
    then show ?thesis
    proof cases
      case 1
      with I(8)[of b "next" i t] it(2) show ?thesis by simp
    next
      case 2
      with sc(4)[of i t] it(2) show ?thesis by auto
    next
      case 3
      with nx(3) it(2) show ?thesis by simp
    qed
  qed
  have "b \<in> dom (map_of num)" using I(1) by simp
  from I(6)[OF this] have es: "(e, s) \<in> (cfg_edges f)\<^sup>*"
    using edge by (meson case_prodI mem_Collect_eq rtrancl.rtrancl_into_rtrancl)
  show ?thesis
  proof (rule walk_invI; (unfold dom')?)
    show "insert s (dom (map_of num)) = fst ` set ((s, 0) # (b, next') # stack) \<union> set post" using I(1) by simp
    show "distinct (map fst ((s, 0) # (b, next') # stack) @ post)" using I(1,2) s by auto
    show "linked f (map fst ((s, 0) # (b, next') # stack))" using I(3) edge by simp
    show "fst (last ((s, 0) # (b, next') # stack)) = e \<and> e \<notin> set post" using I(4) by auto
    show "(e, c) \<in> (cfg_edges f)\<^sup>*" if "c \<in> insert s (dom (map_of num))" for c using that I(6) es by blast
    show "n \<le> succCount (blk f c)" if "(c, n) \<in> set ((s, 0) # (b, next') # stack)" for c n
      using that I(7) nx(1) by auto
    show "t \<in> insert s (dom (map_of num))"
      if "(c, n) \<in> set ((s, 0) # (b, next') # stack)" "i < n" "cfg_Succs (blk f c) ! i = Some t" for c n i t
      using that done' I(8)[of c n i t] by auto
    show "t \<in> insert s (dom (map_of num))" if "c \<in> set post" "cfg_edge f c t" for c t
      using I(9)[OF that] by simp
    show "\<exists>p. cfg_edge f p (post ! i) \<and> (p \<in> fst ` set ((s, 0) # (b, next') # stack) \<or> (\<exists>j. i < j \<and> j < length post \<and> post ! j = p))"
      if "i < length post" "post ! i \<noteq> e" for i using I(10)[OF that] by auto
  qed simp
qed

lemma walk_inv_pop:
  assumes I: "walk_inv f e num ((b, next) # stack) post"
    and scan: "rpo_scan (blk f b) num next = (None, next')"
  shows "walk_inv f e num stack (post @ [b])"
proof -
  note I = walk_invD[OF I] and sc = rpo_scan_cases[OF scan]
  have next': "next' = succCount (blk f b)" using sc(2) I(7)[of b "next"] by simp
  have succs: "s \<in> dom (map_of num)" if "cfg_edge f b s" for s
  proof -
    obtain i where i: "i < succCount (blk f b)" "cfg_Succs (blk f b) ! i = Some s"
      using \<open>cfg_edge f b s\<close> by (auto simp: cfg_edge_nth)
    show ?thesis
      using I(8)[of b "next" i s] sc(4)[of i s] i next' by (cases "i < next") auto
  qed
  have parent: "\<exists>p. cfg_edge f p ((post @ [b]) ! i) \<and> (p \<in> fst ` set stack \<or> (\<exists>j. i < j \<and> j < length (post @ [b]) \<and> (post @ [b]) ! j = p))"
    if i: "i < length (post @ [b])" "(post @ [b]) ! i \<noteq> e" for i
  proof (cases "i = length post")
    case True
    then have "b \<noteq> e" using i by simp
    with I(4) obtain p n stack' where "stack = (p, n) # stack'" by (cases stack) auto
    with I(3) True show ?thesis by auto
  next
    case False
    with i(1) have i': "i < length post" by simp
    then have ne: "post ! i \<noteq> e" using i(2) by (simp add: nth_append)
    obtain p where p: "cfg_edge f p (post ! i)"
      "p \<in> fst ` set ((b, next) # stack) \<or> (\<exists>j. i < j \<and> j < length post \<and> post ! j = p)"
      using I(10)[OF i' ne] by blast
    then have "p \<in> fst ` set stack \<or> (\<exists>j. i < j \<and> j < length (post @ [b]) \<and> (post @ [b]) ! j = p)"
      using i' by (auto simp: nth_append intro: exI[of _ "length post"])
    moreover have "(post @ [b]) ! i = post ! i" using i' by (simp add: nth_append)
    ultimately show ?thesis using p(1) by metis
  qed
  show ?thesis
  proof (rule walk_invI)
    show "linked f (map fst stack)" using I(3) by (cases stack) auto
    show "fst (last stack) = e \<and> e \<notin> set (post @ [b])" if ne: "stack \<noteq> []"
    proof -
      have e: "fst (last stack) = e" "e \<notin> set post" using I(4) ne by auto
      then have "e \<in> fst ` set stack" using ne by force
      with I(2) e show ?thesis by auto
    qed
    show "t \<in> dom (map_of num)" if "c \<in> set (post @ [b])" "cfg_edge f c t" for c t
      using that succs I(9)[of c t] by auto
    show "dom (map_of num) = fst ` set stack \<union> set (post @ [b])" "distinct (map fst stack @ (post @ [b]))"
      "stack = [] \<Longrightarrow> post @ [b] \<noteq> [] \<and> last (post @ [b]) = e"
      using I(1,2,4) by auto
    show "n \<le> succCount (blk f c)" if "(c, n) \<in> set stack" for c n using I(7)[of c n] that by simp
    show "t \<in> dom (map_of num)" if "(c, n) \<in> set stack" "i < n" "cfg_Succs (blk f c) ! i = Some t" for c n i t
      by (rule I(8)[of c n i t]) (use that in simp_all)
  qed (fact I(6), rule parent)
qed

lemma rpo_walk_inv:
  assumes "walk_inv f e num stack post" "rpo_walk f num stack post = (num', post')"
  shows "walk_inv f e num' [] post'"
  using assms
proof (induction f num stack post rule: rpo_walk.induct)
  case (1 f num post)
  then show ?case by simp
next
  case (2 f num b n stack post)
  obtain r next' where scan: "rpo_scan (blk f b) num n = (r, next')" by fastforce
  show ?case
  proof (cases r)
    case None
    with 2 scan show ?thesis using walk_inv_pop by simp
  next
    case (Some s)
    with 2 scan show ?thesis using walk_inv_push by simp
  qed
qed

lemma rtrancl_closed:
  assumes "(a, b) \<in> r\<^sup>*" "a \<in> S" "\<And>x y. x \<in> S \<Longrightarrow> (x, y) \<in> r \<Longrightarrow> y \<in> S"
  shows "b \<in> S"
  using assms(1) by (induction rule: rtrancl_induct) (auto intro: assms)

lemma map_of_number:
  "distinct xs \<Longrightarrow> map_of (fold (\<lambda>(i, b). AList.update b (int i)) (enumerate k xs) m) b =
     (case find_index ((=) b) xs of Some i \<Rightarrow> Some (int (k + i)) | None \<Rightarrow> map_of m b)"
proof (induction xs arbitrary: k m)
  case (Cons x xs)
  have "x = b \<Longrightarrow> find_index ((=) b) xs = None" using Cons.prems by (auto simp: find_index_None)
  with Cons show ?case by (auto simp: update_conv' split: option.splits)
qed simp

lemma find_index_nth:
  "distinct xs \<Longrightarrow> i < length xs \<Longrightarrow> find_index ((=) (xs ! i)) xs = Some i"
  by (cases "find_index ((=) (xs ! i)) xs")
    (auto simp: find_index_None dest!: find_index_Some nth_eq_iff_index_eq[THEN iffD1, rotated 3])

section \<open>What the walk computes\<close>

text \<open>The contract of a reverse-postorder numbering, which the analyses build on.\<close>

locale rpo_numbering =
  fixes edge :: "nat \<Rightarrow> nat \<Rightarrow> bool" and entry :: "nat option" and rpo :: "nat list"
  assumes distinct_rpo: "distinct rpo"
    and entry_none: "entry = None \<Longrightarrow> rpo = []"
    and entry_first: "entry = Some e \<Longrightarrow> rpo \<noteq> [] \<and> rpo ! 0 = e"
    and rpo_reach: "b \<in> set rpo \<longleftrightarrow> (\<exists>e. entry = Some e \<and> (e, b) \<in> {(x, y). edge x y}\<^sup>*)"
    and earlier_pred: "0 < i \<Longrightarrow> i < length rpo \<Longrightarrow> \<exists>j < i. edge (rpo ! j) (rpo ! i)"
begin

lemma succ_in_rpo: "b \<in> set rpo \<Longrightarrow> edge b s \<Longrightarrow> s \<in> set rpo"
  unfolding rpo_reach by (auto intro: rtrancl.rtrancl_into_rtrancl)

lemma entry_in_rpo: "entry = Some e \<Longrightarrow> e \<in> set rpo"
  unfolding rpo_reach by auto

end

lemma rpo_walk_result:
  assumes "f_Start f = Some e" "rpo_walk f (AList.update e (-1) []) [(e, 0)] [] = (num, post)"
  shows "distinct post" "post \<noteq> []" "last post = e" "dom (map_of num) = set post"
    "set post = {b. (e, b) \<in> (cfg_edges f)\<^sup>*}"
    "\<And>i. i < length post \<Longrightarrow> post ! i \<noteq> e \<Longrightarrow> \<exists>j. i < j \<and> j < length post \<and> cfg_edge f (post ! j) (post ! i)"
proof -
  have "walk_inv f e (AList.update e (-1) []) [(e, 0)] []"
    by (rule walk_invI) auto
  note W = walk_invD[OF rpo_walk_inv[OF this assms(2)]]
  have I: "dom (map_of num) = set post" "distinct post" "post \<noteq> [] \<and> last post = e"
    using W(1,2,5) by simp_all
  show "distinct post" "post \<noteq> []" "last post = e" "dom (map_of num) = set post" using I by auto
  show "\<exists>j. i < j \<and> j < length post \<and> cfg_edge f (post ! j) (post ! i)" if "i < length post" "post ! i \<noteq> e" for i
    using W(10)[OF that] by auto
  have "b \<in> set post" if "(e, b) \<in> (cfg_edges f)\<^sup>*" for b
    using that
  proof (rule rtrancl_closed)
    show "e \<in> set post" using I(3) last_in_set by blast
    show "y \<in> set post" if "x \<in> set post" "(x, y) \<in> cfg_edges f" for x y
      using W(9)[of x y] that I(1) by simp
  qed
  then show "set post = {b. (e, b) \<in> (cfg_edges f)\<^sup>*}" using I(1) W(6) by blast
qed

interpretation walk: rpo_numbering "cfg_edge f" "f_Start f" "cfg_RPO (computeRPO f [])" for f
proof (cases "f_Start f")
  case None
  then show "rpo_numbering (cfg_edge f) (f_Start f) (cfg_RPO (computeRPO f []))"
    by unfold_locales (simp_all add: computeRPO_def)
next
  case (Some e)
  obtain num post where w: "rpo_walk f (AList.update e (-1) []) [(e, 0)] [] = (num, post)" by fastforce
  note R = rpo_walk_result[OF Some w]
  have rpo: "cfg_RPO (computeRPO f []) = rev post"
    using Some w by (simp add: computeRPO_def Let_def)
  show "rpo_numbering (cfg_edge f) (f_Start f) (cfg_RPO (computeRPO f []))" unfolding rpo
  proof
    show "distinct (rev post)" using R(1) by simp
    show "rev post = []" if "f_Start f = None" using that Some by simp
    show "rev post \<noteq> [] \<and> rev post ! 0 = x" if "f_Start f = Some x" for x
      using that Some R(2,3) by (simp add: rev_nth last_conv_nth)
    show "b \<in> set (rev post) \<longleftrightarrow> (\<exists>x. f_Start f = Some x \<and> (x, b) \<in> (cfg_edges f)\<^sup>*)" for b
      using Some R(5) by simp
    fix i assume i: "0 < i" "i < length (rev post)"
    let ?k = "length post - Suc i"
    have k: "?k < length post" "rev post ! i = post ! ?k" using i by (auto simp: rev_nth)
    have "last post = post ! (length post - 1)" using R(2) by (simp add: last_conv_nth)
    moreover have "?k \<noteq> length post - 1" using i by simp
    ultimately have "post ! ?k \<noteq> e" using R(1,2,3) k(1) by (metis diff_less length_greater_0_conv nth_eq_iff_index_eq zero_less_one)
    from R(6)[OF k(1) this] obtain j where j: "?k < j" "j < length post" "cfg_edge f (post ! j) (post ! ?k)" by blast
    then have "length post - Suc j < i" "rev post ! (length post - Suc j) = post ! j" by (auto simp: rev_nth)
    with j(3) k(2) show "\<exists>j < i. cfg_edge f (rev post ! j) (rev post ! i)" by metis
  qed
qed

lemma computeRPO_num:
  assumes "c = computeRPO f []"
  shows "map_of (cfg_num c) b = map_option int (find_index ((=) b) (cfg_RPO c))"
    "f_Start f = None \<Longrightarrow> cfg_RPO c = []" "\<not> cfg_released c"
proof -
  show "map_of (cfg_num c) b = map_option int (find_index ((=) b) (cfg_RPO c))"
  proof (cases "f_Start f")
    case None
    then show ?thesis using assms by (simp add: computeRPO_def)
  next
    case (Some e)
    obtain num post where w: "rpo_walk f (AList.update e (-1) []) [(e, 0)] [] = (num, post)" by fastforce
    note R = rpo_walk_result[OF Some w]
    have c: "cfg_RPO c = rev post" "cfg_num c = fold (\<lambda>(i, b). AList.update b (int i)) (enumerate 0 (rev post)) num"
      using Some w assms by (simp_all add: computeRPO_def Let_def)
    have "find_index ((=) b) (rev post) = None \<Longrightarrow> map_of num b = None"
      using R(4) by (auto simp: find_index_None)
    then show ?thesis unfolding c using R(1) by (simp add: map_of_number split: option.splits)
  qed
  show "f_Start f = None \<Longrightarrow> cfg_RPO c = []" "\<not> cfg_released c"
    using assms by (simp_all add: computeRPO_def Let_def split: prod.splits)
qed

section \<open>Predecessor lists\<close>

lemma cfg_Succs_cong:
  "b_Jmp x = b_Jmp y \<Longrightarrow> b_SyntheticSuccs x = b_SyntheticSuccs y \<Longrightarrow> cfg_Succs x = cfg_Succs y"
  by (simp only: cfg_Succs_eq block_Succs_def)

text \<open>A change of predecessor lists only, which leaves the graph as it is.\<close>

definition preds_only :: "func \<Rightarrow> func \<Rightarrow> bool" where
  "preds_only f g \<longleftrightarrow> f\<lparr>f_arena := []\<rparr> = g\<lparr>f_arena := []\<rparr> \<and> length (f_arena g) = length (f_arena f) \<and>
     (\<forall>b. (blk g b)\<lparr>b_Preds := []\<rparr> = (blk f b)\<lparr>b_Preds := []\<rparr>)"

lemma preds_only_refl [simp]: "preds_only f f"
  by (simp add: preds_only_def)

lemma preds_only_trans: "preds_only f g \<Longrightarrow> preds_only g h \<Longrightarrow> preds_only f h"
  by (simp add: preds_only_def)

lemma preds_only_upd: "preds_only f (upd_blk s (\<lambda>x. x\<lparr>b_Preds := h x\<rparr>) f)"
  by (auto simp: preds_only_def upd_blk_def blk_def nth_list_update)

lemma preds_only_edge: "preds_only f (fillPreds_edge b i f)"
  by (auto simp: fillPreds_edge_def preds_only_upd split: option.splits)

lemma preds_only_fold:
  "(\<And>x g. preds_only g (h x g)) \<Longrightarrow> preds_only f (fold h xs f)"
proof (induction xs arbitrary: f)
  case (Cons x xs)
  show ?case using preds_only_trans[OF Cons.prems[of f x] Cons.IH[OF Cons.prems]] by simp
qed simp

lemma preds_only_fillPreds: "preds_only f (fillPreds f)"
  unfolding fillPreds_def Let_def
  by (rule preds_only_trans; rule preds_only_fold) (auto intro: preds_only_upd preds_only_fold preds_only_edge)

lemma preds_only_sel:
  assumes "preds_only f g"
  shows "cfg_Succs (blk g b) = cfg_Succs (blk f b)" "succCount (blk g b) = succCount (blk f b)"
    "succAt (blk g b) i = succAt (blk f b) i" "cfg_edge g b s = cfg_edge f b s"
    "f_Blocks g = f_Blocks f" "f_Start g = f_Start f" "length (f_arena g) = length (f_arena f)"
    "b_Phis (blk g b) = b_Phis (blk f b)" "b_Instrs (blk g b) = b_Instrs (blk f b)"
    "b_Jmp (blk g b) = b_Jmp (blk f b)" "f_Temps g = f_Temps f" "f_Params g = f_Params f"
proof -
  have e: "(blk g b)\<lparr>b_Preds := []\<rparr> = (blk f b)\<lparr>b_Preds := []\<rparr>" using assms by (simp add: preds_only_def)
  have j: "b_Jmp ((blk g b)\<lparr>b_Preds := []\<rparr>) = b_Jmp ((blk f b)\<lparr>b_Preds := []\<rparr>)"
    "b_SyntheticSuccs ((blk g b)\<lparr>b_Preds := []\<rparr>) = b_SyntheticSuccs ((blk f b)\<lparr>b_Preds := []\<rparr>)"
    "b_Phis ((blk g b)\<lparr>b_Preds := []\<rparr>) = b_Phis ((blk f b)\<lparr>b_Preds := []\<rparr>)"
    "b_Instrs ((blk g b)\<lparr>b_Preds := []\<rparr>) = b_Instrs ((blk f b)\<lparr>b_Preds := []\<rparr>)"
    unfolding e by (rule refl)+
  then show "b_Phis (blk g b) = b_Phis (blk f b)" "b_Instrs (blk g b) = b_Instrs (blk f b)"
    "b_Jmp (blk g b) = b_Jmp (blk f b)" by simp_all
  show s: "cfg_Succs (blk g b) = cfg_Succs (blk f b)" using j by (intro cfg_Succs_cong) simp_all
  then show sc: "succCount (blk g b) = succCount (blk f b)" by (metis length_cfg_Succs)
  then show "succAt (blk g b) i = succAt (blk f b) i" "cfg_edge g b s = cfg_edge f b s"
    using s by (simp_all add: succAt_eq cfg_edge_def)
  have a: "f\<lparr>f_arena := []\<rparr> = g\<lparr>f_arena := []\<rparr>" using assms by (simp add: preds_only_def)
  have "f_Blocks (g\<lparr>f_arena := []\<rparr>) = f_Blocks (f\<lparr>f_arena := []\<rparr>)"
    "f_Start (g\<lparr>f_arena := []\<rparr>) = f_Start (f\<lparr>f_arena := []\<rparr>)"
    "f_Temps (g\<lparr>f_arena := []\<rparr>) = f_Temps (f\<lparr>f_arena := []\<rparr>)"
    "f_Params (g\<lparr>f_arena := []\<rparr>) = f_Params (f\<lparr>f_arena := []\<rparr>)"
    unfolding a by (rule refl)+
  then show "f_Blocks g = f_Blocks f" "f_Start g = f_Start f" "f_Temps g = f_Temps f" "f_Params g = f_Params f"
    by simp_all
  show "length (f_arena g) = length (f_arena f)" using assms by (simp add: preds_only_def)
qed

lemma blk_upd_blk_other [simp]: "t \<noteq> s \<Longrightarrow> blk (upd_blk t h g) s = blk g s"
  by (simp add: upd_blk_def blk_def)

lemma preds_edge:
  assumes "s < length (f_arena g)"
  shows "b_Preds (blk (fillPreds_edge b i g) s) =
    (if succAt (blk g b) i = Some (Some s) \<and> (b_Preds (blk g s) = [] \<or> last (b_Preds (blk g s)) \<noteq> b)
     then b_Preds (blk g s) @ [b] else b_Preds (blk g s))"
proof (cases "succAt (blk g b) i = Some (Some s)")
  case True
  with assms show ?thesis by (auto simp: fillPreds_edge_def)
next
  case False
  then have "blk (fillPreds_edge b i g) s = blk g s"
    by (auto simp: fillPreds_edge_def split: option.splits)
  with False show ?thesis by simp
qed

lemma preds_inner:
  assumes "s < length (f_arena g)" "b \<notin> set (b_Preds (blk g s))" "k \<le> succCount (blk g b)"
  shows "b_Preds (blk (fold (fillPreds_edge b) [0..<k] g) s) =
    b_Preds (blk g s) @ (if \<exists>i < k. cfg_Succs (blk g b) ! i = Some s then [b] else [])"
  using assms(3)
proof (induction k)
  case (Suc k)
  let ?g = "fold (fillPreds_edge b) [0..<k] g"
  have po: "preds_only g ?g" by (rule preds_only_fold) (rule preds_only_edge)
  have at: "succAt (blk ?g b) k = Some (cfg_Succs (blk g b) ! k)"
    using Suc.prems succAt_eq[of "blk g b" k] by (simp only: preds_only_sel(3)[OF po]) simp
  have "b_Preds (blk g s) = [] \<or> last (b_Preds (blk g s)) \<noteq> b" using assms(2) by (metis last_in_set)
  then show ?case
    using Suc assms(1) preds_edge[of s ?g b k] at preds_only_sel(7)[OF po]
    by (auto simp: less_Suc_eq)
qed simp

lemma preds_outer:
  assumes "s < length (f_arena g)" "distinct bs" "set bs \<inter> set (b_Preds (blk g s)) = {}"
  shows "b_Preds (blk (fold (\<lambda>b g. fold (fillPreds_edge b) [0..<succCount (blk g b)] g) bs g) s) =
    b_Preds (blk g s) @ filter (\<lambda>b. cfg_edge g b s) bs"
  using assms
proof (induction bs arbitrary: g)
  case (Cons b bs)
  let ?g = "fold (fillPreds_edge b) [0..<succCount (blk g b)] g"
  have po: "preds_only g ?g" by (rule preds_only_fold) (rule preds_only_edge)
  have p: "b_Preds (blk ?g s) = b_Preds (blk g s) @ (if cfg_edge g b s then [b] else [])"
    using Cons.prems preds_inner[of s g b "succCount (blk g b)"] by (simp add: cfg_edge_nth)
  have "b_Preds (blk (fold (\<lambda>b g. fold (fillPreds_edge b) [0..<succCount (blk g b)] g) bs ?g) s) =
    b_Preds (blk ?g s) @ filter (\<lambda>b. cfg_edge ?g b s) bs"
    by (rule Cons.IH) (use Cons.prems p in \<open>auto simp: preds_only_sel(7)[OF po]\<close>)
  then show ?case by (simp add: p preds_only_sel(4)[OF po])
qed simp

lemma preds_cleared:
  "s \<in> set bs \<Longrightarrow> s < length (f_arena f) \<Longrightarrow>
   b_Preds (blk (fold (\<lambda>b. upd_blk b (\<lambda>x. x\<lparr>b_Preds := []\<rparr>)) bs f) s) = []"
proof (induction bs rule: rev_induct)
  case (snoc b bs)
  let ?g = "fold (\<lambda>b. upd_blk b (\<lambda>x. x\<lparr>b_Preds := []\<rparr>)) bs f"
  have "preds_only f ?g" by (rule preds_only_fold) (rule preds_only_upd)
  then have "s < length (f_arena ?g)" using snoc.prems preds_only_sel(7) by metis
  then show ?case using snoc by (cases "s = b") auto
qed simp

lemma fillPreds_preds:
  assumes "distinct (f_Blocks f)" "s \<in> set (f_Blocks f)" "s < length (f_arena f)"
  shows "b_Preds (blk (fillPreds f) s) = filter (\<lambda>b. cfg_edge f b s) (f_Blocks f) \<and> preds_only f (fillPreds f)"
proof -
  let ?f1 = "fold (\<lambda>b. upd_blk b (\<lambda>x. x\<lparr>b_Preds := []\<rparr>)) (f_Blocks f) f"
  have po: "preds_only f ?f1" by (rule preds_only_fold) (rule preds_only_upd)
  have "b_Preds (blk (fillPreds f) s) = filter (\<lambda>b. cfg_edge ?f1 b s) (f_Blocks f)"
    unfolding fillPreds_def Let_def preds_only_sel(5)[OF po]
    using preds_outer[of s ?f1 "f_Blocks f"] assms preds_cleared[OF assms(2,3)]
    by (simp add: preds_only_sel(7)[OF po])
  then show ?thesis by (simp add: preds_only_sel(4)[OF po] preds_only_fillPreds)
qed

text \<open>
  C12: \<open>fillPreds\<close> gives every block of the function exactly its predecessors, executable and
  synthetic, each once even when several edges lead from one block to another, in the order of the
  block list; testing only the last entry of a list for a duplicate is enough.  Nothing else of the
  function changes.
\<close>

theorem fillPreds_exact:
  assumes "distinct (f_Blocks f)" "s \<in> set (f_Blocks f)" "s < length (f_arena f)"
  shows "b_Preds (blk (fillPreds f) s) = filter (\<lambda>b. cfg_edge f b s) (f_Blocks f) \<and> preds_only f (fillPreds f)"
  by (rule fillPreds_preds[OF assms])

text \<open>A diamond with a doubled edge: 0 to 1 and 2, both arms of 1 to 3, 2 to 3; 3 loops to 1.\<close>

definition example_cfg :: func where
  "example_cfg = func0\<lparr>f_Start := Some 0, f_Blocks := [0, 1, 2, 3], f_arena := [
     block0\<lparr>b_Jmp := jmp0\<lparr>j_Kind := JmpJnz, j_To := Some 1, j_To2 := Some 2\<rparr>\<rparr>,
     block0\<lparr>b_Jmp := jmp0\<lparr>j_Kind := JmpJnz, j_To := Some 3, j_To2 := Some 3\<rparr>\<rparr>,
     block0\<lparr>b_Jmp := jmp0\<lparr>j_Kind := JmpJmp, j_To := Some 3\<rparr>\<rparr>,
     block0\<lparr>b_Jmp := jmp0\<lparr>j_Kind := JmpRet\<rparr>, b_SyntheticSuccs := [Some 1]\<rparr>]\<rparr>"

theorem fillPreds_exact_witness: "b_Preds (blk (fillPreds example_cfg) 3) = [1, 2]"
  using fillPreds_exact[of example_cfg 3]
  by (simp add: example_cfg_def cfg_edge_def cfg_Succs_eq block_Succs_def blk_def block0_def jmp0_def func0_def)

section \<open>Building and releasing a CFG\<close>

text \<open>Every map in the pool is empty: a recycled numbering brings no number of another function.\<close>

definition pool_clean :: "('k, 'v) mappool \<Rightarrow> bool" where
  "pool_clean pool \<longleftrightarrow> (\<forall>m \<in> set pool. m = [])"

lemma takeNumbering_clean:
  assumes "pool_clean pool" "takeNumbering n pick pool = (m, pool')"
  shows "m = []" "pool_clean pool'"
  using assms
  by (auto simp: takeNumbering_def pool_clean_def split: if_splits option.splits)
    (meson in_set_takeD in_set_dropD)+

lemma putNumbering_clean: "pool_clean pool \<Longrightarrow> pool_clean (putNumbering m pool)"
  by (simp add: pool_clean_def putNumbering_def)

lemma BuildCFG_clean:
  assumes "pool_clean pool" "BuildCFG pick pool f = (c, f', pool')"
  shows "c = computeRPO (fillPreds f) []" "f' = fillPreds f" "pool_clean pool'"
  using assms takeNumbering_clean[OF assms(1)]
  by (auto simp: BuildCFG_def Let_def split: prod.splits)

lemma cfg_Num_eq:
  assumes "c = computeRPO f []"
  shows "i < length (cfg_RPO c) \<Longrightarrow> cfg_Num c (cfg_RPO c ! i) = Some (int i)"
    "b \<notin> set (cfg_RPO c) \<Longrightarrow> cfg_Num c b = Some (-1)"
    "cfg_Reachable c b = Some (b \<in> set (cfg_RPO c))"
proof -
  note n = computeRPO_num[OF assms]
  show "i < length (cfg_RPO c) \<Longrightarrow> cfg_Num c (cfg_RPO c ! i) = Some (int i)"
    using n find_index_nth[OF walk.distinct_rpo] assms by (simp add: cfg_Num_def)
  show "b \<notin> set (cfg_RPO c) \<Longrightarrow> cfg_Num c b = Some (-1)"
    using n find_index_None[of "(=) b" "cfg_RPO c"] by (auto simp: cfg_Num_def split: option.splits)
  show "cfg_Reachable c b = Some (b \<in> set (cfg_RPO c))"
    using n find_index_None[of "(=) b" "cfg_RPO c"] by (auto simp: cfg_Reachable_def)
qed

lemma reachable_preds_only: "preds_only f g \<Longrightarrow> reachable g b = reachable f b"
  by (simp add: reachable_def preds_only_sel)

text \<open>
  C1: whatever map the pool hands out, the blocks \<open>BuildCFG\<close> lists are exactly the blocks reachable
  from the entry, each once; the entry comes first and every other block after one of its
  predecessors; \<open>Num\<close> is the position in that list, -1 for an unreachable block, and \<open>Reachable\<close>
  agrees.  The walk always ends.
\<close>

theorem BuildCFG_reverse_postorder:
  assumes "pool_clean pool" "BuildCFG pick pool f = (c, f', pool')"
  shows "set (cfg_RPO c) = {b. reachable f b} \<and> distinct (cfg_RPO c) \<and>
    (\<forall>e. f_Start f = Some e \<longrightarrow> cfg_RPO c \<noteq> [] \<and> cfg_RPO c ! 0 = e) \<and>
    (\<forall>i. 0 < i \<longrightarrow> i < length (cfg_RPO c) \<longrightarrow> (\<exists>j < i. cfg_edge f (cfg_RPO c ! j) (cfg_RPO c ! i))) \<and>
    (\<forall>i < length (cfg_RPO c). cfg_Num c (cfg_RPO c ! i) = Some (int i)) \<and>
    (\<forall>b. \<not> reachable f b \<longrightarrow> cfg_Num c b = Some (-1)) \<and>
    (\<forall>b. cfg_Reachable c b = Some (reachable f b)) \<and> pool_clean pool'"
proof -
  note b = BuildCFG_clean[OF assms]
  note po = preds_only_fillPreds[of f]
  have set: "set (cfg_RPO c) = {b. reachable f b}"
    using walk.rpo_reach[of _ "fillPreds f"] reachable_preds_only[OF po] unfolding b(1) reachable_def by auto
  have first: "\<forall>e. f_Start f = Some e \<longrightarrow> cfg_RPO c \<noteq> [] \<and> cfg_RPO c ! 0 = e"
    using walk.entry_first[of "fillPreds f"] unfolding b(1) by (simp add: preds_only_sel[OF po])
  have "\<forall>i. 0 < i \<longrightarrow> i < length (cfg_RPO c) \<longrightarrow> (\<exists>j < i. cfg_edge f (cfg_RPO c ! j) (cfg_RPO c ! i))"
    using walk.earlier_pred[of _ "fillPreds f"] unfolding b(1) by (simp add: preds_only_sel[OF po])
  with set first cfg_Num_eq[OF b(1)] b(3) show ?thesis
    using walk.distinct_rpo[of "fillPreds f"] b(1) by simp
qed

lemma example_cfg_graph:
  "cfg_Succs (blk example_cfg 0) = [Some 1, Some 2]" "cfg_Succs (blk example_cfg 1) = [Some 3, Some 3]"
  "cfg_Succs (blk example_cfg 2) = [Some 3]" "cfg_Succs (blk example_cfg 3) = [Some 1]" "f_Start example_cfg = Some 0"
  by (simp_all add: example_cfg_def cfg_Succs_eq block_Succs_def blk_def block0_def jmp0_def func0_def)

lemma example_reachable: "reachable example_cfg 3"
proof -
  have "(0, 1) \<in> cfg_edges example_cfg" "(1, 3) \<in> cfg_edges example_cfg"
    by (simp_all add: cfg_edge_def example_cfg_graph del: One_nat_def)
  then have "(0, 3) \<in> (cfg_edges example_cfg)\<^sup>*" by (rule converse_rtrancl_into_rtrancl[OF _ r_into_rtrancl])
  then show ?thesis by (auto simp: reachable_def example_cfg_graph)
qed

theorem BuildCFG_reverse_postorder_witness:
  "cfg_Reachable (fst (BuildCFG (Some 0) [[]] example_cfg)) 3 = Some True \<and>
   cfg_RPO (fst (BuildCFG (Some 0) [[]] example_cfg)) ! 0 = 0"
proof -
  obtain c f' p' where b: "BuildCFG (Some 0) [[]] example_cfg = (c, f', p')" by (metis prod_cases3)
  show ?thesis
    using BuildCFG_reverse_postorder[OF _ b] example_reachable by (simp add: b pool_clean_def example_cfg_graph(5))
qed

text \<open>
  After \<open>Release\<close> every read of the numbering panics instead of answering for another function,
  a second release changes nothing, and the pool still holds only empty maps.
\<close>

theorem Release_guards_reads:
  assumes "pool_clean pool" "cfg_Release c pool = (c', pool')"
  shows "cfg_Num c' b = None \<and> cfg_Reachable c' b = None \<and> cfg_RPO c' = cfg_RPO c \<and>
    cfg_Release c' pool' = (c', pool') \<and> pool_clean pool'"
  using assms putNumbering_clean[OF assms(1)]
  by (auto simp: cfg_Release_def cfg_Num_def cfg_Reachable_def split: if_splits)

theorem Release_guards_reads_witness:
  "pool_clean [[]] \<and> cfg_Num (fst (cfg_Release (computeRPO example_cfg []) [[]])) 0 = None"
proof -
  have clean: "pool_clean [[]]" by (simp add: pool_clean_def)
  show ?thesis using clean Release_guards_reads[OF clean prod.collapse[symmetric], of "computeRPO example_cfg []" 0] by simp
qed

end
