(* ===== verification/Dominators.thy ===== *)
theory Dominators
  imports CFG
begin

text \<open>
  Dominator trees (\<open>analysis/dom.go\<close>) and dominance frontiers (\<open>analysis/df.go\<close>): the iterative
  algorithm of Cooper, Harvey and Kennedy over reverse-postorder numbers.  Its loops may fail to
  end on an arbitrary array, so they are partial functions; \<open>None\<close> is a loop that does not return or
  an index out of range.  The theory proves that they do return on every control-flow graph and
  that the tree is the one of the path definition of dominance.
\<close>

section \<open>The algorithm\<close>

record domtree =
  dt_idom :: "(bptr, bptr option) gomap"
  dt_released :: bool

abbreviation undef :: int where
  "undef \<equiv> -1"

text \<open>\<open>for a > b { a = idom[a] }\<close>\<close>

partial_function (option) climb :: "int list \<Rightarrow> int \<Rightarrow> int \<Rightarrow> int option" where
  "climb idom a b =
     (if a > b
      then (if 0 \<le> a \<and> nat a < length idom then climb idom (idom ! nat a) b else None)
      else Some a)"

declare climb.simps [code]

partial_function (option) intersect :: "int list \<Rightarrow> int \<Rightarrow> int \<Rightarrow> int option" where
  "intersect idom a b =
     (if a \<noteq> b
      then Option.bind (climb idom a b) (\<lambda>a'.
           Option.bind (climb idom b a') (\<lambda>b'. intersect idom a' b'))
      else Some a)"

declare intersect.simps [code]

text \<open>The body of the loop over the predecessors of a block.\<close>

definition dom_pred :: "cfg \<Rightarrow> int list \<Rightarrow> bptr \<Rightarrow> int \<Rightarrow> int option" where
  "dom_pred c idom p newIdom = Option.bind (cfg_Num c p) (\<lambda>k.
     if k < 0 \<or> idom ! nat k = undef then Some newIdom
     else if newIdom = undef then Some k
     else intersect idom k newIdom)"

text \<open>The body of the loop over the blocks.\<close>

definition dom_block :: "func \<Rightarrow> cfg \<Rightarrow> nat \<Rightarrow> int list \<times> bool \<Rightarrow> (int list \<times> bool) option" where
  "dom_block f c i = (\<lambda>(idom, changed).
     Option.bind (fold_opt (dom_pred c idom) (b_Preds (blk f (cfg_RPO c ! i))) undef) (\<lambda>newIdom.
       if newIdom \<noteq> undef \<and> idom ! i \<noteq> newIdom then Some (idom[i := newIdom], True)
       else Some (idom, changed)))"

definition dom_pass :: "func \<Rightarrow> cfg \<Rightarrow> int list \<Rightarrow> (int list \<times> bool) option" where
  "dom_pass f c idom = fold_opt (dom_block f c) [1..<length (cfg_RPO c)] (idom, False)"

partial_function (option) dom_fix :: "func \<Rightarrow> cfg \<Rightarrow> int list \<Rightarrow> int list option" where
  "dom_fix f c idom = Option.bind (dom_pass f c idom) (\<lambda>(idom', changed).
     if changed then dom_fix f c idom' else Some idom')"

declare dom_fix.simps [code]

text \<open>The map is taken from a pool, like a CFG's numbering.\<close>

definition Dominators :: "nat option \<Rightarrow> (bptr, bptr option) mappool \<Rightarrow> func \<Rightarrow> cfg \<Rightarrow>
    (domtree \<times> (bptr, bptr option) mappool) option" where
  "Dominators pick pool f c =
     (let n = length (cfg_RPO c); (m, pool') = takeNumbering n pick pool in
      if n = 0 then Some (\<lparr>dt_idom = m, dt_released = False\<rparr>, pool')
      else Option.bind (dom_fix f c ((replicate n undef)[0 := 0])) (\<lambda>idom.
        Some (\<lparr>dt_idom = fold (\<lambda>i. AList.update (cfg_RPO c ! i) (Some (cfg_RPO c ! nat (idom ! i))))
                [1..<n] (AList.update (cfg_RPO c ! 0) None m),
              dt_released = False\<rparr>, pool')))"

text \<open>Reads of a released tree panic: outer \<open>None\<close>.  A block the tree lacks reads as nil.\<close>

definition Idom :: "domtree \<Rightarrow> bptr \<Rightarrow> bptr option option" where
  "Idom d b = (if dt_released d then None
     else Some (case map_of (dt_idom d) b of Some p \<Rightarrow> p | None \<Rightarrow> None))"

definition dt_Len :: "domtree \<Rightarrow> nat option" where
  "dt_Len d = (if dt_released d then None else Some (length (dt_idom d)))"

definition dt_Release :: "domtree \<Rightarrow> (bptr, bptr option) mappool \<Rightarrow> domtree \<times> (bptr, bptr option) mappool" where
  "dt_Release d pool = (if dt_released d then (d, pool)
     else (d\<lparr>dt_released := True, dt_idom := []\<rparr>, putNumbering (dt_idom d) pool))"

partial_function (option) Dominates :: "domtree \<Rightarrow> bptr \<Rightarrow> bptr option \<Rightarrow> bool option" where
  "Dominates d a x = (case x of
     None \<Rightarrow> Some False
   | Some b \<Rightarrow> if b = a then Some True else Option.bind (Idom d b) (Dominates d a))"

declare Dominates.simps [code]

definition StrictlyDominates :: "domtree \<Rightarrow> bptr \<Rightarrow> bptr \<Rightarrow> bool option" where
  "StrictlyDominates d a b = (if a \<noteq> b then Dominates d a (Some b) else Some False)"

section \<open>Forests of decreasing parents\<close>

inductive anc :: "(nat \<Rightarrow> nat) \<Rightarrow> nat \<Rightarrow> nat \<Rightarrow> bool" for g where
  anc_refl [intro, simp]: "anc g x x"
| anc_step: "anc g (g x) y \<Longrightarrow> anc g x y"

inductive_cases anc_elim: "anc g x y"

lemma anc_parent: "anc g x (g x)"
  by (rule anc_step) simp

lemma anc_trans: "anc g x y \<Longrightarrow> anc g y z \<Longrightarrow> anc g x z"
  by (induction rule: anc.induct) (auto intro: anc_step)

lemma anc_unfold: "anc g x y \<longleftrightarrow> x = y \<or> anc g (g x) y"
  by (auto elim: anc_elim intro: anc_step)

definition is_tree :: "(nat \<Rightarrow> nat) \<Rightarrow> bool" where
  "is_tree g \<longleftrightarrow> g 0 = 0 \<and> (\<forall>x > 0. g x < x)"

lemma anc_0: "is_tree g \<Longrightarrow> anc g 0 y \<longleftrightarrow> y = 0"
proof
  assume t: "is_tree g"
  show "anc g 0 y \<Longrightarrow> y = 0"
    by (induction "0 :: nat" y rule: anc.induct) (use t in \<open>auto simp: is_tree_def\<close>)
qed auto

lemma anc_le: "anc g x y \<Longrightarrow> is_tree g \<Longrightarrow> y \<le> x"
proof (induction rule: anc.induct)
  case (anc_step x y)
  then have "y \<le> g x" "g x \<le> x" by (auto simp: is_tree_def intro: less_imp_le_nat) (metis le_eq_less_or_eq neq0_conv)
  then show ?case by simp
qed simp

lemma anc_root: "is_tree g \<Longrightarrow> anc g x 0"
proof (induction x rule: less_induct)
  case (less x)
  show ?case
  proof (cases "x = 0")
    case False
    then have "g x < x" using less.prems by (simp add: is_tree_def)
    then show ?thesis using less by (auto intro: anc_step)
  qed simp
qed

lemma anc_linear: "anc g x y \<Longrightarrow> anc g x z \<Longrightarrow> anc g y z \<or> anc g z y"
proof (induction arbitrary: z rule: anc.induct)
  case (anc_step x y)
  show ?case
  proof (cases "x = z")
    case True
    then show ?thesis using anc.anc_step[OF anc_step.hyps] by simp
  next
    case False
    then have "anc g (g x) z" using anc_step.prems anc_unfold[of g x z] by simp
    then show ?thesis by (rule anc_step.IH)
  qed
qed simp

lemma anc_antisym: "is_tree g \<Longrightarrow> anc g x y \<Longrightarrow> anc g y x \<Longrightarrow> x = y"
  using anc_le by (metis order_antisym)

lemma anc_strict: "anc g x y \<Longrightarrow> x \<noteq> y \<Longrightarrow> anc g (g x) y"
  using anc_unfold by blast

text \<open>Re-hanging one node: below the node the new parent's ancestors, above it no change.\<close>

lemma anc_upd:
  assumes t: "is_tree g" and v: "v < i"
  shows "is_tree (g(i := v))"
    "anc (g(i := v)) x y \<longleftrightarrow> (if anc g x i \<and> y < i then anc g v y else anc g x y)"
proof -
  define h where "h = g(i := v)"
  have h: "h i = v" "\<And>x. x \<noteq> i \<Longrightarrow> h x = g x" by (simp_all add: h_def)
  show t'': "is_tree (g(i := v))" using t v by (simp add: is_tree_def)
  then have t': "is_tree h" by (simp add: h_def)
  have low: "anc h x y \<longleftrightarrow> anc g x y" if "x < i" for x
    using that
  proof (induction x rule: less_induct)
    case (less x)
    show ?case
    proof (cases "x = 0")
      case True
      then show ?thesis using anc_0[OF t] anc_0[OF t'] by simp
    next
      case False
      then have "g x < x" using t by (simp add: is_tree_def)
      then show ?thesis using less anc_unfold[of g x y] anc_unfold[of h x y] h(2)[of x] by simp
    qed
  qed
  have "anc h x y \<longleftrightarrow> (if anc g x i \<and> y < i then anc g v y else anc g x y)"
  proof (induction x rule: less_induct)
    case (less x)
    consider "x < i" | "x = i" | "i < x" by linarith
    then show ?case
    proof cases
      case 1
      then have "\<not> anc g x i" using anc_le[OF _ t] by fastforce
      with 1 low show ?thesis by simp
    next
      case 2
      have "y < i" if "anc g v y" using anc_le[OF that t] v by simp
      moreover have "y < i" if "anc g (g i) y"
      proof -
        have "0 < i" using v by simp
        then have "g i < i" using t unfolding is_tree_def by blast
        with anc_le[OF that t] show ?thesis by simp
      qed
      ultimately show ?thesis using 2 low[OF v] anc_unfold[of h i y] anc_unfold[of g i y] h(1) by auto
    next
      case 3
      then have "g x < x" using t by (simp add: is_tree_def)
      with less 3 show ?thesis
        using anc_unfold[of h x y] anc_unfold[of g x y] anc_unfold[of g x i] h(2)[of x] by auto
    qed
  qed
  then show "anc (g(i := v)) x y \<longleftrightarrow> (if anc g x i \<and> y < i then anc g v y else anc g x y)" by (simp add: h_def)
qed

text \<open>Trees that agree from a node on have the same ancestors from that node on.\<close>

lemma anc_agree:
  assumes "is_tree g" "is_tree h" "\<And>x. i \<le> x \<Longrightarrow> g x = h x" "i \<le> y"
  shows "anc g x y \<longleftrightarrow> anc h x y"
proof (induction x rule: less_induct)
  case (less x)
  show ?case
  proof (cases "x < y")
    case True
    then show ?thesis using anc_le[of g x y] anc_le[of h x y] assms(1,2) by fastforce
  next
    case False
    then have eq: "g x = h x" using assms(3,4) by simp
    show ?thesis
    proof (cases "x = 0")
      case True
      then show ?thesis using assms(1,2) by (simp add: anc_0)
    next
      case False
      then have "g x < x" using assms(1) by (simp add: is_tree_def)
      from less[OF this] show ?thesis using eq anc_unfold[of g x y] anc_unfold[of h x y] by simp
    qed
  qed
qed

lemma anc_upd_low: "is_tree g \<Longrightarrow> v < i \<Longrightarrow> x < i \<Longrightarrow> anc (g(i := v)) x y \<longleftrightarrow> anc g x y"
  using anc_upd(2)[of g v i x y] anc_le[of g x i] by auto

section \<open>Dominance in a numbered graph\<close>

text \<open>
  A graph on \<open>0..<n\<close> in which every node but the entry 0 has a predecessor with a smaller number, as
  a reverse postorder provides.
\<close>

locale dom_graph =
  fixes n :: nat and E :: "nat \<Rightarrow> nat \<Rightarrow> bool"
  assumes E_range: "E i j \<Longrightarrow> i < n \<and> j < n"
    and earlier: "0 < i \<Longrightarrow> i < n \<Longrightarrow> \<exists>j < i. E j i"
begin

text \<open>Walks from the entry that avoid a node; walks that stay above their first node.\<close>

inductive avoid :: "nat \<Rightarrow> nat \<Rightarrow> bool" for d where
  avoid_entry: "d \<noteq> 0 \<Longrightarrow> avoid d 0"
| avoid_step: "avoid d x \<Longrightarrow> E x y \<Longrightarrow> y \<noteq> d \<Longrightarrow> avoid d y"

inductive up :: "nat \<Rightarrow> nat \<Rightarrow> bool" for c where
  up_refl: "up c c"
| up_step: "up c x \<Longrightarrow> E x y \<Longrightarrow> c < y \<Longrightarrow> up c y"

definition dominates :: "nat \<Rightarrow> nat \<Rightarrow> bool" where
  "dominates d x \<longleftrightarrow> \<not> avoid d x"

lemma dom_pred: "dominates d i \<Longrightarrow> E p i \<Longrightarrow> d \<noteq> i \<Longrightarrow> dominates d p"
  by (auto simp: dominates_def intro: avoid_step)

lemma up_trans: "up y x \<Longrightarrow> up c y \<Longrightarrow> c \<le> y \<Longrightarrow> up c x"
  by (induction rule: up.induct) (auto intro: up_step)

lemma dom_up: "up c x \<Longrightarrow> dominates d x \<Longrightarrow> d < c \<Longrightarrow> dominates d c"
  by (induction rule: up.induct) (auto dest: dom_pred)

text \<open>\<open>v\<close> is the meet of the nodes in \<open>S\<close>.\<close>

definition meets :: "(nat \<Rightarrow> nat) \<Rightarrow> nat set \<Rightarrow> nat \<Rightarrow> bool" where
  "meets g S v \<longleftrightarrow> (\<forall>e. anc g v e \<longleftrightarrow> (\<forall>p \<in> S. anc g p e))"

text \<open>The nodes below \<open>m\<close> hang under walks of the graph and under all their dominators.\<close>

definition above :: "(nat \<Rightarrow> nat) \<Rightarrow> nat \<Rightarrow> bool" where
  "above g m \<longleftrightarrow> (\<forall>x. 0 < x \<longrightarrow> x < m \<longrightarrow> up (g x) x) \<and> (\<forall>x < m. \<forall>d. dominates d x \<longrightarrow> anc g x d)"

lemma above_up:
  assumes "is_tree g" "above g m" "anc g x c" "x < m"
  shows "up c x"
  using assms(3,4)
proof (induction rule: anc.induct)
  case (anc_step x y)
  show ?case
  proof (cases "x = 0")
    case True
    then show ?thesis using anc_step assms(1) by (simp add: is_tree_def)
  next
    case False
    then have "g x < x" using assms(1) by (simp add: is_tree_def)
    with anc_step have "up y (g x)" "y \<le> g x" using anc_le[OF anc_step.hyps assms(1)] by auto
    moreover have "up (g x) x" using assms(2) False anc_step.prems by (simp add: above_def)
    ultimately show ?thesis using up_trans by blast
  qed
qed (rule up_refl)

lemma above_step:
  assumes t: "is_tree g" and ab: "above g m" and i: "0 < i" "i < n" "i \<le> m"
    and S: "S \<noteq> {}" "S \<subseteq> {p. E p i \<and> p < m}" and v: "meets g S v" "v < i"
  shows "above (g(i := v)) (max m (Suc i))"
proof -
  let ?g = "g(i := v)"
  note upd = anc_upd[OF t v(2)]
  have vp: "anc g p v" if "p \<in> S" for p using v(1) that by (auto simp: meets_def)
  obtain p where p: "p \<in> S" using S(1) by blast
  have "up v p" by (rule above_up[OF t ab vp[OF p]]) (use p S(2) in auto)
  then have upi: "up v i" using p S(2) v(2) by (auto intro: up_step)
  have domi: "anc g v d" if d: "dominates d i" "d \<noteq> i" for d
  proof -
    have "anc g p d" if "p \<in> S" for p
    proof -
      have "dominates d p" using d that S(2) by (auto intro: dom_pred)
      with ab that S(2) show ?thesis by (auto simp: above_def)
    qed
    then show ?thesis using v(1) by (simp add: meets_def)
  qed
  have "up (?g x) x" if "0 < x" "x < max m (Suc i)" for x
    using that ab upi i(3) by (auto simp: above_def less_max_iff_disj)
  moreover have "anc ?g x d" if x: "x < max m (Suc i)" "dominates d x" for x d
  proof (cases "x = i")
    case True
    then show ?thesis using domi[of d] x(2) upd(2)[of i d] anc_le[OF _ t, of v d] v(2) by (cases "d = i") auto
  next
    case False
    then have "x < m" using x(1) i(3) by auto
    then have xd: "anc g x d" using ab x(2) by (simp add: above_def)
    show ?thesis
    proof (cases "anc g x i \<and> d < i")
      case True
      then have "dominates d i" using dom_up[OF above_up[OF t ab _ \<open>x < m\<close>] x(2)] by blast
      with domi[of d] True show ?thesis by (simp add: upd(2))
    next
      case False
      with xd show ?thesis by (simp only: upd(2) if_False)
    qed
  qed
  ultimately show ?thesis by (auto simp: above_def)
qed

text \<open>At a fixpoint the tree's ancestors are the dominators.\<close>

lemma fixpoint_dom:
  assumes t: "is_tree g" and ab: "above g n" and fp: "\<And>i. 0 < i \<Longrightarrow> i < n \<Longrightarrow> meets g {p. E p i} (g i)"
    and x: "x < n"
  shows "anc g x d \<longleftrightarrow> dominates d x"
proof
  have "avoid d x \<Longrightarrow> \<not> anc g x d"
  proof (induction rule: avoid.induct)
    case avoid_entry
    then show ?case using anc_0[OF t] by simp
  next
    case (avoid_step x y)
    show ?case
    proof
      assume "anc g y d"
      with avoid_step.hyps have d: "anc g (g y) d" using anc_strict by blast
      have "y \<noteq> 0" using \<open>anc g y d\<close> avoid_step.hyps anc_0[OF t] by metis
      then have "meets g {p. E p y} (g y)" using fp E_range avoid_step.hyps by blast
      with d avoid_step.hyps have "anc g x d" by (auto simp: meets_def)
      with avoid_step.IH show False by blast
    qed
  qed
  then show "anc g x d \<Longrightarrow> dominates d x" by (auto simp: dominates_def)
  show "dominates d x \<Longrightarrow> anc g x d" using ab x by (simp add: above_def)
qed

text \<open>
  What a pass over the nodes keeps: from a state \<open>S\<close> whose nodes hang low enough, each node is
  re-hanged upwards in its own chain.
\<close>

definition settled :: "(nat \<Rightarrow> nat) \<Rightarrow> nat \<Rightarrow> bool" where
  "settled g m \<longleftrightarrow> (\<forall>i. 0 < i \<longrightarrow> i < m \<longrightarrow>
     (\<forall>e. (\<forall>p. E p i \<longrightarrow> anc g p e) \<longrightarrow> anc g (g i) e) \<and> (\<forall>p < i. E p i \<longrightarrow> anc g p (g i)))"

definition in_pass :: "(nat \<Rightarrow> nat) \<Rightarrow> (nat \<Rightarrow> nat) \<Rightarrow> nat \<Rightarrow> bool" where
  "in_pass S T i \<longleftrightarrow> is_tree T \<and> (\<forall>x \<ge> i. T x = S x) \<and> (\<forall>x e. anc T x e \<longrightarrow> anc S x e) \<and> settled T i \<and>
     (\<forall>x y e. anc S x y \<longrightarrow> anc T x e \<longrightarrow> anc S y e \<longrightarrow> anc T y e)"

lemma in_pass_climb:
  assumes S: "is_tree S" "settled S n" and T: "in_pass S T i" and i: "0 < i" "i < n"
    and v: "meets T {p. E p i} v"
  shows "anc T (T i) v"
proof -
  obtain p where p: "p < i" "E p i" using earlier[OF i] by blast
  have vp: "anc T p v" if "E p i" for p using v that by (auto simp: meets_def)
  have "anc S p v" if "E p i" for p using vp[OF that] T by (simp add: in_pass_def)
  then have "anc S (S i) v" using S(2) i by (auto simp: settled_def)
  moreover have "anc S p (S i)" using S(2) i p by (auto simp: settled_def)
  ultimately have "anc T (S i) v" using T vp[OF p(2)] unfolding in_pass_def by blast
  then show ?thesis using T by (simp add: in_pass_def)
qed

lemma in_pass_step:
  assumes S: "is_tree S" "settled S n" and T: "in_pass S T i" and i: "0 < i" "i < n"
    and v: "meets T {p. E p i} v"
  shows "in_pass S (T(i := v)) (Suc i)" "v \<le> T i"
proof -
  let ?T = "T(i := v)"
  have t: "is_tree T" using T by (simp add: in_pass_def)
  note climb = in_pass_climb[OF S T i v]
  then show "v \<le> T i" by (rule anc_le[OF _ t])
  moreover have "T i < i" using t i(1) by (simp add: is_tree_def)
  ultimately have vi: "v < i" by simp
  note upd = anc_upd[OF t vi] and low = anc_upd_low[OF t vi]
  have shr: "anc T x e" if "anc ?T x e" for x e
    using that upd(2)[of x e] climb by (meson anc_trans anc_step)
  have "settled ?T (Suc i)"
    unfolding settled_def
  proof (intro allI impI conjI)
    fix x e assume x: "0 < x" "x < Suc i" and p: "\<forall>p. E p x \<longrightarrow> anc ?T p e"
    then have pT: "\<forall>p. E p x \<longrightarrow> anc T p e" using shr by blast
    show "anc ?T (?T x) e"
    proof (cases "x = i")
      case True
      then have "anc T v e" using v pT by (simp add: meets_def)
      then show ?thesis using True low[OF vi] by simp
    next
      case False
      then have "x < i" using x(2) by simp
      moreover have "T x < x" using t x(1) by (simp add: is_tree_def)
      ultimately have "x < i" "T x < i" by simp_all
      moreover have "anc T (T x) e" using T pT x False by (simp add: in_pass_def settled_def)
      ultimately show ?thesis using low[of "T x"] False by simp
    qed
  next
    fix x p assume x: "0 < x" "x < Suc i" "p < x" "E p x"
    show "anc ?T p (?T x)"
    proof (cases "x = i")
      case True
      then have "anc T p v" using v x by (auto simp: meets_def)
      then show ?thesis using True low x by simp
    next
      case False
      then have "anc T p (T x)" using T x by (simp add: in_pass_def settled_def)
      then show ?thesis using False low[of p] x by simp
    qed
  qed
  moreover have "anc ?T y e" if q: "anc S x y" "anc ?T x e" "anc S y e" for x y e
  proof -
    have ye: "anc T y e" using T q shr unfolding in_pass_def by blast
    show ?thesis
    proof (cases "anc T y i \<and> e < i")
      case True
      have ag: "anc T z i \<longleftrightarrow> anc S z i" for z
        by (rule anc_agree[OF t S(1), of i]) (use T in \<open>auto simp: in_pass_def\<close>)
      then have "anc T x i" using True q(1) anc_trans by blast
      then have "anc T v e" using q(2) True by (simp add: upd(2))
      then show ?thesis using True by (simp add: upd(2))
    next
      case False
      with ye show ?thesis by (simp only: upd(2) if_False)
    qed
  qed
  moreover have "anc S x e" if "anc ?T x e" for x e using shr[OF that] T by (simp add: in_pass_def)
  moreover have "?T x = S x" if "Suc i \<le> x" for x using T that by (simp add: in_pass_def)
  ultimately show "in_pass S ?T (Suc i)" unfolding in_pass_def using upd(1) by blast
qed

text \<open>The first pass hangs every node under the meet of its earlier predecessors.\<close>

definition first_pass :: "(nat \<Rightarrow> nat) \<Rightarrow> nat \<Rightarrow> bool" where
  "first_pass g i \<longleftrightarrow> is_tree g \<and> above g i \<and>
     (\<forall>x. 0 < x \<longrightarrow> x < i \<longrightarrow> meets g {p. E p x \<and> p < x} (g x))"

lemma first_pass_init: "is_tree g \<Longrightarrow> first_pass g 1"
proof -
  assume t: "is_tree g"
  have "dominates d 0 \<Longrightarrow> d = 0" for d by (auto simp: dominates_def intro: avoid_entry)
  with t show ?thesis by (auto simp: first_pass_def above_def anc_0)
qed

lemma first_pass_step:
  assumes F: "first_pass g i" and i: "0 < i" "i < n" and v: "meets g {p. E p i \<and> p < i} v" "v < i"
  shows "first_pass (g(i := v)) (Suc i)"
proof -
  have t: "is_tree g" and ab: "above g i" using F by (auto simp: first_pass_def)
  note low = anc_upd_low[OF t v(2)]
  have "{p. E p i \<and> p < i} \<noteq> {}" using earlier[OF i] by blast
  from above_step[OF t ab i _ this _ v] have "above (g(i := v)) (Suc i)" by (simp add: max_def)
  moreover have "meets (g(i := v)) {p. E p x \<and> p < x} ((g(i := v)) x)" if x: "0 < x" "x < Suc i" for x
  proof (cases "x = i")
    case True
    then show ?thesis using v low by (simp add: meets_def)
  next
    case False
    then have xi: "x < i" using x by simp
    have gx: "g x < i" using t x(1) xi by (auto simp: is_tree_def intro: less_trans)
    have "meets g {p. E p x \<and> p < x} (g x)" using F x xi by (simp add: first_pass_def)
    then show ?thesis using False xi low gx by (simp add: meets_def less_trans[of _ x i])
  qed
  ultimately show ?thesis using anc_upd(1)[OF t v(2)] by (auto simp: first_pass_def)
qed

lemma first_pass_settled:
  assumes "first_pass g n"
  shows "settled g n"
proof -
  have "anc g (g i) e" if "0 < i" "i < n" "\<forall>p. E p i \<longrightarrow> anc g p e" for i e
    using assms that by (simp add: first_pass_def meets_def)
  moreover have "anc g p (g i)" if "0 < i" "i < n" "p < i" "E p i" for i p
    using assms that unfolding first_pass_def meets_def by (metis (mono_tags, lifting) anc_refl mem_Collect_eq)
  ultimately show ?thesis by (auto simp: settled_def)
qed

lemma in_pass_init: "is_tree g \<Longrightarrow> in_pass g g 1"
  by (simp add: in_pass_def settled_def)

end

section \<open>The loops of the algorithm\<close>

text \<open>The tree an array of parents stands for; undefined entries hang under the entry.\<close>

definition parent_of :: "int list \<Rightarrow> nat \<Rightarrow> nat" where
  "parent_of idom x = (if x < length idom then nat (idom ! x) else 0)"

text \<open>The entries below \<open>m\<close> are defined and point down, the others are undefined.\<close>

definition idom_ok :: "int list \<Rightarrow> nat \<Rightarrow> nat \<Rightarrow> bool" where
  "idom_ok idom n m \<longleftrightarrow> length idom = n \<and> 0 < m \<and> m \<le> n \<and> idom ! 0 = 0 \<and>
     (\<forall>x. 0 < x \<longrightarrow> x < m \<longrightarrow> 0 \<le> idom ! x \<and> idom ! x < int x) \<and> (\<forall>x. m \<le> x \<longrightarrow> x < n \<longrightarrow> idom ! x = undef)"

lemma idom_ok_less:
  assumes "idom_ok idom n m" "0 < x"
  shows "parent_of idom x < x"
proof (cases "x < m")
  case True
  then show ?thesis using assms by (auto simp: idom_ok_def parent_of_def nat_less_iff)
next
  case False
  then have "x < n \<Longrightarrow> idom ! x = undef" "length idom = n" using assms(1) by (auto simp: idom_ok_def)
  then show ?thesis using assms(2) by (simp add: parent_of_def)
qed

lemma idom_ok_tree: "idom_ok idom n m \<Longrightarrow> is_tree (parent_of idom)"
proof -
  assume ok: "idom_ok idom n m"
  then have "parent_of idom 0 = 0" by (auto simp: parent_of_def idom_ok_def)
  then show ?thesis unfolding is_tree_def using idom_ok_less[OF ok] by blast
qed

lemma idom_ok_at: "idom_ok idom n m \<Longrightarrow> x < m \<Longrightarrow> idom ! x = int (parent_of idom x)"
  by (cases "x = 0") (auto simp: idom_ok_def parent_of_def)

lemma climb_spec:
  assumes ok: "idom_ok idom n m" and a: "a < m"
  shows "\<exists>a'. climb idom (int a) (int b) = Some (int a') \<and> a' \<le> b \<and> a' \<le> a \<and> (b < a \<longrightarrow> a' < a) \<and>
    anc (parent_of idom) a a' \<and> (\<forall>e \<le> b. anc (parent_of idom) a e \<longrightarrow> anc (parent_of idom) a' e)"
  using a
proof (induction a rule: less_induct)
  case (less a)
  show ?case
  proof (cases "b < a")
    case False
    then show ?thesis by (subst climb.simps) auto
  next
    case True
    have len: "a < length idom" using ok less.prems by (simp add: idom_ok_def)
    let ?p = "parent_of idom a"
    have p: "idom ! a = int ?p" "?p < a"
      using idom_ok_at[OF ok less.prems] idom_ok_less[OF ok, of a] True by auto
    obtain a' where a': "climb idom (int ?p) (int b) = Some (int a')" "a' \<le> b" "a' \<le> ?p" "anc (parent_of idom) ?p a'"
      "\<forall>e \<le> b. anc (parent_of idom) ?p e \<longrightarrow> anc (parent_of idom) a' e"
      using less.IH[OF p(2)] p(2) less.prems by auto
    have "climb idom (int a) (int b) = Some (int a')"
      using True len a'(1) p(1) by (subst climb.simps) simp
    moreover have "anc (parent_of idom) a' e" if "e \<le> b" "anc (parent_of idom) a e" for e
      using a'(5) that True anc_strict[OF that(2)] by auto
    ultimately show ?thesis using a' p(2) by (auto intro: anc_step)
  qed
qed

lemma intersect_spec:
  assumes ok: "idom_ok idom n m" and "a < m" "b < m"
  shows "\<exists>r. intersect idom (int a) (int b) = Some (int r) \<and> r \<le> a \<and> r \<le> b \<and>
    (\<forall>e. anc (parent_of idom) r e \<longleftrightarrow> anc (parent_of idom) a e \<and> anc (parent_of idom) b e)"
  using assms(2,3)
proof (induction "a + b" arbitrary: a b rule: less_induct)
  case less
  show ?case
  proof (cases "a = b")
    case True
    then show ?thesis by (subst intersect.simps) auto
  next
    case False
    let ?g = "parent_of idom"
    note t = idom_ok_tree[OF ok]
    obtain a' where a': "climb idom (int a) (int b) = Some (int a')" "a' \<le> b" "a' \<le> a" "b < a \<longrightarrow> a' < a"
      "anc ?g a a'" "\<forall>e \<le> b. anc ?g a e \<longrightarrow> anc ?g a' e"
      using climb_spec[OF ok less.prems(1), of b] by blast
    obtain b' where b': "climb idom (int b) (int a') = Some (int b')" "b' \<le> a'" "b' \<le> b" "a' < b \<longrightarrow> b' < b"
      "anc ?g b b'" "\<forall>e \<le> a'. anc ?g b e \<longrightarrow> anc ?g b' e"
      using climb_spec[OF ok less.prems(2), of a'] by blast
    have "a' + b' < a + b" using a'(2,3,4) b'(3,4) False by linarith
    from less.hyps[OF this] a'(3) b'(3) less.prems obtain r where r: "intersect idom (int a') (int b') = Some (int r)"
      "r \<le> a'" "r \<le> b'" "\<forall>e. anc ?g r e \<longleftrightarrow> anc ?g a' e \<and> anc ?g b' e" by auto
    have "intersect idom (int a) (int b) = Some (int r)"
      using False a'(1) b'(1) r(1) by (subst intersect.simps) simp
    moreover have "anc ?g r e \<longleftrightarrow> anc ?g a e \<and> anc ?g b e" for e
    proof
      assume "anc ?g r e"
      then show "anc ?g a e \<and> anc ?g b e" using r(4) a'(5) b'(5) anc_trans by blast
    next
      assume e: "anc ?g a e \<and> anc ?g b e"
      then have "anc ?g a' e" using a'(6) anc_le[OF _ t] by blast
      moreover have "anc ?g b' e" using e b'(6) anc_le[OF \<open>anc ?g a' e\<close> t] by blast
      ultimately show "anc ?g r e" using r(4) by blast
    qed
    ultimately show ?thesis using r(2,3) a'(3) b'(3) by auto
  qed
qed

section \<open>Passes over a function\<close>

text \<open>Edges between the numbers of the reachable blocks.\<close>

definition rpo_edge :: "func \<Rightarrow> nat \<Rightarrow> nat \<Rightarrow> bool" where
  "rpo_edge f i j \<longleftrightarrow> (let rpo = cfg_RPO (computeRPO f []) in
     i < length rpo \<and> j < length rpo \<and> cfg_edge f (rpo ! i) (rpo ! j))"

interpretation dg: dom_graph "length (cfg_RPO (computeRPO f []))" "rpo_edge f" for f
proof
  show "rpo_edge f i j \<Longrightarrow> i < length (cfg_RPO (computeRPO f [])) \<and> j < length (cfg_RPO (computeRPO f []))" for i j
    by (simp add: rpo_edge_def Let_def)
  show "0 < i \<Longrightarrow> i < length (cfg_RPO (computeRPO f [])) \<Longrightarrow> \<exists>j < i. rpo_edge f j i" for i
    using walk.earlier_pred[of i f] by (auto simp: rpo_edge_def Let_def)
qed

text \<open>The predecessor lists name the predecessors of every reachable block.\<close>

definition preds_ready :: "func \<Rightarrow> bool" where
  "preds_ready f \<longleftrightarrow> (let c = computeRPO f [] in \<forall>i < length (cfg_RPO c).
     {x. \<exists>p \<in> set (b_Preds (blk f (cfg_RPO c ! i))). cfg_Num c p = Some (int x)} = {x. rpo_edge f x i})"

text \<open>The numbers of the processed predecessors in a list.\<close>

definition pred_nums :: "cfg \<Rightarrow> nat \<Rightarrow> bptr list \<Rightarrow> nat set" where
  "pred_nums c m ps = {x. x < m \<and> (\<exists>p \<in> set ps. cfg_Num c p = Some (int x))}"

lemma cfg_Num_range:
  assumes "c = computeRPO f []"
  obtains "cfg_Num c p = Some (-1)" | x where "x < length (cfg_RPO c)" "cfg_RPO c ! x = p" "cfg_Num c p = Some (int x)"
  using cfg_Num_eq[OF assms] by (metis in_set_conv_nth)

lemma dom_preds_fold:
  assumes c: "c = computeRPO f []" and ok: "idom_ok idom (length (cfg_RPO c)) m"
  shows "\<exists>acc. fold_opt (dom_pred c idom) ps undef = Some acc \<and>
    (if pred_nums c m ps = {} then acc = undef
     else \<exists>v. acc = int v \<and> v < m \<and> (\<forall>x \<in> pred_nums c m ps. v \<le> x) \<and> dg.meets (parent_of idom) (pred_nums c m ps) v)"
proof (rule fold_opt_invar)
  show "if pred_nums c m [] = {} then undef = undef
    else \<exists>v. undef = int v \<and> v < m \<and> (\<forall>x \<in> pred_nums c m []. v \<le> x) \<and> dg.meets (parent_of idom) (pred_nums c m []) v"
    by (simp add: pred_nums_def)
next
  fix p ys zs acc
  assume "ps = ys @ p # zs" and acc: "if pred_nums c m ys = {} then acc = undef
     else \<exists>v. acc = int v \<and> v < m \<and> (\<forall>x \<in> pred_nums c m ys. v \<le> x) \<and> dg.meets (parent_of idom) (pred_nums c m ys) v"
  let ?goal = "\<exists>acc'. dom_pred c idom p acc = Some acc' \<and>
    (if pred_nums c m (ys @ [p]) = {} then acc' = undef
     else \<exists>v. acc' = int v \<and> v < m \<and> (\<forall>x \<in> pred_nums c m (ys @ [p]). v \<le> x) \<and>
       dg.meets (parent_of idom) (pred_nums c m (ys @ [p])) v)"
  have same: ?goal if skip: "dom_pred c idom p acc = Some acc" "pred_nums c m (ys @ [p]) = pred_nums c m ys"
    unfolding skip(2) using skip(1) acc by auto
  from c show ?goal
  proof (cases rule: cfg_Num_range[of c f p])
    case 1
    show ?thesis by (rule same) (use 1 in \<open>auto simp: dom_pred_def pred_nums_def\<close>)
  next
    case (2 k)
    show ?thesis
    proof (cases "k < m")
      case False
      then have "idom ! k = undef" using ok 2(1) by (simp add: idom_ok_def)
      then show ?thesis using 2 False by (intro same) (auto simp: dom_pred_def pred_nums_def)
    next
      case True
      have new: "pred_nums c m (ys @ [p]) = insert k (pred_nums c m ys)" using 2 True by (auto simp: pred_nums_def)
      have def: "idom ! k \<noteq> undef" using idom_ok_at[OF ok True] by simp
      show ?thesis
      proof (cases "pred_nums c m ys = {}")
        case True': True
        then have "dom_pred c idom p acc = Some (int k)" using acc 2 def by (simp add: dom_pred_def)
        then show ?thesis unfolding new True' using True by (auto simp: dg.meets_def)
      next
        case False
        then obtain v where v: "acc = int v" "v < m" "\<forall>x \<in> pred_nums c m ys. v \<le> x"
          "dg.meets (parent_of idom) (pred_nums c m ys) v" using acc by auto
        obtain r where r: "intersect idom (int k) (int v) = Some (int r)" "r \<le> k" "r \<le> v"
          "\<forall>e. anc (parent_of idom) r e \<longleftrightarrow> anc (parent_of idom) k e \<and> anc (parent_of idom) v e"
          using intersect_spec[OF ok True v(2)] by blast
        have "dom_pred c idom p acc = Some (int r)" using 2 def v(1) r(1) by (simp add: dom_pred_def)
        moreover have "\<forall>x \<in> insert k (pred_nums c m ys). r \<le> x" using r(2,3) v(3) by (auto intro: order_trans)
        moreover have "dg.meets (parent_of idom) (insert k (pred_nums c m ys)) r"
          using r(4) v(4) by (simp add: dg.meets_def)
        ultimately show ?thesis unfolding new using r(3) v(2) by auto
      qed
    qed
  qed
qed

lemma parent_of_upd: "i < length idom \<Longrightarrow> parent_of (idom[i := int v]) = (parent_of idom)(i := v)"
  by (auto simp: parent_of_def fun_eq_iff)

lemma idom_ok_upd:
  "idom_ok idom n m \<Longrightarrow> 0 < i \<Longrightarrow> i < n \<Longrightarrow> i \<le> m \<Longrightarrow> v < i \<Longrightarrow> idom_ok (idom[i := int v]) n (max m (Suc i))"
  by (auto simp: idom_ok_def nth_list_update less_max_iff_disj)

lemma dom_block_spec:
  assumes c: "c = computeRPO f []" and pr: "preds_ready f" and ok: "idom_ok idom (length (cfg_RPO c)) m"
    and i: "0 < i" "i < length (cfg_RPO c)" "i \<le> m"
  shows "\<exists>v < i. dg.meets (parent_of idom) {p. rpo_edge f p i \<and> p < m} v \<and>
    dom_block f c i (idom, ch) = Some (idom[i := int v], ch \<or> idom ! i \<noteq> int v)"
proof -
  let ?ps = "b_Preds (blk f (cfg_RPO c ! i))"
  have "{x. \<exists>p \<in> set ?ps. cfg_Num c p = Some (int x)} = {x. rpo_edge f x i}"
    using pr i(2) c by (simp add: preds_ready_def Let_def)
  then have P: "pred_nums c m ?ps = {p. rpo_edge f p i \<and> p < m}" by (auto simp: pred_nums_def)
  obtain j where j: "j < i" "rpo_edge f j i" using dg.earlier[of i f] i c by blast
  then have "pred_nums c m ?ps \<noteq> {}" using P i(3) by auto
  then obtain v where v: "fold_opt (dom_pred c idom) ?ps undef = Some (int v)" "\<forall>x \<in> pred_nums c m ?ps. v \<le> x"
    "dg.meets (parent_of idom) (pred_nums c m ?ps) v"
    using dom_preds_fold[OF c ok, of ?ps] by auto
  have "v < i" using v(2) P j i(3) by fastforce
  moreover have "dom_block f c i (idom, ch) = Some (idom[i := int v], ch \<or> idom ! i \<noteq> int v)"
    using v(1) list_update_id[of idom i] by (cases "idom ! i = int v") (auto simp: dom_block_def)
  ultimately show ?thesis using v(3) P by auto
qed

lemma upt_split: "[1..<n] = ys @ i # zs \<Longrightarrow> i = Suc (length ys) \<and> i < n"
proof -
  assume e: "[1..<n] = ys @ i # zs"
  have "length ys < length [1..<n]" unfolding e by simp
  moreover have "[1..<n] ! length ys = i" unfolding e by simp
  ultimately show ?thesis by (auto simp: nth_upt)
qed

text \<open>The first pass, which defines every entry.\<close>

lemma dom_pass_first:
  assumes c: "c = computeRPO f []" and pr: "preds_ready f" and n: "n = length (cfg_RPO c)" "0 < n"
  shows "\<exists>idom ch. dom_pass f c ((replicate n undef)[0 := 0]) = Some (idom, ch) \<and> idom_ok idom n n \<and>
    dg.first_pass f (parent_of idom) n \<and> (ch \<longleftrightarrow> 1 < n)"
proof -
  let ?I = "\<lambda>ys (idom, ch). idom_ok idom n (Suc (length ys)) \<and> dg.first_pass f (parent_of idom) (Suc (length ys)) \<and> (ch \<longleftrightarrow> ys \<noteq> [])"
  have "\<exists>s. fold_opt (dom_block f c) [1..<n] ((replicate n undef)[0 := 0], False) = Some s \<and> ?I [1..<n] s"
  proof (rule fold_opt_invar)
    have ok: "idom_ok ((replicate n undef)[0 := 0]) n 1" using n(2) by (auto simp: idom_ok_def nth_list_update)
    then show "?I [] ((replicate n undef)[0 := 0], False)" using dg.first_pass_init[OF idom_ok_tree[OF ok]] by simp
  next
    fix i ys zs s
    assume split: "[1..<n] = ys @ i # zs" and I: "?I ys s"
    obtain idom ch where s: "s = (idom, ch)" by fastforce
    have i: "i = Suc (length ys)" "i < n" using upt_split[OF split] by auto
    have ok: "idom_ok idom n i" and F: "dg.first_pass f (parent_of idom) i" using I s i by auto
    obtain v where v: "v < i" "dg.meets (parent_of idom) {p. rpo_edge f p i \<and> p < i} v"
      "dom_block f c i (idom, ch) = Some (idom[i := int v], ch \<or> idom ! i \<noteq> int v)"
      using dom_block_spec[OF c pr, of idom i i ch] ok i n(1) by auto
    have "dg.first_pass f ((parent_of idom)(i := v)) (Suc i)"
      by (rule dg.first_pass_step[OF F _ _ v(2,1)]) (use i n c in auto)
    then have "dg.first_pass f (parent_of (idom[i := int v])) (Suc i)"
      using parent_of_upd[of i idom v] ok i by (simp add: idom_ok_def)
    moreover have "idom_ok (idom[i := int v]) n (Suc i)"
      using idom_ok_upd[OF ok _ i(2) _ v(1)] i by (simp add: max_def)
    moreover have "idom ! i \<noteq> int v" using ok i by (simp add: idom_ok_def)
    ultimately show "\<exists>t. dom_block f c i s = Some t \<and> ?I (ys @ [i]) t" using v(3) s i by auto
  qed
  then show ?thesis using n by (auto simp: dom_pass_def)
qed

definition idom_sum :: "nat \<Rightarrow> int list \<Rightarrow> nat" where
  "idom_sum n idom = (\<Sum>x < n. parent_of idom x)"

text \<open>A later pass keeps the invariants, moves parents only towards the entry, and stops at a fixpoint.\<close>

lemma dom_pass_later:
  assumes c: "c = computeRPO f []" and pr: "preds_ready f" and n: "n = length (cfg_RPO c)"
    and ok: "idom_ok idom n n" and ab: "dg.above f (parent_of idom) n" and st: "dg.settled f (parent_of idom) n"
  shows "\<exists>idom' ch. dom_pass f c idom = Some (idom', ch) \<and> idom_ok idom' n n \<and>
    dg.above f (parent_of idom') n \<and> dg.settled f (parent_of idom') n \<and>
    (if ch then idom_sum n idom' < idom_sum n idom
     else idom' = idom \<and> (\<forall>i. 0 < i \<longrightarrow> i < n \<longrightarrow> dg.meets (parent_of idom) {p. rpo_edge f p i} (parent_of idom i)))"
proof -
  let ?g = "parent_of idom"
  let ?I = "\<lambda>ys (T, ch). idom_ok T n n \<and> dg.above f (parent_of T) n \<and> dg.in_pass f ?g (parent_of T) (Suc (length ys)) \<and>
    (\<forall>x. parent_of T x \<le> ?g x) \<and> (if ch then \<exists>x < n. parent_of T x < ?g x
       else T = idom \<and> (\<forall>i \<in> set ys. dg.meets ?g {p. rpo_edge f p i} (?g i)))"
  note t = idom_ok_tree[OF ok]
  have "\<exists>s. fold_opt (dom_block f c) [1..<n] (idom, False) = Some s \<and> ?I [1..<n] s"
  proof (rule fold_opt_invar)
    show "?I [] (idom, False)" using ok ab dg.in_pass_init[OF t] by simp
  next
    fix i ys zs s
    assume split: "[1..<n] = ys @ i # zs" and I: "?I ys s"
    obtain T ch where s: "s = (T, ch)" by fastforce
    have i: "i = Suc (length ys)" "i < n" using upt_split[OF split] by auto
    have okT: "idom_ok T n n" and abT: "dg.above f (parent_of T) n" and pT: "dg.in_pass f ?g (parent_of T) i"
      and le: "\<forall>x. parent_of T x \<le> ?g x" using I s i by auto
    have all: "{p. rpo_edge f p i \<and> p < n} = {p. rpo_edge f p i}" using dg.E_range[of f] n c by blast
    obtain v where v: "v < i" "dg.meets (parent_of T) {p. rpo_edge f p i} v"
      "dom_block f c i (T, ch) = Some (T[i := int v], ch \<or> T ! i \<noteq> int v)"
      using dom_block_spec[OF c pr, of T n i ch] okT i n(1) all by auto
    have pos: "0 < i" "i < length (cfg_RPO (computeRPO f []))" using i n c by auto
    have set_n: "dg.settled f ?g (length (cfg_RPO (computeRPO f [])))" using st n c by simp
    note step = dg.in_pass_step[OF t set_n pT pos v(2)]
    have len: "i < length T" using okT i by (simp add: idom_ok_def)
    note upd = parent_of_upd[OF len, of v]
    have Ti: "T ! i = int (parent_of T i)" by (rule idom_ok_at[OF okT i(2)])
    have ne: "{p. rpo_edge f p i} \<noteq> {}" using dg.earlier[OF pos] by blast
    have "{p. rpo_edge f p i} \<subseteq> {p. rpo_edge f p i \<and> p < n}" "i \<le> n" using all i(2) by simp_all
    from dg.above_step[OF idom_ok_tree[OF okT] abT pos this(2) ne this(1) v(2,1)]
    have "dg.above f (parent_of (T[i := int v])) (max n (Suc i))" unfolding upd .
    then have "dg.above f (parent_of (T[i := int v])) n" using i(2) by (simp add: max_absorb1)
    moreover have "idom_ok (T[i := int v]) n n" using idom_ok_upd[OF okT _ i(2) _ v(1)] i by (simp add: max_absorb1)
    moreover have "\<forall>x. parent_of (T[i := int v]) x \<le> ?g x"
      unfolding upd using le step(2) by (metis fun_upd_apply order_trans)
    moreover have "if ch \<or> T ! i \<noteq> int v then \<exists>x < n. parent_of (T[i := int v]) x < ?g x
      else T[i := int v] = idom \<and> (\<forall>i \<in> set (ys @ [i]). dg.meets ?g {p. rpo_edge f p i} (?g i))"
    proof (cases "T ! i = int v")
      case True
      then have "T[i := int v] = T" by (metis list_update_id)
      with True Ti I s v(2) show ?thesis by auto
    next
      case False
      then have "v < parent_of T i" using Ti step(2) by simp
      then have "parent_of (T[i := int v]) i < ?g i" unfolding upd using le by (metis fun_upd_same less_le_trans)
      with False i(2) show ?thesis by auto
    qed
    moreover have "dg.in_pass f ?g (parent_of (T[i := int v])) (Suc (length (ys @ [i])))"
      using step(1) upd i(1) by simp
    ultimately show "\<exists>t. dom_block f c i s = Some t \<and> ?I (ys @ [i]) t" using v(3) s by simp
  qed
  then obtain T ch where T: "dom_pass f c idom = Some (T, ch)" "?I [1..<n] (T, ch)"
    using n by (auto simp: dom_pass_def)
  have "0 < n" using ok by (simp add: idom_ok_def)
  then have "dg.settled f (parent_of T) n" using T(2) by (simp add: dg.in_pass_def)
  moreover have "if ch then idom_sum n T < idom_sum n idom
     else T = idom \<and> (\<forall>i. 0 < i \<longrightarrow> i < n \<longrightarrow> dg.meets ?g {p. rpo_edge f p i} (?g i))"
    using T(2) by (auto simp: idom_sum_def intro!: sum_strict_mono_ex1)
  ultimately show ?thesis using T by auto
qed

lemma dom_fix_later:
  assumes c: "c = computeRPO f []" and pr: "preds_ready f" and n: "n = length (cfg_RPO c)"
    and "idom_ok idom n n" "dg.above f (parent_of idom) n" "dg.settled f (parent_of idom) n"
  shows "\<exists>idom'. dom_fix f c idom = Some idom' \<and> idom_ok idom' n n \<and> dg.above f (parent_of idom') n \<and>
    (\<forall>i. 0 < i \<longrightarrow> i < n \<longrightarrow> dg.meets (parent_of idom') {p. rpo_edge f p i} (parent_of idom' i))"
  using assms(4-)
proof (induction "idom_sum n idom" arbitrary: idom rule: less_induct)
  case less
  obtain idom' ch where p: "dom_pass f c idom = Some (idom', ch)" "idom_ok idom' n n"
    "dg.above f (parent_of idom') n" "dg.settled f (parent_of idom') n"
    "if ch then idom_sum n idom' < idom_sum n idom
     else idom' = idom \<and> (\<forall>i. 0 < i \<longrightarrow> i < n \<longrightarrow> dg.meets (parent_of idom) {p. rpo_edge f p i} (parent_of idom i))"
    using dom_pass_later[OF c pr n less.prems] by blast
  show ?case
  proof (cases ch)
    case True
    then have "dom_fix f c idom = dom_fix f c idom'" using p(1) by (subst dom_fix.simps) simp
    with less.hyps[OF _ p(2,3,4)] True p(5) show ?thesis by simp
  next
    case False
    then have "dom_fix f c idom = Some idom'" using p(1) by (subst dom_fix.simps) simp
    with False p show ?thesis by auto
  qed
qed

text \<open>The fixpoint loop ends, and the tree it leaves is the dominator tree.\<close>

lemma dom_fix_spec:
  assumes c: "c = computeRPO f []" and pr: "preds_ready f" and n: "n = length (cfg_RPO c)" "0 < n"
  shows "\<exists>idom. dom_fix f c ((replicate n undef)[0 := 0]) = Some idom \<and> idom_ok idom n n \<and>
    (\<forall>x < n. \<forall>d. anc (parent_of idom) x d \<longleftrightarrow> dg.dominates f d x)"
proof -
  let ?init = "(replicate n undef)[0 := 0]"
  obtain idom1 ch where f1: "dom_pass f c ?init = Some (idom1, ch)" "idom_ok idom1 n n"
    "dg.first_pass f (parent_of idom1) n" "ch \<longleftrightarrow> 1 < n"
    using dom_pass_first[OF c pr n] by blast
  have ab: "dg.above f (parent_of idom1) n" using f1(3) by (simp add: dg.first_pass_def)
  have st: "dg.settled f (parent_of idom1) n" using dg.first_pass_settled[of f "parent_of idom1"] f1(3) n c by simp
  obtain idom where r: "dom_fix f c ?init = Some idom" "idom_ok idom n n" "dg.above f (parent_of idom) n"
    "\<forall>i. 0 < i \<longrightarrow> i < n \<longrightarrow> dg.meets (parent_of idom) {p. rpo_edge f p i} (parent_of idom i)"
  proof (cases ch)
    case True
    have "dom_fix f c ?init = dom_fix f c idom1" using f1(1) True by (subst dom_fix.simps) simp
    with dom_fix_later[OF c pr n(1) f1(2) ab st] that show ?thesis by auto
  next
    case False
    then have "dom_fix f c ?init = Some idom1" using f1(1) by (subst dom_fix.simps) simp
    with that[OF _ f1(2) ab] f1(4) False show ?thesis by auto
  qed
  have "anc (parent_of idom) x d \<longleftrightarrow> dg.dominates f d x" if "x < n" for x d
    using dg.fixpoint_dom[of "parent_of idom" f x d] idom_ok_tree[OF r(2)] r(3,4) that n c by simp
  with r show ?thesis by blast
qed

section \<open>Dominance by paths\<close>

definition cfg_path :: "func \<Rightarrow> bptr list \<Rightarrow> bool" where
  "cfg_path f p \<longleftrightarrow> p \<noteq> [] \<and> f_Start f = Some (hd p) \<and> (\<forall>i. Suc i < length p \<longrightarrow> cfg_edge f (p ! i) (p ! Suc i))"

text \<open>The definition of dominance: every path from the entry to \<open>b\<close> passes through \<open>a\<close>.\<close>

definition block_dominates :: "func \<Rightarrow> bptr \<Rightarrow> bptr \<Rightarrow> bool" where
  "block_dominates f a b \<longleftrightarrow> (\<forall>p. cfg_path f p \<and> last p = b \<longrightarrow> a \<in> set p)"

lemma cfg_path_snoc:
  "p \<noteq> [] \<Longrightarrow> cfg_path f (p @ [b]) \<longleftrightarrow> cfg_path f p \<and> cfg_edge f (last p) b"
proof -
  assume p: "p \<noteq> []"
  have "(\<forall>i. Suc i < length (p @ [b]) \<longrightarrow> cfg_edge f ((p @ [b]) ! i) ((p @ [b]) ! Suc i)) \<longleftrightarrow>
    (\<forall>i. Suc i < length p \<longrightarrow> cfg_edge f (p ! i) (p ! Suc i)) \<and> cfg_edge f (last p) b" (is "?L \<longleftrightarrow> ?R")
  proof
    assume L: ?L
    have "cfg_edge f (p ! i) (p ! Suc i)" if "Suc i < length p" for i
      using L[rule_format, of i] that by (simp add: nth_append)
    moreover have "cfg_edge f (last p) b"
      using L[rule_format, of "length p - 1"] p by (simp add: nth_append last_conv_nth)
    ultimately show ?R by blast
  next
    assume R: ?R
    show ?L
    proof (intro allI impI)
      fix i assume i: "Suc i < length (p @ [b])"
      show "cfg_edge f ((p @ [b]) ! i) ((p @ [b]) ! Suc i)"
      proof (cases "Suc i < length p")
        case True
        then show ?thesis using R by (simp add: nth_append)
      next
        case False
        then have "i = length p - 1" using i by simp
        then show ?thesis using R p by (simp add: nth_append last_conv_nth)
      qed
    qed
  qed
  with p show ?thesis by (auto simp: cfg_path_def)
qed

lemma cfg_path_reach: "cfg_path f p \<Longrightarrow> b \<in> set p \<Longrightarrow> reachable f b"
proof (induction p arbitrary: b rule: rev_induct)
  case (snoc x p)
  show ?case
  proof (cases "p = []")
    case True
    then show ?thesis using snoc.prems by (auto simp: cfg_path_def reachable_def)
  next
    case False
    then have p: "cfg_path f p" "cfg_edge f (last p) x" using snoc.prems(1) by (simp_all add: cfg_path_snoc)
    have "reachable f (last p)" using snoc.IH[OF p(1)] False by simp
    then have "reachable f x" using p(2) by (auto simp: reachable_def intro: rtrancl.rtrancl_into_rtrancl)
    then show ?thesis using snoc.IH[OF p(1)] snoc.prems(2) by auto
  qed
qed (simp add: cfg_path_def)

lemma avoid_path:
  assumes "rpo = cfg_RPO (computeRPO f [])" "x < length rpo" "d < length rpo"
  shows "dg.avoid f d x \<longleftrightarrow> (\<exists>p. cfg_path f p \<and> last p = rpo ! x \<and> rpo ! d \<notin> set p)"
proof
  have e: "\<exists>e. f_Start f = Some e"
    using assms(1,3) walk.entry_none[of f] by (cases "f_Start f") auto
  then obtain e where e: "f_Start f = Some e" by blast
  have e0: "rpo ! 0 = e" "0 < length rpo" using walk.entry_first[OF e] assms(1) by auto
  have dist: "distinct rpo" using walk.distinct_rpo assms(1) by simp
  show "dg.avoid f d x \<Longrightarrow> \<exists>p. cfg_path f p \<and> last p = rpo ! x \<and> rpo ! d \<notin> set p"
  proof (induction rule: dg.avoid.induct)
    case avoid_entry
    then have "rpo ! d \<noteq> rpo ! 0" using assms(3) e0(2) dist by (simp add: nth_eq_iff_index_eq)
    then have "cfg_path f [e] \<and> last [e] = rpo ! 0 \<and> rpo ! d \<notin> set [e]" using e e0 by (simp add: cfg_path_def)
    then show ?case by blast
  next
    case (avoid_step x y)
    then obtain p where p: "cfg_path f p" "last p = rpo ! x" "rpo ! d \<notin> set p" by blast
    have xy: "cfg_edge f (rpo ! x) (rpo ! y)" "y < length rpo" using avoid_step.hyps(2) assms(1) by (auto simp: rpo_edge_def Let_def)
    have "p \<noteq> []" using p(1) by (simp add: cfg_path_def)
    then have "cfg_path f (p @ [rpo ! y])" using cfg_path_snoc p xy by simp
    moreover have "rpo ! d \<noteq> rpo ! y" using avoid_step.hyps(3) assms(3) xy(2) dist by (simp add: nth_eq_iff_index_eq)
    ultimately show ?case using p(3) by (intro exI[of _ "p @ [rpo ! y]"]) auto
  qed
  have "cfg_path f p \<Longrightarrow> rpo ! d \<notin> set p \<Longrightarrow> y < length rpo \<Longrightarrow> last p = rpo ! y \<Longrightarrow> dg.avoid f d y" for p y
  proof (induction p arbitrary: y rule: rev_induct)
    case (snoc b p)
    show ?case
    proof (cases "p = []")
      case True
      then have "b = e" using snoc.prems(1) e by (simp add: cfg_path_def)
      then have "y = 0" using snoc.prems(3,4) e0 dist by (metis last_snoc nth_eq_iff_index_eq)
      moreover have "d \<noteq> 0" using snoc.prems(2) \<open>b = e\<close> e0(1) by (cases "d = 0") auto
      ultimately show ?thesis by (simp add: dg.avoid_entry)
    next
      case False
      then have p: "cfg_path f p" "cfg_edge f (last p) b" using snoc.prems(1) by (simp_all add: cfg_path_snoc)
      have "last p \<in> set rpo" using cfg_path_reach[OF p(1)] False walk.rpo_reach[of "last p" f] assms(1) by (simp add: reachable_def)
      then obtain z where z: "z < length rpo" "last p = rpo ! z" by (metis in_set_conv_nth)
      have "dg.avoid f d z" by (rule snoc.IH[OF p(1) _ z]) (use snoc.prems(2) in simp)
      moreover have "rpo_edge f z y" using p(2) z snoc.prems(3,4) assms(1) by (simp add: rpo_edge_def Let_def)
      moreover have "y \<noteq> d" using snoc.prems(2,4) by auto
      ultimately show ?thesis by (rule dg.avoid_step)
    qed
  qed (simp add: cfg_path_def)
  then show "\<exists>p. cfg_path f p \<and> last p = rpo ! x \<and> rpo ! d \<notin> set p \<Longrightarrow> dg.avoid f d x" using assms(2) by blast
qed

section \<open>The tree handed out\<close>

text \<open>
  What \<open>BuildCFG\<close> leaves behind is what \<open>Dominators\<close> relies on: block pointers name blocks of the
  function, each block is listed once, and control stays inside the list.
\<close>

definition blocks_ok :: "func \<Rightarrow> bool" where
  "blocks_ok f \<longleftrightarrow> distinct (f_Blocks f) \<and> (\<forall>b \<in> set (f_Blocks f). b < length (f_arena f)) \<and>
     (\<forall>b \<in> set (f_Blocks f). \<forall>s \<in> set (cfg_Succs (blk f b)). s \<noteq> None \<longrightarrow> the s \<in> set (f_Blocks f)) \<and>
     (f_Start f \<noteq> None \<longrightarrow> the (f_Start f) \<in> set (f_Blocks f))"

lemma blocks_ok_reach: "blocks_ok f \<Longrightarrow> reachable f b \<Longrightarrow> b \<in> set (f_Blocks f)"
proof -
  assume ok: "blocks_ok f" and "reachable f b"
  then obtain e where e: "f_Start f = Some e" "(e, b) \<in> (cfg_edges f)\<^sup>*" by (auto simp: reachable_def)
  from e(2) show ?thesis
    by (rule rtrancl_closed) (use ok e(1) in \<open>force simp: blocks_ok_def cfg_edge_def\<close>)+
qed

lemma rpo_reachable: "b \<in> set (cfg_RPO (computeRPO f [])) \<longleftrightarrow> reachable f b"
  using walk.rpo_reach[of b f] by (simp add: reachable_def)

lemma cfg_Num_iff:
  assumes "c = computeRPO f []"
  shows "cfg_Num c p = Some (int x) \<longleftrightarrow> x < length (cfg_RPO c) \<and> cfg_RPO c ! x = p"
proof
  assume "cfg_Num c p = Some (int x)"
  then show "x < length (cfg_RPO c) \<and> cfg_RPO c ! x = p"
    by (rule_tac cfg_Num_range[OF assms, of p]) auto
qed (use cfg_Num_eq(1)[OF assms] in blast)

lemma preds_ready_fillPreds:
  assumes "blocks_ok f"
  shows "preds_ready (fillPreds f)"
proof -
  let ?f = "fillPreds f"
  define c where "c = computeRPO ?f []"
  note po = preds_only_fillPreds[of f]
  have inb: "b \<in> set (f_Blocks f)" if "b \<in> set (cfg_RPO c)" for b
    using that rpo_reachable[of b ?f] reachable_preds_only[OF po] blocks_ok_reach[OF assms] c_def by simp
  have "(\<exists>p \<in> set (b_Preds (blk ?f (cfg_RPO c ! i))). cfg_Num c p = Some (int x)) \<longleftrightarrow> rpo_edge ?f x i"
    if i: "i < length (cfg_RPO c)" for i x
  proof -
    let ?b = "cfg_RPO c ! i"
    have "b_Preds (blk ?f ?b) = filter (\<lambda>b. cfg_edge f b ?b) (f_Blocks f)"
      using fillPreds_preds[of f ?b] assms inb[of ?b] i by (auto simp: blocks_ok_def)
    then show ?thesis
      using i inb c_def cfg_Num_iff[OF c_def]
      by (auto simp: rpo_edge_def Let_def preds_only_sel(4)[OF po])
  qed
  then show ?thesis by (simp add: preds_ready_def Let_def c_def[symmetric])
qed

lemma map_of_fold_rpo:
  assumes "distinct rpo" "k \<le> length rpo"
  shows "i < k \<Longrightarrow> 0 < i \<Longrightarrow> map_of (fold (\<lambda>i. AList.update (rpo ! i) (h i)) [1..<k] m) (rpo ! i) = Some (h i)"
    "(\<forall>i. 0 < i \<longrightarrow> i < k \<longrightarrow> rpo ! i \<noteq> b) \<Longrightarrow> map_of (fold (\<lambda>i. AList.update (rpo ! i) (h i)) [1..<k] m) b = map_of m b"
proof -
  show "i < k \<Longrightarrow> 0 < i \<Longrightarrow> map_of (fold (\<lambda>i. AList.update (rpo ! i) (h i)) [1..<k] m) (rpo ! i) = Some (h i)"
    using assms(2)
  proof (induction k)
    case (Suc k)
    show ?case
    proof (cases "i = k")
      case True
      with Suc.prems show ?thesis by (simp add: update_conv')
    next
      case False
      then have "rpo ! k \<noteq> rpo ! i" using Suc.prems assms(1) by (simp add: nth_eq_iff_index_eq)
      with False Suc show ?thesis by (simp add: update_conv')
    qed
  qed simp
  show "(\<forall>i. 0 < i \<longrightarrow> i < k \<longrightarrow> rpo ! i \<noteq> b) \<Longrightarrow> map_of (fold (\<lambda>i. AList.update (rpo ! i) (h i)) [1..<k] m) b = map_of m b"
  proof (induction k)
    case (Suc k)
    then have "0 < k \<Longrightarrow> rpo ! k \<noteq> b" "\<forall>i. 0 < i \<longrightarrow> i < k \<longrightarrow> rpo ! i \<noteq> b" by simp_all
    with Suc.IH show ?case by (cases "k = 0") (auto simp: update_conv')
  qed simp
qed

text \<open>The tree \<open>Dominators\<close> returns, on reverse-postorder numbers.\<close>

lemma Dominators_tree:
  assumes ok: "blocks_ok f" and clean: "pool_clean pool" and c: "c = computeRPO (fillPreds f) []"
  shows "\<exists>d pool' g. Dominators pick pool (fillPreds f) c = Some (d, pool') \<and> pool_clean pool' \<and> is_tree g \<and>
    (\<forall>x. x < length (cfg_RPO c) \<longrightarrow> g x < length (cfg_RPO c) \<and>
       Idom d (cfg_RPO c ! x) = Some (if x = 0 then None else Some (cfg_RPO c ! g x)) \<and>
       (\<forall>y. anc g x y \<longleftrightarrow> dg.dominates (fillPreds f) y x)) \<and>
    (\<forall>b. b \<notin> set (cfg_RPO c) \<longrightarrow> Idom d b = Some None)"
proof -
  let ?f = "fillPreds f" and ?n = "length (cfg_RPO c)"
  obtain m pool' where take: "takeNumbering ?n pick pool = (m, pool')" by fastforce
  note tk = takeNumbering_clean[OF clean take]
  show ?thesis
  proof (cases "?n = 0")
    case True
    have "is_tree (\<lambda>x. x - 1)" by (auto simp: is_tree_def)
    with True tk show ?thesis
      by (intro exI[of _ "\<lparr>dt_idom = m, dt_released = False\<rparr>"] exI[of _ pool'] exI[of _ "\<lambda>x. x - 1"])
        (use take in \<open>auto simp: Dominators_def Idom_def\<close>)
  next
    case False
    obtain idom where i: "dom_fix ?f c ((replicate ?n undef)[0 := 0]) = Some idom" "idom_ok idom ?n ?n"
      "\<forall>x < ?n. \<forall>d. anc (parent_of idom) x d \<longleftrightarrow> dg.dominates ?f d x"
      using dom_fix_spec[OF c preds_ready_fillPreds[OF ok] refl] False by auto
    let ?m = "fold (\<lambda>i. AList.update (cfg_RPO c ! i) (Some (cfg_RPO c ! nat (idom ! i)))) [1..<?n] (AList.update (cfg_RPO c ! 0) None m)"
    have D: "Dominators pick pool ?f c = Some (\<lparr>dt_idom = ?m, dt_released = False\<rparr>, pool')"
      using False i(1) take by (simp add: Dominators_def)
    have dist: "distinct (cfg_RPO c)" using walk.distinct_rpo c by simp
    note look = map_of_fold_rpo[OF dist order_refl, where h = "\<lambda>i. Some (cfg_RPO c ! nat (idom ! i))" and m = "AList.update (cfg_RPO c ! 0) None m"]
    have tree: "is_tree (parent_of idom)" by (rule idom_ok_tree[OF i(2)])
    have at: "map_of ?m (cfg_RPO c ! x) = Some (if x = 0 then None else Some (cfg_RPO c ! parent_of idom x))" if x: "x < ?n" for x
    proof (cases "x = 0")
      case True
      have "\<forall>i. 0 < i \<longrightarrow> i < ?n \<longrightarrow> cfg_RPO c ! i \<noteq> cfg_RPO c ! 0" using dist False by (simp add: nth_eq_iff_index_eq)
      with look(2)[of "cfg_RPO c ! 0"] True show ?thesis by (simp add: update_conv')
    next
      case False
      with look(1)[OF x] x i(2) show ?thesis by (simp add: parent_of_def idom_ok_def)
    qed
    have out: "map_of ?m b = None" if "b \<notin> set (cfg_RPO c)" for b
    proof -
      have "\<forall>i < ?n. cfg_RPO c ! i \<noteq> b" using that by (metis nth_mem)
      then have "b \<noteq> cfg_RPO c ! 0" "\<forall>i. 0 < i \<longrightarrow> i < ?n \<longrightarrow> cfg_RPO c ! i \<noteq> b" using False by auto
      with look(2)[of b] tk(1) show ?thesis by (simp add: update_conv')
    qed
    have "parent_of idom x < ?n" if "x < ?n" for x
    proof -
      have "parent_of idom x \<le> x" by (rule anc_le[OF anc_parent tree])
      with that show ?thesis by simp
    qed
    with D tk tree at out i(3) show ?thesis
      by (intro exI[of _ "\<lparr>dt_idom = ?m, dt_released = False\<rparr>"] exI[of _ pool'] exI[of _ "parent_of idom"])
        (simp add: Idom_def)
  qed
qed

lemma Dominates_walk:
  assumes t: "is_tree g" and x: "x < n" and n: "\<And>x. x < n \<Longrightarrow> g x < n"
    and I: "\<And>x. x < n \<Longrightarrow> Idom d (rpo ! x) = Some (if x = 0 then None else Some (rpo ! g x))"
  shows "Dominates d a (Some (rpo ! x)) = Some (\<exists>y. anc g x y \<and> rpo ! y = a)"
  using x
proof (induction x rule: less_induct)
  case (less x)
  show ?case
  proof (cases "rpo ! x = a")
    case True
    then show ?thesis by (subst Dominates.simps) auto
  next
    case False
    show ?thesis
    proof (cases "x = 0")
      case True
      then show ?thesis using False I[OF less.prems] anc_0[OF t]
        by (subst Dominates.simps) (simp add: Dominates.simps[of d a None])
    next
      case False': False
      then have "g x < x" using t by (simp add: is_tree_def)
      from less.IH[OF this n[OF less.prems]] show ?thesis
        using False False' I[OF less.prems] anc_unfold[of g x] by (subst Dominates.simps) auto
    qed
  qed
qed

lemma reachable_path: "reachable f b \<Longrightarrow> \<exists>p. cfg_path f p \<and> last p = b"
proof -
  assume "reachable f b"
  then obtain e where e: "f_Start f = Some e" "(e, b) \<in> (cfg_edges f)\<^sup>*" by (auto simp: reachable_def)
  from e(2) show ?thesis
  proof (induction rule: rtrancl_induct)
    case base
    then show ?case using e(1) by (intro exI[of _ "[e]"]) (simp add: cfg_path_def)
  next
    case (step y z)
    then obtain p where p: "cfg_path f p" "last p = y" by blast
    then have "p \<noteq> []" by (simp add: cfg_path_def)
    with p step.hyps(2) show ?case by (intro exI[of _ "p @ [z]"]) (simp add: cfg_path_snoc)
  qed
qed

lemma block_dominates_reach: "reachable f b \<Longrightarrow> block_dominates f a b \<Longrightarrow> reachable f a"
  using reachable_path[of f b] cfg_path_reach by (auto simp: block_dominates_def)

text \<open>
  The tree \<open>d\<close> that \<open>Dominators\<close> returns for a CFG \<open>c\<close>, seen as a tree \<open>g\<close> on the numbers whose
  ancestors are the dominators.
\<close>

definition dom_tree_of :: "func \<Rightarrow> cfg \<Rightarrow> domtree \<Rightarrow> (nat \<Rightarrow> nat) \<Rightarrow> bool" where
  "dom_tree_of f c d g \<longleftrightarrow> is_tree g \<and> distinct (cfg_RPO c) \<and> set (cfg_RPO c) = {b. reachable f b} \<and>
     (\<forall>x < length (cfg_RPO c).
        Idom d (cfg_RPO c ! x) = Some (if x = 0 then None else Some (cfg_RPO c ! g x)) \<and>
        (\<forall>y < length (cfg_RPO c). anc g x y \<longleftrightarrow> block_dominates f (cfg_RPO c ! y) (cfg_RPO c ! x))) \<and>
     (\<forall>b. \<not> reachable f b \<longrightarrow> Idom d b = Some None) \<and>
     (\<forall>e. f_Start f = Some e \<longrightarrow> cfg_RPO c ! 0 = e)"

lemma dom_tree_ofD:
  assumes "dom_tree_of f c d g"
  shows "is_tree g" "distinct (cfg_RPO c)" "set (cfg_RPO c) = {b. reachable f b}"
    "\<And>x. x < length (cfg_RPO c) \<Longrightarrow> g x < length (cfg_RPO c)"
    "\<And>x. x < length (cfg_RPO c) \<Longrightarrow> Idom d (cfg_RPO c ! x) = Some (if x = 0 then None else Some (cfg_RPO c ! g x))"
    "\<And>x y. x < length (cfg_RPO c) \<Longrightarrow> y < length (cfg_RPO c) \<Longrightarrow> anc g x y \<longleftrightarrow> block_dominates f (cfg_RPO c ! y) (cfg_RPO c ! x)"
    "\<And>b. \<not> reachable f b \<Longrightarrow> Idom d b = Some None"
    "\<And>e. f_Start f = Some e \<Longrightarrow> cfg_RPO c ! 0 = e"
proof -
  show "g x < length (cfg_RPO c)" if "x < length (cfg_RPO c)" for x
    using assms that anc_le[OF anc_parent, of g x] by (simp add: dom_tree_of_def)
qed (use assms in \<open>simp_all add: dom_tree_of_def\<close>)

lemma dom_tree_index:
  "dom_tree_of f c d g \<Longrightarrow> reachable f b \<Longrightarrow> \<exists>x < length (cfg_RPO c). cfg_RPO c ! x = b"
  using dom_tree_ofD(3)[of f c d g] by (metis in_set_conv_nth mem_Collect_eq)

lemma Dominators_facts:
  assumes "blocks_ok f" "pool_clean p1" "pool_clean p2" "BuildCFG pick1 p1 f = (c, f', p1')"
  shows "\<exists>d p2' g. Dominators pick2 p2 f' c = Some (d, p2') \<and> pool_clean p2' \<and> dom_tree_of f c d g"
proof -
  note b = BuildCFG_clean[OF assms(2,4)]
  note po = preds_only_fillPreds[of f]
  let ?rpo = "cfg_RPO c" and ?f = "fillPreds f"
  obtain d p2' g where D: "Dominators pick2 p2 ?f c = Some (d, p2')" "pool_clean p2'" "is_tree g"
    "\<And>x. x < length ?rpo \<Longrightarrow> Idom d (?rpo ! x) = Some (if x = 0 then None else Some (?rpo ! g x))"
    "\<And>x y. x < length ?rpo \<Longrightarrow> anc g x y \<longleftrightarrow> dg.dominates ?f y x"
    "\<And>b. b \<notin> set ?rpo \<Longrightarrow> Idom d b = Some None"
    using Dominators_tree[OF assms(1,3) b(1), of pick2] by metis
  have mem: "set ?rpo = {b. reachable f b}"
    unfolding b(1) using rpo_reachable[of _ ?f] reachable_preds_only[OF po] by auto
  have "anc g x y \<longleftrightarrow> block_dominates f (?rpo ! y) (?rpo ! x)" if "x < length ?rpo" "y < length ?rpo" for x y
  proof -
    have "cfg_path ?f p = cfg_path f p" for p by (simp add: cfg_path_def preds_only_sel[OF po])
    then show ?thesis
      unfolding D(5)[OF that(1)] dg.dominates_def block_dominates_def using avoid_path[of ?rpo ?f x y] b(1) that by auto
  qed
  moreover have "distinct ?rpo" using walk.distinct_rpo[of ?f] b(1) by simp
  moreover have "?rpo ! 0 = e" if "f_Start f = Some e" for e
    using that walk.entry_first[of ?f e] b(1) preds_only_sel(6)[OF po] by simp
  ultimately have "dom_tree_of f c d g" using D mem by (simp add: dom_tree_of_def)
  with D(1,2) b(2) show ?thesis by blast
qed

lemma Dominators_query:
  assumes T: "dom_tree_of f c d g" and r: "reachable f b"
  shows "Dominates d a (Some b) = Some (block_dominates f a b)"
proof -
  note D = dom_tree_ofD[OF T]
  obtain x where x: "x < length (cfg_RPO c)" "cfg_RPO c ! x = b" using dom_tree_index[OF T r] by blast
  have "(\<exists>y. anc g x y \<and> cfg_RPO c ! y = a) \<longleftrightarrow> block_dominates f a b"
  proof
    assume "\<exists>y. anc g x y \<and> cfg_RPO c ! y = a"
    then obtain y where y: "anc g x y" "cfg_RPO c ! y = a" by blast
    have "y < length (cfg_RPO c)" using anc_le[OF y(1) D(1)] x(1) by simp
    with D(6) x y show "block_dominates f a b" by blast
  next
    assume dom: "block_dominates f a b"
    then obtain y where "y < length (cfg_RPO c)" "cfg_RPO c ! y = a"
      using dom_tree_index[OF T block_dominates_reach[OF r]] by blast
    with D(6) x dom show "\<exists>y. anc g x y \<and> cfg_RPO c ! y = a" by blast
  qed
  then show ?thesis using Dominates_walk[OF D(1) x(1) D(4,5), of a] x(2) by simp
qed

text \<open>
  C2: \<open>Dominators\<close> returns (its fixpoint loop and every \<open>intersect\<close> end, no index is out of range), and
  the tree answers dominance queries exactly: for a reachable block \<open>b\<close>, \<open>Dominates a b\<close> is true if
  and only if every path from the entry to \<open>b\<close> passes through \<open>a\<close>.
\<close>

theorem Dominators_correct:
  assumes "blocks_ok f" "pool_clean p1" "pool_clean p2" "BuildCFG pick1 p1 f = (c, f', p1')"
  shows "\<exists>d p2'. Dominators pick2 p2 f' c = Some (d, p2') \<and> pool_clean p2' \<and>
    (\<forall>a b. reachable f b \<longrightarrow> Dominates d a (Some b) = Some (block_dominates f a b)) \<and>
    (\<forall>a b. \<not> reachable f b \<longrightarrow> Dominates d a (Some b) = Some (a = b))"
proof -
  obtain d p2' g where D: "Dominators pick2 p2 f' c = Some (d, p2')" "pool_clean p2'" and T: "dom_tree_of f c d g"
    using Dominators_facts[OF assms, of pick2] by blast
  have "Dominates d a (Some b) = Some (a = b)" if "\<not> reachable f b" for a b
    using dom_tree_ofD(7)[OF T that] by (subst Dominates.simps) (auto simp: Dominates.simps[of d a None])
  with D Dominators_query[OF T] show ?thesis by blast
qed

lemma example_blocks_ok: "blocks_ok example_cfg"
proof -
  have "f_Blocks example_cfg = [0, 1, 2, 3]" "length (f_arena example_cfg) = 4" by (simp_all add: example_cfg_def)
  then show ?thesis by (simp add: blocks_ok_def example_cfg_graph del: One_nat_def)
qed

theorem Dominators_correct_witness:
  "blocks_ok example_cfg \<and> (\<exists>d p. Dominators None [] (fst (snd (BuildCFG None [] example_cfg))) (fst (BuildCFG None [] example_cfg)) = Some (d, p) \<and>
     Dominates d 1 (Some 3) = Some (block_dominates example_cfg 1 3))"
  using Dominators_correct[of example_cfg "[]" "[]" None "fst (BuildCFG None [] example_cfg)"
      "fst (snd (BuildCFG None [] example_cfg))" "snd (snd (BuildCFG None [] example_cfg))" None]
    example_blocks_ok example_reachable
  by (auto simp: pool_clean_def)

text \<open>
  C3: \<open>Idom\<close> is the immediate dominator.  A reachable block other than the entry has one; it dominates
  the block strictly, and every other strict dominator of the block dominates it.  The entry has none.
\<close>

theorem Idom_immediate:
  assumes "blocks_ok f" "pool_clean p1" "pool_clean p2" "BuildCFG pick1 p1 f = (c, f', p1')"
    "Dominators pick2 p2 f' c = Some (d, p2')" "reachable f b"
  shows "if f_Start f = Some b then Idom d b = Some None
    else \<exists>p. Idom d b = Some (Some p) \<and> p \<noteq> b \<and> reachable f p \<and> block_dominates f p b \<and>
      (\<forall>a. a \<noteq> b \<longrightarrow> block_dominates f a b \<longrightarrow> block_dominates f a p)"
proof -
  obtain g where T: "dom_tree_of f c d g" using Dominators_facts[OF assms(1-4), of pick2] assms(5) by auto
  note D = dom_tree_ofD[OF T]
  obtain x where x: "x < length (cfg_RPO c)" "cfg_RPO c ! x = b" using dom_tree_index[OF T assms(6)] by blast
  obtain e where e: "f_Start f = Some e" using assms(6) by (auto simp: reachable_def)
  have "0 < length (cfg_RPO c)" using x(1) by linarith
  then have x0: "f_Start f = Some b \<longleftrightarrow> x = 0" using D(8)[OF e] e x nth_eq_iff_index_eq[OF D(2), of x 0] by auto
  show ?thesis
  proof (cases "x = 0")
    case True
    then show ?thesis using x0 D(5)[OF x(1)] x(2) by simp
  next
    case False
    let ?p = "cfg_RPO c ! g x"
    have "g x < x" using D(1) False by (simp add: is_tree_def)
    then have gx: "g x < length (cfg_RPO c)" "g x \<noteq> x" using x(1) by auto
    then have "?p \<noteq> b" "reachable f ?p" using x D(2,3) nth_mem[OF gx(1)] by (auto simp: nth_eq_iff_index_eq)
    moreover have "block_dominates f ?p b" using D(6)[OF x(1) gx(1)] anc_parent x(2) by metis
    moreover have "block_dominates f a ?p" if a: "a \<noteq> b" "block_dominates f a b" for a
    proof -
      obtain y where y: "y < length (cfg_RPO c)" "cfg_RPO c ! y = a"
        using dom_tree_index[OF T block_dominates_reach[OF assms(6) a(2)]] by blast
      then have "anc g x y" "x \<noteq> y" using D(6)[OF x(1) y(1)] x a y(2) by auto
      then show ?thesis using D(6)[OF gx(1) y(1)] anc_strict y(2) by blast
    qed
    ultimately show ?thesis using x0 False D(5)[OF x(1)] x(2) by auto
  qed
qed

theorem Idom_immediate_witness:
  "reachable example_cfg 3 \<and> (\<exists>d p. Dominators None [] (fst (snd (BuildCFG None [] example_cfg))) (fst (BuildCFG None [] example_cfg)) = Some (d, p) \<and>
     (\<exists>q. Idom d 3 = Some (Some q) \<and> q \<noteq> 3 \<and> block_dominates example_cfg q 3))"
proof -
  have b: "BuildCFG None [] example_cfg = (fst (BuildCFG None [] example_cfg), fst (snd (BuildCFG None [] example_cfg)), snd (snd (BuildCFG None [] example_cfg)))" by simp
  have cl: "pool_clean []" by (simp add: pool_clean_def)
  obtain d p g where D: "Dominators None [] (fst (snd (BuildCFG None [] example_cfg))) (fst (BuildCFG None [] example_cfg)) = Some (d, p)"
    using Dominators_facts[OF example_blocks_ok cl cl b, of None] by blast
  show ?thesis
    using Idom_immediate[OF example_blocks_ok cl cl b D example_reachable] D example_reachable
    by (auto simp: example_cfg_graph(5))
qed

end
