(* ===== verification/Liveness.thy ===== *)
theory Liveness
  imports CFG Temp_Set
begin

text \<open>
  Block-level liveness (\<open>analysis/live.go\<close>): the backward dataflow that accumulates live-in and
  live-out bit sets in place until a round changes nothing.  Sets are updated through pointers, so
  the maps of the result are threaded as state; the scratch set \<open>live\<close> is part of it.  \<open>None\<close> is a
  panic (an index out of range, a nil set) or a loop that does not end; both are excluded below.
\<close>

section \<open>The dataflow\<close>

record liveness =
  lv_In :: "bptr \<Rightarrow> tempset option"
  lv_Out :: "bptr \<Rightarrow> tempset option"

record live_state =
  ls_L :: liveness
  ls_live :: tempset
  ls_changed :: bool

definition addRef :: "ref \<Rightarrow> tempset \<Rightarrow> tempset option" where
  "addRef r s = map_option snd (ts_AddRef r s)"

text \<open>\<open>if r.IsTemp() { live.Remove(int(r.ID)) }\<close>\<close>

definition removeRef :: "ref \<Rightarrow> tempset \<Rightarrow> tempset option" where
  "removeRef r s = (if ref_IsTemp r then ts_Remove (r_ID r) s else Some s)"

text \<open>The operands a phi of a successor takes from \<open>b\<close>.\<close>

definition live_phi :: "bptr \<Rightarrow> phi \<Rightarrow> tempset \<Rightarrow> tempset option" where
  "live_phi b p = fold_opt (\<lambda>(k, pb) out.
     if pb = Some b then (if k < length (p_Args p) then addRef (p_Args p ! k) out else None) else Some out)
     (enumerate 0 (p_Blocks p))"

definition live_succ :: "func \<Rightarrow> liveness \<Rightarrow> bptr \<Rightarrow> bptr option \<Rightarrow> tempset \<Rightarrow> tempset option" where
  "live_succ f l b s out = (case s of
     None \<Rightarrow> Some out
   | Some s \<Rightarrow> Option.bind (lv_In l s) (\<lambda>ins.
       Option.bind (ts_Union out ins) (\<lambda>(_, out1). fold_opt (live_phi b) (b_Phis (blk f s)) out1)))"

definition live_instr :: "instr \<Rightarrow> tempset \<Rightarrow> tempset option" where
  "live_instr i live =
     (if op_IsLifetime (in_Op i) then Some live
      else Option.bind (removeRef (in_To i) live) (\<lambda>l1.
           Option.bind (fold_opt removeRef (instr_Defs i) l1) (\<lambda>l2.
           fold_opt addRef (instr_Uses i) l2)))"

text \<open>From the live-out set of a block to its live-in set, in the scratch set.\<close>

definition live_block :: "block \<Rightarrow> tempset \<Rightarrow> tempset option" where
  "live_block b live =
     Option.bind (addRef (j_Arg (b_Jmp b)) live) (\<lambda>l1.
     Option.bind (fold_opt addRef (j_Args (b_Jmp b)) l1) (\<lambda>l2.
     Option.bind (fold_opt live_instr (rev (b_Instrs b)) l2) (\<lambda>l3.
     fold_opt (\<lambda>p. removeRef (p_To p)) (b_Phis b) l3)))"

definition live_step :: "func \<Rightarrow> bptr \<Rightarrow> live_state \<Rightarrow> live_state option" where
  "live_step f b st = (let l = ls_L st in
     Option.bind (lv_Out l b) (\<lambda>out0.
     Option.bind (fold_opt (live_succ f l b) (cfg_Succs (blk f b)) out0) (\<lambda>out.
     Option.bind (live_block (blk f b) (ts_SetTo (ls_live st) out)) (\<lambda>live.
     Option.bind (lv_In l b) (\<lambda>in0.
     Option.bind (ts_Union in0 live) (\<lambda>(grew, in1).
     Some \<lparr>ls_L = \<lparr>lv_In = (lv_In l)(b := Some in1), lv_Out = (lv_Out l)(b := Some out)\<rparr>,
           ls_live = live, ls_changed = ls_changed st \<or> grew\<rparr>))))))"

partial_function (option) live_fix :: "func \<Rightarrow> cfg \<Rightarrow> live_state \<Rightarrow> live_state option" where
  "live_fix f c st = Option.bind (fold_opt (live_step f) (rev (cfg_RPO c)) (st\<lparr>ls_changed := False\<rparr>))
     (\<lambda>st'. if ls_changed st' then live_fix f c st' else Some st')"

declare live_fix.simps [code]

definition Liveness :: "func \<Rightarrow> cfg \<Rightarrow> liveness option" where
  "Liveness f c =
     (let nt = length (f_Temps f);
          sets = (\<lambda>b. if b \<in> set (cfg_RPO c) then Some (NewTempSet nt) else None)
      in map_option ls_L (live_fix f c
           \<lparr>ls_L = \<lparr>lv_In = sets, lv_Out = sets\<rparr>, ls_live = NewTempSet nt, ls_changed = True\<rparr>))"

definition LiveIn :: "liveness \<Rightarrow> bptr \<Rightarrow> tempset option" where
  "LiveIn l b = lv_In l b"

definition LiveOut :: "liveness \<Rightarrow> bptr \<Rightarrow> tempset option" where
  "LiveOut l b = lv_Out l b"

section \<open>What liveness means\<close>

definition ref_temps :: "ref list \<Rightarrow> nat set" where
  "ref_temps rs = {t. \<exists>r \<in> set rs. r_Kind r = RefTemp \<and> r_ID r = t}"

text \<open>Uses and definitions of an instruction; a lifetime marker has neither.\<close>

definition instr_use :: "instr \<Rightarrow> nat set" where
  "instr_use i = (if op_IsLifetime (in_Op i) then {} else ref_temps (instr_Uses i))"

definition instr_def :: "instr \<Rightarrow> nat set" where
  "instr_def i = (if op_IsLifetime (in_Op i) then {} else ref_temps (in_To i # instr_Defs i))"

text \<open>What is live before a straight-line sequence when \<open>X\<close> is live after it.\<close>

fun live_before :: "instr list \<Rightarrow> nat set \<Rightarrow> nat set" where
  "live_before [] X = X"
| "live_before (i # is) X = instr_use i \<union> (live_before is X - instr_def i)"

definition jmp_use :: "block \<Rightarrow> nat set" where
  "jmp_use b = ref_temps (j_Arg (b_Jmp b) # j_Args (b_Jmp b))"

definition phi_def :: "block \<Rightarrow> nat set" where
  "phi_def b = ref_temps (map p_To (b_Phis b))"

definition block_in :: "block \<Rightarrow> nat set \<Rightarrow> nat set" where
  "block_in b X = live_before (b_Instrs b) (X \<union> jmp_use b) - phi_def b"

text \<open>Temporaries used in a block before any definition there, and temporaries defined there.\<close>

definition block_use :: "block \<Rightarrow> nat set" where
  "block_use b = block_in b {}"

definition block_def :: "block \<Rightarrow> nat set" where
  "block_def b = (\<Union>i \<in> set (b_Instrs b). instr_def i) \<union> phi_def b"

text \<open>Operands of the phis of \<open>s\<close> that arrive from \<open>b\<close>.\<close>

definition edge_use :: "func \<Rightarrow> bptr \<Rightarrow> bptr \<Rightarrow> nat set" where
  "edge_use f b s = {t. \<exists>p \<in> set (b_Phis (blk f s)). \<exists>k < length (p_Blocks p).
     p_Blocks p ! k = Some b \<and> t \<in> ref_temps [p_Args p ! k]}"

text \<open>
  The specification: a temporary is live where some path leads to a use without a definition on the
  way.  A phi operand is used on the edge it arrives on.
\<close>

inductive live_in :: "func \<Rightarrow> bptr \<Rightarrow> nat \<Rightarrow> bool"
  and live_out :: "func \<Rightarrow> bptr \<Rightarrow> nat \<Rightarrow> bool" for f where
  use_here: "t \<in> block_use (blk f b) \<Longrightarrow> live_in f b t"
| through: "live_out f b t \<Longrightarrow> t \<notin> block_def (blk f b) \<Longrightarrow> live_in f b t"
| succ_in: "cfg_edge f b s \<Longrightarrow> live_in f s t \<Longrightarrow> live_out f b t"
| on_edge: "cfg_edge f b s \<Longrightarrow> t \<in> edge_use f b s \<Longrightarrow> live_out f b t"

lemma live_before_split:
  "live_before is X = live_before is {} \<union> (X - (\<Union>i \<in> set is. instr_def i))"
proof (induction "is")
  case (Cons i "is")
  show ?case unfolding live_before.simps list.set UN_insert by (subst Cons.IH) blast
qed simp

lemma live_before_Un: "live_before is (X \<union> Y) = live_before is X \<union> live_before is Y"
  by (subst live_before_split[of "is" X], subst live_before_split[of "is" Y], subst live_before_split[of "is" "X \<union> Y"]) blast

lemma block_in_split: "block_in b X = block_use b \<union> (X - block_def b)"
proof -
  have "live_before (b_Instrs b) (X \<union> jmp_use b) =
    live_before (b_Instrs b) (jmp_use b) \<union> (X - (\<Union>i \<in> set (b_Instrs b). instr_def i))"
    unfolding live_before_Un by (subst (1 2) live_before_split[of "b_Instrs b" "jmp_use b"], subst live_before_split[of "b_Instrs b" X]) blast
  then show ?thesis by (auto simp: block_in_def block_use_def block_def_def)
qed

section \<open>Each step does what it stands for\<close>

text \<open>Every temporary a function names fits the sets of its size.\<close>

definition block_below :: "nat \<Rightarrow> block \<Rightarrow> bool" where
  "block_below n b \<longleftrightarrow>
     ref_temps (j_Arg (b_Jmp b) # j_Args (b_Jmp b)) \<subseteq> {..<n} \<and>
     (\<forall>i \<in> set (b_Instrs b). ref_temps (in_To i # instr_Defs i @ instr_Uses i) \<subseteq> {..<n}) \<and>
     (\<forall>p \<in> set (b_Phis b). ref_temps (p_To p # p_Args p) \<subseteq> {..<n} \<and> length (p_Args p) = length (p_Blocks p))"

definition temps_below :: "nat \<Rightarrow> func \<Rightarrow> bool" where
  "temps_below n f \<longleftrightarrow> (\<forall>b \<in> set (f_arena f). block_below n b)"

lemma temps_below_blk: "temps_below n f \<Longrightarrow> block_below n (blk f b)"
proof -
  have "block_below n block0" by (simp add: block_below_def block0_def jmp0_def ref_temps_def)
  then show "temps_below n f \<Longrightarrow> block_below n (blk f b)" by (simp add: temps_below_def blk_def)
qed

definition ref_key :: "ref \<Rightarrow> nat option" where
  "ref_key r = (if r_Kind r = RefTemp then Some (r_ID r) else None)"

lemma ref_temps_key: "{i. \<exists>r \<in> set rs. ref_key r = Some i} = ref_temps rs"
  by (auto simp: ref_key_def ref_temps_def)

lemma addRef_key: "addRef r s = (case ref_key r of None \<Rightarrow> Some s | Some i \<Rightarrow> map_option snd (ts_Add i s))"
  by (simp add: addRef_def ts_AddRef_def ref_key_def)

lemma removeRef_key: "removeRef r s = (case ref_key r of None \<Rightarrow> Some s | Some i \<Rightarrow> ts_Remove i s)"
  by (simp add: removeRef_def ref_key_def ref_IsTemp_def)

lemma addRefs:
  assumes "ref_temps rs \<subseteq> {..<ts_cap s}"
  shows "\<exists>s'. fold_opt addRef rs s = Some s' \<and> ts_set s' = ts_set s \<union> ref_temps rs \<and> ts_cap s' = ts_cap s"
proof -
  have "i < ts_cap s" if "r \<in> set rs" "ref_key r = Some i" for r i
    using assms that unfolding ref_temps_key[symmetric] by blast
  then show ?thesis by (rule ts.add_all[of rs ref_key s, unfolded ref_temps_key addRef_key[symmetric]])
qed

lemma addRef1:
  assumes "ref_temps [r] \<subseteq> {..<ts_cap s}"
  shows "\<exists>s'. addRef r s = Some s' \<and> ts_set s' = ts_set s \<union> ref_temps [r] \<and> ts_cap s' = ts_cap s"
  using addRefs[OF assms] by simp

lemma removeRefs:
  assumes "ref_temps rs \<subseteq> {..<ts_cap s}"
  shows "\<exists>s'. fold_opt removeRef rs s = Some s' \<and> ts_set s' = ts_set s - ref_temps rs \<and> ts_cap s' = ts_cap s"
proof -
  have "i < ts_cap s" if "r \<in> set rs" "ref_key r = Some i" for r i
    using assms that unfolding ref_temps_key[symmetric] by blast
  then show ?thesis by (rule ts.remove_all[of rs ref_key s, unfolded ref_temps_key removeRef_key[symmetric]])
qed

lemma ref_temps_Cons: "ref_temps (r # rs) = ref_temps [r] \<union> ref_temps rs"
  by (auto simp: ref_temps_def)

lemma ref_temps_append: "ref_temps (xs @ ys) = ref_temps xs \<union> ref_temps ys"
  by (auto simp: ref_temps_def)

lemma live_instr_spec:
  assumes "ref_temps (in_To i # instr_Defs i @ instr_Uses i) \<subseteq> {..<ts_cap s}"
  shows "\<exists>s'. live_instr i s = Some s' \<and> ts_set s' = instr_use i \<union> (ts_set s - instr_def i) \<and> ts_cap s' = ts_cap s"
proof (cases "op_IsLifetime (in_Op i)")
  case True
  then show ?thesis by (simp add: live_instr_def instr_use_def instr_def_def)
next
  case False
  have sub: "ref_temps [in_To i] \<subseteq> {..<ts_cap s}" "ref_temps (instr_Defs i) \<subseteq> {..<ts_cap s}" "ref_temps (instr_Uses i) \<subseteq> {..<ts_cap s}"
    using assms by (auto simp: ref_temps_def)
  obtain s1 where s1: "removeRef (in_To i) s = Some s1" "ts_set s1 = ts_set s - ref_temps [in_To i]" "ts_cap s1 = ts_cap s"
    using removeRefs[OF sub(1)] by auto
  obtain s2 where s2: "fold_opt removeRef (instr_Defs i) s1 = Some s2" "ts_set s2 = ts_set s1 - ref_temps (instr_Defs i)" "ts_cap s2 = ts_cap s1"
    using removeRefs[of "instr_Defs i" s1] sub s1 by auto
  obtain s3 where s3: "fold_opt addRef (instr_Uses i) s2 = Some s3" "ts_set s3 = ts_set s2 \<union> ref_temps (instr_Uses i)" "ts_cap s3 = ts_cap s2"
    using addRefs[of "instr_Uses i" s2] sub s2 s1 by auto
  have "live_instr i s = Some s3" using False s1(1) s2(1) s3(1) by (simp add: live_instr_def)
  moreover have "ts_set s3 = instr_use i \<union> (ts_set s - instr_def i)"
    using False s1(2) s2(2) s3(2) ref_temps_Cons[of "in_To i" "instr_Defs i"] by (auto simp: instr_use_def instr_def_def)
  ultimately show ?thesis using s1(3) s2(3) s3(3) by simp
qed

lemma live_instrs_spec:
  assumes "\<forall>i \<in> set is. ref_temps (in_To i # instr_Defs i @ instr_Uses i) \<subseteq> {..<ts_cap s}"
  shows "\<exists>s'. fold_opt live_instr (rev is) s = Some s' \<and> ts_set s' = live_before is (ts_set s) \<and> ts_cap s' = ts_cap s"
  using assms
proof (induction "is")
  case (Cons i "is")
  then obtain s1 where s1: "fold_opt live_instr (rev is) s = Some s1" "ts_set s1 = live_before is (ts_set s)" "ts_cap s1 = ts_cap s" by auto
  with Cons.prems live_instr_spec[of i s1] show ?case by (auto simp: fold_opt_append)
qed simp

lemma live_block_spec:
  assumes "block_below (ts_cap s) b"
  shows "\<exists>s'. live_block b s = Some s' \<and> ts_set s' = block_in b (ts_set s) \<and> ts_cap s' = ts_cap s"
proof -
  have sub: "ref_temps [j_Arg (b_Jmp b)] \<subseteq> {..<ts_cap s}" "ref_temps (j_Args (b_Jmp b)) \<subseteq> {..<ts_cap s}"
    "\<forall>i \<in> set (b_Instrs b). ref_temps (in_To i # instr_Defs i @ instr_Uses i) \<subseteq> {..<ts_cap s}"
    "ref_temps (map p_To (b_Phis b)) \<subseteq> {..<ts_cap s}"
    using assms by (auto simp: block_below_def ref_temps_def)
  obtain s1 where s1: "addRef (j_Arg (b_Jmp b)) s = Some s1" "ts_set s1 = ts_set s \<union> ref_temps [j_Arg (b_Jmp b)]" "ts_cap s1 = ts_cap s"
    using addRef1[OF sub(1)] by auto
  obtain s2 where s2: "fold_opt addRef (j_Args (b_Jmp b)) s1 = Some s2" "ts_set s2 = ts_set s1 \<union> ref_temps (j_Args (b_Jmp b))" "ts_cap s2 = ts_cap s1"
    using addRefs[of "j_Args (b_Jmp b)" s1] sub s1 by auto
  obtain s3 where s3: "fold_opt live_instr (rev (b_Instrs b)) s2 = Some s3" "ts_set s3 = live_before (b_Instrs b) (ts_set s2)" "ts_cap s3 = ts_cap s2"
    using live_instrs_spec[of "b_Instrs b" s2] sub s1 s2 by auto
  obtain s4 where s4: "fold_opt removeRef (map p_To (b_Phis b)) s3 = Some s4" "ts_set s4 = ts_set s3 - ref_temps (map p_To (b_Phis b))" "ts_cap s4 = ts_cap s3"
    using removeRefs[of "map p_To (b_Phis b)" s3] sub s1 s2 s3 by auto
  have "live_block b s = Some s4" using s1(1) s2(1) s3(1) s4(1) by (simp add: live_block_def fold_opt_map)
  moreover have "ts_set s2 = ts_set s \<union> jmp_use b" using s1(2) s2(2) ref_temps_Cons[of "j_Arg (b_Jmp b)" "j_Args (b_Jmp b)"] by (auto simp: jmp_use_def)
  ultimately show ?thesis using s1(3) s2(3) s3(2,3) s4(2,3) by (simp add: block_in_def phi_def_def)
qed

lemma live_phi_spec:
  assumes "ref_temps (p_Args p) \<subseteq> {..<ts_cap s}" "length (p_Args p) = length (p_Blocks p)"
  shows "\<exists>s'. live_phi b p s = Some s' \<and> ts_cap s' = ts_cap s \<and>
    ts_set s' = ts_set s \<union> {t. \<exists>k < length (p_Blocks p). p_Blocks p ! k = Some b \<and> t \<in> ref_temps [p_Args p ! k]}"
proof -
  let ?I = "\<lambda>ys s'. ts_cap s' = ts_cap s \<and> ts_set s' = ts_set s \<union> {t. \<exists>k < length ys. p_Blocks p ! k = Some b \<and> t \<in> ref_temps [p_Args p ! k]}"
  have "\<exists>s'. live_phi b p s = Some s' \<and> ?I (enumerate 0 (p_Blocks p)) s'"
    unfolding live_phi_def
  proof (rule fold_opt_invar)
    show "?I [] s" by simp
  next
    fix x ys zs s1
    assume e: "enumerate 0 (p_Blocks p) = ys @ x # zs" and I: "?I ys s1"
    have len: "length ys < length (p_Blocks p)" using arg_cong[OF e, of length] by simp
    have x: "x = (length ys, p_Blocks p ! length ys)"
      using arg_cong[OF e, of "\<lambda>l. l ! length ys"] len by (simp add: nth_enumerate_eq)
    have "p_Args p ! length ys \<in> set (p_Args p)" using len assms(2) by simp
    then have "ref_temps [p_Args p ! length ys] \<subseteq> {..<ts_cap s1}" using assms(1) I by (auto simp: ref_temps_def)
    from addRef1[OF this] I len assms(2)
    show "\<exists>t'. (case x of (k, pb) \<Rightarrow> \<lambda>out. if pb = Some b then if k < length (p_Args p) then addRef (p_Args p ! k) out else None else Some out) s1 = Some t' \<and> ?I (ys @ [x]) t'"
      unfolding x by (auto simp: less_Suc_eq)
  qed
  then show ?thesis by simp
qed

lemma live_phis_spec:
  assumes "\<forall>p \<in> set ps. ref_temps (p_Args p) \<subseteq> {..<ts_cap s} \<and> length (p_Args p) = length (p_Blocks p)"
  shows "\<exists>s'. fold_opt (live_phi b) ps s = Some s' \<and> ts_cap s' = ts_cap s \<and>
    ts_set s' = ts_set s \<union> {t. \<exists>p \<in> set ps. \<exists>k < length (p_Blocks p). p_Blocks p ! k = Some b \<and> t \<in> ref_temps [p_Args p ! k]}"
proof (rule fold_opt_invar)
  fix p ys zs s1
  assume ps: "ps = ys @ p # zs" and I: "ts_cap s1 = ts_cap s \<and>
    ts_set s1 = ts_set s \<union> {t. \<exists>p \<in> set ys. \<exists>k < length (p_Blocks p). p_Blocks p ! k = Some b \<and> t \<in> ref_temps [p_Args p ! k]}"
  have "ref_temps (p_Args p) \<subseteq> {..<ts_cap s1}" "length (p_Args p) = length (p_Blocks p)" using assms ps I by auto
  from live_phi_spec[OF this, of b] I
  show "\<exists>t'. live_phi b p s1 = Some t' \<and> ts_cap t' = ts_cap s \<and>
    ts_set t' = ts_set s \<union> {t. \<exists>p \<in> set (ys @ [p]). \<exists>k < length (p_Blocks p). p_Blocks p ! k = Some b \<and> t \<in> ref_temps [p_Args p ! k]}"
    by auto
qed simp

lemma live_succs_spec:
  assumes below: "temps_below n f" and cap: "ts_cap out = n"
    and ins: "\<And>s. Some s \<in> set ss \<Longrightarrow> \<exists>i. lv_In l s = Some i \<and> ts_cap i = n"
  shows "\<exists>out'. fold_opt (live_succ f l b) ss out = Some out' \<and> ts_cap out' = n \<and>
    ts_set out' = ts_set out \<union> {t. \<exists>s. Some s \<in> set ss \<and> (t \<in> ts_set (the (lv_In l s)) \<or> t \<in> edge_use f b s)}"
proof (rule fold_opt_invar)
  fix x ys zs o1
  assume ss: "ss = ys @ x # zs" and I: "ts_cap o1 = n \<and>
    ts_set o1 = ts_set out \<union> {t. \<exists>s. Some s \<in> set ys \<and> (t \<in> ts_set (the (lv_In l s)) \<or> t \<in> edge_use f b s)}"
  show "\<exists>t'. live_succ f l b x o1 = Some t' \<and> ts_cap t' = n \<and>
    ts_set t' = ts_set out \<union> {t. \<exists>s. Some s \<in> set (ys @ [x]) \<and> (t \<in> ts_set (the (lv_In l s)) \<or> t \<in> edge_use f b s)}"
  proof (cases x)
    case None
    with I show ?thesis by (auto simp: live_succ_def)
  next
    case (Some s)
    obtain i where i: "lv_In l s = Some i" "ts_cap i = n" using ins[of s] ss Some by auto
    obtain o2 c where o2: "ts_Union o1 i = Some (c, o2)" "ts_set o2 = ts_set o1 \<union> ts_set i" "ts_cap o2 = n"
      using ts.union[of o1 i] I i by auto
    have "\<forall>p \<in> set (b_Phis (blk f s)). ref_temps (p_Args p) \<subseteq> {..<ts_cap o2} \<and> length (p_Args p) = length (p_Blocks p)"
      using temps_below_blk[OF below, of s] o2(3) ref_temps_Cons unfolding block_below_def by blast
    from live_phis_spec[OF this, of b] obtain o3 where o3: "fold_opt (live_phi b) (b_Phis (blk f s)) o2 = Some o3"
      "ts_cap o3 = n" "ts_set o3 = ts_set o2 \<union> edge_use f b s" using o2(3) by (auto simp: edge_use_def)
    have "live_succ f l b x o1 = Some o3" using Some i o2(1) o3(1) by (simp add: live_succ_def)
    with Some I i o2 o3 show ?thesis by auto
  qed
qed (use cap in simp)

section \<open>Rounds\<close>

abbreviation set_In :: "live_state \<Rightarrow> bptr \<Rightarrow> nat set" where
  "set_In st b \<equiv> ts_set (the (lv_In (ls_L st) b))"

abbreviation set_Out :: "live_state \<Rightarrow> bptr \<Rightarrow> nat set" where
  "set_Out st b \<equiv> ts_set (the (lv_Out (ls_L st) b))"

definition live_inv :: "func \<Rightarrow> bptr set \<Rightarrow> nat \<Rightarrow> live_state \<Rightarrow> bool" where
  "live_inv f B n st \<longleftrightarrow> ts_cap (ls_live st) = n \<and> (\<forall>b \<in> B.
     (\<exists>i. lv_In (ls_L st) b = Some i \<and> ts_cap i = n \<and> ts_set i \<subseteq> {t. live_in f b t}) \<and>
     (\<exists>o'. lv_Out (ls_L st) b = Some o' \<and> ts_cap o' = n \<and> ts_set o' \<subseteq> {t. live_out f b t}))"

lemma live_step_spec:
  assumes inv: "live_inv f B n st" and b: "b \<in> B" and closed: "\<And>s. cfg_edge f b s \<Longrightarrow> s \<in> B"
    and below: "temps_below n f"
  shows "\<exists>st'. live_step f b st = Some st' \<and> live_inv f B n st' \<and>
    (\<forall>b'. b' \<noteq> b \<longrightarrow> lv_In (ls_L st') b' = lv_In (ls_L st) b' \<and> lv_Out (ls_L st') b' = lv_Out (ls_L st) b') \<and>
    (\<forall>s. cfg_edge f b s \<longrightarrow> set_In st s \<union> edge_use f b s \<subseteq> set_Out st' b) \<and>
    set_In st' b = set_In st b \<union> block_in (blk f b) (set_Out st' b) \<and>
    (ls_changed st' \<longleftrightarrow> ls_changed st \<or> set_In st' b \<noteq> set_In st b)"
proof -
  let ?l = "ls_L st"
  obtain i0 o0 where io: "lv_In ?l b = Some i0" "ts_cap i0 = n" "ts_set i0 \<subseteq> {t. live_in f b t}"
    "lv_Out ?l b = Some o0" "ts_cap o0 = n" "ts_set o0 \<subseteq> {t. live_out f b t}"
    using inv b by (auto simp: live_inv_def)
  have edge: "cfg_edge f b s \<longleftrightarrow> Some s \<in> set (cfg_Succs (blk f b))" for s by (simp add: cfg_edge_def)
  have ins: "\<exists>i. lv_In ?l s = Some i \<and> ts_cap i = n" if "Some s \<in> set (cfg_Succs (blk f b))" for s
    using inv closed that by (auto simp: live_inv_def edge)
  obtain o1 where o1: "fold_opt (live_succ f ?l b) (cfg_Succs (blk f b)) o0 = Some o1" "ts_cap o1 = n"
    "ts_set o1 = ts_set o0 \<union> {t. \<exists>s. Some s \<in> set (cfg_Succs (blk f b)) \<and> (t \<in> set_In st s \<or> t \<in> edge_use f b s)}"
    using live_succs_spec[where ss = "cfg_Succs (blk f b)" and l = ?l and b = b, OF below io(5) ins] by blast
  have out: "ts_set o1 \<subseteq> {t. live_out f b t}"
  proof
    fix t assume "t \<in> ts_set o1"
    then consider "t \<in> ts_set o0" | s where "cfg_edge f b s" "t \<in> set_In st s" | s where "cfg_edge f b s" "t \<in> edge_use f b s"
      using o1(3) by (auto simp: edge)
    then show "t \<in> {t. live_out f b t}"
    proof cases
      case 2
      then have "live_in f s t" using inv closed[of s] by (fastforce simp: live_inv_def)
      then show ?thesis using 2 live_in_live_out.succ_in by blast
    qed (use io(6) live_in_live_out.on_edge in auto)
  qed
  have setto: "ts_set (ts_SetTo (ls_live st) o1) = ts_set o1" "ts_cap (ts_SetTo (ls_live st) o1) = n"
    using ts.setTo[of "ls_live st" o1] inv o1(2) by (auto simp: live_inv_def)
  obtain v where v: "live_block (blk f b) (ts_SetTo (ls_live st) o1) = Some v" "ts_set v = block_in (blk f b) (ts_set o1)" "ts_cap v = n"
    using live_block_spec[of "ts_SetTo (ls_live st) o1" "blk f b"] temps_below_blk[OF below, of b] setto by auto
  obtain i1 where i1: "ts_Union i0 v = Some (\<not> ts_set v \<subseteq> ts_set i0, i1)" "ts_set i1 = ts_set i0 \<union> ts_set v" "ts_cap i1 = n"
    using ts.union[of i0 v] io v by auto
  have "ts_set v \<subseteq> {t. live_in f b t}"
    unfolding v(2) block_in_split using out by (auto intro: live_in_live_out.intros)
  then have in1: "ts_set i1 \<subseteq> {t. live_in f b t}" using i1(2) io(3) by blast
  let ?st' = "\<lparr>ls_L = \<lparr>lv_In = (lv_In ?l)(b := Some i1), lv_Out = (lv_Out ?l)(b := Some o1)\<rparr>,
    ls_live = v, ls_changed = ls_changed st \<or> \<not> ts_set v \<subseteq> ts_set i0\<rparr>"
  have step: "live_step f b st = Some ?st'"
    using io o1(1) v(1) i1(1) by (simp add: live_step_def Let_def)
  have "live_inv f B n ?st'" using inv in1 out i1(3) o1(2) v(3) by (auto simp: live_inv_def)
  moreover have "ls_changed ?st' \<longleftrightarrow> ls_changed st \<or> set_In ?st' b \<noteq> set_In st b" using i1(2) io(1) by auto
  ultimately show ?thesis using step o1(3) i1(2) v(2) io(1) by (intro exI[of _ ?st']) (auto simp: edge)
qed

definition in_total :: "bptr list \<Rightarrow> live_state \<Rightarrow> nat" where
  "in_total bs st = (\<Sum>b \<in> set bs. card (set_In st b))"

lemma live_inv_total:
  assumes "live_inv f (set bs) n st"
  shows "in_total bs st \<le> card (set bs) * n"
proof -
  have "card (set_In st b) \<le> n" if b: "b \<in> set bs" for b
  proof -
    obtain i where i: "lv_In (ls_L st) b = Some i" "ts_cap i = n" using assms b unfolding live_inv_def by blast
    then have "ts_set i \<subseteq> {..<n}" using ts_set_cap[of i] by simp
    then show ?thesis using card_mono[of "{..<n}" "ts_set i"] i by simp
  qed
  then show ?thesis unfolding in_total_def using sum_bounded_above[of "set bs" "\<lambda>b. card (set_In st b)" n] by simp
qed

text \<open>Where the equations of the dataflow hold at a block.\<close>

definition settled_at :: "func \<Rightarrow> live_state \<Rightarrow> bptr \<Rightarrow> bool" where
  "settled_at f st b \<longleftrightarrow> (\<forall>s. cfg_edge f b s \<longrightarrow> set_In st s \<union> edge_use f b s \<subseteq> set_Out st b) \<and>
     block_in (blk f b) (set_Out st b) \<subseteq> set_In st b"

lemma live_round:
  assumes inv: "live_inv f (set bs) n st" "\<not> ls_changed st" and closed: "\<And>b s. b \<in> set bs \<Longrightarrow> cfg_edge f b s \<Longrightarrow> s \<in> set bs"
    and below: "temps_below n f" and dist: "distinct bs"
  shows "\<exists>st'. fold_opt (live_step f) bs st = Some st' \<and> live_inv f (set bs) n st' \<and>
    (if ls_changed st' then in_total bs st < in_total bs st' else \<forall>b \<in> set bs. settled_at f st' b)"
proof -
  let ?I = "\<lambda>ys st'. live_inv f (set bs) n st' \<and> (\<forall>b \<in> set bs. set_In st b \<subseteq> set_In st' b) \<and>
    (if ls_changed st' then \<exists>b \<in> set bs. set_In st b \<subset> set_In st' b
     else (\<forall>b. set_In st' b = set_In st b) \<and> (\<forall>b \<in> set ys. settled_at f st' b))"
  have "\<exists>st'. fold_opt (live_step f) bs st = Some st' \<and> ?I bs st'"
  proof (rule fold_opt_invar[where I = ?I])
    show "?I [] st" using inv by simp
  next
    fix b ys zs st1
    assume bs: "bs = ys @ b # zs" and I: "?I ys st1"
    have b: "b \<in> set bs" "b \<notin> set ys" using bs dist by auto
    obtain st2 where st2: "live_step f b st1 = Some st2" "live_inv f (set bs) n st2"
      "\<forall>b'. b' \<noteq> b \<longrightarrow> lv_In (ls_L st2) b' = lv_In (ls_L st1) b' \<and> lv_Out (ls_L st2) b' = lv_Out (ls_L st1) b'"
      "\<forall>s. cfg_edge f b s \<longrightarrow> set_In st1 s \<union> edge_use f b s \<subseteq> set_Out st2 b"
      "set_In st2 b = set_In st1 b \<union> block_in (blk f b) (set_Out st2 b)"
      "ls_changed st2 \<longleftrightarrow> ls_changed st1 \<or> set_In st2 b \<noteq> set_In st1 b"
      using live_step_spec[of f "set bs" n st1 b, OF _ b(1) closed[OF b(1)] below] I by blast
    have mono: "set_In st1 x \<subseteq> set_In st2 x" for x using st2(3,5) by (cases "x = b") auto
    have "if ls_changed st2 then \<exists>b \<in> set bs. set_In st b \<subset> set_In st2 b
      else (\<forall>b. set_In st2 b = set_In st b) \<and> (\<forall>b \<in> set (ys @ [b]). settled_at f st2 b)"
    proof (cases "ls_changed st2")
      case True
      then consider "ls_changed st1" | "\<not> ls_changed st1" "set_In st2 b \<noteq> set_In st1 b" using st2(6) by blast
      then have "\<exists>b \<in> set bs. set_In st b \<subset> set_In st2 b"
      proof cases
        case 1
        then show ?thesis using I mono by (metis psubset_subset_trans)
      next
        case 2
        then show ?thesis using I mono[of b] b(1) by (metis psubsetI)
      qed
      with True show ?thesis by simp
    next
      case False
      then have nc: "\<not> ls_changed st1" "set_In st2 b = set_In st1 b" using st2(6) by auto
      have same: "set_In st2 x = set_In st1 x" for x using nc(2) st2(3) by (cases "x = b") auto
      have "settled_at f st2 b" using st2(4,5) same nc(2) unfolding settled_at_def by blast
      moreover have "settled_at f st2 x" if "x \<in> set ys" for x
      proof -
        have "x \<noteq> b" using that b(2) by blast
        moreover have "settled_at f st1 x" using I nc(1) that by simp
        ultimately show ?thesis using st2(3) same by (simp add: settled_at_def)
      qed
      ultimately show ?thesis using False I nc(1) same by auto
    qed
    moreover have "\<forall>b \<in> set bs. set_In st b \<subseteq> set_In st2 b" using I mono by blast
    ultimately show "\<exists>t'. live_step f b st1 = Some t' \<and> ?I (ys @ [b]) t'" using st2(1,2) by blast
  qed
  then obtain st' where st': "fold_opt (live_step f) bs st = Some st'" "?I bs st'" by blast
  have "in_total bs st < in_total bs st'" if "ls_changed st'"
    unfolding in_total_def
  proof (rule sum_strict_mono_ex1)
    show "\<forall>b \<in> set bs. card (set_In st b) \<le> card (set_In st' b)" 
    proof
      fix b assume "b \<in> set bs"
      then have "set_In st b \<subseteq> set_In st' b" using st'(2) by blast
      then show "card (set_In st b) \<le> card (set_In st' b)" by (intro card_mono) simp_all
    qed
    show "\<exists>b \<in> set bs. card (set_In st b) < card (set_In st' b)"
    proof -
      obtain b where "b \<in> set bs" "set_In st b \<subset> set_In st' b" using st'(2) \<open>ls_changed st'\<close> by auto
      then show ?thesis using psubset_card_mono[OF finite_ts_set] by blast
    qed
  qed simp
  with st' show ?thesis by auto
qed

lemma live_fix_spec:
  assumes "live_inv f (set (cfg_RPO c)) n st" and closed: "\<And>b s. b \<in> set (cfg_RPO c) \<Longrightarrow> cfg_edge f b s \<Longrightarrow> s \<in> set (cfg_RPO c)"
    and below: "temps_below n f" and dist: "distinct (cfg_RPO c)"
  shows "\<exists>st'. live_fix f c st = Some st' \<and> live_inv f (set (cfg_RPO c)) n st' \<and> (\<forall>b \<in> set (cfg_RPO c). settled_at f st' b)"
  using assms(1)
proof (induction "card (set (cfg_RPO c)) * n - in_total (rev (cfg_RPO c)) st" arbitrary: st rule: less_induct)
  case less
  let ?bs = "rev (cfg_RPO c)"
  have inv: "live_inv f (set ?bs) n (st\<lparr>ls_changed := False\<rparr>)" using less.prems by (simp add: live_inv_def)
  have cl: "\<And>b s. b \<in> set ?bs \<Longrightarrow> cfg_edge f b s \<Longrightarrow> s \<in> set ?bs" using closed by simp
  have "\<exists>st'. fold_opt (live_step f) ?bs (st\<lparr>ls_changed := False\<rparr>) = Some st' \<and> live_inv f (set ?bs) n st' \<and>
    (if ls_changed st' then in_total ?bs (st\<lparr>ls_changed := False\<rparr>) < in_total ?bs st' else \<forall>b \<in> set ?bs. settled_at f st' b)"
    by (rule live_round[OF inv _ cl below]) (use dist in simp_all)
  then obtain st1 where st1: "fold_opt (live_step f) ?bs (st\<lparr>ls_changed := False\<rparr>) = Some st1" "live_inv f (set ?bs) n st1"
    "if ls_changed st1 then in_total ?bs (st\<lparr>ls_changed := False\<rparr>) < in_total ?bs st1 else \<forall>b \<in> set ?bs. settled_at f st1 b"
    by blast
  show ?case
  proof (cases "ls_changed st1")
    case False
    then have "live_fix f c st = Some st1" using st1(1) by (subst live_fix.simps) simp
    with False st1 show ?thesis by auto
  next
    case True
    then have rec: "live_fix f c st = live_fix f c st1" using st1(1) by (subst live_fix.simps) simp
    have "in_total ?bs st < in_total ?bs st1" using True st1(3) by (simp add: in_total_def)
    moreover have "in_total ?bs st1 \<le> card (set (cfg_RPO c)) * n" using live_inv_total[OF st1(2)] by simp
    ultimately have "card (set (cfg_RPO c)) * n - in_total ?bs st1 < card (set (cfg_RPO c)) * n - in_total ?bs st" by linarith
    from less.hyps[OF this] st1(2) rec show ?thesis by simp
  qed
qed

lemma settled_complete:
  assumes settled: "\<forall>b \<in> B. settled_at f st b" and closed: "\<And>b s. b \<in> B \<Longrightarrow> cfg_edge f b s \<Longrightarrow> s \<in> B"
  shows "live_in f b t \<Longrightarrow> b \<in> B \<Longrightarrow> t \<in> set_In st b" "live_out f b t \<Longrightarrow> b \<in> B \<Longrightarrow> t \<in> set_Out st b"
proof (induction rule: live_in_live_out.inducts)
  case (use_here t b)
  then show ?case using settled by (auto simp: settled_at_def block_in_split)
next
  case (through b t)
  then show ?case using settled by (auto simp: settled_at_def block_in_split)
next
  case (succ_in b s t)
  then show ?case using settled closed by (auto simp: settled_at_def)
next
  case (on_edge b s t)
  then show ?case using settled by (auto simp: settled_at_def)
qed

lemma Liveness_spec:
  assumes "c = computeRPO f []" "temps_below (length (f_Temps f)) f"
  shows "\<exists>l. Liveness f c = Some l \<and> (\<forall>b \<in> set (cfg_RPO c). \<exists>i o'. LiveIn l b = Some i \<and> LiveOut l b = Some o' \<and>
    ts_set i = {t. live_in f b t} \<and> ts_set o' = {t. live_out f b t} \<and> ts_cap o' = ts_cap (NewTempSet (length (f_Temps f))))"
proof -
  let ?nt = "length (f_Temps f)"
  let ?n = "ts_cap (NewTempSet ?nt)"
  let ?sets = "\<lambda>b. if b \<in> set (cfg_RPO c) then Some (NewTempSet ?nt) else None"
  let ?init = "\<lparr>ls_L = \<lparr>lv_In = ?sets, lv_Out = ?sets\<rparr>, ls_live = NewTempSet ?nt, ls_changed = True\<rparr>"
  have closed: "\<And>b s. b \<in> set (cfg_RPO c) \<Longrightarrow> cfg_edge f b s \<Longrightarrow> s \<in> set (cfg_RPO c)"
    using walk.succ_in_rpo[of _ f] assms(1) by simp
  have "block_below ?n b" if "block_below ?nt b" for b
    using that ts_cap_New(1)[of ?nt] unfolding block_below_def by (meson lessThan_subset_iff order_trans)
  then have below: "temps_below ?n f" using assms(2) by (simp add: temps_below_def)
  have inv: "live_inv f (set (cfg_RPO c)) ?n ?init" by (simp add: live_inv_def)
  have dist: "distinct (cfg_RPO c)" using walk.distinct_rpo[of f] assms(1) by simp
  have "\<exists>st. live_fix f c ?init = Some st \<and> live_inv f (set (cfg_RPO c)) ?n st \<and> (\<forall>b \<in> set (cfg_RPO c). settled_at f st b)"
    by (rule live_fix_spec) (use inv closed below dist in blast)+
  then obtain st where st: "live_fix f c ?init = Some st" "live_inv f (set (cfg_RPO c)) ?n st" "\<forall>b \<in> set (cfg_RPO c). settled_at f st b" by blast
  have compl: "live_in f b t \<Longrightarrow> b \<in> set (cfg_RPO c) \<Longrightarrow> t \<in> set_In st b" "live_out f b t \<Longrightarrow> b \<in> set (cfg_RPO c) \<Longrightarrow> t \<in> set_Out st b" for b t
    using settled_complete[of "set (cfg_RPO c)" f st b t] st(3) closed by blast+
  have "\<exists>i o'. LiveIn (ls_L st) b = Some i \<and> LiveOut (ls_L st) b = Some o' \<and>
    ts_set i = {t. live_in f b t} \<and> ts_set o' = {t. live_out f b t} \<and> ts_cap o' = ?n" if b: "b \<in> set (cfg_RPO c)" for b
  proof -
    obtain i o' where io: "lv_In (ls_L st) b = Some i" "ts_set i \<subseteq> {t. live_in f b t}" "lv_Out (ls_L st) b = Some o'" "ts_set o' \<subseteq> {t. live_out f b t}" "ts_cap o' = ?n"
      using st(2) b unfolding live_inv_def by blast
    moreover have "{t. live_in f b t} \<subseteq> ts_set i" "{t. live_out f b t} \<subseteq> ts_set o'"
      using compl b io(1,3) by fastforce+
    ultimately show ?thesis by (auto simp: LiveIn_def LiveOut_def)
  qed
  moreover have "Liveness f c = Some (ls_L st)" using st(1) by (simp add: Liveness_def Let_def)
  ultimately show ?thesis by blast
qed

text \<open>
  C8: \<open>Liveness\<close> returns (the rounds end, no set is nil and no index out of range), and for every
  block of the CFG its sets hold exactly the temporaries that are live there: those from which some
  path reaches a use with no definition on the way, a phi operand being used on its edge and a phi
  result defined at the top of its block.
\<close>

theorem Liveness_exact:
  assumes "c = computeRPO f []" "temps_below (length (f_Temps f)) f"
  shows "\<exists>l. Liveness f c = Some l \<and> (\<forall>b \<in> set (cfg_RPO c). \<exists>i o'. LiveIn l b = Some i \<and> LiveOut l b = Some o' \<and>
    ts_set i = {t. live_in f b t} \<and> ts_set o' = {t. live_out f b t})"
  using Liveness_spec[OF assms] by blast

text \<open>
  A loop: block 0 jumps to 1; block 1 takes temp 0 or temp 1 through a phi into temp 2, computes
  temp 1 from it and branches back to itself or on to 2, which returns temp 1.
\<close>

definition example_loop :: func where
  "example_loop = (let t = \<lparr>t_ID = 0, t_Name = [], t_Cls = ClsW, t_Slot = -1, t_Reg = NoReg, t_Fixed = False,
       t_Agg = None, t_GCRef = False, t_GCType = 0, t_ClosureContext = False\<rparr> in
     func0\<lparr>f_Start := Some 0, f_Blocks := [0, 1, 2], f_Temps := [t, t, t], f_Params := [0], f_arena := [
     block0\<lparr>b_Jmp := jmp0\<lparr>j_Kind := JmpJmp, j_To := Some 1\<rparr>\<rparr>,
     block0\<lparr>b_Phis := [\<lparr>p_Cls = ClsW, p_To = tempRef 2, p_Args = [tempRef 0, tempRef 1], p_Blocks = [Some 0, Some 1]\<rparr>],
       b_Instrs := [instr0\<lparr>in_Op := OAdd, in_To := tempRef 1, in_Args := [tempRef 2, tempRef 0]\<rparr>],
       b_Jmp := jmp0\<lparr>j_Kind := JmpJnz, j_Arg := tempRef 1, j_To := Some 1, j_To2 := Some 2\<rparr>\<rparr>,
     block0\<lparr>b_Jmp := jmp0\<lparr>j_Kind := JmpRet, j_Arg := tempRef 1\<rparr>\<rparr>]\<rparr>)"

lemma example_loop_below: "temps_below (length (f_Temps example_loop)) example_loop"
  by (auto simp: example_loop_def Let_def temps_below_def block_below_def ref_temps_def func0_def block0_def jmp0_def
      instr0_def instr_Defs_def instr_Uses_def instr_ClosureContext_def tempRef_def R_def ref_IsNone_def)

lemma example_loop_entry: "0 \<in> set (cfg_RPO (computeRPO example_loop []))"
  by (rule walk.entry_in_rpo) (simp add: example_loop_def Let_def)

theorem Liveness_exact_witness:
  "temps_below (length (f_Temps example_loop)) example_loop \<and>
   (\<exists>l i. Liveness example_loop (computeRPO example_loop []) = Some l \<and> LiveIn l 0 = Some i \<and>
     ts_set i = {t. live_in example_loop 0 t})"
  using Liveness_exact[OF refl example_loop_below] example_loop_entry example_loop_below by blast

end
