(* ===== verification/Dom_Frontier.thy ===== *)
theory Dom_Frontier
  imports Dominators
begin

text \<open>
  Dominance frontiers and their iteration (\<open>analysis/df.go\<close>).  A \<open>BlockSet\<close> is a set of block
  pointers; Go ranges over maps in an unspecified order, which an argument \<open>ord\<close> resolves.
\<close>

section \<open>The algorithm\<close>

type_synonym frontier = "bptr \<Rightarrow> bptr set"

text \<open>\<open>for runner := p; runner != nil && runner != idb; runner = dom.Idom(runner) { add(runner, b) }\<close>\<close>

partial_function (option) df_run :: "domtree \<Rightarrow> bptr option \<Rightarrow> bptr \<Rightarrow> bptr option \<Rightarrow> frontier \<Rightarrow> frontier option" where
  "df_run d idb b runner df = (case runner of
     None \<Rightarrow> Some df
   | Some r \<Rightarrow> if idb = Some r then Some df
       else Option.bind (Idom d r) (\<lambda>next. df_run d idb b next (df(r := insert b (df r)))))"

declare df_run.simps [code]

definition df_block :: "func \<Rightarrow> domtree \<Rightarrow> bptr \<Rightarrow> frontier \<Rightarrow> frontier option" where
  "df_block f d b df =
     (if length (b_Preds (blk f b)) < 2 then Some df
      else Option.bind (Idom d b) (\<lambda>idb.
        fold_opt (\<lambda>p. df_run d idb b (Some p)) (b_Preds (blk f b)) df))"

definition DominanceFrontier :: "func \<Rightarrow> cfg \<Rightarrow> domtree \<Rightarrow> frontier option" where
  "DominanceFrontier f c d = fold_opt (df_block f d) (cfg_RPO c) (\<lambda>_. {})"

text \<open>The body of the worklist loop: the frontier of a block, in map order.\<close>

definition idf_visit :: "bptr list \<Rightarrow> bptr list \<times> bptr set \<Rightarrow> bptr list \<times> bptr set" where
  "idf_visit = fold (\<lambda>d (work, result). if d \<in> result then (work, result) else (d # work, insert d result))"

text \<open>
  \<open>for len(work) > 0\<close>: pop a block, visit what follows it.  The same loop drives the search for the
  body of a natural loop.
\<close>

partial_function (option) worklist :: "(bptr \<Rightarrow> bptr list) \<Rightarrow> bptr list \<Rightarrow> bptr set \<Rightarrow> bptr set option" where
  "worklist follow work result = (case work of
     [] \<Rightarrow> Some result
   | b # rest \<Rightarrow> (case idf_visit (follow b) (rest, result) of (work', result') \<Rightarrow> worklist follow work' result'))"

declare worklist.simps [code]

definition IteratedFrontier :: "(bptr set \<Rightarrow> bptr list) \<Rightarrow> frontier \<Rightarrow> bptr set \<Rightarrow> bptr set option" where
  "IteratedFrontier ord df defs = worklist (\<lambda>b. ord (df b)) (rev (ord defs)) {}"

section \<open>Runners\<close>

lemma df_run_spec:
  assumes T: "dom_tree_of f c d g" and x: "x < length (cfg_RPO c)"
    and stop: "idb = None \<or> (\<exists>z < length (cfg_RPO c). idb = Some (cfg_RPO c ! z) \<and> anc g x z)"
  shows "\<exists>df'. df_run d idb b (Some (cfg_RPO c ! x)) df = Some df' \<and>
    (\<forall>r. df' r = df r \<union> {y. y = b \<and> (\<exists>k. r = cfg_RPO c ! k \<and> anc g x k \<and> (\<forall>z < length (cfg_RPO c). idb = Some (cfg_RPO c ! z) \<longrightarrow> \<not> anc g z k))})"
  using x stop
proof (induction x arbitrary: df rule: less_induct)
  case (less x)
  note D = dom_tree_ofD[OF T]
  let ?rpo = "cfg_RPO c"
  show ?case
  proof (cases "idb = Some (?rpo ! x)")
    case True
    have "anc g z k" if "anc g x k" "z < length ?rpo" "idb = Some (?rpo ! z)" for z k
      using that True less.prems(1) D(2) by (simp add: nth_eq_iff_index_eq)
    then show ?thesis using True less.prems(1) by (subst df_run.simps) auto
  next
    case False
    let ?df = "df(?rpo ! x := insert b (df (?rpo ! x)))"
    have here: "anc g x k \<longleftrightarrow> k = x \<or> (x \<noteq> 0 \<and> anc g (g x) k)" for k
      using anc_unfold[of g x k] anc_0[OF D(1)] D(1) by (cases "x = 0") (auto simp: is_tree_def)
    have notup: "\<not> anc g z x" if z: "z < length ?rpo" "idb = Some (?rpo ! z)" for z
    proof
      assume "anc g z x"
      moreover have "anc g x z" using less.prems(2) z D(2) by (auto simp: nth_eq_iff_index_eq)
      ultimately have "z = x" using anc_antisym[OF D(1)] by blast
      with z False show False by simp
    qed
    show ?thesis
    proof (cases "x = 0")
      case True
      have "df_run d idb b (Some (?rpo ! x)) df = Some ?df"
        using False D(5)[OF less.prems(1)] True by (subst df_run.simps) (simp add: df_run.simps[of d idb b None])
      then show ?thesis using True here notup by auto
    next
      case False': False
      then have gx: "g x < x" using D(1) by (simp add: is_tree_def)
      have st: "idb = None \<or> (\<exists>z < length ?rpo. idb = Some (?rpo ! z) \<and> anc g (g x) z)"
        using less.prems(2) False anc_strict by blast
      have run: "df_run d idb b (Some (?rpo ! x)) df = df_run d idb b (Some (?rpo ! g x)) ?df"
        using False D(5)[OF less.prems(1)] False' by (subst df_run.simps) simp
      obtain df' where df': "df_run d idb b (Some (?rpo ! g x)) ?df = Some df'"
        "\<forall>r. df' r = ?df r \<union> {y. y = b \<and> (\<exists>k. r = ?rpo ! k \<and> anc g (g x) k \<and> (\<forall>z < length ?rpo. idb = Some (?rpo ! z) \<longrightarrow> \<not> anc g z k))}"
        using less.IH[OF gx D(4)[OF less.prems(1)] st, of ?df] by blast
      show ?thesis unfolding run using df' here notup False' by auto
    qed
  qed
qed

lemma df_run_unreachable:
  assumes T: "dom_tree_of f c d g" and p: "\<not> reachable f p" "idb \<noteq> Some p"
  shows "df_run d idb b (Some p) df = Some (df(p := insert b (df p)))"
  using p dom_tree_ofD(7)[OF T p(1)]
  by (subst df_run.simps) (simp add: df_run.simps[of d idb b None])

lemma block_dominates_pred:
  assumes "block_dominates f a b" "a \<noteq> b" "cfg_edge f p b"
  shows "block_dominates f a p"
  unfolding block_dominates_def
proof (intro allI impI)
  fix q assume q: "cfg_path f q \<and> last q = p"
  then have "q \<noteq> []" by (simp add: cfg_path_def)
  then have "cfg_path f (q @ [b])" using q assms(3) by (simp add: cfg_path_snoc)
  then have "a \<in> set (q @ [b])" using assms(1) unfolding block_dominates_def by (metis last_snoc)
  then show "a \<in> set q" using assms(2) by simp
qed

lemma single_pred_dominates:
  assumes "f_Start f \<noteq> Some b" "\<And>q. reachable f q \<Longrightarrow> cfg_edge f q b \<Longrightarrow> q = p"
  shows "block_dominates f p b"
  unfolding block_dominates_def
proof (intro allI impI)
  fix q assume q: "cfg_path f q \<and> last q = b"
  then obtain q' where q': "q = q' @ [b]" by (metis append_butlast_last_id cfg_path_def)
  then have "q' \<noteq> []" using q assms(1) by (auto simp: cfg_path_def)
  then have "cfg_path f q'" "cfg_edge f (last q') b" using q q' by (simp_all add: cfg_path_snoc)
  moreover have "reachable f (last q')" using cfg_path_reach[OF calculation(1)] \<open>q' \<noteq> []\<close> by simp
  ultimately have "last q' = p" using assms(2) by blast
  then show "p \<in> set q" using q' \<open>q' \<noteq> []\<close> by (metis Un_iff last_in_set set_append)
qed

section \<open>The frontier by paths\<close>

text \<open>
  The definition: \<open>y\<close> is in the dominance frontier of \<open>x\<close> when \<open>x\<close> dominates a predecessor of \<open>y\<close> but
  does not strictly dominate \<open>y\<close>.
\<close>

definition in_frontier :: "func \<Rightarrow> bptr \<Rightarrow> bptr \<Rightarrow> bool" where
  "in_frontier f x y \<longleftrightarrow> (\<exists>p. reachable f p \<and> cfg_edge f p y \<and> block_dominates f x p) \<and>
     \<not> (x \<noteq> y \<and> block_dominates f x y)"

text \<open>The blocks the scan considers: the entry counts only when it has two predecessors.\<close>

definition scanned :: "func \<Rightarrow> bptr \<Rightarrow> bool" where
  "scanned f y \<longleftrightarrow> f_Start f \<noteq> Some y \<or> 2 \<le> length (filter (\<lambda>b. cfg_edge f b y) (f_Blocks f))"

lemma preds_eq:
  assumes T: "dom_tree_of f c d g" and ok: "blocks_ok f" and j: "j < length (cfg_RPO c)"
  shows "b_Preds (blk (fillPreds f) (cfg_RPO c ! j)) = filter (\<lambda>b. cfg_edge f b (cfg_RPO c ! j)) (f_Blocks f)"
proof -
  have "reachable f (cfg_RPO c ! j)" using nth_mem[OF j] dom_tree_ofD(3)[OF T] by blast
  then have "cfg_RPO c ! j \<in> set (f_Blocks f)" by (rule blocks_ok_reach[OF ok])
  then show ?thesis using fillPreds_preds[of f "cfg_RPO c ! j"] ok by (auto simp: blocks_ok_def)
qed

lemma stop_reached:
  assumes "0 < j" "j < length (cfg_RPO c)" "x < length (cfg_RPO c)" "cfg_edge f (cfg_RPO c ! x) (cfg_RPO c ! j)"
    and T: "dom_tree_of f c d g"
  shows "anc g x (g j)"
proof -
  note D = dom_tree_ofD[OF T]
  have gj: "g j < j" "g j < length (cfg_RPO c)" using D(1) D(4)[OF assms(2)] assms(1) by (auto simp: is_tree_def)
  have "block_dominates f (cfg_RPO c ! g j) (cfg_RPO c ! j)" using D(6)[OF assms(2) gj(2)] anc_parent by metis
  moreover have "cfg_RPO c ! g j \<noteq> cfg_RPO c ! j" using gj assms(2) D(2) by (simp add: nth_eq_iff_index_eq)
  ultimately show ?thesis using D(6)[OF assms(3) gj(2)] block_dominates_pred assms(4) by blast
qed

lemma strict_dom_iff:
  assumes "j < length (cfg_RPO c)" "k < length (cfg_RPO c)" and T: "dom_tree_of f c d g"
  shows "cfg_RPO c ! k \<noteq> cfg_RPO c ! j \<and> block_dominates f (cfg_RPO c ! k) (cfg_RPO c ! j) \<longleftrightarrow> 0 < j \<and> anc g (g j) k"
proof -
  note D = dom_tree_ofD[OF T]
  have "cfg_RPO c ! k \<noteq> cfg_RPO c ! j \<longleftrightarrow> k \<noteq> j" using assms D(2) by (simp add: nth_eq_iff_index_eq)
  moreover have "k \<noteq> j \<and> anc g j k \<longleftrightarrow> 0 < j \<and> anc g (g j) k"
  proof (cases "j = 0")
    case True
    then show ?thesis using anc_0[OF D(1)] by auto
  next
    case False
    then have "g j < j" using D(1) by (simp add: is_tree_def)
    moreover have "k \<le> g j" if "anc g (g j) k" using anc_le[OF that D(1)] .
    ultimately show ?thesis using False anc_unfold[of g j k] by auto
  qed
  ultimately show ?thesis using D(6)[OF assms(1,2)] by blast
qed

lemma other_pred:
  assumes "reachable f b" "f_Start f \<noteq> Some b"
  shows "\<exists>p. reachable f p \<and> cfg_edge f p b \<and> p \<noteq> b"
proof (rule ccontr)
  assume n: "\<nexists>p. reachable f p \<and> cfg_edge f p b \<and> p \<noteq> b"
  have "cfg_path f q \<Longrightarrow> last q \<noteq> b" for q
  proof (induction q rule: rev_induct)
    case (snoc z q)
    show ?case
    proof (cases "q = []")
      case True
      then show ?thesis using snoc.prems assms(2) by (auto simp: cfg_path_def)
    next
      case False
      then have "cfg_path f q" "cfg_edge f (last q) z" using snoc.prems by (simp_all add: cfg_path_snoc)
      moreover have "reachable f (last q)" using cfg_path_reach[OF calculation(1)] False by simp
      ultimately show ?thesis using snoc.IH n by auto
    qed
  qed (simp add: cfg_path_def)
  then show False using reachable_path[OF assms(1)] by blast
qed

lemma df_block_spec:
  assumes T: "dom_tree_of f c d g" and ok: "blocks_ok f" and j: "j < length (cfg_RPO c)"
  shows "\<exists>df'. df_block (fillPreds f) d (cfg_RPO c ! j) df = Some df' \<and>
    (\<forall>k < length (cfg_RPO c). df' (cfg_RPO c ! k) = df (cfg_RPO c ! k) \<union>
       {y. y = cfg_RPO c ! j \<and> scanned f y \<and> in_frontier f (cfg_RPO c ! k) y})"
proof -
  note D = dom_tree_ofD[OF T]
  let ?b = "cfg_RPO c ! j" and ?ps = "b_Preds (blk (fillPreds f) (cfg_RPO c ! j))"
  let ?idb = "if j = 0 then None else Some (cfg_RPO c ! g j)"
  have idb: "Idom d ?b = Some ?idb" by (rule D(5)[OF j])
  have preach: "reachable f p \<longleftrightarrow> p \<in> set (cfg_RPO c)" for p using D(3) by blast
  have pin: "cfg_edge f p ?b \<longleftrightarrow> p \<in> set ?ps" if "reachable f p" for p
    using that preds_eq[OF T ok j] blocks_ok_reach[OF ok] by auto
  have frontier_iff: "in_frontier f (cfg_RPO c ! k) ?b \<longleftrightarrow>
    (\<exists>x < length (cfg_RPO c). cfg_RPO c ! x \<in> set ?ps \<and> anc g x k \<and> \<not> (0 < j \<and> anc g (g j) k))" if k: "k < length (cfg_RPO c)" for k
  proof -
    have "(\<exists>p. reachable f p \<and> cfg_edge f p ?b \<and> block_dominates f (cfg_RPO c ! k) p) \<longleftrightarrow>
      (\<exists>x < length (cfg_RPO c). cfg_RPO c ! x \<in> set ?ps \<and> anc g x k)"
      using D(6) k pin preach by (metis in_set_conv_nth)
    then show ?thesis unfolding in_frontier_def using strict_dom_iff[OF j k T] by blast
  qed
  show ?thesis
  proof (cases "length ?ps < 2")
    case True
    have "\<not> (scanned f ?b \<and> in_frontier f (cfg_RPO c ! k) ?b)" if k: "k < length (cfg_RPO c)" for k
    proof
      assume a: "scanned f ?b \<and> in_frontier f (cfg_RPO c ! k) ?b"
      then have ns: "f_Start f \<noteq> Some ?b" using True preds_eq[OF T ok j] by (auto simp: scanned_def)
      obtain x where x: "x < length (cfg_RPO c)" "cfg_RPO c ! x \<in> set ?ps" "anc g x k" "\<not> (0 < j \<and> anc g (g j) k)"
        using a frontier_iff[OF k] by blast
      have "?ps = [cfg_RPO c ! x]" using x(2) True by (cases ?ps) auto
      then have only: "\<And>q. reachable f q \<Longrightarrow> cfg_edge f q ?b \<Longrightarrow> q = cfg_RPO c ! x" using pin by auto
      have j0: "0 < j"
      proof (rule ccontr)
        assume "\<not> 0 < j"
        moreover obtain e where "f_Start f = Some e" using nth_mem[OF j] preach by (auto simp: reachable_def)
        ultimately show False using D(8) ns by auto
      qed
      have "anc g j x" using D(6)[OF j x(1)] single_pred_dominates[OF ns only] by blast
      moreover have "x \<noteq> j"
      proof
        assume "x = j"
        moreover have "reachable f ?b" using nth_mem[OF j] preach by blast
        ultimately show False using only other_pred[OF _ ns] by blast
      qed
      ultimately have "anc g (g j) x" using anc_strict by blast
      then show False using anc_trans x(3,4) j0 by blast
    qed
    then show ?thesis using True by (auto simp: df_block_def)
  next
    case False
    have sc: "scanned f ?b" using False preds_eq[OF T ok j] by (simp add: scanned_def)
    let ?I = "\<lambda>ys df'. \<forall>k < length (cfg_RPO c). df' (cfg_RPO c ! k) = df (cfg_RPO c ! k) \<union>
      {y. y = ?b \<and> (\<exists>x < length (cfg_RPO c). cfg_RPO c ! x \<in> set ys \<and> anc g x k \<and> \<not> (0 < j \<and> anc g (g j) k))}"
    have "\<exists>df'. fold_opt (\<lambda>p. df_run d ?idb ?b (Some p)) ?ps df = Some df' \<and> ?I ?ps df'"
    proof (rule fold_opt_invar[where I = ?I])
      show "?I [] df" by simp
    next
      fix p ys zs df1
      assume ps: "?ps = ys @ p # zs" and I: "?I ys df1"
      show "\<exists>df2. df_run d ?idb ?b (Some p) df1 = Some df2 \<and> ?I (ys @ [p]) df2"
      proof (cases "p \<in> set (cfg_RPO c)")
        case False
        have "?idb \<noteq> Some p" using False D(4)[OF j] nth_mem by auto
        then have "df_run d ?idb ?b (Some p) df1 = Some (df1(p := insert ?b (df1 p)))"
          using df_run_unreachable[OF T] False preach by blast
        moreover have "cfg_RPO c ! k \<noteq> p" if "k < length (cfg_RPO c)" for k using False that nth_mem by blast
        ultimately show ?thesis using I by auto
      next
        case True
        then obtain x where x: "x < length (cfg_RPO c)" "cfg_RPO c ! x = p" by (metis in_set_conv_nth)
        have edge: "cfg_edge f (cfg_RPO c ! x) ?b" using ps pin True x preach by auto
        have idx: "cfg_RPO c ! z = cfg_RPO c ! g j \<longleftrightarrow> z = g j" if "z < length (cfg_RPO c)" for z
          using that D(2) D(4)[OF j] by (simp add: nth_eq_iff_index_eq)
        have stop: "?idb = None \<or> (\<exists>z < length (cfg_RPO c). ?idb = Some (cfg_RPO c ! z) \<and> anc g x z)"
          using stop_reached[OF _ j x(1) edge T] D(4)[OF j] by auto
        obtain df2 where df2: "df_run d ?idb ?b (Some (cfg_RPO c ! x)) df1 = Some df2"
          "\<forall>r. df2 r = df1 r \<union> {y. y = ?b \<and> (\<exists>k. r = cfg_RPO c ! k \<and> anc g x k \<and> (\<forall>z < length (cfg_RPO c). ?idb = Some (cfg_RPO c ! z) \<longrightarrow> \<not> anc g z k))}"
          using df_run_spec[OF T x(1) stop, of ?b df1] by blast
        have kx: "k < length (cfg_RPO c)" if "anc g x k" for k using anc_le[OF that D(1)] x(1) by simp
        have up: "(\<forall>z < length (cfg_RPO c). ?idb = Some (cfg_RPO c ! z) \<longrightarrow> \<not> anc g z k) \<longleftrightarrow> \<not> (0 < j \<and> anc g (g j) k)" for k
          using idx D(4)[OF j] by (auto simp: eq_commute[of "cfg_RPO c ! g j"])
        have "df2 (cfg_RPO c ! k) = df1 (cfg_RPO c ! k) \<union> {y. y = ?b \<and> anc g x k \<and> \<not> (0 < j \<and> anc g (g j) k)}" if "k < length (cfg_RPO c)" for k
          using df2(2) that kx up D(2) by (auto simp: nth_eq_iff_index_eq)
        then show ?thesis using df2(1) I x D(2) by (auto simp: nth_eq_iff_index_eq)
      qed
    qed
    then obtain df' where df': "fold_opt (\<lambda>p. df_run d ?idb ?b (Some p)) ?ps df = Some df'" "?I ?ps df'" by blast
    have "df_block (fillPreds f) d ?b df = Some df'" using False idb df'(1) by (simp add: df_block_def)
    then show ?thesis using df'(2) frontier_iff sc by auto
  qed
qed

lemma DominanceFrontier_spec:
  assumes T: "dom_tree_of f c d g" and ok: "blocks_ok f"
  shows "\<exists>df. DominanceFrontier (fillPreds f) c d = Some df \<and>
    (\<forall>x y. reachable f x \<longrightarrow> (y \<in> df x \<longleftrightarrow> reachable f y \<and> scanned f y \<and> in_frontier f x y))"
proof -
  note D = dom_tree_ofD[OF T]
  let ?I = "\<lambda>ys df. \<forall>k < length (cfg_RPO c). df (cfg_RPO c ! k) = {y \<in> set ys. scanned f y \<and> in_frontier f (cfg_RPO c ! k) y}"
  have "\<exists>df. fold_opt (df_block (fillPreds f) d) (cfg_RPO c) (\<lambda>_. {}) = Some df \<and> ?I (cfg_RPO c) df"
  proof (rule fold_opt_invar[where I = ?I])
    fix b ys zs df
    assume split: "cfg_RPO c = ys @ b # zs" and I: "?I ys df"
    have "b \<in> set (cfg_RPO c)" by (simp add: split)
    then obtain j where j: "j < length (cfg_RPO c)" "b = cfg_RPO c ! j" by (metis in_set_conv_nth)
    from df_block_spec[OF T ok j(1), of df] I
    show "\<exists>t'. df_block (fillPreds f) d b df = Some t' \<and> ?I (ys @ [b]) t'" unfolding j(2) by auto
  qed simp
  then obtain df where df: "DominanceFrontier (fillPreds f) c d = Some df" "?I (cfg_RPO c) df"
    by (auto simp: DominanceFrontier_def)
  have "y \<in> df x \<longleftrightarrow> reachable f y \<and> scanned f y \<and> in_frontier f x y" if "reachable f x" for x y
  proof -
    obtain k where "k < length (cfg_RPO c)" "cfg_RPO c ! k = x" using dom_tree_index[OF T \<open>reachable f x\<close>] by blast
    with df(2) D(3) show ?thesis by auto
  qed
  with df(1) show ?thesis by blast
qed

text \<open>
  C4: \<open>DominanceFrontier\<close> returns, and for every reachable \<open>x\<close> it lists exactly the blocks \<open>y\<close> whose
  predecessor \<open>x\<close> dominates while not strictly dominating \<open>y\<close>, among the blocks the scan considers:
  every block other than the entry, and the entry if it has at least two predecessors.  In
  particular skipping blocks with a single predecessor loses nothing elsewhere.
\<close>

theorem DominanceFrontier_exact:
  assumes "blocks_ok f" "pool_clean p1" "pool_clean p2" "BuildCFG pick1 p1 f = (c, f', p1')"
    "Dominators pick2 p2 f' c = Some (d, p2')"
  shows "\<exists>df. DominanceFrontier f' c d = Some df \<and>
    (\<forall>x y. reachable f x \<longrightarrow> (y \<in> df x \<longleftrightarrow> reachable f y \<and> scanned f y \<and> in_frontier f x y))"
proof -
  obtain g where "dom_tree_of f c d g" using Dominators_facts[OF assms(1-4), of pick2] assms(5) by auto
  from DominanceFrontier_spec[OF this assms(1)] show ?thesis using BuildCFG_clean[OF assms(2,4)] by simp
qed

text \<open>The construction applied to a function, with fresh maps.\<close>

definition frontier_of :: "func \<Rightarrow> frontier option" where
  "frontier_of f = (case BuildCFG None [] f of (c, f', _) \<Rightarrow>
     Option.bind (Dominators None [] f' c) (\<lambda>(d, _). DominanceFrontier f' c d))"

lemma frontier_of_build:
  assumes "blocks_ok f"
  obtains c f' p1' d p2' where "BuildCFG None [] f = (c, f', p1')" "Dominators None [] f' c = Some (d, p2')"
    "frontier_of f = DominanceFrontier f' c d"
proof -
  have cl: "pool_clean []" by (simp add: pool_clean_def)
  obtain c f' p1' where b: "BuildCFG None [] f = (c, f', p1')" by (metis prod_cases3)
  obtain d p2' where "Dominators None [] f' c = Some (d, p2')" using Dominators_facts[OF assms cl cl b, of None] by blast
  with b that show ?thesis by (simp add: frontier_of_def)
qed

theorem DominanceFrontier_exact_witness:
  "blocks_ok example_cfg \<and> reachable example_cfg 3 \<and>
   (\<exists>df. frontier_of example_cfg = Some df \<and> (1 \<in> df 3) = (reachable example_cfg 1 \<and> scanned example_cfg 1 \<and> in_frontier example_cfg 3 1))"
proof -
  have cl: "pool_clean []" by (simp add: pool_clean_def)
  obtain c f' p1' d p2' where b: "BuildCFG None [] example_cfg = (c, f', p1')" "Dominators None [] f' c = Some (d, p2')"
    "frontier_of example_cfg = DominanceFrontier f' c d" by (rule frontier_of_build[OF example_blocks_ok])
  show ?thesis
    using DominanceFrontier_exact[OF example_blocks_ok cl cl b(1,2)] example_blocks_ok example_reachable b(3) by auto
qed

text \<open>
  The entry may be a loop header.  With exactly one predecessor it is skipped by the scan, and the
  frontier misses it: here the entry branches back to itself, so it is in its own frontier by
  definition, but not in the map computed.
\<close>

definition entry_loop :: func where
  "entry_loop = func0\<lparr>f_Start := Some 0, f_Blocks := [0, 1], f_arena := [
     block0\<lparr>b_Jmp := jmp0\<lparr>j_Kind := JmpJnz, j_To := Some 0, j_To2 := Some 1\<rparr>\<rparr>,
     block0\<lparr>b_Jmp := jmp0\<lparr>j_Kind := JmpRet\<rparr>\<rparr>]\<rparr>"

lemma entry_loop_graph:
  "cfg_Succs (blk entry_loop 0) = [Some 0, Some 1]" "cfg_Succs (blk entry_loop 1) = []" "f_Start entry_loop = Some 0"
  "f_Blocks entry_loop = [0, 1]" "length (f_arena entry_loop) = 2"
  by (simp_all add: entry_loop_def cfg_Succs_eq block_Succs_def blk_def block0_def jmp0_def func0_def)


section \<open>Iterated frontiers\<close>

lemma idf_visit_spec:
  "idf_visit ds (work, result) = (work', result') \<Longrightarrow>
     result' = result \<union> set ds \<and> set work' = set work \<union> (set ds - result) \<and>
     (set ds \<subseteq> result \<longrightarrow> work' = work)"
proof (induction ds arbitrary: work result)
  case Nil
  then show ?case by (simp add: idf_visit_def)
next
  case (Cons d ds)
  show ?case
  proof (cases "d \<in> result")
    case True
    then have "idf_visit ds (work, result) = (work', result')" using Cons.prems by (simp add: idf_visit_def)
    from Cons.IH[OF this] True show ?thesis by auto
  next
    case False
    then have "idf_visit ds (d # work, insert d result) = (work', result')" using Cons.prems by (simp add: idf_visit_def)
    from Cons.IH[OF this] False show ?thesis by auto
  qed
qed

text \<open>
  The worklist ends when what follows stays inside a finite set, with the least set that holds the
  marked blocks and is closed under what follows the blocks on the list and those it adds.
\<close>

lemma worklist_spec:
  assumes fin: "finite U" "\<And>b. b \<in> U \<Longrightarrow> set (follow b) \<subseteq> U" and "result \<subseteq> U" "set work \<subseteq> U"
  shows "\<exists>S. worklist follow work result = Some S \<and> result \<subseteq> S \<and> (\<forall>b \<in> (S - result) \<union> set work. set (follow b) \<subseteq> S) \<and>
    (\<forall>T. result \<subseteq> T \<longrightarrow> (\<forall>b \<in> (T - result) \<union> set work. set (follow b) \<subseteq> T) \<longrightarrow> S \<subseteq> T)"
proof -
  have "wf (less_than <*lex*> less_than)" by (intro wf_lex_prod wf_less_than)
  then show ?thesis using assms(3,4)
  proof (induction "(card (U - result), length work)" arbitrary: work result rule: wf_induct_rule)
    case less
    show ?case
    proof (cases work)
      case Nil
      then show ?thesis by (subst worklist.simps) auto
    next
      case (Cons b rest)
      obtain work' result' where v: "idf_visit (follow b) (rest, result) = (work', result')" by fastforce
      have v': "result' = result \<union> set (follow b)" "set work' = set rest \<union> (set (follow b) - result)"
          "set (follow b) \<subseteq> result \<longrightarrow> work' = rest"
        using idf_visit_spec[OF v] by auto
      have fol: "set (follow b) \<subseteq> U" using fin(2)[of b] less.prems(2) Cons by simp
      have run: "worklist follow work result = worklist follow work' result'"
        using Cons v by (subst worklist.simps) simp
      have dec: "((card (U - result'), length work'), card (U - result), length work) \<in> less_than <*lex*> less_than"
      proof (cases "set (follow b) \<subseteq> result")
        case True
        then show ?thesis using v' Cons by (auto simp: Un_absorb2)
      next
        case False
        then have "U - result' \<subset> U - result" using v'(1) fol less.prems by blast
        then show ?thesis using fin(1) by (simp add: psubset_card_mono)
      qed
      have "result' \<subseteq> U" "set work' \<subseteq> U" using v'(1,2) less.prems fol Cons by auto
      from less.hyps[OF dec this] obtain S where S0: "worklist follow work' result' = Some S \<and> result' \<subseteq> S \<and>
        (\<forall>x \<in> (S - result') \<union> set work'. set (follow x) \<subseteq> S) \<and>
        (\<forall>T. result' \<subseteq> T \<longrightarrow> (\<forall>x \<in> (T - result') \<union> set work'. set (follow x) \<subseteq> T) \<longrightarrow> S \<subseteq> T)"
        by (elim exE)
      then have S: "worklist follow work' result' = Some S" "result' \<subseteq> S"
        "\<And>x. x \<in> (S - result') \<union> set work' \<Longrightarrow> set (follow x) \<subseteq> S"
        "\<And>T. result' \<subseteq> T \<Longrightarrow> \<forall>x \<in> (T - result') \<union> set work'. set (follow x) \<subseteq> T \<Longrightarrow> S \<subseteq> T"
        by (simp_all only: simp_thms)
      have "set (follow x) \<subseteq> S" if x: "x \<in> (S - result) \<union> set work" for x
      proof (cases "x = b")
        case True
        then show ?thesis using v'(1) S(2) by blast
      next
        case False
        then have "x \<in> (S - result') \<union> set work'" using x v'(1,2) Cons by auto
        then show ?thesis by (rule S(3))
      qed
      moreover have "S \<subseteq> T" if T: "result \<subseteq> T" "\<forall>x \<in> (T - result) \<union> set work. set (follow x) \<subseteq> T" for T
      proof (rule S(4))
        show sub: "result' \<subseteq> T" using T Cons v'(1) by simp
        have "(T - result') \<union> set work' \<subseteq> (T - result) \<union> set work" using sub v'(1,2) Cons by auto
        with T(2) show "\<forall>x \<in> (T - result') \<union> set work'. set (follow x) \<subseteq> T" by blast
      qed
      ultimately show ?thesis using run S(1,2) v'(1) by auto
    qed
  qed
qed

definition frontier_rel :: "frontier \<Rightarrow> (bptr \<times> bptr) set" where
  "frontier_rel df = {(b, y). y \<in> df b}"

text \<open>
  C5: in whatever order the maps are ranged over, \<open>IteratedFrontier\<close> returns, and its result is the
  closure of the definition blocks under the frontier: the blocks reached from one of them through
  one or more frontier steps, which is the least set that holds the frontier of the definitions and
  of its own blocks.
\<close>

theorem IteratedFrontier_closure:
  assumes "\<And>S. finite S \<Longrightarrow> set (ord S) = S" "finite U" "\<And>b. df b \<subseteq> U" "finite defs"
  shows "IteratedFrontier ord df defs = Some ((frontier_rel df)\<^sup>+ `` defs)"
proof -
  have fol: "set (ord (df b)) = df b" for b using assms(1-3) finite_subset by metis
  have U: "finite (U \<union> defs)" "\<And>b. b \<in> U \<union> defs \<Longrightarrow> set (ord (df b)) \<subseteq> U \<union> defs" "{} \<subseteq> U \<union> defs"
    "set (rev (ord defs)) \<subseteq> U \<union> defs" using assms fol by auto
  obtain S where S: "IteratedFrontier ord df defs = Some S" "\<And>b. b \<in> S \<union> defs \<Longrightarrow> df b \<subseteq> S"
    "\<And>T. \<forall>b \<in> T \<union> defs. df b \<subseteq> T \<Longrightarrow> S \<subseteq> T"
    using worklist_spec[of "U \<union> defs" "\<lambda>b. ord (df b)", OF U] assms(1)[OF assms(4)] by (auto simp: IteratedFrontier_def fol)
  have "y \<in> S" if b: "b \<in> defs" "(b, y) \<in> (frontier_rel df)\<^sup>+" for b y
    using b(2) by (induction rule: trancl_induct) (use S(2) b(1) in \<open>auto simp: frontier_rel_def\<close>)
  then have "(frontier_rel df)\<^sup>+ `` defs \<subseteq> S" by blast
  moreover have "S \<subseteq> (frontier_rel df)\<^sup>+ `` defs"
    by (rule S(3)) (auto simp: frontier_rel_def intro: trancl_into_trancl)
  ultimately show ?thesis using S(1) by simp
qed

theorem IteratedFrontier_closure_witness:
  "IteratedFrontier sorted_list_of_set (\<lambda>b. if b = 1 then {3} else if b = 3 then {1} else {}) {1} =
   Some ((frontier_rel (\<lambda>b. if b = 1 then {3} else if b = 3 then {1} else {}))\<^sup>+ `` {1})"
  by (rule IteratedFrontier_closure[where U = "{1, 3}"]) auto

end
