(* ===== verification/Loops.thy ===== *)
theory Loops
  imports Dom_Frontier
begin

text \<open>
  Natural loops and their nesting (\<open>analysis/loop.go\<close>, \<open>analysis/loopforest.go\<close>).  A \<open>*Loop\<close> is an
  index into the list of loops in the order the forest creates them, so the final sort permutes the
  pointers and leaves the loops alone.  Outer \<open>None\<close> is a read of a released dominator tree.
\<close>

section \<open>The algorithm\<close>

text \<open>
  \<open>naturalLoop\<close>: the latches are marked and pushed as \<open>IteratedFrontier\<close> pushes its blocks, then the
  worklist follows predecessors.
\<close>

definition naturalLoop :: "func \<Rightarrow> bptr \<Rightarrow> bptr list \<Rightarrow> bptr set option" where
  "naturalLoop f header latches = (case idf_visit latches ([], {header}) of
     (stack, body) \<Rightarrow> worklist (\<lambda>n. b_Preds (blk f n)) stack body)"

record loop =
  l_Header :: bptr
  l_Latches :: "bptr list"
  l_Body :: "bptr set"
  l_Parent :: "nat option"
  l_Depth :: int

record loopforest =
  lf_all :: "loop list"
  lf_Loops :: "nat list"
  lf_ByHeader :: "bptr \<rightharpoonup> nat"
  lf_In :: "bptr \<rightharpoonup> nat"

text \<open>The latches grouped by header.\<close>

definition latch_succ :: "domtree \<Rightarrow> bptr \<Rightarrow> bptr option \<Rightarrow> (bptr \<rightharpoonup> bptr list) \<Rightarrow> (bptr \<rightharpoonup> bptr list) option" where
  "latch_succ d b s m = (case s of
     None \<Rightarrow> Some m
   | Some h \<Rightarrow> Option.bind (Dominates d h (Some b)) (\<lambda>dom.
       Some (if dom then m(h \<mapsto> (case m h of None \<Rightarrow> [] | Some ls \<Rightarrow> ls) @ [b]) else m)))"

definition loop_latches :: "func \<Rightarrow> cfg \<Rightarrow> domtree \<Rightarrow> (bptr \<rightharpoonup> bptr list) option" where
  "loop_latches f c d =
     fold_opt (\<lambda>b. fold_opt (latch_succ d b) (block_Succs (blk f b))) (cfg_RPO c) (\<lambda>_. None)"

text \<open>One loop per header, in reverse postorder.\<close>

definition header_loop :: "func \<Rightarrow> (bptr \<rightharpoonup> bptr list) \<Rightarrow> bptr \<Rightarrow> loopforest \<Rightarrow> loopforest option" where
  "header_loop f latches header lf = (case latches header of
     None \<Rightarrow> Some lf
   | Some ls \<Rightarrow> Option.bind (naturalLoop f header ls) (\<lambda>body.
       Some (lf\<lparr>lf_all := lf_all lf @ [\<lparr>l_Header = header, l_Latches = ls, l_Body = body, l_Parent = None, l_Depth = 0\<rparr>],
                lf_Loops := lf_Loops lf @ [length (lf_all lf)],
                lf_ByHeader := (lf_ByHeader lf)(header \<mapsto> length (lf_all lf))\<rparr>)))"

text \<open>The smallest other loop whose body holds the header, the first one of that size.\<close>

definition loop_parent :: "loop list \<Rightarrow> nat \<Rightarrow> nat option" where
  "loop_parent ls l = fold (\<lambda>a parent.
     if a \<noteq> l \<and> l_Header (ls ! l) \<in> l_Body (ls ! a)
     then (case parent of
             None \<Rightarrow> Some a
           | Some p \<Rightarrow> if card (l_Body (ls ! a)) < card (l_Body (ls ! p)) then Some a else parent)
     else parent) [0..<length ls] None"

text \<open>\<open>depthOf\<close> marks the loop with depth 1 before it follows the parent.\<close>

partial_function (option) depthOf :: "loop list \<Rightarrow> nat \<Rightarrow> (int \<times> loop list) option" where
  "depthOf ls l =
     (if l_Depth (ls ! l) \<noteq> 0 then Some (l_Depth (ls ! l), ls)
      else let ls1 = ls[l := (ls ! l)\<lparr>l_Depth := 1\<rparr>] in
        case l_Parent (ls ! l) of
          None \<Rightarrow> Some (1, ls1)
        | Some p \<Rightarrow> Option.bind (depthOf ls1 p) (\<lambda>(dp, ls2).
            Some (dp + 1, ls2[l := (ls2 ! l)\<lparr>l_Depth := dp + 1\<rparr>])))"

declare depthOf.simps [code]

text \<open>The body of the loop that assigns each block its innermost loop; the blocks of a body are ranged over in any order.\<close>

definition in_loop :: "loop list \<Rightarrow> nat \<Rightarrow> (bptr \<rightharpoonup> nat) \<Rightarrow> (bptr \<rightharpoonup> nat)" where
  "in_loop ls l m = (\<lambda>b. if b \<in> l_Body (ls ! l)
     then (case m b of
             None \<Rightarrow> Some l
           | Some cur \<Rightarrow> if l_Depth (ls ! cur) < l_Depth (ls ! l) then Some l else m b)
     else m b)"

definition LoopForest :: "func \<Rightarrow> cfg \<Rightarrow> domtree \<Rightarrow> loopforest option" where
  "LoopForest f c d =
     Option.bind (loop_latches f c d) (\<lambda>latches.
     Option.bind (fold_opt (header_loop f latches) (cfg_RPO c)
         \<lparr>lf_all = [], lf_Loops = [], lf_ByHeader = (\<lambda>_. None), lf_In = (\<lambda>_. None)\<rparr>) (\<lambda>lf.
     let n = length (lf_all lf);
         ls = map (\<lambda>l. (lf_all lf ! l)\<lparr>l_Parent := loop_parent (lf_all lf) l\<rparr>) [0..<n] in
     Option.bind (fold_opt (\<lambda>l ls. Option.bind (depthOf ls l) (\<lambda>(_, ls'). Some ls')) [0..<n] ls) (\<lambda>ls'.
     Some (lf\<lparr>lf_all := ls', lf_In := fold (in_loop ls') [0..<n] (lf_In lf),
              lf_Loops := sort_key (\<lambda>l. - l_Depth (ls' ! l)) (lf_Loops lf)\<rparr>))))"

text \<open>\<open>LoopDepth\<close>: a block without an entry reads as 0.\<close>

definition LoopDepth :: "func \<Rightarrow> cfg \<Rightarrow> domtree \<Rightarrow> (bptr \<rightharpoonup> int) option" where
  "LoopDepth f c d = Option.bind (LoopForest f c d) (\<lambda>lf.
     Some (\<lambda>b. case lf_In lf b of None \<Rightarrow> None | Some l \<Rightarrow> Some (l_Depth (lf_all lf ! l))))"

section \<open>Nested families of bodies\<close>

text \<open>
  What the nesting rests on: a loop whose header lies in another body is inside that body, two
  loops cannot hold each other's header, and two loops that share a reachable block are nested.
\<close>

locale loop_family =
  fixes n :: nat and hd :: "nat \<Rightarrow> bptr" and body :: "nat \<Rightarrow> bptr set" and live :: "bptr set"
  assumes body_finite: "l < n \<Longrightarrow> finite (body l)"
    and header_in: "l < n \<Longrightarrow> hd l \<in> body l \<inter> live"
    and inside: "l < n \<Longrightarrow> a < n \<Longrightarrow> hd l \<in> body a \<Longrightarrow> body l \<subseteq> body a"
    and apart: "l < n \<Longrightarrow> a < n \<Longrightarrow> hd l \<in> body a \<Longrightarrow> hd a \<in> body l \<Longrightarrow> l = a"
    and chain: "l < n \<Longrightarrow> a < n \<Longrightarrow> x \<in> body l \<Longrightarrow> x \<in> body a \<Longrightarrow> x \<in> live \<Longrightarrow> hd l \<in> body a \<or> hd a \<in> body l"
begin

definition around :: "bptr \<Rightarrow> nat set" where
  "around b = {a. a < n \<and> b \<in> body a}"

definition nesting :: "nat \<Rightarrow> nat" where
  "nesting l = card (around (hd l))"

lemma finite_around [simp]: "finite (around b)"
  by (simp add: around_def)

lemma nesting_pos: "l < n \<Longrightarrow> 0 < nesting l"
  using header_in by (auto simp: nesting_def around_def card_gt_0_iff)

text \<open>The smallest other body that holds the header is the body of the immediate parent.\<close>

lemma parent_least:
  assumes "l < n" "p < n" "hd l \<in> body p"
    and least: "\<And>a. a < n \<Longrightarrow> a \<noteq> l \<Longrightarrow> hd l \<in> body a \<Longrightarrow> card (body p) \<le> card (body a)"
    and a: "a < n" "a \<noteq> l" "hd l \<in> body a"
  shows "hd p \<in> body a"
proof (rule ccontr)
  assume no: "hd p \<notin> body a"
  then have "hd a \<in> body p" using chain[of p a "hd l"] assms(1-3) a header_in[of l] by blast
  then have "body a \<subseteq> body p" using inside[of a p] assms(2) a by blast
  moreover have "card (body p) \<le> card (body a)" using least a by blast
  ultimately have "body a = body p" using card_seteq[OF body_finite] assms(2) by blast
  with no header_in[of p] assms(2) show False by auto
qed

lemma parent_strict: "l < n \<Longrightarrow> p < n \<Longrightarrow> p \<noteq> l \<Longrightarrow> hd l \<in> body p \<Longrightarrow> body l \<subset> body p"
  using inside[of l p] apart[of l p] header_in[of p] by blast

lemma parent_step:
  assumes "l < n" "p < n" "p \<noteq> l" "hd l \<in> body p"
    "\<And>a. a < n \<Longrightarrow> a \<noteq> l \<Longrightarrow> hd l \<in> body a \<Longrightarrow> card (body p) \<le> card (body a)"
  shows "nesting l = Suc (nesting p)"
proof -
  have "a \<in> around (hd l) \<longleftrightarrow> a \<in> insert l (around (hd p))" for a
  proof (cases "a < n \<and> a \<noteq> l")
    case True
    then show ?thesis using parent_least[OF assms(1,2,4,5), of a] inside[of p a] assms(2,4)
      by (auto simp: around_def)
  next
    case False
    then show ?thesis using header_in[of l] assms(1) by (auto simp: around_def)
  qed
  then have "around (hd l) = insert l (around (hd p))" by blast
  moreover have "l \<notin> around (hd p)" using apart[of l p] assms(1-4) by (auto simp: around_def)
  ultimately show ?thesis by (simp add: nesting_def)
qed

lemma no_parent:
  assumes "l < n" "\<And>a. a < n \<Longrightarrow> a \<noteq> l \<Longrightarrow> hd l \<notin> body a"
  shows "nesting l = 1"
proof -
  have "around (hd l) = {l}" using assms header_in[of l] by (auto simp: around_def)
  then show ?thesis by (simp add: nesting_def)
qed

text \<open>The deepest loop around a reachable block is the innermost one.\<close>

lemma deepest:
  assumes l: "l \<in> around b" and b: "b \<in> live" and deep: "\<And>a. a \<in> around b \<Longrightarrow> nesting a \<le> nesting l"
  shows "around b = around (hd l)" "a \<in> around b \<Longrightarrow> body l \<subseteq> body a"
proof -
  have ln: "l < n" "b \<in> body l" using l by (simp_all add: around_def)
  have up: "hd l \<in> body a" if a: "a \<in> around b" for a
  proof (rule ccontr)
    assume no: "hd l \<notin> body a"
    have an: "a < n" "b \<in> body a" using a by (simp_all add: around_def)
    have ha: "hd a \<in> body l" using chain[OF ln(1) an(1) ln(2) an(2) b] no by blast
    have "around (hd l) \<subseteq> around (hd a)"
      using inside ha ln(1) by (auto simp: around_def)
    moreover have "a \<in> around (hd a)" "a \<notin> around (hd l)" using no header_in[OF an(1)] an(1) by (auto simp: around_def)
    ultimately have "around (hd l) \<subset> around (hd a)" by blast
    then have "nesting l < nesting a" by (simp add: nesting_def psubset_card_mono)
    with deep[OF a] show False by simp
  qed
  then show "around b = around (hd l)" using inside[OF ln(1)] ln by (auto simp: around_def)
  show "a \<in> around b \<Longrightarrow> body l \<subseteq> body a" using up[of a] inside[OF ln(1), of a] by (auto simp: around_def)
qed

end

section \<open>Natural loops of a function\<close>

definition back_edge :: "func \<Rightarrow> bptr \<Rightarrow> bptr \<Rightarrow> bool" where
  "back_edge f b h \<longleftrightarrow> reachable f b \<and> Some h \<in> set (block_Succs (blk f b)) \<and> block_dominates f h b"

text \<open>
  The blocks of the graph: those of the block list, and those control reaches (which are on the list
  of a function whose blocks are in order).  Steps off a header neither leave from it nor enter it.
\<close>

definition in_graph :: "func \<Rightarrow> bptr \<Rightarrow> bool" where
  "in_graph f b \<longleftrightarrow> b \<in> set (f_Blocks f) \<or> reachable f b"

definition off_header :: "func \<Rightarrow> bptr \<Rightarrow> (bptr \<times> bptr) set" where
  "off_header f h = {(x, y). in_graph f x \<and> cfg_edge f x y \<and> x \<noteq> h \<and> y \<noteq> h}"

text \<open>The natural loop: the header, and every block that reaches a latch without passing through the header.\<close>

definition natural_body :: "func \<Rightarrow> bptr \<Rightarrow> bptr set" where
  "natural_body f h = insert h {b. \<exists>l. back_edge f l h \<and> l \<noteq> h \<and> (b, l) \<in> (off_header f h)\<^sup>*}"

definition is_header :: "func \<Rightarrow> bptr \<Rightarrow> bool" where
  "is_header f h \<longleftrightarrow> (\<exists>b. back_edge f b h)"

definition headers :: "func \<Rightarrow> bptr list" where
  "headers f = filter (is_header f) (cfg_RPO (computeRPO (fillPreds f) []))"

lemma back_edge_edge: "back_edge f b h \<Longrightarrow> cfg_edge f b h"
  by (auto simp: back_edge_def cfg_edge_def cfg_Succs_eq)

lemma header_reachable: "is_header f h \<Longrightarrow> reachable f h"
  using block_dominates_reach by (auto simp: is_header_def back_edge_def)

lemma set_headers: "set (headers f) = {h. is_header f h}"
  using header_reachable by (auto simp: headers_def rpo_reachable reachable_preds_only[OF preds_only_fillPreds])

text \<open>Dominance along a path off a block, and as an order.\<close>

lemma dominates_off:
  assumes "(b, l) \<in> (off_header f h)\<^sup>*" "block_dominates f h l" "l \<noteq> h"
  shows "block_dominates f h b"
  using assms by (induction rule: converse_rtrancl_induct)
    (auto simp: off_header_def intro: block_dominates_pred)

lemma body_dominated:
  assumes "b \<in> natural_body f h"
  shows "block_dominates f h b"
proof (cases "b = h")
  case True
  then show ?thesis by (auto simp: block_dominates_def cfg_path_def)
next
  case False
  then show ?thesis using assms dominates_off by (auto simp: natural_body_def back_edge_def)
qed

lemma body_reaches:
  assumes "b \<in> natural_body f h" "is_header f h" "b \<noteq> h"
  shows "\<exists>l. back_edge f l h \<and> (b, l) \<in> (off_header f h)\<^sup>*"
  using assms by (auto simp: natural_body_def)

lemma body_pred:
  assumes "y \<in> natural_body f h" "y \<noteq> h" "cfg_edge f x y" "in_graph f x"
  shows "x \<in> natural_body f h"
proof (cases "x = h")
  case False
  then have "(x, y) \<in> off_header f h" using assms by (simp add: off_header_def)
  then show ?thesis using assms(1,2) by (auto simp: natural_body_def intro: converse_rtrancl_into_rtrancl)
qed (simp add: natural_body_def)

lemma cfg_path_take:
  assumes "cfg_path f q" "i < length q"
  shows "cfg_path f (take (Suc i) q)" "last (take (Suc i) q) = q ! i"
proof -
  have "q \<noteq> []" using assms(2) by auto
  then show "cfg_path f (take (Suc i) q)" using assms(1) by (auto simp: cfg_path_def)
  show "last (take (Suc i) q) = q ! i" using assms(2) by (simp add: take_Suc_conv_app_nth)
qed

lemma dominates_antisym:
  assumes "reachable f a" "block_dominates f a b" "block_dominates f b a"
  shows "a = b"
proof -
  obtain p where p: "cfg_path f p" "last p = a" using reachable_path assms(1) by blast
  then have ne: "p \<noteq> []" by (simp add: cfg_path_def)
  define P where "P = (\<lambda>n. \<exists>p. cfg_path f p \<and> (last p = a \<or> last p = b) \<and> length p = n)"
  have "P (length p)" using p by (auto simp: P_def)
  then obtain q where q: "cfg_path f q" "last q = a \<or> last q = b" "length q = (LEAST n. P n)"
    using LeastI[of P] by (auto simp: P_def)
  have first: "q ! i \<noteq> a \<and> q ! i \<noteq> b" if "Suc i < length q" for i
  proof (rule ccontr)
    assume "\<not> ?thesis"
    then have "P (Suc i)" using cfg_path_take[OF q(1), of i] that unfolding P_def by (intro exI[of _ "take (Suc i) q"]) auto
    then show False using q(3) that Least_le[of P "Suc i"] by simp
  qed
  have "q \<noteq> []" using q(1) by (simp add: cfg_path_def)
  have "a \<in> set q \<and> b \<in> set q" using assms(2,3) q(1,2) \<open>q \<noteq> []\<close> by (auto simp: block_dominates_def)
  then obtain i j where "i < length q" "q ! i = a" "j < length q" "q ! j = b" by (metis in_set_conv_nth)
  moreover have "\<not> Suc i < length q" "\<not> Suc j < length q" using first \<open>q ! i = a\<close> \<open>q ! j = b\<close> by blast+
  ultimately have "i = j" by linarith
  with \<open>q ! i = a\<close> \<open>q ! j = b\<close> show "a = b" by simp
qed

lemma body_inside:
  assumes h: "h \<in> natural_body f k"
  shows "natural_body f h \<subseteq> natural_body f k"
proof (cases "h = k")
  case False
  have out: "k \<notin> natural_body f h" if "reachable f h"
  proof
    assume "k \<in> natural_body f h"
    then have "block_dominates f h k" "block_dominates f k h" using body_dominated h by blast+
    then show False using dominates_antisym that False by blast
  qed
  have "b \<in> natural_body f k" if l: "back_edge f l h" "l \<noteq> h" and b: "(b, l) \<in> (off_header f h)\<^sup>*" for b l
    using b
  proof (induction rule: converse_rtrancl_induct)
    case base
    show ?case
      by (rule body_pred[OF h False back_edge_edge[OF l(1)]]) (use l(1) in \<open>simp add: in_graph_def back_edge_def\<close>)
  next
    case (step x y)
    have "y \<in> natural_body f h" using step.hyps(2) l by (auto simp: natural_body_def)
    then have "y \<noteq> k" using out header_reachable l(1) by (auto simp: is_header_def)
    then show ?case using body_pred[OF step.IH] step.hyps(1) by (simp add: off_header_def)
  qed
  then show ?thesis using h by (auto simp: natural_body_def[of f h])
qed simp

lemma body_path_avoiding:
  assumes p0: "cfg_path f p0" "last p0 = h" "k \<notin> set p0" and k: "k \<notin> natural_body f h"
  shows "cfg_path f q \<Longrightarrow> last q \<in> natural_body f h \<Longrightarrow> \<exists>p. cfg_path f p \<and> last p = last q \<and> k \<notin> set p"
proof (induction q rule: rev_induct)
  case (snoc y q)
  show ?case
  proof (cases "y = h")
    case True
    then show ?thesis using p0 by (intro exI[of _ p0]) simp
  next
    case False
    have y: "y \<in> natural_body f h" "y \<noteq> k" using snoc.prems(2) k by auto
    have dom: "h \<in> set (q @ [y])" using body_dominated[OF y(1)] snoc.prems(1) by (auto simp: block_dominates_def)
    then have "q \<noteq> []" using False by auto
    then have q: "cfg_path f q" "cfg_edge f (last q) y" using snoc.prems(1) by (simp_all add: cfg_path_snoc)
    have "reachable f (last q)" using cfg_path_reach[OF q(1)] \<open>q \<noteq> []\<close> by simp
    then have "last q \<in> natural_body f h" using body_pred[OF y(1) False q(2)] by (simp add: in_graph_def)
    from snoc.IH[OF q(1) this] obtain p where p: "cfg_path f p" "last p = last q" "k \<notin> set p" by blast
    then have "p \<noteq> []" by (simp add: cfg_path_def)
    then have "cfg_path f (p @ [y])" using p q(2) by (simp add: cfg_path_snoc)
    then show ?thesis using p(3) y(2) by (intro exI[of _ "p @ [y]"]) auto
  qed
qed (simp add: cfg_path_def)

lemma body_chain:
  assumes x: "x \<in> natural_body f h" "x \<in> natural_body f k" "reachable f x"
  shows "h \<in> natural_body f k \<or> k \<in> natural_body f h"
proof (rule ccontr)
  assume no: "\<not> ?thesis"
  have "block_dominates f a b" if ab: "x \<in> natural_body f a" "x \<in> natural_body f b" "a \<notin> natural_body f b" for a b
  proof (rule ccontr)
    assume "\<not> block_dominates f a b"
    then obtain p0 where p0: "cfg_path f p0" "last p0 = b" "a \<notin> set p0" by (auto simp: block_dominates_def)
    obtain q where q: "cfg_path f q" "last q = x" using reachable_path[OF x(3)] by blast
    obtain p where "cfg_path f p" "last p = x" "a \<notin> set p"
      using body_path_avoiding[OF p0 ab(3) q(1)] q(2) ab(2) by blast
    with body_dominated[OF ab(1)] show False by (auto simp: block_dominates_def)
  qed
  then have "block_dominates f h k" "block_dominates f k h" using x no by blast+
  moreover have "reachable f h" using block_dominates_reach[OF x(3) body_dominated[OF x(1)]] .
  ultimately have "h = k" using dominates_antisym by blast
  with no show False by (simp add: natural_body_def)
qed

lemma finite_natural_body: "finite (natural_body f h)"
proof -
  have "finite {b. in_graph f b}"
  proof -
    have "{b. in_graph f b} = set (f_Blocks f) \<union> set (cfg_RPO (computeRPO f []))"
      by (auto simp: in_graph_def rpo_reachable)
    then show ?thesis by simp
  qed
  moreover have "natural_body f h \<subseteq> insert h {b. in_graph f b}"
  proof
    fix b assume b: "b \<in> natural_body f h"
    show "b \<in> insert h {b. in_graph f b}"
    proof (cases "b = h")
      case False
      then obtain l where l: "back_edge f l h" "(b, l) \<in> (off_header f h)\<^sup>*" using b by (auto simp: natural_body_def)
      from l(2) show ?thesis
        by (cases rule: converse_rtranclE) (use l(1) in \<open>auto simp: off_header_def in_graph_def back_edge_def\<close>)
    qed simp
  qed
  ultimately show ?thesis using finite_subset by blast
qed

lemma header_nth: "l < length (headers f) \<Longrightarrow> is_header f (headers f ! l)"
  using set_headers nth_mem by blast

lemma distinct_headers: "distinct (headers f)"
  using walk.distinct_rpo[of "fillPreds f"] by (simp add: headers_def)

interpretation lp: loop_family "length (headers f)" "(!) (headers f)" "\<lambda>l. natural_body f (headers f ! l)" "Collect (reachable f)" for f
proof unfold_locales
  fix l a x assume l: "l < length (headers f)"
  show "finite (natural_body f (headers f ! l))" by (rule finite_natural_body)
  show "headers f ! l \<in> natural_body f (headers f ! l) \<inter> Collect (reachable f)"
    using header_reachable[OF header_nth[OF l]] by (simp add: natural_body_def)
  assume a: "a < length (headers f)"
  show "headers f ! l \<in> natural_body f (headers f ! a) \<Longrightarrow>
      natural_body f (headers f ! l) \<subseteq> natural_body f (headers f ! a)" by (rule body_inside)
  show "l = a" if "headers f ! l \<in> natural_body f (headers f ! a)" "headers f ! a \<in> natural_body f (headers f ! l)"
  proof -
    have "headers f ! l = headers f ! a"
      using dominates_antisym[of f "headers f ! l"] body_dominated that header_reachable[OF header_nth[OF l]] by blast
    then show ?thesis using l a distinct_headers by (simp add: nth_eq_iff_index_eq)
  qed
  show "x \<in> natural_body f (headers f ! l) \<Longrightarrow> x \<in> natural_body f (headers f ! a) \<Longrightarrow> x \<in> Collect (reachable f) \<Longrightarrow>
      headers f ! l \<in> natural_body f (headers f ! a) \<or> headers f ! a \<in> natural_body f (headers f ! l)"
    using body_chain by auto
qed

section \<open>What the algorithm computes\<close>

lemma naturalLoop_spec:
  assumes ok: "blocks_ok f" and ls: "set ls = {b. back_edge f b h}" and h: "is_header f h"
  shows "naturalLoop (fillPreds f) h ls = Some (natural_body f h)"
proof -
  let ?follow = "\<lambda>n. b_Preds (blk (fillPreds f) n)" and ?U = "set (f_Blocks f)"
  have reach: "b \<in> ?U" if "reachable f b" for b using blocks_ok_reach[OF ok that] .
  have graph: "in_graph f b \<longleftrightarrow> b \<in> ?U" for b using reach by (auto simp: in_graph_def)
  have preds: "set (?follow n) = {x. in_graph f x \<and> cfg_edge f x n}" if "n \<in> ?U" for n
    using fillPreds_preds[of f n] ok that by (auto simp: blocks_ok_def graph)
  have latch: "b \<in> ?U" if "back_edge f b h" for b using that reach by (simp add: back_edge_def)
  obtain stack body where v: "idf_visit ls ([], {h}) = (stack, body)" by fastforce
  have v': "body = insert h (set ls)" "set stack = set ls - {h}" using idf_visit_spec[OF v] by auto
  have hU: "h \<in> ?U" using reach[OF header_reachable[OF h]] .
  have init: "body \<subseteq> ?U" "set stack \<subseteq> ?U" using v' ls latch hU by auto
  have stay: "\<And>b. b \<in> ?U \<Longrightarrow> set (?follow b) \<subseteq> ?U" using preds by (auto simp: graph)
  have "\<exists>S. worklist ?follow stack body = Some S \<and> body \<subseteq> S \<and>
    (\<forall>b \<in> (S - body) \<union> set stack. set (?follow b) \<subseteq> S) \<and>
    (\<forall>T. body \<subseteq> T \<longrightarrow> (\<forall>b \<in> (T - body) \<union> set stack. set (?follow b) \<subseteq> T) \<longrightarrow> S \<subseteq> T)"
    by (rule worklist_spec[of ?U ?follow]) (simp_all add: stay init)
  then obtain S where "worklist ?follow stack body = Some S \<and> body \<subseteq> S \<and>
    (\<forall>b \<in> (S - body) \<union> set stack. set (?follow b) \<subseteq> S) \<and>
    (\<forall>T. body \<subseteq> T \<longrightarrow> (\<forall>b \<in> (T - body) \<union> set stack. set (?follow b) \<subseteq> T) \<longrightarrow> S \<subseteq> T)"
    by (elim exE)
  then have S: "worklist ?follow stack body = Some S" "body \<subseteq> S"
    "\<forall>b \<in> (S - body) \<union> set stack. set (?follow b) \<subseteq> S"
    "\<forall>T. body \<subseteq> T \<longrightarrow> (\<forall>b \<in> (T - body) \<union> set stack. set (?follow b) \<subseteq> T) \<longrightarrow> S \<subseteq> T"
    by - (elim conjE, assumption)+
  have "S \<subseteq> natural_body f h"
  proof (rule S(4)[rule_format])
    show sub: "body \<subseteq> natural_body f h" using v'(1) ls by (auto simp: natural_body_def)
    fix b assume "b \<in> (natural_body f h - body) \<union> set stack"
    then have b: "b \<in> natural_body f h" "b \<noteq> h" using sub v' by auto
    have "b \<in> ?U" using b latch
      by (auto simp: natural_body_def off_header_def graph elim: converse_rtranclE)
    then show "set (?follow b) \<subseteq> natural_body f h" using preds body_pred[OF b] by auto
  qed
  moreover have "b \<in> S" if l: "back_edge f l h" "l \<noteq> h" and b: "(b, l) \<in> (off_header f h)\<^sup>*" for b l
    using b
  proof (induction rule: converse_rtrancl_induct)
    case base
    then show ?case using l ls v'(1) S(2) by auto
  next
    case (step x y)
    have y: "y \<noteq> h" "x \<in> set (?follow y)" using step.hyps(1) preds[of y] graph ok
      by (force simp: off_header_def blocks_ok_def cfg_edge_def)+
    then have "y \<in> (S - body) \<union> set stack" using step.IH v' by auto
    then show ?case using S(3) y(2) by blast
  qed
  moreover have "h \<in> S" using S(2) v'(1) by blast
  ultimately have "S = natural_body f h" by (auto simp: natural_body_def)
  then show ?thesis using S(1) v by (simp add: naturalLoop_def)
qed

text \<open>The map of latches after some blocks, and after some successors of the next one.\<close>

definition latches_upto :: "func \<Rightarrow> (bptr \<times> bptr) set \<Rightarrow> (bptr \<rightharpoonup> bptr list) \<Rightarrow> bool" where
  "latches_upto f E m \<longleftrightarrow> (\<forall>h. let L = {b. (b, h) \<in> E \<and> block_dominates f h b} in
     if L = {} then m h = None else (\<exists>ls. m h = Some ls \<and> set ls = L))"

lemma latches_upto_at:
  "latches_upto f E m \<Longrightarrow>
   set (case m h of None \<Rightarrow> [] | Some ls \<Rightarrow> ls) = {b. (b, h) \<in> E \<and> block_dominates f h b} \<and>
   (m h = None \<longleftrightarrow> {b. (b, h) \<in> E \<and> block_dominates f h b} = {})"
proof -
  assume m: "latches_upto f E m"
  define L where "L = {b. (b, h) \<in> E \<and> block_dominates f h b}"
  have "if L = {} then m h = None else (\<exists>ls. m h = Some ls \<and> set ls = L)"
    using m by (simp add: latches_upto_def Let_def L_def)
  then show ?thesis unfolding L_def[symmetric] by (cases "L = {}") auto
qed

lemma latches_uptoI:
  assumes "\<And>h. set (case m h of None \<Rightarrow> [] | Some ls \<Rightarrow> ls) = {b. (b, h) \<in> E \<and> block_dominates f h b}"
    "\<And>h. m h = None \<longleftrightarrow> {b. (b, h) \<in> E \<and> block_dominates f h b} = {}"
  shows "latches_upto f E m"
  unfolding latches_upto_def Let_def
proof
  fix h show "if {b. (b, h) \<in> E \<and> block_dominates f h b} = {} then m h = None
    else \<exists>ls. m h = Some ls \<and> set ls = {b. (b, h) \<in> E \<and> block_dominates f h b}"
    using assms(1)[of h] assms(2)[of h] by (cases "m h") simp_all
qed

lemma latch_succ_spec:
  assumes T: "dom_tree_of f c d g" and b: "reachable f b" and m: "latches_upto f E m"
  shows "\<exists>m'. latch_succ d b s m = Some m' \<and> latches_upto f (case s of None \<Rightarrow> E | Some h \<Rightarrow> insert (b, h) E) m'"
proof (cases s)
  case (Some h)
  note at = latches_upto_at[OF m]
  let ?m = "if block_dominates f h b then m(h \<mapsto> (case m h of None \<Rightarrow> [] | Some ls \<Rightarrow> ls) @ [b]) else m"
  have "latch_succ d b s m = Some ?m" using Some Dominators_query[OF T b] by (simp add: latch_succ_def)
  moreover have "latches_upto f (insert (b, h) E) ?m"
  proof (rule latches_uptoI)
    fix k
    show "set (case ?m k of None \<Rightarrow> [] | Some ls \<Rightarrow> ls) = {x. (x, k) \<in> insert (b, h) E \<and> block_dominates f k x}"
      using at[of k] by (cases "k = h") auto
    show "?m k = None \<longleftrightarrow> {x. (x, k) \<in> insert (b, h) E \<and> block_dominates f k x} = {}"
      using at[of k] by (cases "k = h") auto
  qed
  ultimately show ?thesis using Some by simp
qed (use m in \<open>simp add: latch_succ_def\<close>)

lemma loop_latches_spec:
  assumes T: "dom_tree_of f c d g"
  shows "\<exists>m. loop_latches f c d = Some m \<and>
    (\<forall>h. if is_header f h then \<exists>ls. m h = Some ls \<and> set ls = {b. back_edge f b h} else m h = None)"
proof -
  define E where "E = (\<lambda>bs. {(b, h). b \<in> set bs \<and> Some h \<in> set (block_Succs (blk f b))})"
  have inner: "\<exists>m'. fold_opt (latch_succ d b) ss m = Some m' \<and> latches_upto f (E0 \<union> {(b, h) | h. Some h \<in> set ss}) m'"
    if "reachable f b" "latches_upto f E0 m" for b ss m E0
  proof (rule fold_opt_invar[where I = "\<lambda>ss. latches_upto f (E0 \<union> {(b, h) | h. Some h \<in> set ss})"])
    fix x ys t assume I: "latches_upto f (E0 \<union> {(b, h) | h. Some h \<in> set ys}) t"
    have eq: "(case x of None \<Rightarrow> E0 \<union> {(b, h) | h. Some h \<in> set ys} | Some h \<Rightarrow> insert (b, h) (E0 \<union> {(b, h) | h. Some h \<in> set ys})) =
      E0 \<union> {(b, h) | h. Some h \<in> set (ys @ [x])}" by (cases x) auto
    show "\<exists>t'. latch_succ d b x t = Some t' \<and> latches_upto f (E0 \<union> {(b, h) | h. Some h \<in> set (ys @ [x])}) t'"
      using latch_succ_spec[OF T that(1) I, of x] unfolding eq .
  qed (use that in simp)
  have "\<exists>m. fold_opt (\<lambda>b. fold_opt (latch_succ d b) (block_Succs (blk f b))) (cfg_RPO c) (\<lambda>_. None) = Some m \<and>
      latches_upto f (E (cfg_RPO c)) m"
  proof (rule fold_opt_invar[where I = "\<lambda>bs. latches_upto f (E bs)"])
    fix b ys zs t assume b: "cfg_RPO c = ys @ b # zs" and I: "latches_upto f (E ys) t"
    have "b \<in> set (cfg_RPO c)" using b by simp
    then have "reachable f b" using dom_tree_ofD(3)[OF T] by simp
    moreover have "E ys \<union> {(b, h) | h. Some h \<in> set (block_Succs (blk f b))} = E (ys @ [b])" by (auto simp: E_def)
    ultimately show "\<exists>t'. fold_opt (latch_succ d b) (block_Succs (blk f b)) t = Some t' \<and> latches_upto f (E (ys @ [b])) t'"
      using inner[OF _ I, of b "block_Succs (blk f b)"] by simp
  qed (simp add: E_def latches_upto_def)
  then obtain m where m: "loop_latches f c d = Some m" "latches_upto f (E (cfg_RPO c)) m" by (auto simp: loop_latches_def)
  have "{b. (b, h) \<in> E (cfg_RPO c) \<and> block_dominates f h b} = {b. back_edge f b h}" for h
    using dom_tree_ofD(3)[OF T] by (auto simp: E_def back_edge_def)
  then have "if is_header f h then \<exists>ls. m h = Some ls \<and> set ls = {b. back_edge f b h} else m h = None" for h
    using m(2)[unfolded latches_upto_def Let_def, rule_format, of h] by (auto simp: is_header_def split: if_split_asm)
  with m(1) show ?thesis by blast
qed

text \<open>The list of loops before nesting.\<close>

definition fresh_loop :: "func \<Rightarrow> (bptr \<rightharpoonup> bptr list) \<Rightarrow> bptr \<Rightarrow> loop" where
  "fresh_loop f m h = \<lparr>l_Header = h, l_Latches = the (m h), l_Body = natural_body f h, l_Parent = None, l_Depth = 0\<rparr>"

lemma fresh_loop_sel [simp]:
  "l_Header (fresh_loop f m h) = h" "l_Body (fresh_loop f m h) = natural_body f h" "l_Depth (fresh_loop f m h) = 0"
  by (simp_all add: fresh_loop_def)

definition forest_upto :: "func \<Rightarrow> (bptr \<rightharpoonup> bptr list) \<Rightarrow> bptr list \<Rightarrow> loopforest \<Rightarrow> bool" where
  "forest_upto f m bs lf \<longleftrightarrow> (let hs = filter (is_header f) bs in
     lf_all lf = map (fresh_loop f m) hs \<and> lf_Loops lf = [0..<length hs] \<and> lf_In lf = (\<lambda>_. None) \<and>
     (\<forall>h l. lf_ByHeader lf h = Some l \<longleftrightarrow> l < length hs \<and> hs ! l = h))"

lemma header_loop_spec:
  assumes ok: "blocks_ok f" and m: "\<And>h. if is_header f h then \<exists>ls. m h = Some ls \<and> set ls = {b. back_edge f b h} else m h = None"
    and I: "forest_upto f m bs lf" and new: "h \<notin> set bs"
  shows "\<exists>lf'. header_loop (fillPreds f) m h lf = Some lf' \<and> forest_upto f m (bs @ [h]) lf'"
proof (cases "is_header f h")
  case True
  then obtain ls where ls: "m h = Some ls" "set ls = {b. back_edge f b h}" using m[of h] by auto
  let ?hs = "filter (is_header f) bs"
  let ?lf = "lf\<lparr>lf_all := lf_all lf @ [fresh_loop f m h], lf_Loops := lf_Loops lf @ [length (lf_all lf)],
    lf_ByHeader := (lf_ByHeader lf)(h \<mapsto> length (lf_all lf))\<rparr>"
  have "header_loop (fillPreds f) m h lf = Some ?lf"
    using naturalLoop_spec[OF ok ls(2) True] ls(1) by (simp add: header_loop_def fresh_loop_def)
  moreover have "forest_upto f m (bs @ [h]) ?lf"
  proof -
    have at: "(if k = h then l = length ?hs else l < length ?hs \<and> ?hs ! l = k) \<longleftrightarrow>
        l < Suc (length ?hs) \<and> (?hs @ [h]) ! l = k" for k l
    proof (cases "l < length ?hs")
      case True
      then have "?hs ! l \<in> set bs" using nth_mem[OF True] by auto
      then show ?thesis using True new by (auto simp: nth_append)
    qed (auto simp: nth_append less_Suc_eq)
    have "lf_ByHeader ?lf k = Some l \<longleftrightarrow> (if k = h then l = length ?hs else l < length ?hs \<and> ?hs ! l = k)" for k l
      using I by (auto simp: forest_upto_def Let_def)
    then have by_header: "lf_ByHeader ?lf k = Some l \<longleftrightarrow> l < length (?hs @ [h]) \<and> (?hs @ [h]) ! l = k" for k l
      unfolding at by simp
    have e: "filter (is_header f) (bs @ [h]) = ?hs @ [h]" using True by simp
    show ?thesis unfolding forest_upto_def Let_def e
      by (intro conjI allI by_header) (use I in \<open>simp_all add: forest_upto_def Let_def\<close>)
  qed
  ultimately show ?thesis by blast
next
  case False
  then show ?thesis using m[of h] I by (auto simp: header_loop_def forest_upto_def Let_def)
qed

lemma loop_parent_spec:
  "case loop_parent ls l of
     None \<Rightarrow> \<forall>a < length ls. a \<noteq> l \<longrightarrow> l_Header (ls ! l) \<notin> l_Body (ls ! a)
   | Some p \<Rightarrow> p < length ls \<and> p \<noteq> l \<and> l_Header (ls ! l) \<in> l_Body (ls ! p) \<and>
       (\<forall>a < length ls. a \<noteq> l \<longrightarrow> l_Header (ls ! l) \<in> l_Body (ls ! a) \<longrightarrow> card (l_Body (ls ! p)) \<le> card (l_Body (ls ! a)))"
proof -
  define step where "step = (\<lambda>a parent.
     if a \<noteq> l \<and> l_Header (ls ! l) \<in> l_Body (ls ! a)
     then (case parent of
             None \<Rightarrow> Some a
           | Some p \<Rightarrow> if card (l_Body (ls ! a)) < card (l_Body (ls ! p)) then Some a else parent)
     else parent)"
  have "case fold step [0..<k] None of
     None \<Rightarrow> \<forall>a < k. a \<noteq> l \<longrightarrow> l_Header (ls ! l) \<notin> l_Body (ls ! a)
   | Some p \<Rightarrow> p < k \<and> p \<noteq> l \<and> l_Header (ls ! l) \<in> l_Body (ls ! p) \<and>
       (\<forall>a < k. a \<noteq> l \<longrightarrow> l_Header (ls ! l) \<in> l_Body (ls ! a) \<longrightarrow> card (l_Body (ls ! p)) \<le> card (l_Body (ls ! a)))" for k
  proof (induction k)
    case (Suc k)
    then show ?case
      by (cases "fold step [0..<k] None") (auto simp: step_def less_Suc_eq split: if_split_asm)
  qed simp
  then show ?thesis unfolding loop_parent_def step_def .
qed

lemma depthOf_spec:
  assumes l: "l < length ls"
    and law: "\<And>a. a < length ls \<Longrightarrow> case l_Parent (ls ! a) of None \<Rightarrow> D a = (1::nat) | Some p \<Rightarrow> p < length ls \<and> D a = Suc (D p)"
    and pos: "\<And>a. a < length ls \<Longrightarrow> 0 < D a"
    and known: "\<And>a. a < length ls \<Longrightarrow> D a \<le> D l \<Longrightarrow> l_Depth (ls ! a) = 0 \<or> l_Depth (ls ! a) = int (D a)"
  shows "\<exists>ls'. depthOf ls l = Some (int (D l), ls') \<and> length ls' = length ls \<and> l_Depth (ls' ! l) = int (D l) \<and>
    (\<forall>a < length ls. ls' ! a = ls ! a \<or> ls' ! a = (ls ! a)\<lparr>l_Depth := int (D a)\<rparr>)"
  using assms
proof (induction "D l" arbitrary: l ls rule: less_induct)
  case less
  show ?case
  proof (cases "l_Depth (ls ! l) = 0")
    case False
    then show ?thesis using less.prems(4)[OF less.prems(1)] by (subst depthOf.simps) auto
  next
    case True
    let ?ls1 = "ls[l := (ls ! l)\<lparr>l_Depth := 1\<rparr>]"
    show ?thesis
    proof (cases "l_Parent (ls ! l)")
      case None
      then have "D l = 1" using less.prems(2)[OF less.prems(1)] by simp
      then show ?thesis using True None less.prems(1)
        by (subst depthOf.simps) (auto simp: Let_def nth_list_update)
    next
      case (Some p)
      have p: "p < length ls" "D l = Suc (D p)" using less.prems(2)[OF less.prems(1)] Some by simp_all
      have "\<exists>ls2. depthOf ?ls1 p = Some (int (D p), ls2) \<and> length ls2 = length ?ls1 \<and> l_Depth (ls2 ! p) = int (D p) \<and>
          (\<forall>a < length ?ls1. ls2 ! a = ?ls1 ! a \<or> ls2 ! a = (?ls1 ! a)\<lparr>l_Depth := int (D a)\<rparr>)"
      proof (rule less.hyps)
        fix a assume a: "a < length ?ls1"
        show "case l_Parent (?ls1 ! a) of None \<Rightarrow> D a = 1 | Some q \<Rightarrow> q < length ?ls1 \<and> D a = Suc (D q)"
          using less.prems(2)[of a] a by (cases "a = l") (auto split: option.splits)
        show "0 < D a" using less.prems(3) a by simp
        assume "D a \<le> D p"
        then have "a \<noteq> l" "D a \<le> D l" using p by auto
        then show "l_Depth (?ls1 ! a) = 0 \<or> l_Depth (?ls1 ! a) = int (D a)" using less.prems(4)[of a] a by simp
      qed (use p in simp_all)
      then obtain ls2 where ls2: "depthOf ?ls1 p = Some (int (D p), ls2)" "length ls2 = length ls"
        "\<forall>a < length ls. ls2 ! a = ?ls1 ! a \<or> ls2 ! a = (?ls1 ! a)\<lparr>l_Depth := int (D a)\<rparr>" by auto
      have run: "depthOf ls l = Some (int (D l), ls2[l := (ls2 ! l)\<lparr>l_Depth := int (D l)\<rparr>])"
        using True Some ls2(1) p(2) by (subst depthOf.simps) (simp add: Let_def add.commute)
      have "ls2 ! l = (ls ! l)\<lparr>l_Depth := 1\<rparr> \<or> ls2 ! l = (ls ! l)\<lparr>l_Depth := int (D l)\<rparr>"
        using ls2(3) less.prems(1) by auto
      then have here: "(ls2 ! l)\<lparr>l_Depth := int (D l)\<rparr> = (ls ! l)\<lparr>l_Depth := int (D l)\<rparr>" by auto
      have "ls2[l := (ls2 ! l)\<lparr>l_Depth := int (D l)\<rparr>] ! a = ls ! a \<or>
          ls2[l := (ls2 ! l)\<lparr>l_Depth := int (D l)\<rparr>] ! a = (ls ! a)\<lparr>l_Depth := int (D a)\<rparr>" if "a < length ls" for a
        using ls2(2,3) that here by (cases "a = l") auto
      with run ls2(2) less.prems(1) show ?thesis by simp
    qed
  qed
qed

lemma loop_latches_fillPreds: "loop_latches (fillPreds f) c d = loop_latches f c d"
proof -
  have "block_Succs (blk (fillPreds f) b) = block_Succs (blk f b)" for b
    by (simp only: block_Succs_def preds_only_sel(10)[OF preds_only_fillPreds])
  then show ?thesis by (simp add: loop_latches_def)
qed

lemma in_loop_at:
  "in_loop ls l m b = (if b \<in> l_Body (ls ! l)
     then (case m b of
             None \<Rightarrow> Some l
           | Some cur \<Rightarrow> if l_Depth (ls ! cur) < l_Depth (ls ! l) then Some l else m b)
     else m b)"
  by (simp add: in_loop_def)

lemma in_loop_spec:
  "case fold (in_loop ls) [0..<k] (\<lambda>_. None) b of
     None \<Rightarrow> \<forall>a < k. b \<notin> l_Body (ls ! a)
   | Some l \<Rightarrow> l < k \<and> b \<in> l_Body (ls ! l) \<and> (\<forall>a < k. b \<in> l_Body (ls ! a) \<longrightarrow> l_Depth (ls ! a) \<le> l_Depth (ls ! l))"
proof (induction k)
  case (Suc k)
  define F where "F = fold (in_loop ls) [0..<k] (\<lambda>_. None)"
  have step: "fold (in_loop ls) [0..<Suc k] (\<lambda>_. None) b = in_loop ls k F b" by (simp add: F_def)
  show ?case unfolding step in_loop_at[of ls k F b] using Suc[folded F_def]
    by (cases "F b") (auto simp: less_Suc_eq split: if_split_asm)
qed simp

text \<open>The immediate parents of the loops of a function, in the numbering of its headers.\<close>

definition parent_in :: "func \<Rightarrow> (bptr \<rightharpoonup> bptr list) \<Rightarrow> nat \<Rightarrow> nat option" where
  "parent_in f m = loop_parent (map (fresh_loop f m) (headers f))"

lemma parent_in_spec:
  assumes l: "l < length (headers f)"
  shows "case parent_in f m l of
     None \<Rightarrow> \<forall>a < length (headers f). a \<noteq> l \<longrightarrow> headers f ! l \<notin> natural_body f (headers f ! a)
   | Some p \<Rightarrow> p < length (headers f) \<and> natural_body f (headers f ! l) \<subset> natural_body f (headers f ! p) \<and>
       (\<forall>a < length (headers f). natural_body f (headers f ! l) \<subset> natural_body f (headers f ! a) \<longrightarrow>
          natural_body f (headers f ! p) \<subseteq> natural_body f (headers f ! a))"
    "case parent_in f m l of None \<Rightarrow> lp.nesting f l = 1 | Some p \<Rightarrow> p < length (headers f) \<and> lp.nesting f l = Suc (lp.nesting f p)"
proof -
  let ?h = "\<lambda>a. headers f ! a" and ?n = "length (headers f)"
  note P = loop_parent_spec[of "map (fresh_loop f m) (headers f)" l]
  have at: "l_Header (map (fresh_loop f m) (headers f) ! a) = ?h a" "l_Body (map (fresh_loop f m) (headers f) ! a) = natural_body f (?h a)"
    if "a < ?n" for a using that by (simp_all add: fresh_loop_def)
  have "(case parent_in f m l of
     None \<Rightarrow> \<forall>a < ?n. a \<noteq> l \<longrightarrow> ?h l \<notin> natural_body f (?h a)
   | Some p \<Rightarrow> p < ?n \<and> natural_body f (?h l) \<subset> natural_body f (?h p) \<and>
       (\<forall>a < ?n. natural_body f (?h l) \<subset> natural_body f (?h a) \<longrightarrow> natural_body f (?h p) \<subseteq> natural_body f (?h a))) \<and>
    (case parent_in f m l of None \<Rightarrow> lp.nesting f l = 1 | Some p \<Rightarrow> p < ?n \<and> lp.nesting f l = Suc (lp.nesting f p))"
  proof (cases "parent_in f m l")
    case None
    then have none: "\<forall>a < ?n. a \<noteq> l \<longrightarrow> ?h l \<notin> natural_body f (?h a)" using P at l by (simp add: parent_in_def)
    then show ?thesis using None lp.no_parent[OF l] by simp
  next
    case (Some p)
    then have p: "p < ?n" "p \<noteq> l" "?h l \<in> natural_body f (?h p)"
        "\<And>a. a < ?n \<Longrightarrow> a \<noteq> l \<Longrightarrow> ?h l \<in> natural_body f (?h a) \<Longrightarrow> card (natural_body f (?h p)) \<le> card (natural_body f (?h a))"
      using P at l by (simp_all add: parent_in_def cong: conj_cong)
    have "natural_body f (?h p) \<subseteq> natural_body f (?h a)"
      if a: "a < ?n" "natural_body f (?h l) \<subset> natural_body f (?h a)" for a
    proof -
      have "a \<noteq> l" "?h l \<in> natural_body f (?h a)" using a lp.header_in[OF l] by auto
      then show ?thesis using lp.parent_least[OF l p(1,3,4) a(1)] lp.inside[OF p(1) a(1)] by blast
    qed
    then show ?thesis using Some p lp.parent_strict[OF l p(1-3)] lp.parent_step[OF l p] by simp
  qed
  then show "case parent_in f m l of
     None \<Rightarrow> \<forall>a < ?n. a \<noteq> l \<longrightarrow> ?h l \<notin> natural_body f (?h a)
   | Some p \<Rightarrow> p < ?n \<and> natural_body f (?h l) \<subset> natural_body f (?h p) \<and>
       (\<forall>a < ?n. natural_body f (?h l) \<subset> natural_body f (?h a) \<longrightarrow> natural_body f (?h p) \<subseteq> natural_body f (?h a))"
    "case parent_in f m l of None \<Rightarrow> lp.nesting f l = 1 | Some p \<Rightarrow> p < ?n \<and> lp.nesting f l = Suc (lp.nesting f p)"
    by blast+
qed

lemma depths_spec:
  assumes law: "\<And>a. a < length ls \<Longrightarrow> case l_Parent (ls ! a) of None \<Rightarrow> D a = (1::nat) | Some p \<Rightarrow> p < length ls \<and> D a = Suc (D p)"
    and pos: "\<And>a. a < length ls \<Longrightarrow> 0 < D a" and zero: "\<And>a. a < length ls \<Longrightarrow> l_Depth (ls ! a) = 0"
  shows "fold_opt (\<lambda>l ls. Option.bind (depthOf ls l) (\<lambda>(_, ls'). Some ls')) [0..<length ls] ls =
    Some (map (\<lambda>a. (ls ! a)\<lparr>l_Depth := int (D a)\<rparr>) [0..<length ls])"
proof -
  define I where "I = (\<lambda>ys ls'. length ls' = length ls \<and> (\<forall>a \<in> set ys. ls' ! a = (ls ! a)\<lparr>l_Depth := int (D a)\<rparr>) \<and>
    (\<forall>a < length ls. ls' ! a = ls ! a \<or> ls' ! a = (ls ! a)\<lparr>l_Depth := int (D a)\<rparr>))"
  have "\<exists>ls'. fold_opt (\<lambda>l ls. Option.bind (depthOf ls l) (\<lambda>(_, ls'). Some ls')) [0..<length ls] ls = Some ls' \<and> I [0..<length ls] ls'"
  proof (rule fold_opt_invar[where I = I])
    fix l ys zs t assume split: "[0..<length ls] = ys @ l # zs" and t: "I ys t"
    have "l \<in> set [0..<length ls]" "set ys \<subseteq> set [0..<length ls]" unfolding split by auto
    then have l: "l < length t" "\<forall>a \<in> set ys. a < length ls" using t by (auto simp: I_def)
    have "\<exists>t'. depthOf t l = Some (int (D l), t') \<and> length t' = length t \<and> l_Depth (t' ! l) = int (D l) \<and>
        (\<forall>a < length t. t' ! a = t ! a \<or> t' ! a = (t ! a)\<lparr>l_Depth := int (D a)\<rparr>)"
    proof (rule depthOf_spec[OF l(1)])
      fix a assume "a < length t"
      then have a: "a < length ls" "t ! a = ls ! a \<or> t ! a = (ls ! a)\<lparr>l_Depth := int (D a)\<rparr>" using t by (auto simp: I_def)
      have len: "length t = length ls" using t by (simp add: I_def)
      show "case l_Parent (t ! a) of None \<Rightarrow> D a = 1 | Some p \<Rightarrow> p < length t \<and> D a = Suc (D p)"
        using law[OF a(1)] a(2) unfolding len by auto
      show "0 < D a" using pos a(1) by blast
      show "l_Depth (t ! a) = 0 \<or> l_Depth (t ! a) = int (D a)" using a zero[OF a(1)] by auto
    qed
    then obtain t' where t': "depthOf t l = Some (int (D l), t')" "length t' = length t" "l_Depth (t' ! l) = int (D l)"
      "\<forall>a < length t. t' ! a = t ! a \<or> t' ! a = (t ! a)\<lparr>l_Depth := int (D a)\<rparr>" by blast
    have each: "t' ! a = ls ! a \<or> t' ! a = (ls ! a)\<lparr>l_Depth := int (D a)\<rparr>" if "a < length ls" for a
    proof -
      have "t' ! a = t ! a \<or> t' ! a = (t ! a)\<lparr>l_Depth := int (D a)\<rparr>" "t ! a = ls ! a \<or> t ! a = (ls ! a)\<lparr>l_Depth := int (D a)\<rparr>"
        using t t'(4) that by (simp_all add: I_def)
      then show ?thesis by auto
    qed
    have "t' ! l = (ls ! l)\<lparr>l_Depth := int (D l)\<rparr>"
    proof -
      have ll: "l < length ls" using l(1) t by (simp add: I_def)
      have "0 < D l" using pos[OF ll] .
      then show ?thesis using each[OF ll] t'(3) zero[OF ll] by auto
    qed
    moreover have "t' ! a = (ls ! a)\<lparr>l_Depth := int (D a)\<rparr>" if "a \<in> set ys" for a
      using t t'(4) that l(2) by (auto simp: I_def)
    ultimately have "I (ys @ [l]) t'" using each t'(2) t by (auto simp: I_def)
    then show "\<exists>t'. Option.bind (depthOf t l) (\<lambda>(_, ls'). Some ls') = Some t' \<and> I (ys @ [l]) t'"
      using t'(1) by simp
  qed (simp add: I_def)
  then obtain ls' where ls': "fold_opt (\<lambda>l ls. Option.bind (depthOf ls l) (\<lambda>(_, ls'). Some ls')) [0..<length ls] ls = Some ls'"
    "I [0..<length ls] ls'" by blast
  have "ls' = map (\<lambda>a. (ls ! a)\<lparr>l_Depth := int (D a)\<rparr>) [0..<length ls]"
    using ls'(2) by (intro nth_equalityI) (auto simp: I_def)
  with ls'(1) show ?thesis by simp
qed

section \<open>The forest\<close>

lemma LoopForest_spec:
  assumes T: "dom_tree_of f c d g" and ok: "blocks_ok f" and rpo: "cfg_RPO c = cfg_RPO (computeRPO (fillPreds f) [])"
  shows "\<exists>lf m. LoopForest (fillPreds f) c d = Some lf \<and>
    (\<forall>h. is_header f h \<longrightarrow> (\<exists>ls. m h = Some ls \<and> set ls = {b. back_edge f b h})) \<and>
    lf_all lf = map (\<lambda>l. (fresh_loop f m (headers f ! l))\<lparr>l_Parent := parent_in f m l, l_Depth := int (lp.nesting f l)\<rparr>) [0..<length (headers f)] \<and>
    lf_Loops lf = sort_key (\<lambda>l. - l_Depth (lf_all lf ! l)) [0..<length (headers f)] \<and>
    lf_In lf = fold (in_loop (lf_all lf)) [0..<length (headers f)] (\<lambda>_. None) \<and>
    (\<forall>h l. lf_ByHeader lf h = Some l \<longleftrightarrow> l < length (headers f) \<and> headers f ! l = h)"
proof -
  let ?n = "length (headers f)" and ?lf0 = "\<lparr>lf_all = [], lf_Loops = [], lf_ByHeader = (\<lambda>_. None), lf_In = (\<lambda>_. None)\<rparr>"
  obtain m where m: "loop_latches f c d = Some m"
    "\<And>h. if is_header f h then \<exists>ls. m h = Some ls \<and> set ls = {b. back_edge f b h} else m h = None"
    using loop_latches_spec[OF T] by blast
  have "\<exists>lf. fold_opt (header_loop (fillPreds f) m) (cfg_RPO c) ?lf0 = Some lf \<and> forest_upto f m (cfg_RPO c) lf"
  proof (rule fold_opt_invar[where I = "forest_upto f m"])
    fix h ys zs lf assume "cfg_RPO c = ys @ h # zs" "forest_upto f m ys lf"
    then show "\<exists>lf'. header_loop (fillPreds f) m h lf = Some lf' \<and> forest_upto f m (ys @ [h]) lf'"
      using header_loop_spec[OF ok m(2)] dom_tree_ofD(2)[OF T] by simp
  qed (simp add: forest_upto_def)
  then obtain lf1 where lf1: "fold_opt (header_loop (fillPreds f) m) (cfg_RPO c) ?lf0 = Some lf1"
    "lf_all lf1 = map (fresh_loop f m) (headers f)" "lf_Loops lf1 = [0..<?n]" "lf_In lf1 = (\<lambda>_. None)"
    "\<And>h l. lf_ByHeader lf1 h = Some l \<longleftrightarrow> l < ?n \<and> headers f ! l = h"
    by (auto simp: forest_upto_def Let_def rpo headers_def)
  define ls where "ls = map (\<lambda>l. (lf_all lf1 ! l)\<lparr>l_Parent := loop_parent (lf_all lf1) l\<rparr>) [0..<length (lf_all lf1)]"
  have ls: "length ls = ?n" "\<And>l. l < ?n \<Longrightarrow> ls ! l = (fresh_loop f m (headers f ! l))\<lparr>l_Parent := parent_in f m l\<rparr>"
    by (simp_all add: ls_def lf1(2) parent_in_def)
  let ?ls' = "map (\<lambda>a. (ls ! a)\<lparr>l_Depth := int (lp.nesting f a)\<rparr>) [0..<?n]"
  have "fold_opt (\<lambda>l ls. Option.bind (depthOf ls l) (\<lambda>(_, ls'). Some ls')) [0..<length ls] ls =
      Some (map (\<lambda>a. (ls ! a)\<lparr>l_Depth := int (lp.nesting f a)\<rparr>) [0..<length ls])"
    by (rule depths_spec) (use ls parent_in_spec(2)[of _ f m] lp.nesting_pos[of _ f] in \<open>simp_all cong: option.case_cong\<close>)
  then have depths: "fold_opt (\<lambda>l ls. Option.bind (depthOf ls l) (\<lambda>(_, ls'). Some ls')) [0..<?n] ls = Some ?ls'"
    unfolding ls(1) .
  have n: "length (lf_all lf1) = ?n" by (simp add: lf1(2))
  have all: "?ls' = map (\<lambda>l. (fresh_loop f m (headers f ! l))\<lparr>l_Parent := parent_in f m l, l_Depth := int (lp.nesting f l)\<rparr>) [0..<?n]"
    by (simp add: ls(2))
  define lf where "lf = lf1\<lparr>lf_all := ?ls', lf_In := fold (in_loop ?ls') [0..<?n] (\<lambda>_. None), lf_Loops := sort_key (\<lambda>l. - l_Depth (?ls' ! l)) [0..<?n]\<rparr>"
  have "LoopForest (fillPreds f) c d = Some lf"
    unfolding LoopForest_def loop_latches_fillPreds m(1) lf_def
    by (simp add: lf1(1) Let_def ls_def[symmetric, unfolded n] n depths lf1(3,4))
  moreover have "\<forall>h. is_header f h \<longrightarrow> (\<exists>ls. m h = Some ls \<and> set ls = {b. back_edge f b h})"
    using m(2) by (metis option.distinct(1))
  moreover have "lf_all lf = ?ls'" "lf_Loops lf = sort_key (\<lambda>l. - l_Depth (lf_all lf ! l)) [0..<?n]"
    "lf_In lf = fold (in_loop (lf_all lf)) [0..<?n] (\<lambda>_. None)" by (simp_all add: lf_def)
  moreover have "\<forall>h l. lf_ByHeader lf h = Some l \<longleftrightarrow> l < ?n \<and> headers f ! l = h" using lf1(5) by (simp add: lf_def)
  ultimately show ?thesis unfolding all by (intro exI[of _ lf] exI[of _ m] conjI)
qed

text \<open>The same facts read off the loops of the forest.\<close>

lemma LoopForest_loops:
  assumes "dom_tree_of f c d g" "blocks_ok f" "cfg_RPO c = cfg_RPO (computeRPO (fillPreds f) [])"
  obtains lf m where "LoopForest (fillPreds f) c d = Some lf" "length (lf_all lf) = length (headers f)"
    "\<And>l. l < length (headers f) \<Longrightarrow> l_Header (lf_all lf ! l) = headers f ! l \<and> l_Body (lf_all lf ! l) = natural_body f (headers f ! l) \<and>
       set (l_Latches (lf_all lf ! l)) = {b. back_edge f b (headers f ! l)} \<and>
       l_Parent (lf_all lf ! l) = parent_in f m l \<and> l_Depth (lf_all lf ! l) = int (lp.nesting f l)"
    "lf_Loops lf = sort_key (\<lambda>l. - l_Depth (lf_all lf ! l)) [0..<length (headers f)]"
    "lf_In lf = fold (in_loop (lf_all lf)) [0..<length (headers f)] (\<lambda>_. None)"
    "\<And>h l. lf_ByHeader lf h = Some l \<longleftrightarrow> l < length (headers f) \<and> headers f ! l = h"
proof -
  obtain lf m where lf: "LoopForest (fillPreds f) c d = Some lf"
    "\<And>h. is_header f h \<longrightarrow> (\<exists>ls. m h = Some ls \<and> set ls = {b. back_edge f b h})"
    "lf_all lf = map (\<lambda>l. (fresh_loop f m (headers f ! l))\<lparr>l_Parent := parent_in f m l, l_Depth := int (lp.nesting f l)\<rparr>) [0..<length (headers f)]"
    "lf_Loops lf = sort_key (\<lambda>l. - l_Depth (lf_all lf ! l)) [0..<length (headers f)]"
    "lf_In lf = fold (in_loop (lf_all lf)) [0..<length (headers f)] (\<lambda>_. None)"
    "\<And>h l. lf_ByHeader lf h = Some l \<longleftrightarrow> l < length (headers f) \<and> headers f ! l = h"
    using LoopForest_spec[OF assms] by blast
  have at: "l_Header (lf_all lf ! l) = headers f ! l \<and> l_Body (lf_all lf ! l) = natural_body f (headers f ! l) \<and>
       set (l_Latches (lf_all lf ! l)) = {b. back_edge f b (headers f ! l)} \<and>
       l_Parent (lf_all lf ! l) = parent_in f m l \<and> l_Depth (lf_all lf ! l) = int (lp.nesting f l)" if l: "l < length (headers f)" for l
    using lf(2)[of "headers f ! l"] header_nth[OF l] l by (auto simp: lf(3) fresh_loop_def)
  have "length (lf_all lf) = length (headers f)" by (simp add: lf(3))
  then show ?thesis by (rule that[OF lf(1) _ at lf(4,5,6)])
qed

text \<open>The forest of a function, with fresh maps; an inner loop 2 inside an outer loop from 1.\<close>

definition loop_forest_of :: "func \<Rightarrow> (loopforest \<times> (bptr \<rightharpoonup> int)) option" where
  "loop_forest_of f = (case BuildCFG None [] f of (c, f', _) \<Rightarrow>
     Option.bind (Dominators None [] f' c) (\<lambda>(d, _).
     Option.bind (LoopForest f' c d) (\<lambda>lf. Option.bind (LoopDepth f' c d) (\<lambda>depth. Some (lf, depth)))))"

definition nested_loops :: func where
  "nested_loops = func0\<lparr>f_Start := Some 0, f_Blocks := [0, 1, 2, 3], f_arena := [
     block0\<lparr>b_Jmp := jmp0\<lparr>j_Kind := JmpJmp, j_To := Some 1\<rparr>\<rparr>,
     block0\<lparr>b_Jmp := jmp0\<lparr>j_Kind := JmpJnz, j_To := Some 2, j_To2 := Some 3\<rparr>\<rparr>,
     block0\<lparr>b_Jmp := jmp0\<lparr>j_Kind := JmpJnz, j_To := Some 2, j_To2 := Some 1\<rparr>\<rparr>,
     block0\<lparr>b_Jmp := jmp0\<lparr>j_Kind := JmpRet\<rparr>\<rparr>]\<rparr>"

lemma nested_loops_graph:
  "cfg_Succs (blk nested_loops 0) = [Some 1]" "cfg_Succs (blk nested_loops 1) = [Some 2, Some 3]"
  "cfg_Succs (blk nested_loops 2) = [Some 2, Some 1]" "cfg_Succs (blk nested_loops 3) = []"
  "f_Start nested_loops = Some 0" "f_Blocks nested_loops = [0, 1, 2, 3]" "length (f_arena nested_loops) = 4"
  by (simp_all add: nested_loops_def cfg_Succs_eq block_Succs_def blk_def block0_def jmp0_def func0_def)

lemma nested_loops_ok: "blocks_ok nested_loops"
  by (simp add: blocks_ok_def nested_loops_graph del: One_nat_def)

lemma nested_loops_reachable: "reachable nested_loops 2"
proof -
  have e: "cfg_edge nested_loops 0 1" "cfg_edge nested_loops 1 2"
    by (simp_all add: cfg_edge_def nested_loops_graph del: One_nat_def)
  have "(0, 1) \<in> (cfg_edges nested_loops)\<^sup>*" using e(1) by blast
  then have "(0, 2) \<in> (cfg_edges nested_loops)\<^sup>*" by (rule rtrancl_into_rtrancl) (use e(2) in blast)
  then show ?thesis by (simp add: reachable_def nested_loops_graph)
qed

lemma nested_loops_build:
  obtains c f' p1' d p2' where "BuildCFG None [] nested_loops = (c, f', p1')" "Dominators None [] f' c = Some (d, p2')"
proof -
  have cl: "pool_clean []" by (simp add: pool_clean_def)
  obtain c f' p1' where b: "BuildCFG None [] nested_loops = (c, f', p1')" by (metis prod_cases3)
  with Dominators_facts[OF nested_loops_ok cl cl b, of None] that show ?thesis by blast
qed

text \<open>
  C6: \<open>LoopForest\<close> finds exactly the natural loops.  It returns; there is one loop per target of a back
  edge (an edge whose target dominates its source), found under its header; its latches are the
  sources of these edges and its body the header with every block that reaches a latch without
  passing through the header.  The parent of a loop is the smallest loop that strictly contains it,
  and \<open>Loops\<close> lists every loop once, no loop before a deeper one.
\<close>

theorem LoopForest_exact:
  assumes "blocks_ok f" "pool_clean p1" "pool_clean p2" "BuildCFG pick1 p1 f = (c, f', p1')"
    "Dominators pick2 p2 f' c = Some (d, p2')"
  shows "\<exists>lf. LoopForest f' c d = Some lf \<and> (let ls = lf_all lf; n = length ls in
    l_Header ` set ls = {h. is_header f h} \<and> distinct (map l_Header ls) \<and>
    (\<forall>h l. lf_ByHeader lf h = Some l \<longleftrightarrow> l < n \<and> l_Header (ls ! l) = h) \<and>
    (\<forall>l \<in> set ls. set (l_Latches l) = {b. back_edge f b (l_Header l)} \<and> l_Body l = natural_body f (l_Header l)) \<and>
    (\<forall>l < n. case l_Parent (ls ! l) of
       None \<Rightarrow> \<forall>a < n. a \<noteq> l \<longrightarrow> l_Header (ls ! l) \<notin> l_Body (ls ! a)
     | Some p \<Rightarrow> p < n \<and> l_Body (ls ! l) \<subset> l_Body (ls ! p) \<and>
         (\<forall>a < n. l_Body (ls ! l) \<subset> l_Body (ls ! a) \<longrightarrow> l_Body (ls ! p) \<subseteq> l_Body (ls ! a))) \<and>
    set (lf_Loops lf) = {..<n} \<and> distinct (lf_Loops lf) \<and> sorted_wrt (\<lambda>a b. l_Depth (ls ! b) \<le> l_Depth (ls ! a)) (lf_Loops lf))"
proof -
  note b = BuildCFG_clean[OF assms(2,4)]
  obtain g where T: "dom_tree_of f c d g" using Dominators_facts[OF assms(1-4), of pick2] assms(5) by auto
  obtain lf m where lf: "LoopForest (fillPreds f) c d = Some lf" "length (lf_all lf) = length (headers f)"
    "\<And>l. l < length (headers f) \<Longrightarrow> l_Header (lf_all lf ! l) = headers f ! l \<and> l_Body (lf_all lf ! l) = natural_body f (headers f ! l) \<and>
       set (l_Latches (lf_all lf ! l)) = {b. back_edge f b (headers f ! l)} \<and>
       l_Parent (lf_all lf ! l) = parent_in f m l \<and> l_Depth (lf_all lf ! l) = int (lp.nesting f l)"
    "lf_Loops lf = sort_key (\<lambda>l. - l_Depth (lf_all lf ! l)) [0..<length (headers f)]"
    "\<And>h l. lf_ByHeader lf h = Some l \<longleftrightarrow> l < length (headers f) \<and> headers f ! l = h"
    by (rule LoopForest_loops[OF T assms(1)]) (simp_all add: b(1))
  let ?ls = "lf_all lf" and ?n = "length (headers f)"
  have hd: "map l_Header ?ls = headers f" using lf(2,3) by (intro nth_equalityI) auto
  have "l_Header ` set ?ls = {h. is_header f h}" using hd set_headers by (metis set_map)
  moreover have "distinct (map l_Header ?ls)" using hd distinct_headers by simp
  moreover have "lf_ByHeader lf h = Some l \<longleftrightarrow> l < ?n \<and> l_Header (?ls ! l) = h" for h l using lf(3,5) by auto
  moreover have "set (l_Latches l) = {b. back_edge f b (l_Header l)} \<and> l_Body l = natural_body f (l_Header l)" if "l \<in> set ?ls" for l
    using that lf(2,3) by (auto simp: in_set_conv_nth)
  moreover have "case l_Parent (?ls ! l) of
       None \<Rightarrow> \<forall>a < ?n. a \<noteq> l \<longrightarrow> l_Header (?ls ! l) \<notin> l_Body (?ls ! a)
     | Some p \<Rightarrow> p < ?n \<and> l_Body (?ls ! l) \<subset> l_Body (?ls ! p) \<and>
         (\<forall>a < ?n. l_Body (?ls ! l) \<subset> l_Body (?ls ! a) \<longrightarrow> l_Body (?ls ! p) \<subseteq> l_Body (?ls ! a))" if "l < ?n" for l
    using parent_in_spec(1)[OF that, of m] lf(3) that by (auto split: option.splits)
  moreover have "sorted_wrt (\<lambda>a b. l_Depth (?ls ! b) \<le> l_Depth (?ls ! a)) (lf_Loops lf)"
    using sorted_sort_key[of "\<lambda>l. - l_Depth (?ls ! l)" "[0..<?n]"] by (simp add: lf(4) sorted_wrt_map)
  moreover have "set (lf_Loops lf) = {..<?n}" "distinct (lf_Loops lf)" by (auto simp: lf(4))
  ultimately show ?thesis using lf(1) b(2) by (intro exI[of _ lf]) (simp add: Let_def lf(2) cong: option.case_cong)
qed

lemma nested_loops_header: "is_header nested_loops 2"
proof -
  have "Some 2 \<in> set (block_Succs (blk nested_loops 2))"
    by (simp add: nested_loops_def block_Succs_def blk_def block0_def jmp0_def func0_def)
  moreover have "block_dominates nested_loops 2 2" using body_dominated[of 2 nested_loops 2] by (simp add: natural_body_def)
  ultimately show ?thesis using nested_loops_reachable by (auto simp: is_header_def back_edge_def)
qed

theorem LoopForest_exact_witness:
  "\<exists>lf depth. loop_forest_of nested_loops = Some (lf, depth) \<and> is_header nested_loops 2 \<and> (\<exists>l \<in> set (lf_all lf). l_Header l = 2)"
proof -
  have cl: "pool_clean []" by (simp add: pool_clean_def)
  obtain c f' p1' d p2' where b: "BuildCFG None [] nested_loops = (c, f', p1')" "Dominators None [] f' c = Some (d, p2')"
    by (rule nested_loops_build)
  obtain lf where lf: "LoopForest f' c d = Some lf" "l_Header ` set (lf_all lf) = {h. is_header nested_loops h}"
    using LoopForest_exact[OF nested_loops_ok cl cl b] by (auto simp: Let_def)
  then have "\<exists>l \<in> set (lf_all lf). l_Header l = 2" using nested_loops_header by (metis (mono_tags) imageE mem_Collect_eq)
  moreover obtain depth where "loop_forest_of nested_loops = Some (lf, depth)"
    using lf(1) b by (simp add: loop_forest_of_def LoopDepth_def)
  ultimately show ?thesis using nested_loops_header by blast
qed

text \<open>
  C7: the depth of a block is the number of loops around it.  Two natural loops that share a reachable
  block are nested whatever the graph, reducible or not, so \<open>LoopDepth\<close> of a reachable block is
  the number of natural loops that contain it, and \<open>In\<close> names the innermost one.
\<close>

theorem LoopDepth_counts_loops:
  assumes "blocks_ok f" "pool_clean p1" "pool_clean p2" "BuildCFG pick1 p1 f = (c, f', p1')"
    "Dominators pick2 p2 f' c = Some (d, p2')" "reachable f b"
  shows "\<exists>depth lf. LoopDepth f' c d = Some depth \<and> LoopForest f' c d = Some lf \<and>
    (case depth b of None \<Rightarrow> 0 | Some n \<Rightarrow> n) = int (card {h. is_header f h \<and> b \<in> natural_body f h}) \<and>
    (case lf_In lf b of
       None \<Rightarrow> \<forall>h. is_header f h \<longrightarrow> b \<notin> natural_body f h
     | Some l \<Rightarrow> is_header f (l_Header (lf_all lf ! l)) \<and> b \<in> natural_body f (l_Header (lf_all lf ! l)) \<and>
         (\<forall>h. is_header f h \<longrightarrow> b \<in> natural_body f h \<longrightarrow> natural_body f (l_Header (lf_all lf ! l)) \<subseteq> natural_body f h))"
proof -
  note bc = BuildCFG_clean[OF assms(2,4)]
  obtain g where T: "dom_tree_of f c d g" using Dominators_facts[OF assms(1-4), of pick2] assms(5) by auto
  obtain lf m where lf: "LoopForest (fillPreds f) c d = Some lf" "length (lf_all lf) = length (headers f)"
    "\<And>l. l < length (headers f) \<Longrightarrow> l_Header (lf_all lf ! l) = headers f ! l \<and> l_Body (lf_all lf ! l) = natural_body f (headers f ! l) \<and>
       set (l_Latches (lf_all lf ! l)) = {b. back_edge f b (headers f ! l)} \<and>
       l_Parent (lf_all lf ! l) = parent_in f m l \<and> l_Depth (lf_all lf ! l) = int (lp.nesting f l)"
    "lf_In lf = fold (in_loop (lf_all lf)) [0..<length (headers f)] (\<lambda>_. None)"
    by (rule LoopForest_loops[OF T assms(1)]) (simp_all add: bc(1))
  let ?n = "length (headers f)"
  have hs: "{h. is_header f h \<and> b \<in> natural_body f h} = (!) (headers f) ` lp.around f b"
  proof (rule set_eqI)
    fix h
    have "h \<in> {h. is_header f h \<and> b \<in> natural_body f h} \<longleftrightarrow> h \<in> set (headers f) \<and> b \<in> natural_body f h"
      by (simp add: set_headers)
    also have "\<dots> \<longleftrightarrow> (\<exists>l < ?n. headers f ! l = h \<and> b \<in> natural_body f (headers f ! l))"
      unfolding in_set_conv_nth by blast
    finally show "h \<in> {h. is_header f h \<and> b \<in> natural_body f h} \<longleftrightarrow> h \<in> (!) (headers f) ` lp.around f b"
      by (auto simp: lp.around_def)
  qed
  have "inj_on ((!) (headers f)) (lp.around f b)"
    using distinct_headers[of f] by (auto simp: inj_on_def lp.around_def nth_eq_iff_index_eq)
  then have num: "card {h. is_header f h \<and> b \<in> natural_body f h} = card (lp.around f b)" unfolding hs by (rule card_image)
  note I = in_loop_spec[where ls = "lf_all lf" and k = ?n and b = b, folded lf(4)]
  show ?thesis
  proof (cases "lf_In lf b")
    case None
    then have "lp.around f b = {}" using I lf(3) by (auto simp: lp.around_def)
    then show ?thesis using None lf(1) hs num bc(2) by (auto simp: LoopDepth_def)
  next
    case (Some l)
    then have l: "l < ?n" "b \<in> natural_body f (headers f ! l)"
        "\<And>a. a < ?n \<Longrightarrow> b \<in> natural_body f (headers f ! a) \<Longrightarrow> lp.nesting f a \<le> lp.nesting f l"
      using I lf(3) by auto
    then have la: "l \<in> lp.around f b" by (simp add: lp.around_def)
    have deep: "\<And>a. a \<in> lp.around f b \<Longrightarrow> lp.nesting f a \<le> lp.nesting f l" using l(3) by (simp add: lp.around_def)
    have b: "b \<in> Collect (reachable f)" using assms(6) by simp
    have "card (lp.around f b) = lp.nesting f l" using lp.deepest(1)[OF la b deep] by (simp add: lp.nesting_def)
    moreover have "natural_body f (headers f ! l) \<subseteq> natural_body f h" if h: "is_header f h" "b \<in> natural_body f h" for h
    proof -
      obtain a where "a \<in> lp.around f b" "h = headers f ! a" using h hs by auto
      then show ?thesis using lp.deepest(2)[OF la b deep] by simp
    qed
    ultimately show ?thesis using Some lf(1,3) l(1,2) num header_nth[OF l(1)] bc(2) by (simp add: LoopDepth_def)
  qed
qed

theorem LoopDepth_counts_loops_witness:
  "\<exists>lf depth n. loop_forest_of nested_loops = Some (lf, depth) \<and> depth 2 = Some n \<and> 0 < n \<and>
     n = int (card {h. is_header nested_loops h \<and> 2 \<in> natural_body nested_loops h})"
proof -
  have cl: "pool_clean []" by (simp add: pool_clean_def)
  obtain c f' p1' d p2' where b: "BuildCFG None [] nested_loops = (c, f', p1')" "Dominators None [] f' c = Some (d, p2')"
    by (rule nested_loops_build)
  obtain depth lf where D: "LoopDepth f' c d = Some depth" "LoopForest f' c d = Some lf"
    "(case depth 2 of None \<Rightarrow> 0 | Some n \<Rightarrow> n) = int (card {h. is_header nested_loops h \<and> 2 \<in> natural_body nested_loops h})"
    using LoopDepth_counts_loops[OF nested_loops_ok cl cl b nested_loops_reachable] by auto
  have "finite {h. is_header nested_loops h \<and> 2 \<in> natural_body nested_loops h}"
    by (rule finite_subset[OF _ finite_set[of "headers nested_loops"]]) (auto simp only: set_headers)
  moreover have "2 \<in> {h. is_header nested_loops h \<and> 2 \<in> natural_body nested_loops h}"
    using nested_loops_header by (simp add: natural_body_def)
  ultimately have "0 < card {h. is_header nested_loops h \<and> 2 \<in> natural_body nested_loops h}" by (auto simp: card_gt_0_iff)
  moreover have "loop_forest_of nested_loops = Some (lf, depth)" using D(1,2) b by (simp add: loop_forest_of_def)
  ultimately show ?thesis using D(3) by (cases "depth 2") auto
qed

end
