(* ===== verification/SSA_Check.thy ===== *)
theory SSA_Check
  imports Dominators
begin

text \<open>
  The dominance check of pre-lowering SSA (\<open>analysis/ssacheck.go\<close>).  A verdict is \<open>Inr ()\<close> or the
  error of the first use that fails; an outer \<open>None\<close> is a panic.
\<close>

section \<open>The check\<close>

datatype ssa_error = NotDominated string string string nat

type_synonym verdict = "(ssa_error + unit) option"

definition vd_ok :: verdict where
  "vd_ok = Some (Inr ())"

text \<open>\<open>if err := ...; err != nil { return err }\<close>\<close>

definition vd_then :: "verdict \<Rightarrow> verdict \<Rightarrow> verdict" where
  "vd_then a k = (case a of None \<Rightarrow> None | Some (Inl e) \<Rightarrow> Some (Inl e) | Some (Inr _) \<Rightarrow> k)"

fun vd_all :: "('a \<Rightarrow> verdict) \<Rightarrow> 'a list \<Rightarrow> verdict" where
  "vd_all check [] = vd_ok"
| "vd_all check (x # xs) = vd_then (check x) (vd_all check xs)"

type_synonym defsite = "bptr \<times> int"

definition record_def :: "ref \<Rightarrow> bptr \<Rightarrow> int \<Rightarrow> (nat \<Rightarrow> defsite option) \<Rightarrow> nat \<Rightarrow> defsite option" where
  "record_def r b idx m = (if r_Kind r = RefTemp then m(r_ID r \<mapsto> (b, idx)) else m)"

definition record_params :: "func \<Rightarrow> (nat \<Rightarrow> defsite option) \<Rightarrow> nat \<Rightarrow> defsite option" where
  "record_params f m = (case f_Start f of
     None \<Rightarrow> m
   | Some e \<Rightarrow> fold (\<lambda>p. record_def (tempRef (t_ID (f_Temps f ! p))) e (-1)) (f_Params f) m)"

definition record_instr :: "func \<Rightarrow> bptr \<Rightarrow> nat \<times> instr \<Rightarrow> (nat \<Rightarrow> defsite option) \<Rightarrow> nat \<Rightarrow> defsite option" where
  "record_instr f b = (\<lambda>(i, x) m.
     let m1 = (if op_IsAlloc (in_Op x) \<and> f_Start f \<noteq> None
               then record_def (in_To x) (the (f_Start f)) (-1) m
               else record_def (in_To x) b (int i) m)
     in fold (\<lambda>d. record_def d b (int i)) (instr_Defs x) m1)"

definition defOf :: "func \<Rightarrow> nat \<Rightarrow> defsite option" where
  "defOf f = fold (\<lambda>b m. fold (record_instr f b) (enumerate 0 (b_Instrs (blk f b)))
       (fold (\<lambda>p. record_def (p_To p) b (-1)) (b_Phis (blk f b)) m))
     (f_Blocks f) (record_params f (\<lambda>_. None))"

definition vd_check :: "func \<Rightarrow> cfg \<Rightarrow> domtree \<Rightarrow> (nat \<Rightarrow> defsite option) \<Rightarrow> string \<Rightarrow> string \<Rightarrow> ref \<Rightarrow> bptr \<Rightarrow> int \<Rightarrow> verdict" where
  "vd_check f c d defs whr what r useBlk useIdx =
     (if r_Kind r \<noteq> RefTemp then vd_ok
      else Option.bind (cfg_Reachable c useBlk) (\<lambda>live.
        if \<not> live then vd_ok
        else case defs (r_ID r) of
          None \<Rightarrow> vd_ok
        | Some (db, di) \<Rightarrow>
            if db = useBlk then (if di < useIdx then vd_ok else Some (Inl (NotDominated (f_Name f) whr what (r_ID r))))
            else Option.bind (Dominates d db (Some useBlk)) (\<lambda>dom.
              if dom then vd_ok else Some (Inl (NotDominated (f_Name f) whr what (r_ID r))))))"

definition vd_phi :: "func \<Rightarrow> cfg \<Rightarrow> domtree \<Rightarrow> (nat \<Rightarrow> defsite option) \<Rightarrow> bptr \<Rightarrow> phi \<Rightarrow> verdict" where
  "vd_phi f c d defs b p = vd_all (\<lambda>(k, a).
     if k < length (p_Blocks p)
     then case p_Blocks p ! k of
            None \<Rightarrow> vd_ok
          | Some pred \<Rightarrow> vd_check f c d defs (b_Name (blk f b)) ''phi'' a pred (int (length (b_Instrs (blk f pred))))
     else None) (enumerate 0 (p_Args p))"

definition vd_block :: "func \<Rightarrow> cfg \<Rightarrow> domtree \<Rightarrow> (nat \<Rightarrow> defsite option) \<Rightarrow> bptr \<Rightarrow> verdict" where
  "vd_block f c d defs b = Option.bind (cfg_Reachable c b) (\<lambda>live.
     if \<not> live then vd_ok
     else let nm = b_Name (blk f b); end' = int (length (b_Instrs (blk f b))) in
       vd_then (vd_all (vd_phi f c d defs b) (b_Phis (blk f b)))
       (vd_then (vd_all (\<lambda>(i, x). vd_all (\<lambda>a. vd_check f c d defs nm (op_String (in_Op x)) a b (int i)) (in_Args x))
                  (enumerate 0 (b_Instrs (blk f b))))
       (vd_then (vd_check f c d defs nm ''terminator'' (j_Arg (b_Jmp (blk f b))) b end')
         (vd_all (\<lambda>a. vd_check f c d defs nm ''terminator'' a b end') (j_Args (b_Jmp (blk f b)))))))"

text \<open>The CFG and the tree are built with fresh maps; \<open>BuildCFG\<close> also refreshes the predecessor lists.\<close>

definition VerifyDominance :: "func \<Rightarrow> verdict" where
  "VerifyDominance f =
     (if f_lowered f \<noteq> [] then vd_ok
      else case BuildCFG None [] f of (c, f', _) \<Rightarrow>
        Option.bind (Dominators None [] f' c) (\<lambda>(d, _).
          vd_all (vd_block f' c d (defOf f')) (f_Blocks f')))"

definition VerifyDominanceModule :: "func list \<Rightarrow> verdict" where
  "VerifyDominanceModule fs = vd_all VerifyDominance fs"

section \<open>What the check establishes\<close>

lemma vd_then_ok [simp]: "vd_then a k = Some (Inr u) \<longleftrightarrow> a = vd_ok \<and> k = Some (Inr u)"
  by (auto simp: vd_then_def vd_ok_def split: option.splits sum.splits)

lemma vd_all_ok: "vd_all check xs = Some (Inr u) \<longleftrightarrow> (\<forall>x \<in> set xs. check x = vd_ok)"
  by (induction xs) (auto simp: vd_ok_def)

lemma vd_all_ok': "vd_all check xs = vd_ok \<longleftrightarrow> (\<forall>x \<in> set xs. check x = vd_ok)"
  using vd_all_ok[of check xs "()"] by (simp add: vd_ok_def)

lemma vd_then_ok' [simp]: "vd_then a k = vd_ok \<longleftrightarrow> a = vd_ok \<and> k = vd_ok"
  unfolding vd_ok_def[of] by (metis vd_then_ok vd_ok_def)

lemma vd_all_total: "(\<And>x. x \<in> set xs \<Longrightarrow> check x \<noteq> None) \<Longrightarrow> vd_all check xs \<noteq> None"
  by (induction xs) (auto simp: vd_ok_def vd_then_def split: option.splits sum.splits)

lemma vd_then_total: "a \<noteq> None \<Longrightarrow> k \<noteq> None \<Longrightarrow> vd_then a k \<noteq> None"
  by (auto simp: vd_then_def split: option.splits sum.splits)

text \<open>
  The uses of a block: what is read, the block where it is read and the position there.  A phi
  operand is read at the end of the predecessor it arrives from.
\<close>

definition block_uses :: "func \<Rightarrow> bptr \<Rightarrow> (ref \<times> bptr \<times> int) set" where
  "block_uses f b =
     {(a, pred, int (length (b_Instrs (blk f pred)))) | a pred p k. p \<in> set (b_Phis (blk f b)) \<and> k < length (p_Args p) \<and>
        p_Args p ! k = a \<and> p_Blocks p ! k = Some pred} \<union>
     {(a, b, int i) | a i. i < length (b_Instrs (blk f b)) \<and> a \<in> set (in_Args (b_Instrs (blk f b) ! i))} \<union>
     {(a, b, int (length (b_Instrs (blk f b)))) | a. a = j_Arg (b_Jmp (blk f b)) \<or> a \<in> set (j_Args (b_Jmp (blk f b)))}"

text \<open>A use of a temporary at a reachable place is preceded by the definition on every path.\<close>

definition use_dominated :: "func \<Rightarrow> ref \<times> bptr \<times> int \<Rightarrow> bool" where
  "use_dominated f = (\<lambda>(r, ub, ui). r_Kind r = RefTemp \<longrightarrow> reachable f ub \<longrightarrow>
     (case defOf f (r_ID r) of None \<Rightarrow> True
      | Some (db, di) \<Rightarrow> if db = ub then di < ui else block_dominates f db ub))"

lemma ball_enumerate: "(\<forall>x \<in> set (enumerate 0 xs). P x) \<longleftrightarrow> (\<forall>k < length xs. P (k, xs ! k))"
  by (fastforce simp: in_set_enumerate_eq)

lemma defOf_preds_only: "preds_only f g \<Longrightarrow> defOf g = defOf f"
proof -
  assume po: "preds_only f g"
  show ?thesis
    unfolding defOf_def record_params_def record_instr_def by (simp only: preds_only_sel[OF po])
qed

lemma block_uses_preds_only: "preds_only f g \<Longrightarrow> block_uses g b = block_uses f b"
  by (simp add: block_uses_def preds_only_sel)

lemma vd_check_iff:
  assumes "cfg_Reachable c ub = Some (reachable f ub)"
    and "reachable f ub \<Longrightarrow> (\<And>a. Dominates d a (Some ub) = Some (block_dominates f a ub))"
  shows "vd_check g c d (defOf f) whr what r ub ui \<noteq> None"
    "vd_check g c d (defOf f) whr what r ub ui = vd_ok \<longleftrightarrow> use_dominated f (r, ub, ui)"
  using assms by (auto simp: vd_check_def use_dominated_def vd_ok_def split: option.splits)

lemma vd_block_iff:
  assumes R: "\<And>b. cfg_Reachable c b = Some (reachable f b)"
    and dom: "\<And>a b. reachable f b \<Longrightarrow> Dominates d a (Some b) = Some (block_dominates f a b)"
    and phis: "\<forall>p \<in> set (b_Phis (blk g b)). length (p_Args p) \<le> length (p_Blocks p)"
  shows "vd_block g c d (defOf f) b \<noteq> None"
    "vd_block g c d (defOf f) b = vd_ok \<longleftrightarrow> (reachable f b \<longrightarrow> (\<forall>u \<in> block_uses g b. use_dominated f u))"
proof -
  note ck = vd_check_iff[OF R dom]
  have phi_total: "vd_phi g c d (defOf f) b p \<noteq> None" if "p \<in> set (b_Phis (blk g b))" for p
  proof -
    have "length (p_Args p) \<le> length (p_Blocks p)" using phis that by blast
    then show ?thesis unfolding vd_phi_def
      by (intro vd_all_total) (auto simp: in_set_enumerate_eq vd_ok_def ck(1)[unfolded not_None_eq] dest: less_le_trans split: option.splits)
  qed
  have phi_ok: "vd_phi g c d (defOf f) b p = vd_ok \<longleftrightarrow>
    (\<forall>k < length (p_Args p). \<forall>pred. p_Blocks p ! k = Some pred \<longrightarrow> use_dominated f (p_Args p ! k, pred, int (length (b_Instrs (blk g pred)))))"
    if "p \<in> set (b_Phis (blk g b))" for p
  proof -
    have "length (p_Args p) \<le> length (p_Blocks p)" using phis that by blast
    then show ?thesis unfolding vd_phi_def vd_all_ok' ball_enumerate
      by (auto simp: ck(2) split: option.splits)
  qed
  show "vd_block g c d (defOf f) b \<noteq> None"
  proof (cases "reachable f b")
    case True
    have "vd_then (vd_all (vd_phi g c d (defOf f) b) (b_Phis (blk g b)))
       (vd_then (vd_all (\<lambda>(i, x). vd_all (\<lambda>a. vd_check g c d (defOf f) (b_Name (blk g b)) (op_String (in_Op x)) a b (int i)) (in_Args x))
                  (enumerate 0 (b_Instrs (blk g b))))
       (vd_then (vd_check g c d (defOf f) (b_Name (blk g b)) ''terminator'' (j_Arg (b_Jmp (blk g b))) b (int (length (b_Instrs (blk g b)))))
         (vd_all (\<lambda>a. vd_check g c d (defOf f) (b_Name (blk g b)) ''terminator'' a b (int (length (b_Instrs (blk g b))))) (j_Args (b_Jmp (blk g b)))))) \<noteq> None"
      by (intro vd_then_total vd_all_total; (unfold split_beta)?; (rule vd_all_total)?) (rule phi_total ck(1); assumption?)+
    then show ?thesis unfolding vd_block_def Let_def R using True by simp
  qed (simp add: vd_block_def R vd_ok_def)
  show "vd_block g c d (defOf f) b = vd_ok \<longleftrightarrow> (reachable f b \<longrightarrow> (\<forall>u \<in> block_uses g b. use_dominated f u))"
  proof (cases "reachable f b")
    case True
    have "vd_block g c d (defOf f) b = vd_ok \<longleftrightarrow>
      (\<forall>p \<in> set (b_Phis (blk g b)). vd_phi g c d (defOf f) b p = vd_ok) \<and>
      (\<forall>(i, x) \<in> set (enumerate 0 (b_Instrs (blk g b))). \<forall>a \<in> set (in_Args x). use_dominated f (a, b, int i)) \<and>
      use_dominated f (j_Arg (b_Jmp (blk g b)), b, int (length (b_Instrs (blk g b)))) \<and>
      (\<forall>a \<in> set (j_Args (b_Jmp (blk g b))). use_dominated f (a, b, int (length (b_Instrs (blk g b)))))"
      unfolding vd_block_def Let_def R using True by (auto simp: vd_all_ok' ck(2) split_beta)
    also have "\<dots> \<longleftrightarrow> (\<forall>u \<in> block_uses g b. use_dominated f u)"
      unfolding block_uses_def ball_enumerate by (auto simp: phi_ok) blast+
    finally show ?thesis using True by blast
  qed (simp add: vd_block_def R)
qed


text \<open>
  The diamond with temp 0 defined in one arm and returned at the join, which no path through the
  other arm defines.
\<close>

definition example_undominated :: func where
  "example_undominated = func0\<lparr>f_Start := Some 0, f_Blocks := [0, 1, 2], f_arena := [
     block0\<lparr>b_Jmp := jmp0\<lparr>j_Kind := JmpJnz, j_To := Some 1, j_To2 := Some 2\<rparr>\<rparr>,
     block0\<lparr>b_Instrs := [instr0\<lparr>in_Op := OCopy, in_To := tempRef 0\<rparr>], b_Jmp := jmp0\<lparr>j_Kind := JmpJmp, j_To := Some 2\<rparr>\<rparr>,
     block0\<lparr>b_Jmp := jmp0\<lparr>j_Kind := JmpRet, j_Arg := tempRef 0\<rparr>\<rparr>]\<rparr>"


end
