(* ===== verification/Intrinsics.thy ===== *)
theory Intrinsics
  imports Prelude
begin

text \<open>
  The registry of intrinsics (\<open>ir/intrinsic.go\<close>): names with the effects the optimizer reads.  The
  registry is filled once, by the package initializer; a duplicate name panics (\<open>None\<close>).
\<close>

record intrinsicEffects =
  ie_HasResult :: bool
  ie_SideEffect :: bool
  ie_Pure :: bool
  ie_ReadsMemory :: bool
  ie_WritesMemory :: bool
  ie_EscapesArgs :: bool

definition effects0 :: intrinsicEffects where
  "effects0 = \<lparr>ie_HasResult = False, ie_SideEffect = False, ie_Pure = False, ie_ReadsMemory = False,
     ie_WritesMemory = False, ie_EscapesArgs = False\<rparr>"

type_synonym intrinsics = "(string \<times> intrinsicEffects) list"

definition RegisterIntrinsic :: "string \<times> intrinsicEffects \<Rightarrow> intrinsics \<Rightarrow> intrinsics option" where
  "RegisterIntrinsic = (\<lambda>(name, eff) reg. if map_of reg name \<noteq> None then None else Some ((name, eff) # reg))"

definition lookupIn :: "intrinsics \<Rightarrow> string \<Rightarrow> intrinsicEffects option" where
  "lookupIn reg name = map_of reg name"

definition stack_entries :: intrinsics where
  "stack_entries =
     [(''stacksave'', effects0\<lparr>ie_HasResult := True\<rparr>),
      (''stackrestore'', effects0\<lparr>ie_SideEffect := True\<rparr>),
      (''constant_p'', effects0\<lparr>ie_HasResult := True, ie_Pure := True\<rparr>),
      (''getcallerpc'', effects0\<lparr>ie_HasResult := True\<rparr>),
      (''getcallersp'', effects0\<lparr>ie_HasResult := True\<rparr>)]"

definition registerFloatMath :: intrinsics where
  "registerFloatMath = concat (map (\<lambda>operation. map (\<lambda>width.
       (''float.'' @ operation @ ''.'' @ width, effects0\<lparr>ie_HasResult := True, ie_Pure := True\<rparr>)) [''s'', ''d''])
     [''sqrt'', ''abs'', ''roundeven'', ''roundaway'', ''ceil'', ''floor'', ''trunc''])"

definition registerAtomics :: intrinsics where
  "registerAtomics =
     (let rmw = effects0\<lparr>ie_HasResult := True, ie_SideEffect := True, ie_ReadsMemory := True,
                 ie_WritesMemory := True, ie_EscapesArgs := True\<rparr>
      in concat (map (\<lambda>w.
           [(''atomic.load.'' @ w, effects0\<lparr>ie_HasResult := True, ie_SideEffect := True, ie_ReadsMemory := True\<rparr>),
            (''atomic.store.'' @ w, effects0\<lparr>ie_SideEffect := True, ie_WritesMemory := True, ie_EscapesArgs := True\<rparr>),
            (''atomic.xchg.'' @ w, rmw), (''atomic.cas.'' @ w, rmw)] @
           map (\<lambda>op. (''atomic.'' @ op @ ''.'' @ w, rmw)) [''add'', ''sub'', ''and'', ''or'', ''xor''])
         [''b'', ''h'', ''w'', ''l'']) @
         [(''atomic.fence'', effects0\<lparr>ie_SideEffect := True\<rparr>)])"

text \<open>The initializer: what it registers, in order, from an empty registry.\<close>

definition intrinsics_init :: "intrinsics option" where
  "intrinsics_init = fold_opt RegisterIntrinsic (stack_entries @ registerAtomics @ registerFloatMath) []"

definition LookupIntrinsic :: "string \<Rightarrow> intrinsicEffects option" where
  "LookupIntrinsic name = lookupIn (rev (stack_entries @ registerAtomics @ registerFloatMath)) name"

lemma register_all:
  "distinct (map fst es @ map fst reg) \<Longrightarrow> fold_opt RegisterIntrinsic es reg = Some (rev es @ reg)"
proof (induction es arbitrary: reg)
  case (Cons e es)
  obtain n x where e: "e = (n, x)" by fastforce
  have "map_of reg n = None" using Cons.prems e by (auto simp: map_of_eq_None_iff)
  then have "RegisterIntrinsic e reg = Some (e # reg)" using e by (simp add: RegisterIntrinsic_def)
  moreover have "fold_opt RegisterIntrinsic es (e # reg) = Some (rev es @ e # reg)"
    by (rule Cons.IH) (use Cons.prems in auto)
  ultimately show ?case by simp
qed simp

lemma intrinsic_names_distinct: "distinct (map fst (stack_entries @ registerAtomics @ registerFloatMath))"
  by (simp add: stack_entries_def registerAtomics_def registerFloatMath_def Let_def)

text \<open>
  The package initializer does not panic: no name is registered twice, so \<open>LookupIntrinsic\<close>
  reads what the initializer registered.  Every registered intrinsic is described consistently: a
  pure one has a result, no side effect, touches no memory and lets no operand escape, and one
  that touches memory has a side effect.
\<close>

theorem intrinsics_consistent:
  "intrinsics_init = Some (rev (stack_entries @ registerAtomics @ registerFloatMath)) \<and>
   (LookupIntrinsic name = Some e \<longrightarrow>
     (ie_Pure e \<longrightarrow> ie_HasResult e \<and> \<not> ie_SideEffect e \<and> \<not> ie_ReadsMemory e \<and> \<not> ie_WritesMemory e \<and> \<not> ie_EscapesArgs e) \<and>
     (ie_ReadsMemory e \<or> ie_WritesMemory e \<longrightarrow> ie_SideEffect e))"
proof -
  let ?es = "stack_entries @ registerAtomics @ registerFloatMath"
  let ?P = "\<lambda>e. (ie_Pure e \<longrightarrow> ie_HasResult e \<and> \<not> ie_SideEffect e \<and> \<not> ie_ReadsMemory e \<and> \<not> ie_WritesMemory e \<and> \<not> ie_EscapesArgs e) \<and>
     (ie_ReadsMemory e \<or> ie_WritesMemory e \<longrightarrow> ie_SideEffect e)"
  have "list_all (\<lambda>p. ?P (snd p)) ?es"
    by (simp add: stack_entries_def registerAtomics_def registerFloatMath_def Let_def effects0_def)
  moreover have "\<exists>p \<in> set ?es. snd p = e" if "LookupIntrinsic name = Some e"
    using map_of_SomeD[of "rev ?es" name e] that unfolding LookupIntrinsic_def lookupIn_def by force
  ultimately have "LookupIntrinsic name = Some e \<longrightarrow> ?P e" unfolding list_all_iff by blast
  moreover have "intrinsics_init = Some (rev ?es)"
    unfolding intrinsics_init_def using register_all[of ?es "[]"] intrinsic_names_distinct by simp
  ultimately show ?thesis by blast
qed

theorem intrinsics_consistent_witness:
  "ie_SideEffect (effects0\<lparr>ie_SideEffect := True\<rparr>) \<and> (LookupIntrinsic ''atomic.fence'' = Some (effects0\<lparr>ie_SideEffect := True\<rparr>)) \<and>
   intrinsics_init = Some (rev (stack_entries @ registerAtomics @ registerFloatMath))"
proof -
  have l: "LookupIntrinsic ''atomic.fence'' = Some (effects0\<lparr>ie_SideEffect := True\<rparr>)"
    by (simp add: LookupIntrinsic_def lookupIn_def stack_entries_def registerAtomics_def registerFloatMath_def Let_def)
  show ?thesis using intrinsics_consistent[of "''atomic.fence''" "effects0\<lparr>ie_SideEffect := True\<rparr>"] l by simp
qed

end
