(* ===== verification/IR_Verify.thy ===== *)
theory IR_Verify
  imports IR_Func Intrinsics
begin

text \<open>
  The structural and SSA verifier (\<open>ir/verify.go\<close>).  Each message of the source is a constructor of
  the error type with the values it prints.
\<close>

section \<open>The verifier\<close>

datatype verify_error =
  NoTerminator string string
| PhiArity string string nat nat
| NoTemp string string string nat nat
| NoConst string string string nat nat
| AsmNoTemplate string string
| AsmRegCount string string nat nat
| BlockAddrNoTarget string string
| SelArity string string nat
| IntrinNoName string string
| IntrinUnknown string string string
| LifetimeArity string string nat
| LifetimeDefines string string
| AssignedTwice string nat
| ReadsUndefined string string string nat
| TwoClosureContexts string nat nat
| NoClosureContext string
| ClosureContextUnclaimed string nat
| PhiNotPredecessor string string string
| PhiNoArgument string string

definition verifyRef :: "func \<Rightarrow> block \<Rightarrow> string \<Rightarrow> ref \<Rightarrow> verify_error + unit" where
  "verifyRef f b what r = (case r_Kind r of
     RefTemp \<Rightarrow> if r_ID r \<ge> length (f_Temps f) then Inl (NoTemp (f_Name f) (b_Name b) what (r_ID r) (length (f_Temps f))) else Inr ()
   | RefConst \<Rightarrow> if r_ID r \<ge> length (f_Consts f) then Inl (NoConst (f_Name f) (b_Name b) what (r_ID r) (length (f_Consts f))) else Inr ()
   | _ \<Rightarrow> Inr ())"

text \<open>The switch of \<open>verifyInstr\<close>: what an op must carry.\<close>

definition verifyPayload :: "func \<Rightarrow> block \<Rightarrow> instr \<Rightarrow> verify_error + unit" where
  "verifyPayload f b i =
     (if in_Op i = OAsm then
        (case instr_Asm i of
           None \<Rightarrow> Inl (AsmNoTemplate (f_Name f) (b_Name b))
         | Some a \<Rightarrow>
             if length (asm_Regs a) \<noteq> 0 \<and> length (asm_Regs a) \<noteq> length (asm_Ops a)
             then Inl (AsmRegCount (f_Name f) (b_Name b) (length (asm_Ops a)) (length (asm_Regs a))) else Inr ())
      else if in_Op i = OBlockAddr then
        (if instr_Blk i = None then Inl (BlockAddrNoTarget (f_Name f) (b_Name b)) else Inr ())
      else if in_Op i = OSel then
        (if length (in_Args i) \<noteq> 3 then Inl (SelArity (f_Name f) (b_Name b) (length (in_Args i))) else Inr ())
      else if in_Op i = OIntrinsic then
        (case instr_Intrin i of
           None \<Rightarrow> Inl (IntrinNoName (f_Name f) (b_Name b))
         | Some n \<Rightarrow> if LookupIntrinsic (io_Name n) = None then Inl (IntrinUnknown (f_Name f) (b_Name b) (io_Name n)) else Inr ())
      else if in_Op i = OLifeStart \<or> in_Op i = OLifeEnd then
        (if length (in_Args i) \<noteq> 1 then Inl (LifetimeArity (f_Name f) (b_Name b) (length (in_Args i)))
         else if r_Kind (in_To i) \<noteq> RefNone then Inl (LifetimeDefines (f_Name f) (b_Name b)) else Inr ())
      else Inr ())"

definition verifyInstr :: "func \<Rightarrow> block \<Rightarrow> instr \<Rightarrow> verify_error + unit" where
  "verifyInstr f b i =
     e_then (verifyPayload f b i) (\<lambda>_.
     e_then (e_each (verifyRef f b (op_String (in_Op i))) (in_Args i)) (\<lambda>_.
     e_then (verifyRef f b (op_String (in_Op i)) (instr_ClosureContext i)) (\<lambda>_.
     e_then (verifyRef f b (op_String (in_Op i)) (in_To i)) (\<lambda>_.
     e_each (verifyRef f b (op_String (in_Op i))) (instr_Defs i)))))"

definition verifyPhi :: "func \<Rightarrow> block \<Rightarrow> phi \<Rightarrow> verify_error + unit" where
  "verifyPhi f b p =
     (if length (p_Args p) \<noteq> length (p_Blocks p)
      then Inl (PhiArity (f_Name f) (b_Name b) (length (p_Args p)) (length (p_Blocks p)))
      else e_each (verifyRef f b ''phi'') (p_Args p))"

definition verifyBlock :: "func \<Rightarrow> block \<Rightarrow> verify_error + unit" where
  "verifyBlock f b =
     (if j_Kind (b_Jmp b) = JmpNone then Inl (NoTerminator (f_Name f) (b_Name b))
      else e_then (e_each (verifyPhi f b) (b_Phis b)) (\<lambda>_.
           e_then (e_each (verifyInstr f b) (b_Instrs b)) (\<lambda>_.
           verifyRef f b ''terminator'' (j_Arg (b_Jmp b)))))"

text \<open>The closure \<open>def\<close> of \<open>verifySSA\<close>, on the slice \<open>defined\<close>.\<close>

definition ssa_def :: "func \<Rightarrow> ref \<Rightarrow> bool list \<Rightarrow> verify_error + bool list" where
  "ssa_def f r defined =
     (if r_Kind r \<noteq> RefTemp then Inr defined
      else if r_ID r \<ge> length defined then Inr defined
      else if defined ! r_ID r then Inl (AssignedTwice (f_Name f) (r_ID r))
      else Inr (defined[r_ID r := True]))"

definition defineParams :: "func \<Rightarrow> bool list \<Rightarrow> bool list" where
  "defineParams f = fold (\<lambda>p defined. let i = t_ID (f_Temps f ! p) in if i < length defined then defined[i := True] else defined) (f_Params f)"

text \<open>The scan for the marked temporary: -1 until one is found.\<close>

fun findContext :: "string \<Rightarrow> temp list \<Rightarrow> nat option \<Rightarrow> verify_error + nat option" where
  "findContext name [] c = Inr c"
| "findContext name (t # ts) c =
     (if \<not> t_ClosureContext t then findContext name ts c
      else case c of
        Some c' \<Rightarrow> Inl (TwoClosureContexts name c' (t_ID t))
      | None \<Rightarrow> findContext name ts (Some (t_ID t)))"

definition defineClosureContext :: "func \<Rightarrow> bool list \<Rightarrow> verify_error + bool list" where
  "defineClosureContext f defined =
     e_then (findContext (f_Name f) (f_Temps f) None) (\<lambda>c.
       if f_HasClosureContext f \<and> c = None then Inl (NoClosureContext (f_Name f))
       else case c of
         None \<Rightarrow> Inr defined
       | Some k \<Rightarrow>
           if \<not> f_HasClosureContext f then Inl (ClosureContextUnclaimed (f_Name f) k)
           else Inr (if k < length defined then defined[k := True] else defined))"

definition ssa_defs_block :: "func \<Rightarrow> bptr \<Rightarrow> bool list \<Rightarrow> verify_error + bool list" where
  "ssa_defs_block f b defined =
     e_then (e_fold (\<lambda>p. ssa_def f (p_To p)) (b_Phis (blk f b)) defined)
       (e_fold (\<lambda>i d. e_then (ssa_def f (in_To i) d) (e_fold (ssa_def f) (instr_Defs i))) (b_Instrs (blk f b)))"

definition ssa_use :: "func \<Rightarrow> bool list \<Rightarrow> string \<Rightarrow> string \<Rightarrow> ref \<Rightarrow> verify_error + unit" where
  "ssa_use f defined whr what r =
     (if r_Kind r = RefTemp \<and> r_ID r < length defined \<and> \<not> defined ! r_ID r
      then Inl (ReadsUndefined (f_Name f) whr what (r_ID r)) else Inr ())"

definition ssa_uses_block :: "func \<Rightarrow> bool list \<Rightarrow> bptr \<Rightarrow> verify_error + unit" where
  "ssa_uses_block f defined b = (let nm = b_Name (blk f b) in
     e_then (e_each (\<lambda>p. e_each (ssa_use f defined nm ''phi'') (p_Args p)) (b_Phis (blk f b))) (\<lambda>_.
     e_then (e_each (\<lambda>i. e_each (ssa_use f defined nm (op_String (in_Op i))) (in_Args i)) (b_Instrs (blk f b))) (\<lambda>_.
     e_then (ssa_use f defined nm ''terminator'' (j_Arg (b_Jmp (blk f b)))) (\<lambda>_.
     e_each (ssa_use f defined nm ''terminator'') (j_Args (b_Jmp (blk f b)))))))"

text \<open>The predecessor sets of \<open>verifyPhiEdges\<close>; a successor outside the block list has none.\<close>

definition branch_preds :: "func \<Rightarrow> bptr \<Rightarrow> bptr list" where
  "branch_preds f s = (if s \<in> set (f_Blocks f) then filter (\<lambda>b. Some s \<in> set (block_Succs (blk f b))) (f_Blocks f) else [])"

definition blockLabel :: "func \<Rightarrow> bptr option \<Rightarrow> string" where
  "blockLabel f b = (case b of None \<Rightarrow> ''<nil>'' | Some b \<Rightarrow> b_Name (blk f b))"

definition verifyPhiEdge :: "func \<Rightarrow> bptr \<Rightarrow> phi \<Rightarrow> verify_error + unit" where
  "verifyPhiEdge f b p =
     e_then (e_each (\<lambda>from. if from \<in> Some ` set (branch_preds f b) then Inr ()
                else Inl (PhiNotPredecessor (f_Name f) (b_Name (blk f b)) (blockLabel f from))) (p_Blocks p)) (\<lambda>_.
     e_each (\<lambda>from. if Some from \<in> set (p_Blocks p) then Inr ()
                else Inl (PhiNoArgument (f_Name f) (b_Name (blk f b)))) (branch_preds f b))"

definition verifyPhiEdges :: "func \<Rightarrow> verify_error + unit" where
  "verifyPhiEdges f = e_each (\<lambda>b. e_each (verifyPhiEdge f b) (b_Phis (blk f b))) (f_Blocks f)"

definition verifySSA :: "func \<Rightarrow> verify_error + unit" where
  "verifySSA f =
     e_then (defineClosureContext f (defineParams f (replicate (length (f_Temps f)) False))) (\<lambda>d0.
     e_then (e_fold (ssa_defs_block f) (f_Blocks f) d0) (\<lambda>defined.
     e_then (e_each (ssa_uses_block f defined) (f_Blocks f)) (\<lambda>_. verifyPhiEdges f)))"

definition Verify :: "func \<Rightarrow> verify_error + unit" where
  "Verify f = e_then (e_each (\<lambda>b. verifyBlock f (blk f b)) (f_Blocks f)) (\<lambda>_.
     if f_lowered f = [] then verifySSA f else Inr ())"

definition VerifyModule :: "func list \<Rightarrow> verify_error + unit" where
  "VerifyModule fs = e_each Verify fs"

section \<open>What an accepted function satisfies\<close>

definition ref_ok :: "func \<Rightarrow> ref \<Rightarrow> bool" where
  "ref_ok f r \<longleftrightarrow> (r_Kind r = RefTemp \<longrightarrow> r_ID r < length (f_Temps f)) \<and> (r_Kind r = RefConst \<longrightarrow> r_ID r < length (f_Consts f))"

definition payload_ok :: "instr \<Rightarrow> bool" where
  "payload_ok i \<longleftrightarrow>
     (in_Op i = OAsm \<longrightarrow> (\<exists>a. instr_Asm i = Some a \<and> (asm_Regs a = [] \<or> length (asm_Regs a) = length (asm_Ops a)))) \<and>
     (in_Op i = OBlockAddr \<longrightarrow> instr_Blk i \<noteq> None) \<and>
     (in_Op i = OSel \<longrightarrow> length (in_Args i) = 3) \<and>
     (in_Op i = OIntrinsic \<longrightarrow> (\<exists>n. instr_Intrin i = Some n \<and> LookupIntrinsic (io_Name n) \<noteq> None)) \<and>
     (op_IsLifetime (in_Op i) \<longrightarrow> length (in_Args i) = 1 \<and> r_Kind (in_To i) = RefNone)"

definition block_struct_ok :: "func \<Rightarrow> block \<Rightarrow> bool" where
  "block_struct_ok f b \<longleftrightarrow> j_Kind (b_Jmp b) \<noteq> JmpNone \<and> ref_ok f (j_Arg (b_Jmp b)) \<and>
     (\<forall>p \<in> set (b_Phis b). length (p_Args p) = length (p_Blocks p) \<and> list_all (ref_ok f) (p_Args p)) \<and>
     (\<forall>i \<in> set (b_Instrs b). payload_ok i \<and> list_all (ref_ok f) (in_To i # instr_ClosureContext i # in_Args i @ instr_Defs i))"

text \<open>In order of the scan: the ids of the temporaries the body assigns.\<close>

definition temp_ids :: "nat \<Rightarrow> ref list \<Rightarrow> nat list" where
  "temp_ids n rs = map r_ID (filter (\<lambda>r. r_Kind r = RefTemp \<and> r_ID r < n) rs)"

definition block_defs :: "block \<Rightarrow> ref list" where
  "block_defs b = map p_To (b_Phis b) @ concat (map (\<lambda>i. in_To i # instr_Defs i) (b_Instrs b))"

definition body_defs :: "func \<Rightarrow> nat list" where
  "body_defs f = temp_ids (length (f_Temps f)) (concat (map (\<lambda>b. block_defs (blk f b)) (f_Blocks f)))"

definition block_reads :: "block \<Rightarrow> ref list" where
  "block_reads b = concat (map p_Args (b_Phis b)) @ concat (map in_Args (b_Instrs b)) @ j_Arg (b_Jmp b) # j_Args (b_Jmp b)"

text \<open>Defined on entry: the parameters and the temporary marked as closure context.\<close>

definition entry_defs :: "func \<Rightarrow> nat set" where
  "entry_defs f = {i. i < length (f_Temps f) \<and> ((\<exists>p \<in> set (f_Params f). t_ID (f_Temps f ! p) = i) \<or>
     (\<exists>t \<in> set (f_Temps f). t_ClosureContext t \<and> t_ID t = i))}"

definition ssa_ok :: "func \<Rightarrow> bool" where
  "ssa_ok f \<longleftrightarrow> distinct (body_defs f) \<and> set (body_defs f) \<inter> entry_defs f = {} \<and>
     length (filter t_ClosureContext (f_Temps f)) = (if f_HasClosureContext f then 1 else 0) \<and>
     (\<forall>b \<in> set (f_Blocks f). set (temp_ids (length (f_Temps f)) (block_reads (blk f b))) \<subseteq> set (body_defs f) \<union> entry_defs f) \<and>
     (\<forall>b \<in> set (f_Blocks f). \<forall>p \<in> set (b_Phis (blk f b)). set (p_Blocks p) = Some ` set (branch_preds f b))"

lemma verifyRef_ok [simp]: "verifyRef f b what r = Inr u \<longleftrightarrow> ref_ok f r"
  by (auto simp: verifyRef_def ref_ok_def split: refkind.splits)

lemma verifyPayload_ok [simp]: "verifyPayload f b i = Inr u \<longleftrightarrow> payload_ok i"
  unfolding verifyPayload_def payload_ok_def op_IsLifetime_def
  by (auto split: option.splits if_splits)

lemma verifyBlock_ok: "verifyBlock f b = Inr () \<longleftrightarrow> block_struct_ok f b"
  by (auto simp: verifyBlock_def block_struct_ok_def verifyPhi_def verifyInstr_def list_all_iff split: if_splits)

section \<open>Single assignment\<close>

definition defined_set :: "bool list \<Rightarrow> nat set" where
  "defined_set d = {i. i < length d \<and> d ! i}"

lemma e_fold_concat: "e_fold (\<lambda>x. e_fold f (g x)) xs s = e_fold f (concat (map g xs)) s"
  by (induction xs arbitrary: s) (auto simp: e_fold_append e_then_def split: sum.splits)

lemma e_then_fold_Cons: "e_then (f x s) (e_fold f xs) = e_fold f (x # xs) s"
  by (simp add: e_then_def)

lemma e_then_cong: "(\<And>x. f x = g x) \<Longrightarrow> e_then m f = e_then m g"
  by (simp add: e_then_def split: sum.splits)

lemma ssa_defs_block_flat: "ssa_defs_block f b = e_fold (ssa_def f) (block_defs (blk f b))"
proof
  fix d
  have phis: "e_fold (\<lambda>p. ssa_def f (p_To p)) ps d = e_fold (ssa_def f) (map p_To ps) d" for ps :: "phi list" and d
    by (induction ps arbitrary: d) (auto split: sum.splits)
  have instrs: "e_fold (\<lambda>i d. e_then (ssa_def f (in_To i) d) (e_fold (ssa_def f) (instr_Defs i))) is d =
    e_fold (ssa_def f) (concat (map (\<lambda>i. in_To i # instr_Defs i) is)) d" for "is" :: "instr list" and d
    unfolding e_then_fold_Cons e_fold_concat[symmetric] ..
  show "ssa_defs_block f b d = e_fold (ssa_def f) (block_defs (blk f b)) d"
    unfolding ssa_defs_block_def block_defs_def e_fold_append phis by (rule e_then_cong) (rule instrs)
qed

lemma defined_set_upd: "defined_set (if k < length d then d[k := True] else d) = defined_set d \<union> {i. i < length d \<and> i = k}"
  by (auto simp: defined_set_def nth_list_update)

lemma ssa_def_Inr:
  assumes "ssa_def f r d = Inr d'"
  shows "length d' = length d" "defined_set d' = defined_set d \<union> set (temp_ids (length d) [r])"
    "set (temp_ids (length d) [r]) \<inter> defined_set d = {}"
proof -
  have "length d' = length d \<and> defined_set d' = defined_set d \<union> set (temp_ids (length d) [r]) \<and>
    set (temp_ids (length d) [r]) \<inter> defined_set d = {}"
  proof (cases "r_Kind r = RefTemp \<and> r_ID r < length d")
    case True
    with assms have "\<not> d ! r_ID r" "d' = d[r_ID r := True]" by (auto simp: ssa_def_def split: if_splits)
    with True defined_set_upd[of "r_ID r" d] show ?thesis by (simp add: temp_ids_def) (auto simp: defined_set_def)
  next
    case False
    then have "ssa_def f r d = Inr d" "temp_ids (length d) [r] = []" by (auto simp: ssa_def_def temp_ids_def)
    with assms show ?thesis by simp
  qed
  then show "length d' = length d" "defined_set d' = defined_set d \<union> set (temp_ids (length d) [r])"
    "set (temp_ids (length d) [r]) \<inter> defined_set d = {}" by blast+
qed

lemma ssa_def_Inl: "ssa_def f r d = Inl e \<Longrightarrow> r_ID r \<in> set (temp_ids (length d) [r]) \<inter> defined_set d"
  by (simp add: ssa_def_def temp_ids_def defined_set_def split: if_splits)

lemma temp_ids_Cons: "temp_ids n (r # rs) = temp_ids n [r] @ temp_ids n rs"
  and temp_ids_append: "temp_ids n (rs @ rs') = temp_ids n rs @ temp_ids n rs'"
  and temp_ids_distinct1: "distinct (temp_ids n [r])"
  by (simp_all add: temp_ids_def)

lemma ssa_defs_ok:
  "(\<exists>d'. e_fold (ssa_def f) rs d = Inr d') \<longleftrightarrow>
     distinct (temp_ids (length d) rs) \<and> set (temp_ids (length d) rs) \<inter> defined_set d = {}"
  "e_fold (ssa_def f) rs d = Inr d' \<Longrightarrow> length d' = length d \<and> defined_set d' = defined_set d \<union> set (temp_ids (length d) rs)"
proof (induction rs arbitrary: d d')
  case (Cons r rs)
  { case 1
    show ?case
    proof (cases "ssa_def f r d")
      case (Inr d1)
      note c = ssa_def_Inr[OF Inr]
      have "(\<exists>d'. e_fold (ssa_def f) (r # rs) d = Inr d') \<longleftrightarrow>
        distinct (temp_ids (length d) rs) \<and> set (temp_ids (length d) rs) \<inter> defined_set d1 = {}"
        using Cons.IH(1)[of d1] Inr c(1) by simp
      then show ?thesis unfolding temp_ids_Cons[of _ r rs] using c temp_ids_distinct1[of "length d" r] by auto
    next
      case (Inl e)
      with ssa_def_Inl[OF Inl] show ?thesis unfolding temp_ids_Cons[of _ r rs] by auto
    qed
  next
    case 2
    then obtain d1 where d1: "ssa_def f r d = Inr d1" "e_fold (ssa_def f) rs d1 = Inr d'" by (auto split: sum.splits)
    note c = ssa_def_Inr[OF d1(1)]
    show ?case unfolding temp_ids_Cons[of _ r rs] using Cons.IH(2)[OF d1(2)] c by auto
  }
qed (auto simp: temp_ids_def)

lemma findContext_ok:
  "findContext nm ts c = Inr c' \<longleftrightarrow>
     (case filter t_ClosureContext ts of
        [] \<Rightarrow> c' = c
      | [t] \<Rightarrow> c = None \<and> c' = Some (t_ID t)
      | _ \<Rightarrow> False)"
proof (induction nm ts c rule: findContext.induct)
  case (2 name t ts c)
  show ?case
  proof (cases "t_ClosureContext t")
    case False
    with 2 show ?thesis by simp
  next
    case True
    show ?thesis
    proof (cases c)
      case None
      have "findContext name ts (Some (t_ID t)) = Inr c' \<longleftrightarrow> filter t_ClosureContext ts = [] \<and> c' = Some (t_ID t)"
        using 2(2)[OF _ None] True by (auto split: list.splits)
      with True None show ?thesis by (auto split: list.splits)
    qed (use True in \<open>auto split: list.splits\<close>)
  qed
qed auto

lemma defineParams_set:
  "length (defineParams f d) = length d"
  "defined_set (defineParams f d) = defined_set d \<union> {i. i < length d \<and> (\<exists>p \<in> set (f_Params f). t_ID (f_Temps f ! p) = i)}"
proof -
  have "length (fold (\<lambda>p defined. let i = t_ID (f_Temps f ! p) in if i < length defined then defined[i := True] else defined) ps d) = length d \<and>
    defined_set (fold (\<lambda>p defined. let i = t_ID (f_Temps f ! p) in if i < length defined then defined[i := True] else defined) ps d) =
    defined_set d \<union> {i. i < length d \<and> (\<exists>p \<in> set ps. t_ID (f_Temps f ! p) = i)}" for ps
  proof (induction ps arbitrary: d)
    case (Cons p ps)
    let ?i = "t_ID (f_Temps f ! p)"
    let ?d = "if ?i < length d then d[?i := True] else d"
    have "length ?d = length d" "defined_set ?d = defined_set d \<union> {i. i < length d \<and> i = ?i}"
      by (auto simp: defined_set_def nth_list_update)
    with Cons.IH[of ?d] show ?case by (auto simp: Let_def)
  qed simp
  then show "length (defineParams f d) = length d"
    "defined_set (defineParams f d) = defined_set d \<union> {i. i < length d \<and> (\<exists>p \<in> set (f_Params f). t_ID (f_Temps f ! p) = i)}"
    by (simp_all add: defineParams_def)
qed

lemma entry_ok:
  "(\<exists>d0. defineClosureContext f (defineParams f (replicate (length (f_Temps f)) False)) = Inr d0) \<longleftrightarrow>
     length (filter t_ClosureContext (f_Temps f)) = (if f_HasClosureContext f then 1 else 0)"
  "defineClosureContext f (defineParams f (replicate (length (f_Temps f)) False)) = Inr d0 \<Longrightarrow>
     length d0 = length (f_Temps f) \<and> defined_set d0 = entry_defs f"
proof -
  let ?d = "defineParams f (replicate (length (f_Temps f)) False)"
  let ?ts = "filter t_ClosureContext (f_Temps f)"
  have len: "length ?d = length (f_Temps f)" by (simp add: defineParams_set)
  have set: "defined_set ?d = {i. i < length (f_Temps f) \<and> (\<exists>p \<in> set (f_Params f). t_ID (f_Temps f ! p) = i)}"
    unfolding defineParams_set length_replicate by (auto simp: defined_set_def)
  have dcc: "defineClosureContext f d = Inr d0 \<longleftrightarrow>
    (?ts = [] \<and> \<not> f_HasClosureContext f \<and> d0 = d) \<or>
    (\<exists>t. ?ts = [t] \<and> f_HasClosureContext f \<and> d0 = (if t_ID t < length d then d[t_ID t := True] else d))" for d d0
  proof -
    consider "?ts = []" | t where "?ts = [t]" | t u us where "?ts = t # u # us" by (meson remdups_adj.cases)
    then show ?thesis
      by cases (simp_all add: defineClosureContext_def e_then_Inr findContext_ok eq_commute[of d0] del: if_split)
  qed
  then show "(\<exists>d0. defineClosureContext f ?d = Inr d0) \<longleftrightarrow> length ?ts = (if f_HasClosureContext f then 1 else 0)"
    by (auto simp: length_Suc_conv)
  assume "defineClosureContext f ?d = Inr d0"
  then consider "?ts = []" "d0 = ?d" | t where "?ts = [t]" "d0 = (if t_ID t < length ?d then ?d[t_ID t := True] else ?d)"
    using dcc by blast
  then show "length d0 = length (f_Temps f) \<and> defined_set d0 = entry_defs f"
  proof cases
    case 1
    then have "\<forall>t \<in> set (f_Temps f). \<not> t_ClosureContext t" by (simp add: filter_empty_conv)
    then show ?thesis using 1 len set by (auto simp: entry_defs_def)
  next
    case 2
    have "{x \<in> set (f_Temps f). t_ClosureContext x} = {t}" using arg_cong[OF 2(1), of set] by auto
    then have "(\<exists>x \<in> set (f_Temps f). t_ClosureContext x \<and> t_ID x = i) \<longleftrightarrow> t_ID t = i" for i by (auto simp: set_eq_iff)
    moreover have "defined_set d0 = defined_set ?d \<union> {i. i < length ?d \<and> i = t_ID t}"
      using 2(2) by (auto simp: defined_set_def nth_list_update)
    ultimately show ?thesis using 2(2) len set by (auto simp: entry_defs_def)
  qed
qed

lemma ssa_use_ok [simp]:
  "ssa_use f d whr what r = Inr () \<longleftrightarrow> set (temp_ids (length d) [r]) \<subseteq> defined_set d"
  by (auto simp: ssa_use_def temp_ids_def defined_set_def)

lemma temp_ids_subset: "set (temp_ids n rs) \<subseteq> S \<longleftrightarrow> (\<forall>r \<in> set rs. set (temp_ids n [r]) \<subseteq> S)"
  by (auto simp: temp_ids_def split: if_splits)

lemma e_each_unit [simp]: "e_fold F xs () = Inr () \<longleftrightarrow> (\<forall>x \<in> set xs. F x () = Inr ())"
  by (induction xs) (auto split: sum.splits)

lemma ssa_uses_block_ok:
  "ssa_uses_block f d b = Inr () \<longleftrightarrow> set (temp_ids (length d) (block_reads (blk f b))) \<subseteq> defined_set d"
  unfolding temp_ids_subset[of _ "block_reads _"]
  by (simp add: ssa_uses_block_def block_reads_def Let_def ball_Un conj_ac)

lemma verifyPhiEdge_ok: "verifyPhiEdge f b p = Inr () \<longleftrightarrow> set (p_Blocks p) = Some ` set (branch_preds f b)"
  by (auto simp: verifyPhiEdge_def e_then_Inr)

lemma verifySSA_ok: "verifySSA f = Inr () \<longleftrightarrow> ssa_ok f"
proof -
  let ?n = "length (f_Temps f)" and ?d = "defineParams f (replicate (length (f_Temps f)) False)"
  let ?uses = "\<lambda>d. list_all (\<lambda>b. set (temp_ids ?n (block_reads (blk f b))) \<subseteq> d) (f_Blocks f)"
  let ?phis = "\<forall>b \<in> set (f_Blocks f). \<forall>p \<in> set (b_Phis (blk f b)). set (p_Blocks p) = Some ` set (branch_preds f b)"
  have phis: "verifyPhiEdges f = Inr () \<longleftrightarrow> ?phis"
    by (simp add: verifyPhiEdges_def verifyPhiEdge_ok)
  have body: "e_fold (ssa_defs_block f) bs d = e_fold (ssa_def f) (concat (map (\<lambda>b. block_defs (blk f b)) bs)) d" for bs d
    unfolding ssa_defs_block_flat e_fold_concat ..
  have "verifySSA f = Inr () \<longleftrightarrow> (\<exists>d0. defineClosureContext f ?d = Inr d0 \<and>
    (\<exists>d1. e_fold (ssa_defs_block f) (f_Blocks f) d0 = Inr d1 \<and> e_each (ssa_uses_block f d1) (f_Blocks f) = Inr () \<and> ?phis))"
    unfolding verifySSA_def e_then_Inr phis by simp
  also have "\<dots> \<longleftrightarrow> (\<exists>d0. defineClosureContext f ?d = Inr d0 \<and>
    distinct (body_defs f) \<and> set (body_defs f) \<inter> entry_defs f = {} \<and> ?uses (set (body_defs f) \<union> entry_defs f) \<and> ?phis)"
  proof (rule ex_cong1, rule conj_cong[OF refl])
    fix d0
    assume "defineClosureContext f ?d = Inr d0"
    note d0 = entry_ok(2)[OF this]
    let ?rs = "concat (map (\<lambda>b. block_defs (blk f b)) (f_Blocks f))"
    have ids: "temp_ids (length d0) ?rs = body_defs f" using d0 by (simp add: body_defs_def)
    have d1: "length d1 = ?n \<and> defined_set d1 = set (body_defs f) \<union> entry_defs f" if "e_fold (ssa_def f) ?rs d0 = Inr d1" for d1
      using ssa_defs_ok(2)[OF that] d0 ids by auto
    have uses: "e_each (ssa_uses_block f d1) (f_Blocks f) = Inr () \<longleftrightarrow> ?uses (set (body_defs f) \<union> entry_defs f)"
      if "e_fold (ssa_def f) ?rs d0 = Inr d1" for d1
      using d1[OF that] by (simp add: ssa_uses_block_ok list_all_iff)
    have "(\<exists>d1. e_fold (ssa_def f) ?rs d0 = Inr d1) \<longleftrightarrow> distinct (body_defs f) \<and> set (body_defs f) \<inter> entry_defs f = {}"
      using ssa_defs_ok(1)[of f ?rs d0] ids d0 by simp
    with uses show "(\<exists>d1. e_fold (ssa_defs_block f) (f_Blocks f) d0 = Inr d1 \<and> e_each (ssa_uses_block f d1) (f_Blocks f) = Inr () \<and> ?phis) \<longleftrightarrow>
      distinct (body_defs f) \<and> set (body_defs f) \<inter> entry_defs f = {} \<and> ?uses (set (body_defs f) \<union> entry_defs f) \<and> ?phis"
      unfolding body by blast
  qed
  also have "\<dots> \<longleftrightarrow> ssa_ok f"
    using entry_ok(1)[of f] unfolding ssa_ok_def list_all_iff by blast
  finally show ?thesis .
qed

section \<open>What the verifier accepts\<close>


text \<open>An instance: one block returning a phi-free copy of its parameter, and the same body read before any assignment.\<close>

definition example_temp :: "nat \<Rightarrow> temp" where
  "example_temp n = \<lparr>t_ID = n, t_Name = [], t_Cls = ClsW, t_Slot = NoReg, t_Reg = NoReg, t_Fixed = False, t_Agg = None,
     t_GCRef = False, t_GCType = 0, t_ClosureContext = False\<rparr>"

definition verify_example :: "ref \<Rightarrow> func" where
  "verify_example r = func0\<lparr>f_Temps := [example_temp 0, example_temp 1], f_Params := [0], f_Start := Some 0, f_Blocks := [0],
     f_arena := [block0\<lparr>b_Instrs := [instr0\<lparr>in_Op := OCopy, in_To := \<lparr>r_Kind = RefTemp, r_ID = 1\<rparr>, in_Args := [\<lparr>r_Kind = RefTemp, r_ID = 0\<rparr>]\<rparr>],
       b_Jmp := jmp0\<lparr>j_Kind := JmpRet, j_Arg := r\<rparr>\<rparr>]\<rparr>"


text \<open>Two gaps. A phi's destination is never range-checked: \<open>def\<close> relies on \<open>verifyRef\<close> having reported it, and \<open>verifyRef\<close> is not called on it.
  A closure-context operand is range-checked but not looked up among the definitions, though \<open>Uses\<close> counts it as a read.\<close>

definition wild_phi :: func where
  "wild_phi = (verify_example R)\<lparr>f_arena := [block0\<lparr>b_Phis := [\<lparr>p_Cls = ClsW, p_To = \<lparr>r_Kind = RefTemp, r_ID = 99\<rparr>, p_Args = [], p_Blocks = []\<rparr>],
     b_Jmp := jmp0\<lparr>j_Kind := JmpRet\<rparr>\<rparr>]\<rparr>"

lemma Verify_accepts_wild_phi: "Verify wild_phi = Inr () \<and> length (f_Temps wild_phi) = 2"
  by code_simp

definition stray_context :: func where
  "stray_context = (verify_example R)\<lparr>f_arena := [block0\<lparr>b_Instrs := [instr_SetClosureContext \<lparr>r_Kind = RefTemp, r_ID = 1\<rparr> (instr0\<lparr>in_Op := OCall\<rparr>)],
     b_Jmp := jmp0\<lparr>j_Kind := JmpRet\<rparr>\<rparr>]\<rparr>"

lemma Verify_accepts_stray_context:
  "Verify stray_context = Inr () \<and> instr_Uses (hd (b_Instrs (blk stray_context 0))) = [\<lparr>r_Kind = RefTemp, r_ID = 1\<rparr>] \<and>
   body_defs stray_context = []"
  by code_simp

end
