(* ===== verification/Split_Edges.thy ===== *)
theory Split_Edges
  imports Dominators IR_Verify
begin

text \<open>
  Breaking critical edges before phis are replaced by copies (\<open>SplitCriticalEdges\<close> of
  \<open>lower/ssa.go\<close>).  \<open>None\<close> is a nil dereference: a conditional branch without a target.
\<close>

section \<open>The pass\<close>

definition redirect_phi :: "bptr \<Rightarrow> bptr \<Rightarrow> phi \<Rightarrow> phi" where
  "redirect_phi u s p = p\<lparr>p_Blocks := map (\<lambda>b. if b = Some u then Some s else b) (p_Blocks p)\<rparr>"

text \<open>The pointer \<open>&u.Jmp.To\<close> or \<open>&u.Jmp.To2\<close>: reading and writing through it.\<close>

definition edge_get :: "bool \<Rightarrow> block \<Rightarrow> bptr option" where
  "edge_get scnd x = (if scnd then j_To2 (b_Jmp x) else j_To (b_Jmp x))"

definition edge_set :: "bool \<Rightarrow> bptr \<Rightarrow> block \<Rightarrow> block" where
  "edge_set scnd s x = x\<lparr>b_Jmp := (if scnd then (b_Jmp x)\<lparr>j_To2 := Some s\<rparr> else (b_Jmp x)\<lparr>j_To := Some s\<rparr>)\<rparr>"

definition put_on_edge :: "bptr \<Rightarrow> bool \<Rightarrow> bptr \<Rightarrow> func \<Rightarrow> func" where
  "put_on_edge u e v f =
     (let (s, f1) = NewBlock (b_Name (blk f u) @ ''_'' @ b_Name (blk f v) @ ''_edge'') f;
          f2 = Goto s (Some v) f1;
          f3 = upd_blk u (edge_set e s) f2
      in upd_blk v (\<lambda>x. x\<lparr>b_Phis := map (redirect_phi u s) (b_Phis x)\<rparr>) f3)"

definition split_edge :: "bptr \<Rightarrow> bool \<Rightarrow> func \<Rightarrow> func option" where
  "split_edge u e f = (case edge_get e (blk f u) of
     None \<Rightarrow> None
   | Some v \<Rightarrow> if length (b_Preds (blk f v)) < 2 then Some f else Some (put_on_edge u e v f))"

definition split_block :: "bptr \<Rightarrow> func \<Rightarrow> func option" where
  "split_block u f =
     (if j_Kind (b_Jmp (blk f u)) \<noteq> JmpJnz then Some f
      else if j_To (b_Jmp (blk f u)) = j_To2 (b_Jmp (blk f u)) then Some f
      else fold_opt (split_edge u) [False, True] f)"

definition SplitCriticalEdges :: "func \<Rightarrow> func option" where
  "SplitCriticalEdges f = (let f1 = FillPreds f in fold_opt split_block (f_Blocks f1) f1)"

section \<open>One split\<close>

lemma arena_NewBlock:
  assumes "NewBlock nm f = (s, f')"
  shows "s = length (f_arena f)" "\<exists>nm'. f_arena f' = f_arena f @ [block0\<lparr>b_Name := nm', b_ID := length (f_Blocks f)\<rparr>]"
    "f_Blocks f' = f_Blocks f @ [s]" "f_Start f \<noteq> None \<Longrightarrow> f_Start f' = f_Start f"
  using assms by (auto simp: NewBlock_def Let_def)

text \<open>The store after a split, block by block.\<close>

lemma put_on_edge_blk:
  fixes e :: bool
  assumes "u < length (f_arena f)" "v < length (f_arena f)"
  defines "s \<equiv> length (f_arena f)" and "g \<equiv> put_on_edge u e v f"
  shows "\<exists>nm i. blk g s = block0\<lparr>b_Name := nm, b_ID := i, b_Jmp := jmp0\<lparr>j_Kind := JmpJmp, j_To := Some v\<rparr>\<rparr>"
    "\<And>x. x \<noteq> s \<Longrightarrow> blk g x = (let y = (if x = u then edge_set e s (blk f u) else blk f x)
       in if x = v then y\<lparr>b_Phis := map (redirect_phi u s) (b_Phis y)\<rparr> else y)"
    "f_Blocks g = f_Blocks f @ [s]" "length (f_arena g) = Suc s" "f_Start f \<noteq> None \<Longrightarrow> f_Start g = f_Start f"
proof -
  let ?nm = "b_Name (blk f u) @ ''_'' @ b_Name (blk f v) @ ''_edge''"
  obtain f1 where f1: "NewBlock ?nm f = (s, f1)" using arena_NewBlock(1) unfolding s_def by (metis prod.collapse)
  note n = arena_NewBlock[OF f1]
  obtain nm' where n2: "f_arena f1 = f_arena f @ [block0\<lparr>b_Name := nm', b_ID := length (f_Blocks f)\<rparr>]" using n(2) by blast
  have g: "g = upd_blk v (\<lambda>x. x\<lparr>b_Phis := map (redirect_phi u s) (b_Phis x)\<rparr>) (upd_blk u (edge_set e s) (Goto s (Some v) f1))"
    using f1 by (simp add: g_def put_on_edge_def Let_def)
  have len: "length (f_arena f1) = Suc s" using n2 by (simp add: s_def)
  have old: "blk f1 x = blk f x" if "x \<noteq> s" for x
    using that by (auto simp: blk_def n2 nth_append s_def)
  have us: "u \<noteq> s" "v \<noteq> s" "u < length (f_arena f1)" "v < length (f_arena f1)" "s < length (f_arena f1)"
    using assms(1,2) len by (auto simp: s_def)
  have new: "blk f1 s = block0\<lparr>b_Name := nm', b_ID := length (f_Blocks f)\<rparr>"
    by (simp add: blk_def n2 s_def)
  have gs: "blk g s = (blk f1 s)\<lparr>b_Jmp := jmp0\<lparr>j_Kind := JmpJmp, j_To := Some v\<rparr>\<rparr>"
    using us by (simp add: g Goto_def)
  show "\<exists>nm i. blk g s = block0\<lparr>b_Name := nm, b_ID := i, b_Jmp := jmp0\<lparr>j_Kind := JmpJmp, j_To := Some v\<rparr>\<rparr>"
    unfolding gs new by (auto simp: block0_def)
  show "blk g x = (let y = (if x = u then edge_set e s (blk f u) else blk f x)
       in if x = v then y\<lparr>b_Phis := map (redirect_phi u s) (b_Phis y)\<rparr> else y)" if "x \<noteq> s" for x
    using us old that by (simp add: g Goto_def Let_def)
  show "f_Blocks g = f_Blocks f @ [s]" "length (f_arena g) = Suc s" "f_Start f \<noteq> None \<Longrightarrow> f_Start g = f_Start f"
    using n len by (simp_all add: g Goto_def)
qed

text \<open>Two-way branches with distinct targets, the ones the pass looks at.\<close>

definition two_way :: "block \<Rightarrow> bool" where
  "two_way x \<longleftrightarrow> j_Kind (b_Jmp x) = JmpJnz \<and> j_To (b_Jmp x) \<noteq> j_To2 (b_Jmp x)"

lemma set_Succs_two_way: "two_way x \<Longrightarrow> set (block_Succs x) = {edge_get e x, edge_get (\<not> e) x}"
  by (auto simp: two_way_def block_Succs_def edge_get_def)

lemma edge_set_sel [simp]:
  "edge_get e (edge_set e s x) = Some s" "edge_get (\<not> e) (edge_set e s x) = edge_get (\<not> e) x"
  "b_SyntheticSuccs (edge_set e s x) = b_SyntheticSuccs x" "b_Phis (edge_set e s x) = b_Phis x"
  "b_Preds (edge_set e s x) = b_Preds x" "b_Instrs (edge_set e s x) = b_Instrs x"
  "j_Kind (b_Jmp (edge_set e s x)) = j_Kind (b_Jmp x)"
  by (auto simp: edge_get_def edge_set_def)

lemma Jmp_cong: "b_Jmp x = b_Jmp y \<Longrightarrow> block_Succs x = block_Succs y" "b_Jmp x = b_Jmp y \<Longrightarrow> edge_get e x = edge_get e y"
  by (simp_all only: block_Succs_def edge_get_def)

lemma edge_distinct: "two_way x \<Longrightarrow> edge_get e x \<noteq> edge_get (\<not> e) x"
  by (auto simp: two_way_def edge_get_def)

lemma two_way_edge_set: "two_way x \<Longrightarrow> edge_get (\<not> e) x \<noteq> Some s \<Longrightarrow> two_way (edge_set e s x)"
  by (auto simp: two_way_def edge_get_def edge_set_def split: if_splits)

text \<open>The situation of one split: \<open>u\<close> branches two ways, to \<open>v\<close> on the side \<open>e\<close>, and nothing points past the store yet.\<close>

definition one_split :: "func \<Rightarrow> bptr \<Rightarrow> bool \<Rightarrow> bptr \<Rightarrow> bool" where
  "one_split f u e v \<longleftrightarrow> u < length (f_arena f) \<and> v < length (f_arena f) \<and> two_way (blk f u) \<and> edge_get e (blk f u) = Some v \<and>
     (\<forall>x. \<not> cfg_edge f x (length (f_arena f)))"

lemma one_splitD:
  assumes "one_split f u e v"
  shows "u < length (f_arena f)" "v < length (f_arena f)" "two_way (blk f u)" "edge_get e (blk f u) = Some v"
    "\<not> cfg_edge f x (length (f_arena f))" "edge_get (\<not> e) (blk f u) \<noteq> Some (length (f_arena f))"
    "u \<noteq> length (f_arena f)" "v \<noteq> length (f_arena f)"
proof -
  show *: "u < length (f_arena f)" "v < length (f_arena f)" "two_way (blk f u)" "edge_get e (blk f u) = Some v"
    "\<not> cfg_edge f x (length (f_arena f))" for x using assms by (auto simp: one_split_def)
  have "edge_get (\<not> e) (blk f u) \<in> set (cfg_Succs (blk f u))"
    unfolding cfg_Succs_eq set_append set_Succs_two_way[OF *(3), of e] by blast
  with *(5)[of u] show "edge_get (\<not> e) (blk f u) \<noteq> Some (length (f_arena f))" unfolding cfg_edge_def by metis
  show "u \<noteq> length (f_arena f)" "v \<noteq> length (f_arena f)" using *(1,2) by simp_all
qed

lemma cfg_edge_beyond: "length (f_arena f) \<le> x \<Longrightarrow> \<not> cfg_edge f x t"
  by (simp add: cfg_edge_def blk_def)

lemma split_new:
  assumes S: "one_split f u e v"
  defines "s \<equiv> length (f_arena f)" and "g \<equiv> put_on_edge u e v f"
  shows "j_Kind (b_Jmp (blk g s)) = JmpJmp" "block_Succs (blk g s) = [Some v]" "cfg_Succs (blk g s) = [Some v]" "b_Phis (blk g s) = []"
  using put_on_edge_blk(1)[OF one_splitD(1,2)[OF S], of e] by (auto simp: s_def g_def block_Succs_def cfg_Succs_eq block0_def jmp0_def)

lemma split_old:
  assumes S: "one_split f u e v" and x: "x \<noteq> length (f_arena f)"
  defines "s \<equiv> length (f_arena f)" and "g \<equiv> put_on_edge u e v f"
  shows "b_Preds (blk g x) = b_Preds (blk f x)" "b_SyntheticSuccs (blk g x) = b_SyntheticSuccs (blk f x)"
    "x \<noteq> u \<Longrightarrow> b_Jmp (blk g x) = b_Jmp (blk f x)" "b_Instrs (blk g x) = b_Instrs (blk f x)"
    "b_Phis (blk g x) = (if x = v then map (redirect_phi u s) (b_Phis (blk f x)) else b_Phis (blk f x))"
  using put_on_edge_blk(2)[OF one_splitD(1,2)[OF S] x, of e] by (auto simp: s_def g_def Let_def)

lemma split_Jmp:
  assumes S: "one_split f u e v"
  defines "s \<equiv> length (f_arena f)" and "g \<equiv> put_on_edge u e v f"
  shows "b_Jmp (blk g u) = b_Jmp (edge_set e s (blk f u))"
  using put_on_edge_blk(2)[OF one_splitD(1,2)[OF S] one_splitD(7)[OF S], of e] by (auto simp: s_def g_def Let_def)

lemma split_two_way:
  assumes S: "one_split f u e v"
  defines "s \<equiv> length (f_arena f)" and "g \<equiv> put_on_edge u e v f"
  shows "two_way (blk g u)"
  using two_way_edge_set[OF one_splitD(3,6)[OF S]] split_Jmp[OF S] by (simp add: two_way_def s_def g_def)

lemma split_edges_u:
  assumes S: "one_split f u e v"
  defines "s \<equiv> length (f_arena f)" and "g \<equiv> put_on_edge u e v f"
  shows "edge_get e (blk g u) = Some s" "edge_get (\<not> e) (blk g u) = edge_get (\<not> e) (blk f u)"
  using edge_set_sel(1,2)[of e s "blk f u"] Jmp_cong(2)[OF split_Jmp[OF S]] by (simp_all add: s_def g_def)

lemma split_branch:
  assumes S: "one_split f u e v"
  defines "s \<equiv> length (f_arena f)" and "g \<equiv> put_on_edge u e v f"
  shows "Some t \<in> set (block_Succs (blk g x)) \<longleftrightarrow>
     (if x = s then t = v else if x = u then t = s \<or> t \<noteq> v \<and> Some t \<in> set (block_Succs (blk f u)) else Some t \<in> set (block_Succs (blk f x)))"
proof -
  have new: "set (block_Succs (blk g u)) = {Some s, edge_get (\<not> e) (blk f u)}"
    using set_Succs_two_way[OF split_two_way[OF S], of e] split_edges_u[OF S] by (simp add: s_def g_def)
  have old: "set (block_Succs (blk f u)) = {Some v, edge_get (\<not> e) (blk f u)}"
    using set_Succs_two_way[OF one_splitD(3)[OF S], of e] one_splitD(4)[OF S] by simp
  have "Some v \<noteq> edge_get (\<not> e) (blk f u)" using edge_distinct[OF one_splitD(3)[OF S], of e] one_splitD(4)[OF S] by simp
  moreover have "block_Succs (blk g x) = block_Succs (blk f x)" if "x \<noteq> s" "x \<noteq> u"
    using split_old(3)[OF S] that by (intro Jmp_cong) (simp add: s_def g_def)
  ultimately show ?thesis using new old split_new(2)[OF S] by (auto simp: s_def g_def)
qed

lemma split_edge_iff:
  assumes S: "one_split f u e v"
  defines "s \<equiv> length (f_arena f)" and "g \<equiv> put_on_edge u e v f"
  shows "cfg_edge g x t \<longleftrightarrow>
     (if x = s then t = v else Some t \<in> set (block_Succs (blk g x)) \<or> Some t \<in> set (b_SyntheticSuccs (blk f x)))"
proof (cases "x = s")
  case True
  then show ?thesis using split_new(3)[OF S] by (simp add: cfg_edge_def s_def g_def)
next
  case False
  then show ?thesis using split_old(2)[OF S, of x] by (simp add: cfg_edge_def cfg_Succs_eq s_def g_def)
qed

lemma split_edge_other:
  assumes S: "one_split f u e v" and "x \<noteq> length (f_arena f)" and "t \<noteq> length (f_arena f)" and "t \<noteq> v"
  defines "s \<equiv> length (f_arena f)" and "g \<equiv> put_on_edge u e v f"
  shows "cfg_edge g x t \<longleftrightarrow> cfg_edge f x t"
  using assms(2-4) split_edge_iff[OF S, of x t] split_branch[OF S, of t x] by (auto simp: s_def g_def) (auto simp: cfg_edge_def cfg_Succs_eq)

lemma split_edge_uv:
  assumes S: "one_split f u e v"
  defines "s \<equiv> length (f_arena f)" and "g \<equiv> put_on_edge u e v f"
  shows "cfg_edge f u v" "cfg_edge g u s" "cfg_edge g s v"
  using set_Succs_two_way[OF one_splitD(3)[OF S], of e] one_splitD(4,7)[OF S] split_edge_iff[OF S] split_branch[OF S]
  by (auto simp: cfg_edge_def cfg_Succs_eq s_def g_def)

lemma split_edge_into:
  assumes S: "one_split f u e v"
  defines "s \<equiv> length (f_arena f)" and "g \<equiv> put_on_edge u e v f"
  shows "cfg_edge g x s \<longleftrightarrow> x = u"
  using one_splitD(5)[OF S, of x] one_splitD(5)[OF S, of u] one_splitD(7,8)[OF S] split_edge_iff[OF S, of x s] split_branch[OF S, of s x]
  by (auto simp: cfg_edge_def cfg_Succs_eq s_def g_def split: if_splits)

text \<open>Collapsing the new block into the target of its edge maps paths to paths.\<close>

lemma split_edge_back:
  assumes S: "one_split f u e v" and "cfg_edge (put_on_edge u e v f) x t" and "x \<noteq> length (f_arena f)"
  defines "s \<equiv> length (f_arena f)" and "g \<equiv> put_on_edge u e v f"
  shows "cfg_edge f x (if t = s then v else t)"
  using assms(2,3) split_edge_uv(1)[OF S] one_splitD(5)[OF S, of x] split_edge_iff[OF S, of x t] split_branch[OF S, of t x]
  by (auto simp: cfg_edge_def cfg_Succs_eq s_def g_def split: if_splits)

lemma split_edge_forward:
  assumes S: "one_split f u e v" and "cfg_edge f x t" and "x \<noteq> length (f_arena f)"
  defines "s \<equiv> length (f_arena f)" and "g \<equiv> put_on_edge u e v f"
  shows "cfg_edge g x t \<or> x = u \<and> t = v"
  using assms(2,3) split_edge_iff[OF S, of x t] split_branch[OF S, of t x]
  by (auto simp: cfg_edge_def cfg_Succs_eq s_def g_def split: if_splits)

lemma split_paths:
  assumes S: "one_split f u e v" and ab: "a \<noteq> length (f_arena f)" "b \<noteq> length (f_arena f)"
  defines "s \<equiv> length (f_arena f)" and "g \<equiv> put_on_edge u e v f"
  shows "(a, b) \<in> (cfg_edges g)\<^sup>* \<longleftrightarrow> (a, b) \<in> (cfg_edges f)\<^sup>*"
proof
  assume "(a, b) \<in> (cfg_edges g)\<^sup>*"
  then have "(a, if b = s then v else b) \<in> (cfg_edges f)\<^sup>*"
  proof (induction rule: rtrancl_induct)
    case base
    then show ?case using ab by (simp add: s_def)
  next
    case (step x y)
    show ?case
    proof (cases "x = s")
      case True
      with step(2) split_edge_iff[OF S, of x y] have "y = v" by (simp add: s_def g_def)
      with step(3) True one_splitD(8)[OF S] show ?thesis by (simp add: s_def)
    next
      case False
      with step(2) split_edge_back[OF S] have "cfg_edge f x (if y = s then v else y)" by (auto simp: s_def g_def)
      with step(3) False show ?thesis by (auto intro: rtrancl_into_rtrancl)
    qed
  qed
  then show "(a, b) \<in> (cfg_edges f)\<^sup>*" using ab by (simp add: s_def)
next
  assume "(a, b) \<in> (cfg_edges f)\<^sup>*"
  then show "(a, b) \<in> (cfg_edges g)\<^sup>*"
  proof (induction rule: rtrancl_induct)
    case (step x y)
    then have "x \<noteq> s" using cfg_edge_beyond[of f x] by (auto simp: s_def)
    with step(2) consider "cfg_edge g x y" | "x = u" "y = v" using split_edge_forward[OF S, of x y] by (auto simp: s_def g_def)
    then have "(x, y) \<in> (cfg_edges g)\<^sup>*"
    proof cases
      case 2
      have "(u, s) \<in> cfg_edges g" "(s, v) \<in> cfg_edges g" using split_edge_uv(2,3)[OF S] by (simp_all add: s_def g_def)
      then show ?thesis using 2 by (meson r_into_rtrancl converse_rtrancl_into_rtrancl)
    qed auto
    with step(3) show ?case by (rule rtrancl_trans)
  qed simp
qed

text \<open>Phis agree with the branches into their block, as \<open>verifyPhiEdges\<close> demands.\<close>

definition phis_match :: "func \<Rightarrow> bool" where
  "phis_match f \<longleftrightarrow> (\<forall>b \<in> set (f_Blocks f). \<forall>p \<in> set (b_Phis (blk f b)). set (p_Blocks p) = Some ` set (branch_preds f b))"

lemma split_branch_preds:
  assumes S: "one_split f u e v" and b: "b \<in> set (f_Blocks f)" "b \<noteq> length (f_arena f)" and u: "u \<in> set (f_Blocks f)"
    and fresh: "length (f_arena f) \<notin> set (f_Blocks f)"
  defines "s \<equiv> length (f_arena f)" and "g \<equiv> put_on_edge u e v f"
  shows "set (branch_preds g b) = (if b = v then insert s (set (branch_preds f b) - {u}) else set (branch_preds f b))"
proof -
  have bl: "f_Blocks g = f_Blocks f @ [s]" unfolding g_def s_def by (rule put_on_edge_blk(3)[OF one_splitD(1,2)[OF S]])
  have ne: "x \<noteq> s" if "x \<in> set (f_Blocks f)" for x using that fresh by (auto simp: s_def)
  note br = split_branch[OF S, folded s_def g_def]
  have "set (branch_preds g b) = {x \<in> insert s (set (f_Blocks f)). Some b \<in> set (block_Succs (blk g x))}"
    using b by (auto simp: branch_preds_def bl)
  also have "\<dots> = (if b = v then insert s (set (branch_preds f b) - {u}) else set (branch_preds f b))"
    using b ne one_splitD(7,8)[OF S] by (auto simp: br branch_preds_def s_def)
  finally show ?thesis .
qed

lemma split_phis_match:
  assumes S: "one_split f u e v" and m: "phis_match f" and uv: "u \<in> set (f_Blocks f)" "v \<in> set (f_Blocks f)"
    and fresh: "length (f_arena f) \<notin> set (f_Blocks f)"
  shows "phis_match (put_on_edge u e v f)"
  unfolding phis_match_def
proof (intro ballI)
  let ?g = "put_on_edge u e v f" and ?s = "length (f_arena f)"
  fix b p
  assume b: "b \<in> set (f_Blocks ?g)" and p: "p \<in> set (b_Phis (blk ?g b))"
  have bl: "f_Blocks ?g = f_Blocks f @ [?s]" by (rule put_on_edge_blk(3)[OF one_splitD(1,2)[OF S]])
  have "b \<noteq> ?s" using p split_new(4)[OF S] by auto
  then have bf: "b \<in> set (f_Blocks f)" using b bl by auto
  note pr = split_branch_preds[OF S bf \<open>b \<noteq> ?s\<close> uv(1) fresh]
  note ph = split_old(5)[OF S \<open>b \<noteq> ?s\<close>]
  have old: "set (p_Blocks q) = Some ` set (branch_preds f b)" if "q \<in> set (b_Phis (blk f b))" for q
    using m bf that by (auto simp: phis_match_def)
  show "set (p_Blocks p) = Some ` set (branch_preds ?g b)"
  proof (cases "b = v")
    case False
    with p ph have "p \<in> set (b_Phis (blk f b))" by simp
    with old[of p] pr False show ?thesis by simp
  next
    case True
    with p ph obtain q where q: "q \<in> set (b_Phis (blk f b))" "p = redirect_phi u ?s q" by auto
    have "Some v \<in> set (block_Succs (blk f u))"
      unfolding set_Succs_two_way[OF one_splitD(3)[OF S], of e] one_splitD(4)[OF S] by blast
    then have "u \<in> set (branch_preds f b)" using uv True by (simp add: branch_preds_def)
    moreover have "set (p_Blocks p) = (\<lambda>x. if x = Some u then Some ?s else x) ` set (p_Blocks q)"
      using q(2) by (simp add: redirect_phi_def)
    ultimately show ?thesis unfolding old[OF q(1)] pr using True by auto
  qed
qed

section \<open>The loop\<close>

text \<open>What every split keeps, relative to the function \<open>f0\<close> the loop started on.\<close>

definition split_inv :: "func \<Rightarrow> func \<Rightarrow> bool" where
  "split_inv f0 f \<longleftrightarrow>
     length (f_arena f0) \<le> length (f_arena f) \<and> f_Blocks f = f_Blocks f0 @ [length (f_arena f0)..<length (f_arena f)] \<and> f_Start f = f_Start f0 \<and>
     (\<forall>x t. cfg_edge f x t \<longrightarrow> t < length (f_arena f)) \<and>
     (\<forall>b < length (f_arena f0). b_Preds (blk f b) = b_Preds (blk f0 b) \<and> b_Instrs (blk f b) = b_Instrs (blk f0 b)) \<and>
     (\<forall>t < length (f_arena f0). length (b_Preds (blk f0 t)) < 2 \<longrightarrow> (\<forall>x. cfg_edge f x t \<longleftrightarrow> cfg_edge f0 x t)) \<and>
     (\<forall>t x y. length (f_arena f0) \<le> t \<longrightarrow> cfg_edge f x t \<longrightarrow> cfg_edge f y t \<longrightarrow> x = y) \<and>
     (\<forall>b. length (f_arena f0) \<le> b \<longrightarrow> \<not> two_way (blk f b)) \<and>
     (phis_match f0 \<longrightarrow> phis_match f) \<and>
     (\<forall>a < length (f_arena f0). \<forall>b < length (f_arena f0). (a, b) \<in> (cfg_edges f)\<^sup>* \<longleftrightarrow> (a, b) \<in> (cfg_edges f0)\<^sup>*)"

lemma split_invD:
  assumes "split_inv f0 f"
  shows "length (f_arena f0) \<le> length (f_arena f)" "f_Blocks f = f_Blocks f0 @ [length (f_arena f0)..<length (f_arena f)]"
    "f_Start f = f_Start f0" "cfg_edge f x t \<Longrightarrow> t < length (f_arena f)"
    "b < length (f_arena f0) \<Longrightarrow> b_Preds (blk f b) = b_Preds (blk f0 b)" "b < length (f_arena f0) \<Longrightarrow> b_Instrs (blk f b) = b_Instrs (blk f0 b)"
    "t < length (f_arena f0) \<Longrightarrow> length (b_Preds (blk f0 t)) < 2 \<Longrightarrow> cfg_edge f x t \<longleftrightarrow> cfg_edge f0 x t"
    "length (f_arena f0) \<le> t \<Longrightarrow> cfg_edge f x t \<Longrightarrow> cfg_edge f y t \<Longrightarrow> x = y"
    "length (f_arena f0) \<le> b \<Longrightarrow> \<not> two_way (blk f b)" "phis_match f0 \<Longrightarrow> phis_match f"
    "a < length (f_arena f0) \<Longrightarrow> b < length (f_arena f0) \<Longrightarrow> (a, b) \<in> (cfg_edges f)\<^sup>* \<longleftrightarrow> (a, b) \<in> (cfg_edges f0)\<^sup>*"
  using assms unfolding split_inv_def by blast+

lemma split_inv_step:
  assumes I: "split_inv f0 f" and u: "u \<in> set (f_Blocks f0)" "u < length (f_arena f0)" and v: "v \<in> set (f_Blocks f0)" "v < length (f_arena f0)"
    and two: "two_way (blk f u)" and e: "edge_get e (blk f u) = Some v" and joins: "2 \<le> length (b_Preds (blk f0 v))"
    and range: "\<forall>b \<in> set (f_Blocks f0). b < length (f_arena f0)" and st: "f_Start f0 \<noteq> None"
  shows "split_inv f0 (put_on_edge u e v f)" "one_split f u e v"
proof -
  let ?g = "put_on_edge u e v f" and ?s = "length (f_arena f)" and ?n = "length (f_arena f0)"
  note D = split_invD[OF I]
  show S: "one_split f u e v" using u v D(1) two e D(4) by (auto simp: one_split_def)
  note store = put_on_edge_blk(3-5)[OF one_splitD(1,2)[OF S], of e]
  have fresh: "?s \<notin> set (f_Blocks f)" using D(1,2) range by auto
  have uvf: "u \<in> set (f_Blocks f)" "v \<in> set (f_Blocks f)" using D(2) u v by auto
  have old: "b \<noteq> ?s" if "b < ?n" for b using that D(1) by simp
  have start: "f_Start ?g = f_Start f0" using store(3) D(3) st by simp
  have range': "t < length (f_arena ?g)" if "cfg_edge ?g x t" for x t
  proof (cases "x = ?s")
    case True
    with that split_edge_iff[OF S, of x t] have "t = v" by simp
    then show ?thesis using one_splitD(2)[OF S] store(2) by simp
  next
    case False
    from D(4)[OF split_edge_back[OF S that False]] store(2) show ?thesis by (auto split: if_splits)
  qed
  have few: "cfg_edge ?g x t \<longleftrightarrow> cfg_edge f0 x t" if "t < ?n" "length (b_Preds (blk f0 t)) < 2" for x t
  proof -
    have t: "t \<noteq> v" "t \<noteq> ?s" using that joins old by auto
    have "cfg_edge ?g x t \<longleftrightarrow> cfg_edge f x t"
      using split_edge_iff[OF S, of x t] split_edge_other[OF S _ t(2,1), of x] t cfg_edge_beyond[of f ?s t] by (cases "x = ?s") auto
    then show ?thesis using D(7)[OF that] by simp
  qed
  have one: "x = y" if "?n \<le> t" "cfg_edge ?g x t" "cfg_edge ?g y t" for t x y
  proof (cases "t = ?s")
    case True
    then show ?thesis using that split_edge_into[OF S] by simp
  next
    case False
    have "t \<noteq> v" using that(1) v(2) by simp
    then have "z \<noteq> ?s \<and> cfg_edge f z t" if "cfg_edge ?g z t" for z
      using that split_edge_iff[OF S, of z t] split_edge_other[OF S _ False, of z] by (cases "z = ?s") auto
    then show ?thesis using D(8)[OF that(1)] that by blast
  qed
  have tw: "\<not> two_way (blk ?g b)" if "?n \<le> b" for b
  proof (cases "b = ?s")
    case True
    then show ?thesis using split_new(1)[OF S] by (simp add: two_way_def)
  next
    case False
    then show ?thesis using split_old(3)[OF S False] D(9)[OF that] that u(2) by (simp add: two_way_def)
  qed
  have paths: "(a, b) \<in> (cfg_edges ?g)\<^sup>* \<longleftrightarrow> (a, b) \<in> (cfg_edges f0)\<^sup>*" if "a < ?n" "b < ?n" for a b
    using split_paths[OF S old[OF that(1)] old[OF that(2)]] D(11)[OF that] by simp
  have "f_Blocks ?g = f_Blocks f0 @ [?n..<length (f_arena ?g)]" using store(1,2) D(1,2) by simp
  moreover have "phis_match f0 \<longrightarrow> phis_match ?g" using split_phis_match[OF S D(10) uvf fresh] by blast
  moreover have "b_Preds (blk ?g b) = b_Preds (blk f0 b) \<and> b_Instrs (blk ?g b) = b_Instrs (blk f0 b)" if "b < ?n" for b
    using split_old(1,4)[OF S old[OF that]] D(5,6)[OF that] by simp
  ultimately show "split_inv f0 ?g"
    unfolding split_inv_def using store(2) D(1) start range' few one tw paths by auto
qed

text \<open>A side of a branch that needs no copy block any more.\<close>

definition side_done :: "func \<Rightarrow> bptr option \<Rightarrow> bool" where
  "side_done f0 t \<longleftrightarrow> (\<exists>t'. t = Some t' \<and> (t' < length (f_arena f0) \<longrightarrow> length (b_Preds (blk f0 t')) < 2))"

text \<open>What the pass relies on: a store without dangling successors, and two-way branches with both targets.\<close>

definition splittable :: "func \<Rightarrow> bool" where
  "splittable f \<longleftrightarrow> blocks_ok f \<and> f_Start f \<noteq> None \<and> (\<forall>x t. cfg_edge f x t \<longrightarrow> t < length (f_arena f)) \<and>
     (\<forall>b \<in> set (f_Blocks f). j_Kind (b_Jmp (blk f b)) = JmpJnz \<longrightarrow> j_To (b_Jmp (blk f b)) \<noteq> None \<and> j_To2 (b_Jmp (blk f b)) \<noteq> None)"

lemma split_edge_step:
  assumes ok: "splittable f0" and I: "split_inv f0 f" and u: "u \<in> set (f_Blocks f0)" and two: "two_way (blk f u)"
    and e: "edge_get e (blk f u) = Some v" and v: "v \<in> set (f_Blocks f0)"
  shows "\<exists>g. split_edge u e f = Some g \<and> split_inv f0 g \<and> two_way (blk g u) \<and> side_done f0 (edge_get e (blk g u)) \<and>
    edge_get (\<not> e) (blk g u) = edge_get (\<not> e) (blk f u) \<and> (\<forall>x < length (f_arena f0). x \<noteq> u \<longrightarrow> b_Jmp (blk g x) = b_Jmp (blk f x))"
proof -
  have range: "\<forall>b \<in> set (f_Blocks f0). b < length (f_arena f0)" and st: "f_Start f0 \<noteq> None"
    using ok by (auto simp: splittable_def blocks_ok_def)
  note D = split_invD[OF I]
  have vn: "v < length (f_arena f0)" and un: "u < length (f_arena f0)" using range u v by auto
  show ?thesis
  proof (cases "length (b_Preds (blk f0 v)) < 2")
    case True
    then have "split_edge u e f = Some f" using e D(5)[OF vn] by (simp add: split_edge_def)
    then show ?thesis using True I two e by (auto simp: side_done_def)
  next
    case False
    then have "2 \<le> length (b_Preds (blk f0 v))" by simp
    note step = split_inv_step[OF I u un v vn two e this range st]
    let ?g = "put_on_edge u e v f"
    have "split_edge u e f = Some ?g" using e D(5)[OF vn] False by (simp add: split_edge_def)
    moreover have "side_done f0 (edge_get e (blk ?g u))"
      using split_edges_u(1)[OF step(2)] D(1) by (simp add: side_done_def)
    moreover have "b_Jmp (blk ?g x) = b_Jmp (blk f x)" if "x < length (f_arena f0)" "x \<noteq> u" for x
      using split_old(3)[OF step(2), of x] that D(1) by simp
    ultimately show ?thesis using step(1) split_two_way[OF step(2)] split_edges_u(2)[OF step(2)] by blast
  qed
qed

definition settled :: "func \<Rightarrow> func \<Rightarrow> bptr \<Rightarrow> bool" where
  "settled f0 f u \<longleftrightarrow> (two_way (blk f u) \<longrightarrow> side_done f0 (j_To (b_Jmp (blk f u))) \<and> side_done f0 (j_To2 (b_Jmp (blk f u))))"

lemma split_block_step:
  assumes ok: "splittable f0" and I: "split_inv f0 f" and u: "u \<in> set (f_Blocks f0)" and same: "b_Jmp (blk f u) = b_Jmp (blk f0 u)"
  shows "\<exists>g. split_block u f = Some g \<and> split_inv f0 g \<and> settled f0 g u \<and> (\<forall>x < length (f_arena f0). x \<noteq> u \<longrightarrow> b_Jmp (blk g x) = b_Jmp (blk f x))"
proof (cases "two_way (blk f u)")
  case False
  then have "split_block u f = Some f" by (auto simp: split_block_def two_way_def)
  with False I show ?thesis by (auto simp: settled_def)
next
  case two: True
  have tgt: "\<exists>v \<in> set (f_Blocks f0). edge_get e (blk f u) = Some v" for e
  proof -
    have "two_way (blk f0 u)" using two by (simp add: two_way_def same)
    then have k: "j_Kind (b_Jmp (blk f0 u)) = JmpJnz" and mem: "edge_get e (blk f0 u) \<in> set (cfg_Succs (blk f0 u))"
      using set_Succs_two_way[of "blk f0 u" e] by (auto simp: two_way_def cfg_Succs_eq)
    have "edge_get e (blk f0 u) \<noteq> None" using ok u k by (auto simp: splittable_def edge_get_def)
    moreover have "the (edge_get e (blk f0 u)) \<in> set (f_Blocks f0)" if "edge_get e (blk f0 u) \<noteq> None"
      using ok u mem that unfolding splittable_def blocks_ok_def by blast
    moreover have "edge_get e (blk f u) = edge_get e (blk f0 u)" by (rule Jmp_cong(2)[OF same])
    ultimately show ?thesis by force
  qed
  obtain v1 v2 where v1: "edge_get False (blk f u) = Some v1" "v1 \<in> set (f_Blocks f0)"
    and v2: "edge_get True (blk f u) = Some v2" "v2 \<in> set (f_Blocks f0)" using tgt by metis
  obtain g1 where g1: "split_edge u False f = Some g1" "split_inv f0 g1" "two_way (blk g1 u)" "side_done f0 (edge_get False (blk g1 u))"
    "edge_get True (blk g1 u) = Some v2" "\<forall>x < length (f_arena f0). x \<noteq> u \<longrightarrow> b_Jmp (blk g1 x) = b_Jmp (blk f x)"
    using split_edge_step[OF ok I u two v1] v2 by auto
  obtain g where g: "split_edge u True g1 = Some g" "split_inv f0 g" "two_way (blk g u)" "side_done f0 (edge_get True (blk g u))"
    "edge_get False (blk g u) = edge_get False (blk g1 u)" "\<forall>x < length (f_arena f0). x \<noteq> u \<longrightarrow> b_Jmp (blk g x) = b_Jmp (blk g1 x)"
    using split_edge_step[OF ok g1(2) u g1(3,5) v2(2)] by auto
  have "split_block u f = Some g" using two g1(1) g(1) by (simp add: split_block_def two_way_def)
  moreover have "settled f0 g u" using g(4,5) g1(4) by (simp add: settled_def edge_get_def)
  ultimately show ?thesis using g(2,6) g1(6) by auto
qed

lemma split_loop:
  assumes ok: "splittable f0"
  shows "\<exists>g. fold_opt split_block (f_Blocks f0) f0 = Some g \<and> split_inv f0 g \<and> (\<forall>u \<in> set (f_Blocks f0). settled f0 g u)"
proof -
  let ?n = "length (f_arena f0)"
  let ?I = "\<lambda>ys f. split_inv f0 f \<and> (\<forall>u \<in> set ys. settled f0 f u) \<and> (\<forall>x < ?n. x \<notin> set ys \<longrightarrow> b_Jmp (blk f x) = b_Jmp (blk f0 x))"
  have range: "\<forall>b \<in> set (f_Blocks f0). b < ?n" and dist: "distinct (f_Blocks f0)" using ok by (auto simp: splittable_def blocks_ok_def)
  have "\<exists>g. fold_opt split_block (f_Blocks f0) f0 = Some g \<and> ?I (f_Blocks f0) g"
  proof (rule fold_opt_invar[where I = ?I])
    have "split_inv f0 f0" using ok cfg_edge_beyond[of f0] by (auto simp: split_inv_def splittable_def two_way_def blk_def block0_def jmp0_def dest: leD)
    then show "?I [] f0" by simp
  next
    fix x ys zs t
    assume xs: "f_Blocks f0 = ys @ x # zs" and I: "?I ys t"
    have x: "x \<in> set (f_Blocks f0)" "x \<notin> set ys" "x < ?n" using xs dist range by auto
    then have "b_Jmp (blk t x) = b_Jmp (blk f0 x)" using I by blast
    then obtain g where g: "split_block x t = Some g" "split_inv f0 g" "settled f0 g x"
      "\<forall>y < ?n. y \<noteq> x \<longrightarrow> b_Jmp (blk g y) = b_Jmp (blk t y)"
      using split_block_step[OF ok _ x(1)] I by blast
    have "settled f0 g y" if "y \<in> set ys" for y
    proof -
      have "y < ?n" "y \<noteq> x" using that xs range x(2) by auto
      then have "b_Jmp (blk g y) = b_Jmp (blk t y)" using g(4) by blast
      then show ?thesis using I that by (simp add: settled_def two_way_def)
    qed
    then show "\<exists>t'. split_block x t = Some t' \<and> ?I (ys @ [x]) t'" using g I by auto
  qed
  then show ?thesis by blast
qed

section \<open>No critical edge is left\<close>

lemma splittable_FillPreds: "splittable f \<Longrightarrow> splittable (FillPreds f)"
  using preds_only_sel[OF preds_only_fillPreds[of f]] by (simp add: splittable_def blocks_ok_def FillPreds_def)

lemma phis_match_FillPreds: "phis_match (FillPreds f) \<longleftrightarrow> phis_match f"
proof -
  note P = preds_only_sel[OF preds_only_fillPreds[of f]]
  have "block_Succs (blk (fillPreds f) b) = block_Succs (blk f b)" for b by (rule Jmp_cong(1)) (rule P(10))
  then show ?thesis by (simp add: phis_match_def branch_preds_def FillPreds_def P)
qed

lemma few_preds_unique:
  assumes "splittable f" "t \<in> set (f_Blocks f)" "length (b_Preds (blk (FillPreds f) t)) < 2"
    and xy: "x \<in> set (f_Blocks f)" "y \<in> set (f_Blocks f)" "cfg_edge f x t" "cfg_edge f y t"
  shows "x = y"
proof -
  let ?ps = "b_Preds (blk (fillPreds f) t)"
  have "?ps = filter (\<lambda>b. cfg_edge f b t) (f_Blocks f)"
    using fillPreds_preds[of f t] assms(1,2) by (auto simp: splittable_def blocks_ok_def)
  then have "x \<in> set ?ps" "y \<in> set ?ps" using xy by auto
  moreover have "length ?ps < 2" using assms(3) by (simp add: FillPreds_def)
  ultimately show ?thesis by (cases ?ps; cases "tl ?ps") auto
qed

text \<open>C24: after \<open>SplitCriticalEdges\<close> a block with two distinct branch targets is the only predecessor of each of them, so a
  copy placed on the edge runs for that edge alone.  The pass keeps every block and its instructions, keeps phis in
  agreement with the branches into their block, and between the blocks there were before it neither adds nor removes a path.\<close>

theorem SplitCriticalEdges_correct:
  assumes "splittable f"
  shows "\<exists>g. SplitCriticalEdges f = Some g \<and>
    (\<forall>u \<in> set (f_Blocks g). two_way (blk g u) \<longrightarrow>
       (\<exists>t1 t2. j_To (b_Jmp (blk g u)) = Some t1 \<and> j_To2 (b_Jmp (blk g u)) = Some t2 \<and>
          (\<forall>x \<in> set (f_Blocks g). cfg_edge g x t1 \<or> cfg_edge g x t2 \<longrightarrow> x = u))) \<and>
    (phis_match f \<longrightarrow> phis_match g) \<and> set (f_Blocks f) \<subseteq> set (f_Blocks g) \<and>
    (\<forall>a \<in> set (f_Blocks f). b_Instrs (blk g a) = b_Instrs (blk f a)) \<and>
    (\<forall>a \<in> set (f_Blocks f). \<forall>b \<in> set (f_Blocks f). (a, b) \<in> (cfg_edges g)\<^sup>* \<longleftrightarrow> (a, b) \<in> (cfg_edges f)\<^sup>*)"
proof -
  let ?f0 = "FillPreds f"
  note ok = splittable_FillPreds[OF assms]
  note P = preds_only_sel[OF preds_only_fillPreds[of f], folded FillPreds_def]
  obtain g where g: "SplitCriticalEdges f = Some g" "split_inv ?f0 g" "\<forall>u \<in> set (f_Blocks f). settled ?f0 g u"
    using split_loop[OF ok] P(5) by (auto simp: SplitCriticalEdges_def Let_def)
  note D = split_invD[OF g(2)]
  have range: "a < length (f_arena ?f0)" if "a \<in> set (f_Blocks f)" for a
    using assms that P(7) by (auto simp: splittable_def blocks_ok_def)
  have only: "x = u" if u: "u \<in> set (f_Blocks f)" and t: "cfg_edge g u t" "side_done ?f0 (Some t)" and x: "x \<in> set (f_Blocks g)" "cfg_edge g x t" for u t x
  proof (cases "t < length (f_arena ?f0)")
    case False
    then show ?thesis using D(8)[of t x u] x t by simp
  next
    case True
    then have few: "length (b_Preds (blk ?f0 t)) < 2" using t(2) by (simp add: side_done_def)
    have e: "cfg_edge f u t" "cfg_edge f x t" using D(7)[OF True few] t(1) x(2) P(4) by auto
    have "x \<in> set (f_Blocks f)" using x(1) D(2) P(5,7) cfg_edge_beyond[of f x t] e(2) by auto
    moreover have "t \<in> set (f_Blocks f)" using assms u e(1) unfolding splittable_def blocks_ok_def cfg_edge_def by force
    ultimately show ?thesis using few_preds_unique[OF assms _ few] u e by blast
  qed
  have crit: "\<exists>t1 t2. j_To (b_Jmp (blk g u)) = Some t1 \<and> j_To2 (b_Jmp (blk g u)) = Some t2 \<and>
     (\<forall>x \<in> set (f_Blocks g). cfg_edge g x t1 \<or> cfg_edge g x t2 \<longrightarrow> x = u)"
    if u: "u \<in> set (f_Blocks g)" "two_way (blk g u)" for u
  proof -
    have uf: "u \<in> set (f_Blocks f)" using u D(2,9) P(5) by (auto simp: not_le)
    then obtain t1 t2 where t: "j_To (b_Jmp (blk g u)) = Some t1" "j_To2 (b_Jmp (blk g u)) = Some t2"
      and sd: "side_done ?f0 (Some t1)" "side_done ?f0 (Some t2)"
      using g(3) u(2) by (auto simp: settled_def side_done_def)
    have "cfg_edge g u t1" "cfg_edge g u t2"
      using set_Succs_two_way[OF u(2), of False] t by (auto simp: cfg_edge_def cfg_Succs_eq edge_get_def)
    then show ?thesis using only[OF uf] sd t by blast
  qed
  have "phis_match f \<longrightarrow> phis_match g" using D(10) by (simp add: phis_match_FillPreds)
  moreover have "set (f_Blocks f) \<subseteq> set (f_Blocks g)" using D(2) P(5) by simp
  moreover have "b_Instrs (blk g a) = b_Instrs (blk f a)" if "a \<in> set (f_Blocks f)" for a using D(6)[OF range[OF that]] P(9) by simp
  moreover have "(a, b) \<in> (cfg_edges g)\<^sup>* \<longleftrightarrow> (a, b) \<in> (cfg_edges f)\<^sup>*" if "a \<in> set (f_Blocks f)" "b \<in> set (f_Blocks f)" for a b
    using D(11)[OF range[OF that(1)] range[OF that(2)]] P(4) by simp
  ultimately show ?thesis using g(1) crit by blast
qed

text \<open>An instance with a critical edge, from the entry into the loop.\<close>

lemma splittable_example: "splittable example_cfg"
proof -
  have beyond: "cfg_Succs (blk example_cfg b) = []" if "b \<ge> 4" for b
    using that by (simp add: blk_def example_cfg_def)
  have t: "t < 4" if "cfg_edge example_cfg x t" for x t
  proof -
    consider "x = 0" | "x = 1" | "x = 2" | "x = 3" | "x \<ge> 4" by linarith
    then show ?thesis using that beyond by cases (auto simp: cfg_edge_def example_cfg_graph simp del: One_nat_def)
  qed
  have "blocks_ok example_cfg" "f_Start example_cfg \<noteq> None" "length (f_arena example_cfg) = 4"
    "list_all (\<lambda>b. j_To (b_Jmp (blk example_cfg b)) \<noteq> None \<or> j_Kind (b_Jmp (blk example_cfg b)) \<noteq> JmpJnz) (f_Blocks example_cfg)"
    "list_all (\<lambda>b. j_To2 (b_Jmp (blk example_cfg b)) \<noteq> None \<or> j_Kind (b_Jmp (blk example_cfg b)) \<noteq> JmpJnz) (f_Blocks example_cfg)"
    unfolding blocks_ok_def by code_simp+
  then show ?thesis using t unfolding splittable_def list_all_iff by metis
qed

theorem SplitCriticalEdges_correct_witness:
  "\<exists>g. SplitCriticalEdges example_cfg = Some g \<and> (0, 3) \<in> (cfg_edges g)\<^sup>*"
proof -
  have "0 \<in> set (f_Blocks example_cfg)" "3 \<in> set (f_Blocks example_cfg)" by (simp_all add: example_cfg_def)
  moreover have "(0, 3) \<in> (cfg_edges example_cfg)\<^sup>*" using example_reachable by (simp add: reachable_def example_cfg_graph(5))
  ultimately show ?thesis using SplitCriticalEdges_correct[OF splittable_example] by blast
qed

end
