(* ===== verification/Parallel_Copy.thy ===== *)
theory Parallel_Copy
  imports IR_Func
begin

text \<open>
  Turning the parallel copies of an edge into a sequence (\<open>sequentialize\<close> of \<open>lower/ssa.go\<close>).  An
  outer \<open>None\<close> is a panic of \<open>ClassOf\<close> or a loop that does not end; the theorem excludes both.
\<close>

record movePair =
  mv_dst :: ref
  mv_src :: ref

section \<open>The loop\<close>

text \<open>The scan for a copy whose destination no pending copy still reads.\<close>

definition needed :: "movePair list \<Rightarrow> movePair \<Rightarrow> bool" where
  "needed work p \<longleftrightarrow> list_ex (\<lambda>q. mv_src q = mv_dst p) work"

definition pick_free :: "movePair list \<Rightarrow> nat option" where
  "pick_free work = find_index (\<lambda>p. \<not> needed work p) work"

text \<open>Rerouting the readers of \<open>d\<close> to the fresh temporary.\<close>

definition reroute :: "ref \<Rightarrow> ref \<Rightarrow> movePair list \<Rightarrow> movePair list" where
  "reroute d tmp = map (\<lambda>q. if mv_src q = d then q\<lparr>mv_src := tmp\<rparr> else q)"

partial_function (option) seq_loop :: "func \<Rightarrow> movePair list \<Rightarrow> movePair list \<Rightarrow> (movePair list \<times> func) option" where
  "seq_loop f work out =
     (if work = [] then Some (out, f)
      else case pick_free work of
        Some idx \<Rightarrow> seq_loop f (take idx work @ drop (Suc idx) work) (out @ [work ! idx])
      | None \<Rightarrow>
          (let d = mv_dst (hd work) in
           Option.bind (ClassOf f d) (\<lambda>c.
             let (tmp, f') = NewTemp [] c f
             in seq_loop f' (reroute d tmp work) (out @ [\<lparr>mv_dst = tmp, mv_src = d\<rparr>]))))"

declare seq_loop.simps [code]

definition sequentialize :: "func \<Rightarrow> movePair list \<Rightarrow> (movePair list \<times> func) option" where
  "sequentialize f pairs = seq_loop f (filter (\<lambda>p. mv_dst p \<noteq> mv_src p) pairs) []"

section \<open>What copies do\<close>

text \<open>A register file: the value every operand reads.  One copy, a sequence of copies, and a parallel copy.\<close>

type_synonym 'v regs = "ref \<Rightarrow> 'v"

definition do_copy :: "movePair \<Rightarrow> 'v regs \<Rightarrow> 'v regs" where
  "do_copy p s = s(mv_dst p := s (mv_src p))"

definition run_copies :: "movePair list \<Rightarrow> 'v regs \<Rightarrow> 'v regs" where
  "run_copies = fold do_copy"

definition parallel :: "movePair list \<Rightarrow> 'v regs \<Rightarrow> 'v regs" where
  "parallel ps s r = (case find (\<lambda>p. mv_dst p = r) ps of Some p \<Rightarrow> s (mv_src p) | None \<Rightarrow> s r)"

lemma run_copies_simps [simp]:
  "run_copies [] s = s" "run_copies (p # ps) s = run_copies ps (do_copy p s)"
  by (simp_all add: run_copies_def)

lemma parallel_Nil [simp]: "parallel [] s = s"
  by (rule ext) (simp add: parallel_def)

lemma parallel_other: "r \<notin> mv_dst ` set ps \<Longrightarrow> parallel ps s r = s r"
  by (auto simp: parallel_def find_Some_iff split: option.splits)

lemma parallel_dst:
  assumes "distinct (map mv_dst ps)" "p \<in> set ps"
  shows "parallel ps s (mv_dst p) = s (mv_src p)"
proof -
  obtain q where q: "find (\<lambda>q. mv_dst q = mv_dst p) ps = Some q"
    using assms(2) by (metis (mono_tags, lifting) find_None_iff not_None_eq)
  then have "q \<in> set ps" "mv_dst q = mv_dst p" by (auto simp: find_Some_iff)
  then have "q = p" using assms by (metis distinct_map inj_onD)
  with q show ?thesis by (simp add: parallel_def)
qed

text \<open>A parallel copy is determined by the pairs, not by their order.\<close>

lemma parallelI:
  assumes "distinct (map mv_dst ps)" "\<And>p. p \<in> set ps \<Longrightarrow> t (mv_dst p) = s (mv_src p)"
    "r \<notin> mv_dst ` set ps \<Longrightarrow> t r = s r"
  shows "t r = parallel ps s r"
  using assms parallel_dst[OF assms(1), of _ s] parallel_other[of r ps s] by (cases "r \<in> mv_dst ` set ps") auto

lemma parallel_drop_self:
  assumes "distinct (map mv_dst ps)"
  shows "parallel (filter (\<lambda>p. mv_dst p \<noteq> mv_src p) ps) s = parallel ps s"
proof
  fix r
  let ?qs = "filter (\<lambda>p. mv_dst p \<noteq> mv_src p) ps"
  have d: "distinct (map mv_dst ?qs)" using assms by (rule distinct_map_filter)
  show "parallel ?qs s r = parallel ps s r"
  proof (rule parallelI[OF assms])
    fix p assume "p \<in> set ps"
    then show "parallel ?qs s (mv_dst p) = s (mv_src p)"
    proof (cases "mv_dst p = mv_src p")
      case True
      have "mv_dst p \<notin> mv_dst ` set ?qs"
      proof
        assume "mv_dst p \<in> mv_dst ` set ?qs"
        then obtain q where q: "q \<in> set ps" "mv_dst q \<noteq> mv_src q" "mv_dst q = mv_dst p" by auto
        then have "q = p" using assms \<open>p \<in> set ps\<close> by (simp add: distinct_map inj_on_def)
        with q True show False by simp
      qed
      then show ?thesis using True by (simp add: parallel_other)
    qed (use parallel_dst[OF d, of p s] \<open>p \<in> set ps\<close> in simp)
  qed (auto intro: parallel_other)
qed

section \<open>One step of the loop\<close>

text \<open>A reference a function can hold: a temporary is one of its temporaries.\<close>

definition in_temps :: "nat \<Rightarrow> ref \<Rightarrow> bool" where
  "in_temps n r \<longleftrightarrow> (r_Kind r = RefTemp \<longrightarrow> r_ID r < n)"

definition pairs_ok :: "nat \<Rightarrow> movePair list \<Rightarrow> bool" where
  "pairs_ok n ps \<longleftrightarrow> distinct (map mv_dst ps) \<and>
     (\<forall>p \<in> set ps. r_Kind (mv_dst p) = RefTemp \<and> in_temps n (mv_dst p) \<and> in_temps n (mv_src p))"

text \<open>The destinations still read, which breaking a cycle shrinks.\<close>

definition pending :: "movePair list \<Rightarrow> ref set" where
  "pending ps = mv_dst ` set ps \<inter> mv_src ` set ps"

lemma pending_mono: "set ps \<subseteq> set qs \<Longrightarrow> pending ps \<subseteq> pending qs"
  by (auto simp: pending_def)

lemma finite_pending [simp]: "finite (pending ps)"
  by (simp add: pending_def)

lemma seq_emit:
  assumes ok: "pairs_ok n work" and p: "pick_free work = Some i"
  defines "rest \<equiv> take i work @ drop (Suc i) work"
  shows "i < length work" "pairs_ok n rest" "length rest < length work" "pending rest \<subseteq> pending work"
    "parallel rest (do_copy (work ! i) s) = parallel work s"
proof -
  let ?p = "work ! i"
  have i: "i < length work" and free: "\<not> needed work ?p"
    using find_index_Some[OF p[unfolded pick_free_def]] by auto
  show "i < length work" by (rule i)
  have w: "work = take i work @ ?p # drop (Suc i) work" using i by (rule id_take_nth_drop)
  have dw: "distinct (map mv_dst work)" using ok by (simp add: pairs_ok_def)
  then have "distinct (map mv_dst (take i work @ ?p # drop (Suc i) work))" using w by simp
  then have dr: "distinct (map mv_dst rest)" and pd: "mv_dst ?p \<notin> mv_dst ` set rest"
    unfolding rest_def by (auto simp del: append_take_drop_id)
  have "set work = set (take i work @ ?p # drop (Suc i) work)" using w by simp
  then have set: "set work = insert ?p (set rest)" unfolding rest_def by auto
  show "pairs_ok n rest" using ok set dr by (simp add: pairs_ok_def)
  show "pending rest \<subseteq> pending work" using set by (intro pending_mono) auto
  show "length rest < length work" using i by (simp add: rest_def)
  have fr: "mv_src q \<noteq> mv_dst ?p" if "q \<in> set work" for q
    using free that by (auto simp: needed_def list_ex_iff)
  show "parallel rest (do_copy ?p s) = parallel work s"
  proof
    fix r
    show "parallel rest (do_copy ?p s) r = parallel work s r"
    proof (rule parallelI[OF dw])
      fix q assume q: "q \<in> set work"
      show "parallel rest (do_copy ?p s) (mv_dst q) = s (mv_src q)"
      proof (cases "q = ?p")
        case True
        then show ?thesis using pd by (simp add: parallel_other do_copy_def)
      next
        case False
        with q set have "q \<in> set rest" by simp
        then show ?thesis using parallel_dst[OF dr, of q "do_copy ?p s"] fr[OF q] by (simp add: do_copy_def)
      qed
    next
      assume "r \<notin> mv_dst ` set work"
      then show "parallel rest (do_copy ?p s) r = s r"
        using set by (simp add: parallel_other do_copy_def)
    qed
  qed
qed

lemma reroute_dst [simp]: "map mv_dst (reroute d tmp ps) = map mv_dst ps"
  by (simp add: reroute_def)

lemma set_reroute: "set (reroute d tmp ps) = (\<lambda>q. if mv_src q = d then q\<lparr>mv_src := tmp\<rparr> else q) ` set ps"
  by (simp add: reroute_def)

lemma seq_break:
  assumes ok: "pairs_ok n work" and none: "pick_free work = None" and ne: "work \<noteq> []"
  defines "d \<equiv> mv_dst (hd work)" and "tmp \<equiv> tempRef n"
  defines "work' \<equiv> reroute d tmp work"
  shows "pairs_ok (Suc n) work'" "length work' = length work" "pending work' \<subset> pending work"
    "in_temps n r \<Longrightarrow> parallel work' (do_copy \<lparr>mv_dst = tmp, mv_src = d\<rparr> s) r = parallel work s r"
proof -
  have dw: "distinct (map mv_dst work)" using ok by (simp add: pairs_ok_def)
  then have dw': "distinct (map mv_dst work')" by (simp add: work'_def)
  have hd: "hd work \<in> set work" using ne by simp
  have dt: "in_temps n d" "r_Kind d = RefTemp" using ok hd by (auto simp: pairs_ok_def d_def)
  have dst: "mv_dst ` set work' = mv_dst ` set work" 
    using arg_cong[OF reroute_dst[of d tmp work], of set] by (simp only: work'_def set_map)
  have tmp: "\<not> in_temps n tmp" "in_temps (Suc n) tmp" by (simp_all add: in_temps_def tmp_def tempRef_def)
  have up: "in_temps n x \<Longrightarrow> in_temps (Suc n) x" for x by (auto simp: in_temps_def)
  show "pairs_ok (Suc n) work'" using ok dw' tmp(2) up by (auto simp: pairs_ok_def work'_def set_reroute)
  show "length work' = length work" by (simp add: work'_def reroute_def)
  have src: "mv_src ` set work' \<subseteq> insert tmp (mv_src ` set work - {d})" by (auto simp: work'_def set_reroute)
  have td: "tmp \<notin> mv_dst ` set work" "d \<noteq> tmp" using ok tmp(1) dt by (auto simp: pairs_ok_def)
  have "needed work (hd work)" using none hd by (auto simp: pick_free_def find_index_None)
  then have "d \<in> pending work" using hd by (auto simp: pending_def needed_def list_ex_iff d_def intro: rev_image_eqI)
  moreover have "pending work' \<subseteq> pending work - {d}" using src dst td by (auto simp: pending_def)
  ultimately show "pending work' \<subset> pending work" by blast
  let ?s = "do_copy \<lparr>mv_dst = tmp, mv_src = d\<rparr> s"
  assume r: "in_temps n r"
  show "parallel work' ?s r = parallel work s r"
  proof (rule parallelI[OF dw])
    fix q assume q: "q \<in> set work"
    let ?q = "if mv_src q = d then q\<lparr>mv_src := tmp\<rparr> else q"
    have "?q \<in> set work'" using q by (auto simp: work'_def set_reroute)
    from parallel_dst[OF dw' this, of ?s] have "parallel work' ?s (mv_dst q) = ?s (mv_src ?q)" by (simp split: if_splits)
    moreover have "in_temps n (mv_src q)" using ok q by (simp add: pairs_ok_def)
    ultimately show "parallel work' ?s (mv_dst q) = s (mv_src q)" using tmp(1) by (auto simp: do_copy_def)
  next
    assume "r \<notin> mv_dst ` set work"
    then show "parallel work' ?s r = s r" using dst r tmp(1) by (auto simp: parallel_other do_copy_def)
  qed
qed

section \<open>The sequence is the parallel copy\<close>

text \<open>The function only gains temporaries.\<close>

definition gains_temps :: "func \<Rightarrow> func \<Rightarrow> bool" where
  "gains_temps f f' \<longleftrightarrow> (\<exists>ts. f_Temps f' = f_Temps f @ ts) \<and> f_arena f' = f_arena f \<and> f_Blocks f' = f_Blocks f \<and>
     f_Consts f' = f_Consts f \<and> f_Start f' = f_Start f \<and> f_Params f' = f_Params f \<and> f_constIdx f' = f_constIdx f"

lemma gains_temps_refl [simp]: "gains_temps f f"
  by (simp add: gains_temps_def)

lemma gains_temps_trans: "gains_temps f g \<Longrightarrow> gains_temps g h \<Longrightarrow> gains_temps f h"
  by (auto simp: gains_temps_def)

lemma newTemp_gains: "gains_temps f (snd (newTemp name c f))"
  by (auto simp: newTemp_def gains_temps_def Let_def)

lemma seq_loop_correct:
  assumes "pairs_ok (length (f_Temps f)) work"
  shows "\<exists>l f'. seq_loop f work out = Some (out @ l, f') \<and> gains_temps f f' \<and>
    (\<forall>(s :: 'v regs) r. in_temps (length (f_Temps f)) r \<longrightarrow> run_copies l s r = parallel work s r) \<and>
    (\<forall>p \<in> set l. r_Kind (mv_dst p) = RefTemp \<and> in_temps (length (f_Temps f')) (mv_dst p))"
  using assms
proof (induction "length work + card (pending work)" arbitrary: f work out rule: less_induct)
  case less
  let ?n = "length (f_Temps f)"
  show ?case
  proof (cases "work = []")
    case True
    then show ?thesis by (subst seq_loop.simps) simp
  next
    case ne: False
    show ?thesis
    proof (cases "pick_free work")
      case (Some i)
      note e = seq_emit[OF less.prems Some]
      let ?rest = "take i work @ drop (Suc i) work"
      have "length ?rest + card (pending ?rest) < length work + card (pending work)"
        using e(3) card_mono[OF finite_pending e(4)] by linarith
      from less.hyps[OF this e(2)] obtain l f' where l: "seq_loop f ?rest (out @ [work ! i]) = Some ((out @ [work ! i]) @ l, f')"
        "gains_temps f f'" "\<forall>(s :: 'v regs) r. in_temps ?n r \<longrightarrow> run_copies l s r = parallel ?rest s r"
        "\<forall>p \<in> set l. r_Kind (mv_dst p) = RefTemp \<and> in_temps (length (f_Temps f')) (mv_dst p)" by blast
      have "seq_loop f work out = Some (out @ work ! i # l, f')"
        using l(1) ne Some by (subst seq_loop.simps) simp
      moreover have "run_copies (work ! i # l) s r = parallel work s r" if "in_temps ?n r" for s :: "'v regs" and r
        using l(3) that e(5)[of s] by simp
      moreover have "r_Kind (mv_dst (work ! i)) = RefTemp \<and> in_temps (length (f_Temps f')) (mv_dst (work ! i))"
        using less.prems nth_mem[OF e(1)] l(2) by (fastforce simp: pairs_ok_def gains_temps_def in_temps_def)
      ultimately show ?thesis using l(2,4) by (intro exI[of _ "work ! i # l"] exI[of _ f']) auto
    next
      case None
      let ?d = "mv_dst (hd work)" and ?tmp = "tempRef ?n"
      note b = seq_break[OF less.prems None ne]
      have "hd work \<in> set work" using ne by simp
      then obtain c where c: "ClassOf f ?d = Some c"
        using less.prems by (auto simp: pairs_ok_def in_temps_def ClassOf_def)
      obtain f1 where f1: "NewTemp [] c f = (?tmp, f1)" "length (f_Temps f1) = Suc ?n" "gains_temps f f1"
        using newTemp_facts[of "[]" c f] newTemp_gains[of f "[]" c] by (metis NewTemp_def prod.collapse snd_conv)
      let ?w = "reroute ?d ?tmp work" and ?m = "\<lparr>mv_dst = ?tmp, mv_src = ?d\<rparr>"
      have "length ?w + card (pending ?w) < length work + card (pending work)"
        using b(2) psubset_card_mono[OF finite_pending b(3)] by linarith
      from less.hyps[OF this, of f1] b(1) f1(2) obtain l f' where l: "seq_loop f1 ?w (out @ [?m]) = Some ((out @ [?m]) @ l, f')"
        "gains_temps f1 f'" "\<forall>(s :: 'v regs) r. in_temps (Suc ?n) r \<longrightarrow> run_copies l s r = parallel ?w s r"
        "\<forall>p \<in> set l. r_Kind (mv_dst p) = RefTemp \<and> in_temps (length (f_Temps f')) (mv_dst p)" by fastforce
      have "seq_loop f work out = Some (out @ ?m # l, f')"
        using l(1) ne None c f1(1) by (subst seq_loop.simps) (simp add: Let_def)
      moreover have "run_copies (?m # l) s r = parallel work s r" if "in_temps ?n r" for s :: "'v regs" and r
      proof -
        have "in_temps (Suc ?n) r" using that by (auto simp: in_temps_def)
        then show ?thesis using l(3) b(4)[OF that, of s] by simp
      qed
      moreover have "in_temps (length (f_Temps f')) ?tmp"
        using l(2) f1(2) by (auto simp: gains_temps_def in_temps_def tempRef_def)
      ultimately show ?thesis using l(2,4) gains_temps_trans[OF f1(3) l(2)]
        by (intro exI[of _ "?m # l"] exI[of _ f']) (auto simp: tempRef_def)
    qed
  qed
qed

lemma sequentialize_correct:
  assumes "pairs_ok (length (f_Temps f)) pairs"
  shows "\<exists>out f'. sequentialize f pairs = Some (out, f') \<and> gains_temps f f' \<and>
    (\<forall>(s :: 'v regs) r. in_temps (length (f_Temps f)) r \<longrightarrow> run_copies out s r = parallel pairs s r) \<and>
    (\<forall>p \<in> set out. r_Kind (mv_dst p) = RefTemp \<and> in_temps (length (f_Temps f')) (mv_dst p))"
proof -
  let ?w = "filter (\<lambda>p. mv_dst p \<noteq> mv_src p) pairs"
  have d: "distinct (map mv_dst pairs)" using assms by (simp add: pairs_ok_def)
  have "pairs_ok (length (f_Temps f)) ?w" using assms distinct_map_filter[OF d] by (simp add: pairs_ok_def)
  from seq_loop_correct[OF this, of "[]"] show ?thesis
    unfolding sequentialize_def append_Nil parallel_drop_self[OF d] by blast
qed

text \<open>C23: \<open>sequentialize\<close> of copies with distinct temporary destinations returns: the loop ends and no \<open>ClassOf\<close> panics.  Running
  the sequence leaves in every operand of the function exactly what the copies performed at once leave there: the cycles it breaks
  go through temporaries that are new to the function, and those are the only change to the function.\<close>

theorem sequentialize_parallel:
  assumes "pairs_ok (length (f_Temps f)) pairs"
  shows "\<exists>out f'. sequentialize f pairs = Some (out, f') \<and> gains_temps f f' \<and>
    (\<forall>s r. in_temps (length (f_Temps f)) r \<longrightarrow> run_copies out s r = parallel pairs s r)"
  using sequentialize_correct[OF assms] by blast

text \<open>An instance: the swap of two temporaries.\<close>

definition swap_pairs :: "movePair list" where
  "swap_pairs = [\<lparr>mv_dst = tempRef 0, mv_src = tempRef 1\<rparr>, \<lparr>mv_dst = tempRef 1, mv_src = tempRef 0\<rparr>]"

definition two_temps :: func where
  "two_temps = snd (newTemp [] ClsL (snd (newTemp [] ClsL func0)))"

theorem sequentialize_parallel_witness:
  "\<exists>out f'. sequentialize two_temps swap_pairs = Some (out, f') \<and>
     run_copies out r_ID (tempRef 0) = 1 \<and> run_copies out r_ID (tempRef 1) = 0"
proof -
  have n: "length (f_Temps two_temps) = 2" by (simp add: two_temps_def newTemp_def Let_def func0_def)
  have ok: "pairs_ok 2 swap_pairs" by (simp add: pairs_ok_def swap_pairs_def in_temps_def tempRef_def)
  have "in_temps 2 (tempRef 0)" "in_temps 2 (tempRef 1)" by (simp_all add: in_temps_def tempRef_def)
  moreover have "parallel swap_pairs r_ID (tempRef 0) = 1" "parallel swap_pairs r_ID (tempRef 1) = 0"
    by (simp_all add: parallel_def swap_pairs_def tempRef_def)
  ultimately show ?thesis using sequentialize_parallel[of two_temps swap_pairs] ok unfolding n by metis
qed

end
