(* ===== verification/Destruct_SSA.thy ===== *)
theory Destruct_SSA
  imports Parallel_Copy Split_Edges
begin

text \<open>
  SSA destruction (\<open>DestructSSA\<close> of \<open>lower/ssa.go\<close>): phis become copies at the end of their
  predecessors, or go through a stack slot when a computed goto leaves no edge to put a copy on.
  \<open>None\<close> is a panic: a nil predecessor, a missing argument, a class of something that has none.
\<close>

section \<open>The pass\<close>

fun memoryResolved_scan :: "func \<Rightarrow> ref \<Rightarrow> ref list \<Rightarrow> (nat \<times> bptr option) list \<Rightarrow> bool option" where
  "memoryResolved_scan f to args [] = Some False"
| "memoryResolved_scan f to args ((k, pred) # ps) = (case pred of
     None \<Rightarrow> None
   | Some b \<Rightarrow>
       if j_Kind (b_Jmp (blk f b)) = JmpBr \<and> length (j_Targets (b_Jmp (blk f b))) > 1 then
         (if length args \<le> k then None
          else if \<not> (r_Kind (args ! k) = RefTemp \<and> r_ID (args ! k) = r_ID to) then Some True
          else memoryResolved_scan f to args ps)
       else memoryResolved_scan f to args ps)"

definition memoryResolvedPhi :: "func \<Rightarrow> phi \<Rightarrow> bool option" where
  "memoryResolvedPhi f p =
     (if r_Kind (p_To p) \<noteq> RefTemp then Some False
      else memoryResolved_scan f (p_To p) (p_Args p) (enumerate 0 (p_Blocks p)))"

definition append_instr :: "instr \<Rightarrow> block \<Rightarrow> block" where
  "append_instr i x = x\<lparr>b_Instrs := b_Instrs x @ [i]\<rparr>"

definition resolvePhiViaMemory :: "func \<Rightarrow> bptr \<Rightarrow> phi \<Rightarrow> (instr \<times> func) option" where
  "resolvePhiViaMemory f b p =
     (let c = p_Cls p;
          (slot, f1) = NewTemp ''phislot'' ClsP f;
          (eight, f2) = func_ConstInt ClsL 8 f1;
          alloc = instr0\<lparr>in_Op := OAlloc8, in_Cls := ClsP, in_To := slot, in_Args := [eight]\<rparr>;
          (storeOp, loadOp) = (if c = ClsW then (OStorew, OLoaduw) else (OStorel, OLoadl));
          load = instr0\<lparr>in_Op := loadOp, in_Cls := c, in_To := p_To p, in_Args := [slot]\<rparr>
      in Option.bind
           (fold_opt (\<lambda>(k, pred) g. case pred of
               None \<Rightarrow> None
             | Some u \<Rightarrow> if length (p_Args p) \<le> k then None
                 else Some (upd_blk u (append_instr (instr0\<lparr>in_Op := storeOp, in_Cls := c, in_Args := [p_Args p ! k, slot]\<rparr>)) g))
             (enumerate 0 (p_Blocks p)) f2)
           (\<lambda>g. Some (alloc, upd_blk b (\<lambda>x. x\<lparr>b_Instrs := load # b_Instrs x\<rparr>) g)))"

definition hoistSlots :: "instr list \<Rightarrow> func \<Rightarrow> func option" where
  "hoistSlots slots f = (case f_Start f of
     None \<Rightarrow> None
   | Some e \<Rightarrow> Some (upd_blk e (\<lambda>x.
       let i = length (takeWhile (\<lambda>y. in_Op y = OPar \<or> op_IsAlloc (in_Op y)) (b_Instrs x))
       in x\<lparr>b_Instrs := take i (b_Instrs x) @ slots @ drop i (b_Instrs x)\<rparr>) f))"

text \<open>The locals of \<open>DestructSSA\<close>: \<open>byPred\<close>, \<open>seen\<close>, \<open>order\<close>, \<open>slots\<close>, and the function being rewritten.  A key of \<open>seen\<close>'s
  inner maps spells out the copy.\<close>

record destruct =
  ds_byPred :: "bptr option \<Rightarrow> movePair list"
  ds_seen :: "bptr option \<Rightarrow> movePair list option"
  ds_order :: "bptr option list"
  ds_slots :: "instr list"
  ds_fn :: func

definition add_move :: "bptr option \<times> movePair \<Rightarrow> destruct \<Rightarrow> destruct" where
  "add_move = (\<lambda>(pred, mv) st.
     let st1 = (if ds_seen st pred = None
           then st\<lparr>ds_seen := (ds_seen st)(pred := Some []), ds_order := ds_order st @ [pred]\<rparr> else st);
         keys = the (ds_seen st1 pred)
     in if mv \<in> set keys then st1
        else st1\<lparr>ds_seen := (ds_seen st1)(pred := Some (keys @ [mv])),
                 ds_byPred := (ds_byPred st1)(pred := ds_byPred st1 pred @ [mv])\<rparr>)"

definition destruct_pred :: "phi \<Rightarrow> nat \<times> bptr option \<Rightarrow> destruct \<Rightarrow> destruct option" where
  "destruct_pred p = (\<lambda>(k, pred) st.
     if length (p_Args p) \<le> k then None else Some (add_move (pred, \<lparr>mv_dst = p_To p, mv_src = p_Args p ! k\<rparr>) st))"

definition destruct_phi :: "bptr \<Rightarrow> phi \<Rightarrow> destruct \<Rightarrow> destruct option" where
  "destruct_phi v p st = Option.bind (memoryResolvedPhi (ds_fn st) p) (\<lambda>mem.
     if mem then Option.bind (resolvePhiViaMemory (ds_fn st) v p) (\<lambda>(alloc, f').
        Some (st\<lparr>ds_fn := f', ds_slots := ds_slots st @ [alloc]\<rparr>))
     else fold_opt (destruct_pred p) (enumerate 0 (p_Blocks p)) st)"

definition destruct_block :: "bptr \<Rightarrow> destruct \<Rightarrow> destruct option" where
  "destruct_block v st = Option.bind (fold_opt (destruct_phi v) (b_Phis (blk (ds_fn st) v)) st) (\<lambda>st'.
     Some (st'\<lparr>ds_fn := upd_blk v (\<lambda>x. x\<lparr>b_Phis := []\<rparr>) (ds_fn st')\<rparr>))"

definition copy_instr :: "cls \<Rightarrow> movePair \<Rightarrow> instr" where
  "copy_instr c mv = instr0\<lparr>in_Op := OCopy, in_Cls := c, in_To := mv_dst mv, in_Args := [mv_src mv]\<rparr>"

definition emit_copy :: "bptr option \<Rightarrow> movePair \<Rightarrow> func \<Rightarrow> func option" where
  "emit_copy pred mv f = (case pred of
     None \<Rightarrow> None
   | Some u \<Rightarrow> Option.bind (ClassOf f (mv_dst mv)) (\<lambda>c. Some (upd_blk u (append_instr (copy_instr c mv)) f)))"

definition emit_copies :: "(bptr option \<Rightarrow> movePair list) \<Rightarrow> bptr option \<Rightarrow> func \<Rightarrow> func option" where
  "emit_copies byPred pred f = Option.bind (sequentialize f (byPred pred)) (\<lambda>(out, f'). fold_opt (emit_copy pred) out f')"

definition DestructSSA :: "func \<Rightarrow> func option" where
  "DestructSSA f =
     Option.bind (fold_opt destruct_block (f_Blocks f)
         \<lparr>ds_byPred = \<lambda>_. [], ds_seen = \<lambda>_. None, ds_order = [], ds_slots = [], ds_fn = f\<rparr>) (\<lambda>st.
     Option.bind (fold_opt (emit_copies (ds_byPred st)) (ds_order st) (ds_fn st)) (\<lambda>g.
       if ds_slots st \<noteq> [] then hoistSlots (ds_slots st) g else Some g))"

section \<open>Collecting the copies\<close>

text \<open>The copies of a phi, of a block's phis and of the function's, with the predecessor each belongs to, in scan order.\<close>

definition phi_moves :: "phi \<Rightarrow> (bptr option \<times> movePair) list" where
  "phi_moves p = map (\<lambda>(k, pred). (pred, \<lparr>mv_dst = p_To p, mv_src = p_Args p ! k\<rparr>)) (enumerate 0 (p_Blocks p))"

definition moves :: "func \<Rightarrow> bptr list \<Rightarrow> (bptr option \<times> movePair) list" where
  "moves f bs = concat (map (\<lambda>v. concat (map phi_moves (b_Phis (blk f v)))) bs)"

definition clear_phis :: "bptr \<Rightarrow> func \<Rightarrow> func" where
  "clear_phis v = upd_blk v (\<lambda>x. x\<lparr>b_Phis := []\<rparr>)"

lemma add_move_fn [simp]: "ds_fn (add_move m st) = ds_fn st" "ds_slots (add_move m st) = ds_slots st"
  by (auto simp: add_move_def Let_def split: prod.splits)

lemma fold_add_move_fn [simp]: "ds_fn (fold add_move ms st) = ds_fn st" "ds_slots (fold add_move ms st) = ds_slots st"
  by (induction ms arbitrary: st) auto

lemma add_move_set_fn: "add_move m (st\<lparr>ds_fn := g\<rparr>) = (add_move m st)\<lparr>ds_fn := g\<rparr>"
  by (auto simp: add_move_def Let_def split: prod.splits)

lemma fold_add_move_set_fn: "fold add_move ms (st\<lparr>ds_fn := g\<rparr>) = (fold add_move ms st)\<lparr>ds_fn := g\<rparr>"
  by (induction ms arbitrary: st) (auto simp: add_move_set_fn)

text \<open>A phi the copies can implement: arguments and predecessors match up and none of it goes through memory.\<close>

definition phi_copyable :: "func \<Rightarrow> phi \<Rightarrow> bool" where
  "phi_copyable f p \<longleftrightarrow> length (p_Args p) = length (p_Blocks p) \<and> memoryResolvedPhi f p = Some False"

lemma fold_opt_pure: "(\<And>x s. x \<in> set xs \<Longrightarrow> f x s = Some (g x s)) \<Longrightarrow> fold_opt f xs s = Some (fold g xs s)"
  by (induction xs arbitrary: s) auto

lemma destruct_phi_moves:
  assumes "phi_copyable (ds_fn st) p"
  shows "destruct_phi v p st = Some (fold add_move (phi_moves p) st)"
proof -
  have "fold_opt (destruct_pred p) (enumerate 0 (p_Blocks p)) st =
    Some (fold (\<lambda>(k, pred). add_move (pred, \<lparr>mv_dst = p_To p, mv_src = p_Args p ! k\<rparr>)) (enumerate 0 (p_Blocks p)) st)"
    using assms by (intro fold_opt_pure) (auto simp: destruct_pred_def phi_copyable_def in_set_enumerate_eq)
  then show ?thesis using assms
    by (simp add: destruct_phi_def phi_copyable_def phi_moves_def fold_map comp_def case_prod_unfold)
qed

lemma memoryResolved_scan_cong:
  "(\<And>b. b_Jmp (blk g b) = b_Jmp (blk f b)) \<Longrightarrow> memoryResolved_scan g to args ps = memoryResolved_scan f to args ps"
  by (induction ps) (auto split: option.splits)

lemma memoryResolvedPhi_cong: "(\<And>b. b_Jmp (blk g b) = b_Jmp (blk f b)) \<Longrightarrow> memoryResolvedPhi g p = memoryResolvedPhi f p"
  unfolding memoryResolvedPhi_def using memoryResolved_scan_cong by metis

lemma destruct_phis_moves:
  assumes "\<forall>p \<in> set ps. phi_copyable (ds_fn st) p"
  shows "fold_opt (destruct_phi v) ps st = Some (fold add_move (concat (map phi_moves ps)) st)"
  using assms
proof (induction ps arbitrary: st)
  case (Cons p ps)
  have "destruct_phi v p st = Some (fold add_move (phi_moves p) st)" using Cons.prems by (intro destruct_phi_moves) simp
  then show ?case using Cons.IH[of "fold add_move (phi_moves p) st"] Cons.prems by simp
qed simp

lemma blk_clear_phis [simp]:
  "b_Jmp (blk (clear_phis v f) b) = b_Jmp (blk f b)" "b_Instrs (blk (clear_phis v f) b) = b_Instrs (blk f b)"
  "b_Phis (blk (clear_phis v f) b) = (if b = v then [] else b_Phis (blk f b))"
  by (auto simp: clear_phis_def upd_blk_def blk_def nth_list_update block0_def)

lemma clear_phis_sel [simp]:
  "f_Temps (clear_phis v f) = f_Temps f" "length (f_arena (clear_phis v f)) = length (f_arena f)"
  "f_Blocks (clear_phis v f) = f_Blocks f" "f_Start (clear_phis v f) = f_Start f"
  by (simp_all add: clear_phis_def)

lemma destruct_blocks_moves:
  assumes "distinct bs" "\<forall>v \<in> set bs. \<forall>p \<in> set (b_Phis (blk (ds_fn st) v)). phi_copyable (ds_fn st) p"
  shows "fold_opt destruct_block bs st =
    Some ((fold add_move (moves (ds_fn st) bs) st)\<lparr>ds_fn := fold clear_phis bs (ds_fn st)\<rparr>)"
  using assms
proof (induction bs arbitrary: st)
  case (Cons v bs)
  let ?st1 = "fold add_move (concat (map phi_moves (b_Phis (blk (ds_fn st) v)))) st"
  let ?st2 = "?st1\<lparr>ds_fn := clear_phis v (ds_fn st)\<rparr>"
  have b: "destruct_block v st = Some ?st2"
    using destruct_phis_moves[of "b_Phis (blk (ds_fn st) v)" st v] Cons.prems(2) by (simp add: destruct_block_def clear_phis_def)
  have same: "b_Phis (blk (ds_fn ?st2) w) = b_Phis (blk (ds_fn st) w)" if "w \<in> set bs" for w
    using that Cons.prems(1) by auto
  have "phi_copyable (ds_fn ?st2) p \<longleftrightarrow> phi_copyable (ds_fn st) p" for p
    using memoryResolvedPhi_cong[of "ds_fn ?st2" "ds_fn st" p] by (simp add: phi_copyable_def)
  then have IH: "fold_opt destruct_block bs ?st2 =
    Some ((fold add_move (moves (ds_fn ?st2) bs) ?st2)\<lparr>ds_fn := fold clear_phis bs (ds_fn ?st2)\<rparr>)"
    using Cons.prems same by (intro Cons.IH) auto
  have "moves (ds_fn ?st2) bs = moves (ds_fn st) bs"
    unfolding moves_def using same by (intro arg_cong[of _ _ concat] map_cong) simp_all
  then show ?case using b IH by (simp add: fold_add_move_set_fn moves_def)
qed (simp add: moves_def)

text \<open>What the maps hold after a list of copies was added.\<close>

definition collected :: "(bptr option \<times> movePair) list \<Rightarrow> destruct \<Rightarrow> bool" where
  "collected ms st \<longleftrightarrow> distinct (ds_order st) \<and> set (ds_order st) = fst ` set ms \<and>
     (\<forall>q. distinct (ds_byPred st q) \<and> set (ds_byPred st q) = {mv. (q, mv) \<in> set ms} \<and>
        (ds_seen st q = None \<longleftrightarrow> q \<notin> fst ` set ms) \<and> (\<forall>l. ds_seen st q = Some l \<longrightarrow> set l = set (ds_byPred st q)))"

lemma collected_add:
  assumes C: "collected ms st"
  shows "collected (ms @ [m]) (add_move m st)"
proof -
  obtain pred mv where m: "m = (pred, mv)" by fastforce
  define st1 where "st1 = (if ds_seen st pred = None then st\<lparr>ds_seen := (ds_seen st)(pred := Some []), ds_order := ds_order st @ [pred]\<rparr> else st)"
  have old: "distinct (ds_byPred st q)" "set (ds_byPred st q) = {mv. (q, mv) \<in> set ms}" for q using C by (auto simp: collected_def)
  have oseen: "ds_seen st q = None \<longleftrightarrow> q \<notin> fst ` set ms" "ds_seen st q = Some l \<Longrightarrow> set l = {mv. (q, mv) \<in> set ms}" for q l
    using C by (auto simp: collected_def)
  have ord: "distinct (ds_order st1)" "set (ds_order st1) = insert pred (fst ` set ms)" "ds_byPred st1 = ds_byPred st"
    using C unfolding st1_def by (auto simp: collected_def)
  have other: "ds_seen st1 q = ds_seen st q" if "q \<noteq> pred" for q using that by (simp add: st1_def)
  have "\<exists>l. ds_seen st1 pred = Some l \<and> set l = {x. (pred, x) \<in> set ms}"
  proof (cases "ds_seen st pred")
    case None
    then have "{x. (pred, x) \<in> set ms} = {}" using oseen(1)[of pred] by force
    with None show ?thesis by (simp add: st1_def)
  qed (use oseen(2)[of pred] in \<open>auto simp: st1_def\<close>)
  then obtain l where l: "ds_seen st1 pred = Some l" "set l = {x. (pred, x) \<in> set ms}" by blast
  have am: "add_move m st = (if mv \<in> set l then st1 else st1\<lparr>ds_seen := (ds_seen st1)(pred := Some (l @ [mv])),
      ds_byPred := (ds_byPred st1)(pred := ds_byPred st1 pred @ [mv])\<rparr>)"
    unfolding m add_move_def Let_def prod.case st1_def[symmetric] l(1) option.sel by (rule refl)
  have o: "distinct (ds_order (add_move m st))" "set (ds_order (add_move m st)) = fst ` set (ms @ [m])"
    unfolding am using ord by (auto simp: m)
  have b: "distinct (ds_byPred (add_move m st) q)" "set (ds_byPred (add_move m st) q) = {mv. (q, mv) \<in> set (ms @ [m])}" for q
    unfolding am using old[of q] l(2) ord(3) by (auto simp: m)
  have s: "(ds_seen (add_move m st) q = None \<longleftrightarrow> q \<notin> fst ` set (ms @ [m])) \<and>
      (\<forall>l. ds_seen (add_move m st) q = Some l \<longrightarrow> set l = {mv. (q, mv) \<in> set (ms @ [m])})" for q
  proof (cases "q = pred")
    case True
    then show ?thesis unfolding am using l by (auto simp: m)
  next
    case False
    then show ?thesis unfolding am using oseen[of q] other[OF False] by (auto simp: m)
  qed
  show ?thesis unfolding collected_def using o b s by simp
qed

lemma collected_fold: "collected ms st \<Longrightarrow> collected (ms @ ms') (fold add_move ms' st)"
proof (induction ms' arbitrary: ms st)
  case (Cons m ms')
  from Cons.IH[OF collected_add[OF Cons.prems]] show ?case by simp
qed simp

section \<open>Emitting the copies\<close>

lemma emit_copy_fold:
  assumes "u < length (f_arena f)" "\<forall>mv \<in> set out. r_Kind (mv_dst mv) = RefTemp \<and> in_temps (length (f_Temps f)) (mv_dst mv)"
  shows "fold_opt (emit_copy (Some u)) out f =
    Some (upd_blk u (\<lambda>x. x\<lparr>b_Instrs := b_Instrs x @ map (\<lambda>mv. copy_instr (t_Cls (f_Temps f ! r_ID (mv_dst mv))) mv) out\<rparr>) f)"
  using assms
proof (induction out arbitrary: f)
  case Nil
  then show ?case by (simp add: upd_blk_def blk_def)
next
  case (Cons mv out)
  let ?c = "t_Cls (f_Temps f ! r_ID (mv_dst mv))"
  have "ClassOf f (mv_dst mv) = Some ?c" using Cons.prems(2) by (simp add: ClassOf_def in_temps_def)
  moreover have "fold_opt (emit_copy (Some u)) out (upd_blk u (append_instr (copy_instr ?c mv)) f) =
    Some (upd_blk u (\<lambda>x. x\<lparr>b_Instrs := b_Instrs x @ map (\<lambda>mv. copy_instr (t_Cls (f_Temps f ! r_ID (mv_dst mv))) mv) out\<rparr>)
      (upd_blk u (append_instr (copy_instr ?c mv)) f))"
    using Cons.IH[of "upd_blk u (append_instr (copy_instr ?c mv)) f"] Cons.prems by simp
  moreover have "upd_blk u h (upd_blk u k f) = upd_blk u (h \<circ> k) f" for h k
    using Cons.prems(1) by (simp add: upd_blk_def blk_def)
  ultimately show ?case by (simp add: emit_copy_def[of _ mv f] comp_def append_instr_def)
qed

text \<open>Running copy instructions.\<close>

definition run_copy_instrs :: "instr list \<Rightarrow> 'v regs \<Rightarrow> 'v regs" where
  "run_copy_instrs is s = fold (\<lambda>i s. s(in_To i := s (hd (in_Args i)))) is s"

lemma run_copy_instrs_eq: "run_copy_instrs (map (\<lambda>mv. copy_instr (c mv) mv) out) s = run_copies out s"
  by (induction out arbitrary: s) (simp_all add: run_copy_instrs_def run_copies_def copy_instr_def do_copy_def)

text \<open>The copies \<open>is\<close> perform the moves \<open>M\<close> at once, as far as operands with ids below \<open>n\<close> can tell.\<close>

definition performs :: "nat \<Rightarrow> movePair set \<Rightarrow> instr list \<Rightarrow> 'v regs \<Rightarrow> bool" where
  "performs n M is s \<longleftrightarrow> (\<forall>mv \<in> M. run_copy_instrs is s (mv_dst mv) = s (mv_src mv)) \<and>
     (\<forall>r. in_temps n r \<longrightarrow> r \<notin> mv_dst ` M \<longrightarrow> run_copy_instrs is s r = s r)"

definition moves_ok :: "nat \<Rightarrow> movePair set \<Rightarrow> bool" where
  "moves_ok n M \<longleftrightarrow> inj_on mv_dst M \<and> (\<forall>p \<in> M. r_Kind (mv_dst p) = RefTemp \<and> in_temps n (mv_dst p) \<and> in_temps n (mv_src p))"

lemma emit_copies_step:
  assumes u: "u < length (f_arena f)" and n: "n \<le> length (f_Temps f)" and ok: "moves_ok n (set (byPred (Some u)))" and d: "distinct (byPred (Some u))"
  shows "\<exists>is g. emit_copies byPred (Some u) f = Some g \<and> length (f_arena g) = length (f_arena f) \<and> length (f_Temps f) \<le> length (f_Temps g) \<and>
    f_Blocks g = f_Blocks f \<and>
    (\<forall>b. blk g b = (if b = u then (blk f b)\<lparr>b_Instrs := b_Instrs (blk f b) @ is\<rparr> else blk f b)) \<and>
    list_all (\<lambda>i. in_Op i = OCopy) is \<and> (\<forall>s :: 'v regs. performs n (set (byPred (Some u))) is s)"
proof -
  let ?M = "byPred (Some u)"
  have up: "in_temps n r \<Longrightarrow> in_temps (length (f_Temps f)) r" for r using n by (auto simp: in_temps_def)
  have dist: "distinct (map mv_dst ?M)" using ok d by (simp add: distinct_map moves_ok_def)
  then have pok: "pairs_ok (length (f_Temps f)) ?M" using ok up by (auto simp: pairs_ok_def moves_ok_def)
  obtain out f' where out: "sequentialize f ?M = Some (out, f')" "gains_temps f f'"
    "\<forall>(s :: 'v regs) r. in_temps (length (f_Temps f)) r \<longrightarrow> run_copies out s r = parallel ?M s r"
    "\<forall>p \<in> set out. r_Kind (mv_dst p) = RefTemp \<and> in_temps (length (f_Temps f')) (mv_dst p)"
    using sequentialize_correct[OF pok] by blast
  have u': "u < length (f_arena f')" and bf: "blk f' b = blk f b" for b using u out(2) by (auto simp: gains_temps_def blk_def)
  let ?is = "map (\<lambda>mv. copy_instr (t_Cls (f_Temps f' ! r_ID (mv_dst mv))) mv) out"
  let ?g = "upd_blk u (\<lambda>x. x\<lparr>b_Instrs := b_Instrs x @ ?is\<rparr>) f'"
  have "emit_copies byPred (Some u) f = Some ?g"
    using out(1) emit_copy_fold[OF u' out(4)] by (simp add: emit_copies_def)
  moreover have "length (f_arena ?g) = length (f_arena f)" "length (f_Temps f) \<le> length (f_Temps ?g)" "f_Blocks ?g = f_Blocks f"
    using out(2) by (auto simp: gains_temps_def)
  moreover have "blk ?g b = (if b = u then (blk f b)\<lparr>b_Instrs := b_Instrs (blk f b) @ ?is\<rparr> else blk f b)" for b
    using u' bf by simp
  moreover have "list_all (\<lambda>i. in_Op i = OCopy) ?is" by (simp add: list_all_iff copy_instr_def)
  moreover have "performs n (set ?M) ?is s" for s :: "'v regs"
  proof -
    have "run_copies out s (mv_dst mv) = s (mv_src mv)" if "mv \<in> set ?M" for mv
      using out(3) parallel_dst[OF dist that, of s] ok up that by (simp add: moves_ok_def)
    moreover have "run_copies out s r = s r" if "in_temps n r" "r \<notin> mv_dst ` set ?M" for r
      using out(3) parallel_other[OF that(2), of s] up[OF that(1)] by simp
    ultimately show ?thesis by (simp add: performs_def run_copy_instrs_eq)
  qed
  ultimately show ?thesis by blast
qed

lemma emit_loop:
  assumes o: "distinct order" "\<forall>q \<in> set order. \<exists>u < length (f_arena f). q = Some u" and n: "n \<le> length (f_Temps f)"
    and M: "\<forall>u. moves_ok n (set (byPred (Some u))) \<and> distinct (byPred (Some u))"
  shows "\<exists>g. fold_opt (emit_copies byPred) order f = Some g \<and> f_Blocks g = f_Blocks f \<and>
    (\<forall>b. \<exists>is. blk g b = (blk f b)\<lparr>b_Instrs := b_Instrs (blk f b) @ is\<rparr> \<and> list_all (\<lambda>i. in_Op i = OCopy) is \<and>
       (if Some b \<in> set order then \<forall>s :: 'v regs. performs n (set (byPred (Some b))) is s else is = []))"
proof -
  let ?P = "\<lambda>ys g b. \<exists>is. blk g b = (blk f b)\<lparr>b_Instrs := b_Instrs (blk f b) @ is\<rparr> \<and> list_all (\<lambda>i. in_Op i = OCopy) is \<and>
       (if Some b \<in> set ys then \<forall>s :: 'v regs. performs n (set (byPred (Some b))) is s else is = [])"
  let ?I = "\<lambda>ys g. length (f_arena g) = length (f_arena f) \<and> n \<le> length (f_Temps g) \<and> f_Blocks g = f_Blocks f \<and> (\<forall>b. ?P ys g b)"
  have "\<exists>g. fold_opt (emit_copies byPred) order f = Some g \<and> ?I order g"
  proof (rule fold_opt_invar[where I = ?I])
    show "?I [] f" using n by (auto intro: exI[of _ "[]"])
  next
    fix x ys zs t
    assume xs: "order = ys @ x # zs" and I: "?I ys t"
    obtain u where u: "x = Some u" "u < length (f_arena f)" using o(2) xs by auto
    have "x \<notin> set ys" using o(1) xs by auto
    obtain "is" g where g: "emit_copies byPred (Some u) t = Some g" "length (f_arena g) = length (f_arena t)" "length (f_Temps t) \<le> length (f_Temps g)"
      "f_Blocks g = f_Blocks t" "\<forall>b. blk g b = (if b = u then (blk t b)\<lparr>b_Instrs := b_Instrs (blk t b) @ is\<rparr> else blk t b)"
      "list_all (\<lambda>i. in_Op i = OCopy) is" "\<forall>s :: 'v regs. performs n (set (byPred (Some u))) is s"
      using emit_copies_step[of u t n byPred] I M u(2) by auto
    have "?P (ys @ [x]) g b" for b
    proof (cases "b = u")
      case True
      have "blk t u = blk f u" using I \<open>x \<notin> set ys\<close> u(1) by (auto dest!: spec[of _ u])
      then show ?thesis using True g(5-7) u(1) by auto
    next
      case False
      then have "blk g b = blk t b" "Some b \<in> set (ys @ [x]) \<longleftrightarrow> Some b \<in> set ys" using g(5) u(1) by auto
      moreover have "?P ys t b" using I by blast
      ultimately show ?thesis by simp
    qed
    then show "\<exists>t'. emit_copies byPred x t = Some t' \<and> ?I (ys @ [x]) t'" using g(1-4) u(1) I by auto
  qed
  then show ?thesis by blast
qed

section \<open>Phis and copies agree on every edge\<close>

definition edge_moves :: "func \<Rightarrow> bptr \<Rightarrow> movePair set" where
  "edge_moves f u = {mv. (Some u, mv) \<in> set (moves f (f_Blocks f))}"

lemma set_phi_moves:
  "(q, mv) \<in> set (phi_moves p) \<longleftrightarrow> (\<exists>k < length (p_Blocks p). p_Blocks p ! k = q \<and> mv = \<lparr>mv_dst = p_To p, mv_src = p_Args p ! k\<rparr>)"
  by (auto simp: phi_moves_def in_set_enumerate_eq image_iff Bex_def)

lemma edge_moves_iff:
  "mv \<in> edge_moves f u \<longleftrightarrow> (\<exists>v \<in> set (f_Blocks f). \<exists>p \<in> set (b_Phis (blk f v)). \<exists>k < length (p_Blocks p).
     p_Blocks p ! k = Some u \<and> mv = \<lparr>mv_dst = p_To p, mv_src = p_Args p ! k\<rparr>)"
  by (auto simp: edge_moves_def moves_def set_phi_moves)

lemma performs_phis:
  assumes "performs n (edge_moves f u) is s"
  shows "\<forall>v \<in> set (f_Blocks f). \<forall>p \<in> set (b_Phis (blk f v)). \<forall>k < length (p_Blocks p). p_Blocks p ! k = Some u \<longrightarrow>
      run_copy_instrs is s (p_To p) = s (p_Args p ! k)"
    "\<forall>r. in_temps n r \<longrightarrow> \<not> (\<exists>v \<in> set (f_Blocks f). \<exists>p \<in> set (b_Phis (blk f v)). Some u \<in> set (p_Blocks p) \<and> p_To p = r) \<longrightarrow>
      run_copy_instrs is s r = s r"
proof (intro ballI allI impI)
  fix v p k
  assume "v \<in> set (f_Blocks f)" "p \<in> set (b_Phis (blk f v))" "k < length (p_Blocks p)" "p_Blocks p ! k = Some u"
  then have "\<lparr>mv_dst = p_To p, mv_src = p_Args p ! k\<rparr> \<in> edge_moves f u" unfolding edge_moves_iff by blast
  then show "run_copy_instrs is s (p_To p) = s (p_Args p ! k)" using assms unfolding performs_def by force
next
  show "\<forall>r. in_temps n r \<longrightarrow> \<not> (\<exists>v \<in> set (f_Blocks f). \<exists>p \<in> set (b_Phis (blk f v)). Some u \<in> set (p_Blocks p) \<and> p_To p = r) \<longrightarrow>
      run_copy_instrs is s r = s r"
  proof (intro allI impI)
    fix r
    assume r: "in_temps n r" "\<not> (\<exists>v \<in> set (f_Blocks f). \<exists>p \<in> set (b_Phis (blk f v)). Some u \<in> set (p_Blocks p) \<and> p_To p = r)"
    have "r \<notin> mv_dst ` edge_moves f u"
    proof
      assume "r \<in> mv_dst ` edge_moves f u"
      then obtain v p k where "v \<in> set (f_Blocks f)" "p \<in> set (b_Phis (blk f v))" "k < length (p_Blocks p)" "p_Blocks p ! k = Some u" "p_To p = r"
        by (auto simp: edge_moves_iff)
      with r(2) show False by (metis nth_mem)
    qed
    with r(1) assms show "run_copy_instrs is s r = s r" unfolding performs_def by blast
  qed
qed

definition destructible :: "func \<Rightarrow> bool" where
  "destructible f \<longleftrightarrow> distinct (f_Blocks f) \<and>
     (\<forall>v \<in> set (f_Blocks f). \<forall>p \<in> set (b_Phis (blk f v)). phi_copyable f p \<and> (\<forall>q \<in> set (p_Blocks p). \<exists>u < length (f_arena f). q = Some u)) \<and>
     (\<forall>u. moves_ok (length (f_Temps f)) (edge_moves f u))"

lemma clear_phis_fold:
  "b_Instrs (blk (fold clear_phis bs f) b) = b_Instrs (blk f b)" "b_Jmp (blk (fold clear_phis bs f) b) = b_Jmp (blk f b)"
  "b_Phis (blk (fold clear_phis bs f) b) = (if b \<in> set bs then [] else b_Phis (blk f b))"
  "f_Temps (fold clear_phis bs f) = f_Temps f" "length (f_arena (fold clear_phis bs f)) = length (f_arena f)"
  "f_Blocks (fold clear_phis bs f) = f_Blocks f"
  by (induction bs arbitrary: f) auto


text \<open>An instance: a self-loop whose two phis exchange their results.\<close>

definition swap_loop :: func where
  "swap_loop = two_temps\<lparr>f_Blocks := [0], f_Start := Some 0, f_arena := [block0\<lparr>
     b_Phis := [\<lparr>p_Cls = ClsL, p_To = tempRef 0, p_Args = [tempRef 1], p_Blocks = [Some 0]\<rparr>,
                \<lparr>p_Cls = ClsL, p_To = tempRef 1, p_Args = [tempRef 0], p_Blocks = [Some 0]\<rparr>],
     b_Jmp := jmp0\<lparr>j_Kind := JmpJmp, j_To := Some 0\<rparr>\<rparr>]\<rparr>"

lemma destructible_swap_loop: "destructible swap_loop"
proof -
  have phis: "b_Phis (blk swap_loop 0) = [\<lparr>p_Cls = ClsL, p_To = tempRef 0, p_Args = [tempRef 1], p_Blocks = [Some 0]\<rparr>,
      \<lparr>p_Cls = ClsL, p_To = tempRef 1, p_Args = [tempRef 0], p_Blocks = [Some 0]\<rparr>]" "f_Blocks swap_loop = [0]"
    and j: "j_Kind (b_Jmp (blk swap_loop 0)) = JmpJmp" and n: "length (f_Temps swap_loop) = 2" "length (f_arena swap_loop) = 1"
    by (simp_all add: swap_loop_def blk_def two_temps_def newTemp_def Let_def func0_def)
  have "moves_ok 2 (edge_moves swap_loop u)" for u
    by (auto simp: moves_ok_def edge_moves_iff phis inj_on_def in_temps_def tempRef_def)
  then show ?thesis using n j by (simp add: destructible_def phis phi_copyable_def memoryResolvedPhi_def tempRef_def)
qed


end
