(* ===== verification/Interp_Value.thy ===== *)
theory Interp_Value
  imports IR_Func
begin

text \<open>
  Runtime values of the interpreter (\<open>interp/value.go\<close>) and the pure helpers of
  \<open>interp/ops.go\<close>.  A value is 64 raw bits and the class that interprets them.  A
  float is its IEEE bit pattern; comparing, negating and converting floats to integers
  is spelled out on the bits, rounding arithmetic is a parameter (\<open>float_ops\<close>).
\<close>

section \<open>Values\<close>

record val =
  v_Cls :: cls
  v_Bits :: u64

text \<open>Go's zero value of \<open>Value\<close>.\<close>

definition val0 :: val where
  "val0 = \<lparr>v_Cls = ClsW, v_Bits = 0\<rparr>"

definition normCls :: "cls \<Rightarrow> cls" where
  "normCls c = (if c = ClsP then ClsL else c)"

definition intVal :: "cls \<Rightarrow> i64 \<Rightarrow> val" where
  "intVal c v = (let c' = normCls c in \<lparr>v_Cls = c', v_Bits = (if c' = ClsW then int32_of v else v)\<rparr>)"

definition ptrVal :: "u64 \<Rightarrow> val" where
  "ptrVal addr = \<lparr>v_Cls = ClsL, v_Bits = addr\<rparr>"

definition val_W :: "32 word \<Rightarrow> val" where
  "val_W x = \<lparr>v_Cls = ClsW, v_Bits = scast x\<rparr>"

definition val_L :: "i64 \<Rightarrow> val" where
  "val_L x = \<lparr>v_Cls = ClsL, v_Bits = x\<rparr>"

definition val_S :: "32 word \<Rightarrow> val" where
  "val_S x = \<lparr>v_Cls = ClsS, v_Bits = ucast x\<rparr>"

definition val_D :: "u64 \<Rightarrow> val" where
  "val_D x = \<lparr>v_Cls = ClsD, v_Bits = x\<rparr>"

definition val_Ptr :: "u64 \<Rightarrow> val" where
  "val_Ptr x = \<lparr>v_Cls = ClsL, v_Bits = x\<rparr>"

definition val_i64 :: "val \<Rightarrow> i64" where
  "val_i64 v = v_Bits v"

definition val_u64 :: "val \<Rightarrow> u64" where
  "val_u64 v = (if v_Cls v = ClsW then uint32_of (v_Bits v) else v_Bits v)"

definition val_f32 :: "val \<Rightarrow> 32 word" where
  "val_f32 v = ucast (v_Bits v)"

text \<open>\<open>asClass\<close>; the last three branches of the source all keep the bits.\<close>

definition asClass :: "cls \<Rightarrow> val \<Rightarrow> val" where
  "asClass c v = (let c' = normCls c in
     if c' = v_Cls v then v
     else if cls_IsInt c' \<and> cls_IsInt (v_Cls v) then intVal c' (val_i64 v)
     else \<lparr>v_Cls = c', v_Bits = v_Bits v\<rparr>)"

section \<open>Host floating point\<close>

text \<open>The rounding operations of the host's IEEE arithmetic, on bit patterns.\<close>

record float_ops =
  fo_add32 :: "32 word \<Rightarrow> 32 word \<Rightarrow> 32 word"
  fo_sub32 :: "32 word \<Rightarrow> 32 word \<Rightarrow> 32 word"
  fo_mul32 :: "32 word \<Rightarrow> 32 word \<Rightarrow> 32 word"
  fo_div32 :: "32 word \<Rightarrow> 32 word \<Rightarrow> 32 word"
  fo_add64 :: "u64 \<Rightarrow> u64 \<Rightarrow> u64"
  fo_sub64 :: "u64 \<Rightarrow> u64 \<Rightarrow> u64"
  fo_mul64 :: "u64 \<Rightarrow> u64 \<Rightarrow> u64"
  fo_div64 :: "u64 \<Rightarrow> u64 \<Rightarrow> u64"
  fo_widen :: "32 word \<Rightarrow> u64"
  fo_narrow :: "u64 \<Rightarrow> 32 word"
  fo_of_int :: "i64 \<Rightarrow> u64"
  fo_of_uint :: "u64 \<Rightarrow> u64"
  fo_Sqrt :: "u64 \<Rightarrow> u64"
  fo_RoundToEven :: "u64 \<Rightarrow> u64"
  fo_Round :: "u64 \<Rightarrow> u64"
  fo_Ceil :: "u64 \<Rightarrow> u64"
  fo_Floor :: "u64 \<Rightarrow> u64"
  fo_Trunc :: "u64 \<Rightarrow> u64"

definition floatVal :: "float_ops \<Rightarrow> cls \<Rightarrow> u64 \<Rightarrow> val" where
  "floatVal fo c x = (if c = ClsS then \<lparr>v_Cls = ClsS, v_Bits = ucast (fo_narrow fo x)\<rparr> else \<lparr>v_Cls = ClsD, v_Bits = x\<rparr>)"

definition val_f64 :: "float_ops \<Rightarrow> val \<Rightarrow> u64" where
  "val_f64 fo v = (if v_Cls v = ClsS then fo_widen fo (val_f32 v) else v_Bits v)"

subsection \<open>Comparison and truncation, exactly\<close>

text \<open>A finite double orders like its magnitude bits with the sign applied; both zeros are 0.\<close>

definition f64_key :: "u64 \<Rightarrow> int" where
  "f64_key x = (let m = uint (x AND 0x7FFFFFFFFFFFFFFF) in if bit x 63 then - m else m)"

definition f64_lt :: "u64 \<Rightarrow> u64 \<Rightarrow> bool" where
  "f64_lt x y \<longleftrightarrow> \<not> f64_isNaN x \<and> \<not> f64_isNaN y \<and> f64_key x < f64_key y"

definition f64_le :: "u64 \<Rightarrow> u64 \<Rightarrow> bool" where
  "f64_le x y \<longleftrightarrow> \<not> f64_isNaN x \<and> \<not> f64_isNaN y \<and> f64_key x \<le> f64_key y"

text \<open>\<open>math.Trunc\<close> of a double as an integer; infinities are out of every range and count as \<open>\<plusminus>2^1024\<close>.\<close>

definition f64_trunc :: "u64 \<Rightarrow> int" where
  "f64_trunc x =
     (let e = nat (uint (drop_bit 52 x AND 0x7FF)); m = 2 ^ 52 + uint (x AND 0xFFFFFFFFFFFFF);
          t = (if e < 1023 then 0 else if e < 1075 then m div 2 ^ (1075 - e) else m * 2 ^ (e - 1075))
      in if bit x 63 then - t else t)"

section \<open>Pure helpers\<close>

definition shiftMask :: "cls \<Rightarrow> nat" where
  "shiftMask c = (if c = ClsW then 31 else 63)"

text \<open>\<open>uint(b) & shiftMask(cls)\<close>\<close>

definition shiftAmount :: "cls \<Rightarrow> i64 \<Rightarrow> nat" where
  "shiftAmount c b = unat (b AND of_nat (shiftMask c))"

definition asSigned :: "cls \<Rightarrow> i64 \<Rightarrow> i64" where
  "asSigned c v = (if c = ClsW then int32_of v else v)"

definition asUnsigned :: "cls \<Rightarrow> i64 \<Rightarrow> u64" where
  "asUnsigned c v = (if c = ClsW then uint32_of v else v)"

definition truncInt :: "cls \<Rightarrow> i64 \<Rightarrow> i64" where
  "truncInt c v = (if c = ClsW then int32_of v else v)"

definition intBits :: "cls \<Rightarrow> nat" where
  "intBits c = (if c = ClsW then 32 else 64)"

definition b2i :: "bool \<Rightarrow> i64" where
  "b2i v = (if v then 1 else 0)"

definition extendInt :: "op \<Rightarrow> i64 \<Rightarrow> i64" where
  "extendInt o' v =
     (if o' = OExtsw then int32_of v else if o' = OExtuw then uint32_of v
      else if o' = OExtsb then int8_of v else if o' = OExtub then uint8_of v
      else if o' = OExtsh then int16_of v else if o' = OExtuh then uint16_of v
      else v)"

definition negFloat :: "cls \<Rightarrow> val \<Rightarrow> val" where
  "negFloat c a = (if c = ClsS then \<lparr>v_Cls = ClsS, v_Bits = uint32_of (v_Bits a) XOR push_bit 31 1\<rparr>
     else \<lparr>v_Cls = ClsD, v_Bits = v_Bits a XOR push_bit 63 1\<rparr>)"

definition castValue :: "cls \<Rightarrow> val \<Rightarrow> val" where
  "castValue c a = (let c' = normCls c in
     if cls_Size c' = 4 then
       (if c' = ClsW then intVal ClsW (int32_of (v_Bits a)) else \<lparr>v_Cls = ClsS, v_Bits = uint32_of (v_Bits a)\<rparr>)
     else \<lparr>v_Cls = c', v_Bits = v_Bits a\<rparr>)"

definition f2iSigned :: "u64 \<Rightarrow> nat \<Rightarrow> i64" where
  "f2iSigned x bitWidth =
     (if f64_isNaN x then 0
      else let t = f64_trunc x in
        if bitWidth = 32 then
          (if 2 ^ 31 \<le> t then word_of_int (2 ^ 31 - 1) else if t < - (2 ^ 31) then word_of_int (- (2 ^ 31)) else word_of_int t)
        else
          (if 2 ^ 63 \<le> t then word_of_int (2 ^ 63 - 1) else if t < - (2 ^ 63) then word_of_int (- (2 ^ 63)) else word_of_int t))"

definition f2iUnsigned :: "u64 \<Rightarrow> nat \<Rightarrow> u64" where
  "f2iUnsigned x bitWidth =
     (if f64_isNaN x then 0
      else let t = f64_trunc x in
        if t \<le> 0 then 0
        else if bitWidth = 32 then (if 2 ^ 32 \<le> t then word_of_int (2 ^ 32 - 1) else word_of_int t)
        else (if 2 ^ 64 \<le> t then word_of_int (2 ^ 64 - 1) else word_of_int t))"

definition LeadingZeros :: "nat \<Rightarrow> u64 \<Rightarrow> nat" where
  "LeadingZeros w x = length (takeWhile (\<lambda>i. \<not> bit x i) (rev [0..<w]))"

definition intCmp :: "cmp \<Rightarrow> cls \<Rightarrow> i64 \<Rightarrow> i64 \<Rightarrow> bool" where
  "intCmp pred c a b =
     (let sa = asSigned c a; sb = asSigned c b; ua = asUnsigned c a; ub = asUnsigned c b
      in case pred of
           CmpEq \<Rightarrow> sa = sb | CmpNe \<Rightarrow> sa \<noteq> sb
         | CmpSlt \<Rightarrow> sa <s sb | CmpSle \<Rightarrow> sa \<le>s sb | CmpSgt \<Rightarrow> sb <s sa | CmpSge \<Rightarrow> sb \<le>s sa
         | CmpUlt \<Rightarrow> ua < ub | CmpUle \<Rightarrow> ua \<le> ub | CmpUgt \<Rightarrow> ub < ua | CmpUge \<Rightarrow> ub \<le> ua
         | _ \<Rightarrow> False)"

definition floatCmp :: "cmp \<Rightarrow> u64 \<Rightarrow> u64 \<Rightarrow> bool" where
  "floatCmp pred x y = (case pred of
       CmpFeq \<Rightarrow> f64_eq x y | CmpFne \<Rightarrow> \<not> f64_eq x y
     | CmpFle \<Rightarrow> f64_le x y | CmpFlt \<Rightarrow> f64_lt x y | CmpFge \<Rightarrow> f64_le y x | CmpFgt \<Rightarrow> f64_lt y x
     | CmpFo \<Rightarrow> \<not> f64_isNaN x \<and> \<not> f64_isNaN y | CmpFuo \<Rightarrow> f64_isNaN x \<or> f64_isNaN y
     | _ \<Rightarrow> False)"

section \<open>Canonical form\<close>

text \<open>A word is sign-extended, a single has its high half clear, and no value has the abstract pointer class.\<close>

definition canonical :: "val \<Rightarrow> bool" where
  "canonical v \<longleftrightarrow> v_Cls v \<noteq> ClsP \<and> (v_Cls v = ClsW \<longrightarrow> int32_of (v_Bits v) = v_Bits v) \<and>
     (v_Cls v = ClsS \<longrightarrow> uint32_of (v_Bits v) = v_Bits v)"

lemma normCls_idem [simp]: "normCls (normCls c) = normCls c" and normCls_neq_P [simp]: "normCls c \<noteq> ClsP"
  by (auto simp: normCls_def)

lemma cls_IsInt_normCls [simp]: "cls_IsInt (normCls c) = cls_IsInt c" "cls_IsFloat (normCls c) = cls_IsFloat c"
  by (auto simp: normCls_def cls_IsInt_def cls_IsFloat_def)

lemma canonical_intVal [simp]: "cls_IsInt c \<Longrightarrow> canonical (intVal c v)"
  by (auto simp: canonical_def intVal_def Let_def normCls_def cls_IsInt_def)

lemma v_Cls_intVal [simp]: "v_Cls (intVal c v) = normCls c"
  by (simp add: intVal_def Let_def)

lemma canonical_ptrVal [simp]: "canonical (ptrVal a)" "v_Cls (ptrVal a) = ClsL" "v_Bits (ptrVal a) = a"
  by (simp_all add: canonical_def ptrVal_def)

lemma canonical_val0 [simp]: "canonical val0"
  by (simp add: canonical_def val0_def)

lemma v_Cls_asClass [simp]: "v_Cls (asClass c v) = normCls c"
  by (simp add: asClass_def Let_def)

text \<open>Reclassing keeps canonical form between integer classes and within a class.\<close>

lemma canonical_asClass:
  assumes "canonical v" "cls_IsInt c \<and> cls_IsInt (v_Cls v) \<or> normCls c = v_Cls v"
  shows "canonical (asClass c v)"
  using assms by (auto simp: asClass_def Let_def)

lemma asClass_same: "normCls c = v_Cls v \<Longrightarrow> asClass c v = v"
  by (simp add: asClass_def Let_def)

text \<open>Across the banks it keeps the bits, and a negative single retagged as a word is not a canonical word.\<close>

lemma asClass_single_word: "canonical (val_S 0x80000000) \<and> \<not> canonical (asClass ClsW (val_S 0x80000000))"
  by (simp add: canonical_def val_S_def asClass_def normCls_def cls_IsInt_def uint32_of_def int32_of_def)

lemma intVal_canon: "intVal c (asSigned c v) = intVal c v" "intVal c (truncInt c v) = intVal c v"
  by (auto simp: intVal_def asSigned_def truncInt_def Let_def normCls_def)

lemma val_i64_intVal: "val_i64 (intVal c v) = truncInt c v"
  by (auto simp: val_i64_def intVal_def truncInt_def Let_def normCls_def)

lemma val_u64_intVal: "val_u64 (intVal c v) = asUnsigned c v"
  by (auto simp: val_u64_def intVal_def asUnsigned_def Let_def normCls_def)

lemma uint32_of_ucast32 [simp]: "uint32_of (ucast (x :: 32 word)) = ucast x"
  by (rule bit_word_eqI) (auto simp: uint32_of_def bit_simps dest: bit_imp_le_length)

lemma canonical_floatVal [simp]: "canonical (floatVal fo c x)"
  by (simp add: canonical_def floatVal_def)

lemma canonical_castValue: "normCls c \<noteq> ClsQ \<Longrightarrow> canonical (castValue c a) \<and> v_Cls (castValue c a) = normCls c"
  by (cases c) (auto simp: canonical_def castValue_def Let_def normCls_def intVal_def)

end
