(* ===== verification/Interp_Mem.thy ===== *)
theory Interp_Mem
  imports Prelude
begin

text \<open>
  The interpreter's memory (\<open>interp/mem.go\<close>): a sparse, byte-addressed, little-endian address
  space in 4096-byte pages.  \<open>None\<close> of a read is the source's \<open>ok=false\<close>; a failing write returns
  \<open>False\<close> together with the bytes it had already written.
\<close>

type_synonym byte = "8 word"
type_synonym page = "byte list"

record memory =
  pages :: "u64 \<Rightarrow> page option"

definition pageSize :: u64 where
  "pageSize = 4096"

definition newMemory :: memory where
  "newMemory = \<lparr>pages = \<lambda>_. None\<rparr>"

text \<open>\<open>addr &^ (pageSize - 1)\<close>\<close>

definition page_base :: "u64 \<Rightarrow> u64" where
  "page_base addr = addr AND NOT (pageSize - 1)"

definition zero_page :: page where
  "zero_page = replicate 4096 0"

text \<open>\<open>page(addr, create)\<close>: the base of the page found or created and the offset in it.\<close>

definition mem_page :: "u64 \<Rightarrow> bool \<Rightarrow> memory \<Rightarrow> (u64 \<times> nat) option \<times> memory" where
  "mem_page addr create m =
     (let idx = page_base addr in
      case pages m idx of
        Some p \<Rightarrow> (Some (idx, unat (addr - idx)), m)
      | None \<Rightarrow>
          if \<not> create then (None, m)
          else (Some (idx, unat (addr - idx)), m\<lparr>pages := (pages m)(idx \<mapsto> zero_page)\<rparr>))"

partial_function (option) map_loop :: "u64 \<Rightarrow> u64 \<Rightarrow> memory \<Rightarrow> memory option" where
  "map_loop a lim m = (if a < lim then map_loop (a + pageSize) lim (snd (mem_page a True m)) else Some m)"

declare map_loop.simps [code]

definition mapRange :: "u64 \<Rightarrow> u64 \<Rightarrow> memory \<Rightarrow> memory option" where
  "mapRange addr sz m =
     (if sz = 0 then Some (snd (mem_page addr True m)) else map_loop (page_base addr) (addr + sz) m)"

text \<open>One byte through \<open>page(addr, false)\<close>.\<close>

definition get_byte :: "memory \<Rightarrow> u64 \<Rightarrow> byte option" where
  "get_byte m addr = (case mem_page addr False m of
     (None, _) \<Rightarrow> None
   | (Some (idx, off), _) \<Rightarrow> Some (the (pages m idx) ! off))"

definition put_byte :: "u64 \<Rightarrow> byte \<Rightarrow> memory \<Rightarrow> memory option" where
  "put_byte addr b m = (case mem_page addr False m of
     (None, _) \<Rightarrow> None
   | (Some (idx, off), _) \<Rightarrow> Some (m\<lparr>pages := (pages m)(idx \<mapsto> (the (pages m idx))[off := b])\<rparr>))"

fun load_loop :: "memory \<Rightarrow> u64 \<Rightarrow> nat list \<Rightarrow> u64 \<Rightarrow> u64 option" where
  "load_loop m addr [] v = Some v"
| "load_loop m addr (i # is) v = (case get_byte m (addr + of_nat i) of
     None \<Rightarrow> None
   | Some b \<Rightarrow> load_loop m addr is (v OR push_bit (8 * i) (ucast b)))"

definition mem_load :: "memory \<Rightarrow> u64 \<Rightarrow> nat \<Rightarrow> u64 option" where
  "mem_load m addr sz = load_loop m addr [0..<sz] 0"

text \<open>\<open>byte(bits >> (8 * i))\<close>\<close>

definition nth_byte :: "u64 \<Rightarrow> nat \<Rightarrow> byte" where
  "nth_byte bits i = ucast (drop_bit (8 * i) bits)"

fun store_loop :: "u64 \<Rightarrow> (nat \<Rightarrow> byte) \<Rightarrow> nat list \<Rightarrow> memory \<Rightarrow> bool \<times> memory" where
  "store_loop addr bs [] m = (True, m)"
| "store_loop addr bs (i # is) m = (case put_byte (addr + of_nat i) (bs i) m of
     None \<Rightarrow> (False, m)
   | Some m' \<Rightarrow> store_loop addr bs is m')"

definition mem_store :: "u64 \<Rightarrow> nat \<Rightarrow> u64 \<Rightarrow> memory \<Rightarrow> bool \<times> memory" where
  "mem_store addr sz bits = store_loop addr (nth_byte bits) [0..<sz]"

fun read_loop :: "memory \<Rightarrow> u64 \<Rightarrow> nat list \<Rightarrow> byte list option" where
  "read_loop m addr [] = Some []"
| "read_loop m addr (i # is) = (case get_byte m (addr + of_nat i) of
     None \<Rightarrow> None
   | Some b \<Rightarrow> map_option ((#) b) (read_loop m addr is))"

definition readBytes :: "memory \<Rightarrow> u64 \<Rightarrow> nat \<Rightarrow> byte list option" where
  "readBytes m addr n = read_loop m addr [0..<n]"

definition writeBytes :: "u64 \<Rightarrow> byte list \<Rightarrow> memory \<Rightarrow> bool \<times> memory" where
  "writeBytes addr bytes = store_loop addr (\<lambda>i. bytes ! i) [0..<length bytes]"

section \<open>Bytes\<close>

text \<open>Every page has its 4096 bytes.\<close>

definition mem_ok :: "memory \<Rightarrow> bool" where
  "mem_ok m \<longleftrightarrow> (\<forall>p a. pages m a = Some p \<longrightarrow> length p = 4096)"

lemma mem_ok_new: "mem_ok newMemory"
  by (simp add: mem_ok_def newMemory_def)

lemma page_offset: "unat (addr - page_base addr) < 4096"
proof -
  have m: "pageSize - 1 = mask 12" by (simp add: pageSize_def mask_eq_exp_minus_1)
  have "page_base addr = push_bit 12 (drop_bit 12 addr)"
    unfolding page_base_def m by (rule bit_word_eqI) (auto simp: bit_simps)
  then have "addr - page_base addr = take_bit 12 addr" by (metis add_diff_cancel_left' bits_ident)
  moreover have "unat (take_bit 12 addr) = take_bit 12 (unat addr)" by (rule unsigned_take_bit_eq)
  ultimately show ?thesis using take_bit_nat_less_exp[of 12 "unat addr"] by simp
qed

lemma base_offset_inj: "page_base a = page_base b \<Longrightarrow> unat (a - page_base a) = unat (b - page_base b) \<Longrightarrow> a = b"
  by (metis diff_add_cancel word_unat_eq_iff)

lemma get_byte_eq: "get_byte m a = map_option (\<lambda>p. p ! unat (a - page_base a)) (pages m (page_base a))"
  by (auto simp: get_byte_def mem_page_def Let_def split: option.splits)

lemma put_byte_None [simp]: "put_byte a b m = None \<longleftrightarrow> get_byte m a = None"
  by (auto simp: put_byte_def get_byte_eq mem_page_def Let_def split: option.splits)

lemma put_byte_get:
  assumes "mem_ok m" "put_byte a b m = Some m'"
  shows "get_byte m' c = (if c = a then Some b else get_byte m c)" "mem_ok m'"
proof -
  obtain p where p: "pages m (page_base a) = Some p" "m' = m\<lparr>pages := (pages m)(page_base a \<mapsto> p[unat (a - page_base a) := b])\<rparr>"
    using assms(2) by (auto simp: put_byte_def mem_page_def Let_def split: option.splits)
  have len: "length p = 4096" using assms(1) p(1) by (auto simp: mem_ok_def)
  show "mem_ok m'" using assms(1) p len by (auto simp: mem_ok_def)
  show "get_byte m' c = (if c = a then Some b else get_byte m c)"
    using p len page_offset[of a] base_offset_inj[of c a] by (auto simp: get_byte_eq nth_list_update)
qed

lemma put_byte_mapped: "put_byte a b m = Some m' \<Longrightarrow> pages m' c = None \<longleftrightarrow> pages m c = None"
  by (auto simp: put_byte_def mem_page_def Let_def split: option.splits if_splits)

section \<open>Stores and loads\<close>

lemma store_loop_spec:
  assumes "mem_ok m" "store_loop a bs is m = (ok, m')" "distinct (map (\<lambda>i. a + of_nat i) is)"
  shows "mem_ok m'" "ok \<longleftrightarrow> (\<forall>i \<in> set is. get_byte m (a + of_nat i) \<noteq> None)"
    "\<And>c. (\<forall>i \<in> set is. c \<noteq> a + of_nat i) \<Longrightarrow> get_byte m' c = get_byte m c"
    "\<And>i. ok \<Longrightarrow> i \<in> set is \<Longrightarrow> get_byte m' (a + of_nat i) = Some (bs i)"
    "\<And>c. pages m' c = None \<longleftrightarrow> pages m c = None"
proof -
  have "mem_ok m' \<and> (ok \<longleftrightarrow> (\<forall>i \<in> set is. get_byte m (a + of_nat i) \<noteq> None)) \<and>
    (\<forall>c. (\<forall>i \<in> set is. c \<noteq> a + of_nat i) \<longrightarrow> get_byte m' c = get_byte m c) \<and>
    (\<forall>i \<in> set is. ok \<longrightarrow> get_byte m' (a + of_nat i) = Some (bs i)) \<and> (\<forall>c. pages m' c = None \<longleftrightarrow> pages m c = None)"
    using assms
  proof (induction "is" arbitrary: m)
    case (Cons i "is")
    show ?case
    proof (cases "put_byte (a + of_nat i) (bs i) m")
      case None
      with Cons.prems have "ok = False" "m' = m" by auto
      then show ?thesis using None Cons.prems(1) by auto
    next
      case (Some m1)
      note g = put_byte_get[OF Cons.prems(1) Some]
      have mapped: "get_byte m (a + of_nat i) \<noteq> None" using Some by (metis option.distinct(1) put_byte_None)
      have d: "distinct (map (\<lambda>i. a + of_nat i) is)" "\<forall>j \<in> set is. a + of_nat j \<noteq> a + of_nat i" using Cons.prems(3) by (auto simp: image_iff)
      have IH: "mem_ok m'" "ok \<longleftrightarrow> (\<forall>j \<in> set is. get_byte m1 (a + of_nat j) \<noteq> None)"
        "\<forall>c. (\<forall>j \<in> set is. c \<noteq> a + of_nat j) \<longrightarrow> get_byte m' c = get_byte m1 c"
        "\<forall>j \<in> set is. ok \<longrightarrow> get_byte m' (a + of_nat j) = Some (bs j)" "\<forall>c. pages m' c = None \<longleftrightarrow> pages m1 c = None"
        using Cons.IH[OF g(2) _ d(1)] Cons.prems(2) Some by auto
      have "get_byte m1 (a + of_nat j) = get_byte m (a + of_nat j)" if "j \<in> set is" for j using g(1) d(2) that by simp
      then have ok: "ok \<longleftrightarrow> (\<forall>j \<in> set (i # is). get_byte m (a + of_nat j) \<noteq> None)" using IH(2) mapped by simp
      have at: "get_byte m' (a + of_nat i) = Some (bs i)" using IH(3) g(1) d(2) by metis
      show ?thesis using IH ok at g(1) put_byte_mapped[OF Some] by auto
    qed
  qed simp
  then show "mem_ok m'" "ok \<longleftrightarrow> (\<forall>i \<in> set is. get_byte m (a + of_nat i) \<noteq> None)"
    "\<And>c. (\<forall>i \<in> set is. c \<noteq> a + of_nat i) \<Longrightarrow> get_byte m' c = get_byte m c"
    "\<And>i. ok \<Longrightarrow> i \<in> set is \<Longrightarrow> get_byte m' (a + of_nat i) = Some (bs i)"
    "\<And>c. pages m' c = None \<longleftrightarrow> pages m c = None" by blast+
qed

lemma load_loop_spec:
  "load_loop m a is v = (if \<forall>i \<in> set is. get_byte m (a + of_nat i) \<noteq> None
     then Some (fold (\<lambda>i v. v OR push_bit (8 * i) (ucast (the (get_byte m (a + of_nat i))))) is v) else None)"
  by (induction "is" arbitrary: v) (auto split: option.splits)

lemma bit_fold_bytes:
  "bit (fold (\<lambda>i v. v OR push_bit (8 * i) (ucast (b i :: byte))) [0..<n] (0 :: u64)) j \<longleftrightarrow> j < 64 \<and> j < 8 * n \<and> bit (b (j div 8)) (j mod 8)"
proof (induction n)
  case (Suc n)
  have "bit (push_bit (8 * n) (ucast (b n) :: u64)) j \<longleftrightarrow> j < 64 \<and> 8 * n \<le> j \<and> j < 8 * Suc n \<and> bit (b n) (j - 8 * n)"
    by (auto simp: bit_simps dest: bit_imp_le_length)
  moreover have "j div 8 = n" "j mod 8 = j - 8 * n" if "8 * n \<le> j" "j < 8 * Suc n"
  proof -
    show "j div 8 = n" using that by (intro div_nat_eqI) simp_all
    then show "j mod 8 = j - 8 * n" using minus_mult_div_eq_mod[of j 8] by simp
  qed
  ultimately show ?case using Suc by (auto simp: bit_or_iff)
qed simp

text \<open>The bytes a load of \<open>n\<close> bytes reads.\<close>

definition bytes_at :: "memory \<Rightarrow> u64 \<Rightarrow> nat \<Rightarrow> byte option list" where
  "bytes_at m a n = map (\<lambda>i. get_byte m (a + of_nat i)) [0..<n]"

lemma mem_load_cong: "bytes_at m a n = bytes_at m' a n \<Longrightarrow> mem_load m a n = mem_load m' a n"
proof -
  assume e: "bytes_at m a n = bytes_at m' a n"
  have same: "get_byte m (a + of_nat i) = get_byte m' (a + of_nat i)" if "i < n" for i
    using arg_cong[OF e, of "\<lambda>l. l ! i"] that by (simp add: bytes_at_def)
  then show ?thesis unfolding mem_load_def load_loop_spec by (auto intro!: fold_cong)
qed

lemma offset_inj: "i < 2 ^ 64 \<Longrightarrow> j < 2 ^ 64 \<Longrightarrow> a + of_nat i = (a + of_nat j :: u64) \<longleftrightarrow> i = j"
  by (simp add: word_of_nat_eq_iff take_bit_nat_eq_self)

lemma offsets_distinct: "n \<le> 2 ^ 64 \<Longrightarrow> distinct (map (\<lambda>i. a + of_nat i :: u64) [0..<n])"
  using offset_inj[of _ _ a] by (auto simp: distinct_map inj_on_def simp del: add_left_cancel)

text \<open>Two ranges that share no byte.\<close>

definition disjoint_ranges :: "u64 \<Rightarrow> nat \<Rightarrow> u64 \<Rightarrow> nat \<Rightarrow> bool" where
  "disjoint_ranges a n b k \<longleftrightarrow> (\<forall>i < n. \<forall>j < k. a + of_nat i \<noteq> b + of_nat j)"

text \<open>C29: a store of up to eight bytes succeeds exactly if every byte is mapped.  What it stored is what a load of that width at that
  address then reads, cut to the width; a load from bytes the store does not touch reads what it read before, also if the store failed
  half way; and no page appears or disappears.\<close>

theorem mem_store_load:
  assumes "mem_ok m" "n \<le> 8" "mem_store a n bits m = (ok, m')"
  shows "mem_ok m' \<and> (ok \<longleftrightarrow> None \<notin> set (bytes_at m a n)) \<and> (ok \<longrightarrow> mem_load m' a n = Some (take_bit (8 * n) bits)) \<and>
    (disjoint_ranges b k a n \<longrightarrow> mem_load m' b k = mem_load m b k) \<and> (\<forall>c. pages m' c = None \<longleftrightarrow> pages m c = None)"
proof -
  have d: "distinct (map (\<lambda>i. a + of_nat i) [0..<n])" using assms(2) by (intro offsets_distinct) simp
  note S = store_loop_spec[OF assms(1) assms(3)[unfolded mem_store_def] d]
  have "mem_load m' a n = Some (take_bit (8 * n) bits)" if ok
  proof -
    have get: "get_byte m' (a + of_nat i) = Some (nth_byte bits i)" if "i < n" for i using S(4)[OF \<open>ok\<close>, of i] that by simp
    have "mem_load m' a n = Some (fold (\<lambda>i v. v OR push_bit (8 * i) (ucast (the (get_byte m' (a + of_nat i))))) [0..<n] 0)"
      using get by (simp add: mem_load_def load_loop_spec)
    also have "fold (\<lambda>i v. v OR push_bit (8 * i) (ucast (the (get_byte m' (a + of_nat i))))) [0..<n] 0 = take_bit (8 * n) bits"
      (is "?l = _")
    proof (rule bit_word_eqI)
      fix j assume "j < LENGTH(64)"
      then have j: "j < 64" by simp
      have "bit (nth_byte bits (j div 8)) (j mod 8) \<longleftrightarrow> bit bits j"
        using j by (simp add: nth_byte_def bit_simps)
      moreover have "j < 8 * n \<Longrightarrow> j div 8 < n" by simp
      ultimately show "bit ?l j \<longleftrightarrow> bit (take_bit (8 * n) bits) j"
        unfolding bit_fold_bytes bit_take_bit_iff using get[of "j div 8"] j by auto
    qed
    finally show ?thesis .
  qed
  moreover have "mem_load m' b k = mem_load m b k" if "disjoint_ranges b k a n"
  proof (rule mem_load_cong)
    have "get_byte m' (b + of_nat i) = get_byte m (b + of_nat i)" if "i < k" for i
      using S(3)[of "b + of_nat i"] \<open>disjoint_ranges b k a n\<close> that by (simp add: disjoint_ranges_def)
    then show "bytes_at m' b k = bytes_at m b k" by (simp add: bytes_at_def)
  qed
  moreover have "ok \<longleftrightarrow> None \<notin> set (bytes_at m a n)" using S(2) by (auto simp: bytes_at_def image_iff)
  ultimately show ?thesis using S(1,5) by blast
qed

section \<open>Mapping pages\<close>

lemma unat_page_base: "unat (page_base a) = unat a - unat a mod 4096"
proof -
  have "unat (a - page_base a) = unat a mod 4096"
  proof -
    have m: "pageSize - 1 = mask 12" by (simp add: pageSize_def mask_eq_exp_minus_1)
    have "page_base a = push_bit 12 (drop_bit 12 a)"
      unfolding page_base_def m by (rule bit_word_eqI) (auto simp: bit_simps)
    then have "a - page_base a = take_bit 12 a" by (metis add_diff_cancel_left' bits_ident)
    moreover have "unat (take_bit 12 a) = take_bit 12 (unat a)" by (rule unsigned_take_bit_eq)
    ultimately show ?thesis by (simp only:) (simp add: take_bit_eq_mod)
  qed
  moreover have "page_base a \<le> a" unfolding page_base_def by (rule word_and_le2)
  ultimately show ?thesis by (simp add: unat_sub word_le_nat_alt)
qed

lemma page_base_idem [simp]: "page_base (page_base a) = page_base a"
  unfolding page_base_def by (rule bit_word_eqI) (auto simp: bit_simps)

lemma aligned_iff: "page_base a = a \<longleftrightarrow> unat a mod 4096 = 0"
  unfolding word_unat_eq_iff unat_page_base using mod_le_divisor[of 4096 "unat a"] by (auto dest: mod_eq_self_iff_div_eq_0[THEN iffD1])

lemma map_loop_spec:
  assumes "unat lim \<le> 2 ^ 64 - 4096" "page_base a = a" "mem_ok m"
  shows "\<exists>m'. map_loop a lim m = Some m' \<and> mem_ok m' \<and>
    (\<forall>c. page_base c = c \<longrightarrow> pages m' c = (if a \<le> c \<and> c < lim \<and> pages m c = None then Some zero_page else pages m c))"
  using assms(2,3)
proof (induction "unat lim - unat a" arbitrary: a m rule: less_induct)
  case less
  show ?case
  proof (cases "a < lim")
    case False
    then show ?thesis using less.prems by (subst map_loop.simps) (auto dest: le_less_trans)
  next
    case True
    let ?a = "a + pageSize" and ?m = "snd (mem_page a True m)"
    have al: "unat a < unat lim" using True by (simp add: word_less_nat_alt)
    then have ua: "unat ?a = unat a + 4096" using assms(1) by (subst unat_plus_if') (simp add: pageSize_def)
    have ok: "mem_ok ?m" using less.prems by (auto simp: mem_page_def Let_def mem_ok_def zero_page_def split: option.splits)
    have pg: "pages ?m c = (if c = a \<and> pages m c = None then Some zero_page else pages m c)" for c
      using less.prems(1) by (auto simp: mem_page_def Let_def split: option.splits)
    have "unat lim - unat ?a < unat lim - unat a" "page_base ?a = ?a"
      using al ua less.prems(1) by (simp_all add: aligned_iff)
    from less.hyps[OF this ok] obtain m' where m': "map_loop ?a lim ?m = Some m'" "mem_ok m'"
      "\<forall>c. page_base c = c \<longrightarrow> pages m' c = (if ?a \<le> c \<and> c < lim \<and> pages ?m c = None then Some zero_page else pages ?m c)" by blast
    have "pages m' c = (if a \<le> c \<and> c < lim \<and> pages m c = None then Some zero_page else pages m c)" if c: "page_base c = c" for c
    proof -
      have "a \<le> c \<longleftrightarrow> c = a \<or> ?a \<le> c"
      proof -
        have "unat c mod 4096 = 0" "unat a mod 4096 = 0" using c less.prems(1) by (simp_all add: aligned_iff)
        then have "unat a \<le> unat c \<longleftrightarrow> unat c = unat a \<or> unat a + 4096 \<le> unat c" by (auto simp: mod_eq_0_iff_dvd elim!: dvdE)
        then show ?thesis by (simp add: word_le_nat_alt word_unat_eq_iff ua)
      qed
      moreover have "\<not> ?a \<le> a" using ua by (simp add: word_le_nat_alt)
      ultimately show ?thesis using m'(3) c pg[of c] True by auto
    qed
    moreover have "map_loop a lim m = Some m'" using m'(1) True by (subst map_loop.simps) simp
    ultimately show ?thesis using m'(2) by blast
  qed
qed

lemma mapRange_total:
  assumes "mem_ok m" "unat addr + unat sz \<le> 2 ^ 64 - 4096"
  shows "\<exists>m'. mapRange addr sz m = Some m' \<and> mem_ok m' \<and> (\<forall>i < unat sz. get_byte m' (addr + of_nat i) \<noteq> None) \<and>
    (\<forall>c b. get_byte m c = Some b \<longrightarrow> get_byte m' c = Some b) \<and>
    (\<forall>c b. get_byte m c = None \<longrightarrow> get_byte m' c = Some b \<longrightarrow> b = 0)"
proof -
  have "\<exists>m'. mapRange addr sz m = Some m' \<and> mem_ok m' \<and> (\<forall>c. page_base c = c \<longrightarrow> pages m' c = pages m c \<or> pages m c = None \<and> pages m' c = Some zero_page) \<and>
    (\<forall>i < unat sz. pages m' (page_base (addr + of_nat i)) \<noteq> None)"
  proof (cases "sz = 0")
    case True
    then show ?thesis using assms(1) by (auto simp: mapRange_def mem_page_def Let_def mem_ok_def zero_page_def split: option.splits)
  next
    case False
    have lim: "unat (addr + sz) = unat addr + unat sz" using assms(2) by (subst unat_plus_if') simp
    then obtain m' where m': "map_loop (page_base addr) (addr + sz) m = Some m'" "mem_ok m'"
      "\<forall>c. page_base c = c \<longrightarrow> pages m' c = (if page_base addr \<le> c \<and> c < addr + sz \<and> pages m c = None then Some zero_page else pages m c)"
      using map_loop_spec[of "addr + sz" "page_base addr" m] assms by auto
    have "pages m' (page_base (addr + of_nat i)) \<noteq> None" if i: "i < unat sz" for i
    proof -
      let ?c = "page_base (addr + of_nat i)"
      have "unat (of_nat i :: u64) = i" using i unsigned_less[of sz, where ?'a = nat] by (simp add: unsigned_of_nat take_bit_nat_eq_self)
      then have x: "unat (addr + of_nat i) = unat addr + i" using i assms(2) by (subst unat_plus_if') simp
      have "unat addr div 4096 \<le> (unat addr + i) div 4096" by (rule div_le_mono) simp
      then have "unat (page_base addr) \<le> unat ?c" unfolding unat_page_base x minus_mod_eq_mult_div by simp
      moreover have "unat ?c < unat addr + unat sz" unfolding unat_page_base x using i by linarith
      ultimately have "page_base addr \<le> ?c" "?c < addr + sz" using lim by (simp_all add: word_le_nat_alt word_less_nat_alt)
      then show ?thesis using m'(3) by (cases "pages m ?c") auto
    qed
    then show ?thesis using m' False by (intro exI[of _ m']) (auto simp: mapRange_def)
  qed
  then obtain m' where m': "mapRange addr sz m = Some m'" "mem_ok m'" "\<forall>c. page_base c = c \<longrightarrow> pages m' c = pages m c \<or> pages m c = None \<and> pages m' c = Some zero_page"
    "\<forall>i < unat sz. pages m' (page_base (addr + of_nat i)) \<noteq> None" by blast
  have pg: "pages m' (page_base c) = pages m (page_base c) \<or> pages m (page_base c) = None \<and> pages m' (page_base c) = Some zero_page" for c
    using m'(3) page_base_idem by blast
  have "get_byte m' c = Some b" if "get_byte m c = Some b" for c b using that pg[of c] by (auto simp: get_byte_eq)
  moreover have "b = 0" if "get_byte m c = None" "get_byte m' c = Some b" for c b
    using that pg[of c] page_offset[of c] by (auto simp: get_byte_eq zero_page_def)
  moreover have "\<forall>i < unat sz. get_byte m' (addr + of_nat i) \<noteq> None" using m'(4) by (simp add: get_byte_eq)
  ultimately show ?thesis using m'(1,2) by blast
qed

text \<open>C30: unless the range reaches into the last page of the address space, \<open>mapRange\<close> returns with every byte of it mapped.  Bytes that were mapped
  keep their value; a byte the call mapped reads as zero.\<close>

theorem mapRange_maps:
  assumes "mem_ok m" "unat addr + unat sz \<le> 2 ^ 64 - 4096"
  shows "\<exists>m'. mapRange addr sz m = Some m' \<and> mem_ok m' \<and> (\<forall>i < unat sz. get_byte m' (addr + of_nat i) \<noteq> None) \<and>
    (\<forall>c b. get_byte m c = Some b \<longrightarrow> get_byte m' c = Some b) \<and>
    (\<forall>c b. get_byte m c = None \<longrightarrow> get_byte m' c = Some b \<longrightarrow> b = 0)"
  using mapRange_total[OF assms] .

theorem mapRange_maps_witness:
  "\<exists>m'. mapRange 0x6FFFFFF8 16 newMemory = Some m' \<and> get_byte m' 0x70000000 = Some 0"
proof -
  obtain m' where m': "mapRange 0x6FFFFFF8 16 newMemory = Some m'" "\<forall>i < unat (16 :: u64). get_byte m' (0x6FFFFFF8 + of_nat i) \<noteq> None"
    "\<forall>c b. get_byte newMemory c = None \<longrightarrow> get_byte m' c = Some b \<longrightarrow> b = 0"
    using mapRange_maps[OF mem_ok_new, of "0x6FFFFFF8" 16] by auto
  have "get_byte m' (0x6FFFFFF8 + of_nat 8) \<noteq> None" using m'(2) by (rule allE[of _ 8]) simp
  then have "get_byte m' 0x70000000 \<noteq> None" by simp
  moreover have "get_byte newMemory 0x70000000 = None" by (simp add: get_byte_eq newMemory_def)
  ultimately show ?thesis using m'(1,3) by blast
qed

theorem mem_store_load_witness:
  "\<exists>m m'. mem_store 0x6FFFFFFE 4 0xAABBCCDD m = (True, m') \<and> mem_load m' 0x6FFFFFFE 4 = Some 0xAABBCCDD"
proof -
  let ?m = "\<lparr>pages = \<lambda>_. Some zero_page\<rparr>"
  have ok: "mem_ok ?m" by (simp add: mem_ok_def zero_page_def)
  obtain b m' where s: "mem_store 0x6FFFFFFE 4 0xAABBCCDD ?m = (b, m')" by fastforce
  have "None \<notin> set (bytes_at ?m 0x6FFFFFFE 4)" by (auto simp: bytes_at_def get_byte_eq)
  with mem_store_load[OF ok _ s] have "b" "mem_load m' 0x6FFFFFFE 4 = Some (take_bit (8 * 4) 0xAABBCCDD)" by auto
  then show ?thesis using s by auto
qed

end
