(* ===== verification/Interp_Ops.thy ===== *)
theory Interp_Ops
  imports Interp_Value Interp_Mem
begin

text \<open>
  The machine of the interpreter and its instructions other than calls (\<open>interp/frame.go\<close>,
  \<open>interp/ops.go\<close>, \<open>interp/va.go\<close>, \<open>interp/atomic.go\<close>, \<open>interp/floatmath.go\<close>).  A trap is \<open>Inl\<close>;
  \<open>GoPanic\<close> is an index or nil panic.  Where the source locates a trap in the program the model
  keeps its kind only, and the machine's state after a trap is dropped.
\<close>

datatype trap =
    GoPanic
  | AbsentOperand
  | NoValue refkind
  | UndefinedSymbol string
  | DivideByZero
  | UnhandledOp op
  | UnmappedLoad u64 nat
  | UnmappedStore u64 nat
  | AllocNSize u64
  | UnmappedCopySource u64 int
  | UnmappedCopyDest u64 int
  | UnknownIntrinsic string
  | NoBlockAddress
  | BadVaList u64
  | NoVariadicArguments
  | NoPhiArgument string
  | HltReached
  | TableIndex u64
  | NotABlockAddress u64
  | Unterminated
  | NoCallee
  | NotAFunction u64
  | UndefinedFunction string
  | WrongArity string nat nat
  | TooDeep nat
  | FuelExhausted
  | ExitTrap int
  | OutOfSteps
  | Diverges
  | UnmappedString u64
  | BadFormat
  | FewArguments
  | BadConversion byte

section \<open>State\<close>

record vaState =
  va_args :: "val list"
  va_next :: nat

text \<open>A block is named by the function that owns it and its pointer there.\<close>

record machine =
  mc_funcs :: "string \<Rightarrow> func option"
  mc_mem :: memory
  mc_syms :: "string \<Rightarrow> u64 option"
  mc_funcAt :: "u64 \<Rightarrow> func option"
  mc_externAt :: "u64 \<Rightarrow> string option"
  mc_blockAddr :: "string \<times> bptr \<Rightarrow> u64 option"
  mc_blockAt :: "u64 \<Rightarrow> (func \<times> bptr) option"
  mc_sp :: u64
  mc_heapNext :: u64
  mc_commonNext :: u64
  mc_textNext :: u64
  mc_vaLists :: "vaState list"
  mc_depth :: nat
  mc_stdout :: "byte list"
  mc_fuel :: int
  mc_maxDepth :: nat
  mc_divZeroZero :: bool

record frame =
  fr_fn :: func
  fr_vals :: "val list"
  fr_varargs :: "val list"
  fr_spBase :: u64

text \<open>\<open>fr.vals[r.ID] = v\<close>, and the same under \<open>if !in.To.IsNone()\<close>.\<close>

definition set_val :: "ref \<Rightarrow> val \<Rightarrow> frame \<Rightarrow> trap + frame" where
  "set_val r v fr = (if r_ID r < length (fr_vals fr) then Inr (fr\<lparr>fr_vals := (fr_vals fr)[r_ID r := v]\<rparr>) else Inl GoPanic)"

definition bind_result :: "instr \<Rightarrow> val \<Rightarrow> frame \<Rightarrow> trap + frame" where
  "bind_result i v fr = (if ref_IsNone (in_To i) then Inr fr else set_val (in_To i) v fr)"

definition evalConst :: "float_ops \<Rightarrow> machine \<Rightarrow> const \<Rightarrow> trap + val" where
  "evalConst fo mc c = (case c_Kind c of
     ConstInt \<Rightarrow> Inr (intVal (c_Cls c) (c_Int c))
   | ConstFloat \<Rightarrow> Inr (floatVal fo (c_Cls c) (c_Flt c))
   | ConstSym \<Rightarrow> (case mc_syms mc (c_Sym c) of
       None \<Rightarrow> Inl (UndefinedSymbol (c_Sym c))
     | Some addr \<Rightarrow> Inr (ptrVal (addr + c_Int c))))"

definition evalRef :: "float_ops \<Rightarrow> machine \<Rightarrow> frame \<Rightarrow> ref \<Rightarrow> trap + val" where
  "evalRef fo mc fr r = (case r_Kind r of
     RefTemp \<Rightarrow> if r_ID r < length (fr_vals fr) then Inr (fr_vals fr ! r_ID r) else Inl GoPanic
   | RefConst \<Rightarrow> if r_ID r < length (f_Consts (fr_fn fr)) then evalConst fo mc (f_Consts (fr_fn fr) ! r_ID r) else Inl GoPanic
   | RefNone \<Rightarrow> Inl AbsentOperand
   | k \<Rightarrow> Inl (NoValue k))"

section \<open>Pure operations\<close>

definition intBinop :: "bool \<Rightarrow> op \<Rightarrow> cls \<Rightarrow> val \<Rightarrow> val \<Rightarrow> trap + val" where
  "intBinop divZeroZero o' c av bv =
     (let a = val_i64 av; b = val_i64 bv; sa = asSigned c a; sb = asSigned c b; ua = asUnsigned c a; ub = asUnsigned c b;
          shift = shiftAmount c b;
          divZero = (if divZeroZero then Inr (intVal c 0) else Inl DivideByZero);
          res = (\<lambda>v. Inr (intVal c (truncInt c v)))
      in if o' = OAdd then res (a + b)
         else if o' = OSub then res (a - b)
         else if o' = OMul then res (a * b)
         else if o' = OAnd then res (a AND b)
         else if o' = OOr then res (a OR b)
         else if o' = OXor then res (a XOR b)
         else if o' = OShl then res (push_bit shift a)
         else if o' = OShr then res (drop_bit shift ua)
         else if o' = OSar then res (signed_drop_bit shift sa)
         else if o' = ODiv then
           (if sb = 0 then divZero else if sa = word_of_int (- (2 ^ 63)) \<and> sb = -1 then Inr (intVal c sa) else res (go_sdiv sa sb))
         else if o' = ORem then
           (if sb = 0 then divZero else if sa = word_of_int (- (2 ^ 63)) \<and> sb = -1 then Inr (intVal c 0) else res (go_srem sa sb))
         else if o' = OUDiv then (if ub = 0 then divZero else res (ua div ub))
         else if o' = OURem then (if ub = 0 then divZero else res (ua mod ub))
         else Inl (UnhandledOp o'))"

definition floatBinop :: "float_ops \<Rightarrow> op \<Rightarrow> cls \<Rightarrow> val \<Rightarrow> val \<Rightarrow> trap + val" where
  "floatBinop fo o' c av bv =
     (if c = ClsS then
        (let x = val_f32 av; y = val_f32 bv; res = (\<lambda>r. Inr \<lparr>v_Cls = ClsS, v_Bits = ucast r\<rparr>)
         in if o' = OAdd then res (fo_add32 fo x y) else if o' = OSub then res (fo_sub32 fo x y)
            else if o' = OMul then res (fo_mul32 fo x y) else if o' = ODiv then res (fo_div32 fo x y)
            else Inl (UnhandledOp o'))
      else
        (let x = val_f64 fo av; y = val_f64 fo bv; res = (\<lambda>r. Inr (floatVal fo ClsD r))
         in if o' = OAdd then res (fo_add64 fo x y) else if o' = OSub then res (fo_sub64 fo x y)
            else if o' = OMul then res (fo_mul64 fo x y) else if o' = ODiv then res (fo_div64 fo x y)
            else Inl (UnhandledOp o')))"

definition interp_evalCmp :: "float_ops \<Rightarrow> machine \<Rightarrow> frame \<Rightarrow> instr \<Rightarrow> trap + val" where
  "interp_evalCmp fo mc fr i =
     e_then (evalRef fo mc fr (instr_Arg i 0)) (\<lambda>a.
     e_then (evalRef fo mc fr (instr_Arg i 1)) (\<lambda>b.
     case ClassOf (fr_fn fr) (instr_Arg i 0) of
       None \<Rightarrow> Inl GoPanic
     | Some argCls \<Rightarrow>
         Inr (intVal (in_Cls i) (b2i (if cmp_IsFloat (in_Cmp i) then floatCmp (in_Cmp i) (val_f64 fo a) (val_f64 fo b)
              else intCmp (in_Cmp i) argCls (val_i64 a) (val_i64 b))))))"

definition is_int_binop :: "op \<Rightarrow> bool" where
  "is_int_binop o' \<longleftrightarrow> o' \<in> {OAdd, OSub, OMul, ODiv, OUDiv, ORem, OURem, OAnd, OOr, OXor, OShl, OShr, OSar}"

definition is_int_extend :: "op \<Rightarrow> bool" where
  "is_int_extend o' \<longleftrightarrow> o' \<in> {OExtsb, OExtub, OExtsh, OExtuh, OExtsw, OExtuw}"

definition evalValueOp :: "float_ops \<Rightarrow> machine \<Rightarrow> frame \<Rightarrow> instr \<Rightarrow> trap + val" where
  "evalValueOp fo mc fr i =
     (let o' = in_Op i; c = in_Cls i; arg = (\<lambda>k. evalRef fo mc fr (instr_Arg i k)) in
      if is_int_binop o' then
        e_then (arg 0) (\<lambda>a. e_then (arg 1) (\<lambda>b.
          if cls_IsFloat c then floatBinop fo o' c a b else intBinop (mc_divZeroZero mc) o' c a b))
      else if o' = ONeg then
        e_then (arg 0) (\<lambda>a. Inr (if cls_IsFloat c then negFloat c a else intVal c (truncInt c (- val_i64 a))))
      else if o' = OClz then
        e_then (arg 0) (\<lambda>a. Inr (if c = ClsW then intVal ClsW (of_nat (LeadingZeros 32 (val_u64 a)))
          else intVal ClsL (of_nat (LeadingZeros 64 (val_u64 a)))))
      else if o' = OCmp then interp_evalCmp fo mc fr i
      else if o' = OSel then
        e_then (arg 0) (\<lambda>cond. e_then (arg (if val_u64 cond \<noteq> 0 then 1 else 2)) (\<lambda>v. Inr (asClass c v)))
      else if is_int_extend o' then e_then (arg 0) (\<lambda>a. Inr (intVal c (extendInt o' (val_i64 a))))
      else if o' = OExts then e_then (arg 0) (\<lambda>a. Inr (floatVal fo ClsD (val_f64 fo a)))
      else if o' = OTruncd then e_then (arg 0) (\<lambda>a. Inr (floatVal fo ClsS (val_f64 fo a)))
      else if o' = OStosi then e_then (arg 0) (\<lambda>a. Inr (intVal c (f2iSigned (val_f64 fo a) (intBits c))))
      else if o' = OStoui then e_then (arg 0) (\<lambda>a. Inr (intVal c (f2iUnsigned (val_f64 fo a) (intBits c))))
      else if o' = OSltof then
        e_then (arg 0) (\<lambda>a. case ClassOf (fr_fn fr) (instr_Arg i 0) of None \<Rightarrow> Inl GoPanic
          | Some ac \<Rightarrow> Inr (floatVal fo c (fo_of_int fo (asSigned ac (val_i64 a)))))
      else if o' = OUltof then
        e_then (arg 0) (\<lambda>a. case ClassOf (fr_fn fr) (instr_Arg i 0) of None \<Rightarrow> Inl GoPanic
          | Some ac \<Rightarrow> Inr (floatVal fo c (fo_of_uint fo (asUnsigned ac (val_i64 a)))))
      else if o' = OCast then e_then (arg 0) (\<lambda>a. Inr (castValue c a))
      else if o' = OCopy then e_then (arg 0) (\<lambda>a. Inr (asClass c a))
      else Inl (UnhandledOp o'))"

section \<open>Memory operations\<close>

definition memLoad :: "machine \<Rightarrow> u64 \<Rightarrow> nat \<Rightarrow> trap + u64" where
  "memLoad mc addr sz = (case mem_load (mc_mem mc) addr sz of None \<Rightarrow> Inl (UnmappedLoad addr sz) | Some v \<Rightarrow> Inr v)"

definition load_value :: "machine \<Rightarrow> instr \<Rightarrow> u64 \<Rightarrow> trap + val" where
  "load_value mc i addr =
     (let o' = in_Op i; c = in_Cls i; ld = (\<lambda>n k. e_then (memLoad mc addr n) (\<lambda>v. Inr (k v))) in
      if o' = OLoadsb then ld 1 (\<lambda>v. intVal c (int8_of v))
      else if o' = OLoadub then ld 1 (\<lambda>v. intVal c (uint8_of v))
      else if o' = OLoadsh then ld 2 (\<lambda>v. intVal c (int16_of v))
      else if o' = OLoaduh then ld 2 (\<lambda>v. intVal c (uint16_of v))
      else if o' = OLoadsw then ld 4 (\<lambda>v. intVal c (int32_of v))
      else if o' = OLoaduw then ld 4 (\<lambda>v. intVal c (uint32_of v))
      else if o' = OLoadl then ld 8 (\<lambda>v. intVal c v)
      else if o' = OLoads then ld 4 (\<lambda>v. \<lparr>v_Cls = ClsS, v_Bits = v AND 0xffffffff\<rparr>)
      else if o' = OLoadd then ld 8 (\<lambda>v. \<lparr>v_Cls = ClsD, v_Bits = v\<rparr>)
      else Inl (UnhandledOp o'))"

definition execLoad :: "float_ops \<Rightarrow> instr \<Rightarrow> frame \<times> machine \<Rightarrow> trap + frame \<times> machine" where
  "execLoad fo i = (\<lambda>(fr, mc).
     e_then (evalRef fo mc fr (instr_Arg i 0)) (\<lambda>av.
     e_then (load_value mc i (val_u64 av)) (\<lambda>out.
     e_then (bind_result i (asClass (in_Cls i) out) fr) (\<lambda>fr'. Inr (fr', mc)))))"

definition storeSize :: "op \<Rightarrow> nat" where
  "storeSize o' = (if o' = OStoreb then 1 else if o' = OStoreh then 2 else if o' = OStorew \<or> o' = OStores then 4
     else if o' = OStorel \<or> o' = OStored then 8 else 0)"

definition execStore :: "float_ops \<Rightarrow> instr \<Rightarrow> frame \<times> machine \<Rightarrow> trap + frame \<times> machine" where
  "execStore fo i = (\<lambda>(fr, mc).
     e_then (evalRef fo mc fr (instr_Arg i 0)) (\<lambda>vv.
     e_then (evalRef fo mc fr (instr_Arg i 1)) (\<lambda>av.
       let sz = storeSize (in_Op i) in
       if sz = 0 then Inl (UnhandledOp (in_Op i))
       else case mem_store (val_u64 av) sz (v_Bits vv) (mc_mem mc) of
         (False, _) \<Rightarrow> Inl (UnmappedStore (val_u64 av) sz)
       | (True, m) \<Rightarrow> Inr (fr, mc\<lparr>mc_mem := m\<rparr>))))"

definition maxU :: "u64 \<Rightarrow> u64 \<Rightarrow> u64" where
  "maxU a b = (if a > b then a else b)"

definition stackAlloc :: "u64 \<Rightarrow> u64 \<Rightarrow> machine \<Rightarrow> (u64 \<times> machine) option" where
  "stackAlloc sz align mc =
     (let al = (if align = 0 then 1 else align); sp = (mc_sp mc - sz) AND NOT (al - 1)
      in map_option (\<lambda>m. (sp, mc\<lparr>mc_sp := sp, mc_mem := m\<rparr>)) (mapRange sp (maxU sz 1) (mc_mem mc)))"

definition execAlloc :: "float_ops \<Rightarrow> instr \<Rightarrow> frame \<times> machine \<Rightarrow> trap + frame \<times> machine" where
  "execAlloc fo i = (\<lambda>(fr, mc).
     e_then (evalRef fo mc fr (instr_Arg i 0)) (\<lambda>sv.
       let sz = val_u64 sv; align = (if in_Op i = OAlloc4 then 4 else if in_Op i = OAlloc8 then 8 else 16) in
       if in_Op i = OAllocN \<and> sz mod 16 \<noteq> 0 then Inl (AllocNSize sz)
       else case stackAlloc sz align mc of
         None \<Rightarrow> Inl Diverges
       | Some (addr, mc') \<Rightarrow> e_then (bind_result i (ptrVal addr) fr) (\<lambda>fr'. Inr (fr', mc'))))"

text \<open>Go's \<open>make([]byte, n)\<close> panics for a negative length.\<close>

definition read_for_copy :: "memory \<Rightarrow> u64 \<Rightarrow> int \<Rightarrow> trap + byte list" where
  "read_for_copy m src n = (if n < 0 then Inl GoPanic
     else case readBytes m src (nat n) of None \<Rightarrow> Inl (UnmappedCopySource src n) | Some bs \<Rightarrow> Inr bs)"

definition copyMem :: "u64 \<Rightarrow> u64 \<Rightarrow> int \<Rightarrow> machine \<Rightarrow> trap + machine" where
  "copyMem dst src n mc = e_then (read_for_copy (mc_mem mc) src n) (\<lambda>bs.
     case writeBytes dst bs (mc_mem mc) of
       (False, _) \<Rightarrow> Inl (UnmappedCopyDest dst n)
     | (True, m) \<Rightarrow> Inr (mc\<lparr>mc_mem := m\<rparr>))"

definition execBlit :: "float_ops \<Rightarrow> instr \<Rightarrow> frame \<times> machine \<Rightarrow> trap + frame \<times> machine" where
  "execBlit fo i = (\<lambda>(fr, mc).
     e_then (evalRef fo mc fr (instr_Arg i 0)) (\<lambda>dv.
     e_then (evalRef fo mc fr (instr_Arg i 1)) (\<lambda>sv.
     e_then (copyMem (val_u64 dv) (val_u64 sv) (sint (in_Aux i)) mc) (\<lambda>mc'. Inr (fr, mc')))))"

section \<open>Variadic arguments\<close>

definition execVaStart :: "float_ops \<Rightarrow> instr \<Rightarrow> frame \<times> machine \<Rightarrow> trap + frame \<times> machine" where
  "execVaStart fo i = (\<lambda>(fr, mc).
     e_then (evalRef fo mc fr (instr_Arg i 0)) (\<lambda>av.
       let token = of_nat (length (mc_vaLists mc)); mc1 = mc\<lparr>mc_vaLists := mc_vaLists mc @ [\<lparr>va_args = fr_varargs fr, va_next = 0\<rparr>]\<rparr>
       in case mem_store (val_u64 av) 8 token (mc_mem mc1) of
            (False, _) \<Rightarrow> Inl (BadVaList (val_u64 av))
          | (True, m) \<Rightarrow> Inr (fr, mc1\<lparr>mc_mem := m\<rparr>)))"

definition va_take :: "vaState \<Rightarrow> (val \<times> vaState) option" where
  "va_take st = (if va_next st \<ge> length (va_args st) then None
     else Some (va_args st ! va_next st, st\<lparr>va_next := va_next st + 1\<rparr>))"

definition execVaArg :: "float_ops \<Rightarrow> instr \<Rightarrow> frame \<times> machine \<Rightarrow> trap + frame \<times> machine" where
  "execVaArg fo i = (\<lambda>(fr, mc).
     e_then (evalRef fo mc fr (instr_Arg i 0)) (\<lambda>av.
       case mem_load (mc_mem mc) (val_u64 av) 8 of
         None \<Rightarrow> Inl (BadVaList (val_u64 av))
       | Some token \<Rightarrow>
           if unat token \<ge> length (mc_vaLists mc) then Inl (BadVaList (val_u64 av))
           else case va_take (mc_vaLists mc ! unat token) of
             None \<Rightarrow> Inl NoVariadicArguments
           | Some (v, st) \<Rightarrow> e_then (bind_result i (asClass (in_Cls i) v) fr) (\<lambda>fr'.
               Inr (fr', mc\<lparr>mc_vaLists := (mc_vaLists mc)[unat token := st]\<rparr>))))"

section \<open>Intrinsics\<close>

text \<open>The \<open>strings\<close> functions in use.\<close>

definition hasPrefix :: "string \<Rightarrow> string \<Rightarrow> bool" where
  "hasPrefix s p \<longleftrightarrow> take (length p) s = p"

definition hasSuffix :: "string \<Rightarrow> string \<Rightarrow> bool" where
  "hasSuffix s p \<longleftrightarrow> length p \<le> length s \<and> drop (length s - length p) s = p"

definition trimPrefix :: "string \<Rightarrow> string \<Rightarrow> string" where
  "trimPrefix s p = (if hasPrefix s p then drop (length p) s else s)"

definition trimSuffix :: "string \<Rightarrow> string \<Rightarrow> string" where
  "trimSuffix s p = (if hasSuffix s p then take (length s - length p) s else s)"

definition atomicKind :: "string \<Rightarrow> string \<times> nat \<times> cls" where
  "atomicKind name = (let s = trimPrefix name ''atomic.'' in
     if hasSuffix s ''.b'' then (trimSuffix s ''.b'', 1, ClsW)
     else if hasSuffix s ''.h'' then (trimSuffix s ''.h'', 2, ClsW)
     else if hasSuffix s ''.l'' then (trimSuffix s ''.l'', 8, ClsL)
     else (trimSuffix s ''.w'', 4, ClsW))"

definition atomicRMW :: "string \<Rightarrow> u64 \<Rightarrow> u64 \<Rightarrow> u64" where
  "atomicRMW o' old v = (if o' = ''add'' then old + v else if o' = ''sub'' then old - v else if o' = ''and'' then old AND v
     else if o' = ''or'' then old OR v else if o' = ''xor'' then old XOR v else old)"

text \<open>\<open>args[k]\<close>, panicking past the end.\<close>

definition nth_arg :: "val list \<Rightarrow> nat \<Rightarrow> trap + val" where
  "nth_arg args k = (if k < length args then Inr (args ! k) else Inl GoPanic)"

definition atomic_store :: "u64 \<Rightarrow> nat \<Rightarrow> u64 \<Rightarrow> machine \<Rightarrow> trap + machine" where
  "atomic_store addr sz v mc = (case mem_store addr sz v (mc_mem mc) of
     (False, _) \<Rightarrow> Inl (UnmappedStore addr sz)
   | (True, m) \<Rightarrow> Inr (mc\<lparr>mc_mem := m\<rparr>))"

text \<open>The result is \<open>Some\<close> when \<open>hasResult\<close>.\<close>

definition atomicOp :: "string \<Rightarrow> val list \<Rightarrow> machine \<Rightarrow> trap + val option \<times> machine" where
  "atomicOp name args mc =
     (if name = ''atomic.fence'' then Inr (None, mc)
      else let (base, sz, c) = atomicKind name in
        e_then (nth_arg args 0) (\<lambda>a0.
          let addr = val_u64 a0; mask64 = (if sz < 8 then mask (sz * 8) else - 1) in
          if base = ''load'' then e_then (memLoad mc addr sz) (\<lambda>v. Inr (Some (intVal c v), mc))
          else if base = ''store'' then
            e_then (nth_arg args 1) (\<lambda>a1. e_then (atomic_store addr sz (val_u64 a1) mc) (\<lambda>mc'. Inr (None, mc')))
          else if base = ''xchg'' then
            e_then (memLoad mc addr sz) (\<lambda>old. e_then (nth_arg args 1) (\<lambda>a1.
              e_then (atomic_store addr sz (val_u64 a1) mc) (\<lambda>mc'. Inr (Some (intVal c old), mc'))))
          else if base = ''cas'' then
            e_then (memLoad mc addr sz) (\<lambda>old. e_then (nth_arg args 1) (\<lambda>a1.
              if old AND mask64 = val_u64 a1 AND mask64 then
                e_then (nth_arg args 2) (\<lambda>a2. e_then (atomic_store addr sz (val_u64 a2) mc) (\<lambda>mc'. Inr (Some (intVal c old), mc')))
              else Inr (Some (intVal c old), mc)))
          else if base \<in> {''add'', ''sub'', ''and'', ''or'', ''xor''} then
            e_then (memLoad mc addr sz) (\<lambda>old. e_then (nth_arg args 1) (\<lambda>a1.
              e_then (atomic_store addr sz (atomicRMW base old (val_u64 a1)) mc) (\<lambda>mc'. Inr (Some (intVal c old), mc'))))
          else Inl (UnknownIntrinsic name)))"

definition floatMathParts :: "string \<Rightarrow> (string \<times> cls) option" where
  "floatMathParts name = (let t = trimPrefix name ''float.'' in
     if hasSuffix t ''.s'' then Some (trimSuffix t ''.s'', ClsS)
     else if hasSuffix t ''.d'' then Some (trimSuffix t ''.d'', ClsD)
     else None)"

definition signBit :: "cls \<Rightarrow> u64" where
  "signBit c = (if c = ClsS then push_bit 31 1 else push_bit 63 1)"

definition quietBit :: "cls \<Rightarrow> u64" where
  "quietBit c = (if c = ClsS then push_bit 22 1 else push_bit 51 1)"

definition defaultNaNBits :: "cls \<Rightarrow> u64" where
  "defaultNaNBits c = (if c = ClsS then 0x7FC00000 else 0x7FF8000000000000)"

definition isNaNBits :: "cls \<Rightarrow> u64 \<Rightarrow> bool" where
  "isNaNBits c bits = (if c = ClsS then
       (let single = (ucast bits :: 32 word) in single AND 0x7F800000 = 0x7F800000 \<and> single AND 0x007FFFFF \<noteq> 0)
     else bits AND 0x7FF0000000000000 = 0x7FF0000000000000 \<and> bits AND 0x000FFFFFFFFFFFFF \<noteq> 0)"

definition floatMathOp :: "float_ops \<Rightarrow> string \<Rightarrow> val \<Rightarrow> val option" where
  "floatMathOp fo name a = (case floatMathParts name of
     None \<Rightarrow> None
   | Some (operation, c) \<Rightarrow>
       if operation = ''abs'' then Some \<lparr>v_Cls = c, v_Bits = v_Bits a AND NOT (signBit c)\<rparr>
       else if isNaNBits c (v_Bits a) then Some \<lparr>v_Cls = c, v_Bits = v_Bits a OR quietBit c\<rparr>
       else let x = val_f64 fo a in
         if operation = ''sqrt'' then
           (if f64_lt x 0 then Some \<lparr>v_Cls = c, v_Bits = defaultNaNBits c\<rparr> else Some (floatVal fo c (fo_Sqrt fo x)))
         else if operation = ''roundeven'' then Some (floatVal fo c (fo_RoundToEven fo x))
         else if operation = ''roundaway'' then Some (floatVal fo c (fo_Round fo x))
         else if operation = ''ceil'' then Some (floatVal fo c (fo_Ceil fo x))
         else if operation = ''floor'' then Some (floatVal fo c (fo_Floor fo x))
         else if operation = ''trunc'' then Some (floatVal fo c (fo_Trunc fo x))
         else None)"

text \<open>Evaluating a list of operands in order.\<close>

definition evalRefs :: "float_ops \<Rightarrow> machine \<Rightarrow> frame \<Rightarrow> ref list \<Rightarrow> trap + val list" where
  "evalRefs fo mc fr rs = e_fold (\<lambda>r vs. e_then (evalRef fo mc fr r) (\<lambda>v. Inr (vs @ [v]))) rs []"

definition execIntrinsic :: "float_ops \<Rightarrow> instr \<Rightarrow> frame \<times> machine \<Rightarrow> trap + frame \<times> machine" where
  "execIntrinsic fo i = (\<lambda>(fr, mc). case instr_Intrin i of
     None \<Rightarrow> Inl GoPanic
   | Some n \<Rightarrow> (let name = io_Name n in
       if name = ''stacksave'' then e_then (set_val (in_To i) (ptrVal (mc_sp mc)) fr) (\<lambda>fr'. Inr (fr', mc))
       else if name = ''stackrestore'' then
         e_then (evalRef fo mc fr (instr_Arg i 0)) (\<lambda>v. Inr (fr, mc\<lparr>mc_sp := val_u64 v\<rparr>))
       else if name = ''constant_p'' then e_then (bind_result i (val_W 0) fr) (\<lambda>fr'. Inr (fr', mc))
       else if hasPrefix name ''float.'' then
         e_then (evalRef fo mc fr (instr_Arg i 0)) (\<lambda>a. case floatMathOp fo name a of
             None \<Rightarrow> Inl (UnknownIntrinsic name)
           | Some res \<Rightarrow> e_then (bind_result i res fr) (\<lambda>fr'. Inr (fr', mc)))
       else if hasPrefix name ''atomic.'' then
         e_then (evalRefs fo mc fr (in_Args i)) (\<lambda>args.
         e_then (atomicOp name args mc) (\<lambda>(res, mc'). case res of
             None \<Rightarrow> Inr (fr, mc')
           | Some v \<Rightarrow> e_then (bind_result i v fr) (\<lambda>fr'. Inr (fr', mc'))))
       else Inl (UnknownIntrinsic name)))"

section \<open>Dispatch\<close>

text \<open>\<open>execInstr\<close>, with what a call does as an argument; \<open>own\<close> is the function whose block is executing.\<close>

definition execInstr :: "float_ops \<Rightarrow> (instr \<Rightarrow> frame \<times> machine \<Rightarrow> trap + frame \<times> machine) \<Rightarrow> func \<Rightarrow> instr \<Rightarrow>
    frame \<times> machine \<Rightarrow> trap + frame \<times> machine" where
  "execInstr fo call own i st =
     (if in_Op i = OCall then call i st
      else if in_Op i = OSafepoint \<or> in_Op i = ONop then Inr st
      else if op_IsLoad (in_Op i) then execLoad fo i st
      else if op_IsStore (in_Op i) then execStore fo i st
      else if op_IsAlloc (in_Op i) \<or> in_Op i = OAllocN then execAlloc fo i st
      else if in_Op i = OBlit then execBlit fo i st
      else if in_Op i = OIntrinsic then execIntrinsic fo i st
      else if in_Op i = OVaStart then execVaStart fo i st
      else if in_Op i = OVaArg then execVaArg fo i st
      else if in_Op i = OBlockAddr then
        (case Option.bind (instr_Blk i) (\<lambda>b. mc_blockAddr (snd st) (f_Name own, b)) of
           None \<Rightarrow> Inl NoBlockAddress
         | Some addr \<Rightarrow> e_then (bind_result i (ptrVal addr) (fst st)) (\<lambda>fr'. Inr (fr', snd st)))
      else e_then (evalValueOp fo (snd st) (fst st) i) (\<lambda>v.
           e_then (bind_result i (asClass (in_Cls i) v) (fst st)) (\<lambda>fr'. Inr (fr', snd st))))"

end
