(* ===== verification/Interp_Run.thy ===== *)
theory Interp_Run
  imports Interp_Ops
begin

text \<open>
  Execution in the interpreter (\<open>interp/exec.go\<close>, \<open>interp/frame.go\<close>): phi transfer, terminators,
  calls and the loop over blocks.  The loop may run forever, so \<open>run\<close> takes a number of block
  entries it may still make and answers \<open>OutOfSteps\<close> when they are used up; calls get the same
  allowance.  External functions are the argument \<open>ext\<close>.
\<close>

section \<open>Phi transfer\<close>

text \<open>A block as the machine knows it, across functions.\<close>

type_synonym block_ref = "string \<times> bptr"

definition phi_index :: "string \<Rightarrow> block_ref option \<Rightarrow> bptr option list \<Rightarrow> nat option" where
  "phi_index owner from preds =
     (let k = length (takeWhile (\<lambda>p. map_option (Pair owner) p \<noteq> from) preds) in if k < length preds then Some k else None)"

definition stage_phi :: "float_ops \<Rightarrow> machine \<Rightarrow> func \<Rightarrow> bptr \<Rightarrow> block_ref option \<Rightarrow> frame \<Rightarrow> phi \<Rightarrow> trap + val" where
  "stage_phi fo mc own b from fr p = (case phi_index (f_Name own) from (p_Blocks p) of
     None \<Rightarrow> Inl (NoPhiArgument (b_Name (blk own b)))
   | Some k \<Rightarrow> if k < length (p_Args p) then e_then (evalRef fo mc fr (p_Args p ! k)) (\<lambda>v. Inr (asClass (p_Cls p) v))
       else Inl GoPanic)"

definition resolvePhis :: "float_ops \<Rightarrow> machine \<Rightarrow> func \<Rightarrow> bptr \<Rightarrow> block_ref option \<Rightarrow> frame \<Rightarrow> trap + frame" where
  "resolvePhis fo mc own b from fr =
     (let phis = b_Phis (blk own b) in
      e_then (e_fold (\<lambda>p staged. e_then (stage_phi fo mc own b from fr p) (\<lambda>v. Inr (staged @ [v]))) phis []) (\<lambda>staged.
      e_fold (\<lambda>(p, v) fr'. set_val (p_To p) v fr') (zip phis staged) fr))"

section \<open>Terminators\<close>

datatype transfer = Next func "bptr option" | Return val

definition switchMatch :: "cls \<Rightarrow> bool \<Rightarrow> val \<Rightarrow> i64 \<Rightarrow> bool" where
  "switchMatch argCls isSigned v caseVal \<longleftrightarrow>
     (if isSigned then asSigned argCls (val_i64 v) = asSigned argCls caseVal else val_u64 v = asUnsigned argCls caseVal)"

definition switch_target :: "jmp \<Rightarrow> cls \<Rightarrow> val \<Rightarrow> bptr option" where
  "switch_target j argCls v = (case find (\<lambda>c. switchMatch argCls (j_Signed j) v (sc_Val c)) (j_Cases j) of
     Some c \<Rightarrow> sc_Blk c | None \<Rightarrow> j_To j)"

definition execTerminator :: "float_ops \<Rightarrow> machine \<Rightarrow> func \<Rightarrow> frame \<Rightarrow> jmp \<Rightarrow> trap + transfer" where
  "execTerminator fo mc own fr j = (case j_Kind j of
     JmpJmp \<Rightarrow> Inr (Next own (j_To j))
   | JmpJnz \<Rightarrow> e_then (evalRef fo mc fr (j_Arg j)) (\<lambda>v. Inr (Next own (if val_u64 v \<noteq> 0 then j_To j else j_To2 j)))
   | JmpRet \<Rightarrow>
       if ref_IsNone (j_Arg j) then Inr (Return val0)
       else e_then (evalRef fo mc fr (j_Arg j)) (\<lambda>v.
         Inr (Return (if f_HasRet (fr_fn fr) \<and> f_RetAgg (fr_fn fr) = None then asClass (f_Retty (fr_fn fr)) v else v)))
   | JmpHlt \<Rightarrow> Inl HltReached
   | JmpSwitch \<Rightarrow> e_then (evalRef fo mc fr (j_Arg j)) (\<lambda>v. case ClassOf (fr_fn fr) (j_Arg j) of
         None \<Rightarrow> Inl GoPanic
       | Some argCls \<Rightarrow> Inr (Next own (switch_target j argCls v)))
   | JmpTable \<Rightarrow> e_then (evalRef fo mc fr (j_Arg j)) (\<lambda>v. let idx = val_u64 v in
         if unat idx \<ge> length (j_Targets j) then Inl (TableIndex idx) else Inr (Next own (j_Targets j ! unat idx)))
   | JmpBr \<Rightarrow> e_then (evalRef fo mc fr (j_Arg j)) (\<lambda>v. case mc_blockAt mc (val_u64 v) of
         None \<Rightarrow> Inl (NotABlockAddress (val_u64 v))
       | Some (g, b) \<Rightarrow> Inr (Next g (Some b)))
   | JmpNone \<Rightarrow> Inl Unterminated)"

section \<open>Calls\<close>

type_synonym extern = "val list \<Rightarrow> machine \<Rightarrow> trap + val \<times> machine"
type_synonym callee = "func \<Rightarrow> val list \<Rightarrow> machine \<Rightarrow> trap + val \<times> machine"

text \<open>Copying an aggregate into fresh stack storage, for an argument and for a result.\<close>

definition copy_agg :: "aggtype \<Rightarrow> val \<Rightarrow> machine \<Rightarrow> trap + val \<times> machine" where
  "copy_agg t v mc = (let (sz, align) = Layout t in
     case stackAlloc (of_int sz) (of_int align) mc of
       None \<Rightarrow> Inl Diverges
     | Some (buf, mc1) \<Rightarrow> e_then (copyMem buf (val_u64 v) sz mc1) (\<lambda>mc2. Inr (ptrVal buf, mc2)))"

definition eval_call_arg :: "float_ops \<Rightarrow> instr \<Rightarrow> frame \<Rightarrow> nat \<times> ref \<Rightarrow> val list \<times> machine \<Rightarrow> trap + val list \<times> machine" where
  "eval_call_arg fo i fr = (\<lambda>(k, a) (args, mc).
     e_then (evalRef fo mc fr a) (\<lambda>v.
       case (if k < length (instr_AggArgs i) then instr_AggArgs i ! k else None) of
         None \<Rightarrow> Inr (args @ [v], mc)
       | Some t \<Rightarrow> e_then (copy_agg t v mc) (\<lambda>(w, mc'). Inr (args @ [w], mc'))))"

definition doIRCall :: "float_ops \<Rightarrow> callee \<Rightarrow> instr \<Rightarrow> func \<Rightarrow> frame \<times> machine \<Rightarrow> trap + frame \<times> machine" where
  "doIRCall fo call i f = (\<lambda>(fr, mc).
     e_then (e_fold (eval_call_arg fo i fr) (zip [0..<length (in_Args i) - 1] (tl (in_Args i))) ([], mc)) (\<lambda>(args, mc1).
     e_then (call f args mc1) (\<lambda>(ret, mc2).
     e_then (case instr_RetAgg i of None \<Rightarrow> Inr (ret, mc2) | Some t \<Rightarrow> copy_agg t ret mc2) (\<lambda>(ret', mc3).
     e_then (bind_result i (asClass (in_Cls i) ret') fr) (\<lambda>fr'. Inr (fr', mc3))))))"

definition doExternCall :: "float_ops \<Rightarrow> extern \<Rightarrow> instr \<Rightarrow> frame \<times> machine \<Rightarrow> trap + frame \<times> machine" where
  "doExternCall fo e i = (\<lambda>(fr, mc).
     e_then (evalRefs fo mc fr (tl (in_Args i))) (\<lambda>args.
     e_then (e args mc) (\<lambda>(ret, mc').
     e_then (bind_result i (asClass (in_Cls i) ret) fr) (\<lambda>fr'. Inr (fr', mc')))))"

definition dispatchCall :: "float_ops \<Rightarrow> (string \<Rightarrow> extern option) \<Rightarrow> callee \<Rightarrow> instr \<Rightarrow> string \<Rightarrow> frame \<times> machine \<Rightarrow> trap + frame \<times> machine" where
  "dispatchCall fo ext call i name st = (case mc_funcs (snd st) name of
     Some f \<Rightarrow> doIRCall fo call i f st
   | None \<Rightarrow> (case ext name of Some e \<Rightarrow> doExternCall fo e i st | None \<Rightarrow> Inl (UndefinedFunction name)))"

text \<open>A call through a value; \<open>externs[name]\<close> of an unregistered name is a nil function.\<close>

definition indirect_call :: "float_ops \<Rightarrow> (string \<Rightarrow> extern option) \<Rightarrow> callee \<Rightarrow> instr \<Rightarrow> ref \<Rightarrow> frame \<times> machine \<Rightarrow> trap + frame \<times> machine" where
  "indirect_call fo ext call i callee st =
     e_then (evalRef fo (snd st) (fst st) callee) (\<lambda>addr.
       case mc_funcAt (snd st) (val_u64 addr) of
         Some f \<Rightarrow> doIRCall fo call i f st
       | None \<Rightarrow> (case mc_externAt (snd st) (val_u64 addr) of
           Some name \<Rightarrow> (case ext name of Some e \<Rightarrow> doExternCall fo e i st | None \<Rightarrow> Inl GoPanic)
         | None \<Rightarrow> Inl (NotAFunction (val_u64 addr))))"

definition execCall :: "float_ops \<Rightarrow> (string \<Rightarrow> extern option) \<Rightarrow> callee \<Rightarrow> instr \<Rightarrow> frame \<times> machine \<Rightarrow> trap + frame \<times> machine" where
  "execCall fo ext call i st = (case in_Args i of
     [] \<Rightarrow> Inl NoCallee
   | callee # _ \<Rightarrow>
       if r_Kind callee = RefConst then
         (if r_ID callee \<ge> length (f_Consts (fr_fn (fst st))) then Inl GoPanic
          else let c = f_Consts (fr_fn (fst st)) ! r_ID callee in
            if c_Kind c = ConstSym then dispatchCall fo ext call i (c_Sym c) st else indirect_call fo ext call i callee st)
       else indirect_call fo ext call i callee st)"

section \<open>The loop\<close>

text \<open>\<open>True\<close> when the budget just ran out.\<close>

definition tick :: "machine \<Rightarrow> bool \<times> machine" where
  "tick mc = (if mc_fuel mc > 0 then let mc' = mc\<lparr>mc_fuel := mc_fuel mc - 1\<rparr> in (mc_fuel mc' = 0, mc') else (False, mc))"

definition exec_step :: "float_ops \<Rightarrow> (string \<Rightarrow> extern option) \<Rightarrow> callee \<Rightarrow> func \<Rightarrow> instr \<Rightarrow> frame \<times> machine \<Rightarrow> trap + frame \<times> machine" where
  "exec_step fo ext call own i = (\<lambda>(fr, mc). case tick mc of
     (True, _) \<Rightarrow> Inl FuelExhausted
   | (False, mc') \<Rightarrow> execInstr fo (execCall fo ext call) own i (fr, mc'))"

text \<open>One iteration of the loop of \<open>run\<close>.\<close>

definition exec_block :: "float_ops \<Rightarrow> (string \<Rightarrow> extern option) \<Rightarrow> callee \<Rightarrow> func \<Rightarrow> block_ref option \<Rightarrow> bptr \<Rightarrow> frame \<times> machine \<Rightarrow>
    trap + transfer \<times> frame \<times> machine" where
  "exec_block fo ext call own from cur = (\<lambda>(fr, mc).
     e_then (resolvePhis fo mc own cur from fr) (\<lambda>fr1.
     e_then (e_fold (exec_step fo ext call own) (b_Instrs (blk own cur)) (fr1, mc)) (\<lambda>(fr2, mc2).
     e_then (execTerminator fo mc2 own fr2 (b_Jmp (blk own cur))) (\<lambda>t. Inr (t, fr2, mc2)))))"

text \<open>\<open>callFunc\<close> around a given loop.\<close>

definition bind_params :: "func \<Rightarrow> val list \<Rightarrow> frame \<Rightarrow> trap + frame" where
  "bind_params f args fr = e_fold (\<lambda>(p, a) fr'. if p < length (f_Temps f)
     then set_val (tempRef (t_ID (f_Temps f ! p))) (asClass (t_Cls (f_Temps f ! p)) a) fr' else Inl GoPanic) (zip (f_Params f) args) fr"

definition callFunc_with :: "(func \<Rightarrow> block_ref option \<Rightarrow> bptr option \<Rightarrow> frame \<times> machine \<Rightarrow> trap + val \<times> machine) \<Rightarrow> callee" where
  "callFunc_with loop f args mc =
     (let np = length (f_Params f) in
      if length args < np \<or> length args > np \<and> \<not> f_Variadic f then Inl (WrongArity (f_Name f) (length args) np)
      else if mc_depth mc \<ge> mc_maxDepth mc then Inl (TooDeep (mc_depth mc))
      else e_then (bind_params f args \<lparr>fr_fn = f, fr_vals = replicate (length (f_Temps f)) val0,
               fr_varargs = (if f_Variadic f then drop np args else []), fr_spBase = mc_sp mc\<rparr>) (\<lambda>fr.
        e_then (loop f None (f_Start f) (fr, mc\<lparr>mc_depth := mc_depth mc + 1\<rparr>)) (\<lambda>(ret, mc').
        Inr (ret, mc'\<lparr>mc_depth := mc_depth mc' - 1, mc_sp := fr_spBase fr\<rparr>))))"

primrec run :: "nat \<Rightarrow> float_ops \<Rightarrow> (string \<Rightarrow> extern option) \<Rightarrow> func \<Rightarrow> block_ref option \<Rightarrow> bptr option \<Rightarrow> frame \<times> machine \<Rightarrow> trap + val \<times> machine" where
  "run 0 fo ext own from cur st = Inl OutOfSteps"
| "run (Suc n) fo ext own from cur st = (case cur of
     None \<Rightarrow> Inl GoPanic
   | Some b \<Rightarrow> e_then (exec_block fo ext (callFunc_with (run n fo ext)) own from b st) (\<lambda>(t, st'). case t of
         Return v \<Rightarrow> Inr (v, snd st')
       | Next g c \<Rightarrow> run n fo ext g (Some (f_Name own, b)) c st'))"

definition callFunc :: "nat \<Rightarrow> float_ops \<Rightarrow> (string \<Rightarrow> extern option) \<Rightarrow> callee" where
  "callFunc n fo ext = callFunc_with (run n fo ext)"

text \<open>\<open>Call\<close> on the tree walker; \<open>None\<close> of the name is its \<open>no function\<close> error.\<close>

definition Call :: "nat \<Rightarrow> float_ops \<Rightarrow> (string \<Rightarrow> extern option) \<Rightarrow> string \<Rightarrow> val list \<Rightarrow> machine \<Rightarrow> trap + val \<times> machine" where
  "Call n fo ext name args mc = (case mc_funcs mc name of
     None \<Rightarrow> Inl (UndefinedFunction name)
   | Some f \<Rightarrow> callFunc n fo ext f args mc)"

section \<open>More steps change nothing\<close>

text \<open>A result is below another when it ran out of steps or is the same.\<close>

definition le_out :: "trap + 'a \<Rightarrow> trap + 'a \<Rightarrow> bool" where
  "le_out x y \<longleftrightarrow> x = Inl OutOfSteps \<or> x = y"

lemma le_out_refl [simp]: "le_out x x"
  by (simp add: le_out_def)

lemma le_out_then: "le_out a b \<Longrightarrow> (\<And>x. le_out (k x) (l x)) \<Longrightarrow> le_out (e_then a k) (e_then b l)"
  by (auto simp: le_out_def e_then_def split: sum.splits)

lemma le_out_fold: "(\<And>x s. le_out (f x s) (g x s)) \<Longrightarrow> le_out (e_fold f xs s) (e_fold g xs s)"
proof (induction xs arbitrary: s)
  case (Cons x xs)
  have "e_fold h (x # xs) s = e_then (h x s) (e_fold h xs)" for h :: "'a \<Rightarrow> 'b \<Rightarrow> trap + 'b" by (simp add: e_then_def)
  then show ?case using Cons le_out_then[of "f x s" "g x s"] by metis
qed simp

definition le_call :: "callee \<Rightarrow> callee \<Rightarrow> bool" where
  "le_call c d \<longleftrightarrow> (\<forall>f args mc. le_out (c f args mc) (d f args mc))"

lemma le_doIRCall: "le_call c d \<Longrightarrow> le_out (doIRCall fo c i f st) (doIRCall fo d i f st)"
  unfolding doIRCall_def le_call_def by (auto split: prod.splits intro!: le_out_then)

lemma le_indirect_call: "le_call c d \<Longrightarrow> le_out (indirect_call fo ext c i r st) (indirect_call fo ext d i r st)"
  unfolding indirect_call_def by (intro le_out_then) (auto split: option.splits simp: le_doIRCall)

lemma le_execCall: "le_call c d \<Longrightarrow> le_out (execCall fo ext c i st) (execCall fo ext d i st)"
  by (auto simp: execCall_def dispatchCall_def Let_def le_doIRCall le_indirect_call split: list.splits option.splits)

lemma le_exec_step: "le_call c d \<Longrightarrow> le_out (exec_step fo ext c own i st) (exec_step fo ext d own i st)"
  by (auto simp: exec_step_def execInstr_def le_execCall split: prod.splits bool.splits)

lemma le_exec_block: "le_call c d \<Longrightarrow> le_out (exec_block fo ext c own from b st) (exec_block fo ext d own from b st)"
  unfolding exec_block_def by (auto split: prod.splits intro!: le_out_then le_out_fold le_exec_step)

lemma le_callFunc_with:
  "(\<And>f from c st. le_out (l1 f from c st) (l2 f from c st)) \<Longrightarrow> le_call (callFunc_with l1) (callFunc_with l2)"
  unfolding callFunc_with_def le_call_def Let_def by (auto intro!: le_out_then)

lemma le_run_Suc: "le_out (run n fo ext own from cur st) (run (Suc n) fo ext own from cur st)"
proof (induction n arbitrary: own "from" cur st)
  case 0
  then show ?case by (simp add: le_out_def)
next
  case (Suc n)
  have c: "le_call (callFunc_with (run n fo ext)) (callFunc_with (run (Suc n) fo ext))" using le_callFunc_with Suc.IH by metis
  show ?case
  proof (cases cur)
    case (Some b)
    have "le_out (case t of Return v \<Rightarrow> Inr (v, snd st') | Next g c \<Rightarrow> run n fo ext g (Some (f_Name own, b)) c st')
        (case t of Return v \<Rightarrow> Inr (v, snd st') | Next g c \<Rightarrow> run (Suc n) fo ext g (Some (f_Name own, b)) c st')" for t st'
      using Suc.IH by (cases t) auto
    then have "le_out (case x of (t, st') \<Rightarrow> case t of Return v \<Rightarrow> Inr (v, snd st') | Next g c \<Rightarrow> run n fo ext g (Some (f_Name own, b)) c st')
        (case x of (t, st') \<Rightarrow> case t of Return v \<Rightarrow> Inr (v, snd st') | Next g c \<Rightarrow> run (Suc n) fo ext g (Some (f_Name own, b)) c st')" for x
      by (cases x) (simp only: prod.case)
    moreover have "run (Suc k) fo ext own from cur st = e_then (exec_block fo ext (callFunc_with (run k fo ext)) own from b st)
        (\<lambda>x. case x of (t, st') \<Rightarrow> case t of Return v \<Rightarrow> Inr (v, snd st') | Next g c \<Rightarrow> run k fo ext g (Some (f_Name own, b)) c st')" for k
      by (simp add: Some)
    ultimately show ?thesis using le_exec_block[OF c] by (simp only: le_out_then)
  qed simp
qed

lemma le_run: "n \<le> m \<Longrightarrow> le_out (run n fo ext own from cur st) (run m fo ext own from cur st)"
proof (induction rule: dec_induct)
  case (step m)
  then show ?case using le_run_Suc[of m fo ext own "from" cur st] unfolding le_out_def by metis
qed simp

text \<open>
  The number of steps the model grants does not matter once it is enough: a call that returned
  or trapped with some allowance does the same with every larger one.
\<close>

theorem callFunc_steps:
  assumes "callFunc n fo ext f args mc \<noteq> Inl OutOfSteps" "n \<le> m"
  shows "callFunc m fo ext f args mc = callFunc n fo ext f args mc"
proof -
  have "le_call (callFunc n fo ext) (callFunc m fo ext)" unfolding callFunc_def by (intro le_callFunc_with le_run assms(2))
  then show ?thesis using assms(1) unfolding le_call_def le_out_def by metis
qed

text \<open>An instance: a block that only halts.\<close>

definition halt_func :: func where
  "halt_func = func0\<lparr>f_Start := Some 0, f_Blocks := [0], f_arena := [block0\<lparr>b_Jmp := jmp0\<lparr>j_Kind := JmpHlt\<rparr>\<rparr>]\<rparr>"

definition bare_machine :: machine where
  "bare_machine = \<lparr>mc_funcs = Map.empty, mc_mem = newMemory, mc_syms = Map.empty, mc_funcAt = Map.empty, mc_externAt = Map.empty,
     mc_blockAddr = Map.empty, mc_blockAt = Map.empty, mc_sp = 0x70000000, mc_heapNext = 0x40000000, mc_commonNext = 0x20000000, mc_textNext = 0x1000,
     mc_vaLists = [], mc_depth = 0, mc_stdout = [], mc_fuel = 0, mc_maxDepth = 100000, mc_divZeroZero = False\<rparr>"

lemma callFunc_halt: "callFunc 1 fo ext halt_func [] bare_machine = Inl HltReached"
  by (simp add: callFunc_def callFunc_with_def bind_params_def exec_block_def resolvePhis_def Let_def halt_func_def bare_machine_def func0_def
      blk_def block0_def jmp0_def execTerminator_def e_then_def)

theorem callFunc_steps_witness: "\<forall>fo ext. callFunc 50 fo ext halt_func [] bare_machine = Inl HltReached"
proof (intro allI)
  fix fo ext
  have "callFunc 1 fo ext halt_func [] bare_machine \<noteq> Inl OutOfSteps" by (simp add: callFunc_halt[unfolded One_nat_def])
  from callFunc_steps[OF this, of 50] show "callFunc 50 fo ext halt_func [] bare_machine = Inl HltReached" by (simp add: callFunc_halt[unfolded One_nat_def])
qed

section \<open>What execution keeps of the machine\<close>

text \<open>The loaded image and the call depth, and how the fuel counter may move.\<close>

definition image_of :: "machine \<Rightarrow> machine" where
  "image_of mc = mc\<lparr>mc_mem := newMemory, mc_sp := 0, mc_heapNext := 0, mc_vaLists := [], mc_stdout := [], mc_fuel := 0\<rparr>"

definition charged :: "machine \<Rightarrow> machine \<Rightarrow> bool" where
  "charged mc mc' \<longleftrightarrow> image_of mc' = image_of mc \<and>
     (if mc_fuel mc > 0 then 0 < mc_fuel mc' \<and> mc_fuel mc' \<le> mc_fuel mc else mc_fuel mc' = mc_fuel mc)"

lemma charged_refl [simp]: "charged mc mc"
  by (simp add: charged_def)

lemma charged_trans [trans]: "charged a b \<Longrightarrow> charged b c \<Longrightarrow> charged a c"
  by (auto simp: charged_def split: if_splits)

lemma charged_less:
  "charged a b \<Longrightarrow> mc_fuel a > 0 \<longrightarrow> mc_fuel b < mc_fuel a \<Longrightarrow> charged b c \<Longrightarrow> mc_fuel a > 0 \<longrightarrow> mc_fuel c < mc_fuel a"
  by (auto simp: charged_def)

lemma charged_update [simp]:
  "charged mc (mc\<lparr>mc_mem := m\<rparr>)" "charged mc (mc\<lparr>mc_sp := a\<rparr>)" "charged mc (mc\<lparr>mc_sp := a, mc_mem := m\<rparr>)"
  "charged mc (mc\<lparr>mc_vaLists := vs\<rparr>)" "charged mc (mc\<lparr>mc_vaLists := vs, mc_mem := m\<rparr>)"
  "charged mc (mc\<lparr>mc_stdout := out\<rparr>)" "charged mc (mc\<lparr>mc_mem := m, mc_heapNext := a\<rparr>)" "charged mc (mc\<lparr>mc_heapNext := a, mc_mem := m\<rparr>)"
  by (simp_all add: charged_def image_of_def)

lemma image_of_fields:
  "image_of mc' = image_of mc \<Longrightarrow> mc_funcs mc' = mc_funcs mc \<and> mc_funcAt mc' = mc_funcAt mc \<and> mc_blockAt mc' = mc_blockAt mc \<and>
     mc_syms mc' = mc_syms mc \<and> mc_externAt mc' = mc_externAt mc \<and> mc_blockAddr mc' = mc_blockAddr mc \<and>
     mc_depth mc' = mc_depth mc \<and> mc_maxDepth mc' = mc_maxDepth mc \<and> mc_divZeroZero mc' = mc_divZeroZero mc"
  by (cases mc; cases mc') (simp add: image_of_def)

lemma case_Inr [simp]:
  "(case x of None \<Rightarrow> Inl e | Some y \<Rightarrow> k y) = Inr z \<longleftrightarrow> (\<exists>y. x = Some y \<and> k y = Inr z)"
  "(case p of (False, _) \<Rightarrow> Inl e | (True, m) \<Rightarrow> l m) = Inr z \<longleftrightarrow> (\<exists>m. p = (True, m) \<and> l m = Inr z)"
  "(if b then Inl e else r) = Inr z \<longleftrightarrow> \<not> b \<and> r = Inr z"
  by (auto split: option.splits prod.splits bool.splits)

lemma stackAlloc_charged: "stackAlloc sz al mc = Some (a, mc') \<Longrightarrow> charged mc mc'"
  by (auto simp: stackAlloc_def Let_def)

lemma copyMem_charged: "copyMem d a n mc = Inr mc' \<Longrightarrow> charged mc mc'"
  by (auto simp: copyMem_def)

lemma copy_agg_charged: "copy_agg t v mc = Inr (w, mc') \<Longrightarrow> charged mc mc'"
  by (auto simp: copy_agg_def split: prod.splits dest!: stackAlloc_charged copyMem_charged intro: charged_trans)

lemma atomic_store_charged: "atomic_store a n v mc = Inr mc' \<Longrightarrow> charged mc mc'"
  by (auto simp: atomic_store_def)

lemma atomicOp_charged: "atomicOp name args mc = Inr (r, mc') \<Longrightarrow> charged mc mc'"
  by (auto simp: atomicOp_def Let_def split: prod.splits if_splits dest!: atomic_store_charged)

lemma execIntrinsic_charged: "execIntrinsic fo i (fr, mc) = Inr (fr', mc') \<Longrightarrow> charged mc mc'"
  by (auto simp: execIntrinsic_def Let_def split: if_splits option.splits dest!: atomicOp_charged)

lemma execVaArg_charged: "execVaArg fo i (fr, mc) = Inr (fr', mc') \<Longrightarrow> charged mc mc'"
  by (auto simp: execVaArg_def)

lemma execVaStart_charged: "execVaStart fo i (fr, mc) = Inr (fr', mc') \<Longrightarrow> charged mc mc'"
  by (auto simp: execVaStart_def Let_def)

lemma execStore_charged: "execStore fo i (fr, mc) = Inr (fr', mc') \<Longrightarrow> charged mc mc'"
  by (auto simp: execStore_def Let_def)

lemma execAlloc_charged: "execAlloc fo i (fr, mc) = Inr (fr', mc') \<Longrightarrow> charged mc mc'"
  by (auto simp: execAlloc_def Let_def dest!: stackAlloc_charged)

lemma execBlit_charged: "execBlit fo i (fr, mc) = Inr (fr', mc') \<Longrightarrow> charged mc mc'"
  by (auto simp: execBlit_def dest!: copyMem_charged)

lemma execInstr_charged:
  assumes "execInstr fo call own i (fr, mc) = Inr (fr', mc')" "\<And>fr' mc'. call i (fr, mc) = Inr (fr', mc') \<Longrightarrow> charged mc mc'"
  shows "charged mc mc'"
  using assms(1) unfolding execInstr_def fst_conv snd_conv
  by (auto split: if_splits option.splits simp: execLoad_def dest!: assms(2) execStore_charged execAlloc_charged execBlit_charged
      execIntrinsic_charged execVaStart_charged execVaArg_charged)

lemma tick_charged: "tick mc = (False, mc') \<Longrightarrow> charged mc mc' \<and> (mc_fuel mc > 0 \<longrightarrow> mc_fuel mc' = mc_fuel mc - 1)"
  by (auto simp: tick_def Let_def charged_def image_of_def split: if_splits)

lemma charged_depth:
  "charged (mc\<lparr>mc_depth := Suc (mc_depth mc)\<rparr>) mc1 \<Longrightarrow> charged mc (mc1\<lparr>mc_depth := mc_depth mc1 - Suc 0, mc_sp := a\<rparr>)"
  by (cases mc; cases mc1) (auto simp: charged_def image_of_def split: if_splits)

lemma callFunc_with_charged:
  assumes "\<And>f from c fr mc v mc'. loop f from c (fr, mc) = Inr (v, mc') \<Longrightarrow> charged mc mc'" "callFunc_with loop f args mc = Inr (v, mc')"
  shows "charged mc mc' \<and> mc_sp mc' = mc_sp mc"
proof -
  obtain fr mc1 where "bind_params f args \<lparr>fr_fn = f, fr_vals = replicate (length (f_Temps f)) val0,
      fr_varargs = (if f_Variadic f then drop (length (f_Params f)) args else []), fr_spBase = mc_sp mc\<rparr> = Inr fr"
    and l: "loop f None (f_Start f) (fr, mc\<lparr>mc_depth := Suc (mc_depth mc)\<rparr>) = Inr (v, mc1)"
    and mc': "mc' = mc1\<lparr>mc_depth := mc_depth mc1 - Suc 0, mc_sp := fr_spBase fr\<rparr>"
    using assms(2) by (auto simp: callFunc_with_def Let_def)
  moreover have "fr_spBase y = fr_spBase x" if "bind_params f args x = Inr y" for x y
  proof -
    have "e_fold (\<lambda>(p, a) fr'. if p < length (f_Temps f) then set_val (tempRef (t_ID (f_Temps f ! p))) (asClass (t_Cls (f_Temps f ! p)) a) fr'
       else Inl GoPanic) ps x = Inr y \<Longrightarrow> fr_spBase y = fr_spBase x" for ps x y
    proof (induction ps arbitrary: x)
      case (Cons q ps)
      then show ?case by (cases q) (fastforce simp: set_val_def split: if_splits sum.splits)
    qed simp
    then show ?thesis using that by (simp add: bind_params_def)
  qed
  ultimately show ?thesis using charged_depth[OF assms(1)[OF l]] by fastforce
qed

lemma call_args_charged: "e_fold (eval_call_arg fo i fr) xs (vs, m) = Inr (vs', m') \<Longrightarrow> charged m m'"
proof (induction xs arbitrary: vs m)
  case (Cons x xs)
  obtain vs1 m1 where s: "eval_call_arg fo i fr x (vs, m) = Inr (vs1, m1)" "e_fold (eval_call_arg fo i fr) xs (vs1, m1) = Inr (vs', m')"
    using Cons.prems by (auto split: sum.splits)
  have "charged m m1" using s(1) by (cases x) (auto simp: eval_call_arg_def split: option.splits if_splits dest!: copy_agg_charged)
  then show ?case using Cons.IH[OF s(2)] charged_trans by blast
qed simp

definition call_charged :: "callee \<Rightarrow> bool" where
  "call_charged call \<longleftrightarrow> (\<forall>f args mc v mc'. call f args mc = Inr (v, mc') \<longrightarrow> charged mc mc')"

subsection \<open>Where an allowance can run out\<close>

lemma e_then_Inl [simp]: "e_then a k = Inl e \<longleftrightarrow> a = Inl e \<or> (\<exists>x. a = Inr x \<and> k x = Inl e)"
  by (auto simp: e_then_def split: sum.splits)

lemma operands_end [simp]:
  "evalConst fo mc c \<noteq> Inl OutOfSteps" "evalRef fo mc fr r \<noteq> Inl OutOfSteps" "set_val r v fr \<noteq> Inl OutOfSteps" "bind_result i v fr \<noteq> Inl OutOfSteps"
  by (auto simp: evalConst_def evalRef_def set_val_def bind_result_def split: constKind.splits refkind.splits option.splits)

lemma binops_end [simp]: "intBinop z o' c a b \<noteq> Inl OutOfSteps" "floatBinop fo o' c a b \<noteq> Inl OutOfSteps"
  by (auto simp: intBinop_def floatBinop_def Let_def)

lemma evalValueOp_ends [simp]: "evalValueOp fo mc fr i \<noteq> Inl OutOfSteps"
  by (auto simp: evalValueOp_def interp_evalCmp_def Let_def split: option.splits)

lemma load_value_ends [simp]: "load_value mc i a \<noteq> Inl OutOfSteps"
  by (auto simp: load_value_def memLoad_def Let_def split: option.splits)

lemma copyMem_ends [simp]: "copyMem d a n mc \<noteq> Inl OutOfSteps"
  by (auto simp: copyMem_def read_for_copy_def split: option.splits prod.splits bool.splits)

lemma copy_agg_ends [simp]: "copy_agg t v mc \<noteq> Inl OutOfSteps"
  by (auto simp: copy_agg_def split: option.splits prod.splits)

lemma evalRefs_ends [simp]: "evalRefs fo mc fr rs \<noteq> Inl OutOfSteps"
proof -
  have "e_fold (\<lambda>r vs. e_then (evalRef fo mc fr r) (\<lambda>v. Inr (vs @ [v]))) rs vs \<noteq> Inl OutOfSteps" for vs
    by (induction rs arbitrary: vs) (auto split: sum.splits)
  then show ?thesis by (simp add: evalRefs_def)
qed

lemma atomicOp_ends [simp]: "atomicOp name args mc \<noteq> Inl OutOfSteps"
  by (auto simp: atomicOp_def atomic_store_def nth_arg_def memLoad_def Let_def split: prod.splits bool.splits option.splits)

lemma execIntrinsic_ends [simp]: "execIntrinsic fo i st \<noteq> Inl OutOfSteps"
  by (auto simp: execIntrinsic_def Let_def split: option.splits prod.splits)

lemma memory_ops_end [simp]:
  "execLoad fo i st \<noteq> Inl OutOfSteps" "execStore fo i st \<noteq> Inl OutOfSteps" "execAlloc fo i st \<noteq> Inl OutOfSteps" "execBlit fo i st \<noteq> Inl OutOfSteps"
  "execVaStart fo i st \<noteq> Inl OutOfSteps" "execVaArg fo i st \<noteq> Inl OutOfSteps"
  by (auto simp: execLoad_def execStore_def execAlloc_def execBlit_def execVaStart_def execVaArg_def Let_def
      split: option.splits prod.splits bool.splits if_splits)

lemma execInstr_ends: "execInstr fo call own i st = Inl OutOfSteps \<Longrightarrow> call i st = Inl OutOfSteps"
  by (auto simp: execInstr_def split: if_splits option.splits)

lemma resolvePhis_ends [simp]: "resolvePhis fo mc own b from fr \<noteq> Inl OutOfSteps"
proof -
  have "stage_phi fo mc own b from fr p \<noteq> Inl OutOfSteps" for p by (auto simp: stage_phi_def split: option.splits if_splits)
  then have "e_fold (\<lambda>p staged. e_then (stage_phi fo mc own b from fr p) (\<lambda>v. Inr (staged @ [v]))) ps vs \<noteq> Inl OutOfSteps" for ps vs
    by (induction ps arbitrary: vs) (auto split: sum.splits)
  moreover have "e_fold (\<lambda>(p, v) fr'. set_val (p_To p) v fr') xs fr0 \<noteq> Inl OutOfSteps" for xs fr0
    by (induction xs arbitrary: fr0) (auto split: sum.splits prod.splits)
  ultimately show ?thesis by (auto simp: resolvePhis_def Let_def)
qed

lemma execTerminator_ends [simp]: "execTerminator fo mc own fr j \<noteq> Inl OutOfSteps"
  by (auto simp: execTerminator_def Let_def split: jmpKind.splits option.splits)

lemma bind_params_ends [simp]: "bind_params f args fr \<noteq> Inl OutOfSteps"
proof -
  have "e_fold (\<lambda>(p, a) fr'. if p < length (f_Temps f) then set_val (tempRef (t_ID (f_Temps f ! p))) (asClass (t_Cls (f_Temps f ! p)) a) fr'
      else Inl GoPanic) ps fr \<noteq> Inl OutOfSteps" for ps
    by (induction ps arbitrary: fr) (auto split: sum.splits if_splits prod.splits)
  then show ?thesis by (simp add: bind_params_def)
qed

lemma call_args_end: "e_fold (eval_call_arg fo i fr) xs s \<noteq> Inl OutOfSteps"
proof (induction xs arbitrary: s)
  case (Cons x xs)
  have "eval_call_arg fo i fr x s \<noteq> Inl OutOfSteps" by (auto simp: eval_call_arg_def split: prod.splits option.splits)
  then show ?case using Cons.IH by (auto split: sum.splits)
qed simp

text \<open>Every block holds an instruction, in every function the machine can transfer control to.\<close>

definition busy :: "func \<Rightarrow> bool" where
  "busy f \<longleftrightarrow> (\<forall>b < length (f_arena f). b_Instrs (f_arena f ! b) \<noteq> [])"

definition image_busy :: "machine \<Rightarrow> bool" where
  "image_busy mc \<longleftrightarrow> (\<forall>f. (\<exists>x. mc_funcs mc x = Some f) \<or> (\<exists>a. mc_funcAt mc a = Some f) \<or> (\<exists>a b. mc_blockAt mc a = Some (f, b)) \<longrightarrow> busy f)"

lemma image_busy_charged: "charged mc mc' \<Longrightarrow> image_busy mc \<Longrightarrow> image_busy mc'"
  unfolding image_busy_def charged_def using image_of_fields by metis

lemma charged_fuel: "charged mc mc' \<Longrightarrow> 0 < mc_fuel mc \<Longrightarrow> mc_fuel mc \<le> n \<Longrightarrow> 0 < mc_fuel mc' \<and> mc_fuel mc' \<le> n"
  by (auto simp: charged_def)

definition call_ends :: "nat \<Rightarrow> callee \<Rightarrow> bool" where
  "call_ends n call \<longleftrightarrow> (\<forall>f args mc. busy f \<and> image_busy mc \<and> 0 < mc_fuel mc \<and> mc_fuel mc \<le> int n \<longrightarrow> call f args mc \<noteq> Inl OutOfSteps)"

lemma doIRCall_ends:
  assumes "call_ends n call" "busy f" "image_busy mc" "0 < mc_fuel mc" "mc_fuel mc \<le> int n"
  shows "doIRCall fo call i f (fr, mc) \<noteq> Inl OutOfSteps"
proof
  assume "doIRCall fo call i f (fr, mc) = Inl OutOfSteps"
  then obtain vs m1 where "e_fold (eval_call_arg fo i fr) (zip [0..<length (in_Args i) - 1] (tl (in_Args i))) ([], mc) = Inr (vs, m1)"
    and c: "call f vs m1 = Inl OutOfSteps"
    unfolding doIRCall_def by (auto simp: call_args_end split: option.splits)
  then have "charged mc m1" using call_args_charged by blast
  then show False using c assms charged_fuel image_busy_charged unfolding call_ends_def by metis
qed

subsection \<open>The contract of the external functions\<close>

locale externs =
  fixes ext :: "string \<Rightarrow> extern option"
  assumes extern_charged: "ext name = Some e \<Longrightarrow> e args mc = Inr (v, mc') \<Longrightarrow> charged mc mc'"
    and extern_ends: "ext name = Some e \<Longrightarrow> e args mc \<noteq> Inl OutOfSteps"
begin

lemma doExternCall_charged: "ext name = Some e \<Longrightarrow> doExternCall fo e i (fr, mc) = Inr (fr', mc') \<Longrightarrow> charged mc mc'"
  by (auto simp: doExternCall_def dest!: extern_charged)

lemma doIRCall_charged:
  assumes "call_charged call" "doIRCall fo call i f (fr, mc) = Inr (fr', mc')"
  shows "charged mc mc'"
proof -
  obtain vs m1 v m2 w where "e_fold (eval_call_arg fo i fr) (zip [0..<length (in_Args i) - 1] (tl (in_Args i))) ([], mc) = Inr (vs, m1)"
    and c: "call f vs m1 = Inr (v, m2)" and r: "(case instr_RetAgg i of None \<Rightarrow> Inr (v, m2) | Some t \<Rightarrow> copy_agg t v m2) = Inr (w, mc')"
    using assms(2) by (auto simp: doIRCall_def)
  then have "charged mc m1" "charged m1 m2" using call_args_charged assms(1) unfolding call_charged_def by blast+
  moreover have "charged m2 mc'" using r by (auto split: option.splits dest!: copy_agg_charged)
  ultimately show ?thesis using charged_trans by blast
qed

lemma execCall_charged:
  assumes "call_charged call" "execCall fo ext call i (fr, mc) = Inr (fr', mc')"
  shows "charged mc mc'"
proof -
  note c = doIRCall_charged[OF assms(1)] doExternCall_charged
  have "indirect_call fo ext call i r (fr, mc) = Inr (fr', mc') \<Longrightarrow> charged mc mc'" for r
    using c by (auto simp: indirect_call_def split: option.splits)
  then show ?thesis using assms(2) c by (auto simp: execCall_def dispatchCall_def Let_def split: list.splits option.splits if_splits)
qed

lemma exec_step_charged:
  assumes "call_charged call" "exec_step fo ext call own i (fr, mc) = Inr (fr', mc')"
  shows "charged mc mc' \<and> (mc_fuel mc > 0 \<longrightarrow> mc_fuel mc' < mc_fuel mc)"
proof -
  obtain m1 where m1: "tick mc = (False, m1)" "execInstr fo (execCall fo ext call) own i (fr, m1) = Inr (fr', mc')"
    using assms(2) by (auto simp: exec_step_def split: prod.splits bool.splits)
  then have b: "charged m1 mc'" using execInstr_charged execCall_charged[OF assms(1)] by blast
  have a: "charged mc m1" "mc_fuel mc > 0 \<longrightarrow> mc_fuel m1 < mc_fuel mc" using tick_charged[OF m1(1)] by auto
  show ?thesis using charged_trans[OF a(1) b] charged_less[OF a b] by blast
qed

lemma exec_steps_charged:
  assumes "call_charged call" "e_fold (exec_step fo ext call own) is (fr, mc) = Inr (fr', mc')"
  shows "charged mc mc' \<and> (mc_fuel mc > 0 \<and> is \<noteq> [] \<longrightarrow> mc_fuel mc' < mc_fuel mc)"
  using assms(2)
proof (induction "is" arbitrary: fr mc)
  case (Cons i "is")
  obtain fr1 m1 where s: "exec_step fo ext call own i (fr, mc) = Inr (fr1, m1)" "e_fold (exec_step fo ext call own) is (fr1, m1) = Inr (fr', mc')"
    using Cons.prems by (auto split: sum.splits)
  have a: "charged mc m1" "mc_fuel mc > 0 \<longrightarrow> mc_fuel m1 < mc_fuel mc" using exec_step_charged[OF assms(1) s(1)] by blast+
  have b: "charged m1 mc'" using Cons.IH[OF s(2)] by blast
  show ?case using charged_trans[OF a(1) b] charged_less[OF a b] by blast
qed simp

lemma run_charged: "run n fo ext own from cur (fr, mc) = Inr (v, mc') \<Longrightarrow> charged mc mc'"
proof (induction n arbitrary: own "from" cur fr mc v mc')
  case (Suc n)
  have call: "call_charged (callFunc_with (run n fo ext))"
    unfolding call_charged_def using callFunc_with_charged[of "run n fo ext"] Suc.IH by blast
  obtain b t fr1 fr2 m2 where b: "cur = Some b" "e_fold (exec_step fo ext (callFunc_with (run n fo ext)) own) (b_Instrs (blk own b)) (fr1, mc) = Inr (fr2, m2)"
    and t: "(case t of Return x \<Rightarrow> Inr (x, snd (fr2, m2)) | Next g c \<Rightarrow> run n fo ext g (Some (f_Name own, b)) c (fr2, m2)) = Inr (v, mc')"
    using Suc.prems by (auto simp: exec_block_def)
  have "charged mc m2" using exec_steps_charged[OF call b(2)] by blast
  moreover have "charged m2 mc'" using t Suc.IH by (cases t) auto
  ultimately show ?case using charged_trans by blast
qed simp

lemma execCall_ends:
  assumes "call_ends n call" "image_busy mc" "0 < mc_fuel mc" "mc_fuel mc \<le> int n"
  shows "execCall fo ext call i (fr, mc) \<noteq> Inl OutOfSteps"
proof -
  have e: "ext name = Some e \<Longrightarrow> doExternCall fo e i (fr, mc) \<noteq> Inl OutOfSteps" for name e
    using extern_ends by (auto simp: doExternCall_def)
  have f: "mc_funcs mc x = Some f \<Longrightarrow> doIRCall fo call i f (fr, mc) \<noteq> Inl OutOfSteps" "mc_funcAt mc a = Some f \<Longrightarrow> doIRCall fo call i f (fr, mc) \<noteq> Inl OutOfSteps" for f x a
    using doIRCall_ends[OF assms(1) _ assms(2-4)] assms(2) unfolding image_busy_def by blast+
  have "indirect_call fo ext call i r (fr, mc) \<noteq> Inl OutOfSteps" for r
    using e f by (auto simp: indirect_call_def split: option.splits)
  then show ?thesis using e f by (auto simp: execCall_def dispatchCall_def Let_def split: list.splits option.splits)
qed

lemma exec_steps_end:
  assumes "call_ends n call" "call_charged call" "image_busy mc" "0 < mc_fuel mc" "mc_fuel mc \<le> int (Suc n)"
  shows "e_fold (exec_step fo ext call own) is (fr, mc) \<noteq> Inl OutOfSteps"
  using assms(3-5)
proof (induction "is" arbitrary: fr mc)
  case (Cons i "is")
  have "exec_step fo ext call own i (fr, mc) \<noteq> Inl OutOfSteps"
  proof
    assume "exec_step fo ext call own i (fr, mc) = Inl OutOfSteps"
    then obtain m1 where m1: "tick mc = (False, m1)" "execCall fo ext call i (fr, m1) = Inl OutOfSteps"
      by (auto simp: exec_step_def split: prod.splits bool.splits dest!: execInstr_ends)
    have "image_busy m1" "0 < mc_fuel m1" "mc_fuel m1 \<le> int n"
      using tick_charged[OF m1(1)] image_busy_charged Cons.prems charged_fuel by fastforce+
    then show False using m1(2) execCall_ends[OF assms(1)] by blast
  qed
  moreover have "e_fold (exec_step fo ext call own) is (fr1, m1) \<noteq> Inl OutOfSteps" if "exec_step fo ext call own i (fr, mc) = Inr (fr1, m1)" for fr1 m1
  proof -
    have "charged mc m1" using exec_step_charged[OF assms(2) that] by blast
    then show ?thesis using Cons.IH image_busy_charged charged_fuel Cons.prems by blast
  qed
  ultimately show ?case by (auto split: sum.splits)
qed simp

lemma run_ends: "busy own \<Longrightarrow> image_busy mc \<Longrightarrow> 0 < mc_fuel mc \<Longrightarrow> mc_fuel mc \<le> int n \<Longrightarrow> run n fo ext own from cur (fr, mc) \<noteq> Inl OutOfSteps"
proof (induction n arbitrary: own "from" cur fr mc)
  case (Suc n)
  let ?call = "callFunc_with (run n fo ext)"
  have ch: "call_charged ?call" unfolding call_charged_def using callFunc_with_charged[of "run n fo ext"] run_charged by blast
  have ends: "call_ends n ?call"
  proof -
    have "image_busy (mc\<lparr>mc_depth := d\<rparr>) = image_busy mc" for mc d by (simp add: image_busy_def)
    then show ?thesis unfolding call_ends_def callFunc_with_def Let_def using Suc.IH by auto
  qed
  have next': "run n fo ext g fr0 c (fr2, m2) \<noteq> Inl OutOfSteps"
    if s: "e_fold (exec_step fo ext ?call own) (b_Instrs (blk own b)) (fr1, mc) = Inr (fr2, m2)"
      and t: "execTerminator fo m2 own fr2 (b_Jmp (blk own b)) = Inr (Next g c)" for g fr0 c fr1 fr2 m2 b
  proof -
    have c: "charged mc m2" "b_Instrs (blk own b) \<noteq> [] \<longrightarrow> mc_fuel m2 < mc_fuel mc" using exec_steps_charged[OF ch s] Suc.prems by auto
    have "b < length (f_arena own)" using t by (cases "b < length (f_arena own)") (auto simp: blk_def block0_def jmp0_def execTerminator_def)
    then have "b_Instrs (blk own b) \<noteq> []" using Suc.prems(1) by (simp add: busy_def blk_def)
    then have "0 < mc_fuel m2" "mc_fuel m2 \<le> int n" using c Suc.prems charged_fuel by fastforce+
    moreover have m2: "image_busy m2" using c image_busy_charged Suc.prems by blast
    moreover have "busy g" using t Suc.prems(1) m2 unfolding image_busy_def
      by (auto simp: execTerminator_def Let_def split: jmpKind.splits option.splits if_splits)
    ultimately show ?thesis using Suc.IH by blast
  qed
  show ?case
  proof (cases cur)
    case (Some b)
    have "exec_block fo ext ?call own from b (fr, mc) \<noteq> Inl OutOfSteps"
      using exec_steps_end[OF ends ch Suc.prems(2-4)] by (auto simp: exec_block_def)
    moreover have "(case t of Return v \<Rightarrow> Inr (v, snd st') | Next g c \<Rightarrow> run n fo ext g (Some (f_Name own, b)) c st') \<noteq> Inl OutOfSteps"
      if "exec_block fo ext ?call own from b (fr, mc) = Inr (t, st')" for t st'
      using that next' by (cases t) (auto simp: exec_block_def)
    ultimately show ?thesis by (auto simp: Some)
  qed simp
qed simp

lemma callFunc_ends:
  assumes "busy f" "image_busy mc" "0 < mc_fuel mc" "mc_fuel mc \<le> int n"
  shows "callFunc n fo ext f args mc \<noteq> Inl OutOfSteps"
proof -
  have "image_busy (mc\<lparr>mc_depth := d\<rparr>) = image_busy mc" for d by (simp add: image_busy_def)
  then show ?thesis using assms run_ends by (auto simp: callFunc_def callFunc_with_def Let_def)
qed

lemma callFunc_keeps: "callFunc n fo ext f args mc = Inr (v, mc') \<Longrightarrow> charged mc mc' \<and> mc_sp mc' = mc_sp mc"
  unfolding callFunc_def using callFunc_with_charged[of "run n fo ext"] run_charged by blast

end

end
