(* ===== verification/Switch_Lower.thy ===== *)
theory Switch_Lower
  imports Interp_Run Split_Edges "HOL-Library.Sublist"
begin

text \<open>
  Lowering multiway branches (\<open>lower/switch.go\<close>): a switch becomes a chain of equality tests, or an
  ordered binary search over its sorted cases.  \<open>None\<close> is the panic of \<open>ClassOf\<close>.  The theory shows
  that binary search decides as the list of cases does, and that the code emitted implements the tree
  of tests; \<open>Switch_Run\<close> runs that code.
\<close>

section \<open>The pass\<close>

definition linearMax :: nat where
  "linearMax = 4"

text \<open>\<open>cur.Cmp(pred, ir.ClsW, val, f.ConstInt(cls, v))\<close>\<close>

definition emit_test :: "bptr \<Rightarrow> cmp \<Rightarrow> ref \<Rightarrow> cls \<Rightarrow> i64 \<Rightarrow> func \<Rightarrow> ref \<times> func" where
  "emit_test cur pred val cls v f = (let (k, f1) = func_ConstInt cls v f in emitCmp cur pred ClsW val k f1)"

fun emitLinear :: "bptr \<Rightarrow> ref \<Rightarrow> cls \<Rightarrow> switchCase list \<Rightarrow> bptr option \<Rightarrow> func \<Rightarrow> func" where
  "emitLinear cur val cls [] deflt f = Goto cur deflt f"
| "emitLinear cur val cls [c] deflt f = (let (eq, f1) = emit_test cur CmpEq val cls (sc_Val c) f in Jnz cur eq (sc_Blk c) deflt f1)"
| "emitLinear cur val cls (c # cs) deflt f =
     (let (eq, f1) = emit_test cur CmpEq val cls (sc_Val c) f;
          (nxt, f2) = NewBlock [] f1
      in emitLinear nxt val cls cs deflt (Jnz cur eq (sc_Blk c) (Some nxt) f2))"

definition subslice :: "'a list \<Rightarrow> int \<Rightarrow> int \<Rightarrow> 'a list" where
  "subslice xs lo hi = take (nat (hi - lo)) (drop (nat lo) xs)"

text \<open>The recursive closure of \<open>emitSearch\<close>; the pivot constant is shared by both tests.\<close>

function emitSearch_rec :: "ref \<Rightarrow> cls \<Rightarrow> cmp \<Rightarrow> switchCase list \<Rightarrow> bptr option \<Rightarrow> bptr \<Rightarrow> int \<Rightarrow> int \<Rightarrow> func \<Rightarrow> func" where
  "emitSearch_rec val cls ltPred cases deflt cur lo hi f =
     (if hi < lo then Goto cur deflt f
      else if hi - lo + 1 \<le> int linearMax then emitLinear cur val cls (subslice cases lo (hi + 1)) deflt f
      else let mid = (lo + hi) div 2;
               (pivot, f1) = func_ConstInt cls (sc_Val (cases ! nat mid)) f;
               (eq, f2) = emitCmp cur CmpEq ClsW val pivot f1;
               (order, f3) = NewBlock [] f2;
               f4 = Jnz cur eq (sc_Blk (cases ! nat mid)) (Some order) f3;
               (lt, f5) = emitCmp order ltPred ClsW val pivot f4;
               (left, f6) = NewBlock [] f5;
               (right, f7) = NewBlock [] f6;
               f8 = Jnz order lt (Some left) (Some right) f7
           in emitSearch_rec val cls ltPred cases deflt right (mid + 1) hi
                (emitSearch_rec val cls ltPred cases deflt left lo (mid - 1) f8))"
  by pat_completeness auto

termination
  by (relation "measure (\<lambda>(_, _, _, _, _, _, lo, hi, _). nat (hi - lo + 1))") auto

declare emitSearch_rec.simps [simp del]

definition emitSearch :: "bptr \<Rightarrow> ref \<Rightarrow> cls \<Rightarrow> bool \<Rightarrow> switchCase list \<Rightarrow> bptr option \<Rightarrow> func \<Rightarrow> func" where
  "emitSearch root val cls sg cases deflt f =
     emitSearch_rec val cls (if sg then CmpSlt else CmpUlt) cases deflt root 0 (int (length cases) - 1) f"

text \<open>The order of \<open>sort.Slice\<close>, which may place equal values either way: a switch has distinct values.\<close>

definition case_key :: "bool \<Rightarrow> switchCase \<Rightarrow> int" where
  "case_key sg c = (if sg then sint (sc_Val c) else uint (sc_Val c))"

definition lowerSwitch :: "bptr \<Rightarrow> func \<Rightarrow> func option" where
  "lowerSwitch b f =
     (let j = b_Jmp (blk f b); val = j_Arg j; deflt = j_To j; sg = j_Signed j in
      Option.bind (ClassOf f val) (\<lambda>cls.
        let cases = sort_key (case_key sg) (j_Cases j);
            f1 = upd_blk b (\<lambda>x. x\<lparr>b_Jmp := jmp0\<rparr>) f
        in Some (if length cases \<le> linearMax then emitLinear b val cls cases deflt f1
                 else emitSearch b val cls sg cases deflt f1)))"

definition Switches :: "func \<Rightarrow> (func \<times> bool) option" where
  "Switches f = fold_opt (\<lambda>b (g, changed).
     if j_Kind (b_Jmp (blk g b)) = JmpSwitch
     then Option.bind (lowerSwitch b g) (\<lambda>g'. Some (g', True))
     else Some (g, changed)) (f_Blocks f) (f, False)"

section \<open>Decision trees\<close>

text \<open>What the dispatch code promises: a tree of tests of the controlling value.\<close>

datatype dtree =
    Done "bptr option"
  | Test i64 "bptr option" dtree
  | Split i64 "bptr option" dtree dtree

fun decide :: "cls \<Rightarrow> bool \<Rightarrow> i64 \<Rightarrow> dtree \<Rightarrow> bptr option" where
  "decide cls sg x (Done t) = t"
| "decide cls sg x (Test k t d) = (if intCmp CmpEq cls x k then t else decide cls sg x d)"
| "decide cls sg x (Split k t l r) =
     (if intCmp CmpEq cls x k then t
      else if intCmp (if sg then CmpSlt else CmpUlt) cls x k then decide cls sg x l
      else decide cls sg x r)"

text \<open>The number of tests on the longest path.\<close>

fun tests :: "dtree \<Rightarrow> nat" where
  "tests (Done t) = 0"
| "tests (Test k t d) = Suc (tests d)"
| "tests (Split k t l r) = 2 + max (tests l) (tests r)"

definition chain :: "switchCase list \<Rightarrow> bptr option \<Rightarrow> dtree" where
  "chain cs deflt = foldr (\<lambda>c. Test (sc_Val c) (sc_Blk c)) cs (Done deflt)"

function search :: "switchCase list \<Rightarrow> bptr option \<Rightarrow> dtree" where
  "search cs deflt =
     (if length cs \<le> linearMax then chain cs deflt
      else let m = (length cs - 1) div 2 in
        Split (sc_Val (cs ! m)) (sc_Blk (cs ! m)) (search (take m cs) deflt) (search (drop (Suc m) cs) deflt))"
  by pat_completeness auto

termination
  by (relation "measure (\<lambda>(cs, _). length cs)") (auto simp: linearMax_def)

declare search.simps [simp del]

text \<open>The block a list of cases names, the first match winning.\<close>

definition case_target :: "cls \<Rightarrow> i64 \<Rightarrow> switchCase list \<Rightarrow> bptr option \<Rightarrow> bptr option" where
  "case_target cls x cs deflt = (case find (\<lambda>c. asUnsigned cls x = asUnsigned cls (sc_Val c)) cs of
     Some c \<Rightarrow> sc_Blk c | None \<Rightarrow> deflt)"

lemma asSigned_eq_iff: "asSigned c a = asSigned c b \<longleftrightarrow> asUnsigned c a = asUnsigned c b"
  by (simp add: asSigned_def asUnsigned_def int32_of_eq_iff uint32_of_eq_iff)

lemma intCmp_eq: "intCmp CmpEq cls x k \<longleftrightarrow> asUnsigned cls x = asUnsigned cls k"
  by (simp add: intCmp_def Let_def asSigned_eq_iff)

text \<open>The order of the tests on values of a class, and when the sort agrees with it.\<close>

definition test_key :: "cls \<Rightarrow> bool \<Rightarrow> i64 \<Rightarrow> int" where
  "test_key cls sg v = (if sg then sint (asSigned cls v) else uint (asUnsigned cls v))"

lemma intCmp_lt: "intCmp (if sg then CmpSlt else CmpUlt) cls x k \<longleftrightarrow> test_key cls sg x < test_key cls sg k"
  by (simp add: intCmp_def Let_def test_key_def word_sless_alt word_less_def)

lemma test_key_eq: "test_key cls sg a = test_key cls sg b \<longleftrightarrow> asUnsigned cls a = asUnsigned cls b"
proof -
  have "sint x = sint y \<longleftrightarrow> x = y" "uint x = uint y \<longleftrightarrow> x = y" for x y :: "64 word"
    by (metis word_eq_iff_signed, metis word_eq_iff_unsigned)
  then show ?thesis by (simp add: test_key_def asSigned_eq_iff)
qed

lemma search_split:
  assumes "\<not> length cs \<le> linearMax" "m = (length cs - 1) div 2"
  shows "search cs deflt = Split (sc_Val (cs ! m)) (sc_Blk (cs ! m)) (search (take m cs) deflt) (search (drop (Suc m) cs) deflt)"
  using assms by (subst search.simps) (simp add: Let_def)

lemma search_chain: "length cs \<le> linearMax \<Longrightarrow> search cs deflt = chain cs deflt"
  by (simp add: search.simps)

lemma decide_chain: "decide cls sg x (chain cs deflt) = case_target cls x cs deflt"
  by (induction cs) (auto simp: chain_def case_target_def intCmp_eq)

lemma case_target_append:
  "case_target cls x (xs @ ys) deflt = case_target cls x xs (case_target cls x ys deflt)"
  by (induction xs) (auto simp: case_target_def)

lemma case_target_none:
  "(\<And>c. c \<in> set cs \<Longrightarrow> asUnsigned cls x \<noteq> asUnsigned cls (sc_Val c)) \<Longrightarrow> case_target cls x cs deflt = deflt"
  by (induction cs) (auto simp: case_target_def)

text \<open>Binary search over cases sorted by the tests' own order finds what the list names.\<close>

lemma decide_search:
  "sorted_wrt (\<lambda>a b. test_key cls sg (sc_Val a) < test_key cls sg (sc_Val b)) cs \<Longrightarrow>
   decide cls sg x (search cs deflt) = case_target cls x cs deflt"
proof (induction cs deflt rule: search.induct)
  case (1 cs deflt)
  show ?case
  proof (cases "length cs \<le> linearMax")
    case True
    then show ?thesis by (simp add: search_chain decide_chain)
  next
    case False
    define m where "m = (length cs - 1) div 2"
    have ml: "m < length cs" using False by (simp add: m_def linearMax_def)
    define c where "c = cs ! m"
    have split: "cs = take m cs @ c # drop (Suc m) cs" using ml by (simp add: c_def id_take_nth_drop)
    have srt: "sorted_wrt (\<lambda>a b. test_key cls sg (sc_Val a) < test_key cls sg (sc_Val b)) (take m cs @ c # drop (Suc m) cs)"
      using 1(3) split by metis
    then have below: "\<And>a. a \<in> set (take m cs) \<Longrightarrow> test_key cls sg (sc_Val a) < test_key cls sg (sc_Val c)"
      and above: "\<And>a. a \<in> set (drop (Suc m) cs) \<Longrightarrow> test_key cls sg (sc_Val c) < test_key cls sg (sc_Val a)"
      and subs: "sorted_wrt (\<lambda>a b. test_key cls sg (sc_Val a) < test_key cls sg (sc_Val b)) (take m cs)"
        "sorted_wrt (\<lambda>a b. test_key cls sg (sc_Val a) < test_key cls sg (sc_Val b)) (drop (Suc m) cs)"
      by (auto simp: sorted_wrt_append)
    note IH = 1(1)[OF False m_def subs(1)] 1(2)[OF False m_def subs(2)]
    let ?x = "test_key cls sg x" and ?c = "test_key cls sg (sc_Val c)"
    have head: "case_target cls x (c # ds) e = (if ?x = ?c then sc_Blk c else case_target cls x ds e)" for ds e
      by (simp add: case_target_def test_key_eq)
    have "decide cls sg x (search cs deflt) = (if ?x = ?c then sc_Blk c
        else if ?x < ?c then case_target cls x (take m cs) deflt else case_target cls x (drop (Suc m) cs) deflt)"
      unfolding search_split[OF False m_def] using IH by (simp add: c_def[symmetric] intCmp_lt intCmp_eq test_key_eq)
    also have "\<dots> = case_target cls x (take m cs @ c # drop (Suc m) cs) deflt"
    proof -
      consider "?x = ?c" | "?x < ?c" | "?c < ?x" by linarith
      then show ?thesis
      proof cases
        case 1
        then have "case_target cls x (take m cs) e = e" for e
          using below by (intro case_target_none) (metis test_key_eq less_irrefl)
        then show ?thesis using 1 by (simp add: case_target_append head)
      next
        case 2
        then have "case_target cls x (drop (Suc m) cs) e = e" for e
          using above by (intro case_target_none) (metis test_key_eq less_asym)
        then show ?thesis using 2 by (simp add: case_target_append head)
      next
        case 3
        then have "case_target cls x (take m cs) e = e" for e
          using below by (intro case_target_none) (metis test_key_eq less_asym)
        then show ?thesis using 3 by (simp add: case_target_append head)
      qed
    qed
    finally show ?thesis using split by simp
  qed
qed

text \<open>The longest path of a search over fewer than \<open>2^k\<close> cases has at most \<open>2 * k\<close> tests.\<close>

lemma tests_chain: "tests (chain cs deflt) = length cs"
  by (induction cs) (auto simp: chain_def)

lemma tests_search: "length cs < 2 ^ k \<Longrightarrow> 3 \<le> k \<Longrightarrow> tests (search cs deflt) \<le> 2 * k"
proof (induction k arbitrary: cs)
  case (Suc k)
  show ?case
  proof (cases "length cs \<le> linearMax")
    case True
    then show ?thesis using Suc.prems by (simp add: search_chain tests_chain linearMax_def)
  next
    case False
    define m where "m = (length cs - 1) div 2"
    have m: "m < 2 ^ k" "length cs - Suc m < 2 ^ k" using Suc.prems(1) by (auto simp: m_def)
    have "tests (search ds deflt) \<le> 2 * k" if ds: "length ds < 2 ^ k" for ds
    proof (cases "3 \<le> k")
      case True
      then show ?thesis using ds by (rule_tac Suc.IH)
    next
      case k: False
      then have "k = 2" using Suc.prems(2) by simp
      then show ?thesis using ds by (simp add: search_chain tests_chain linearMax_def)
    qed
    then have "tests (search (take m cs) deflt) \<le> 2 * k" "tests (search (drop (Suc m) cs) deflt) \<le> 2 * k" using m by simp_all
    then show ?thesis unfolding search_split[OF False m_def] by simp
  qed
qed simp

section \<open>Code that implements a tree\<close>

text \<open>What building appends: the function grows, and only the block being built changes.\<close>

definition grows :: "bptr \<Rightarrow> func \<Rightarrow> func \<Rightarrow> bool" where
  "grows cur f g \<longleftrightarrow> length (f_arena f) \<le> length (f_arena g) \<and> prefix (f_Temps f) (f_Temps g) \<and> prefix (f_Consts f) (f_Consts g) \<and>
     constIdx_ok g \<and> f_Start g = f_Start f \<and> f_Name g = f_Name f \<and>
     (\<forall>p < length (f_arena f). p \<noteq> cur \<longrightarrow> blk g p = blk f p) \<and>
     b_Phis (blk g cur) = b_Phis (blk f cur) \<and> prefix (b_Instrs (blk f cur)) (b_Instrs (blk g cur)) \<and>
     f_Blocks g = f_Blocks f @ [length (f_arena f)..<length (f_arena g)] \<and>
     (\<forall>p. j_Kind (b_Jmp (blk g p)) = JmpSwitch \<longrightarrow> b_Jmp (blk g p) = b_Jmp (blk f p))"

lemma grows_refl: "constIdx_ok f \<Longrightarrow> grows cur f f"
  by (simp add: grows_def)

lemma grows_new:
  assumes "grows cur f g" "grows nxt g h" "nxt = cur \<or> length (f_arena f) \<le> nxt" "cur < length (f_arena f)"
  shows "grows cur f h"
proof -
  have "[length (f_arena f)..<length (f_arena h)] = [length (f_arena f)..<length (f_arena g)] @ [length (f_arena g)..<length (f_arena h)]"
    using assms upt_add_eq_append[of "length (f_arena f)" "length (f_arena g)" "length (f_arena h) - length (f_arena g)"]
    by (simp add: grows_def)
  moreover have "blk h p = blk g p" if "p < length (f_arena f)" "p \<noteq> cur" for p
    using assms(1-3) that by (auto simp: grows_def)
  moreover have "b_Phis (blk h cur) = b_Phis (blk g cur) \<and> prefix (b_Instrs (blk g cur)) (b_Instrs (blk h cur))"
    using assms by (cases "nxt = cur") (auto simp: grows_def)
  ultimately show ?thesis using assms(1,2) by (auto simp: grows_def intro: prefix_order.trans)
qed

lemma grows_trans: "grows cur f g \<Longrightarrow> grows cur g h \<Longrightarrow> cur < length (f_arena f) \<Longrightarrow> grows cur f h"
  by (rule grows_new) auto

definition int_const :: "func \<Rightarrow> ref \<Rightarrow> cls \<Rightarrow> i64 \<Rightarrow> bool" where
  "int_const g r cls v \<longleftrightarrow> r_Kind r = RefConst \<and> r_ID r < length (f_Consts g) \<and>
     c_Kind (f_Consts g ! r_ID r) = ConstInt \<and> c_Cls (f_Consts g ! r_ID r) = cls \<and> c_Int (f_Consts g ! r_ID r) = v"

lemma int_const_mono: "int_const f r cls v \<Longrightarrow> prefix (f_Consts f) (f_Consts g) \<Longrightarrow> int_const g r cls v"
  by (auto simp: int_const_def prefix_def nth_append)

definition cmp_instr :: "cmp \<Rightarrow> ref \<Rightarrow> ref \<Rightarrow> nat \<Rightarrow> instr" where
  "cmp_instr pred val k i = instr0\<lparr>in_Op := OCmp, in_Cls := ClsW, in_To := tempRef i, in_Args := [val, k], in_Cmp := pred\<rparr>"

text \<open>From its \<open>k\<close>-th instruction on, the block compares \<open>val\<close> with \<open>v\<close> and branches to \<open>t\<close> or \<open>e\<close>.\<close>

definition cmp_block :: "nat \<Rightarrow> func \<Rightarrow> ref \<Rightarrow> cls \<Rightarrow> cmp \<Rightarrow> i64 \<Rightarrow> bptr \<Rightarrow> nat \<Rightarrow> bptr option \<Rightarrow> bptr option \<Rightarrow> bool" where
  "cmp_block n g val cls pred v cur k t e \<longleftrightarrow> (\<exists>i kr. n \<le> i \<and> i < length (f_Temps g) \<and> int_const g kr cls v \<and>
     drop k (b_Instrs (blk g cur)) = [cmp_instr pred val kr i] \<and>
     b_Jmp (blk g cur) = jmp0\<lparr>j_Kind := JmpJnz, j_Arg := tempRef i, j_To := t, j_To2 := e\<rparr>)"

inductive code :: "bptr set \<Rightarrow> nat \<Rightarrow> func \<Rightarrow> ref \<Rightarrow> cls \<Rightarrow> bool \<Rightarrow> bptr \<Rightarrow> nat \<Rightarrow> dtree \<Rightarrow> bool" for S n g val cls sg where
  code_done: "cur \<in> S \<Longrightarrow> drop k (b_Instrs (blk g cur)) = [] \<Longrightarrow> b_Jmp (blk g cur) = jmp0\<lparr>j_Kind := JmpJmp, j_To := t\<rparr> \<Longrightarrow>
    code S n g val cls sg cur k (Done t)"
| code_last: "cur \<in> S \<Longrightarrow> cmp_block n g val cls CmpEq v cur k t e \<Longrightarrow> code S n g val cls sg cur k (Test v t (Done e))"
| code_test: "cur \<in> S \<Longrightarrow> cmp_block n g val cls CmpEq v cur k t (Some nxt) \<Longrightarrow> b_Phis (blk g nxt) = [] \<Longrightarrow>
    code S n g val cls sg nxt 0 d \<Longrightarrow> code S n g val cls sg cur k (Test v t d)"
| code_split: "cur \<in> S \<Longrightarrow> cmp_block n g val cls CmpEq v cur k t (Some order) \<Longrightarrow>
    order \<in> S \<Longrightarrow> b_Phis (blk g order) = [] \<Longrightarrow> cmp_block n g val cls (if sg then CmpSlt else CmpUlt) v order 0 (Some l) (Some r) \<Longrightarrow>
    b_Phis (blk g l) = [] \<Longrightarrow> code S n g val cls sg l 0 dl \<Longrightarrow> b_Phis (blk g r) = [] \<Longrightarrow> code S n g val cls sg r 0 dr \<Longrightarrow>
    code S n g val cls sg cur k (Split v t dl dr)"

lemma code_start: "code S n g val cls sg cur k d \<Longrightarrow> cur \<in> S"
  by (induction rule: code.induct) auto

lemma cmp_block_mono:
  assumes "cmp_block n f val cls pred v cur k t e" "blk g cur = blk f cur" "prefix (f_Temps f) (f_Temps g)" "prefix (f_Consts f) (f_Consts g)"
  shows "cmp_block n g val cls pred v cur k t e"
proof -
  obtain i kr where "n \<le> i" "i < length (f_Temps f)" "int_const f kr cls v" "drop k (b_Instrs (blk f cur)) = [cmp_instr pred val kr i]"
    "b_Jmp (blk f cur) = jmp0\<lparr>j_Kind := JmpJnz, j_Arg := tempRef i, j_To := t, j_To2 := e\<rparr>"
    using assms(1) by (auto simp: cmp_block_def)
  moreover have "length (f_Temps f) \<le> length (f_Temps g)" using assms(3) by (rule prefix_length_le)
  ultimately show ?thesis unfolding cmp_block_def using assms(2) int_const_mono[OF _ assms(4)]
    by (intro exI[of _ i] exI[of _ kr]) simp
qed

text \<open>Code stays code as the function grows elsewhere.\<close>

lemma code_mono:
  assumes "code S n f val cls sg cur k d" "\<And>p. p \<in> S \<Longrightarrow> blk g p = blk f p"
    "prefix (f_Temps f) (f_Temps g)" "prefix (f_Consts f) (f_Consts g)" "S \<subseteq> S'"
  shows "code S' n g val cls sg cur k d"
  using assms(1)
proof (induction rule: code.induct)
  case (code_done cur k t)
  then show ?case using assms(2,5) by (intro code.code_done) auto
next
  case (code_last cur v k t e)
  then show ?case using cmp_block_mono[OF _ assms(2) assms(3,4)] assms(5) by (intro code.code_last) auto
next
  case (code_test cur v k t nxt d)
  have "blk g nxt = blk f nxt" using assms(2) code_start[OF code_test.hyps(4)] .
  then show ?case using code_test cmp_block_mono[OF _ assms(2) assms(3,4)] assms(5) by (intro code.code_test[where nxt = nxt]) auto
next
  case (code_split cur v k t order l r dl dr)
  have "blk g l = blk f l" "blk g r = blk f r" "blk g order = blk f order"
    using assms(2) code_start[OF code_split.hyps(7)] code_start[OF code_split.hyps(9)] code_split.hyps(3) by blast+
  then show ?case using code_split cmp_block_mono[OF _ assms(2) assms(3,4)] assms(5)
    by (intro code.code_split[where order = order and l = l and r = r]) auto
qed

lemma code_grows:
  assumes "code S n f val cls sg cur k d" "grows b f g" "b \<notin> S" "S \<subseteq> {..<length (f_arena f)}" "S \<subseteq> S'"
  shows "code S' n g val cls sg cur k d"
  by (rule code_mono[OF assms(1)]) (use assms in \<open>auto simp: grows_def\<close>)

section \<open>Emission\<close>

lemma ConstInt_grows:
  assumes "constIdx_ok f" "func_ConstInt cls v f = (k, f1)"
  shows "grows cur f f1" "int_const f1 k cls v" "f_arena f1 = f_arena f" "f_Temps f1 = f_Temps f" "\<And>p. blk f1 p = blk f p"
proof -
  note g = func_ConstInt_get[OF assms]
  have "f_Start f1 = f_Start f" "f_Name f1 = f_Name f" using assms(2) by (auto simp: func_ConstInt_def internConst_def split: option.splits)
  then show "grows cur f f1" using g by (auto simp: grows_def blk_def prefix_def)
  show "int_const f1 k cls v" using g by (simp add: int_const_def)
  show "f_arena f1 = f_arena f" "f_Temps f1 = f_Temps f" "\<And>p. blk f1 p = blk f p" using g by (simp_all add: blk_def)
qed

lemma emitCmp_grows:
  assumes "constIdx_ok f" "cur < length (f_arena f)" "emitCmp cur pred ClsW val k f = (r, f1)"
  shows "grows cur f f1" "r = tempRef (length (f_Temps f))" "length (f_Temps f1) = Suc (length (f_Temps f))"
    "length (f_arena f1) = length (f_arena f)" "b_Instrs (blk f1 cur) = b_Instrs (blk f cur) @ [cmp_instr pred val k (length (f_Temps f))]"
    "f_Consts f1 = f_Consts f" "\<And>p. p \<noteq> cur \<Longrightarrow> blk f1 p = blk f p"
proof -
  let ?i = "cmp_instr pred val k (length (f_Temps f))"
  have e: "\<exists>t. f1 = upd_blk cur (\<lambda>z. z\<lparr>b_Instrs := b_Instrs z @ [?i]\<rparr>) (f\<lparr>f_nameSeq := f_nameSeq f + 1, f_Temps := f_Temps f @ [t]\<rparr>)"
    "r = tempRef (length (f_Temps f))"
    using assms(3) by (auto simp: emitCmp_def newTemp_def Let_def cmp_instr_def)
  then obtain t where f1: "f1 = upd_blk cur (\<lambda>z. z\<lparr>b_Instrs := b_Instrs z @ [?i]\<rparr>) (f\<lparr>f_nameSeq := f_nameSeq f + 1, f_Temps := f_Temps f @ [t]\<rparr>)" by blast
  have b: "blk (f\<lparr>f_nameSeq := x, f_Temps := f_Temps f @ [t]\<rparr>) p = blk f p" for p x by (simp add: blk_def)
  have nm: "f_Name (upd_blk x h g) = f_Name g" for x h g by (simp add: upd_blk_def)
  show "grows cur f f1" using assms(1,2) by (auto simp: f1 grows_def b nm constIdx_ok_def)
  show "r = tempRef (length (f_Temps f))" by (rule e(2))
  show "length (f_Temps f1) = Suc (length (f_Temps f))" "length (f_arena f1) = length (f_arena f)"
    "b_Instrs (blk f1 cur) = b_Instrs (blk f cur) @ [?i]" "f_Consts f1 = f_Consts f" using assms(2) by (simp_all add: f1 b)
  show "\<And>p. p \<noteq> cur \<Longrightarrow> blk f1 p = blk f p" using assms(2) by (simp add: f1 b)
qed

lemma NewBlock_grows:
  assumes "constIdx_ok f" "f_Start f \<noteq> None" "NewBlock [] f = (p, f1)" "cur < length (f_arena f)"
  shows "grows cur f f1" "p = length (f_arena f)" "length (f_arena f1) = Suc p" "b_Phis (blk f1 p) = []" "b_Instrs (blk f1 p) = []"
    "f_Temps f1 = f_Temps f" "f_Consts f1 = f_Consts f" "\<And>q. q < length (f_arena f) \<Longrightarrow> blk f1 q = blk f q"
proof -
  note n = arena_NewBlock[OF assms(3)]
  obtain nm where a: "f_arena f1 = f_arena f @ [block0\<lparr>b_Name := nm, b_ID := length (f_Blocks f)\<rparr>]" using n(2) by blast
  have s: "f_Temps f1 = f_Temps f" "f_Consts f1 = f_Consts f" "f_constIdx f1 = f_constIdx f" "f_Name f1 = f_Name f"
    using assms(3) by (auto simp: NewBlock_def Let_def)
  show "p = length (f_arena f)" "length (f_arena f1) = Suc p" using n(1) a by simp_all
  show old: "\<And>q. q < length (f_arena f) \<Longrightarrow> blk f1 q = blk f q" by (simp add: blk_def a nth_append)
  show "b_Phis (blk f1 p) = []" "b_Instrs (blk f1 p) = []" using n(1) by (simp_all add: blk_def a block0_def)
  show "f_Temps f1 = f_Temps f" "f_Consts f1 = f_Consts f" using s by simp_all
  have "j_Kind (b_Jmp (blk f1 q)) = JmpSwitch \<Longrightarrow> b_Jmp (blk f1 q) = b_Jmp (blk f q)" for q
    by (cases "q < length (f_arena f)") (auto simp: old, auto simp: blk_def a nth_append block0_def jmp0_def)
  then show "grows cur f f1" using assms(1,4) n s a old n(4)[OF assms(2)] by (auto simp: grows_def constIdx_ok_def)
qed

lemma Jnz_grows:
  assumes "constIdx_ok f" "cur < length (f_arena f)"
  shows "grows cur f (Jnz cur c t e f)" "b_Jmp (blk (Jnz cur c t e f) cur) = jmp0\<lparr>j_Kind := JmpJnz, j_Arg := c, j_To := t, j_To2 := e\<rparr>"
    "b_Instrs (blk (Jnz cur c t e f) cur) = b_Instrs (blk f cur)" "f_Temps (Jnz cur c t e f) = f_Temps f" "f_Consts (Jnz cur c t e f) = f_Consts f"
    "length (f_arena (Jnz cur c t e f)) = length (f_arena f)" "\<And>p. p \<noteq> cur \<Longrightarrow> blk (Jnz cur c t e f) p = blk f p"
  using assms by (auto simp: Jnz_def grows_def constIdx_ok_def) (simp add: upd_blk_def)

lemma Goto_grows:
  assumes "constIdx_ok f" "cur < length (f_arena f)"
  shows "grows cur f (Goto cur t f)" "b_Jmp (blk (Goto cur t f) cur) = jmp0\<lparr>j_Kind := JmpJmp, j_To := t\<rparr>"
    "b_Instrs (blk (Goto cur t f) cur) = b_Instrs (blk f cur)"
  using assms by (auto simp: Goto_def grows_def constIdx_ok_def) (simp add: upd_blk_def)

text \<open>One test: its constant, its comparison at the end of the block, and the branch.\<close>

lemma test_emitted:
  assumes ok: "constIdx_ok f" and cur: "cur < length (f_arena f)" and n: "n \<le> length (f_Temps f)"
    and const: "int_const f kr cls v" and cmp: "emitCmp cur pred ClsW val kr f = (r, f1)"
  shows "grows cur f f1" "\<And>g. grows cur f1 g \<Longrightarrow> b_Instrs (blk g cur) = b_Instrs (blk f1 cur) \<Longrightarrow>
    b_Jmp (blk g cur) = jmp0\<lparr>j_Kind := JmpJnz, j_Arg := r, j_To := t, j_To2 := e\<rparr> \<Longrightarrow>
    cmp_block n g val cls pred v cur (length (b_Instrs (blk f cur))) t e"
proof -
  note c = emitCmp_grows[OF ok cur cmp]
  show "grows cur f f1" by (rule c(1))
  fix g assume g: "grows cur f1 g" "b_Instrs (blk g cur) = b_Instrs (blk f1 cur)"
    "b_Jmp (blk g cur) = jmp0\<lparr>j_Kind := JmpJnz, j_Arg := r, j_To := t, j_To2 := e\<rparr>"
  have "length (f_Temps f) < length (f_Temps g)" using g(1) c(3) prefix_length_le[of "f_Temps f1" "f_Temps g"] by (simp add: grows_def)
  moreover have "int_const g kr cls v" using int_const_mono[OF const, of g] g(1) by (simp add: c(6) grows_def)
  ultimately show "cmp_block n g val cls pred v cur (length (b_Instrs (blk f cur))) t e"
    unfolding cmp_block_def using n g(2,3) c(2,5)
    by (intro exI[of _ "length (f_Temps f)"] exI[of _ kr]) simp
qed

text \<open>A block, its test and the new block to go on with.\<close>

lemma test_and_next:
  fixes t :: "bptr option"
  assumes ok: "constIdx_ok f" and start: "f_Start f \<noteq> None" and cur: "cur < length (f_arena f)" and n: "n \<le> length (f_Temps f)"
    and const: "int_const f kr cls v"
    and cmp: "emitCmp cur pred ClsW val kr f = (r, f1)" and new: "NewBlock [] f1 = (nxt, f2)"
  defines "f3 \<equiv> Jnz cur r t (Some nxt) f2"
  shows "grows cur f f3" "nxt = length (f_arena f)" "length (f_arena f3) = Suc nxt" "b_Phis (blk f3 nxt) = []" "b_Instrs (blk f3 nxt) = []"
    "cmp_block n f3 val cls pred v cur (length (b_Instrs (blk f cur))) t (Some nxt)"
proof -
  note c = test_emitted[OF ok cur n const cmp]
  have len1: "length (f_arena f1) = length (f_arena f)" by (rule emitCmp_grows(4)[OF ok cur cmp])
  have ok1: "constIdx_ok f1" "f_Start f1 \<noteq> None" "cur < length (f_arena f1)" using c(1) start cur len1 by (auto simp: grows_def)
  note b = NewBlock_grows[OF ok1(1,2) new ok1(3)]
  have ok2: "constIdx_ok f2" "cur < length (f_arena f2)" using b(1-3) ok1(3) by (auto simp: grows_def)
  note j = Jnz_grows[OF ok2, where c = r and t = t and e = "Some nxt", folded f3_def]
  show "nxt = length (f_arena f)" using b(2) len1 by simp
  show "length (f_arena f3) = Suc nxt" using b(3) j(6) by simp
  have "nxt \<noteq> cur" using b(2) ok1(3) by simp
  then have nx: "blk f3 nxt = blk f2 nxt" by (rule j(7))
  show "b_Phis (blk f3 nxt) = []" "b_Instrs (blk f3 nxt) = []" using b(4,5) nx by simp_all
  have g13: "grows cur f1 f3" by (rule grows_trans[OF b(1) j(1) ok1(3)])
  show "grows cur f f3" by (rule grows_trans[OF c(1) g13 cur])
  have "b_Instrs (blk f3 cur) = b_Instrs (blk f1 cur)" using j(3) b(8)[OF ok1(3)] by simp
  then show "cmp_block n f3 val cls pred v cur (length (b_Instrs (blk f cur))) t (Some nxt)" using c(2)[OF g13] j(2) by blast
qed

text \<open>Code emitted while other blocks were built.\<close>

lemma cmp_block_grows:
  assumes "cmp_block n f val cls pred v cur k t e" "grows nxt f g" "cur \<noteq> nxt" "cur < length (f_arena f)"
  shows "cmp_block n g val cls pred v cur k t e"
  by (rule cmp_block_mono[OF assms(1)]) (use assms in \<open>auto simp: grows_def\<close>)

definition emitted :: "nat \<Rightarrow> ref \<Rightarrow> cls \<Rightarrow> bool \<Rightarrow> bptr \<Rightarrow> func \<Rightarrow> func \<Rightarrow> dtree \<Rightarrow> bool" where
  "emitted n val cls sg cur f g d \<longleftrightarrow> grows cur f g \<and>
     code (insert cur {length (f_arena f)..<length (f_arena g)}) n g val cls sg cur (length (b_Instrs (blk f cur))) d"

lemma emitLinear_code:
  assumes "constIdx_ok f" "f_Start f \<noteq> None" "cur < length (f_arena f)" "n \<le> length (f_Temps f)"
  shows "emitted n val cls sg cur f (emitLinear cur val cls cs deflt f) (chain cs deflt)"
  using assms
proof (induction cur val cls cs deflt f rule: emitLinear.induct)
  case (1 cur val cls deflt f)
  note g = Goto_grows[OF 1(1,3), of deflt]
  show ?case using g by (auto simp: emitted_def chain_def intro: code_done)
next
  case (2 cur val cls c deflt f)
  obtain k f1 where k: "func_ConstInt cls (sc_Val c) f = (k, f1)" by fastforce
  obtain r f2 where r: "emitCmp cur CmpEq ClsW val k f1 = (r, f2)" by fastforce
  note K = ConstInt_grows[OF 2(1) k]
  have ok1: "constIdx_ok f1" "cur < length (f_arena f1)" "n \<le> length (f_Temps f1)" using K(1)[of cur] K(3,4) 2 by (auto simp: grows_def)
  note T = test_emitted[OF ok1 K(2) r]
  have ok2: "constIdx_ok f2" "cur < length (f_arena f2)" using T(1) ok1(2) by (auto simp: grows_def)
  note J = Jnz_grows[OF ok2, where c = r and t = "sc_Blk c" and e = deflt]
  have "cmp_block n (Jnz cur r (sc_Blk c) deflt f2) val cls CmpEq (sc_Val c) cur (length (b_Instrs (blk f1 cur))) (sc_Blk c) deflt"
    by (rule T(2)[OF J(1,3,2)])
  moreover have "grows cur f (Jnz cur r (sc_Blk c) deflt f2)"
    by (rule grows_trans[OF grows_trans[OF K(1) T(1) 2(3)] J(1) 2(3)])
  ultimately show ?case using k r by (auto simp: emitted_def chain_def emit_test_def K(5) intro: code_last)
next
  case (3 cur val cls c c' cs deflt f)
  let ?cs = "c' # cs"
  obtain k f1 where k: "func_ConstInt cls (sc_Val c) f = (k, f1)" by fastforce
  obtain r f2 where r: "emitCmp cur CmpEq ClsW val k f1 = (r, f2)" by fastforce
  obtain nxt f3 where nx: "NewBlock [] f2 = (nxt, f3)" by fastforce
  define f4 where "f4 = Jnz cur r (sc_Blk c) (Some nxt) f3"
  define g where "g = emitLinear nxt val cls ?cs deflt f4"
  note K = ConstInt_grows[OF 3(2) k]
  have ok1: "constIdx_ok f1" "f_Start f1 \<noteq> None" "cur < length (f_arena f1)" "n \<le> length (f_Temps f1)"
    using K(1)[of cur] K(3,4) 3(3-5) by (auto simp: grows_def)
  note N = test_and_next(1)[OF ok1 K(2) r nx, where t = "sc_Blk c", folded f4_def] test_and_next(2)[OF ok1 K(2) r nx]
    test_and_next(3-6)[OF ok1 K(2) r nx, where t = "sc_Blk c", folded f4_def]
  have g04: "grows cur f f4" by (rule grows_trans[OF K(1) N(1) 3(4)])
  have ok4: "constIdx_ok f4" "f_Start f4 \<noteq> None" "nxt < length (f_arena f4)" "n \<le> length (f_Temps f4)"
    using g04 3(3,5) N(3) prefix_length_le[of "f_Temps f" "f_Temps f4"] by (auto simp: grows_def)
  have IH: "emitted n val cls sg nxt f4 g (chain ?cs deflt)"
    unfolding g_def f4_def by (rule 3(1)[OF _ refl nx[symmetric] refl]) (use k r ok4 in \<open>simp_all add: emit_test_def f4_def\<close>)
  have gr: "grows nxt f4 g" and sub: "code (insert nxt {length (f_arena f4)..<length (f_arena g)}) n g val cls sg nxt 0 (chain ?cs deflt)"
    using IH N(5) by (simp_all add: emitted_def)
  have nf: "nxt = length (f_arena f)" "cur \<noteq> nxt" "cur < length (f_arena f4)" using N(2,3) K(3) 3(4) by auto
  have all: "grows cur f g" by (rule grows_new[OF g04 gr _ 3(4)]) (simp add: nf(1))
  have lenle: "Suc nxt \<le> length (f_arena g)" using gr N(3) by (simp add: grows_def)
  have S: "insert nxt {length (f_arena f4)..<length (f_arena g)} \<subseteq> insert cur {length (f_arena f)..<length (f_arena g)}"
    using nf N(3) lenle by auto
  have "code (insert cur {length (f_arena f)..<length (f_arena g)}) n g val cls sg cur (length (b_Instrs (blk f1 cur))) (Test (sc_Val c) (sc_Blk c) (chain ?cs deflt))"
  proof (rule code_test)
    show "cmp_block n g val cls CmpEq (sc_Val c) cur (length (b_Instrs (blk f1 cur))) (sc_Blk c) (Some nxt)"
      by (rule cmp_block_grows[OF N(6) gr nf(2,3)])
    show "b_Phis (blk g nxt) = []" using gr N(4) by (simp add: grows_def)
    show "code (insert cur {length (f_arena f)..<length (f_arena g)}) n g val cls sg nxt 0 (chain ?cs deflt)"
      by (rule code_mono[OF sub _ _ _ S]) simp_all
  qed simp
  moreover have "emitLinear cur val cls (c # ?cs) deflt f = g" using k r nx by (simp add: emit_test_def g_def f4_def)
  ultimately show ?case using all by (simp add: emitted_def chain_def K(5))
qed

text \<open>A test at the start of a new block whose arms are two further new blocks.\<close>

lemma test_and_two:
  fixes t :: "bptr option"
  assumes ok: "constIdx_ok f" and start: "f_Start f \<noteq> None" and cur: "cur < length (f_arena f)" and n: "n \<le> length (f_Temps f)"
    and const: "int_const f kr cls v" and cmp: "emitCmp cur pred ClsW val kr f = (r, f1)"
    and new1: "NewBlock [] f1 = (left, f2)" and new2: "NewBlock [] f2 = (right, f3)"
  shows "grows cur f (Jnz cur r (Some left) (Some right) f3)" "left = length (f_arena f)" "right = Suc (length (f_arena f))"
    "length (f_arena (Jnz cur r (Some left) (Some right) f3)) = Suc (Suc (length (f_arena f)))"
    "b_Phis (blk (Jnz cur r (Some left) (Some right) f3) left) = []" "b_Instrs (blk (Jnz cur r (Some left) (Some right) f3) left) = []"
    "b_Phis (blk (Jnz cur r (Some left) (Some right) f3) right) = []" "b_Instrs (blk (Jnz cur r (Some left) (Some right) f3) right) = []"
    "cmp_block n (Jnz cur r (Some left) (Some right) f3) val cls pred v cur (length (b_Instrs (blk f cur))) (Some left) (Some right)"
proof -
  let ?f4 = "Jnz cur r (Some left) (Some right) f3"
  note c = test_emitted[OF ok cur n const cmp]
  have len1: "length (f_arena f1) = length (f_arena f)" by (rule emitCmp_grows(4)[OF ok cur cmp])
  have ok1: "constIdx_ok f1" "f_Start f1 \<noteq> None" "cur < length (f_arena f1)" using c(1) start cur len1 by (auto simp: grows_def)
  note b = NewBlock_grows[OF ok1(1,2) new1 ok1(3)]
  have ok2: "constIdx_ok f2" "f_Start f2 \<noteq> None" "cur < length (f_arena f2)" using b(1-3) ok1(2,3) by (auto simp: grows_def)
  note d = NewBlock_grows[OF ok2(1,2) new2 ok2(3)]
  have ok3: "constIdx_ok f3" "cur < length (f_arena f3)" using d(1-3) ok2(3) by (auto simp: grows_def)
  note j = Jnz_grows[OF ok3, where c = r and t = "Some left" and e = "Some right"]
  show l: "left = length (f_arena f)" "right = Suc (length (f_arena f))" using b(2,3) d(2) len1 by simp_all
  show "length (f_arena ?f4) = Suc (Suc (length (f_arena f)))" using d(3) j(6) l by simp
  have far: "left \<noteq> cur" "right \<noteq> cur" "left < length (f_arena f2)" using l cur b(2,3) by simp_all
  have "blk ?f4 left = blk f2 left" using j(7)[OF far(1)] d(8)[OF far(3)] by simp
  then show "b_Phis (blk ?f4 left) = []" "b_Instrs (blk ?f4 left) = []" using b(4,5) by simp_all
  show "b_Phis (blk ?f4 right) = []" "b_Instrs (blk ?f4 right) = []" using d(4,5) j(7)[OF far(2)] by simp_all
  have g13: "grows cur f1 ?f4" by (rule grows_trans[OF grows_trans[OF b(1) d(1) ok1(3)] j(1) ok1(3)])
  show "grows cur f ?f4" by (rule grows_trans[OF c(1) g13 cur])
  have "b_Instrs (blk ?f4 cur) = b_Instrs (blk f1 cur)" using j(3) d(8)[OF ok2(3)] b(8)[OF ok1(3)] by simp
  then show "cmp_block n ?f4 val cls pred v cur (length (b_Instrs (blk f cur))) (Some left) (Some right)" using c(2)[OF g13] j(2) by blast
qed

lemma slice_split:
  assumes "0 \<le> lo" "lo \<le> hi" "hi < int (length cs)"
  shows "length (subslice cs lo (hi + 1)) = nat (hi - lo + 1)"
    "subslice cs lo (hi + 1) ! ((length (subslice cs lo (hi + 1)) - 1) div 2) = cs ! nat ((lo + hi) div 2)"
    "take ((length (subslice cs lo (hi + 1)) - 1) div 2) (subslice cs lo (hi + 1)) = subslice cs lo ((lo + hi) div 2)"
    "drop (Suc ((length (subslice cs lo (hi + 1)) - 1) div 2)) (subslice cs lo (hi + 1)) = subslice cs ((lo + hi) div 2 + 1) (hi + 1)"
proof -
  obtain a d where ad: "lo = int a" "hi = int a + int d" using assms(1,2) by (metis nonneg_int_cases zle_iff_zadd)
  have mid: "(lo + hi) div 2 = int (a + d div 2)" unfolding ad by (simp add: zdiv_int[symmetric] add.assoc[symmetric] mult_2[symmetric])
  show len: "length (subslice cs lo (hi + 1)) = nat (hi - lo + 1)" using assms by (simp add: subslice_def ad)
  have "length (subslice cs lo (hi + 1)) = Suc d" using len ad by simp
  then have m: "(length (subslice cs lo (hi + 1)) - 1) div 2 = d div 2" by simp
  show "subslice cs lo (hi + 1) ! ((length (subslice cs lo (hi + 1)) - 1) div 2) = cs ! nat ((lo + hi) div 2)"
    unfolding m mid using assms(3) by (simp add: subslice_def ad nat_int_add)
  show "take ((length (subslice cs lo (hi + 1)) - 1) div 2) (subslice cs lo (hi + 1)) = subslice cs lo ((lo + hi) div 2)"
    unfolding m mid by (simp add: subslice_def ad min_def)
  show "drop (Suc ((length (subslice cs lo (hi + 1)) - 1) div 2)) (subslice cs lo (hi + 1)) = subslice cs ((lo + hi) div 2 + 1) (hi + 1)"
    unfolding m mid by (simp add: subslice_def ad drop_take nat_add_distrib add.commute nat_diff_distrib')
qed

lemma emitSearch_rec_code:
  assumes "constIdx_ok f" "f_Start f \<noteq> None" "cur < length (f_arena f)" "n \<le> length (f_Temps f)"
    "0 \<le> lo" "hi < int (length cs)"
  shows "emitted n val cls sg cur f (emitSearch_rec val cls (if sg then CmpSlt else CmpUlt) cs deflt cur lo hi f)
    (search (subslice cs lo (hi + 1)) deflt)"
  using assms
proof (induction "nat (hi - lo + 1)" arbitrary: cur lo hi f rule: less_induct)
  case less
  let ?lt = "if sg then CmpSlt else CmpUlt" and ?e = "emitSearch_rec val cls (if sg then CmpSlt else CmpUlt) cs deflt"
  note ok = less.prems(1-4)
  consider "hi < lo" | "lo \<le> hi" "hi - lo + 1 \<le> int linearMax" | "lo \<le> hi" "\<not> hi - lo + 1 \<le> int linearMax" by linarith
  then show ?case
  proof cases
    case 1
    have e: "?e cur lo hi f = emitLinear cur val cls [] deflt f" using 1 by (simp add: emitSearch_rec.simps)
    have "subslice cs lo (hi + 1) = []" using 1 by (simp add: subslice_def)
    then show ?thesis unfolding e using emitLinear_code[OF ok, of val cls sg "[]" deflt] by (simp add: search_chain)
  next
    case 2
    have e: "?e cur lo hi f = emitLinear cur val cls (subslice cs lo (hi + 1)) deflt f" using 2 by (simp add: emitSearch_rec.simps)
    have "length (subslice cs lo (hi + 1)) \<le> linearMax" using slice_split(1)[OF less.prems(5) 2(1) less.prems(6)] 2(2) by simp
    then show ?thesis unfolding e using emitLinear_code[OF ok] by (simp add: search_chain)
  next
    case 3
    let ?mid = "(lo + hi) div 2"
    define c where "c = cs ! nat ?mid"
    note sl = slice_split[OF less.prems(5) 3(1) less.prems(6)]
    have big: "\<not> length (subslice cs lo (hi + 1)) \<le> linearMax" using sl(1) 3 by simp
    have tree: "search (subslice cs lo (hi + 1)) deflt = Split (sc_Val c) (sc_Blk c) (search (subslice cs lo ?mid) deflt)
        (search (subslice cs (?mid + 1) (hi + 1)) deflt)"
      unfolding search_split[OF big refl] sl(2-4) c_def ..
    obtain kr f1 where k: "func_ConstInt cls (sc_Val c) f = (kr, f1)" by fastforce
    obtain r f2 where r: "emitCmp cur CmpEq ClsW val kr f1 = (r, f2)" by fastforce
    obtain order f3 where o: "NewBlock [] f2 = (order, f3)" by fastforce
    define f4 where "f4 = Jnz cur r (sc_Blk c) (Some order) f3"
    obtain q f5 where q: "emitCmp order ?lt ClsW val kr f4 = (q, f5)" by fastforce
    obtain left f6 where l: "NewBlock [] f5 = (left, f6)" by fastforce
    obtain right f7 where rt: "NewBlock [] f6 = (right, f7)" by fastforce
    define f8 where "f8 = Jnz order q (Some left) (Some right) f7"
    define f9 where "f9 = ?e left lo (?mid - 1) f8"
    define g where "g = ?e right (?mid + 1) hi f9"
    have run: "?e cur lo hi f = g"
      unfolding emitSearch_rec.simps[of val cls ?lt cs deflt cur lo hi f] using 3 k r o q l rt
      by (simp add: Let_def c_def[symmetric] g_def f9_def f8_def f4_def)
    note K = ConstInt_grows[OF ok(1) k]
    have ok1: "constIdx_ok f1" "f_Start f1 \<noteq> None" "cur < length (f_arena f1)" "n \<le> length (f_Temps f1)"
      using K(1)[of cur] K(3,4) ok(2-4) by (auto simp: grows_def)
    note N = test_and_next(1)[OF ok1 K(2) r o, where t = "sc_Blk c", folded f4_def] test_and_next(2)[OF ok1 K(2) r o]
      test_and_next(3-6)[OF ok1 K(2) r o, where t = "sc_Blk c", folded f4_def]
    have ok4: "constIdx_ok f4" "f_Start f4 \<noteq> None" "order < length (f_arena f4)" "n \<le> length (f_Temps f4)" "int_const f4 kr cls (sc_Val c)"
      using N(1,3) ok1(2,4) prefix_length_le[of "f_Temps f1" "f_Temps f4"] int_const_mono[OF K(2)] by (auto simp: grows_def)
    note M = test_and_two[OF ok4 q l rt, folded f8_def]
    have at: "order = length (f_arena f)" "left = Suc order" "right = Suc left" "length (f_arena f4) = Suc order"
        "length (f_arena f8) = Suc right" "cur < order"
      using N(2,3) M(2-4) K(3) ok(3) by auto
    have ok8: "constIdx_ok f8" "f_Start f8 \<noteq> None" "left < length (f_arena f8)" "n \<le> length (f_Temps f8)"
      using M(1) ok4(2,4) at prefix_length_le[of "f_Temps f4" "f_Temps f8"] by (auto simp: grows_def)
    have "emitted n val cls sg left f8 f9 (search (subslice cs lo (?mid - 1 + 1)) deflt)"
      unfolding f9_def by (rule less.hyps) (use ok8 less.prems(5,6) 3 in \<open>simp_all add: linearMax_def\<close>)
    then have L: "grows left f8 f9" "code (insert left {Suc right..<length (f_arena f9)}) n f9 val cls sg left 0 (search (subslice cs lo ?mid) deflt)"
      using M(6) at(5) by (simp_all add: emitted_def)
    have ok9: "constIdx_ok f9" "f_Start f9 \<noteq> None" "right < length (f_arena f9)" "n \<le> length (f_Temps f9)"
      using L(1) ok8(2,4) at(5) prefix_length_le[of "f_Temps f8" "f_Temps f9"] by (auto simp: grows_def)
    have "emitted n val cls sg right f9 g (search (subslice cs (?mid + 1) (hi + 1)) deflt)"
      unfolding g_def by (rule less.hyps) (use ok9 less.prems(5,6) 3 in \<open>simp_all add: linearMax_def\<close>)
    moreover have "blk f9 right = blk f8 right" using L(1) at by (simp add: grows_def)
    ultimately have R: "grows right f9 g" "code (insert right {length (f_arena f9)..<length (f_arena g)}) n g val cls sg right 0 (search (subslice cs (?mid + 1) (hi + 1)) deflt)"
      using M(8) by (simp_all add: emitted_def)
    have le: "Suc right \<le> length (f_arena f9)" "length (f_arena f9) \<le> length (f_arena g)" using ok9(3) R(1) by (simp_all add: grows_def)
    have all: "grows cur f g"
    proof -
      have "grows order f4 g"
        by (rule grows_new[OF grows_new[OF M(1) L(1) _ ok4(3)] R(1) _ ok4(3)]) (use at in simp_all)
      then show ?thesis by (rule grows_new[OF grows_trans[OF K(1) N(1) ok(3)] _ _ ok(3)]) (use at in simp)
    qed
    let ?S = "insert cur {length (f_arena f)..<length (f_arena g)}"
    have phis: "b_Phis (blk g order) = []" "b_Phis (blk g left) = []" "b_Phis (blk g right) = []"
    proof -
      have "b_Phis (blk f8 order) = []" using M(1) N(4) by (simp add: grows_def)
      then show "b_Phis (blk g order) = []" using L(1) R(1) at le by (simp add: grows_def)
      show "b_Phis (blk g left) = []" using L(1) R(1) M(5) at le by (simp add: grows_def)
      show "b_Phis (blk g right) = []" using L(1) R(1) M(7) at le by (simp add: grows_def)
    qed
    have "code ?S n g val cls sg cur (length (b_Instrs (blk f1 cur))) (Split (sc_Val c) (sc_Blk c) (search (subslice cs lo ?mid) deflt)
        (search (subslice cs (?mid + 1) (hi + 1)) deflt))"
    proof (rule code_split[where order = order and l = left and r = right])
      have "cmp_block n f8 val cls CmpEq (sc_Val c) cur (length (b_Instrs (blk f1 cur))) (sc_Blk c) (Some order)"
        by (rule cmp_block_grows[OF N(6) M(1)]) (use at in simp_all)
      then have "cmp_block n f9 val cls CmpEq (sc_Val c) cur (length (b_Instrs (blk f1 cur))) (sc_Blk c) (Some order)"
        by (rule cmp_block_grows[OF _ L(1)]) (use at in simp_all)
      then show "cmp_block n g val cls CmpEq (sc_Val c) cur (length (b_Instrs (blk f1 cur))) (sc_Blk c) (Some order)"
        by (rule cmp_block_grows[OF _ R(1)]) (use at le in simp_all)
      have "cmp_block n f9 val cls ?lt (sc_Val c) order 0 (Some left) (Some right)"
        by (rule cmp_block_grows[OF M(9)[unfolded N(5) list.size] L(1)]) (use at in simp_all)
      then show "cmp_block n g val cls ?lt (sc_Val c) order 0 (Some left) (Some right)"
        by (rule cmp_block_grows[OF _ R(1)]) (use at le in simp_all)
      show "code ?S n g val cls sg left 0 (search (subslice cs lo ?mid) deflt)"
        by (rule code_grows[OF L(2) R(1)]) (use at le in auto)
      show "code ?S n g val cls sg right 0 (search (subslice cs (?mid + 1) (hi + 1)) deflt)"
        by (rule code_mono[OF R(2)]) (use at le in auto)
    qed (use phis at le in auto)
    then show ?thesis unfolding run tree using all by (simp add: emitted_def K(5))
  qed
qed

section \<open>The pass over a function\<close>

text \<open>The decision tree of a switch.\<close>

definition switch_tree :: "jmp \<Rightarrow> dtree" where
  "switch_tree j = search (sort_key (case_key (j_Signed j)) (j_Cases j)) (j_To j)"

lemma lowerSwitch_code:
  assumes "constIdx_ok f" "f_Start f \<noteq> None" "b < length (f_arena f)" "n \<le> length (f_Temps f)" "ClassOf f (j_Arg (b_Jmp (blk f b))) = Some cls"
  shows "\<exists>g. lowerSwitch b f = Some g \<and> grows b f g \<and> j_Kind (b_Jmp (blk g b)) \<noteq> JmpSwitch \<and>
    code (insert b {length (f_arena f)..<length (f_arena g)}) n g (j_Arg (b_Jmp (blk f b))) cls (j_Signed (b_Jmp (blk f b))) b
      (length (b_Instrs (blk f b))) (switch_tree (b_Jmp (blk f b)))"
proof -
  let ?j = "b_Jmp (blk f b)" and ?f1 = "upd_blk b (\<lambda>x. x\<lparr>b_Jmp := jmp0\<rparr>) f"
  define cases where "cases = sort_key (case_key (j_Signed ?j)) (j_Cases ?j)"
  define g where "g = (if length cases \<le> linearMax then emitLinear b (j_Arg ?j) cls cases (j_To ?j) ?f1
    else emitSearch b (j_Arg ?j) cls (j_Signed ?j) cases (j_To ?j) ?f1)"
  have g: "lowerSwitch b f = Some g" using assms(5) by (simp add: lowerSwitch_def Let_def g_def cases_def)
  have g1: "grows b f ?f1" using assms(1,3) by (auto simp: grows_def constIdx_ok_def jmp0_def) (simp add: upd_blk_def)
  have ok1: "constIdx_ok ?f1" "f_Start ?f1 \<noteq> None" "b < length (f_arena ?f1)" "n \<le> length (f_Temps ?f1)"
    using g1 assms(2-4) by (auto simp: grows_def)
  have "emitted n (j_Arg ?j) cls (j_Signed ?j) b ?f1 g (search cases (j_To ?j))"
  proof (cases "length cases \<le> linearMax")
    case True
    then show ?thesis using emitLinear_code[OF ok1] by (simp add: g_def search_chain)
  next
    case False
    have "subslice cases 0 (int (length cases)) = cases" by (simp add: subslice_def)
    then show ?thesis using False emitSearch_rec_code[OF ok1, of 0 "int (length cases) - 1" cases "j_Arg ?j" cls "j_Signed ?j" "j_To ?j"]
      by (simp add: g_def emitSearch_def)
  qed
  then have em: "grows b ?f1 g" "code (insert b {length (f_arena f)..<length (f_arena g)}) n g (j_Arg ?j) cls (j_Signed ?j) b
      (length (b_Instrs (blk f b))) (switch_tree ?j)"
    using assms(3) by (simp_all add: emitted_def switch_tree_def cases_def)
  have "j_Kind (b_Jmp (blk g b)) \<noteq> JmpSwitch" using em(1) assms(3) by (auto simp: grows_def jmp0_def)
  then show ?thesis using g em(2) grows_trans[OF g1 em(1) assms(3)] by blast
qed

lemma ClassOf_prefix: "ClassOf f r = Some c \<Longrightarrow> prefix (f_Temps f) (f_Temps g) \<Longrightarrow> prefix (f_Consts f) (f_Consts g) \<Longrightarrow> ClassOf g r = Some c"
  by (auto simp: ClassOf_def prefix_def nth_append split: refkind.splits if_split_asm)

text \<open>What is asked of a function with switches: its blocks are in order and each controlling value has a class.\<close>

definition switch_block :: "func \<Rightarrow> bptr \<Rightarrow> bool" where
  "switch_block f b \<longleftrightarrow> b \<in> set (f_Blocks f) \<and> j_Kind (b_Jmp (blk f b)) = JmpSwitch"

definition switches_ready :: "func \<Rightarrow> bool" where
  "switches_ready f \<longleftrightarrow> constIdx_ok f \<and> f_Start f \<noteq> None \<and> distinct (f_Blocks f) \<and> (\<forall>b \<in> set (f_Blocks f). b < length (f_arena f)) \<and>
     (\<forall>b. switch_block f b \<longrightarrow> ClassOf f (j_Arg (b_Jmp (blk f b))) \<noteq> None)"

definition dispatches :: "func \<Rightarrow> func \<Rightarrow> bptr \<Rightarrow> bool" where
  "dispatches f g b \<longleftrightarrow> (\<exists>S cls. ClassOf f (j_Arg (b_Jmp (blk f b))) = Some cls \<and> S \<subseteq> insert b {length (f_arena f)..<length (f_arena g)} \<and>
     code S (length (f_Temps f)) g (j_Arg (b_Jmp (blk f b))) cls (j_Signed (b_Jmp (blk f b))) b
       (length (b_Instrs (blk f b))) (switch_tree (b_Jmp (blk f b))))"

text \<open>After some of the blocks.\<close>

definition lowered_upto :: "func \<Rightarrow> bptr list \<Rightarrow> func \<Rightarrow> bool" where
  "lowered_upto f ys g \<longleftrightarrow> constIdx_ok g \<and> f_Start g = f_Start f \<and> f_Name g = f_Name f \<and> length (f_arena f) \<le> length (f_arena g) \<and>
     prefix (f_Temps f) (f_Temps g) \<and> prefix (f_Consts f) (f_Consts g) \<and>
     f_Blocks g = f_Blocks f @ [length (f_arena f)..<length (f_arena g)] \<and>
     (\<forall>b < length (f_arena f). \<not> (b \<in> set ys \<and> switch_block f b) \<longrightarrow> blk g b = blk f b) \<and>
     (\<forall>b < length (f_arena f). b_Phis (blk g b) = b_Phis (blk f b) \<and> prefix (b_Instrs (blk f b)) (b_Instrs (blk g b))) \<and>
     (\<forall>b \<in> set ys. switch_block f b \<longrightarrow> dispatches f g b \<and> j_Kind (b_Jmp (blk g b)) \<noteq> JmpSwitch) \<and>
     (\<forall>p. j_Kind (b_Jmp (blk g p)) = JmpSwitch \<longrightarrow> b_Jmp (blk g p) = b_Jmp (blk f p))"

lemma dispatches_grows:
  assumes "dispatches f g b" "grows b' g h" "b' \<noteq> b" "b' < length (f_arena f)" "b < length (f_arena g)"
  shows "dispatches f h b"
proof -
  obtain S cls where S: "ClassOf f (j_Arg (b_Jmp (blk f b))) = Some cls" "S \<subseteq> insert b {length (f_arena f)..<length (f_arena g)}"
    "code S (length (f_Temps f)) g (j_Arg (b_Jmp (blk f b))) cls (j_Signed (b_Jmp (blk f b))) b (length (b_Instrs (blk f b))) (switch_tree (b_Jmp (blk f b)))"
    using assms(1) by (auto simp: dispatches_def)
  have "code S (length (f_Temps f)) h (j_Arg (b_Jmp (blk f b))) cls (j_Signed (b_Jmp (blk f b))) b (length (b_Instrs (blk f b))) (switch_tree (b_Jmp (blk f b)))"
    by (rule code_grows[OF S(3) assms(2)]) (use S(2) assms(3-5) in auto)
  moreover have "S \<subseteq> insert b {length (f_arena f)..<length (f_arena h)}" using S(2) assms(2) by (force simp: grows_def)
  ultimately show ?thesis using S(1) by (auto simp: dispatches_def)
qed

lemma lowered_step:
  assumes ready: "switches_ready f" and I: "lowered_upto f ys g" and b: "b \<notin> set ys" "switch_block f b"
  shows "\<exists>h. lowerSwitch b g = Some h \<and> lowered_upto f (ys @ [b]) h"
proof -
  have bl: "b < length (f_arena f)" using ready b(2) by (auto simp: switches_ready_def switch_block_def)
  then have same: "blk g b = blk f b" and bg: "b < length (f_arena g)" using I b(1) by (auto simp: lowered_upto_def)
  obtain cls where cls: "ClassOf f (j_Arg (b_Jmp (blk f b))) = Some cls" using ready b(2) by (auto simp: switches_ready_def)
  have "prefix (f_Temps f) (f_Temps g)" "prefix (f_Consts f) (f_Consts g)" using I by (simp_all add: lowered_upto_def)
  then have cls': "ClassOf g (j_Arg (b_Jmp (blk g b))) = Some cls" and n: "length (f_Temps f) \<le> length (f_Temps g)"
    using ClassOf_prefix[OF cls] prefix_length_le unfolding same by auto
  have ok: "constIdx_ok g" "f_Start g \<noteq> None" using I ready by (auto simp: lowered_upto_def switches_ready_def)
  obtain h where h: "lowerSwitch b g = Some h" "grows b g h" "j_Kind (b_Jmp (blk h b)) \<noteq> JmpSwitch"
    "code (insert b {length (f_arena g)..<length (f_arena h)}) (length (f_Temps f)) h (j_Arg (b_Jmp (blk f b))) cls (j_Signed (b_Jmp (blk f b))) b
      (length (b_Instrs (blk f b))) (switch_tree (b_Jmp (blk f b)))"
    using lowerSwitch_code[OF ok bg n cls'] unfolding same by blast
  have len: "length (f_arena f) \<le> length (f_arena g)" "length (f_arena g) \<le> length (f_arena h)" using I h(2) by (simp_all add: lowered_upto_def grows_def)
  have here: "dispatches f h b" unfolding dispatches_def using cls h(4) len
    by (intro exI[of _ "insert b {length (f_arena g)..<length (f_arena h)}"] exI[of _ cls]) auto
  have old: "dispatches f h b' \<and> j_Kind (b_Jmp (blk h b')) \<noteq> JmpSwitch" if b': "b' \<in> set ys" "switch_block f b'" for b'
  proof -
    have lt: "b' < length (f_arena f)" using ready b'(2) by (auto simp: switches_ready_def switch_block_def)
    have "dispatches f g b'" "j_Kind (b_Jmp (blk g b')) \<noteq> JmpSwitch" using I b' by (auto simp: lowered_upto_def)
    moreover have "b \<noteq> b'" using b(1) b'(1) by auto
    moreover have "blk h b' = blk g b'" using h(2) lt len(1) \<open>b \<noteq> b'\<close> by (simp add: grows_def)
    ultimately show ?thesis using dispatches_grows[OF _ h(2) _ bl] lt len(1) by simp
  qed
  have upt: "[length (f_arena f)..<length (f_arena h)] = [length (f_arena f)..<length (f_arena g)] @ [length (f_arena g)..<length (f_arena h)]"
    using len upt_add_eq_append[of "length (f_arena f)" "length (f_arena g)" "length (f_arena h) - length (f_arena g)"] by simp
  have keep: "blk h p = blk g p" if "p < length (f_arena f)" "p \<noteq> b" for p using h(2) that len(1) by (simp add: grows_def)
  have bb: "b_Phis (blk h b) = b_Phis (blk g b)" "prefix (b_Instrs (blk g b)) (b_Instrs (blk h b))" using h(2) by (simp_all add: grows_def)
  have blocks: "b_Phis (blk h p) = b_Phis (blk f p) \<and> prefix (b_Instrs (blk f p)) (b_Instrs (blk h p))" if "p < length (f_arena f)" for p
    using I that keep[OF that] bb prefix_order.trans by (cases "p = b") (auto simp: lowered_upto_def)
  have "lowered_upto f (ys @ [b]) h"
    unfolding lowered_upto_def
  proof (intro conjI)
    show "\<forall>p. j_Kind (b_Jmp (blk h p)) = JmpSwitch \<longrightarrow> b_Jmp (blk h p) = b_Jmp (blk f p)"
      using I h(2) by (metis grows_def lowered_upto_def)
    show "\<forall>b' \<in> set (ys @ [b]). switch_block f b' \<longrightarrow> dispatches f h b' \<and> j_Kind (b_Jmp (blk h b')) \<noteq> JmpSwitch" using old here h(3) by auto
    show "\<forall>p < length (f_arena f). \<not> (p \<in> set (ys @ [b]) \<and> switch_block f p) \<longrightarrow> blk h p = blk f p"
    proof (intro allI impI)
      fix p assume p: "p < length (f_arena f)" "\<not> (p \<in> set (ys @ [b]) \<and> switch_block f p)"
      then have "p \<noteq> b" "\<not> (p \<in> set ys \<and> switch_block f p)" using b(2) by auto
      then show "blk h p = blk f p" using keep[OF p(1)] I p(1) by (simp add: lowered_upto_def)
    qed
    show "f_Blocks h = f_Blocks f @ [length (f_arena f)..<length (f_arena h)]" using I h(2) upt by (simp add: lowered_upto_def grows_def)
    show "prefix (f_Temps f) (f_Temps h)" "prefix (f_Consts f) (f_Consts h)"
      using I h(2) prefix_order.trans by (auto simp: lowered_upto_def grows_def)
  qed (use I h(2) len blocks in \<open>auto simp: lowered_upto_def grows_def\<close>)
  with h(1) show ?thesis by blast
qed

lemma Switches_lowered:
  assumes ready: "switches_ready f"
  shows "\<exists>g c. Switches f = Some (g, c) \<and> lowered_upto f (f_Blocks f) g \<and> (c \<longleftrightarrow> (\<exists>b. switch_block f b))"
proof -
  define I where "I = (\<lambda>ys (g, c). lowered_upto f ys g \<and> (c \<longleftrightarrow> (\<exists>b \<in> set ys. switch_block f b)))"
  have "\<exists>s. fold_opt (\<lambda>b (g, changed).
     if j_Kind (b_Jmp (blk g b)) = JmpSwitch then Option.bind (lowerSwitch b g) (\<lambda>g'. Some (g', True))
     else Some (g, changed)) (f_Blocks f) (f, False) = Some s \<and> I (f_Blocks f) s"
  proof (rule fold_opt_invar[where I = I])
    show "I [] (f, False)" using ready by (simp add: I_def lowered_upto_def switches_ready_def)
    fix b ys zs t assume split: "f_Blocks f = ys @ b # zs" and "I ys t"
    then obtain g c where t: "t = (g, c)" and I: "lowered_upto f ys g" "c \<longleftrightarrow> (\<exists>b \<in> set ys. switch_block f b)"
      by (cases t) (auto simp: I_def)
    have b: "b \<notin> set ys" "b \<in> set (f_Blocks f)" using ready split by (auto simp: switches_ready_def)
    then have "b < length (f_arena f)" using ready by (simp add: switches_ready_def)
    then have same: "blk g b = blk f b" using I(1) b(1) by (simp add: lowered_upto_def)
    show "\<exists>t'. (case t of (g, changed) \<Rightarrow> if j_Kind (b_Jmp (blk g b)) = JmpSwitch then Option.bind (lowerSwitch b g) (\<lambda>g'. Some (g', True))
       else Some (g, changed)) = Some t' \<and> I (ys @ [b]) t'"
    proof (cases "switch_block f b")
      case True
      then show ?thesis using lowered_step[OF ready I(1) b(1)] same by (auto simp: t I_def switch_block_def)
    next
      case False
      then have "lowered_upto f (ys @ [b]) g" using I(1) by (auto simp: lowered_upto_def)
      then show ?thesis using False I(2) b(2) same by (auto simp: t I_def switch_block_def)
    qed
  qed
  then show ?thesis by (auto simp: Switches_def I_def switch_block_def)
qed

end
