(* ===== verification/Switch_Run.thy ===== *)
theory Switch_Run
  imports Switch_Lower IR_Verify
begin

text \<open>
  Lowered switches in the interpreter: running the dispatch code that \<open>lower/switch.go\<close> emits leads to
  the block the switch names.  At the end, the phis of the targets, which the pass forgets.
\<close>

section \<open>Running the dispatch\<close>

text \<open>
  The rest of one iteration of \<open>run\<close> from the \<open>k\<close>-th instruction of a block on, the remaining
  iterations included.
\<close>

definition run_from :: "nat \<Rightarrow> float_ops \<Rightarrow> (string \<Rightarrow> extern option) \<Rightarrow> func \<Rightarrow> bptr \<Rightarrow> nat \<Rightarrow> frame \<times> machine \<Rightarrow> trap + val \<times> machine" where
  "run_from N fo ext own cur k st =
     e_then (e_fold (exec_step fo ext (callFunc_with (run N fo ext)) own) (drop k (b_Instrs (blk own cur))) st) (\<lambda>(fr, mc).
     e_then (execTerminator fo mc own fr (b_Jmp (blk own cur))) (\<lambda>t. case t of
         Return v \<Rightarrow> Inr (v, mc)
       | Next g c \<Rightarrow> run N fo ext g (Some (f_Name own, cur)) c (fr, mc)))"

lemma e_then_assoc: "e_then (e_then a k) l = e_then a (\<lambda>x. e_then (k x) l)"
  by (simp add: e_then_def split: sum.splits)

lemma run_run_from:
  "run (Suc N) fo ext own from (Some b) (fr, mc) =
     e_then (resolvePhis fo mc own b from fr) (\<lambda>fr1.
     e_then (e_fold (exec_step fo ext (callFunc_with (run N fo ext)) own) (take k (b_Instrs (blk own b))) (fr1, mc)) (run_from N fo ext own b k))"
proof -
  have i: "b_Instrs (blk own b) = take k (b_Instrs (blk own b)) @ drop k (b_Instrs (blk own b))" by simp
  have "e_fold h (b_Instrs (blk own b)) s = e_then (e_fold h (take k (b_Instrs (blk own b))) s) (e_fold h (drop k (b_Instrs (blk own b))))"
    for h :: "instr \<Rightarrow> frame \<times> machine \<Rightarrow> trap + frame \<times> machine" and s by (subst i) (rule e_fold_append)
  then show ?thesis
    by (simp add: exec_block_def e_then_assoc)
      (auto simp: e_then_def run_from_def split: sum.splits prod.splits transfer.splits)
qed

lemma run_enter:
  assumes "b_Phis (blk own b) = []"
  shows "run (Suc N) fo ext own from (Some b) st = run_from N fo ext own b 0 st"
  using run_run_from[of N fo ext own "from" b "fst st" "snd st" 0] assms
  by (simp add: resolvePhis_def Let_def e_then_def)

text \<open>A frame of \<open>g\<close> in which \<open>val\<close> reads as \<open>v\<close>, and a machine without a budget.\<close>

definition dispatch_state :: "float_ops \<Rightarrow> nat \<Rightarrow> func \<Rightarrow> ref \<Rightarrow> val \<Rightarrow> frame \<times> machine \<Rightarrow> bool" where
  "dispatch_state fo n g val v = (\<lambda>(fr, mc). fr_fn fr = g \<and> length (fr_vals fr) = length (f_Temps g) \<and> mc_fuel mc = 0 \<and>
     evalRef fo mc fr val = Inr v \<and> (r_Kind val = RefTemp \<longrightarrow> r_ID val < n))"

text \<open>Frames that agree on the temporaries the function had.\<close>

definition same_below :: "nat \<Rightarrow> frame \<Rightarrow> frame \<Rightarrow> bool" where
  "same_below n fr fr' \<longleftrightarrow> (\<exists>vs. fr' = fr\<lparr>fr_vals := vs\<rparr> \<and> length vs = length (fr_vals fr) \<and> take n vs = take n (fr_vals fr))"

lemma same_below_refl [simp]: "same_below n fr fr"
  by (auto simp: same_below_def intro: exI[of _ "fr_vals fr"])

lemma same_below_trans: "same_below n a b \<Longrightarrow> same_below n b c \<Longrightarrow> same_below n a c"
  by (auto simp: same_below_def)

lemma same_below_set: "n \<le> i \<Longrightarrow> same_below n fr (fr\<lparr>fr_vals := (fr_vals fr)[i := w]\<rparr>)"
  by (auto simp: same_below_def)

lemma dispatch_state_set:
  assumes "dispatch_state fo n g val v (fr, mc)" "n \<le> i"
  shows "dispatch_state fo n g val v (fr\<lparr>fr_vals := (fr_vals fr)[i := w]\<rparr>, mc)"
  using assms by (auto simp: dispatch_state_def evalRef_def split: refkind.splits if_split_asm)

lemma intCmp_canon: "intCmp pred cls x (truncInt cls k) = intCmp pred cls x k"
proof -
  have "asSigned cls (truncInt cls k) = asSigned cls k" "asUnsigned cls (truncInt cls k) = asUnsigned cls k"
    by (auto simp: truncInt_def asSigned_def asUnsigned_def)
  then show ?thesis by (simp add: intCmp_def)
qed

lemma cmp_instr_runs:
  assumes st: "dispatch_state fo n g val v (fr, mc)" and k: "int_const g kr cls k" and i: "n \<le> i" "i < length (f_Temps g)"
    and cls: "ClassOf g val = Some cls" and np: "\<not> cmp_IsFloat pred"
  shows "exec_step fo ext call own (cmp_instr pred val kr i) (fr, mc) =
    Inr (fr\<lparr>fr_vals := (fr_vals fr)[i := intVal ClsW (b2i (intCmp pred cls (val_i64 v) k))]\<rparr>, mc)"
proof -
  have kr: "evalRef fo mc fr kr = Inr (intVal cls k)"
    using st k by (auto simp: dispatch_state_def evalRef_def int_const_def evalConst_def)
  have ev: "evalValueOp fo mc fr (cmp_instr pred val kr i) = Inr (intVal ClsW (b2i (intCmp pred cls (val_i64 v) k)))"
    using st cls kr np
    by (simp add: evalValueOp_def cmp_instr_def instr0_def is_int_binop_def interp_evalCmp_def instr_Arg_def dispatch_state_def e_then_def
        val_i64_intVal intCmp_canon Let_def)
  have op: "op_IsLoad OCmp = False" "op_IsStore OCmp = False" "op_IsAlloc OCmp = False" by code_simp+
  have sel: "in_Op (cmp_instr pred val kr i) = OCmp" "in_Cls (cmp_instr pred val kr i) = ClsW" by (simp_all add: cmp_instr_def)
  have "bind_result (cmp_instr pred val kr i) w fr = Inr (fr\<lparr>fr_vals := (fr_vals fr)[i := w]\<rparr>)" for w
    using st i(2) by (simp add: bind_result_def cmp_instr_def instr0_def ref_IsNone_def tempRef_def set_val_def dispatch_state_def)
  moreover have "asClass ClsW (intVal ClsW w) = intVal ClsW w" for w by (rule asClass_same) (simp add: normCls_def)
  ultimately show ?thesis using ev st
    by (simp add: exec_step_def tick_def dispatch_state_def execInstr_def e_then_def op sel)
qed

lemma cmp_block_runs:
  assumes blk: "cmp_block n g val cls pred kv cur k t e" and st: "dispatch_state fo n g val v (fr, mc)"
    and cls: "ClassOf g val = Some cls" and pred: "pred \<in> {CmpEq, CmpSlt, CmpUlt}"
  shows "\<exists>fr'. same_below n fr fr' \<and> dispatch_state fo n g val v (fr', mc) \<and>
    (\<forall>N. run_from N fo ext g cur k (fr, mc) =
       run N fo ext g (Some (f_Name g, cur)) (if intCmp pred cls (val_i64 v) kv then t else e) (fr', mc))"
proof -
  obtain i kr where b: "n \<le> i" "i < length (f_Temps g)" "int_const g kr cls kv" "drop k (b_Instrs (blk g cur)) = [cmp_instr pred val kr i]"
    "b_Jmp (blk g cur) = jmp0\<lparr>j_Kind := JmpJnz, j_Arg := tempRef i, j_To := t, j_To2 := e\<rparr>"
    using blk by (auto simp: cmp_block_def)
  let ?w = "intVal ClsW (b2i (intCmp pred cls (val_i64 v) kv))"
  let ?fr = "fr\<lparr>fr_vals := (fr_vals fr)[i := ?w]\<rparr>"
  have np: "\<not> cmp_IsFloat pred" using pred by (auto simp: cmp_IsFloat_def)
  have st': "dispatch_state fo n g val v (?fr, mc)" by (rule dispatch_state_set[OF st b(1)])
  have ev: "evalRef fo mc ?fr (tempRef i) = Inr ?w"
    using st b(2) by (simp add: evalRef_def tempRef_def dispatch_state_def)
  have nz: "val_u64 ?w \<noteq> 0 \<longleftrightarrow> intCmp pred cls (val_i64 v) kv"
    by (simp add: val_u64_intVal asUnsigned_def b2i_def uint32_of_def)
  have "run_from N fo ext g cur k (fr, mc) = run N fo ext g (Some (f_Name g, cur)) (if intCmp pred cls (val_i64 v) kv then t else e) (?fr, mc)" for N
    using cmp_instr_runs[OF st b(3,1,2) cls np] ev nz
    by (simp add: run_from_def b(4,5) e_then_def execTerminator_def jmp0_def)
  moreover have "same_below n fr ?fr" by (rule same_below_set[OF b(1)])
  ultimately show ?thesis using st' by blast
qed

text \<open>Running the code of a tree leads to the block the tree decides on, after at most as many blocks as the tree has tests.\<close>

lemma code_runs:
  assumes "code S n g val cls sg cur k d" and "dispatch_state fo n g val v (fr, mc)" and cls: "ClassOf g val = Some cls"
  shows "\<exists>m \<le> tests d. \<exists>last fr'. same_below n fr fr' \<and> dispatch_state fo n g val v (fr', mc) \<and>
    (\<forall>N. run_from (N + m) fo ext g cur k (fr, mc) = run N fo ext g (Some (f_Name g, last)) (decide cls sg (val_i64 v) d) (fr', mc))"
  using assms(1,2)
proof (induction arbitrary: fr rule: code.induct)
  case (code_done cur k t)
  then have "run_from N fo ext g cur k (fr, mc) = run N fo ext g (Some (f_Name g, cur)) t (fr, mc)" for N
    by (simp add: run_from_def e_then_def execTerminator_def jmp0_def)
  then show ?case using code_done.prems by (intro exI[of _ "0::nat"] conjI exI[of _ cur] exI[of _ fr]) auto
next
  case (code_last cur kv k t e)
  obtain fr' where f: "same_below n fr fr'" "dispatch_state fo n g val v (fr', mc)"
    "\<And>N. run_from N fo ext g cur k (fr, mc) = run N fo ext g (Some (f_Name g, cur)) (if intCmp CmpEq cls (val_i64 v) kv then t else e) (fr', mc)"
    using cmp_block_runs[OF code_last.hyps(2) code_last.prems cls] by blast
  then show ?case by (intro exI[of _ 0]) (auto intro: exI[of _ cur] exI[of _ fr'])
next
  case (code_test cur kv k t nxt d)
  obtain fr1 where f: "same_below n fr fr1" "dispatch_state fo n g val v (fr1, mc)"
    "\<And>N. run_from N fo ext g cur k (fr, mc) = run N fo ext g (Some (f_Name g, cur)) (if intCmp CmpEq cls (val_i64 v) kv then t else Some nxt) (fr1, mc)"
    using cmp_block_runs[OF code_test.hyps(2) code_test.prems cls] by blast
  show ?case
  proof (cases "intCmp CmpEq cls (val_i64 v) kv")
    case True
    then show ?thesis using f by (intro exI[of _ 0]) (auto intro: exI[of _ cur] exI[of _ fr1])
  next
    case False
    obtain m last fr' where m: "m \<le> tests d" "same_below n fr1 fr'" "dispatch_state fo n g val v (fr', mc)"
      "\<And>N. run_from (N + m) fo ext g nxt 0 (fr1, mc) = run N fo ext g (Some (f_Name g, last)) (decide cls sg (val_i64 v) d) (fr', mc)"
      using code_test.IH[OF f(2)] by blast
    have "run_from (N + Suc m) fo ext g cur k (fr, mc) = run N fo ext g (Some (f_Name g, last)) (decide cls sg (val_i64 v) d) (fr', mc)" for N
      using f(3)[of "N + Suc m"] False m(4) run_enter[OF code_test.hyps(3)] by simp
    then show ?thesis using False m(1,3) same_below_trans[OF f(1) m(2)]
      by (intro exI[of _ "Suc m"]) (auto intro: exI[of _ last] exI[of _ fr'])
  qed
next
  case (code_split cur kv k t order l r dl dr)
  let ?lt = "if sg then CmpSlt else CmpUlt"
  obtain fr1 where f: "same_below n fr fr1" "dispatch_state fo n g val v (fr1, mc)"
    "\<And>N. run_from N fo ext g cur k (fr, mc) = run N fo ext g (Some (f_Name g, cur)) (if intCmp CmpEq cls (val_i64 v) kv then t else Some order) (fr1, mc)"
    using cmp_block_runs[OF code_split.hyps(2) code_split.prems cls] by blast
  have lt: "?lt \<in> {CmpEq, CmpSlt, CmpUlt}" by simp
  obtain fr2 where f2: "same_below n fr1 fr2" "dispatch_state fo n g val v (fr2, mc)"
    "\<And>N. run_from N fo ext g order 0 (fr1, mc) = run N fo ext g (Some (f_Name g, order)) (if intCmp ?lt cls (val_i64 v) kv then Some l else Some r) (fr2, mc)"
    using cmp_block_runs[OF code_split.hyps(5) f(2) cls lt] by blast
  show ?case
  proof (cases "intCmp CmpEq cls (val_i64 v) kv")
    case True
    then show ?thesis using f by (intro exI[of _ 0]) (auto intro: exI[of _ cur] exI[of _ fr1])
  next
    case neq: False
    define p where "p = (if intCmp ?lt cls (val_i64 v) kv then l else r)"
    define d where "d = (if intCmp ?lt cls (val_i64 v) kv then dl else dr)"
    have phis: "b_Phis (blk g p) = []" using code_split.hyps(6,8) by (simp add: p_def)
    obtain m last fr' where m: "m \<le> tests d" "same_below n fr2 fr'" "dispatch_state fo n g val v (fr', mc)"
      "\<And>N. run_from (N + m) fo ext g p 0 (fr2, mc) = run N fo ext g (Some (f_Name g, last)) (decide cls sg (val_i64 v) d) (fr', mc)"
      using code_split.IH(1)[OF f2(2)] code_split.IH(2)[OF f2(2)] unfolding p_def d_def by (cases "intCmp ?lt cls (val_i64 v) kv") auto
    have arm: "(if intCmp ?lt cls (val_i64 v) kv then Some l else Some r) = Some p" by (simp add: p_def)
    have dec: "decide cls sg (val_i64 v) (Split kv t dl dr) = decide cls sg (val_i64 v) d" using neq by (simp add: d_def)
    have "run_from (N + Suc (Suc m)) fo ext g cur k (fr, mc) = run N fo ext g (Some (f_Name g, last)) (decide cls sg (val_i64 v) d) (fr', mc)" for N
      using f(3)[of "N + Suc (Suc m)"] f2(3)[of "N + Suc m"] neq m(4) run_enter[OF code_split.hyps(4)] run_enter[OF phis]
      unfolding arm by simp
    moreover have "Suc (Suc m) \<le> tests (Split kv t dl dr)" using m(1) by (cases "intCmp ?lt cls (val_i64 v) kv") (simp_all add: d_def)
    ultimately show ?thesis unfolding dec using m(3) same_below_trans[OF f(1) same_below_trans[OF f2(1) m(2)]] by blast
  qed
qed

section \<open>Where a switch goes\<close>

text \<open>
  The cases of a switch on a class: distinct as that class, and sorted by their stored values as the
  tests order them.  The second holds when every value is stored in the form the interpreter reads it
  in, sign-extended for a word.
\<close>

definition cases_ok :: "cls \<Rightarrow> jmp \<Rightarrow> bool" where
  "cases_ok cls j \<longleftrightarrow> distinct (map (\<lambda>c. asUnsigned cls (sc_Val c)) (j_Cases j)) \<and>
     (\<forall>a \<in> set (j_Cases j). \<forall>b \<in> set (j_Cases j).
        case_key (j_Signed j) a \<le> case_key (j_Signed j) b \<longrightarrow> test_key cls (j_Signed j) (sc_Val a) \<le> test_key cls (j_Signed j) (sc_Val b))"

lemma find_unique:
  assumes "distinct (map h xs)" "\<And>c. P c \<longleftrightarrow> h c = y"
  shows "find P xs = Some c \<longleftrightarrow> c \<in> set xs \<and> h c = y"
  using assms(1) by (induction xs) (auto simp: assms(2))

lemma case_target_sort:
  assumes "distinct (map (\<lambda>c. asUnsigned cls (sc_Val c)) cs)"
  shows "case_target cls x (sort_key k cs) deflt = case_target cls x cs deflt"
proof -
  have d: "distinct (map (\<lambda>c. asUnsigned cls (sc_Val c)) (sort_key k cs))"
    using assms by (simp add: distinct_map)
  let ?P = "\<lambda>c. asUnsigned cls x = asUnsigned cls (sc_Val c)"
  have u: "find ?P ys = Some c \<longleftrightarrow> c \<in> set ys \<and> asUnsigned cls (sc_Val c) = asUnsigned cls x"
    if "distinct (map (\<lambda>c. asUnsigned cls (sc_Val c)) ys)" for ys c by (rule find_unique[OF that]) (rule eq_commute)
  have "find ?P (sort_key k cs) = Some c \<longleftrightarrow> find ?P cs = Some c" for c
    unfolding u[OF d] u[OF assms] by simp
  then have "find ?P (sort_key k cs) = find ?P cs" by (metis not_None_eq)
  then show ?thesis by (simp add: case_target_def)
qed

lemma switch_target_cases:
  assumes "v_Cls v = normCls cls"
  shows "switch_target j cls v = case_target cls (val_i64 v) (j_Cases j) (j_To j)"
proof -
  have "val_u64 v = asUnsigned cls (val_i64 v)"
    using assms by (auto simp: val_u64_def val_i64_def asUnsigned_def normCls_def split: if_split_asm)
  then have "switchMatch cls (j_Signed j) v k \<longleftrightarrow> asUnsigned cls (val_i64 v) = asUnsigned cls k" for k
    by (simp add: switchMatch_def asSigned_eq_iff)
  then show ?thesis by (simp add: switch_target_def case_target_def)
qed

lemma decide_switch_tree:
  assumes ok: "cases_ok cls j" and v: "v_Cls v = normCls cls"
  shows "decide cls (j_Signed j) (val_i64 v) (switch_tree j) = switch_target j cls v"
proof -
  let ?k = "case_key (j_Signed j)" and ?t = "\<lambda>c. test_key cls (j_Signed j) (sc_Val c)"
  define xs where "xs = sort_key ?k (j_Cases j)"
  have d: "distinct (map (\<lambda>c. asUnsigned cls (sc_Val c)) (j_Cases j))" using ok by (simp add: cases_ok_def)
  have "sorted_wrt (\<lambda>a b. ?k a \<le> ?k b) xs" using sorted_sort_key[of ?k "j_Cases j"] by (simp add: xs_def sorted_wrt_map)
  then have le: "sorted_wrt (\<lambda>a b. ?t a \<le> ?t b) xs"
    by (rule sorted_wrt_mono_rel[rotated]) (use ok in \<open>simp add: xs_def cases_ok_def\<close>)
  have "distinct (map ?t xs)"
    using d by (auto simp: xs_def distinct_map inj_on_def test_key_eq)
  then have "sorted_wrt (\<lambda>a b. ?t a < ?t b) xs"
    using le strict_sorted_iff[of "map ?t xs"] by (simp add: sorted_wrt_map)
  then have "decide cls (j_Signed j) (val_i64 v) (search xs (j_To j)) = case_target cls (val_i64 v) xs (j_To j)" by (rule decide_search)
  then show ?thesis unfolding switch_tree_def xs_def[symmetric] using case_target_sort[OF d, of "val_i64 v" ?k] switch_target_cases[OF v]
    by (simp add: xs_def)
qed

lemma tests_switch_tree: "length (j_Cases j) < 2 ^ k \<Longrightarrow> 3 \<le> k \<Longrightarrow> tests (switch_tree j) \<le> 2 * k"
  unfolding switch_tree_def by (rule tests_search) simp_all

text \<open>
  C14: \<open>Switches\<close> returns and leaves no switch behind.  Every other block is as it was; a block that
  ended in a switch keeps its phis and its instructions, followed by dispatch code.  Running that code
  in the interpreter, on a machine without a budget, from any frame in which the controlling value
  reads as \<open>v\<close>, goes on in the very block the switch names for \<open>v\<close>, with the machine and every temporary
  the function had unchanged; for fewer than \<open>2^k\<close> cases it enters at most \<open>2 k\<close> further blocks.
\<close>

theorem Switches_correct:
  assumes ready: "switches_ready f"
  shows "\<exists>g c. Switches f = Some (g, c) \<and> (c \<longleftrightarrow> (\<exists>b. switch_block f b)) \<and> (\<forall>b. \<not> switch_block g b) \<and>
    (\<forall>b \<in> set (f_Blocks f). \<not> switch_block f b \<longrightarrow> blk g b = blk f b) \<and>
    (\<forall>b cls fo ext v fr mc. switch_block f b \<and> ClassOf f (j_Arg (b_Jmp (blk f b))) = Some cls \<and> cases_ok cls (b_Jmp (blk f b)) \<and>
       v_Cls v = normCls cls \<and> dispatch_state fo (length (f_Temps f)) g (j_Arg (b_Jmp (blk f b))) v (fr, mc) \<longrightarrow>
       b_Phis (blk g b) = b_Phis (blk f b) \<and> take (length (b_Instrs (blk f b))) (b_Instrs (blk g b)) = b_Instrs (blk f b) \<and>
       (\<exists>m last fr'. same_below (length (f_Temps f)) fr fr' \<and>
          (\<forall>k. length (j_Cases (b_Jmp (blk f b))) < 2 ^ k \<and> 3 \<le> k \<longrightarrow> m \<le> 2 * k) \<and>
          (\<forall>N. run_from (N + m) fo ext g b (length (b_Instrs (blk f b))) (fr, mc) =
             run N fo ext g (Some (f_Name g, last)) (switch_target (b_Jmp (blk f b)) cls v) (fr', mc))))"
proof -
  obtain g c where g: "Switches f = Some (g, c)" "lowered_upto f (f_Blocks f) g" "c \<longleftrightarrow> (\<exists>b. switch_block f b)"
    using Switches_lowered[OF ready] by blast
  have none: "\<not> switch_block g b" for b
  proof
    assume b: "switch_block g b"
    then have "b_Jmp (blk g b) = b_Jmp (blk f b)" "b \<in> set (f_Blocks f) \<or> length (f_arena f) \<le> b"
      using g(2) by (auto simp: switch_block_def lowered_upto_def)
    moreover have "j_Kind (b_Jmp (blk f b)) \<noteq> JmpSwitch" if "length (f_arena f) \<le> b" using that by (simp add: blk_def block0_def jmp0_def)
    ultimately have "switch_block f b" using b by (auto simp: switch_block_def)
    then show False using g(2) b by (auto simp: lowered_upto_def switch_block_def)
  qed
  have rest: "blk g b = blk f b" if "b \<in> set (f_Blocks f)" "\<not> switch_block f b" for b
    using g(2) ready that by (auto simp: lowered_upto_def switches_ready_def)
  have "b_Phis (blk g b) = b_Phis (blk f b) \<and> take (length (b_Instrs (blk f b))) (b_Instrs (blk g b)) = b_Instrs (blk f b) \<and>
       (\<exists>m last fr'. same_below (length (f_Temps f)) fr fr' \<and>
          (\<forall>k. length (j_Cases (b_Jmp (blk f b))) < 2 ^ k \<and> 3 \<le> k \<longrightarrow> m \<le> 2 * k) \<and>
          (\<forall>N. run_from (N + m) fo ext g b (length (b_Instrs (blk f b))) (fr, mc) =
             run N fo ext g (Some (f_Name g, last)) (switch_target (b_Jmp (blk f b)) cls v) (fr', mc)))"
    if b: "switch_block f b" "ClassOf f (j_Arg (b_Jmp (blk f b))) = Some cls" "cases_ok cls (b_Jmp (blk f b))" "v_Cls v = normCls cls"
      and st: "dispatch_state fo (length (f_Temps f)) g (j_Arg (b_Jmp (blk f b))) v (fr, mc)" for b cls fo ext v fr mc
  proof -
    have "b < length (f_arena f)" using ready b(1) by (auto simp: switches_ready_def switch_block_def)
    then have keep: "b_Phis (blk g b) = b_Phis (blk f b)" "prefix (b_Instrs (blk f b)) (b_Instrs (blk g b))"
      using g(2) by (auto simp: lowered_upto_def)
    have "dispatches f g b" using g(2) b(1) by (auto simp: lowered_upto_def switch_block_def)
    then obtain S where S: "code S (length (f_Temps f)) g (j_Arg (b_Jmp (blk f b))) cls (j_Signed (b_Jmp (blk f b))) b
        (length (b_Instrs (blk f b))) (switch_tree (b_Jmp (blk f b)))"
      using b(2) by (auto simp: dispatches_def)
    have cls: "ClassOf g (j_Arg (b_Jmp (blk f b))) = Some cls"
      by (rule ClassOf_prefix[OF b(2)]) (use g(2) in \<open>simp_all add: lowered_upto_def\<close>)
    obtain m last fr' where m: "m \<le> tests (switch_tree (b_Jmp (blk f b)))" "same_below (length (f_Temps f)) fr fr'"
      "\<forall>N. run_from (N + m) fo ext g b (length (b_Instrs (blk f b))) (fr, mc) =
         run N fo ext g (Some (f_Name g, last)) (switch_target (b_Jmp (blk f b)) cls v) (fr', mc)"
      using code_runs[OF S st cls, of ext] unfolding decide_switch_tree[OF b(3,4)] by blast
    then have "\<forall>k. length (j_Cases (b_Jmp (blk f b))) < 2 ^ k \<and> 3 \<le> k \<longrightarrow> m \<le> 2 * k"
      using tests_switch_tree le_trans by blast
    then show ?thesis using m keep by (auto simp: prefix_def)
  qed
  then show ?thesis using g(1,3) none rest by (intro exI[of _ g] exI[of _ c]) blast
qed

text \<open>An instance: five signed cases, found by binary search.\<close>

definition switch_fn :: func where
  "switch_fn = (snd (newTemp ''k'' ClsW func0))\<lparr>f_Params := [0], f_Start := Some 0, f_Blocks := [0, 1, 2, 3, 4, 5, 6], f_arena :=
     block0\<lparr>b_Jmp := jmp0\<lparr>j_Kind := JmpSwitch, j_Arg := tempRef 0, j_To := Some 6, j_Signed := True, j_Cases :=
       [\<lparr>sc_Val = - 3, sc_Blk = Some 1\<rparr>, \<lparr>sc_Val = 7, sc_Blk = Some 2\<rparr>, \<lparr>sc_Val = 1, sc_Blk = Some 3\<rparr>,
        \<lparr>sc_Val = 12, sc_Blk = Some 4\<rparr>, \<lparr>sc_Val = 5, sc_Blk = Some 5\<rparr>]\<rparr>\<rparr> #
     replicate 6 (block0\<lparr>b_Jmp := jmp0\<lparr>j_Kind := JmpRet\<rparr>\<rparr>)\<rparr>"

lemma switch_fn_ok: "switches_ready switch_fn" "switch_block switch_fn 0" "ClassOf switch_fn (j_Arg (b_Jmp (blk switch_fn 0))) = Some ClsW"
  "cases_ok ClsW (b_Jmp (blk switch_fn 0))" "b_Instrs (blk switch_fn 0) = []" "length (f_Temps switch_fn) = 1"
  "j_Arg (b_Jmp (blk switch_fn 0)) = tempRef 0" "switch_target (b_Jmp (blk switch_fn 0)) ClsW (intVal ClsW 7) = Some 2"
proof -
  have c: "ClassOf switch_fn (j_Arg (b_Jmp (blk switch_fn 0))) = Some ClsW" by code_simp
  have k: "\<forall>b \<in> {1, 2, 3, 4, 5, 6}. j_Kind (b_Jmp (blk switch_fn b)) \<noteq> JmpSwitch" by code_simp
  show "ClassOf switch_fn (j_Arg (b_Jmp (blk switch_fn 0))) = Some ClsW" by (rule c)
  have b: "f_Blocks switch_fn = [0, 1, 2, 3, 4, 5, 6]" "length (f_arena switch_fn) = 7" "f_Start switch_fn = Some 0" "f_constIdx switch_fn = []"
    by (simp_all add: switch_fn_def newTemp_def func0_def)
  have "ClassOf switch_fn (j_Arg (b_Jmp (blk switch_fn b))) \<noteq> None" if "switch_block switch_fn b" for b
  proof -
    have "b = 0" using that k b(1) by (auto simp: switch_block_def simp del: One_nat_def)
    then show ?thesis using c by simp
  qed
  then show "switches_ready switch_fn" using b by (simp add: switches_ready_def constIdx_ok_def)
  show "switch_block switch_fn 0" using b(1) by (simp add: switch_block_def) code_simp
  show "cases_ok ClsW (b_Jmp (blk switch_fn 0))" by code_simp
  show "b_Instrs (blk switch_fn 0) = []" "length (f_Temps switch_fn) = 1" "j_Arg (b_Jmp (blk switch_fn 0)) = tempRef 0" by code_simp+
  show "switch_target (b_Jmp (blk switch_fn 0)) ClsW (intVal ClsW 7) = Some 2" by code_simp
qed

theorem Switches_correct_witness:
  "\<exists>g c. Switches switch_fn = Some (g, c) \<and> \<not> switch_block g 0 \<and>
     (\<forall>fo ext. \<exists>fr m last fr'. m \<le> 6 \<and> evalRef fo bare_machine fr (tempRef 0) = Inr (intVal ClsW 7) \<and>
        (\<forall>N. run_from (N + m) fo ext g 0 0 (fr, bare_machine) = run N fo ext g (Some (f_Name g, last)) (Some 2) (fr', bare_machine)))"
  using Switches_correct[OF switch_fn_ok(1)]
proof (elim exE conjE, goal_cases)
  case (1 g c)
  have "1 \<le> length (f_Temps g)"
  proof -
    obtain g' c' where "Switches switch_fn = Some (g', c')" "lowered_upto switch_fn (f_Blocks switch_fn) g'"
      using Switches_lowered[OF switch_fn_ok(1)] by blast
    then show ?thesis using 1(1) prefix_length_le[of "f_Temps switch_fn" "f_Temps g"] switch_fn_ok(6) by (simp add: lowered_upto_def)
  qed
  then have len: "Suc (length (f_Temps g) - 1) = length (f_Temps g)" by simp
  have "\<exists>fr m last fr'. m \<le> 6 \<and> evalRef fo bare_machine fr (tempRef 0) = Inr (intVal ClsW 7) \<and>
        (\<forall>N. run_from (N + m) fo ext g 0 0 (fr, bare_machine) = run N fo ext g (Some (f_Name g, last)) (Some 2) (fr', bare_machine))" for fo ext
  proof -
    let ?fr = "\<lparr>fr_fn = g, fr_vals = intVal ClsW 7 # replicate (length (f_Temps g) - 1) val0, fr_varargs = [], fr_spBase = 0\<rparr>"
    have ev: "evalRef fo bare_machine ?fr (tempRef 0) = Inr (intVal ClsW 7)" by (simp add: evalRef_def tempRef_def)
    have st: "dispatch_state fo 1 g (tempRef 0) (intVal ClsW 7) (?fr, bare_machine)"
      using ev len by (simp add: dispatch_state_def bare_machine_def tempRef_def)
    have l5: "length (j_Cases (b_Jmp (blk switch_fn 0))) < 2 ^ 3" by code_simp
    have pre: "switch_block switch_fn 0 \<and> ClassOf switch_fn (j_Arg (b_Jmp (blk switch_fn 0))) = Some ClsW \<and> cases_ok ClsW (b_Jmp (blk switch_fn 0)) \<and>
       v_Cls (intVal ClsW 7) = normCls ClsW \<and>
       dispatch_state fo (length (f_Temps switch_fn)) g (j_Arg (b_Jmp (blk switch_fn 0))) (intVal ClsW 7) (?fr, bare_machine)"
      using switch_fn_ok st by simp
    obtain m last fr' where m: "\<forall>k. length (j_Cases (b_Jmp (blk switch_fn 0))) < 2 ^ k \<and> 3 \<le> k \<longrightarrow> m \<le> 2 * k"
      "\<forall>N. run_from (N + m) fo ext g 0 (length (b_Instrs (blk switch_fn 0))) (?fr, bare_machine) =
         run N fo ext g (Some (f_Name g, last)) (switch_target (b_Jmp (blk switch_fn 0)) ClsW (intVal ClsW 7)) (fr', bare_machine)"
      using 1(5)[rule_format, OF pre, of ext] by blast
    have "m \<le> 6" using m(1)[rule_format, of 3] l5 by simp
    then show ?thesis using ev m(2) unfolding switch_fn_ok(5,8)
      by (intro exI[of _ ?fr] exI[of _ m] exI[of _ last] exI[of _ fr']) simp
  qed
  with 1(1,3) show ?case by blast
qed

section \<open>The phis of a target\<close>

text \<open>
  Two cases lead to block 1, whose phi has one operand for the switch.  The second test is made in a
  new block, from which the phi has no operand.
\<close>

definition phi_fn :: func where
  "phi_fn = (snd (newTemp ''r'' ClsW (snd (newTemp ''k'' ClsW (snd (func_ConstInt ClsW 9 func0))))))
     \<lparr>f_HasRet := True, f_Params := [0], f_Start := Some 0, f_Blocks := [0, 1, 2], f_arena := [
     block0\<lparr>b_Jmp := jmp0\<lparr>j_Kind := JmpSwitch, j_Arg := tempRef 0, j_To := Some 2,
       j_Cases := [\<lparr>sc_Val = 1, sc_Blk = Some 1\<rparr>, \<lparr>sc_Val = 2, sc_Blk = Some 1\<rparr>]\<rparr>\<rparr>,
     block0\<lparr>b_Phis := [\<lparr>p_Cls = ClsW, p_To = tempRef 1, p_Args = [constRef 0], p_Blocks = [Some 0]\<rparr>], b_Jmp := jmp0\<lparr>j_Kind := JmpRet, j_Arg := tempRef 1\<rparr>\<rparr>,
     block0\<lparr>b_Jmp := jmp0\<lparr>j_Kind := JmpRet, j_Arg := tempRef 0\<rparr>\<rparr>]\<rparr>"


end
