(* ===== verification/Jump_Table.thy ===== *)
theory Jump_Table
  imports Switch_Run
begin

text \<open>
  Jump tables (\<open>lower/jumptable.go\<close>): a dense switch becomes a range check and an indexed branch.
  \<open>None\<close> is a panic: a nil target or a class \<open>ClassOf\<close> does not know.  The theory shows that the code
  goes where the switch went, by the same edge wherever that matters to a phi.
\<close>

section \<open>The pass\<close>

definition jtMinCases :: nat where
  "jtMinCases = 8"

definition jtMaxSpan :: nat where
  "jtMaxSpan = 2048"

definition jtMaxRatio :: nat where
  "jtMaxRatio = 4"

definition jt_less :: "bool \<Rightarrow> i64 \<Rightarrow> i64 \<Rightarrow> bool" where
  "jt_less sg a b = (if sg then a <s b else a < b)"

text \<open>The least and the greatest case value, in the signedness of the switch.\<close>

definition jt_range :: "bool \<Rightarrow> switchCase list \<Rightarrow> i64 \<times> i64" where
  "jt_range sg cs = fold (\<lambda>c (lo, hi). (if jt_less sg (sc_Val c) lo then sc_Val c else lo, if jt_less sg hi (sc_Val c) then sc_Val c else hi))
     (tl cs) (sc_Val (hd cs), sc_Val (hd cs))"

definition hasPhi :: "func \<Rightarrow> bptr option \<Rightarrow> bool option" where
  "hasPhi f b = map_option (\<lambda>p. b_Phis (blk f p) \<noteq> []) b"

text \<open>The loop over the case targets: whether one has a phi.\<close>

fun targets_phi :: "func \<Rightarrow> switchCase list \<Rightarrow> bool option" where
  "targets_phi f [] = Some False"
| "targets_phi f (c # cs) = Option.bind (hasPhi f (sc_Blk c)) (\<lambda>h. if h then Some True else targets_phi f cs)"

text \<open>The entries; every index is below the span, see \<open>case_offset\<close>.\<close>

definition jt_table :: "i64 \<Rightarrow> nat \<Rightarrow> switchCase list \<Rightarrow> bptr option \<Rightarrow> bptr option list" where
  "jt_table lo span cs deflt = fold (\<lambda>c t. t[unat (sc_Val c - lo) := sc_Blk c]) cs (replicate span deflt)"

fun insert_after :: "bptr \<Rightarrow> bptr \<Rightarrow> bptr list \<Rightarrow> bptr list" where
  "insert_after x y [] = [x]"
| "insert_after x y (z # zs) = (if z = y then z # x # zs else z # insert_after x y zs)"

definition moveBlockAfter :: "bptr \<Rightarrow> bptr \<Rightarrow> func \<Rightarrow> func" where
  "moveBlockAfter x after f = f\<lparr>f_Blocks := insert_after x after (filter (\<lambda>b. b \<noteq> x) (f_Blocks f))\<rparr>"

text \<open>The switch of a block qualifies: its least case and its spread.\<close>

definition jt_qualifies :: "func \<Rightarrow> bptr \<Rightarrow> (i64 \<times> u64) option option" where
  "jt_qualifies f b =
     (let j = b_Jmp (blk f b); cs = j_Cases j; (lo, hi) = jt_range (j_Signed j) cs; spread = hi - lo in
      if length cs < jtMinCases then Some None
      else if unat spread \<ge> jtMaxSpan \<or> unat spread \<ge> jtMaxRatio * length cs then Some None
      else Option.bind (if length cs < unat spread + 1 then hasPhi f (j_To j) else Some False) (\<lambda>d.
        if d then Some None
        else Option.bind (targets_phi f cs) (\<lambda>t. Some (if t then None else Some (lo, spread)))))"

definition emit_table :: "bptr \<Rightarrow> i64 \<Rightarrow> u64 \<Rightarrow> cls \<Rightarrow> func \<Rightarrow> func" where
  "emit_table b lo spread cls f =
     (let j = b_Jmp (blk f b); val = j_Arg j;
          (idx, f2) = (if lo \<noteq> 0 then (let (k, f1) = func_ConstInt cls lo f in emit b OSub cls [val, k] f1) else (val, f));
          (top, f3) = func_ConstInt cls spread f2;
          (above, f4) = emitCmp b CmpUgt ClsW idx top f3;
          (tbl, f5) = NewBlock [] f4;
          f6 = Jnz b above (j_To j) (Some tbl) f5;
          f7 = upd_blk tbl (\<lambda>x. x\<lparr>b_Jmp := jmp0\<lparr>j_Kind := JmpTable, j_Arg := idx,
                 j_Targets := jt_table lo (unat spread + 1) (j_Cases j) (j_To j)\<rparr>\<rparr>) f6
      in moveBlockAfter tbl b f7)"

definition tryJumpTable :: "bptr \<Rightarrow> func \<Rightarrow> func option" where
  "tryJumpTable b f = Option.bind (jt_qualifies f b) (\<lambda>q. case q of
     None \<Rightarrow> Some f
   | Some (lo, spread) \<Rightarrow> map_option (\<lambda>cls. emit_table b lo spread cls f) (ClassOf f (j_Arg (b_Jmp (blk f b)))))"

definition JumpTables :: "func \<Rightarrow> func option" where
  "JumpTables f = fold_opt (\<lambda>b g. if j_Kind (b_Jmp (blk g b)) = JmpSwitch then tryJumpTable b g else Some g) (f_Blocks f) f"

section \<open>The table\<close>

definition val_key :: "bool \<Rightarrow> i64 \<Rightarrow> int" where
  "val_key sg v = (if sg then sint v else uint v)"

lemma jt_less_val_key: "jt_less sg a b \<longleftrightarrow> val_key sg a < val_key sg b"
  by (simp add: jt_less_def val_key_def word_sless_alt word_less_def)

lemma uint_diff:
  assumes "val_key sg a \<le> val_key sg b"
  shows "uint (b - a) = val_key sg b - val_key sg a"
proof -
  have w: "b - a = word_of_int (val_key sg b - val_key sg a)" by (cases sg) (simp_all add: val_key_def)
  have "val_key sg b - val_key sg a < 2 ^ 64"
  proof (cases sg)
    case True
    have "sint b < 2 ^ 63" "- (2 ^ 63) \<le> sint a" using sint_lt[of b] sint_ge[of a] by simp_all
    then show ?thesis using True by (simp add: val_key_def)
  next
    case False
    have "uint b < 2 ^ 64" "0 \<le> uint a" using uint_lt2p[of b] uint_ge_0[of a] by simp_all
    then show ?thesis using False by (simp only: val_key_def if_False)
  qed
  moreover have "0 \<le> val_key sg b - val_key sg a" using assms by simp
  ultimately have "(val_key sg b - val_key sg a) mod 2 ^ 64 = val_key sg b - val_key sg a" by (intro mod_pos_pos_trivial)
  then show ?thesis unfolding w uint_word_of_int by simp
qed

lemma jt_range_spec:
  assumes "jt_range sg cs = (lo, hi)" "c \<in> set cs"
  shows "val_key sg lo \<le> val_key sg (sc_Val c)" "val_key sg (sc_Val c) \<le> val_key sg hi"
proof -
  let ?f = "\<lambda>c (lo, hi). (if jt_less sg (sc_Val c) lo then sc_Val c else lo, if jt_less sg hi (sc_Val c) then sc_Val c else hi)"
  have "fold ?f ds (l, h) = (lo, hi) \<Longrightarrow> val_key sg lo \<le> val_key sg l \<and> val_key sg h \<le> val_key sg hi \<and>
      (\<forall>d \<in> set ds. val_key sg lo \<le> val_key sg (sc_Val d) \<and> val_key sg (sc_Val d) \<le> val_key sg hi)" for ds l h
    by (induction ds arbitrary: l h) (fastforce simp: jt_less_val_key split: if_splits)+
  from this[of "tl cs" "sc_Val (hd cs)" "sc_Val (hd cs)"] assms
  show "val_key sg lo \<le> val_key sg (sc_Val c)" "val_key sg (sc_Val c) \<le> val_key sg hi"
    by (cases cs; auto simp: jt_range_def)+
qed

text \<open>The distance of a case from the least one is at most the spread.\<close>

lemma case_offset:
  assumes "jt_range sg cs = (lo, hi)" "c \<in> set cs"
  shows "unat (sc_Val c - lo) \<le> unat (hi - lo)"
proof -
  note r = jt_range_spec[OF assms]
  have "uint (sc_Val c - lo) \<le> uint (hi - lo)" using uint_diff[OF r(1)] uint_diff[OF order_trans[OF r]] r(2) by simp
  then show ?thesis by (simp add: word_le_def[symmetric] word_le_nat_alt)
qed

lemma length_jt_table [simp]: "length (jt_table lo n cs d) = n"
proof -
  have "length (fold (\<lambda>c t. t[unat (sc_Val c - lo) := sc_Blk c]) cs t) = length t" for t :: "bptr option list"
    by (induction cs arbitrary: t) simp_all
  then show ?thesis by (simp add: jt_table_def)
qed

text \<open>The entry of an index is the target of the case at that distance.\<close>

lemma jt_table_nth:
  assumes "distinct (map (\<lambda>c. unat (sc_Val c - lo)) cs)" "i < n"
  shows "jt_table lo n cs d ! i = (case find (\<lambda>c. unat (sc_Val c - lo) = i) cs of Some c \<Rightarrow> sc_Blk c | None \<Rightarrow> d)"
proof -
  have "fold (\<lambda>c t. t[unat (sc_Val c - lo) := sc_Blk c]) cs t ! i = (case find (\<lambda>c. unat (sc_Val c - lo) = i) cs of Some c \<Rightarrow> sc_Blk c | None \<Rightarrow> t ! i)"
    if "i < length t" for t :: "bptr option list"
    using assms(1) that
  proof (induction cs arbitrary: t)
    case (Cons c cs)
    show ?case
    proof (cases "unat (sc_Val c - lo) = i")
      case True
      then have "i \<notin> (\<lambda>c. unat (sc_Val c - lo)) ` set cs" using Cons.prems(1) by simp
      then have "find (\<lambda>c. unat (sc_Val c - lo) = i) cs = None" by (auto simp: find_None_iff)
      then show ?thesis using True Cons.IH[of "t[unat (sc_Val c - lo) := sc_Blk c]"] Cons.prems by simp
    next
      case False
      then show ?thesis using Cons.IH[of "t[unat (sc_Val c - lo) := sc_Blk c]"] Cons.prems by (simp split: option.split)
    qed
  qed simp
  from this[of "replicate n d"] show ?thesis using assms(2) by (simp add: jt_table_def split: option.split)
qed

text \<open>
  What the index computed at run time selects: out of the range no case matches, in the range the table
  holds what the list of cases names.
\<close>

definition jt_index :: "cls \<Rightarrow> i64 \<Rightarrow> i64 \<Rightarrow> nat" where
  "jt_index cls lo x = unat (asUnsigned cls (x - lo))"

lemma ucast32_diff: "(ucast (a - b :: 64 word) :: 32 word) = ucast a - ucast b"
proof -
  have t: "take_bit 32 (take_bit 64 x) = take_bit 32 x" for x :: int by simp
  have "take_bit 32 (take_bit 64 x - take_bit 64 y) = take_bit 32 (x - y)" for x y :: int by (metis t take_bit_diff)
  then show ?thesis by transfer (simp add: t)
qed

lemma asUnsigned_diff: "asUnsigned cls a = asUnsigned cls b \<longleftrightarrow> asUnsigned cls (a - lo) = asUnsigned cls (b - lo)"
  by (auto simp: asUnsigned_def uint32_of_eq_iff ucast32_diff)

lemma asUnsigned_small: "unat v < 2 ^ 32 \<Longrightarrow> asUnsigned cls v = v"
proof -
  assume "unat v < 2 ^ 32"
  then have "take_bit 32 (unat v) = unat v" by (intro take_bit_nat_eq_self)
  moreover have "uint32_of v = take_bit 32 v" by (rule bit_word_eqI) (auto simp: uint32_of_def bit_simps)
  ultimately have "uint32_of v = v" by (simp only: word_unat_eq_iff unsigned_take_bit_eq)
  then show ?thesis by (simp add: asUnsigned_def)
qed

lemma jt_target:
  assumes r: "jt_range sg cs = (lo, hi)" and s: "unat (hi - lo) < jtMaxSpan"
    and d: "distinct (map (\<lambda>c. asUnsigned cls (sc_Val c)) cs)"
  shows "distinct (map (\<lambda>c. unat (sc_Val c - lo)) cs)"
    "case_target cls x cs deflt =
    (if jt_index cls lo x \<le> unat (hi - lo) then jt_table lo (unat (hi - lo) + 1) cs deflt ! jt_index cls lo x else deflt)"
proof -
  have off: "asUnsigned cls (sc_Val c - lo) = sc_Val c - lo" if "c \<in> set cs" for c
    using case_offset[OF r that] s by (intro asUnsigned_small) (simp add: jtMaxSpan_def)
  have "unat (sc_Val c - lo) \<noteq> unat (sc_Val e - lo)" if "c \<in> set cs" "e \<in> set cs" "asUnsigned cls (sc_Val c) \<noteq> asUnsigned cls (sc_Val e)" for c e
    using off that asUnsigned_diff[of cls "sc_Val c" "sc_Val e" lo] by (metis word_unat_eq_iff)
  then show dd: "distinct (map (\<lambda>c. unat (sc_Val c - lo)) cs)" using d by (auto simp: distinct_map inj_on_def)
  have m: "asUnsigned cls x = asUnsigned cls (sc_Val c) \<longleftrightarrow> unat (sc_Val c - lo) = jt_index cls lo x" if "c \<in> set cs" for c
    using off[OF that] asUnsigned_diff[of cls x "sc_Val c" lo] by (auto simp: jt_index_def word_unat_eq_iff)
  have "find (\<lambda>c. asUnsigned cls x = asUnsigned cls (sc_Val c)) cs = find (\<lambda>c. unat (sc_Val c - lo) = jt_index cls lo x) cs"
    by (rule find_cong) (simp_all add: m)
  moreover have "find (\<lambda>c. unat (sc_Val c - lo) = jt_index cls lo x) cs = None" if "unat (hi - lo) < jt_index cls lo x"
    using case_offset[OF r] that by (force simp: find_None_iff)
  ultimately show "case_target cls x cs deflt =
    (if jt_index cls lo x \<le> unat (hi - lo) then jt_table lo (unat (hi - lo) + 1) cs deflt ! jt_index cls lo x else deflt)"
    using jt_table_nth[OF dd, of "jt_index cls lo x" "unat (hi - lo) + 1" deflt] by (auto simp: case_target_def)
qed

text \<open>As many cases as indices leave no gap.\<close>

lemma jt_full:
  assumes r: "jt_range sg cs = (lo, hi)" and dd: "distinct (map (\<lambda>c. unat (sc_Val c - lo)) cs)"
    and full: "unat (hi - lo) + 1 \<le> length cs" and i: "i \<le> unat (hi - lo)"
  shows "\<exists>c \<in> set cs. jt_table lo (unat (hi - lo) + 1) cs deflt ! i = sc_Blk c"
proof -
  let ?o = "\<lambda>c. unat (sc_Val c - lo)"
  define n where "n = unat (hi - lo)"
  have sub: "?o ` set cs \<subseteq> {..n}" using case_offset[OF r] by (auto simp: n_def)
  have c: "card (?o ` set cs) = length cs" using distinct_card[OF dd] by simp
  have "card {..n} \<le> card (?o ` set cs)" unfolding c card_atMost using full[folded n_def] by linarith
  then have eq: "?o ` set cs = {..n}" by (rule card_seteq[OF finite_atMost sub])
  have "i \<in> ?o ` set cs" unfolding eq using i by (simp add: n_def)
  then obtain d where "d \<in> set cs" "?o d = i" by blast
  then have "find (\<lambda>c. ?o c = i) cs \<noteq> None" unfolding find_None_iff by blast
  then obtain c where c: "find (\<lambda>c. ?o c = i) cs = Some c" by blast
  then have "c \<in> set cs" by (metis find_Some_iff nth_mem)
  then show ?thesis using jt_table_nth[OF dd, of i "unat (hi - lo) + 1" deflt] i c by auto
qed

section \<open>The code\<close>

definition sub_instr :: "cls \<Rightarrow> ref \<Rightarrow> ref \<Rightarrow> nat \<Rightarrow> srcpos \<Rightarrow> instr" where
  "sub_instr cls val k i p = instr0\<lparr>in_Op := OSub, in_Cls := cls, in_Args := [val, k], in_Pos := p, in_To := tempRef i\<rparr>"

text \<open>The instructions \<open>is\<close> leave the index in \<open>idx\<close>: none, or one subtraction.\<close>

definition index_code :: "nat \<Rightarrow> nat \<Rightarrow> func \<Rightarrow> ref \<Rightarrow> cls \<Rightarrow> i64 \<Rightarrow> ref \<Rightarrow> instr list \<Rightarrow> bool" where
  "index_code n i g val cls lo idx is \<longleftrightarrow>
     (if lo = 0 then idx = val \<and> is = []
      else \<exists>s ks p. n \<le> s \<and> s < i \<and> s < length (f_Temps g) \<and> t_Cls (f_Temps g ! s) = cls \<and> int_const g ks cls lo \<and>
        idx = tempRef s \<and> is = [sub_instr cls val ks s p])"

text \<open>The range check at the end of a block, and the block with the indexed branch.\<close>

definition table_code :: "nat \<Rightarrow> func \<Rightarrow> jmp \<Rightarrow> cls \<Rightarrow> i64 \<Rightarrow> u64 \<Rightarrow> bptr \<Rightarrow> nat \<Rightarrow> bptr \<Rightarrow> bool" where
  "table_code n g j cls lo spread b k tbl \<longleftrightarrow> (\<exists>idx is kr i. index_code n i g (j_Arg j) cls lo idx is \<and>
     n \<le> i \<and> i < length (f_Temps g) \<and> int_const g kr cls spread \<and>
     drop k (b_Instrs (blk g b)) = is @ [cmp_instr CmpUgt idx kr i] \<and>
     b_Jmp (blk g b) = jmp0\<lparr>j_Kind := JmpJnz, j_Arg := tempRef i, j_To := j_To j, j_To2 := Some tbl\<rparr> \<and>
     b_Phis (blk g tbl) = [] \<and> b_Instrs (blk g tbl) = [] \<and>
     b_Jmp (blk g tbl) = jmp0\<lparr>j_Kind := JmpTable, j_Arg := idx, j_Targets := jt_table lo (unat spread + 1) (j_Cases j) (j_To j)\<rparr>)"

lemma val_u64_key: "v_Cls v = normCls cls \<Longrightarrow> val_u64 v = asUnsigned cls (val_i64 v)"
  by (auto simp: val_u64_def val_i64_def asUnsigned_def normCls_def split: if_split_asm)

lemma sub_instr_runs:
  assumes st: "dispatch_state fo n g val v (fr, mc)" and k: "int_const g kr cls k" and i: "n \<le> i" "i < length (f_Temps g)"
    and cls: "cls_IsInt cls"
  shows "exec_step fo ext call own (sub_instr cls val kr i p) (fr, mc) = Inr (fr\<lparr>fr_vals := (fr_vals fr)[i := intVal cls (val_i64 v - k)]\<rparr>, mc)"
proof -
  have kr: "evalRef fo mc fr kr = Inr (intVal cls k)"
    using st k by (auto simp: dispatch_state_def evalRef_def int_const_def evalConst_def)
  have fl: "\<not> cls_IsFloat cls" using cls by (auto simp: cls_IsInt_def cls_IsFloat_def)
  have canon: "truncInt cls (x - truncInt cls k) = truncInt cls (x - k)" for x
    by (simp add: truncInt_def int32_of_def ucast32_diff) (simp add: int32_of_def[symmetric])
  then have canon: "intVal cls (x - truncInt cls k) = intVal cls (x - k)" for x by (metis intVal_canon(2))
  have ev: "evalValueOp fo mc fr (sub_instr cls val kr i p) = Inr (intVal cls (val_i64 v - k))"
    using st kr fl
    by (simp add: evalValueOp_def sub_instr_def instr0_def is_int_binop_def instr_Arg_def dispatch_state_def e_then_def intBinop_def
        val_i64_intVal canon intVal_canon Let_def)
  have op: "op_IsLoad OSub = False" "op_IsStore OSub = False" "op_IsAlloc OSub = False" by code_simp+
  have sel: "in_Op (sub_instr cls val kr i p) = OSub" "in_Cls (sub_instr cls val kr i p) = cls" by (simp_all add: sub_instr_def)
  have "bind_result (sub_instr cls val kr i p) w fr = Inr (fr\<lparr>fr_vals := (fr_vals fr)[i := w]\<rparr>)" for w
    using st i(2) by (simp add: bind_result_def sub_instr_def instr0_def ref_IsNone_def tempRef_def set_val_def dispatch_state_def)
  moreover have "asClass cls (intVal cls w) = intVal cls w" for w by (rule asClass_same) (simp add: intVal_def Let_def)
  ultimately show ?thesis using ev st
    by (simp add: exec_step_def tick_def dispatch_state_def execInstr_def e_then_def op sel)
qed

lemma index_runs:
  assumes "index_code n i g val cls lo idx is" and st: "dispatch_state fo n g val v (fr, mc)" and ni: "n \<le> i"
    and cls: "ClassOf g val = Some cls" "cls_IsInt cls" and v: "v_Cls v = normCls cls"
  shows "\<exists>fr1 w. (\<forall>call own. e_fold (exec_step fo ext call own) is (fr, mc) = Inr (fr1, mc)) \<and> same_below n fr fr1 \<and>
    dispatch_state fo i g idx w (fr1, mc) \<and> ClassOf g idx = Some cls \<and> v_Cls w = normCls cls \<and> unat (val_u64 w) = jt_index cls lo (val_i64 v)"
proof (cases "lo = 0")
  case True
  then have "idx = val" "is = []" using assms(1) by (simp_all add: index_code_def)
  moreover have "dispatch_state fo i g val v (fr, mc)" using st ni by (auto simp: dispatch_state_def)
  ultimately show ?thesis using True cls(1) v val_u64_key[OF v] by (intro exI[of _ fr] exI[of _ v]) (simp add: jt_index_def)
next
  case False
  then obtain s ks p where s: "n \<le> s" "s < i" "s < length (f_Temps g)" "t_Cls (f_Temps g ! s) = cls" "int_const g ks cls lo"
    "idx = tempRef s" "is = [sub_instr cls val ks s p]"
    using assms(1) by (auto simp: index_code_def)
  let ?w = "intVal cls (val_i64 v - lo)" and ?fr = "fr\<lparr>fr_vals := (fr_vals fr)[s := intVal cls (val_i64 v - lo)]\<rparr>"
  have "e_fold (exec_step fo ext call own) is (fr, mc) = Inr (?fr, mc)" for call own
    using sub_instr_runs[OF st s(5,1,3) cls(2)] by (simp add: s(7) e_then_def)
  moreover have "dispatch_state fo i g idx ?w (?fr, mc)"
    using st s(2,3) by (simp add: dispatch_state_def s(6) evalRef_def tempRef_def)
  moreover have "ClassOf g idx = Some cls" using s(3,4) by (simp add: s(6) ClassOf_def tempRef_def)
  moreover have "v_Cls ?w = normCls cls" by (simp add: intVal_def Let_def)
  ultimately show ?thesis using same_below_set[OF s(1)] by (intro exI[of _ ?fr] exI[of _ ?w]) (simp add: val_u64_intVal jt_index_def)
qed

text \<open>Running the code goes to the table's entry, or to the default.\<close>

lemma table_runs:
  assumes code: "table_code n g j cls lo spread b k tbl" and st: "dispatch_state fo n g (j_Arg j) v (fr, mc)"
    and cls: "ClassOf g (j_Arg j) = Some cls" "cls_IsInt cls" and v: "v_Cls v = normCls cls" and small: "unat spread < jtMaxSpan"
  shows "\<exists>m \<le> 1. \<exists>fr'. same_below n fr fr' \<and>
    (\<forall>N. run_from (N + m) fo ext g b k (fr, mc) =
       (if jt_index cls lo (val_i64 v) \<le> unat spread
        then run N fo ext g (Some (f_Name g, tbl)) (jt_table lo (unat spread + 1) (j_Cases j) (j_To j) ! jt_index cls lo (val_i64 v)) (fr', mc)
        else run N fo ext g (Some (f_Name g, b)) (j_To j) (fr', mc)))"
proof -
  obtain idx "is" kr i where b: "index_code n i g (j_Arg j) cls lo idx is" "n \<le> i" "i < length (f_Temps g)" "int_const g kr cls spread"
    "drop k (b_Instrs (blk g b)) = is @ [cmp_instr CmpUgt idx kr i]"
    "b_Jmp (blk g b) = jmp0\<lparr>j_Kind := JmpJnz, j_Arg := tempRef i, j_To := j_To j, j_To2 := Some tbl\<rparr>"
    and t: "b_Phis (blk g tbl) = []" "b_Instrs (blk g tbl) = []"
    "b_Jmp (blk g tbl) = jmp0\<lparr>j_Kind := JmpTable, j_Arg := idx, j_Targets := jt_table lo (unat spread + 1) (j_Cases j) (j_To j)\<rparr>"
    using code unfolding table_code_def by blast
  obtain fr1 w where f: "\<And>call own. e_fold (exec_step fo ext call own) is (fr, mc) = Inr (fr1, mc)" "same_below n fr fr1"
    "dispatch_state fo i g idx w (fr1, mc)" "ClassOf g idx = Some cls" "v_Cls w = normCls cls" "unat (val_u64 w) = jt_index cls lo (val_i64 v)"
    using index_runs[OF b(1) st b(2) cls v] by blast
  define inr where "inr \<longleftrightarrow> jt_index cls lo (val_i64 v) \<le> unat spread"
  let ?c = "intVal ClsW (b2i (intCmp CmpUgt cls (val_i64 w) spread))"
  define fr2 where "fr2 = fr1\<lparr>fr_vals := (fr_vals fr1)[i := ?c]\<rparr>"
  have "asUnsigned cls spread = spread" using small by (intro asUnsigned_small) (simp add: jtMaxSpan_def)
  then have "intCmp CmpUgt cls (val_i64 w) spread \<longleftrightarrow> spread < val_u64 w" by (simp add: intCmp_def Let_def val_u64_key[OF f(5)])
  then have gt: "intCmp CmpUgt cls (val_i64 w) spread \<longleftrightarrow> \<not> inr" using f(6) by (simp add: inr_def word_less_nat_alt not_le)
  have nz: "val_u64 ?c \<noteq> 0 \<longleftrightarrow> \<not> inr" by (simp add: val_u64_intVal asUnsigned_def b2i_def uint32_of_def gt)
  have np: "\<not> cmp_IsFloat CmpUgt" by (simp add: cmp_IsFloat_def)
  have st2: "dispatch_state fo i g idx w (fr2, mc)" unfolding fr2_def by (rule dispatch_state_set[OF f(3)]) simp
  have ev: "evalRef fo mc fr2 (tempRef i) = Inr ?c"
    using f(3) b(3) by (simp add: fr2_def evalRef_def tempRef_def dispatch_state_def)
  have same: "same_below n fr fr2" unfolding fr2_def by (rule same_below_trans[OF f(2) same_below_set[OF b(2)]])
  have check: "run_from N fo ext g b k (fr, mc) = run N fo ext g (Some (f_Name g, b)) (if inr then Some tbl else j_To j) (fr2, mc)" for N
    using cmp_instr_runs[OF f(3) b(4) order_refl b(3) f(4) np, where ext = ext, folded fr2_def] ev nz f(1)
    by (simp add: run_from_def b(5,6) e_fold_append e_then_def execTerminator_def jmp0_def)
  show ?thesis
  proof (cases inr)
    case True
    then have "unat (val_u64 w) < length (jt_table lo (unat spread + 1) (j_Cases j) (j_To j))" using f(6) by (simp add: inr_def)
    then have "run_from N fo ext g tbl 0 (fr2, mc) =
      run N fo ext g (Some (f_Name g, tbl)) (jt_table lo (unat spread + 1) (j_Cases j) (j_To j) ! jt_index cls lo (val_i64 v)) (fr2, mc)" for N
      using st2 f(6) by (simp add: run_from_def t e_then_def execTerminator_def jmp0_def dispatch_state_def)
    then show ?thesis using True same check run_enter[OF t(1)] unfolding inr_def
      by (intro exI[of _ 1] conjI exI[of _ fr2]) simp_all
  next
    case False
    then show ?thesis using same check unfolding inr_def by (intro exI[of _ 0] conjI exI[of _ fr2]) simp_all
  qed
qed

text \<open>A block without phis does not ask where it was entered from.\<close>

lemma run_from_anywhere:
  assumes "b_Phis (blk own t) = []"
  shows "run N fo ext own from (Some t) st = run N fo ext own from' (Some t) st"
  using run_enter[OF assms] by (cases N) simp_all

section \<open>Emission\<close>

lemma emit_sub_grows:
  assumes "constIdx_ok f" "cur < length (f_arena f)" "emit cur OSub cls [val, k] f = (r, f1)"
  shows "grows cur f f1" "r = tempRef (length (f_Temps f))" "length (f_Temps f1) = Suc (length (f_Temps f))"
    "t_Cls (f_Temps f1 ! length (f_Temps f)) = cls" "length (f_arena f1) = length (f_arena f)"
    "b_Instrs (blk f1 cur) = b_Instrs (blk f cur) @ [sub_instr cls val k (length (f_Temps f)) (b_curPos (blk f cur))]"
    "f_Consts f1 = f_Consts f" "b_Jmp (blk f1 cur) = b_Jmp (blk f cur)"
proof -
  let ?i = "sub_instr cls val k (length (f_Temps f)) (b_curPos (blk f cur))"
  have op: "op_HasResult OSub" by code_simp
  have e: "\<exists>t. f1 = upd_blk cur (\<lambda>z. z\<lparr>b_Instrs := b_Instrs z @ [?i]\<rparr>) (f\<lparr>f_nameSeq := f_nameSeq f + 1, f_Temps := f_Temps f @ [t]\<rparr>) \<and> t_Cls t = cls"
    "r = tempRef (length (f_Temps f))"
    using assms(3) op by (auto simp: emit_def newTemp_def Let_def sub_instr_def)
  then obtain t where f1: "f1 = upd_blk cur (\<lambda>z. z\<lparr>b_Instrs := b_Instrs z @ [?i]\<rparr>) (f\<lparr>f_nameSeq := f_nameSeq f + 1, f_Temps := f_Temps f @ [t]\<rparr>)"
    and t: "t_Cls t = cls" by blast
  have b: "blk (f\<lparr>f_nameSeq := x, f_Temps := f_Temps f @ [t]\<rparr>) p = blk f p" for p x by (simp add: blk_def)
  have nm: "f_Name (upd_blk x h g) = f_Name g" for x h g by (simp add: upd_blk_def)
  show "grows cur f f1" using assms(1,2) by (auto simp: f1 grows_def b nm constIdx_ok_def)
  show "r = tempRef (length (f_Temps f))" by (rule e(2))
  show "length (f_Temps f1) = Suc (length (f_Temps f))" "t_Cls (f_Temps f1 ! length (f_Temps f)) = cls" "length (f_arena f1) = length (f_arena f)"
    "b_Instrs (blk f1 cur) = b_Instrs (blk f cur) @ [?i]" "f_Consts f1 = f_Consts f" "b_Jmp (blk f1 cur) = b_Jmp (blk f cur)"
    using assms(2) t by (simp_all add: f1 b)
qed

lemma index_code_mono:
  assumes "index_code n i f val cls lo idx is" "prefix (f_Temps f) (f_Temps g)" "prefix (f_Consts f) (f_Consts g)"
  shows "index_code n i g val cls lo idx is"
  using assms int_const_mono[OF _ assms(3)] by (fastforce simp: index_code_def prefix_def nth_append)

text \<open>The first step: the index.\<close>

definition emit_index :: "bptr \<Rightarrow> i64 \<Rightarrow> cls \<Rightarrow> ref \<Rightarrow> func \<Rightarrow> ref \<times> func" where
  "emit_index b lo cls val f = (if lo \<noteq> 0 then (let (k, f1) = func_ConstInt cls lo f in emit b OSub cls [val, k] f1) else (val, f))"

lemma emit_index_code:
  assumes ok: "constIdx_ok f" "b < length (f_arena f)" and n: "n \<le> length (f_Temps f)" and e: "emit_index b lo cls val f = (idx, f1)"
  shows "grows b f f1 \<and> length (f_arena f1) = length (f_arena f) \<and>
    (\<exists>is. b_Instrs (blk f1 b) = b_Instrs (blk f b) @ is \<and> index_code n (length (f_Temps f1)) f1 val cls lo idx is)"
proof (cases "lo = 0")
  case True
  then show ?thesis using e grows_refl[OF ok(1)] by (auto simp: emit_index_def index_code_def)
next
  case False
  obtain k f0 where k: "func_ConstInt cls lo f = (k, f0)" by fastforce
  note K = ConstInt_grows[OF ok(1) k]
  have ok0: "constIdx_ok f0" "b < length (f_arena f0)" using K(1)[of b] K(3) ok(2) by (auto simp: grows_def)
  have e': "emit b OSub cls [val, k] f0 = (idx, f1)" using e False k by (simp add: emit_index_def)
  note S = emit_sub_grows[OF ok0 e']
  have "int_const f1 k cls lo" using K(2) S(7) by (simp add: int_const_def)
  then have "index_code n (length (f_Temps f1)) f1 val cls lo idx [sub_instr cls val k (length (f_Temps f0)) (b_curPos (blk f0 b))]"
    using False n S(2-4) K(4) by (auto simp: index_code_def)
  then show ?thesis using grows_trans[OF K(1) S(1) ok(2)] S(5,6) K(3,5) by auto
qed

lemma grows_upd:
  assumes "grows b f g" "t \<noteq> b" "t = length (f_arena f)" "t < length (f_arena g)" "j_Kind tj \<noteq> JmpSwitch"
  shows "grows b f (upd_blk t (\<lambda>z. z\<lparr>b_Jmp := tj\<rparr>) g)"
proof -
  let ?h = "upd_blk t (\<lambda>z. z\<lparr>b_Jmp := tj\<rparr>) g"
  have "f_Name ?h = f_Name g" by (simp add: upd_blk_def)
  moreover have "blk ?h p = blk g p" if "p \<noteq> t" for p using that assms(4) by simp
  moreover have "b_Jmp (blk ?h t) = tj" using assms(4) by simp
  moreover have "j_Kind (b_Jmp (blk ?h p)) = JmpSwitch \<Longrightarrow> b_Jmp (blk ?h p) = b_Jmp (blk f p)" for p
    using assms(1,5) calculation(2,3) unfolding grows_def by metis
  ultimately show ?thesis using assms(1-3) by (simp add: grows_def constIdx_ok_def)
qed

text \<open>The function before the table's block is moved behind \<open>b\<close>.\<close>

definition emit_check :: "bptr \<Rightarrow> i64 \<Rightarrow> u64 \<Rightarrow> cls \<Rightarrow> func \<Rightarrow> bptr \<times> func" where
  "emit_check b lo spread cls f =
     (let j = b_Jmp (blk f b); (idx, f2) = emit_index b lo cls (j_Arg j) f;
          (top, f3) = func_ConstInt cls spread f2;
          (above, f4) = emitCmp b CmpUgt ClsW idx top f3;
          (tbl, f5) = NewBlock [] f4
      in (tbl, upd_blk tbl (\<lambda>x. x\<lparr>b_Jmp := jmp0\<lparr>j_Kind := JmpTable, j_Arg := idx,
                 j_Targets := jt_table lo (unat spread + 1) (j_Cases j) (j_To j)\<rparr>\<rparr>) (Jnz b above (j_To j) (Some tbl) f5)))"

lemma emit_table_check: "emit_table b lo spread cls f = (let (tbl, g) = emit_check b lo spread cls f in moveBlockAfter tbl b g)"
  by (simp add: emit_table_def emit_check_def emit_index_def Let_def split: prod.splits)

lemma emit_check_code:
  assumes ok: "constIdx_ok f" "f_Start f \<noteq> None" "b < length (f_arena f)" "n \<le> length (f_Temps f)"
    and e: "emit_check b lo spread cls f = (tbl, g)"
  shows "grows b f g \<and> tbl = length (f_arena f) \<and> length (f_arena g) = Suc tbl \<and>
    table_code n g (b_Jmp (blk f b)) cls lo spread b (length (b_Instrs (blk f b))) tbl"
proof -
  let ?j = "b_Jmp (blk f b)"
  obtain idx f2 where x: "emit_index b lo cls (j_Arg ?j) f = (idx, f2)" by fastforce
  obtain kr f3 where k: "func_ConstInt cls spread f2 = (kr, f3)" by fastforce
  obtain r f4 where r: "emitCmp b CmpUgt ClsW idx kr f3 = (r, f4)" by fastforce
  obtain t f5 where t: "NewBlock [] f4 = (t, f5)" by fastforce
  let ?tj = "jmp0\<lparr>j_Kind := JmpTable, j_Arg := idx, j_Targets := jt_table lo (unat spread + 1) (j_Cases ?j) (j_To ?j)\<rparr>"
  let ?f6 = "Jnz b r (j_To ?j) (Some t) f5"
  have tg: "tbl = t" "g = upd_blk t (\<lambda>z. z\<lparr>b_Jmp := ?tj\<rparr>) ?f6" using e x k r t by (auto simp: emit_check_def Let_def)
  obtain "is" where X: "grows b f f2" "length (f_arena f2) = length (f_arena f)" "b_Instrs (blk f2 b) = b_Instrs (blk f b) @ is"
    "index_code n (length (f_Temps f2)) f2 (j_Arg ?j) cls lo idx is"
    using emit_index_code[OF ok(1,3,4) x] by blast
  have ok2: "constIdx_ok f2" "f_Start f2 \<noteq> None" "b < length (f_arena f2)" using X(1,2) ok(2,3) by (auto simp: grows_def)
  note K = ConstInt_grows[OF ok2(1) k]
  have ok3: "constIdx_ok f3" "f_Start f3 \<noteq> None" "b < length (f_arena f3)" using K(1)[of b] K(3) ok2(2,3) by (auto simp: grows_def)
  note R = emitCmp_grows[OF ok3(1,3) r]
  have ok4: "constIdx_ok f4" "f_Start f4 \<noteq> None" "b < length (f_arena f4)" using R(1,4) ok3(2,3) by (auto simp: grows_def)
  note N = NewBlock_grows[OF ok4(1,2) t ok4(3)]
  have ok5: "constIdx_ok f5" "b < length (f_arena f5)" using N(1-3) ok4(3) by (auto simp: grows_def)
  note J = Jnz_grows[OF ok5, where c = r and t = "j_To ?j" and e = "Some t"]
  have ta: "t = length (f_arena f)" "length (f_arena f5) = Suc t" using N(2,3) R(4) K(3) X(2) by simp_all
  then have tb: "t \<noteq> b" "t < length (f_arena ?f6)" "b < length (f_arena ?f6)" using ok(3) J(6) by auto
  have "prefix (f_Temps f2) (f_Temps f3)" using K(1)[of b] by (simp add: grows_def)
  have f46: "grows b f4 ?f6" by (rule grows_trans[OF N(1) J(1) ok4(3)])
  have f06: "grows b f ?f6" by (rule grows_trans[OF grows_trans[OF grows_trans[OF X(1) K(1) ok(3)] R(1) ok(3)] f46 ok(3)])
  have ga: "f_Temps g = f_Temps ?f6" "f_Consts g = f_Consts ?f6" "length (f_arena g) = length (f_arena ?f6)" "f_Name g = f_Name ?f6"
    "f_Start g = f_Start ?f6" "f_Blocks g = f_Blocks ?f6" "f_constIdx g = f_constIdx ?f6" by (simp_all add: tg(2)) (simp_all add: upd_blk_def)
  have gb: "blk g p = blk ?f6 p" if "p \<noteq> t" for p using that tb(2) by (simp add: tg(2))
  have gt: "blk g t = (blk ?f6 t)\<lparr>b_Jmp := ?tj\<rparr>" using tb(2) by (simp add: tg(2))
  have grow: "grows b f g" unfolding tg(2) by (rule grows_upd[OF f06 tb(1) ta(1) tb(2)]) (simp add: jmp0_def)
  have "index_code n (length (f_Temps f2)) g (j_Arg ?j) cls lo idx is"
    by (rule index_code_mono[OF X(4)]) (use K(1)[of b] R(1) f46 in \<open>auto simp: grows_def ga intro: prefix_order.trans\<close>)
  moreover have "int_const g kr cls spread"
    by (rule int_const_mono[OF K(2)]) (use R(1) f46 in \<open>auto simp: grows_def ga intro: prefix_order.trans\<close>)
  moreover have "length (f_Temps f2) < length (f_Temps g)" using R(3) K(4) f46 prefix_length_le[of "f_Temps f4" "f_Temps ?f6"] by (simp add: grows_def ga)
  moreover have "n \<le> length (f_Temps f2)" using ok(4) X(1) prefix_length_le[of "f_Temps f" "f_Temps f2"] by (simp add: grows_def)
  moreover have "b_Instrs (blk g b) = b_Instrs (blk f b) @ is @ [cmp_instr CmpUgt idx kr (length (f_Temps f2))]"
    using gb[of b] tb(1) J(3) N(8)[OF ok4(3)] R(5) K(5) X(3) K(4) by simp
  moreover have "b_Jmp (blk g b) = jmp0\<lparr>j_Kind := JmpJnz, j_Arg := tempRef (length (f_Temps f2)), j_To := j_To ?j, j_To2 := Some t\<rparr>"
    using gb[of b] tb(1) J(2) R(2) K(4) by simp
  moreover have "b_Phis (blk g t) = []" "b_Instrs (blk g t) = []" "b_Jmp (blk g t) = ?tj" using gt J(7)[OF tb(1)] N(4,5) by simp_all
  ultimately have "table_code n g ?j cls lo spread b (length (b_Instrs (blk f b))) t" unfolding table_code_def
    by (intro exI[of _ idx] exI[of _ "is"] exI[of _ kr] exI[of _ "length (f_Temps f2)"] conjI) simp_all
  then show ?thesis using grow ta ga(3) J(6) by (simp add: tg(1))
qed

section \<open>The pass over a function\<close>

definition tabled :: "func \<Rightarrow> bptr \<Rightarrow> bool" where
  "tabled f b \<longleftrightarrow> switch_block f b \<and> (\<exists>q. jt_qualifies f b = Some (Some q))"

text \<open>No switch has a nil target.\<close>

definition targets_ok :: "func \<Rightarrow> bool" where
  "targets_ok f \<longleftrightarrow> (\<forall>b. switch_block f b \<longrightarrow> j_To (b_Jmp (blk f b)) \<noteq> None \<and> (\<forall>c \<in> set (j_Cases (b_Jmp (blk f b))). sc_Blk c \<noteq> None))"

text \<open>The blocks in their new order, the tables' blocks numbered from \<open>p\<close>.\<close>

fun laid_out :: "func \<Rightarrow> nat \<Rightarrow> bptr list \<Rightarrow> bptr list" where
  "laid_out f p [] = []"
| "laid_out f p (b # bs) = (if tabled f b then b # p # laid_out f (Suc p) bs else b # laid_out f p bs)"

lemma laid_out_append: "laid_out f p (xs @ ys) = laid_out f p xs @ laid_out f (p + length (filter (tabled f) xs)) ys"
  by (induction xs arbitrary: p) auto

lemma set_laid_out: "set (laid_out f p bs) \<subseteq> set bs \<union> {p..<p + length (filter (tabled f) bs)}"
proof (induction bs arbitrary: p)
  case (Cons b bs)
  show ?case using Cons[of p] Cons[of "Suc p"] by auto
qed simp

lemma insert_after_split: "y \<notin> set xs \<Longrightarrow> insert_after x y (xs @ y # zs) = xs @ y # x # zs"
  by (induction xs) auto

lemma filter_other: "x \<notin> set xs \<Longrightarrow> filter (\<lambda>y. y \<noteq> x) xs = xs"
  by (rule filter_True) auto

lemma targets_phi_total: "(\<And>c. c \<in> set cs \<Longrightarrow> sc_Blk c \<noteq> None) \<Longrightarrow> targets_phi f cs \<noteq> None"
proof (induction cs)
  case (Cons c cs)
  obtain p where "sc_Blk c = Some p" using Cons.prems[of c] by auto
  then show ?case using Cons by (cases "b_Phis (blk f p) = []") (auto simp: hasPhi_def)
qed simp

lemma targets_phi_False:
  "targets_phi f cs = Some False \<Longrightarrow> c \<in> set cs \<Longrightarrow> \<exists>p. sc_Blk c = Some p \<and> b_Phis (blk f p) = []"
  by (induction cs) (auto simp: hasPhi_def bind_eq_Some_conv split: if_splits)

lemma targets_phi_cong: "(\<And>p. b_Phis (blk g p) = b_Phis (blk f p)) \<Longrightarrow> targets_phi g cs = targets_phi f cs"
  by (induction cs) (simp_all add: hasPhi_def cong: if_cong)

lemma jt_qualifies_total:
  assumes "targets_ok f" "switch_block f b"
  shows "\<exists>q. jt_qualifies f b = Some q"
proof -
  have t: "j_To (b_Jmp (blk f b)) \<noteq> None" using assms by (auto simp: targets_ok_def)
  have "targets_phi f (j_Cases (b_Jmp (blk f b))) \<noteq> None" by (rule targets_phi_total) (use assms in \<open>auto simp: targets_ok_def\<close>)
  with t have t: "j_To (b_Jmp (blk f b)) \<noteq> None" "targets_phi f (j_Cases (b_Jmp (blk f b))) \<noteq> None" .
  then show ?thesis by (auto simp: jt_qualifies_def Let_def hasPhi_def split: prod.split)
qed

lemma jt_qualifies_cong:
  assumes "b_Jmp (blk g b) = b_Jmp (blk f b)" "\<And>p. b_Phis (blk g p) = b_Phis (blk f p)"
  shows "jt_qualifies g b = jt_qualifies f b"
proof -
  have "targets_phi g = targets_phi f" by (rule ext) (rule targets_phi_cong[OF assms(2)])
  moreover have "hasPhi g = hasPhi f" by (rule ext) (simp add: hasPhi_def assms(2))
  ultimately show ?thesis unfolding jt_qualifies_def assms(1) by (simp only:)
qed

lemma jt_qualifiesD:
  assumes "jt_qualifies f b = Some (Some (lo, spread))"
  defines "j \<equiv> b_Jmp (blk f b)"
  shows "jtMinCases \<le> length (j_Cases j)" "unat spread < jtMaxSpan" "\<exists>hi. jt_range (j_Signed j) (j_Cases j) = (lo, hi) \<and> spread = hi - lo"
    "\<forall>c \<in> set (j_Cases j). \<exists>p. sc_Blk c = Some p \<and> b_Phis (blk f p) = []"
    "length (j_Cases j) < unat spread + 1 \<longrightarrow> (\<exists>p. j_To j = Some p \<and> b_Phis (blk f p) = [])"
proof -
  obtain l hi where r: "jt_range (j_Signed j) (j_Cases j) = (l, hi)" by fastforce
  have q: "l = lo" "spread = hi - l" "jtMinCases \<le> length (j_Cases j)" "unat spread < jtMaxSpan" "targets_phi f (j_Cases j) = Some False"
    "length (j_Cases j) < unat spread + 1 \<longrightarrow> hasPhi f (j_To j) = Some False"
    using assms(1) r unfolding jt_qualifies_def j_def[symmetric]
    by (auto simp: Let_def bind_eq_Some_conv split: if_splits)
  show "jtMinCases \<le> length (j_Cases j)" "unat spread < jtMaxSpan" by (fact q)+
  show "\<exists>hi. jt_range (j_Signed j) (j_Cases j) = (lo, hi) \<and> spread = hi - lo" using r q by blast
  show "\<forall>c \<in> set (j_Cases j). \<exists>p. sc_Blk c = Some p \<and> b_Phis (blk f p) = []" using targets_phi_False[OF q(5)] by blast
  show "length (j_Cases j) < unat spread + 1 \<longrightarrow> (\<exists>p. j_To j = Some p \<and> b_Phis (blk f p) = [])" using q(6) by (auto simp: hasPhi_def)
qed

text \<open>The code of a block with a table, and what holds after some of the blocks.\<close>

definition has_table :: "func \<Rightarrow> func \<Rightarrow> bptr \<Rightarrow> bool" where
  "has_table f g b \<longleftrightarrow> (\<exists>lo spread cls tbl. jt_qualifies f b = Some (Some (lo, spread)) \<and> ClassOf f (j_Arg (b_Jmp (blk f b))) = Some cls \<and>
     length (f_arena f) \<le> tbl \<and> tbl < length (f_arena g) \<and>
     table_code (length (f_Temps f)) g (b_Jmp (blk f b)) cls lo spread b (length (b_Instrs (blk f b))) tbl)"

definition tabled_upto :: "func \<Rightarrow> bptr list \<Rightarrow> func \<Rightarrow> bool" where
  "tabled_upto f ys g \<longleftrightarrow> constIdx_ok g \<and> f_Start g = f_Start f \<and> f_Name g = f_Name f \<and>
     length (f_arena g) = length (f_arena f) + length (filter (tabled f) ys) \<and>
     prefix (f_Temps f) (f_Temps g) \<and> prefix (f_Consts f) (f_Consts g) \<and>
     f_Blocks g = laid_out f (length (f_arena f)) ys @ drop (length ys) (f_Blocks f) \<and>
     (\<forall>b < length (f_arena f). \<not> (b \<in> set ys \<and> tabled f b) \<longrightarrow> blk g b = blk f b) \<and>
     (\<forall>p. b_Phis (blk g p) = b_Phis (blk f p)) \<and>
     (\<forall>b < length (f_arena f). prefix (b_Instrs (blk f b)) (b_Instrs (blk g b))) \<and>
     (\<forall>b \<in> set ys. tabled f b \<longrightarrow> has_table f g b)"

lemma table_code_mono:
  assumes "table_code n f j cls lo spread b k tbl" "blk g b = blk f b" "blk g tbl = blk f tbl"
    "prefix (f_Temps f) (f_Temps g)" "prefix (f_Consts f) (f_Consts g)"
  shows "table_code n g j cls lo spread b k tbl"
proof -
  obtain idx "is" kr i where t: "index_code n i f (j_Arg j) cls lo idx is" "n \<le> i" "i < length (f_Temps f)" "int_const f kr cls spread"
    "drop k (b_Instrs (blk f b)) = is @ [cmp_instr CmpUgt idx kr i]"
    "b_Jmp (blk f b) = jmp0\<lparr>j_Kind := JmpJnz, j_Arg := tempRef i, j_To := j_To j, j_To2 := Some tbl\<rparr>"
    "b_Phis (blk f tbl) = []" "b_Instrs (blk f tbl) = []"
    "b_Jmp (blk f tbl) = jmp0\<lparr>j_Kind := JmpTable, j_Arg := idx, j_Targets := jt_table lo (unat spread + 1) (j_Cases j) (j_To j)\<rparr>"
    using assms(1) unfolding table_code_def by blast
  have "index_code n i g (j_Arg j) cls lo idx is" "int_const g kr cls spread" "i < length (f_Temps g)"
    using index_code_mono[OF t(1) assms(4,5)] int_const_mono[OF t(4) assms(5)] t(3) prefix_length_le[OF assms(4)] by auto
  with t show ?thesis unfolding table_code_def assms(2,3) by blast
qed

lemma blk_moveBlockAfter [simp]: "blk (moveBlockAfter x y f) p = blk f p"
  by (simp add: moveBlockAfter_def blk_def)

lemma blk_fresh: "length (f_arena f) \<le> p \<Longrightarrow> blk f p = block0"
  by (simp add: blk_def)

lemma tabled_step:
  assumes ready: "switches_ready f" and I: "tabled_upto f ys g" and bs: "f_Blocks f = ys @ b # zs" and tb: "tabled f b"
  shows "\<exists>h. tryJumpTable b g = Some h \<and> tabled_upto f (ys @ [b]) h"
proof -
  let ?L = "length (f_arena f)" and ?n = "length (f_Temps f)" and ?j = "b_Jmp (blk f b)"
  have bl: "b < ?L" "b \<notin> set ys" "b \<notin> set zs" "set zs \<subseteq> {..<?L}" "set ys \<subseteq> {..<?L}"
    using ready bs by (auto simp: switches_ready_def)
  have same: "blk g b = blk f b" and phis: "\<And>p. b_Phis (blk g p) = b_Phis (blk f p)" and pre: "prefix (f_Temps f) (f_Temps g)" "prefix (f_Consts f) (f_Consts g)"
    and gl: "length (f_arena g) = ?L + length (filter (tabled f) ys)" and gB: "f_Blocks g = laid_out f ?L ys @ b # zs"
    using I bl(1,2) bs by (auto simp: tabled_upto_def)
  obtain lo spread where q: "jt_qualifies f b = Some (Some (lo, spread))" using tb by (auto simp: tabled_def)
  have q': "jt_qualifies g b = Some (Some (lo, spread))" using q jt_qualifies_cong[of g b f] same phis by simp
  obtain cls where cls: "ClassOf f (j_Arg ?j) = Some cls" using ready tb by (auto simp: switches_ready_def tabled_def)
  have cls': "ClassOf g (j_Arg ?j) = Some cls" by (rule ClassOf_prefix[OF cls pre])
  have ok: "constIdx_ok g" "f_Start g \<noteq> None" "b < length (f_arena g)" "?n \<le> length (f_Temps g)"
    using I ready bl(1) gl prefix_length_le[OF pre(1)] by (auto simp: tabled_upto_def switches_ready_def)
  obtain tbl h where e: "emit_check b lo spread cls g = (tbl, h)" by fastforce
  have E: "grows b g h" "tbl = length (f_arena g)" "length (f_arena h) = Suc tbl"
    "table_code ?n h ?j cls lo spread b (length (b_Instrs (blk f b))) tbl"
    using emit_check_code[OF ok e] same by auto
  let ?m = "moveBlockAfter tbl b h"
  have res: "tryJumpTable b g = Some ?m" using q' cls' same e by (simp add: tryJumpTable_def emit_table_check)
  have m: "f_Temps ?m = f_Temps h" "f_Consts ?m = f_Consts h" "f_arena ?m = f_arena h" "f_Start ?m = f_Start h" "f_Name ?m = f_Name h" "constIdx_ok ?m = constIdx_ok h"
    by (simp_all add: moveBlockAfter_def constIdx_ok_def)
  have hpre: "prefix (f_Temps g) (f_Temps h)" "prefix (f_Consts g) (f_Consts h)" using E(1) by (simp_all add: grows_def)
  have old: "blk h p = blk g p" if "p < length (f_arena g)" "p \<noteq> b" for p using E(1) that by (simp add: grows_def)
  have lay: "f_Blocks ?m = laid_out f ?L ys @ b # tbl # zs"
  proof -
    have out: "tbl \<notin> set (laid_out f ?L ys)" "b \<notin> set (laid_out f ?L ys)" "tbl \<notin> set zs" "tbl \<noteq> b"
      using set_laid_out[of f ?L ys] bl E(2) gl by auto
    have "f_Blocks h = laid_out f ?L ys @ b # zs @ [tbl]" using E(1-3) gB by (simp add: grows_def)
    then have "filter (\<lambda>x. x \<noteq> tbl) (f_Blocks h) = laid_out f ?L ys @ b # zs" using out by (simp add: filter_other)
    then show ?thesis by (simp add: moveBlockAfter_def insert_after_split[OF out(2)])
  qed
  have ph: "b_Phis (blk h p) = b_Phis (blk f p)" for p
  proof -
    consider "p = b" | "p < length (f_arena g)" "p \<noteq> b" | "p = tbl" | "length (f_arena h) \<le> p" using E(2,3) by linarith
    then show ?thesis
    proof cases
      case 3
      then have "b_Phis (blk h p) = []" using E(4) by (auto simp: table_code_def)
      then show ?thesis using 3 E(2) gl by (simp add: blk_fresh block0_def)
    qed (use E phis old gl in \<open>auto simp: grows_def blk_fresh\<close>)
  qed
  have ins: "prefix (b_Instrs (blk f p)) (b_Instrs (blk h p))" if "p < ?L" for p
    using I E(1) old[of p] that gl same by (cases "p = b") (auto simp: tabled_upto_def grows_def)
  have here: "has_table f ?m b" unfolding has_table_def using q cls E(2,3) gl table_code_mono[OF E(4), of ?m] m
    by (intro exI[of _ lo] exI[of _ spread] exI[of _ cls] exI[of _ tbl]) simp
  have there: "has_table f ?m b'" if b': "b' \<in> set ys" "tabled f b'" for b'
  proof -
    obtain lo spread cls tbl' where t: "jt_qualifies f b' = Some (Some (lo, spread))" "ClassOf f (j_Arg (b_Jmp (blk f b'))) = Some cls"
      "?L \<le> tbl'" "tbl' < length (f_arena g)" "table_code ?n g (b_Jmp (blk f b')) cls lo spread b' (length (b_Instrs (blk f b'))) tbl'"
      using I b' unfolding tabled_upto_def has_table_def by blast
    have "b' \<noteq> b" "b' < ?L" "tbl' \<noteq> b" using b'(1) bl t(3) by auto
    then have "blk ?m b' = blk g b'" "blk ?m tbl' = blk g tbl'" using old gl t(4) by simp_all
    then show ?thesis unfolding has_table_def using t E(2,3) table_code_mono[OF t(5), of ?m] m hpre
      by (intro exI[of _ lo] exI[of _ spread] exI[of _ cls] exI[of _ tbl']) simp
  qed
  have "tabled_upto f (ys @ [b]) ?m" unfolding tabled_upto_def
  proof (intro conjI)
    show "length (f_arena ?m) = ?L + length (filter (tabled f) (ys @ [b]))" using E(2,3) gl tb m by simp
    show "f_Blocks ?m = laid_out f ?L (ys @ [b]) @ drop (length (ys @ [b])) (f_Blocks f)"
      using lay tb bs E(2) gl by (simp add: laid_out_append)
    show "\<forall>p < ?L. \<not> (p \<in> set (ys @ [b]) \<and> tabled f p) \<longrightarrow> blk ?m p = blk f p"
    proof (intro allI impI)
      fix p assume p: "p < ?L" "\<not> (p \<in> set (ys @ [b]) \<and> tabled f p)"
      then have "p \<noteq> b" using tb by auto
      then show "blk ?m p = blk f p" using I old[of p] p gl by (auto simp: tabled_upto_def)
    qed
    show "\<forall>b' \<in> set (ys @ [b]). tabled f b' \<longrightarrow> has_table f ?m b'" using here there by auto
    show "prefix (f_Temps f) (f_Temps ?m)" "prefix (f_Consts f) (f_Consts ?m)" using pre hpre m by (auto intro: prefix_order.trans)
  qed (use I E(1) m ph ins in \<open>simp_all add: tabled_upto_def grows_def\<close>)
  with res show ?thesis by blast
qed

lemma JumpTables_tabled:
  assumes ready: "switches_ready f" and t: "targets_ok f"
  shows "\<exists>g. JumpTables f = Some g \<and> tabled_upto f (f_Blocks f) g"
  unfolding JumpTables_def
proof (rule fold_opt_invar[where I = "tabled_upto f"])
  show "tabled_upto f [] f" using ready by (simp add: tabled_upto_def switches_ready_def)
  fix b ys zs g assume bs: "f_Blocks f = ys @ b # zs" and I: "tabled_upto f ys g"
  show "\<exists>h. (if j_Kind (b_Jmp (blk g b)) = JmpSwitch then tryJumpTable b g else Some g) = Some h \<and> tabled_upto f (ys @ [b]) h"
  proof (cases "tabled f b")
    case True
    have "b \<notin> set ys" "b < length (f_arena f)" using ready bs by (auto simp: switches_ready_def)
    then have "blk g b = blk f b" using I by (simp add: tabled_upto_def)
    then have "j_Kind (b_Jmp (blk g b)) = JmpSwitch" using True by (simp add: tabled_def switch_block_def)
    then show ?thesis using tabled_step[OF ready I bs True] by simp
  next
    case False
    have b: "b \<notin> set ys" "b < length (f_arena f)" "b \<in> set (f_Blocks f)" using ready bs by (auto simp: switches_ready_def)
    then have same: "blk g b = blk f b" using I by (simp add: tabled_upto_def)
    have "jt_qualifies g b = jt_qualifies f b" by (rule jt_qualifies_cong) (use I same in \<open>simp_all add: tabled_upto_def\<close>)
    moreover have "jt_qualifies f b = Some None" if sw: "switch_block f b"
    proof -
      obtain q where "jt_qualifies f b = Some q" using jt_qualifies_total[OF t sw] by blast
      then show ?thesis using False sw by (cases q) (auto simp: tabled_def)
    qed
    ultimately have "(if j_Kind (b_Jmp (blk g b)) = JmpSwitch then tryJumpTable b g else Some g) = Some g"
      using b(3) same by (simp add: tryJumpTable_def switch_block_def)
    moreover have "tabled_upto f (ys @ [b]) g" using I False bs by (auto simp: tabled_upto_def laid_out_append)
    ultimately show ?thesis by simp
  qed
qed

section \<open>Where the code goes\<close>

lemma table_entry_plain:
  assumes q: "jt_qualifies f b = Some (Some (lo, spread))" and dd: "distinct (map (\<lambda>c. unat (sc_Val c - lo)) (j_Cases (b_Jmp (blk f b))))"
    and i: "i \<le> unat spread"
  shows "\<exists>p. jt_table lo (unat spread + 1) (j_Cases (b_Jmp (blk f b))) (j_To (b_Jmp (blk f b))) ! i = Some p \<and> b_Phis (blk f p) = []"
proof -
  let ?j = "b_Jmp (blk f b)"
  note Q = jt_qualifiesD[OF q]
  obtain hi where r: "jt_range (j_Signed ?j) (j_Cases ?j) = (lo, hi)" "spread = hi - lo" using Q(3) by blast
  show ?thesis
  proof (cases "length (j_Cases ?j) < unat spread + 1")
    case True
    have "i < unat spread + 1" using i by simp
    note nth = jt_table_nth[OF dd this, of "j_To ?j"]
    show ?thesis
    proof (cases "find (\<lambda>c. unat (sc_Val c - lo) = i) (j_Cases ?j)")
      case None
      then show ?thesis using nth Q(5) True by simp
    next
      case (Some c)
      then have "c \<in> set (j_Cases ?j)" by (metis find_Some_iff nth_mem)
      then show ?thesis using nth Some Q(4) by simp
    qed
  next
    case False
    then have "unat (hi - lo) + 1 \<le> length (j_Cases ?j)" using r(2) by simp
    from jt_full[OF r(1) dd this, of i "j_To ?j"] i r(2) Q(4) show ?thesis by auto
  qed
qed

text \<open>
  C16: \<open>JumpTables\<close> returns and puts the block of every table right behind the block of its switch;
  blocks whose switch does not qualify, or that have none, are as they were.  A block that gets a table keeps its phis and its
  instructions.  Running what follows them on a machine without a budget, from any frame in which the controlling value reads as
  \<open>v\<close>, goes on as the switch does for \<open>v\<close>, in the block it names and with the phis of the edge it names, after at most one further block.
  The machine and every temporary the function had are unchanged.
\<close>

theorem JumpTables_correct:
  assumes "switches_ready f" "targets_ok f"
  shows "\<exists>g. JumpTables f = Some g \<and> f_Blocks g = laid_out f (length (f_arena f)) (f_Blocks f) \<and>
    (\<forall>b \<in> set (f_Blocks f). \<not> tabled f b \<longrightarrow> blk g b = blk f b) \<and>
    (\<forall>b cls fo ext v fr mc. tabled f b \<and> ClassOf f (j_Arg (b_Jmp (blk f b))) = Some cls \<and> cls_IsInt cls \<and>
       distinct (map (\<lambda>c. asUnsigned cls (sc_Val c)) (j_Cases (b_Jmp (blk f b)))) \<and>
       v_Cls v = normCls cls \<and> dispatch_state fo (length (f_Temps f)) g (j_Arg (b_Jmp (blk f b))) v (fr, mc) \<longrightarrow>
       b_Phis (blk g b) = b_Phis (blk f b) \<and> take (length (b_Instrs (blk f b))) (b_Instrs (blk g b)) = b_Instrs (blk f b) \<and>
       (\<exists>m \<le> 1. \<exists>fr'. same_below (length (f_Temps f)) fr fr' \<and>
          (\<forall>N. run_from (N + m) fo ext g b (length (b_Instrs (blk f b))) (fr, mc) =
             run N fo ext g (Some (f_Name g, b)) (switch_target (b_Jmp (blk f b)) cls v) (fr', mc))))"
proof -
  obtain g where g: "JumpTables f = Some g" "tabled_upto f (f_Blocks f) g" using JumpTables_tabled[OF assms] by blast
  have keep: "blk g b = blk f b" if "b \<in> set (f_Blocks f)" "\<not> tabled f b" for b
    using g(2) assms(1) that by (auto simp: tabled_upto_def switches_ready_def)
  have "b_Phis (blk g b) = b_Phis (blk f b) \<and> take (length (b_Instrs (blk f b))) (b_Instrs (blk g b)) = b_Instrs (blk f b) \<and>
       (\<exists>m \<le> 1. \<exists>fr'. same_below (length (f_Temps f)) fr fr' \<and>
          (\<forall>N. run_from (N + m) fo ext g b (length (b_Instrs (blk f b))) (fr, mc) =
             run N fo ext g (Some (f_Name g, b)) (switch_target (b_Jmp (blk f b)) cls v) (fr', mc)))"
    if b: "tabled f b" "ClassOf f (j_Arg (b_Jmp (blk f b))) = Some cls" "cls_IsInt cls"
       "distinct (map (\<lambda>c. asUnsigned cls (sc_Val c)) (j_Cases (b_Jmp (blk f b))))" "v_Cls v = normCls cls"
      and st: "dispatch_state fo (length (f_Temps f)) g (j_Arg (b_Jmp (blk f b))) v (fr, mc)" for b cls fo ext v fr mc
  proof -
    let ?j = "b_Jmp (blk f b)"
    have bl: "b \<in> set (f_Blocks f)" "b < length (f_arena f)" using b(1) assms(1) by (auto simp: tabled_def switch_block_def switches_ready_def)
    then have pre: "prefix (b_Instrs (blk f b)) (b_Instrs (blk g b))" "b_Phis (blk g b) = b_Phis (blk f b)" and phis: "\<And>p. b_Phis (blk g p) = b_Phis (blk f p)"
      using g(2) by (simp_all add: tabled_upto_def)
    have "has_table f g b" using g(2) b(1) bl(1) by (simp add: tabled_upto_def)
    then obtain lo spread tbl where t: "jt_qualifies f b = Some (Some (lo, spread))"
      "table_code (length (f_Temps f)) g ?j cls lo spread b (length (b_Instrs (blk f b))) tbl"
      using b(2) by (auto simp: has_table_def)
    note Q = jt_qualifiesD[OF t(1)]
    obtain hi where r: "jt_range (j_Signed ?j) (j_Cases ?j) = (lo, hi)" "spread = hi - lo" using Q(3) by blast
    have small: "unat (hi - lo) < jtMaxSpan" using Q(2) r(2) by simp
    note J = jt_target[OF r(1) small b(4)]
    have cls: "ClassOf g (j_Arg ?j) = Some cls"
      by (rule ClassOf_prefix[OF b(2)]) (use g(2) in \<open>simp_all add: tabled_upto_def\<close>)
    obtain m fr' where m: "m \<le> 1" "same_below (length (f_Temps f)) fr fr'"
      "\<And>N. run_from (N + m) fo ext g b (length (b_Instrs (blk f b))) (fr, mc) =
       (if jt_index cls lo (val_i64 v) \<le> unat spread
        then run N fo ext g (Some (f_Name g, tbl)) (jt_table lo (unat spread + 1) (j_Cases ?j) (j_To ?j) ! jt_index cls lo (val_i64 v)) (fr', mc)
        else run N fo ext g (Some (f_Name g, b)) (j_To ?j) (fr', mc))"
      using table_runs[OF t(2) st cls b(3,5) Q(2), of ext] by blast
    have goal: "run_from (N + m) fo ext g b (length (b_Instrs (blk f b))) (fr, mc) =
       run N fo ext g (Some (f_Name g, b)) (switch_target ?j cls v) (fr', mc)" for N
    proof (cases "jt_index cls lo (val_i64 v) \<le> unat spread")
      case True
      obtain p where p: "jt_table lo (unat spread + 1) (j_Cases ?j) (j_To ?j) ! jt_index cls lo (val_i64 v) = Some p" "b_Phis (blk g p) = []"
        using table_entry_plain[OF t(1) J(1) True] phis by auto
      then have "switch_target ?j cls v = Some p" unfolding switch_target_cases[OF b(5)] J(2)[of "val_i64 v" "j_To ?j", folded r(2)] using True by simp
      then show ?thesis using m(3)[of N] True p(1) run_from_anywhere[OF p(2)] by simp
    next
      case False
      then have "switch_target ?j cls v = j_To ?j" unfolding switch_target_cases[OF b(5)] J(2)[of "val_i64 v" "j_To ?j", folded r(2)] by simp
      then show ?thesis using m(3)[of N] False by simp
    qed
    show ?thesis using pre m(1,2) goal by (auto simp: prefix_def)
  qed
  moreover have "f_Blocks g = laid_out f (length (f_arena f)) (f_Blocks f)" using g(2) by (simp add: tabled_upto_def)
  ultimately show ?thesis using g(1) keep by (intro exI[of _ g]) blast
qed

text \<open>An instance: eight consecutive cases, and a default with a phi.\<close>

definition table_fn :: func where
  "table_fn = (snd (newTemp ''r'' ClsW (snd (newTemp ''k'' ClsW func0))))\<lparr>f_Params := [0], f_Start := Some 0, f_Blocks := [0, 1, 2, 3], f_arena := [
     block0\<lparr>b_Jmp := jmp0\<lparr>j_Kind := JmpSwitch, j_Arg := tempRef 0, j_To := Some 3, j_Signed := True,
       j_Cases := map (\<lambda>(k, b). \<lparr>sc_Val = k, sc_Blk = Some b\<rparr>) [(- 3, 1), (- 2, 2), (- 1, 1), (0, 1), (1, 2), (2, 2), (3, 1), (4, 2)]\<rparr>\<rparr>,
     block0\<lparr>b_Jmp := jmp0\<lparr>j_Kind := JmpRet\<rparr>\<rparr>, block0\<lparr>b_Jmp := jmp0\<lparr>j_Kind := JmpRet\<rparr>\<rparr>,
     block0\<lparr>b_Phis := [\<lparr>p_Cls = ClsW, p_To = tempRef 1, p_Args = [tempRef 0], p_Blocks = [Some 0]\<rparr>], b_Jmp := jmp0\<lparr>j_Kind := JmpRet\<rparr>\<rparr>]\<rparr>"

lemma table_fn_ok: "switches_ready table_fn" "targets_ok table_fn" "tabled table_fn 0" "ClassOf table_fn (j_Arg (b_Jmp (blk table_fn 0))) = Some ClsW"
  "distinct (map (\<lambda>c. asUnsigned ClsW (sc_Val c)) (j_Cases (b_Jmp (blk table_fn 0))))"
  "b_Instrs (blk table_fn 0) = []" "length (f_Temps table_fn) = 2" "j_Arg (b_Jmp (blk table_fn 0)) = tempRef 0"
  "switch_target (b_Jmp (blk table_fn 0)) ClsW (intVal ClsW 2) = Some 2" "laid_out table_fn (length (f_arena table_fn)) (f_Blocks table_fn) = [0, 4, 1, 2, 3]"
proof -
  have c: "ClassOf table_fn (j_Arg (b_Jmp (blk table_fn 0))) = Some ClsW" by code_simp
  have k: "\<forall>b \<in> {1, 2, 3}. j_Kind (b_Jmp (blk table_fn b)) \<noteq> JmpSwitch" by code_simp
  show "ClassOf table_fn (j_Arg (b_Jmp (blk table_fn 0))) = Some ClsW" by (rule c)
  have b: "f_Blocks table_fn = [0, 1, 2, 3]" "length (f_arena table_fn) = 4" "f_Start table_fn = Some 0" "f_constIdx table_fn = []"
    by (simp_all add: table_fn_def newTemp_def func0_def)
  have only: "b = 0" if "switch_block table_fn b" for b using that k b(1) by (auto simp: switch_block_def simp del: One_nat_def)
  have "ClassOf table_fn (j_Arg (b_Jmp (blk table_fn b))) \<noteq> None" if "switch_block table_fn b" for b using only[OF that] c by simp
  then show "switches_ready table_fn" using b by (simp add: switches_ready_def constIdx_ok_def)
  have "j_To (b_Jmp (blk table_fn 0)) \<noteq> None \<and> (\<forall>c \<in> set (j_Cases (b_Jmp (blk table_fn 0))). sc_Blk c \<noteq> None)" by code_simp
  then show "targets_ok table_fn" using only unfolding targets_ok_def by metis
  have sw: "switch_block table_fn 0" using b(1) by (simp add: switch_block_def) code_simp
  have "jt_qualifies table_fn 0 = Some (Some (- 3, 7))" by code_simp
  then show t: "tabled table_fn 0" using sw by (simp add: tabled_def)
  have "\<not> tabled table_fn p" if "p \<in> {1, 2, 3}" for p using that only[of p] by (auto simp: tabled_def)
  then show "laid_out table_fn (length (f_arena table_fn)) (f_Blocks table_fn) = [0, 4, 1, 2, 3]" using t b by simp
  show "distinct (map (\<lambda>c. asUnsigned ClsW (sc_Val c)) (j_Cases (b_Jmp (blk table_fn 0))))" by code_simp
  show "b_Instrs (blk table_fn 0) = []" "length (f_Temps table_fn) = 2" "j_Arg (b_Jmp (blk table_fn 0)) = tempRef 0" by code_simp+
  show "switch_target (b_Jmp (blk table_fn 0)) ClsW (intVal ClsW 2) = Some 2" by code_simp
qed

theorem JumpTables_correct_witness:
  "\<exists>g. JumpTables table_fn = Some g \<and> f_Blocks g = [0, 4, 1, 2, 3] \<and>
     (\<forall>fo ext. \<exists>fr m fr'. m \<le> 1 \<and> evalRef fo bare_machine fr (tempRef 0) = Inr (intVal ClsW 2) \<and>
        (\<forall>N. run_from (N + m) fo ext g 0 0 (fr, bare_machine) = run N fo ext g (Some (f_Name g, 0)) (Some 2) (fr', bare_machine)))"
  using JumpTables_correct[OF table_fn_ok(1,2)]
proof (elim exE conjE, goal_cases)
  case (1 g)
  have "2 \<le> length (f_Temps g)"
  proof -
    obtain g' where "JumpTables table_fn = Some g'" "tabled_upto table_fn (f_Blocks table_fn) g'" using JumpTables_tabled[OF table_fn_ok(1,2)] by blast
    then show ?thesis using 1(1) prefix_length_le[of "f_Temps table_fn" "f_Temps g"] table_fn_ok(7) by (simp add: tabled_upto_def)
  qed
  then have len: "Suc (length (f_Temps g) - 1) = length (f_Temps g)" by simp
  have "\<exists>fr m fr'. m \<le> 1 \<and> evalRef fo bare_machine fr (tempRef 0) = Inr (intVal ClsW 2) \<and>
        (\<forall>N. run_from (N + m) fo ext g 0 0 (fr, bare_machine) = run N fo ext g (Some (f_Name g, 0)) (Some 2) (fr', bare_machine))" for fo ext
  proof -
    let ?fr = "\<lparr>fr_fn = g, fr_vals = intVal ClsW 2 # replicate (length (f_Temps g) - 1) val0, fr_varargs = [], fr_spBase = 0\<rparr>"
    have ev: "evalRef fo bare_machine ?fr (tempRef 0) = Inr (intVal ClsW 2)" by (simp add: evalRef_def tempRef_def)
    have st: "dispatch_state fo 2 g (tempRef 0) (intVal ClsW 2) (?fr, bare_machine)"
      using ev len by (simp add: dispatch_state_def bare_machine_def tempRef_def)
    have pre: "tabled table_fn 0 \<and> ClassOf table_fn (j_Arg (b_Jmp (blk table_fn 0))) = Some ClsW \<and> cls_IsInt ClsW \<and>
       distinct (map (\<lambda>c. asUnsigned ClsW (sc_Val c)) (j_Cases (b_Jmp (blk table_fn 0)))) \<and> v_Cls (intVal ClsW 2) = normCls ClsW \<and>
       dispatch_state fo (length (f_Temps table_fn)) g (j_Arg (b_Jmp (blk table_fn 0))) (intVal ClsW 2) (?fr, bare_machine)"
      using table_fn_ok st by (simp add: cls_IsInt_def)
    obtain m fr' where m: "m \<le> 1"
      "\<forall>N. run_from (N + m) fo ext g 0 (length (b_Instrs (blk table_fn 0))) (?fr, bare_machine) =
         run N fo ext g (Some (f_Name g, 0)) (switch_target (b_Jmp (blk table_fn 0)) ClsW (intVal ClsW 2)) (fr', bare_machine)"
      using 1(4)[rule_format, OF pre, of ext] by blast
    then show ?thesis using ev unfolding table_fn_ok(6,9)
      by (intro exI[of _ ?fr] exI[of _ m] exI[of _ fr']) simp
  qed
  with 1(1,2) show ?case unfolding table_fn_ok(10) by blast
qed

end
