(* ===== verification/Interp_Extern.thy ===== *)
theory Interp_Extern
  imports Interp_Run
begin

text \<open>
  The external functions every machine provides (\<open>interp/extern.go\<close>) and the formatter behind
  \<open>printf\<close> (\<open>interp/printf.go\<close>).  \<open>strconv.FormatFloat\<close> is the argument \<open>ff\<close>: the bits of the
  double, the verb and the precision.
\<close>

type_synonym format_float = "u64 \<Rightarrow> byte \<Rightarrow> int \<Rightarrow> byte list"

text \<open>A Go string or character literal.\<close>

definition ascii :: "string \<Rightarrow> byte list" where
  "ascii s = map of_char s"

definition byte_of :: "char \<Rightarrow> byte" where
  "byte_of c = of_char c"

section \<open>Heap and strings\<close>

definition roundUpU :: "u64 \<Rightarrow> u64 \<Rightarrow> u64" where
  "roundUpU n a = (if a \<le> 1 then n else (n + a - 1) AND NOT (a - 1))"

definition argAt :: "val list \<Rightarrow> nat \<Rightarrow> val" where
  "argAt a i = (if i < length a then a ! i else val0)"

definition heapAlloc :: "u64 \<Rightarrow> machine \<Rightarrow> (u64 \<times> machine) option" where
  "heapAlloc sz mc =
     (let addr = roundUpU (mc_heapNext mc) 16; nxt = addr + roundUpU sz 16;
          nxt' = (if nxt \<le> addr then addr + 16 else nxt)
      in map_option (\<lambda>m. (addr, mc\<lparr>mc_heapNext := nxt', mc_mem := m\<rparr>)) (mapRange addr (maxU sz 1) (mc_mem mc)))"

text \<open>\<open>Some None\<close> is the source's \<open>ok = false\<close>.\<close>

partial_function (option) cstring_loop :: "memory \<Rightarrow> u64 \<Rightarrow> byte list \<Rightarrow> byte list option option" where
  "cstring_loop m addr out = (case mem_load m addr 1 of
     None \<Rightarrow> Some None
   | Some b \<Rightarrow> if b = 0 then Some (Some out) else cstring_loop m (addr + 1) (out @ [ucast b]))"

declare cstring_loop.simps [code]

definition readCString :: "memory \<Rightarrow> u64 \<Rightarrow> byte list option option" where
  "readCString m addr = cstring_loop m addr []"

definition cstring :: "memory \<Rightarrow> u64 \<Rightarrow> trap + byte list" where
  "cstring m addr = (case readCString m addr of
     None \<Rightarrow> Inl Diverges
   | Some None \<Rightarrow> Inl (UnmappedString addr)
   | Some (Some bs) \<Rightarrow> Inr bs)"

definition NewCString :: "byte list \<Rightarrow> machine \<Rightarrow> (u64 \<times> machine) option" where
  "NewCString s mc = (case heapAlloc (of_nat (length s + 1)) mc of
     None \<Rightarrow> None
   | Some (addr, mc') \<Rightarrow> Some (addr, mc'\<lparr>mc_mem := snd (writeBytes addr (s @ [0]) (mc_mem mc'))\<rparr>))"

section \<open>Formatting\<close>

text \<open>\<open>strconv.FormatUint\<close>, \<open>FormatInt\<close> in base 10, and \<open>Atoi\<close> on digits, which saturates.\<close>

definition digit_byte :: "nat \<Rightarrow> byte" where
  "digit_byte d = (if d < 10 then of_nat (48 + d) else of_nat (87 + d))"

fun format_nat :: "nat \<Rightarrow> nat \<Rightarrow> byte list" where
  "format_nat base n = (if n < base \<or> base < 2 then [digit_byte n] else format_nat base (n div base) @ [digit_byte (n mod base)])"

definition FormatUint :: "u64 \<Rightarrow> nat \<Rightarrow> byte list" where
  "FormatUint v base = format_nat base (unat v)"

definition FormatInt :: "i64 \<Rightarrow> byte list" where
  "FormatInt v = (if sint v < 0 then byte_of CHR ''-'' # format_nat 10 (nat (- sint v)) else format_nat 10 (nat (sint v)))"

definition is_digit :: "byte \<Rightarrow> bool" where
  "is_digit b \<longleftrightarrow> byte_of CHR ''0'' \<le> b \<and> b \<le> byte_of CHR ''9''"

definition Atoi :: "byte list \<Rightarrow> int" where
  "Atoi ds = min (2 ^ 63 - 1) (foldl (\<lambda>n d. 10 * n + int (unat d - 48)) 0 ds)"

definition ToUpper :: "byte list \<Rightarrow> byte list" where
  "ToUpper = map (\<lambda>b. if byte_of CHR ''a'' \<le> b \<and> b \<le> byte_of CHR ''z'' then b - 32 else b)"

definition isNumericVerb :: "byte \<Rightarrow> bool" where
  "isNumericVerb v \<longleftrightarrow> v \<in> set (ascii ''diuxXofFeEgG'')"

definition pad :: "byte list \<Rightarrow> byte list \<Rightarrow> int \<Rightarrow> bool \<Rightarrow> byte list" where
  "pad s flags width numeric =
     (if int (length s) \<ge> width then s
      else let n = nat (width - int (length s)) in
        if byte_of CHR ''-'' \<in> set flags then s @ replicate n (byte_of CHR '' '')
        else if numeric \<and> byte_of CHR ''0'' \<in> set flags then
          (if s \<noteq> [] \<and> (hd s = byte_of CHR ''-'' \<or> hd s = byte_of CHR ''+'') then take 1 s @ replicate n (byte_of CHR ''0'') @ drop 1 s
           else replicate n (byte_of CHR ''0'') @ s)
        else replicate n (byte_of CHR '' '') @ s)"

definition formatVerb :: "float_ops \<Rightarrow> format_float \<Rightarrow> memory \<Rightarrow> byte \<Rightarrow> val \<Rightarrow> int \<Rightarrow> trap + byte list" where
  "formatVerb fo ff m verb v prec =
     (let fprec = (if prec < 0 then 6 else prec) in
      if verb \<in> set (ascii ''di'') then Inr (FormatInt (val_i64 v))
      else if verb = byte_of CHR ''u'' then Inr (FormatUint (val_u64 v) 10)
      else if verb = byte_of CHR ''x'' then Inr (FormatUint (val_u64 v) 16)
      else if verb = byte_of CHR ''X'' then Inr (ToUpper (FormatUint (val_u64 v) 16))
      else if verb = byte_of CHR ''o'' then Inr (FormatUint (val_u64 v) 8)
      else if verb = byte_of CHR ''c'' then Inr [ucast (val_i64 v)]
      else if verb = byte_of CHR ''p'' then Inr (ascii ''0x'' @ FormatUint (val_u64 v) 16)
      else if verb = byte_of CHR ''s'' then cstring m (val_u64 v)
      else if verb \<in> set (ascii ''fF'') then Inr (ff (val_f64 fo v) (byte_of CHR ''f'') fprec)
      else if verb \<in> set (ascii ''eE'') then Inr (ff (val_f64 fo v) verb fprec)
      else if verb \<in> set (ascii ''gG'') then Inr (ff (val_f64 fo v) (verb OR 0x20) fprec)
      else Inl (BadConversion verb))"

text \<open>A conversion: flags, width, precision and the rest of the format from its verb on.\<close>

definition parse_spec :: "byte list \<Rightarrow> byte list \<times> int \<times> int \<times> byte list" where
  "parse_spec fmt =
     (let isflag = (\<lambda>b. b \<in> set (ascii ''-+ 0#'')); flags = takeWhile isflag fmt; r1 = dropWhile isflag fmt;
          ws = takeWhile is_digit r1; r2 = dropWhile is_digit r1; width = (if ws = [] then 0 else Atoi ws);
          (prec, r3) = (if r2 \<noteq> [] \<and> hd r2 = byte_of CHR ''.'' then (Atoi (takeWhile is_digit (tl r2)), dropWhile is_digit (tl r2)) else (-1, r2))
      in (flags, width, prec, dropWhile (\<lambda>b. b \<in> set (ascii ''lhzjt'')) r3))"

lemma parse_spec_shorter: "parse_spec fmt = (fl, w, p, r) \<Longrightarrow> length r \<le> length fmt"
  by (auto simp: parse_spec_def Let_def split: if_splits intro!: le_trans[OF length_dropWhile_le] le_trans[OF diff_le_self])

text \<open>\<open>nxt\<close> is the source's \<open>next\<close>, on the state \<open>st\<close> it closes over.\<close>

function cPrintf :: "float_ops \<Rightarrow> format_float \<Rightarrow> memory \<Rightarrow> ('s \<Rightarrow> (val \<times> 's) option) \<Rightarrow> byte list \<Rightarrow> 's \<Rightarrow> byte list \<Rightarrow> trap + byte list \<times> 's" where
  "cPrintf fo ff m nxt [] st out = Inr (out, st)"
| "cPrintf fo ff m nxt (c # rest) st out =
     (if c \<noteq> byte_of CHR ''%'' then cPrintf fo ff m nxt rest st (out @ [c])
      else case parse_spec rest of (flags, width, prec, r) \<Rightarrow>
        (case r of
           [] \<Rightarrow> Inl BadFormat
         | verb # r' \<Rightarrow>
             if verb = byte_of CHR ''%'' then cPrintf fo ff m nxt r' st (out @ [byte_of CHR ''%''])
             else case nxt st of
               None \<Rightarrow> Inl FewArguments
             | Some (v, st') \<Rightarrow> (case formatVerb fo ff m verb v prec of
                 Inl e \<Rightarrow> Inl e
               | Inr s \<Rightarrow> cPrintf fo ff m nxt r' st' (out @ pad s flags width (isNumericVerb verb)))))"
  by pat_completeness auto
termination
  by (relation "measure (\<lambda>(fo, ff, m, nxt, fmt, st, out). length fmt)") (fastforce dest!: parse_spec_shorter[OF sym])+

section \<open>The externs\<close>

definition extMalloc :: extern where
  "extMalloc a mc = (case heapAlloc (val_u64 (argAt a 0)) mc of None \<Rightarrow> Inl Diverges | Some (p, mc') \<Rightarrow> Inr (ptrVal p, mc'))"

definition extCalloc :: extern where
  "extCalloc a mc = (case heapAlloc (val_u64 (argAt a 0) * val_u64 (argAt a 1)) mc of None \<Rightarrow> Inl Diverges | Some (p, mc') \<Rightarrow> Inr (ptrVal p, mc'))"

text \<open>Go's \<open>make\<close> panics on a negative \<open>int(n)\<close>; \<open>memcpy\<close> moves bytes as \<open>copyMem\<close> does.\<close>

definition extMemcpy :: extern where
  "extMemcpy a mc = e_then (copyMem (val_u64 (argAt a 0)) (val_u64 (argAt a 1)) (sint (val_u64 (argAt a 2))) mc)
     (\<lambda>mc'. Inr (ptrVal (val_u64 (argAt a 0)), mc'))"

definition extMemset :: extern where
  "extMemset a mc =
     (let dst = val_u64 (argAt a 0); c = ucast (val_u64 (argAt a 1)); n = sint (val_u64 (argAt a 2)) in
      if n < 0 then Inl GoPanic
      else case writeBytes dst (replicate (nat n) c) (mc_mem mc) of
        (False, _) \<Rightarrow> Inl (UnmappedCopyDest dst n)
      | (True, m) \<Rightarrow> Inr (ptrVal dst, mc\<lparr>mc_mem := m\<rparr>))"

definition extPutchar :: extern where
  "extPutchar a mc = (let c = (ucast (val_u64 (argAt a 0)) :: byte) in Inr (val_W (ucast c), mc\<lparr>mc_stdout := mc_stdout mc @ [c]\<rparr>))"

definition extPuts :: extern where
  "extPuts a mc = e_then (cstring (mc_mem mc) (val_u64 (argAt a 0))) (\<lambda>s. Inr (val_W 0, mc\<lparr>mc_stdout := mc_stdout mc @ s @ [10]\<rparr>))"

definition extPrintf :: "float_ops \<Rightarrow> format_float \<Rightarrow> extern" where
  "extPrintf fo ff a mc = e_then (cstring (mc_mem mc) (val_u64 (argAt a 0))) (\<lambda>fmt.
     e_then (cPrintf fo ff (mc_mem mc) (\<lambda>i. if i < length a then Some (a ! i, i + 1) else None) fmt 1 []) (\<lambda>(s, _).
     Inr (val_W (of_nat (length s)), mc\<lparr>mc_stdout := mc_stdout mc @ s\<rparr>)))"

definition extVprintf :: "float_ops \<Rightarrow> format_float \<Rightarrow> extern" where
  "extVprintf fo ff a mc = e_then (cstring (mc_mem mc) (val_u64 (argAt a 0))) (\<lambda>fmt.
     let ap = val_u64 (argAt a 1) in
     case mem_load (mc_mem mc) ap 8 of
       None \<Rightarrow> Inl (BadVaList ap)
     | Some token \<Rightarrow> if unat token \<ge> length (mc_vaLists mc) then Inl (BadVaList ap)
         else e_then (cPrintf fo ff (mc_mem mc) va_take fmt (mc_vaLists mc ! unat token) []) (\<lambda>(s, st).
           Inr (val_W (of_nat (length s)), mc\<lparr>mc_vaLists := (mc_vaLists mc)[unat token := st], mc_stdout := mc_stdout mc @ s\<rparr>)))"

definition extExit :: extern where
  "extExit a mc = Inl (ExitTrap (sint (val_i64 (argAt a 0))))"

definition extFree :: extern where
  "extFree a mc = Inr (val_W 0, mc)"

definition defaultExterns :: "float_ops \<Rightarrow> format_float \<Rightarrow> string \<Rightarrow> extern option" where
  "defaultExterns fo ff = map_of
     [(''malloc'', extMalloc), (''calloc'', extCalloc), (''free'', extFree), (''memcpy'', extMemcpy), (''memmove'', extMemcpy),
      (''memset'', extMemset), (''exit'', extExit), (''putchar'', extPutchar), (''puts'', extPuts),
      (''printf'', extPrintf fo ff), (''vprintf'', extVprintf fo ff)]"

section \<open>The externs keep the contract\<close>

lemma heapAlloc_charged: "heapAlloc sz mc = Some (a, mc') \<Longrightarrow> charged mc mc'"
  by (auto simp: heapAlloc_def Let_def)

lemma vprintf_charged: "charged mc (mc\<lparr>mc_vaLists := vs, mc_stdout := out\<rparr>)"
  by (simp add: charged_def image_of_def)

lemma cstring_ends [simp]: "cstring m a \<noteq> Inl OutOfSteps"
  by (auto simp: cstring_def split: option.splits)

lemma formatVerb_ends [simp]: "formatVerb fo ff m verb v prec \<noteq> Inl OutOfSteps"
  by (simp add: formatVerb_def Let_def)

lemma cPrintf_ends [simp]: "cPrintf fo ff m nxt fmt st out \<noteq> Inl OutOfSteps"
proof (induction fo ff m nxt fmt st out rule: cPrintf.induct)
  case (2 fo ff m nxt c rest st out)
  show ?case
  proof (cases "c = byte_of CHR ''%''")
    case True
    obtain fl w p r where s: "parse_spec rest = (fl, w, p, r)" by (cases "parse_spec rest")
    show ?thesis
    proof (cases r)
      case (Cons v r')
      show ?thesis
      proof (cases "v = byte_of CHR ''%''")
        case False
        then show ?thesis using 2(3) True s Cons formatVerb_ends[of fo ff m v] by (auto split: option.splits sum.splits)
      qed (use 2(2) True s Cons in auto)
    qed (use True s in auto)
  qed (use 2(1) in auto)
qed simp

interpretation dx: externs "defaultExterns fo ff" for fo ff
proof
  fix name e args mc v mc'
  assume e: "defaultExterns fo ff name = Some e"
  have cases: "e \<in> {extMalloc, extCalloc, extFree, extMemcpy, extMemset, extExit, extPutchar, extPuts, extPrintf fo ff, extVprintf fo ff}"
    using map_of_SomeD[OF e[unfolded defaultExterns_def]] by auto
  show "e args mc \<noteq> Inl OutOfSteps"
    using cases by (auto simp: extMalloc_def extCalloc_def extFree_def extMemcpy_def extMemset_def extExit_def extPutchar_def extPuts_def
        extPrintf_def extVprintf_def Let_def split: option.splits prod.splits bool.splits if_splits)
  assume "e args mc = Inr (v, mc')"
  then show "charged mc mc'"
    using cases by (auto simp: extMalloc_def extCalloc_def extFree_def extMemcpy_def extMemset_def extExit_def extPutchar_def extPuts_def
        extPrintf_def extVprintf_def Let_def vprintf_charged dest!: heapAlloc_charged copyMem_charged)
qed

section \<open>Calls return\<close>


text \<open>
  C28: A call that returns has restored the stack pointer and the call depth, left the loaded image
  alone, and only ever lowered a positive fuel budget, never to zero.
\<close>

theorem callFunc_restores:
  assumes "callFunc n fo (defaultExterns fo ff) f args mc = Inr (v, mc')"
  shows "mc_sp mc' = mc_sp mc \<and> mc_depth mc' = mc_depth mc \<and> mc_funcs mc' = mc_funcs mc \<and> mc_funcAt mc' = mc_funcAt mc \<and>
    mc_externAt mc' = mc_externAt mc \<and> mc_syms mc' = mc_syms mc \<and> mc_blockAddr mc' = mc_blockAddr mc \<and> mc_blockAt mc' = mc_blockAt mc \<and>
    (if mc_fuel mc > 0 then 0 < mc_fuel mc' \<and> mc_fuel mc' \<le> mc_fuel mc else mc_fuel mc' = mc_fuel mc)"
  using dx.callFunc_keeps[OF assms] image_of_fields[of mc' mc] unfolding charged_def by blast

text \<open>A machine with one function and a budget.\<close>

definition machine_of :: "func \<Rightarrow> int \<Rightarrow> machine" where
  "machine_of f fuel = \<lparr>mc_funcs = [f_Name f \<mapsto> f], mc_mem = newMemory, mc_syms = Map.empty, mc_funcAt = Map.empty, mc_externAt = Map.empty,
     mc_blockAddr = Map.empty, mc_blockAt = Map.empty, mc_sp = 0x70000000, mc_heapNext = 0x40000000, mc_commonNext = 0x20000000, mc_textNext = 0x1000,
     mc_vaLists = [], mc_depth = 0, mc_stdout = [], mc_fuel = fuel, mc_maxDepth = 100000, mc_divZeroZero = False\<rparr>"

text \<open>A loop around the instructions \<open>is\<close>, and a function that returns its parameter.\<close>

definition spin :: "instr list \<Rightarrow> func" where
  "spin is = func0\<lparr>f_Name := ''spin'', f_Blocks := [0], f_Start := Some 0,
     f_arena := [block0\<lparr>b_Instrs := is, b_Jmp := jmp0\<lparr>j_Kind := JmpJmp, j_To := Some 0\<rparr>\<rparr>]\<rparr>"

definition ret_block :: func where
  "ret_block = func0\<lparr>f_Name := ''ret'', f_Blocks := [0], f_Start := Some 0, f_arena := [block0\<lparr>b_Jmp := jmp0\<lparr>j_Kind := JmpRet\<rparr>\<rparr>]\<rparr>"


lemma callFunc_ret_block:
  "callFunc 1 fo ext ret_block [] (machine_of ret_block 7) = Inr (val0, machine_of ret_block 7)"
  by (simp add: callFunc_def callFunc_with_def bind_params_def exec_block_def resolvePhis_def Let_def ret_block_def machine_of_def func0_def
      blk_def block0_def jmp0_def execTerminator_def e_then_def ref_IsNone_def R_def)

theorem callFunc_restores_witness:
  "\<forall>fo ff. \<exists>mc'. callFunc 1 fo (defaultExterns fo ff) ret_block [] (machine_of ret_block 7) = Inr (val0, mc') \<and>
     mc_sp mc' = mc_sp (machine_of ret_block 7)"
proof (intro allI exI conjI)
  fix fo ff
  show c: "callFunc 1 fo (defaultExterns fo ff) ret_block [] (machine_of ret_block 7) = Inr (val0, machine_of ret_block 7)"
    by (rule callFunc_ret_block)
  show "mc_sp (machine_of ret_block 7) = mc_sp (machine_of ret_block 7)" using callFunc_restores[OF c] by (rule conjunct1)
qed

text \<open>
  The budget counts instructions only, so a loop without any is not stopped by it: no allowance
  of steps is enough for a call of a function that is one empty block jumping to itself.
\<close>

theorem fuel_misses_empty_loop:
  "callFunc n fo ext (spin []) [] (machine_of (spin []) fuel) = Inl OutOfSteps"
proof -
  have "run n fo ext (spin []) from (Some 0) st = Inl OutOfSteps" for "from" st
  proof (induction n arbitrary: "from" st)
    case (Suc n)
    have "exec_block fo ext call (spin []) from 0 st = Inr (Next (spin []) (Some 0), st)" for call
      by (cases st) (simp add: exec_block_def resolvePhis_def Let_def spin_def blk_def block0_def jmp0_def execTerminator_def e_then_def)
    then show ?case using Suc.IH by (simp add: e_then_def)
  qed simp
  then show ?thesis
    by (simp add: callFunc_def callFunc_with_def bind_params_def Let_def machine_of_def e_then_def) (simp add: spin_def func0_def)
qed

text \<open>A budget that ran out is left at zero, which the next call reads as no budget at all.\<close>

lemma exhausted_fuel_is_unlimited:
  "mc_fuel mc = 1 \<Longrightarrow> tick mc = (True, mc\<lparr>mc_fuel := 0\<rparr>) \<and> tick (mc\<lparr>mc_fuel := 0\<rparr>) = (False, mc\<lparr>mc_fuel := 0\<rparr>)"
  by (simp add: tick_def Let_def)

section \<open>Heap storage and strings\<close>

lemma roundUpU_16:
  assumes "unat n + 15 < 2 ^ 64"
  shows "unat (roundUpU n 16) = (unat n + 15) div 16 * 16"
proof -
  let ?x = "n + 15"
  have m: "(15 :: u64) = mask 4" by (simp add: mask_eq_exp_minus_1)
  have "?x AND NOT 15 = push_bit 4 (drop_bit 4 ?x)" unfolding m by (rule bit_word_eqI) (auto simp: bit_simps)
  then have "?x = (?x AND NOT 15) + take_bit 4 ?x" by (metis bits_ident)
  then have "?x AND NOT 15 = ?x - take_bit 4 ?x" by (metis add_diff_cancel_right')
  moreover have "take_bit 4 ?x \<le> ?x" by (simp add: word_le_nat_alt unsigned_take_bit_eq take_bit_nat_less_eq_self)
  ultimately have "unat (?x AND NOT 15) = unat ?x - take_bit 4 (unat ?x)" by (simp add: unat_sub unsigned_take_bit_eq)
  moreover have "unat ?x = unat n + 15" using assms by (simp add: unat_plus_if')
  ultimately have "unat (?x AND NOT 15) = (unat n + 15) - (unat n + 15) mod 16" by (simp add: take_bit_eq_mod)
  moreover have "roundUpU n 16 = ?x AND NOT 15" 
  proof -
    have "\<not> (16 :: u64) \<le> 1" by (simp add: word_le_def)
    then show ?thesis by (simp add: roundUpU_def add.commute)
  qed
  ultimately show ?thesis by (simp add: minus_mod_eq_div_mult)
qed

lemma set_upt_mem: "i < n \<Longrightarrow> i \<in> set [0..<n]"
  by simp

lemma heapAlloc_spec:
  assumes "mem_ok (mc_mem mc)" "unat (mc_heapNext mc) + unat sz \<le> 2 ^ 64 - 8192"
  shows "\<exists>a mc'. heapAlloc sz mc = Some (a, mc') \<and> mem_ok (mc_mem mc') \<and> mc_heapNext mc \<le> a \<and> unat a mod 16 = 0 \<and>
    unat a + max 1 (unat sz) \<le> unat (mc_heapNext mc') \<and> unat (mc_heapNext mc') \<le> unat (mc_heapNext mc) + unat sz + 32 \<and>
    (\<forall>i < max 1 (unat sz). get_byte (mc_mem mc') (a + of_nat i) \<noteq> None) \<and>
    (\<forall>c b. get_byte (mc_mem mc) c = Some b \<longrightarrow> get_byte (mc_mem mc') c = Some b) \<and>
    (\<forall>c b. get_byte (mc_mem mc) c = None \<longrightarrow> get_byte (mc_mem mc') c = Some b \<longrightarrow> b = 0)"
proof -
  let ?h = "unat (mc_heapNext mc)" and ?a = "roundUpU (mc_heapNext mc) 16" and ?r = "roundUpU sz 16"
  have a: "unat ?a = (?h + 15) div 16 * 16" using assms(2) by (intro roundUpU_16) simp
  have r: "unat ?r = (unat sz + 15) div 16 * 16" using assms(2) by (intro roundUpU_16) simp
  have ah: "?h \<le> unat ?a" "unat ?a \<le> ?h + 15" unfolding a by presburger+
  have rh: "unat sz \<le> unat ?r" "unat ?r \<le> unat sz + 15" unfolding r by presburger+
  let ?n = "if ?a + ?r \<le> ?a then ?a + 16 else ?a + ?r"
  have s1: "unat (?a + ?r) = unat ?a + unat ?r" using ah rh assms(2) by (subst unat_plus_if') simp
  have s2: "unat (?a + 16) = unat ?a + 16" using ah rh assms(2) by (subst unat_plus_if') simp
  have n: "unat ?n = unat ?a + (if unat ?r = 0 then 16 else unat ?r)" using s1 s2 by (simp add: word_le_nat_alt)
  have mx: "unat (maxU sz 1) = max 1 (unat sz)" by (auto simp: maxU_def word_less_nat_alt max_def)
  obtain m' where m': "mapRange ?a (maxU sz 1) (mc_mem mc) = Some m'" "mem_ok m'" "\<forall>i < max 1 (unat sz). get_byte m' (?a + of_nat i) \<noteq> None"
    "\<forall>c b. get_byte (mc_mem mc) c = Some b \<longrightarrow> get_byte m' c = Some b" "\<forall>c b. get_byte (mc_mem mc) c = None \<longrightarrow> get_byte m' c = Some b \<longrightarrow> b = 0"
    using mapRange_total[OF assms(1), of ?a "maxU sz 1"] ah assms(2) unfolding mx by fastforce
  have h: "heapAlloc sz mc = Some (?a, mc\<lparr>mc_heapNext := ?n, mc_mem := m'\<rparr>)" using m'(1) by (simp add: heapAlloc_def Let_def)
  have "unat ?a + max 1 (unat sz) \<le> unat ?n" "unat ?n \<le> ?h + unat sz + 32" using n ah rh by (auto simp: max_def split: if_splits)
  moreover have "unat ?a mod 16 = 0" unfolding a by simp
  ultimately show ?thesis using h m' ah by (simp add: word_le_nat_alt)
qed

lemma mem_load_1: "mem_load m a 1 = map_option ucast (get_byte m a)"
  by (simp add: mem_load_def split: option.splits)

lemma cstring_loop_spec:
  assumes "\<forall>i < length s. get_byte m (a + of_nat i) = Some (s ! i)" "get_byte m (a + of_nat (length s)) = Some 0" "0 \<notin> set s"
  shows "cstring_loop m a out = Some (Some (out @ s))"
  using assms
proof (induction s arbitrary: a out)
  case Nil
  then show ?case by (subst cstring_loop.simps) (simp add: mem_load_1[unfolded One_nat_def])
next
  case (Cons b s)
  have b: "get_byte m a = Some b" using Cons.prems(1) by (metis add.right_neutral length_pos_if_in_set list.set_intros(1) nth_Cons_0 semiring_1_class.of_nat_0)
  have "cstring_loop m (a + 1) (out @ [b]) = Some (Some ((out @ [b]) @ s))"
  proof (rule Cons.IH)
    show "\<forall>i < length s. get_byte m (a + 1 + of_nat i) = Some (s ! i)"
      using Cons.prems(1) by (metis (no_types, lifting) Suc_less_eq add.assoc length_Cons nth_Cons_Suc of_nat_Suc)
    show "get_byte m (a + 1 + of_nat (length s)) = Some 0" using Cons.prems(2) by (simp add: add.assoc)
  qed (use Cons.prems(3) in simp)
  moreover have uc: "ucast (ucast b :: u64) = b" by (rule bit_word_eqI) (simp add: bit_simps)
  moreover have "(ucast b :: u64) \<noteq> 0" using Cons.prems(3) by (metis list.set_intros(1) uc ucast_0)
  ultimately show ?case using b by (subst cstring_loop.simps) (simp add: mem_load_1[unfolded One_nat_def])
qed

text \<open>
  C31: The heap allocator hands out 16-byte aligned storage that lies between the old and the new
  heap cursor, so no two allocations share a byte; all of it is mapped, mapped bytes keep
  their contents and newly mapped ones read as zero.
\<close>

theorem heapAlloc_fresh:
  assumes "mem_ok (mc_mem mc)" "unat (mc_heapNext mc) + unat sz \<le> 2 ^ 64 - 8192"
  shows "\<exists>a mc'. heapAlloc sz mc = Some (a, mc') \<and> mem_ok (mc_mem mc') \<and> mc_heapNext mc \<le> a \<and> unat a mod 16 = 0 \<and>
    unat a + max 1 (unat sz) \<le> unat (mc_heapNext mc') \<and> unat (mc_heapNext mc') \<le> unat (mc_heapNext mc) + unat sz + 32 \<and>
    (\<forall>i < max 1 (unat sz). get_byte (mc_mem mc') (a + of_nat i) \<noteq> None) \<and>
    (\<forall>c b. get_byte (mc_mem mc) c = Some b \<longrightarrow> get_byte (mc_mem mc') c = Some b) \<and>
    (\<forall>c b. get_byte (mc_mem mc) c = None \<longrightarrow> get_byte (mc_mem mc') c = Some b \<longrightarrow> b = 0)"
  using heapAlloc_spec[OF assms] .

theorem heapAlloc_fresh_witness:
  "\<exists>a mc'. heapAlloc 40 (machine_of ret_block 0) = Some (a, mc') \<and> 0x40000000 \<le> a \<and> unat a + 40 \<le> unat (mc_heapNext mc')"
proof -
  have "mem_ok (mc_mem (machine_of ret_block 0))" "unat (mc_heapNext (machine_of ret_block 0)) + unat (40 :: u64) \<le> 2 ^ 64 - 8192"
    by (simp_all add: machine_of_def mem_ok_new)
  from heapAlloc_fresh[OF this] show ?thesis by (auto simp: machine_of_def)
qed

text \<open>
  C32: A C string copied to the heap by \<open>NewCString\<close> is what \<open>readCString\<close> reads back from its
  address, for every string without a NUL.
\<close>

theorem NewCString_readCString:
  assumes "mem_ok (mc_mem mc)" "0 \<notin> set s" "unat (mc_heapNext mc) + length s + 1 \<le> 2 ^ 64 - 8192"
  shows "\<exists>a mc'. NewCString s mc = Some (a, mc') \<and> readCString (mc_mem mc') a = Some (Some s)"
proof -
  let ?n = "length s + 1" and ?bs = "s @ [0]"
  have n: "unat (of_nat ?n :: u64) = ?n" using assms(3) by (simp only: unsigned_of_nat of_nat_id) (rule take_bit_nat_eq_self, simp)
  obtain a mc1 where h: "heapAlloc (of_nat ?n) mc = Some (a, mc1)" "mem_ok (mc_mem mc1)"
    "\<forall>i < max 1 ?n. get_byte (mc_mem mc1) (a + of_nat i) \<noteq> None"
    using heapAlloc_spec[OF assms(1), of "of_nat ?n"] assms(3) unfolding n by fastforce
  obtain ok m where w: "writeBytes a ?bs (mc_mem mc1) = (ok, m)" by (cases "writeBytes a ?bs (mc_mem mc1)")
  have "distinct (map (\<lambda>i. a + of_nat i) [0..<length ?bs])" using assms(3) by (intro offsets_distinct) simp
  note S = store_loop_spec[OF h(2) w[unfolded writeBytes_def] this]
  have ok using S(2) h(3) by auto
  then have get: "get_byte m (a + of_nat i) = Some (?bs ! i)" if "i < ?n" for i using S(4)[OF _ set_upt_mem, of i] that by simp
  have "readCString m a = Some (Some s)"
    unfolding readCString_def using get get[of "length s"] assms(2) by (subst cstring_loop_spec[of s]) (auto simp: nth_append)
  moreover have "NewCString s mc = Some (a, mc1\<lparr>mc_mem := m\<rparr>)" using h(1) w by (simp add: NewCString_def)
  ultimately show ?thesis by fastforce
qed

theorem NewCString_readCString_witness:
  "\<exists>a mc'. NewCString [104, 105] (machine_of ret_block 0) = Some (a, mc') \<and> readCString (mc_mem mc') a = Some (Some [104, 105])"
  by (rule NewCString_readCString) (simp_all add: machine_of_def mem_ok_new)

text \<open>The formatter accepts the sign flag and then ignores it.\<close>

lemma cPrintf_ignores_plus:
  "cPrintf fo ff m nxt (ascii ''%+d'') st out = cPrintf fo ff m nxt (ascii ''%d'') st out"
  by (simp add: ascii_def byte_of_def parse_spec_def is_digit_def Let_def split: option.splits sum.splits) (simp add: pad_def)

end
