(* ===== verification/Recode.thy ===== *)
theory Recode
  imports Interp_Extern
begin

text \<open>
  Programs whose functions have other code.  A pass is run on some functions of a module; the
  interpreter then finds the new functions where it found the old ones.  The theory relates machines
  and frames before and after, shows that every instruction respects the relation, and gives the
  argument that a simulation of the loop over blocks is one of whole calls (\<open>interp/exec.go\<close>).
\<close>

section \<open>Outcomes\<close>

text \<open>
  \<open>p\<close> is an outcome for every allowance of block entries.  Unless \<open>x\<close> ran out of its own allowance,
  \<open>p\<close> settles on an outcome that agrees with \<open>x\<close>: the same trap, or results related by \<open>Q\<close>.
\<close>

definition settles :: "('a \<Rightarrow> 'b \<Rightarrow> bool) \<Rightarrow> trap + 'a \<Rightarrow> (nat \<Rightarrow> trap + 'b) \<Rightarrow> bool" where
  "settles Q x p \<longleftrightarrow> x = Inl OutOfSteps \<or> (\<exists>w. rel_sum (=) Q x w \<and> (\<exists>m0. \<forall>m \<ge> m0. p m = w))"

lemma settles_const: "rel_sum (=) Q x w \<Longrightarrow> settles Q x (\<lambda>_. w)"
  by (auto simp: settles_def)

lemma settles_trap [simp]: "settles Q (Inl e) (\<lambda>_. Inl e)"
  by (auto intro: settles_const)

lemma settles_OutOfSteps [simp]: "settles Q (Inl OutOfSteps) p"
  by (simp add: settles_def)

lemma settles_Inr: "Q a b \<Longrightarrow> settles Q (Inr a) (\<lambda>_. Inr b)"
  by (auto intro: settles_const)

lemma settles_if: "settles Q x p \<Longrightarrow> settles Q y q \<Longrightarrow> settles Q (if b then x else y) (\<lambda>m. if b then p m else q m)"
  by simp

lemma settles_shift: "settles Q x (\<lambda>m. p (m + k)) \<Longrightarrow> settles Q x p"
  unfolding settles_def by (metis le_add_diff_inverse2 add_leD2 add_le_imp_le_diff)

lemma settles_Suc: "settles Q x (\<lambda>m. p (Suc m)) \<Longrightarrow> settles Q x p"
  using settles_shift[of Q x p 1] by simp

lemma settles_later: "settles Q x p \<Longrightarrow> settles Q x (\<lambda>m. p (m + k))"
  unfolding settles_def by (meson le_add1 order_trans)

lemma settles_le: "le_out x y \<Longrightarrow> settles Q y p \<Longrightarrow> settles Q x p"
  by (auto simp: settles_def le_out_def)

lemma settles_then:
  assumes "settles Q x p" "\<And>a b. Q a b \<Longrightarrow> settles S (k a) (\<lambda>m. l m b)"
  shows "settles S (e_then x k) (\<lambda>m. e_then (p m) (l m))"
proof (cases "x = Inl OutOfSteps")
  case True
  then show ?thesis by (simp add: e_then_def)
next
  case False
  then obtain w m0 where w: "rel_sum (=) Q x w" "\<And>m. m0 \<le> m \<Longrightarrow> p m = w" using assms(1) by (auto simp: settles_def)
  show ?thesis
  proof (cases x)
    case (Inl e)
    then have "w = Inl e" using w(1) by (cases w) auto
    then show ?thesis using w(2) Inl unfolding settles_def by (intro disjI2 exI[of _ "Inl e"] conjI exI[of _ m0]) (auto simp: e_then_def)
  next
    case (Inr a)
    then obtain b where b: "w = Inr b" "Q a b" using w(1) by (cases w) auto
    have "settles S (k a) (\<lambda>m. l m b)" by (rule assms(2)[OF b(2)])
    then show ?thesis unfolding settles_def
    proof (elim disjE exE conjE)
      fix v m1 assume v: "rel_sum (=) S (k a) v" "\<forall>m \<ge> m1. l m b = v"
      have "\<forall>m \<ge> max m0 m1. e_then (p m) (l m) = v" using w(2) v(2) b(1) by (simp add: e_then_def)
      then show "e_then x k = Inl OutOfSteps \<or> (\<exists>w. rel_sum (=) S (e_then x k) w \<and> (\<exists>m0. \<forall>m \<ge> m0. e_then (p m) (l m) = w))"
        using v(1) Inr by (intro disjI2 exI[of _ v] conjI exI[of _ "max m0 m1"]) (simp_all add: e_then_def)
    qed (simp add: Inr e_then_def)
  qed
qed

lemma e_fold_Cons_then: "e_fold h (x # xs) s = e_then (h x s) (e_fold h xs)"
  by (simp add: e_then_def)

lemma settles_fold:
  assumes "\<And>x s t. x \<in> set xs \<Longrightarrow> Q s t \<Longrightarrow> settles Q (h x s) (\<lambda>m. h' m x t)" "Q s t"
  shows "settles Q (e_fold h xs s) (\<lambda>m. e_fold (h' m) xs t)"
  using assms
proof (induction xs arbitrary: s t)
  case Nil
  then show ?case by (simp add: settles_Inr)
next
  case (Cons x xs)
  show ?case unfolding e_fold_Cons_then
    by (rule settles_then[where Q = Q]) (use Cons in auto)
qed

section \<open>Other code in the machine\<close>

definition recode :: "(string \<Rightarrow> func option) \<Rightarrow> (u64 \<Rightarrow> func option) \<Rightarrow> (u64 \<Rightarrow> (func \<times> bptr) option) \<Rightarrow> machine \<Rightarrow> machine" where
  "recode F A B mc = mc\<lparr>mc_funcs := F, mc_funcAt := A, mc_blockAt := B\<rparr>"

text \<open>A function with the same interface, temporaries and constants.\<close>

definition same_frame :: "func \<Rightarrow> func \<Rightarrow> bool" where
  "same_frame f g \<longleftrightarrow> f_Name g = f_Name f \<and> f_Params g = f_Params f \<and> f_Variadic g = f_Variadic f \<and> f_HasRet g = f_HasRet f \<and>
     f_Retty g = f_Retty f \<and> f_RetAgg g = f_RetAgg f \<and> f_Temps g = f_Temps f \<and> f_Consts g = f_Consts f"

lemma same_frame_refl [simp]: "same_frame f f"
  by (simp add: same_frame_def)

lemma same_frame_sym: "same_frame f g \<Longrightarrow> same_frame g f"
  by (simp add: same_frame_def)

text \<open>The same state with the code \<open>g\<close> in the frame and the tables \<open>F\<close>, \<open>A\<close>, \<open>B\<close> in the machine.\<close>

definition restate :: "func \<Rightarrow> (machine \<Rightarrow> machine) \<Rightarrow> frame \<times> machine \<Rightarrow> frame \<times> machine" where
  "restate g r st = ((fst st)\<lparr>fr_fn := g\<rparr>, r (snd st))"

lemma e_then_map: "e_then (map_sum id h x) k = e_then x (k \<circ> h)"
  by (cases x) (simp_all add: e_then_def)

lemma map_e_then: "map_sum id h (e_then x k) = e_then x (\<lambda>y. map_sum id h (k y))"
  by (cases x) (simp_all add: e_then_def)

lemma e_fold_map:
  assumes "\<And>x s. h' x (k s) = map_sum id k (h x s)"
  shows "e_fold h' xs (k s) = map_sum id k (e_fold h xs s)"
  by (induction xs arbitrary: s) (simp_all add: assms split: sum.split)

lemma e_fold_keeps:
  assumes "e_fold h xs s = Inr s'" "\<And>x s s'. h x s = Inr s' \<Longrightarrow> P s' = P s"
  shows "P s' = P s"
  using assms(1) by (induction xs arbitrary: s) (auto split: sum.splits dest: assms(2))

lemma recode_sel [simp]:
  "mc_mem (recode F A B mc) = mc_mem mc" "mc_syms (recode F A B mc) = mc_syms mc" "mc_externAt (recode F A B mc) = mc_externAt mc"
  "mc_blockAddr (recode F A B mc) = mc_blockAddr mc" "mc_sp (recode F A B mc) = mc_sp mc" "mc_heapNext (recode F A B mc) = mc_heapNext mc"
  "mc_vaLists (recode F A B mc) = mc_vaLists mc" "mc_depth (recode F A B mc) = mc_depth mc" "mc_stdout (recode F A B mc) = mc_stdout mc"
  "mc_fuel (recode F A B mc) = mc_fuel mc" "mc_maxDepth (recode F A B mc) = mc_maxDepth mc" "mc_divZeroZero (recode F A B mc) = mc_divZeroZero mc"
  "mc_funcs (recode F A B mc) = F" "mc_funcAt (recode F A B mc) = A" "mc_blockAt (recode F A B mc) = B"
  by (simp_all add: recode_def)

lemma recode_upd [simp]:
  "(recode F A B mc)\<lparr>mc_mem := m\<rparr> = recode F A B (mc\<lparr>mc_mem := m\<rparr>)" "(recode F A B mc)\<lparr>mc_sp := a\<rparr> = recode F A B (mc\<lparr>mc_sp := a\<rparr>)"
  "(recode F A B mc)\<lparr>mc_heapNext := a\<rparr> = recode F A B (mc\<lparr>mc_heapNext := a\<rparr>)"
  "(recode F A B mc)\<lparr>mc_vaLists := vs\<rparr> = recode F A B (mc\<lparr>mc_vaLists := vs\<rparr>)"
  "(recode F A B mc)\<lparr>mc_stdout := out\<rparr> = recode F A B (mc\<lparr>mc_stdout := out\<rparr>)"
  "(recode F A B mc)\<lparr>mc_fuel := k\<rparr> = recode F A B (mc\<lparr>mc_fuel := k\<rparr>)" "(recode F A B mc)\<lparr>mc_depth := d\<rparr> = recode F A B (mc\<lparr>mc_depth := d\<rparr>)"
  by (simp_all add: recode_def)

section \<open>Instructions\<close>

text \<open>What an instruction does is the same in both states.\<close>

lemma evalRef_recode:
  "f_Consts g = f_Consts (fr_fn fr) \<Longrightarrow> evalRef fo (recode F A B mc) (fr\<lparr>fr_fn := g\<rparr>) r = evalRef fo mc fr r"
  by (simp add: evalRef_def evalConst_def split: refkind.splits constKind.splits)

lemma evalRefs_recode:
  "f_Consts g = f_Consts (fr_fn fr) \<Longrightarrow> evalRefs fo (recode F A B mc) (fr\<lparr>fr_fn := g\<rparr>) rs = evalRefs fo mc fr rs"
  by (simp add: evalRefs_def evalRef_recode)

lemma bind_result_recode: "bind_result i v (fr\<lparr>fr_fn := g\<rparr>) = map_sum id (\<lambda>fr. fr\<lparr>fr_fn := g\<rparr>) (bind_result i v fr)"
  by (simp add: bind_result_def set_val_def)

lemma set_val_recode: "set_val r v (fr\<lparr>fr_fn := g\<rparr>) = map_sum id (\<lambda>fr. fr\<lparr>fr_fn := g\<rparr>) (set_val r v fr)"
  by (simp add: set_val_def)

lemma ClassOf_recode: "same_frame f g \<Longrightarrow> ClassOf g r = ClassOf f r"
  by (simp add: same_frame_def ClassOf_def split: refkind.splits)

lemma evalValueOp_recode:
  assumes "same_frame (fr_fn fr) g"
  shows "evalValueOp fo (recode F A B mc) (fr\<lparr>fr_fn := g\<rparr>) i = evalValueOp fo mc fr i"
proof -
  have "f_Consts g = f_Consts (fr_fn fr)" using assms by (simp add: same_frame_def)
  note r = evalRef_recode[OF this] ClassOf_recode[OF assms]
  have "fr_fn (fr\<lparr>fr_fn := g\<rparr>) = g" "interp_evalCmp fo (recode F A B mc) (fr\<lparr>fr_fn := g\<rparr>) i = interp_evalCmp fo mc fr i"
    by (simp_all add: interp_evalCmp_def r)
  then show ?thesis unfolding evalValueOp_def by (simp only: r recode_sel)
qed

lemma stackAlloc_recode:
  "stackAlloc sz al (recode F A B mc) = map_option (map_prod id (recode F A B)) (stackAlloc sz al mc)"
  by (simp add: stackAlloc_def Let_def option.map_comp comp_def)

lemma copyMem_recode: "copyMem d a n (recode F A B mc) = map_sum id (recode F A B) (copyMem d a n mc)"
  by (simp add: copyMem_def e_then_def split: sum.splits prod.splits bool.splits)

lemma atomic_store_recode: "atomic_store a n v (recode F A B mc) = map_sum id (recode F A B) (atomic_store a n v mc)"
  by (simp add: atomic_store_def split: prod.splits bool.splits)

lemma memLoad_recode: "memLoad (recode F A B mc) a n = memLoad mc a n"
  by (simp add: memLoad_def)

lemma load_value_recode: "load_value (recode F A B mc) i a = load_value mc i a"
  by (simp only: load_value_def memLoad_recode)

lemmas recode_ops = load_value_recode evalRef_recode evalRefs_recode bind_result_recode set_val_recode evalValueOp_recode stackAlloc_recode copyMem_recode
  atomic_store_recode memLoad_recode map_e_then e_then_map comp_def

lemma memory_ops_recode:
  fixes fr mc F A B
  assumes "same_frame (fr_fn fr) g"
  defines "st \<equiv> restate g (recode F A B) (fr, mc)" and "h \<equiv> map_sum id (restate g (recode F A B))"
  shows "execLoad fo i st = h (execLoad fo i (fr, mc))" "execStore fo i st = h (execStore fo i (fr, mc))"
    "execAlloc fo i st = h (execAlloc fo i (fr, mc))" "execBlit fo i st = h (execBlit fo i (fr, mc))"
    "execVaStart fo i st = h (execVaStart fo i (fr, mc))" "execVaArg fo i st = h (execVaArg fo i (fr, mc))"
proof -
  have c: "f_Consts g = f_Consts (fr_fn fr)" using assms(1) by (simp add: same_frame_def)
  note r = evalRef_recode[OF c]
  show "execLoad fo i st = h (execLoad fo i (fr, mc))"
    by (simp add: st_def h_def restate_def execLoad_def r recode_ops)
      (simp add: e_then_def restate_def recode_ops Let_def split: sum.split option.split prod.split bool.split)?
  show "execStore fo i st = h (execStore fo i (fr, mc))"
    by (simp add: st_def h_def restate_def execStore_def r recode_ops)
      (simp add: e_then_def restate_def recode_ops Let_def split: sum.split option.split prod.split bool.split)?
  show "execAlloc fo i st = h (execAlloc fo i (fr, mc))"
    by (simp add: st_def h_def restate_def execAlloc_def r recode_ops)
      (simp add: e_then_def restate_def recode_ops Let_def split: sum.split option.split prod.split bool.split)?
  show "execBlit fo i st = h (execBlit fo i (fr, mc))"
    by (simp add: st_def h_def restate_def execBlit_def r recode_ops)
      (simp add: e_then_def restate_def recode_ops Let_def split: sum.split option.split prod.split bool.split)?
  show "execVaStart fo i st = h (execVaStart fo i (fr, mc))"
    by (simp add: st_def h_def restate_def execVaStart_def r recode_ops)
      (simp add: e_then_def restate_def recode_ops Let_def split: sum.split option.split prod.split bool.split)?
  show "execVaArg fo i st = h (execVaArg fo i (fr, mc))"
    by (simp add: st_def h_def restate_def execVaArg_def r recode_ops)
      (simp add: e_then_def restate_def recode_ops Let_def split: sum.split option.split prod.split bool.split)?
qed

lemma atomicOp_recode: "atomicOp name args (recode F A B mc) = map_sum id (map_prod id (recode F A B)) (atomicOp name args mc)"
proof (cases "atomicKind name")
  case (fields base sz c)
  let ?h = "map_prod id (recode F A B) :: val option \<times> machine \<Rightarrow> _"
  have d: "map_sum id ?h (if b then x else y) = (if b then map_sum id ?h x else map_sum id ?h y)" for b x y by simp
  show ?thesis unfolding atomicOp_def fields Let_def prod.case d map_e_then memLoad_recode atomic_store_recode e_then_map comp_def
    by (simp only: map_sum.simps map_prod_simp id_apply)
qed

lemma execIntrinsic_recode:
  assumes "same_frame (fr_fn fr) g"
  shows "execIntrinsic fo i (restate g (recode F A B) (fr, mc)) = map_sum id (restate g (recode F A B)) (execIntrinsic fo i (fr, mc))"
proof -
  have c: "f_Consts g = f_Consts (fr_fn fr)" using assms by (simp add: same_frame_def)
  note r = evalRef_recode[OF c] evalRefs_recode[OF c] atomicOp_recode
  show ?thesis unfolding execIntrinsic_def
    by (simp add: restate_def r recode_ops Let_def split: option.split)
      (auto simp add: e_then_def restate_def recode_ops split: sum.split option.split prod.split)
qed

lemma execInstr_recode:
  assumes "same_frame (fr_fn fr) g" "f_Name own' = f_Name own" "in_Op i \<noteq> OCall"
  shows "execInstr fo call' own' i (restate g (recode F A B) (fr, mc)) = map_sum id (restate g (recode F A B)) (execInstr fo call own i (fr, mc))"
  using assms(3) memory_ops_recode[OF assms(1)] execIntrinsic_recode[OF assms(1)]
  unfolding execInstr_def
  by (auto simp: restate_def assms(2) recode_ops evalValueOp_recode[OF assms(1)] e_then_def split: option.split sum.split)

lemma copy_agg_recode: "copy_agg t v (recode F A B mc) = map_sum id (map_prod id (recode F A B)) (copy_agg t v mc)"
  by (simp add: copy_agg_def stackAlloc_recode Let_def split: prod.split option.split) (auto simp: copyMem_recode e_then_def split: sum.split)

lemma eval_call_arg_recode:
  assumes "f_Consts g = f_Consts (fr_fn fr)"
  shows "eval_call_arg fo i (fr\<lparr>fr_fn := g\<rparr>) x (vs, recode F A B mc) =
    map_sum id (map_prod id (recode F A B)) (eval_call_arg fo i fr x (vs, mc))"
  by (cases x) (auto simp: eval_call_arg_def evalRef_recode[OF assms] copy_agg_recode e_then_def split: sum.split option.split)

lemma call_args_recode:
  assumes "f_Consts g = f_Consts (fr_fn fr)"
  shows "e_fold (eval_call_arg fo i (fr\<lparr>fr_fn := g\<rparr>)) xs (vs, recode F A B mc) =
    map_sum id (map_prod id (recode F A B)) (e_fold (eval_call_arg fo i fr) xs (vs, mc))"
  using e_fold_map[where k = "map_prod id (recode F A B)" and h = "eval_call_arg fo i fr" and s = "(vs, mc)"] eval_call_arg_recode[OF assms]
  by (simp add: map_prod_def split_def)

lemma set_val_fn: "set_val r v fr = Inr fr' \<Longrightarrow> fr_fn fr' = fr_fn fr"
  by (auto simp: set_val_def split: if_splits)

lemma bind_params_recode:
  assumes "same_frame f g"
  shows "bind_params g args (fr\<lparr>fr_fn := h\<rparr>) = map_sum id (\<lambda>fr. fr\<lparr>fr_fn := h\<rparr>) (bind_params f args fr)"
proof -
  have t: "f_Temps g = f_Temps f" "f_Params g = f_Params f" using assms by (simp_all add: same_frame_def)
  show ?thesis unfolding bind_params_def t
    by (rule e_fold_map[where k = "\<lambda>fr. fr\<lparr>fr_fn := h\<rparr>"]) (simp add: set_val_recode split: prod.split)
qed

lemma bind_params_fn: "bind_params f args fr = Inr fr' \<Longrightarrow> fr_fn fr' = fr_fn fr"
  unfolding bind_params_def by (erule e_fold_keeps) (auto split: if_splits prod.splits dest: set_val_fn)

text \<open>Phis with the same operands for the edge taken.\<close>

definition phis_alike :: "func \<Rightarrow> block_ref option \<Rightarrow> bptr \<Rightarrow> func \<Rightarrow> block_ref option \<Rightarrow> bptr \<Rightarrow> bool" where
  "phis_alike f from b g from' b' \<longleftrightarrow> b_Name (blk g b') = b_Name (blk f b) \<and>
     list_all2 (\<lambda>p q. p_Cls q = p_Cls p \<and> p_To q = p_To p \<and> p_Args q = p_Args p \<and>
       phi_index (f_Name g) from' (p_Blocks q) = phi_index (f_Name f) from (p_Blocks p)) (b_Phis (blk f b)) (b_Phis (blk g b'))"

lemma resolvePhis_recode:
  assumes "phis_alike f from b g from' b'" "f_Consts h = f_Consts (fr_fn fr)"
  shows "resolvePhis fo (recode F A B mc) g b' from' (fr\<lparr>fr_fn := h\<rparr>) = map_sum id (\<lambda>fr. fr\<lparr>fr_fn := h\<rparr>) (resolvePhis fo mc f b from fr)"
proof -
  let ?P = "\<lambda>p q. p_Cls q = p_Cls p \<and> p_To q = p_To p \<and> p_Args q = p_Args p \<and> phi_index (f_Name g) from' (p_Blocks q) = phi_index (f_Name f) from (p_Blocks p)"
  have P: "list_all2 ?P (b_Phis (blk f b)) (b_Phis (blk g b'))" and n: "b_Name (blk g b') = b_Name (blk f b)" using assms(1) by (simp_all add: phis_alike_def)
  have stage1: "stage_phi fo (recode F A B mc) g b' from' (fr\<lparr>fr_fn := h\<rparr>) q = stage_phi fo mc f b from fr p" if "?P p q" for p q
    using that n by (simp add: stage_phi_def evalRef_recode[OF assms(2)] split: option.split)
  have "e_fold (\<lambda>p staged. e_then (stage_phi fo (recode F A B mc) g b' from' (fr\<lparr>fr_fn := h\<rparr>) p) (\<lambda>v. Inr (staged @ [v]))) qs vs =
    e_fold (\<lambda>p staged. e_then (stage_phi fo mc f b from fr p) (\<lambda>v. Inr (staged @ [v]))) ps vs" if "list_all2 ?P ps qs" for ps qs vs
    using that by (induction arbitrary: vs rule: list_all2_induct) (simp_all add: stage1 e_then_def split: sum.split)
  note stage = this[OF P]
  have zip: "e_fold (\<lambda>(p, v) fr'. set_val (p_To p) v fr') (zip qs vs) fr = e_fold (\<lambda>(p, v) fr'. set_val (p_To p) v fr') (zip ps vs) fr"
    if "list_all2 ?P ps qs" for ps qs vs fr
    using that
  proof (induction arbitrary: vs fr rule: list_all2_induct)
    case (Cons p ps q qs)
    then show ?case by (cases vs) (auto split: sum.split)
  qed simp
  have commit: "e_fold (\<lambda>(p, v) fr'. set_val (p_To p) v fr') xs (fr\<lparr>fr_fn := h\<rparr>) =
    map_sum id (\<lambda>fr. fr\<lparr>fr_fn := h\<rparr>) (e_fold (\<lambda>(p, v) fr'. set_val (p_To p) v fr') xs fr)" for xs fr
    by (rule e_fold_map[where k = "\<lambda>fr. fr\<lparr>fr_fn := h\<rparr>"]) (simp add: set_val_recode split: prod.split)
  show ?thesis unfolding resolvePhis_def Let_def stage zip[OF P] commit map_e_then by (rule refl)
qed

lemma resolvePhis_fn:
  assumes "resolvePhis fo mc f b from fr = Inr fr'"
  shows "fr_fn fr' = fr_fn fr"
proof -
  have "e_fold (\<lambda>(p, v) fr'. set_val (p_To p) v fr') xs fr = Inr fr' \<Longrightarrow> fr_fn fr' = fr_fn fr" for xs
    by (erule e_fold_keeps) (auto split: prod.splits dest: set_val_fn)
  then show ?thesis using assms by (auto simp: resolvePhis_def Let_def)
qed

text \<open>An instruction writes temporaries of its frame only.\<close>

lemma bind_result_fn: "bind_result i v fr = Inr fr' \<Longrightarrow> fr_fn fr' = fr_fn fr"
  by (auto simp: bind_result_def set_val_def split: if_splits)

lemma execInstr_fn:
  assumes "execInstr fo call own i (fr, mc) = Inr (fr', mc')" "in_Op i \<noteq> OCall"
  shows "fr_fn fr' = fr_fn fr"
proof -
  have "execIntrinsic fo i (fr, mc) = Inr (fr', mc') \<Longrightarrow> fr_fn fr' = fr_fn fr"
    by (auto simp: execIntrinsic_def Let_def split: if_splits option.splits dest!: bind_result_fn set_val_fn)
  then show ?thesis using assms
    by (auto simp: execInstr_def execLoad_def execStore_def execAlloc_def execBlit_def execVaStart_def execVaArg_def Let_def
        split: if_splits option.splits dest!: bind_result_fn)
qed

section \<open>The relation\<close>

text \<open>A block address: the same block of related functions, in the arena of both.\<close>

definition blockref_rel :: "(func \<Rightarrow> func \<Rightarrow> bool) \<Rightarrow> func \<times> bptr \<Rightarrow> func \<times> bptr \<Rightarrow> bool" where
  "blockref_rel rel x y \<longleftrightarrow> rel (fst x) (fst y) \<and> snd y = snd x \<and> snd x < length (f_arena (fst x)) \<and> snd x < length (f_arena (fst y))"

definition codes_rel :: "(func \<Rightarrow> func \<Rightarrow> bool) \<Rightarrow> machine \<Rightarrow> machine \<Rightarrow> bool" where
  "codes_rel rel mc mc' \<longleftrightarrow> (\<forall>x. rel_option rel (mc_funcs mc x) (mc_funcs mc' x)) \<and> (\<forall>a. rel_option rel (mc_funcAt mc a) (mc_funcAt mc' a)) \<and>
     (\<forall>a. rel_option (blockref_rel rel) (mc_blockAt mc a) (mc_blockAt mc' a))"

definition machine_rel :: "(func \<Rightarrow> func \<Rightarrow> bool) \<Rightarrow> (int \<Rightarrow> bool) \<Rightarrow> machine \<Rightarrow> machine \<Rightarrow> bool" where
  "machine_rel rel fuel_ok mc mc' \<longleftrightarrow> fuel_ok (mc_fuel mc) \<and> codes_rel rel mc mc' \<and> (\<exists>F A B. mc' = recode F A B mc)"

definition state_rel :: "(func \<Rightarrow> func \<Rightarrow> bool) \<Rightarrow> (int \<Rightarrow> bool) \<Rightarrow> frame \<times> machine \<Rightarrow> frame \<times> machine \<Rightarrow> bool" where
  "state_rel rel fuel_ok st st' \<longleftrightarrow> machine_rel rel fuel_ok (snd st) (snd st') \<and> (\<exists>g. rel (fr_fn (fst st)) g \<and> fst st' = (fst st)\<lparr>fr_fn := g\<rparr>)"

text \<open>Calls that settle on related results, whatever the arguments.\<close>

definition calls_rel :: "(func \<Rightarrow> func \<Rightarrow> bool) \<Rightarrow> (int \<Rightarrow> bool) \<Rightarrow> callee \<Rightarrow> (nat \<Rightarrow> callee) \<Rightarrow> bool" where
  "calls_rel rel fuel_ok call call' \<longleftrightarrow> (\<forall>f g args mc mc'. rel f g \<and> machine_rel rel fuel_ok mc mc' \<longrightarrow>
     settles (rel_prod (=) (machine_rel rel fuel_ok)) (call f args mc) (\<lambda>m. call' m g args mc'))"

text \<open>Terminators that differ in the blocks they name, related by \<open>P\<close>; an indirect branch takes its block from the machine.\<close>

definition jumps_alike :: "(bptr option \<Rightarrow> bptr option \<Rightarrow> bool) \<Rightarrow> jmp \<Rightarrow> jmp \<Rightarrow> bool" where
  "jumps_alike P j j' \<longleftrightarrow> j_Kind j' = j_Kind j \<and> j_Arg j' = j_Arg j \<and> (case j_Kind j of
     JmpJmp \<Rightarrow> P (j_To j) (j_To j')
   | JmpJnz \<Rightarrow> P (j_To j) (j_To j') \<and> P (j_To2 j) (j_To2 j')
   | JmpSwitch \<Rightarrow> P (j_To j) (j_To j') \<and> j_Signed j' = j_Signed j \<and>
       list_all2 (\<lambda>c c'. sc_Val c' = sc_Val c \<and> P (sc_Blk c) (sc_Blk c')) (j_Cases j) (j_Cases j')
   | JmpTable \<Rightarrow> list_all2 P (j_Targets j) (j_Targets j')
   | _ \<Rightarrow> True)"

definition transfer_rel :: "(func \<Rightarrow> func \<Rightarrow> bool) \<Rightarrow> (bptr option \<Rightarrow> bptr option \<Rightarrow> bool) \<Rightarrow> func \<Rightarrow> func \<Rightarrow> jmp \<Rightarrow> transfer \<Rightarrow> transfer \<Rightarrow> bool" where
  "transfer_rel rel P own own' j t t' \<longleftrightarrow> (\<exists>c c'. t = Next own c \<and> t' = Next own' c' \<and> P c c') \<or>
     (\<exists>h h' b. j_Kind j = JmpBr \<and> rel h h' \<and> b < length (f_arena h) \<and> b < length (f_arena h') \<and> t = Next h (Some b) \<and> t' = Next h' (Some b)) \<or> (\<exists>v. t = Return v \<and> t' = Return v)"

lemma jumps_alike_converse: "jumps_alike P j k \<Longrightarrow> jumps_alike (\<lambda>a b. P b a) k j"
  by (cases "j_Kind j") (auto simp: jumps_alike_def list_all2_conv_all_nth)

lemma switch_target_alike:
  assumes "jumps_alike P j j'" "j_Kind j = JmpSwitch"
  shows "P (switch_target j c v) (switch_target j' c v)"
proof -
  have a: "P (j_To j) (j_To j')" "j_Signed j' = j_Signed j"
    "list_all2 (\<lambda>c c'. sc_Val c' = sc_Val c \<and> P (sc_Blk c) (sc_Blk c')) (j_Cases j) (j_Cases j')"
    using assms by (simp_all add: jumps_alike_def)
  have "P (case find (\<lambda>c'. switchMatch c s v (sc_Val c')) cs of Some c' \<Rightarrow> sc_Blk c' | None \<Rightarrow> d)
      (case find (\<lambda>c'. switchMatch c s v (sc_Val c')) cs' of Some c' \<Rightarrow> sc_Blk c' | None \<Rightarrow> d')"
    if "list_all2 (\<lambda>c c'. sc_Val c' = sc_Val c \<and> P (sc_Blk c) (sc_Blk c')) cs cs'" "P d d'" for cs cs' d d' s
    using that by (induction rule: list_all2_induct) auto
  from this[OF a(3,1)] show ?thesis by (simp add: switch_target_def a(2))
qed

text \<open>Read the other way.\<close>

lemma machine_rel_converse: "machine_rel rel fuel_ok mc mc' \<Longrightarrow> machine_rel rel\<inverse>\<inverse> fuel_ok mc' mc"
proof -
  assume m: "machine_rel rel fuel_ok mc mc'"
  then obtain F A B where r: "mc' = recode F A B mc" by (auto simp: machine_rel_def)
  have "mc = recode (mc_funcs mc) (mc_funcAt mc) (mc_blockAt mc) mc'" by (simp add: r recode_def)
  moreover have "codes_rel rel\<inverse>\<inverse> mc' mc"
  proof -
    have "rel_option rel x y \<Longrightarrow> rel_option rel\<inverse>\<inverse> y x" for x y :: "func option" by (cases x; cases y) auto
    moreover have "rel_option (blockref_rel rel) x y \<Longrightarrow> rel_option (blockref_rel rel\<inverse>\<inverse>) y x" for x y :: "(func \<times> bptr) option"
      by (cases x; cases y) (auto simp: blockref_rel_def)
    ultimately show ?thesis using m by (simp add: machine_rel_def codes_rel_def)
  qed
  ultimately show ?thesis using m by (auto simp: machine_rel_def r)
qed

definition same_result :: "(func \<Rightarrow> func \<Rightarrow> bool) \<Rightarrow> trap + val \<times> machine \<Rightarrow> trap + val \<times> machine \<Rightarrow> bool" where
  "same_result rel = rel_sum (=) (rel_prod (=) (machine_rel rel (\<lambda>_. True)))"

lemma same_result_converse: "same_result rel\<inverse>\<inverse> x y \<Longrightarrow> same_result rel y x"
  unfolding same_result_def using machine_rel_converse[of "rel\<inverse>\<inverse>" "\<lambda>_. True"] by (cases x; cases y) auto

text \<open>An external function is given its arguments and the machine, not the code it holds.\<close>

locale blind_externs = externs +
  assumes extern_recode: "ext name = Some e \<Longrightarrow> e args (recode F A B mc) = map_sum id (map_prod id (recode F A B)) (e args mc)"

locale recoding = blind_externs ext for ext +
  fixes rel :: "func \<Rightarrow> func \<Rightarrow> bool" and fuel_ok :: "int \<Rightarrow> bool"
  assumes rel_frame: "rel f g \<Longrightarrow> same_frame f g"
    and fuel_down: "fuel_ok n \<Longrightarrow> 0 < k \<Longrightarrow> k \<le> n \<Longrightarrow> fuel_ok k"
begin

abbreviation "mrel \<equiv> machine_rel rel fuel_ok"
abbreviation "srel \<equiv> state_rel rel fuel_ok"

lemma mrel_charged:
  assumes "mrel mc (recode F A B mc)" "charged mc mc1"
  shows "mrel mc1 (recode F A B mc1)"
proof -
  have "fuel_ok (mc_fuel mc1)" using assms fuel_down by (auto simp: machine_rel_def charged_def split: if_splits)
  moreover have "codes_rel rel mc1 (recode F A B mc1)"
    using assms image_of_fields[of mc1 mc] by (simp add: machine_rel_def codes_rel_def charged_def)
  ultimately show ?thesis by (auto simp: machine_rel_def)
qed

lemma srelE:
  assumes "srel (fr, mc) st'"
  obtains g F A B where "st' = restate g (recode F A B) (fr, mc)" "rel (fr_fn fr) g" "mrel mc (recode F A B mc)"
proof -
  have m: "mrel mc (snd st')" and "\<exists>g. rel (fr_fn fr) g \<and> fst st' = fr\<lparr>fr_fn := g\<rparr>" using assms by (simp_all add: state_rel_def)
  then obtain g where g: "rel (fr_fn fr) g" "fst st' = fr\<lparr>fr_fn := g\<rparr>" by blast
  obtain F A B where r: "snd st' = recode F A B mc" using m unfolding machine_rel_def by blast
  have "st' = restate g (recode F A B) (fr, mc)" using g(2) r by (simp add: restate_def prod_eq_iff)
  then show thesis using that g(1) m r by simp
qed

lemma srelI: "rel (fr_fn fr) g \<Longrightarrow> mrel mc (recode F A B mc) \<Longrightarrow> srel (fr, mc) (restate g (recode F A B) (fr, mc))"
  by (auto simp: state_rel_def restate_def)

lemma srel_fuel: "srel st st' \<Longrightarrow> mc_fuel (snd st') = mc_fuel (snd st) \<and> fuel_ok (mc_fuel (snd st))"
  by (auto simp: state_rel_def machine_rel_def)

text \<open>A step that is blind to code keeps states related.\<close>

lemma srel_step:
  assumes "rel (fr_fn fr) g" "mrel mc (recode F A B mc)" "p = map_sum id (restate g (recode F A B)) x"
    "\<And>fr1 mc1. x = Inr (fr1, mc1) \<Longrightarrow> fr_fn fr1 = fr_fn fr \<and> charged mc mc1"
  shows "rel_sum (=) srel x p"
proof (cases x)
  case (Inr y)
  obtain fr1 mc1 where y: "y = (fr1, mc1)" by fastforce
  have "srel (fr1, mc1) (restate g (recode F A B) (fr1, mc1))"
    by (rule srelI) (use assms(1) assms(4)[of fr1 mc1] Inr y mrel_charged[OF assms(2), of mc1] in auto)
  then show ?thesis using assms(3) Inr y by simp
qed (simp add: assms(3))

lemma execInstr_srel:
  assumes "srel st st'" "f_Name own' = f_Name own" "in_Op i \<noteq> OCall"
  shows "rel_sum (=) srel (execInstr fo call own i st) (execInstr fo call' own' i st')"
proof -
  obtain fr mc where st: "st = (fr, mc)" by fastforce
  obtain g F A B where s: "st' = restate g (recode F A B) (fr, mc)" "rel (fr_fn fr) g" "mrel mc (recode F A B mc)"
    using srelE assms(1) st by blast
  show ?thesis unfolding st s(1)
  proof (rule srel_step[OF s(2,3)])
    show "execInstr fo call' own' i (restate g (recode F A B) (fr, mc)) = map_sum id (restate g (recode F A B)) (execInstr fo call own i (fr, mc))"
      by (rule execInstr_recode[OF rel_frame[OF s(2)] assms(2,3)])
    show "fr_fn fr1 = fr_fn fr \<and> charged mc mc1" if "execInstr fo call own i (fr, mc) = Inr (fr1, mc1)" for fr1 mc1
    proof
      have e: "execInstr fo (\<lambda>_ _. Inl GoPanic) own i (fr, mc) = Inr (fr1, mc1)" using that assms(3) by (simp add: execInstr_def)
      show "charged mc mc1" by (rule execInstr_charged[OF e]) simp
    qed (rule execInstr_fn[OF that assms(3)])
  qed
qed

text \<open>Calls, given that the functions called settle.\<close>

abbreviation "vrel \<equiv> rel_prod (=) mrel"

lemma mrel_step:
  assumes "mrel mc (recode F A B mc)" "p = map_sum id (map_prod id (recode F A B)) x" "\<And>v mc1. x = Inr (v, mc1) \<Longrightarrow> charged mc mc1"
  shows "rel_sum (=) vrel x p"
proof (cases x)
  case (Inr y)
  then show ?thesis using assms(2) assms(3)[of "fst y" "snd y"] mrel_charged[OF assms(1), of "snd y"] by (cases y) auto
qed (simp add: assms(2))

lemma bind_srel:
  assumes "rel (fr_fn fr) g" "mrel mc mc'"
  shows "rel_sum (=) srel (e_then (bind_result i v fr) (\<lambda>fr1. Inr (fr1, mc))) (e_then (bind_result i v (fr\<lparr>fr_fn := g\<rparr>)) (\<lambda>fr1. Inr (fr1, mc')))"
proof (cases "bind_result i v fr")
  case (Inr fr1)
  then show ?thesis using assms bind_result_fn[OF Inr] by (auto simp: bind_result_recode e_then_def state_rel_def)
qed (simp add: bind_result_recode e_then_def)

abbreviation "crel \<equiv> calls_rel rel fuel_ok"

lemma doIRCall_settles:
  assumes "crel call call'" "rel f f'" "srel st st'"
  shows "settles srel (doIRCall fo call i f st) (\<lambda>m. doIRCall fo (call' m) i f' st')"
proof -
  obtain fr mc where st: "st = (fr, mc)" by fastforce
  obtain g F A B where s: "st' = restate g (recode F A B) (fr, mc)" "rel (fr_fn fr) g" "mrel mc (recode F A B mc)"
    using srelE assms(3) st by blast
  have c: "f_Consts g = f_Consts (fr_fn fr)" using rel_frame[OF s(2)] by (simp add: same_frame_def)
  have args: "settles vrel (e_fold (eval_call_arg fo i fr) xs ([], mc)) (\<lambda>_. e_fold (eval_call_arg fo i (fr\<lparr>fr_fn := g\<rparr>)) xs ([], recode F A B mc))" for xs
    by (rule settles_const, rule mrel_step[OF s(3) call_args_recode[OF c]]) (rule call_args_charged)
  have ret: "settles vrel (case instr_RetAgg i of None \<Rightarrow> Inr (v, m2) | Some t \<Rightarrow> copy_agg t v m2)
      (\<lambda>_. case instr_RetAgg i of None \<Rightarrow> Inr (v, m2') | Some t \<Rightarrow> copy_agg t v m2')" if m: "mrel m2 m2'" for v m2 m2'
  proof -
    obtain F A B where r: "m2' = recode F A B m2" using m by (auto simp: machine_rel_def)
    show ?thesis using m unfolding r
      by (auto intro!: settles_const mrel_step copy_agg_recode split: option.split dest: copy_agg_charged)
  qed
  show ?thesis unfolding st s(1) doIRCall_def restate_def prod.case fst_conv snd_conv
  proof (rule settles_then[OF args], clarsimp simp: rel_prod_conv split: prod.splits)
    fix vs m1 m1'
    assume m1: "mrel m1 m1'"
    show "settles srel (e_then (call f vs m1) (\<lambda>(ret, mc2). e_then (case instr_RetAgg i of None \<Rightarrow> Inr (ret, mc2) | Some t \<Rightarrow> copy_agg t ret mc2)
          (\<lambda>(ret', mc3). e_then (bind_result i (asClass (in_Cls i) ret') fr) (\<lambda>fr'. Inr (fr', mc3)))))
        (\<lambda>m. e_then (call' m f' vs m1') (\<lambda>(ret, mc2). e_then (case instr_RetAgg i of None \<Rightarrow> Inr (ret, mc2) | Some t \<Rightarrow> copy_agg t ret mc2)
          (\<lambda>(ret', mc3). e_then (bind_result i (asClass (in_Cls i) ret') (fr\<lparr>fr_fn := g\<rparr>)) (\<lambda>fr'. Inr (fr', mc3)))))"
    proof (rule settles_then)
      show "settles vrel (call f vs m1) (\<lambda>m. call' m f' vs m1')" using assms(1,2) m1 by (simp add: calls_rel_def)
      fix a b :: "val \<times> machine"
      assume ab: "vrel a b"
      obtain v m2 m2' where e: "a = (v, m2)" "b = (v, m2')" "mrel m2 m2'" using ab by (cases a; cases b) auto
      show "settles srel ((\<lambda>(ret, mc2). e_then (case instr_RetAgg i of None \<Rightarrow> Inr (ret, mc2) | Some t \<Rightarrow> copy_agg t ret mc2)
          (\<lambda>(ret', mc3). e_then (bind_result i (asClass (in_Cls i) ret') fr) (\<lambda>fr'. Inr (fr', mc3)))) a)
        (\<lambda>m. (\<lambda>(ret, mc2). e_then (case instr_RetAgg i of None \<Rightarrow> Inr (ret, mc2) | Some t \<Rightarrow> copy_agg t ret mc2)
          (\<lambda>(ret', mc3). e_then (bind_result i (asClass (in_Cls i) ret') (fr\<lparr>fr_fn := g\<rparr>)) (\<lambda>fr'. Inr (fr', mc3)))) b)"
        unfolding e prod.case
        by (rule settles_then[OF ret[OF e(3)]]) (auto intro!: settles_const bind_srel s(2))
    qed
  qed
qed

lemma doExternCall_srel:
  assumes e: "ext name = Some e" and "srel st st'"
  shows "rel_sum (=) srel (doExternCall fo e i st) (doExternCall fo e i st')"
proof -
  obtain fr mc where st: "st = (fr, mc)" by fastforce
  obtain g F A B where s: "st' = restate g (recode F A B) (fr, mc)" "rel (fr_fn fr) g" "mrel mc (recode F A B mc)"
    using srelE assms(2) st by blast
  have c: "f_Consts g = f_Consts (fr_fn fr)" using rel_frame[OF s(2)] by (simp add: same_frame_def)
  show ?thesis unfolding st s(1)
  proof (rule srel_step[OF s(2,3)])
    show "doExternCall fo e i (restate g (recode F A B) (fr, mc)) = map_sum id (restate g (recode F A B)) (doExternCall fo e i (fr, mc))"
      by (auto simp: doExternCall_def restate_def evalRefs_recode[OF c] extern_recode[OF e] bind_result_recode e_then_def split: sum.split)
    show "fr_fn fr1 = fr_fn fr \<and> charged mc mc1" if "doExternCall fo e i (fr, mc) = Inr (fr1, mc1)" for fr1 mc1
      using that doExternCall_charged[OF e that] by (auto simp: doExternCall_def dest: bind_result_fn)
  qed
qed

lemma settles_rel: "rel_sum (=) Q x w \<Longrightarrow> settles Q x (\<lambda>_. w)"
  by (rule settles_const)

lemma dispatchCall_settles:
  assumes "crel call call'" "srel st st'"
  shows "settles srel (dispatchCall fo ext call i name st) (\<lambda>m. dispatchCall fo ext (call' m) i name st')"
proof -
  have f: "rel_option rel (mc_funcs (snd st) name) (mc_funcs (snd st') name)"
    using assms(2) by (auto simp: state_rel_def machine_rel_def codes_rel_def)
  show ?thesis
  proof (cases "mc_funcs (snd st) name")
    case None
    then have "mc_funcs (snd st') name = None" using f by (cases "mc_funcs (snd st') name") auto
    then show ?thesis using None doExternCall_srel[OF _ assms(2)]
      by (auto simp: dispatchCall_def intro: settles_const split: option.split)
  next
    case (Some h)
    then obtain h' where "mc_funcs (snd st') name = Some h'" "rel h h'" using f by (cases "mc_funcs (snd st') name") auto
    then show ?thesis using Some doIRCall_settles[OF assms(1) _ assms(2)] by (simp add: dispatchCall_def)
  qed
qed

lemma evalRef_srel:
  assumes "srel st st'"
  shows "evalRef fo (snd st') (fst st') r = evalRef fo (snd st) (fst st) r"
proof -
  obtain g F A B where s: "st' = restate g (recode F A B) st" "rel (fr_fn (fst st)) g"
    by (cases st) (metis assms srelE fst_conv)
  then show ?thesis using rel_frame[OF s(2)] by (simp add: restate_def evalRef_recode same_frame_def)
qed

lemma srel_tables:
  assumes "srel st st'"
  shows "mc_externAt (snd st') = mc_externAt (snd st)" "rel_option rel (mc_funcAt (snd st) a) (mc_funcAt (snd st') a)"
    "rel_option (blockref_rel rel) (mc_blockAt (snd st) a) (mc_blockAt (snd st') a)"
  using assms by (auto simp: state_rel_def machine_rel_def codes_rel_def)

lemma indirect_call_settles:
  assumes "crel call call'" "srel st st'"
  shows "settles srel (indirect_call fo ext call i r st) (\<lambda>m. indirect_call fo ext (call' m) i r st')"
  unfolding indirect_call_def evalRef_srel[OF assms(2)]
proof (rule settles_then[where Q = "(=)"])
  show "settles (=) (evalRef fo (snd st) (fst st) r) (\<lambda>_. evalRef fo (snd st) (fst st) r)"
    by (rule settles_const) (cases "evalRef fo (snd st) (fst st) r", auto)
  fix x y :: val
  assume "x = y"
  note T = srel_tables(1)[OF assms(2)] srel_tables(2)[OF assms(2), where a = "val_u64 y"]
  show "settles srel (case mc_funcAt (snd st) (val_u64 x) of Some f \<Rightarrow> doIRCall fo call i f st
       | None \<Rightarrow> (case mc_externAt (snd st) (val_u64 x) of
           Some name \<Rightarrow> (case ext name of Some e \<Rightarrow> doExternCall fo e i st | None \<Rightarrow> Inl GoPanic)
         | None \<Rightarrow> Inl (NotAFunction (val_u64 x))))
    (\<lambda>m. case mc_funcAt (snd st') (val_u64 y) of Some f \<Rightarrow> doIRCall fo (call' m) i f st'
       | None \<Rightarrow> (case mc_externAt (snd st') (val_u64 y) of
           Some name \<Rightarrow> (case ext name of Some e \<Rightarrow> doExternCall fo e i st' | None \<Rightarrow> Inl GoPanic)
         | None \<Rightarrow> Inl (NotAFunction (val_u64 y))))"
  proof (cases "mc_funcAt (snd st) (val_u64 y)")
    case None
    then have "mc_funcAt (snd st') (val_u64 y) = None" using T(2) by (cases "mc_funcAt (snd st') (val_u64 y)") auto
    then show ?thesis using None doExternCall_srel[OF _ assms(2)] \<open>x = y\<close> T(1) by (auto intro: settles_const split: option.split)
  next
    case (Some h)
    then obtain h' where "mc_funcAt (snd st') (val_u64 y) = Some h'" "rel h h'" using T(2) by (cases "mc_funcAt (snd st') (val_u64 y)") auto
    then show ?thesis using Some doIRCall_settles[OF assms(1) _ assms(2)] \<open>x = y\<close> by simp
  qed
qed

lemma srel_fn: "srel st st' \<Longrightarrow> same_frame (fr_fn (fst st)) (fr_fn (fst st'))"
  using rel_frame by (auto simp: state_rel_def)

lemma execCall_settles:
  assumes "crel call call'" "srel st st'"
  shows "settles srel (execCall fo ext call i st) (\<lambda>m. execCall fo ext (call' m) i st')"
proof (cases "in_Args i")
  case (Cons r rs)
  have c: "f_Consts (fr_fn (fst st')) = f_Consts (fr_fn (fst st))" using srel_fn[OF assms(2)] by (simp add: same_frame_def)
  show ?thesis unfolding execCall_def Cons list.case c Let_def
    using dispatchCall_settles[OF assms] indirect_call_settles[OF assms] by simp
qed (simp add: execCall_def)

lemma exec_step_settles:
  assumes "crel call call'" "f_Name own' = f_Name own" "srel st st'"
  shows "settles srel (exec_step fo ext call own i st) (\<lambda>m. exec_step fo ext (call' m) own' i st')"
proof -
  obtain fr mc where st: "st = (fr, mc)" by fastforce
  obtain g F A B where s: "st' = restate g (recode F A B) (fr, mc)" "rel (fr_fn fr) g" "mrel mc (recode F A B mc)"
    using srelE assms(3) st by blast
  obtain out mc1 where t: "tick mc = (out, mc1)" by fastforce
  have t': "tick (recode F A B mc) = (out, recode F A B mc1)" using t by (auto simp: tick_def Let_def split: if_splits)
  show ?thesis
  proof (cases out)
    case False
    have "mrel mc1 (recode F A B mc1)" using mrel_charged[OF s(3)] tick_charged[of mc mc1] t False by simp
    then have r: "srel (fr, mc1) (restate g (recode F A B) (fr, mc1))" by (rule srelI[OF s(2)])
    have "settles srel (execInstr fo (execCall fo ext call) own i (fr, mc1))
        (\<lambda>m. execInstr fo (execCall fo ext (call' m)) own' i (restate g (recode F A B) (fr, mc1)))"
    proof (cases "in_Op i = OCall")
      case True
      then show ?thesis using execCall_settles[OF assms(1) r] by (simp add: execInstr_def)
    next
      case False
      have "execInstr fo (execCall fo ext (call' m)) own' i x = execInstr fo (execCall fo ext call) own' i x" for m x
        using False by (simp add: execInstr_def)
      then show ?thesis using execInstr_srel[OF r assms(2) False] by (auto intro: settles_const)
    qed
    then show ?thesis unfolding st s(1) using t t' False by (simp add: exec_step_def restate_def)
  qed (use t t' in \<open>simp add: st s(1) exec_step_def restate_def\<close>)
qed

lemma exec_steps_settle:
  assumes "crel call call'" "f_Name own' = f_Name own" "srel st st'"
  shows "settles srel (e_fold (exec_step fo ext call own) is st) (\<lambda>m. e_fold (exec_step fo ext (call' m) own') is st')"
  by (rule settles_fold[where Q = srel]) (auto intro: exec_step_settles[OF assms(1,2)] assms(3))

text \<open>Entering a block and leaving it.\<close>

lemma resolvePhis_srel:
  assumes "phis_alike f from b g from' b'" "srel (fr, mc) (fr', mc')"
  shows "rel_sum (=) (\<lambda>x y. srel (x, mc) (y, mc')) (resolvePhis fo mc f b from fr) (resolvePhis fo mc' g b' from' fr')"
proof -
  obtain h F A B where s: "(fr', mc') = restate h (recode F A B) (fr, mc)" "rel (fr_fn fr) h" "mrel mc (recode F A B mc)"
    using srelE assms(2) by blast
  then have e: "fr' = fr\<lparr>fr_fn := h\<rparr>" "mc' = recode F A B mc" by (simp_all add: restate_def)
  have c: "f_Consts h = f_Consts (fr_fn fr)" using rel_frame[OF s(2)] by (simp add: same_frame_def)
  have "srel (fr1, mc) (fr1\<lparr>fr_fn := h\<rparr>, recode F A B mc)" if "resolvePhis fo mc f b from fr = Inr fr1" for fr1
    using srelI[of fr1 h mc F A B] s(2,3) resolvePhis_fn[OF that] by (simp add: restate_def)
  then show ?thesis unfolding e resolvePhis_recode[OF assms(1) c]
    by (cases "resolvePhis fo mc f b from fr") auto
qed

lemma callFunc_with_settles:
  assumes loop: "\<And>st st'. srel st st' \<Longrightarrow> fr_fn (fst st) = f \<Longrightarrow> settles vrel (loop f None (f_Start f) st) (\<lambda>m. loop' m g None (f_Start g) st')"
    and "rel f g" "mrel mc mc'"
  shows "settles vrel (callFunc_with loop f args mc) (\<lambda>m. callFunc_with (loop' m) g args mc')"
proof -
  have sf: "same_frame f g" by (rule rel_frame[OF assms(2)])
  obtain F A B where r: "mc' = recode F A B mc" using assms(3) by (auto simp: machine_rel_def)
  let ?fr = "\<lparr>fr_fn = f, fr_vals = replicate (length (f_Temps f)) val0,
    fr_varargs = (if f_Variadic f then drop (length (f_Params f)) args else []), fr_spBase = mc_sp mc\<rparr>"
  have fr': "\<lparr>fr_fn = g, fr_vals = replicate (length (f_Temps g)) val0,
    fr_varargs = (if f_Variadic f then drop (length (f_Params f)) args else []), fr_spBase = mc_sp mc'\<rparr> = ?fr\<lparr>fr_fn := g\<rparr>"
    using sf r by (simp add: same_frame_def)
  have c: "f_Variadic g = f_Variadic f" "f_Params g = f_Params f" "f_Name g = f_Name f" using sf by (simp_all add: same_frame_def)
  define k where "k fr = e_then (loop f None (f_Start f) (fr, mc\<lparr>mc_depth := mc_depth mc + 1\<rparr>)) (\<lambda>(ret, m1).
        Inr (ret, m1\<lparr>mc_depth := mc_depth m1 - 1, mc_sp := fr_spBase fr\<rparr>))" for fr
  define l where "l m fr = e_then (loop' m g None (f_Start g) (fr, mc'\<lparr>mc_depth := mc_depth mc + 1\<rparr>)) (\<lambda>(ret, m1).
        Inr (ret, m1\<lparr>mc_depth := mc_depth m1 - 1, mc_sp := fr_spBase fr\<rparr>))" for m fr
  have body: "settles vrel (k fr) (\<lambda>m. l m (fr\<lparr>fr_fn := g\<rparr>))" if fr: "fr_fn fr = f" for fr
    unfolding k_def l_def
  proof (rule settles_then)
    have "mrel (mc\<lparr>mc_depth := mc_depth mc + 1\<rparr>) (mc'\<lparr>mc_depth := mc_depth mc + 1\<rparr>)"
      using assms(3) by (auto simp: r machine_rel_def codes_rel_def)
    then show "settles vrel (loop f None (f_Start f) (fr, mc\<lparr>mc_depth := mc_depth mc + 1\<rparr>))
        (\<lambda>m. loop' m g None (f_Start g) (fr\<lparr>fr_fn := g\<rparr>, mc'\<lparr>mc_depth := mc_depth mc + 1\<rparr>))"
      by (intro loop) (use assms(2) fr in \<open>auto simp: state_rel_def\<close>)
    fix x y :: "val \<times> machine"
    assume "vrel x y"
    moreover have "mrel (m1\<lparr>mc_depth := mc_depth m1 - 1, mc_sp := a\<rparr>) (m2\<lparr>mc_depth := mc_depth m2 - 1, mc_sp := a\<rparr>)" if m: "mrel m1 m2" for m1 m2 a
    proof -
      obtain F A B where "m2 = recode F A B m1" using m by (auto simp: machine_rel_def)
      then show ?thesis using m by (auto simp: machine_rel_def codes_rel_def)
    qed
    ultimately show "settles vrel (case x of (ret, m1) \<Rightarrow> Inr (ret, m1\<lparr>mc_depth := mc_depth m1 - 1, mc_sp := fr_spBase fr\<rparr>))
        (\<lambda>m. case y of (ret, m1) \<Rightarrow> Inr (ret, m1\<lparr>mc_depth := mc_depth m1 - 1, mc_sp := fr_spBase (fr\<lparr>fr_fn := g\<rparr>)\<rparr>))"
      by (cases x; cases y) (simp add: settles_Inr)
  qed
  have call: "settles vrel (e_then (bind_params f args ?fr) k) (\<lambda>m. e_then (bind_params g args (?fr\<lparr>fr_fn := g\<rparr>)) (l m))"
  proof (cases "bind_params f args ?fr")
    case (Inr fr)
    have "fr_fn fr = f" using bind_params_fn[OF Inr] by simp
    from body[OF this] show ?thesis unfolding bind_params_recode[OF sf] Inr by (simp add: e_then_def)
  next
    case (Inl e)
    then show ?thesis unfolding bind_params_recode[OF sf] Inl by (simp add: e_then_def)
  qed
  have m: "mc_depth mc' = mc_depth mc" "mc_maxDepth mc' = mc_maxDepth mc" by (simp_all add: r)
  have def: "callFunc_with loop f args mc = (if length args < length (f_Params f) \<or> length (f_Params f) < length args \<and> \<not> f_Variadic f
        then Inl (WrongArity (f_Name f) (length args) (length (f_Params f)))
      else if mc_maxDepth mc \<le> mc_depth mc then Inl (TooDeep (mc_depth mc)) else e_then (bind_params f args ?fr) k)"
    "callFunc_with (loop' j) g args mc' = (if length args < length (f_Params f) \<or> length (f_Params f) < length args \<and> \<not> f_Variadic f
        then Inl (WrongArity (f_Name f) (length args) (length (f_Params f)))
      else if mc_maxDepth mc \<le> mc_depth mc then Inl (TooDeep (mc_depth mc)) else e_then (bind_params g args (?fr\<lparr>fr_fn := g\<rparr>)) (l j))" for j
    unfolding callFunc_with_def Let_def c fr' m k_def l_def by (rule refl)+
  show ?thesis unfolding def by (intro settles_if settles_trap call)
qed

lemma execTerminator_alike:
  assumes st: "srel (fr, mc) (fr', mc')" and "rel own own'" and j: "jumps_alike P j j'"
  shows "rel_sum (=) (transfer_rel rel P own own' j) (execTerminator fo mc own fr j) (execTerminator fo mc' own' fr' j')"
proof -
  have ev: "evalRef fo mc' fr' r = evalRef fo mc fr r" for r using evalRef_srel[OF st] by simp
  have sf: "same_frame (fr_fn fr) (fr_fn fr')" using srel_fn[OF st] by simp
  have bl: "rel_option (blockref_rel rel) (mc_blockAt mc a) (mc_blockAt mc' a)" for a using srel_tables(3)[OF st] by simp
  have eq: "j_Kind j' = j_Kind j" "j_Arg j' = j_Arg j" using j by (simp_all add: jumps_alike_def)
  show ?thesis
  proof (cases "j_Kind j")
    case JmpSwitch
    have "transfer_rel rel P own own' j (Next own (switch_target j c v)) (Next own' (switch_target j' c v))" for c v
      using switch_target_alike[OF j JmpSwitch] by (auto simp: transfer_rel_def)
    then show ?thesis unfolding execTerminator_def eq JmpSwitch ev ClassOf_recode[OF sf] jmpKind.case
      by (cases "evalRef fo mc fr (j_Arg j)"; cases "ClassOf (fr_fn fr) (j_Arg j)") (simp_all add: e_then_def)
  next
    case JmpTable
    then have t: "list_all2 P (j_Targets j) (j_Targets j')" using j by (simp add: jumps_alike_def)
    have "transfer_rel rel P own own' j (Next own (j_Targets j ! i)) (Next own' (j_Targets j' ! i))" if "i < length (j_Targets j)" for i
      using list_all2_nthD[OF t that] by (auto simp: transfer_rel_def)
    then show ?thesis unfolding execTerminator_def eq JmpTable ev jmpKind.case Let_def list_all2_lengthD[OF t, symmetric]
      by (cases "evalRef fo mc fr (j_Arg j)") (simp_all add: e_then_def)
  next
    case JmpBr
    have "rel_sum (=) (transfer_rel rel P own own' j) (case mc_blockAt mc a of None \<Rightarrow> Inl (NotABlockAddress a) | Some (g, b) \<Rightarrow> Inr (Next g (Some b)))
       (case mc_blockAt mc' a of None \<Rightarrow> Inl (NotABlockAddress a) | Some (g, b) \<Rightarrow> Inr (Next g (Some b)))" for a
      using bl[of a] by (cases "mc_blockAt mc a"; cases "mc_blockAt mc' a") (auto simp: transfer_rel_def JmpBr blockref_rel_def)
    then show ?thesis by (auto simp: execTerminator_def eq JmpBr ev e_then_def split: sum.split)
  qed (use j sf in \<open>auto simp: execTerminator_def eq ev e_then_def transfer_rel_def jumps_alike_def same_frame_def split: sum.split\<close>)
qed

text \<open>Going on after a terminator.\<close>

lemma transfer_settles:
  assumes t: "transfer_rel rel P own own' (b_Jmp (blk own b)) t t'" and st: "srel st st'"
    and direct: "\<And>c c' st st'. P c c' \<Longrightarrow> srel st st' \<Longrightarrow>
      settles vrel (run n fo ext own (Some (f_Name own, b)) c st) (\<lambda>m. run m fo ext own' (Some (f_Name own', b')) c' st')"
    and indirect: "\<And>h h' c st st'. j_Kind (b_Jmp (blk own b)) = JmpBr \<Longrightarrow> rel h h' \<Longrightarrow> c < length (f_arena h) \<Longrightarrow> c < length (f_arena h') \<Longrightarrow> srel st st' \<Longrightarrow>
      settles vrel (run n fo ext h (Some (f_Name own, b)) (Some c) st) (\<lambda>m. run m fo ext h' (Some (f_Name own', b')) (Some c) st')"
  shows "settles vrel (case t of Next g c \<Rightarrow> run n fo ext g (Some (f_Name own, b)) c st | Return v \<Rightarrow> Inr (v, snd st))
     (\<lambda>m. case t' of Next g c \<Rightarrow> run m fo ext g (Some (f_Name own', b')) c st' | Return v \<Rightarrow> Inr (v, snd st'))"
proof -
  have m: "mrel (snd st) (snd st')" using st by (simp add: state_rel_def)
  consider c c' where "t = Next own c" "t' = Next own' c'" "P c c'"
    | h h' c where "j_Kind (b_Jmp (blk own b)) = JmpBr" "rel h h'" "c < length (f_arena h)" "c < length (f_arena h')" "t = Next h (Some c)" "t' = Next h' (Some c)"
    | v where "t = Return v" "t' = Return v"
    using t unfolding transfer_rel_def by blast
  then show ?thesis by cases (simp_all add: direct[OF _ st] indirect[OF _ _ _ _ st] settles_Inr m)
qed

text \<open>One iteration of the loop on two blocks with the same phis and instructions.\<close>

lemma exec_block_settles:
  assumes calls: "crel call call'" and own: "rel own own'" and phis: "phis_alike own from b own' from' b'"
    and ins: "b_Instrs (blk own' b') = b_Instrs (blk own b)" and jmp: "jumps_alike P (b_Jmp (blk own b)) (b_Jmp (blk own' b'))"
    and st: "srel st st'"
  shows "settles (rel_prod (transfer_rel rel P own own' (b_Jmp (blk own b))) srel) (exec_block fo ext call own from b st)
    (\<lambda>m. exec_block fo ext (call' m) own' from' b' st')"
proof -
  obtain fr mc fr' mc' where s: "st = (fr, mc)" "st' = (fr', mc')" by fastforce
  have n: "f_Name own' = f_Name own" using rel_frame[OF own] by (simp add: same_frame_def)
  show ?thesis unfolding s exec_block_def prod.case ins
  proof (rule settles_then[where Q = "\<lambda>x y. srel (x, mc) (y, mc')"])
    show "settles (\<lambda>x y. srel (x, mc) (y, mc')) (resolvePhis fo mc own b from fr) (\<lambda>m. resolvePhis fo mc' own' b' from' fr')"
      by (rule settles_const, rule resolvePhis_srel[OF phis]) (use st s in simp)
    fix x y
    assume xy: "srel (x, mc) (y, mc')"
    show "settles (rel_prod (transfer_rel rel P own own' (b_Jmp (blk own b))) srel)
       (e_then (e_fold (exec_step fo ext call own) (b_Instrs (blk own b)) (x, mc)) (\<lambda>(fr2, mc2).
          e_then (execTerminator fo mc2 own fr2 (b_Jmp (blk own b))) (\<lambda>t. Inr (t, fr2, mc2))))
       (\<lambda>m. e_then (e_fold (exec_step fo ext (call' m) own') (b_Instrs (blk own b)) (y, mc')) (\<lambda>(fr2, mc2).
          e_then (execTerminator fo mc2 own' fr2 (b_Jmp (blk own' b'))) (\<lambda>t. Inr (t, fr2, mc2))))"
    proof (rule settles_then[OF exec_steps_settle[OF calls n xy]])
      fix u v
      assume uv: "srel u v"
      obtain fr2 mc2 fr2' mc2' where e: "u = (fr2, mc2)" "v = (fr2', mc2')" by fastforce
      show "settles (rel_prod (transfer_rel rel P own own' (b_Jmp (blk own b))) srel)
         ((\<lambda>(fr2, mc2). e_then (execTerminator fo mc2 own fr2 (b_Jmp (blk own b))) (\<lambda>t. Inr (t, fr2, mc2))) u)
         (\<lambda>m. (\<lambda>(fr2, mc2). e_then (execTerminator fo mc2 own' fr2 (b_Jmp (blk own' b'))) (\<lambda>t. Inr (t, fr2, mc2))) v)"
        unfolding e prod.case
        by (rule settles_then[where Q = "transfer_rel rel P own own' (b_Jmp (blk own b))"], rule settles_const,
            rule execTerminator_alike[OF uv[unfolded e] own jmp]) (use uv e in \<open>auto intro: settles_Inr\<close>)
    qed
  qed
qed

lemma run_block_settles:
  assumes calls: "crel (callFunc_with (run n fo ext)) (\<lambda>m. callFunc_with (run m fo ext))"
    and own: "rel own own'" and phis: "phis_alike own from b own' from' b'"
    and ins: "b_Instrs (blk own' b') = b_Instrs (blk own b)" and jmp: "jumps_alike P (b_Jmp (blk own b)) (b_Jmp (blk own' b'))"
    and st: "srel st st'"
    and direct: "\<And>c c' st st'. P c c' \<Longrightarrow> srel st st' \<Longrightarrow>
      settles vrel (run n fo ext own (Some (f_Name own, b)) c st) (\<lambda>m. run m fo ext own' (Some (f_Name own', b')) c' st')"
    and indirect: "\<And>h h' c st st'. j_Kind (b_Jmp (blk own b)) = JmpBr \<Longrightarrow> rel h h' \<Longrightarrow> c < length (f_arena h) \<Longrightarrow> c < length (f_arena h') \<Longrightarrow> srel st st' \<Longrightarrow>
      settles vrel (run n fo ext h (Some (f_Name own, b)) (Some c) st) (\<lambda>m. run m fo ext h' (Some (f_Name own', b')) (Some c) st')"
  shows "settles vrel (run (Suc n) fo ext own from (Some b) st) (\<lambda>m. run m fo ext own' from' (Some b') st')"
proof (rule settles_Suc, simp only: run.simps option.case, rule settles_then[OF exec_block_settles[OF calls own phis ins jmp st]])
  fix x y
  assume xy: "rel_prod (transfer_rel rel P own own' (b_Jmp (blk own b))) srel x y"
  obtain t st1 where ex: "x = (t, st1)" by (cases x)
  obtain t' st1' where ey: "y = (t', st1')" by (cases y)
  note e = ex ey
  have t: "transfer_rel rel P own own' (b_Jmp (blk own b)) t t'" "srel st1 st1'" using xy e by auto
  show "settles vrel (case x of (t, st') \<Rightarrow> (case t of Next g c \<Rightarrow> run n fo ext g (Some (f_Name own, b)) c st' | Return v \<Rightarrow> Inr (v, snd st')))
     (\<lambda>m. case y of (t, st') \<Rightarrow> (case t of Next g c \<Rightarrow> run m fo ext g (Some (f_Name own', b')) c st' | Return v \<Rightarrow> Inr (v, snd st')))"
    unfolding e prod.case by (rule transfer_settles[OF t direct indirect])
qed

end

section \<open>Simulation\<close>

text \<open>
  \<open>at f g from c from' c'\<close>: where \<open>f\<close> enters \<open>c\<close> coming from \<open>from\<close>, \<open>g\<close> may enter \<open>c'\<close> coming from \<open>from'\<close>.
  A pass shows that one iteration of the loop keeps this up, and has shown that calls agree.
\<close>

locale simulation = recoding ext rel fuel_ok for ext rel fuel_ok +
  fixes fo :: float_ops and at :: "func \<Rightarrow> func \<Rightarrow> block_ref option \<Rightarrow> bptr option \<Rightarrow> block_ref option \<Rightarrow> bptr option \<Rightarrow> bool"
  assumes at_entry: "rel f g \<Longrightarrow> at f g None (f_Start f) None (f_Start g)"
    and at_step: "\<lbrakk>rel f g; at f g from c from' c'; srel st st'; crel (callFunc_with (run n fo ext)) (\<lambda>m. callFunc_with (run m fo ext));
      \<And>h h' from c from' c' st st'. rel h h' \<Longrightarrow> at h h' from c from' c' \<Longrightarrow> srel st st' \<Longrightarrow>
        settles vrel (run n fo ext h from c st) (\<lambda>m. run m fo ext h' from' c' st')\<rbrakk> \<Longrightarrow>
      settles vrel (run (Suc n) fo ext f from c st) (\<lambda>m. run m fo ext g from' c' st')"
begin

lemma run_settles:
  "rel f g \<Longrightarrow> at f g from c from' c' \<Longrightarrow> srel st st' \<Longrightarrow> settles vrel (run n fo ext f from c st) (\<lambda>m. run m fo ext g from' c' st')"
proof (induction n arbitrary: f g "from" c from' c' st st')
  case (Suc n)
  have "crel (callFunc_with (run n fo ext)) (\<lambda>m. callFunc_with (run m fo ext))"
    unfolding calls_rel_def
  proof (intro allI impI, elim conjE)
    fix f g args mc mc'
    assume r: "rel f g" "mrel mc mc'"
    show "settles vrel (callFunc_with (run n fo ext) f args mc) (\<lambda>m. callFunc_with (run m fo ext) g args mc')"
      by (rule callFunc_with_settles[OF _ r]) (rule Suc.IH[OF r(1) at_entry[OF r(1)]])
  qed
  then show ?case by (rule at_step[OF Suc.prems]) (rule Suc.IH)
qed simp

lemma callFunc_settles:
  assumes "rel f g" "mrel mc mc'"
  shows "settles vrel (callFunc n fo ext f args mc) (\<lambda>m. callFunc m fo ext g args mc')"
  unfolding callFunc_def by (rule callFunc_with_settles[OF _ assms]) (rule run_settles[OF assms(1) at_entry[OF assms(1)]])

lemma Call_settles:
  assumes "mrel mc mc'"
  shows "settles vrel (Call n fo ext name args mc) (\<lambda>m. Call m fo ext name args mc')"
proof -
  have "rel_option rel (mc_funcs mc name) (mc_funcs mc' name)" using assms by (auto simp: machine_rel_def codes_rel_def)
  then show ?thesis using callFunc_settles[OF _ assms]
    by (cases "mc_funcs mc name"; cases "mc_funcs mc' name") (auto simp: Call_def)
qed

end

section \<open>The default externs\<close>

lemma heapAlloc_recode: "heapAlloc sz (recode F A B mc) = map_option (map_prod id (recode F A B)) (heapAlloc sz mc)"
  by (simp add: heapAlloc_def Let_def option.map_comp comp_def)

interpretation dxb: blind_externs "defaultExterns fo ff" for fo ff
proof
  fix name e args F A B mc
  assume e: "defaultExterns fo ff name = Some e"
  have cases: "e \<in> {extMalloc, extCalloc, extFree, extMemcpy, extMemset, extExit, extPutchar, extPuts, extPrintf fo ff, extVprintf fo ff}"
    using map_of_SomeD[OF e[unfolded defaultExterns_def]] by auto
  show "e args (recode F A B mc) = map_sum id (map_prod id (recode F A B)) (e args mc)"
    using cases by (auto simp: extMalloc_def extCalloc_def extFree_def extMemcpy_def extMemset_def extExit_def extPutchar_def extPuts_def
        extPrintf_def extVprintf_def Let_def heapAlloc_recode copyMem_recode e_then_def split: option.split prod.split bool.split sum.split)
qed

end
