(* ===== verification/Thread_Jumps.thy ===== *)
theory Thread_Jumps
  imports Recode
begin

text \<open>
  Jump threading (\<open>lower/thread.go\<close>): branches to empty forwarding blocks land on their targets, and
  blocks nothing reaches are dropped.  The theory shows which blocks are left and that no program can
  tell the difference.
\<close>

section \<open>The pass\<close>

definition externalEntry :: "func \<Rightarrow> bptr \<Rightarrow> bool" where
  "externalEntry f p \<longleftrightarrow> list_ex (\<lambda>b. b_SecondaryEntry (blk f b) \<and> b = p \<or>
     list_ex (\<lambda>i. in_Op i = OBlockAddr \<and> instr_Blk i = Some p) (b_Instrs (blk f b))) (f_Blocks f)"

text \<open>The condition of the loop of \<open>forward\<close>, for a block that is not nil.\<close>

definition bypassable :: "(bptr \<Rightarrow> bool) \<Rightarrow> func \<Rightarrow> bptr \<Rightarrow> bool" where
  "bypassable ext f p \<longleftrightarrow> \<not> ext p \<and> b_Instrs (blk f p) = [] \<and> b_Phis (blk f p) = [] \<and> j_Kind (b_Jmp (blk f p)) = JmpJmp"

lemma bypassable_less: "bypassable ext f p \<Longrightarrow> p < length (f_arena f)"
  by (rule ccontr) (simp add: bypassable_def blk_def block0_def jmp0_def)

function forward_seen :: "(bptr \<Rightarrow> bool) \<Rightarrow> func \<Rightarrow> bptr set \<Rightarrow> bptr option \<Rightarrow> bptr option" where
  "forward_seen ext f seen t = (case t of
     None \<Rightarrow> None
   | Some p \<Rightarrow> if bypassable ext f p \<and> p \<notin> seen then forward_seen ext f (insert p seen) (j_To (b_Jmp (blk f p))) else t)"
  by pat_completeness auto

termination
proof (relation "measure (\<lambda>(ext, f, seen, t). card ({..<length (f_arena f)} - seen))", simp)
  fix ext f seen t p
  assume "bypassable ext f p \<and> p \<notin> seen"
  then have "p \<in> {..<length (f_arena f)} - seen" using bypassable_less by blast
  then have "{..<length (f_arena f)} - insert p seen \<subset> {..<length (f_arena f)} - seen" by blast
  then show "((ext, f, insert p seen, j_To (b_Jmp (blk f p))), ext, f, seen, t) \<in> measure (\<lambda>(ext, f, seen, t). card ({..<length (f_arena f)} - seen))"
    by (simp add: psubset_card_mono)
qed

declare forward_seen.simps [simp del]

definition forward :: "(bptr \<Rightarrow> bool) \<Rightarrow> func \<Rightarrow> bptr option \<Rightarrow> bptr option" where
  "forward ext f t = forward_seen ext f {} t"

definition thread_jmp :: "(bptr option \<Rightarrow> bptr option) \<Rightarrow> jmp \<Rightarrow> jmp" where
  "thread_jmp fw j = (case j_Kind j of
     JmpJmp \<Rightarrow> j\<lparr>j_To := fw (j_To j)\<rparr>
   | JmpJnz \<Rightarrow> j\<lparr>j_To := fw (j_To j), j_To2 := fw (j_To2 j)\<rparr>
   | JmpSwitch \<Rightarrow> j\<lparr>j_To := fw (j_To j), j_Cases := map (\<lambda>c. c\<lparr>sc_Blk := fw (sc_Blk c)\<rparr>) (j_Cases j)\<rparr>
   | JmpTable \<Rightarrow> j\<lparr>j_Targets := map fw (j_Targets j)\<rparr>
   | _ \<Rightarrow> j)"

definition thread_block :: "(bptr \<Rightarrow> bool) \<Rightarrow> bptr \<Rightarrow> func \<Rightarrow> func" where
  "thread_block ext b f = upd_blk b (\<lambda>x. x\<lparr>b_Jmp := thread_jmp (forward ext f) (b_Jmp x)\<rparr>) f"

text \<open>The recursion of \<open>walk\<close>, the pending calls on a stack.\<close>

function thread_walk :: "func \<Rightarrow> bptr option list \<Rightarrow> bptr set \<Rightarrow> bptr set" where
  "thread_walk f [] r = r"
| "thread_walk f (None # st) r = thread_walk f st r"
| "thread_walk f (Some b # st) r = (if b \<in> r then thread_walk f st r else thread_walk f (block_Succs (blk f b) @ st) (insert b r))"
  by pat_completeness auto

termination
proof (relation "(\<lambda>(f, st, r). card ({..<length (f_arena f)} - r)) <*mlex*> measure (\<lambda>(f, st, r). length st)")
  fix f :: func and b :: bptr and st :: "bptr option list" and r
  assume b: "b \<notin> r"
  show "((f, block_Succs (blk f b) @ st, insert b r), f, Some b # st, r)
    \<in> (\<lambda>(f, st, r). card ({..<length (f_arena f)} - r)) <*mlex*> measure (\<lambda>(f, st, r). length st)"
  proof (cases "b < length (f_arena f)")
    case True
    then have "{..<length (f_arena f)} - insert b r \<subset> {..<length (f_arena f)} - r" using b by blast
    then show ?thesis by (simp add: mlex_less psubset_card_mono)
  next
    case False
    then have "block_Succs (blk f b) = []" "{..<length (f_arena f)} - insert b r = {..<length (f_arena f)} - r"
      by (auto simp: blk_def block0_def jmp0_def block_Succs_def)
    then show ?thesis by (simp add: mlex_prod_def)
  qed
qed (auto simp: mlex_prod_def intro: wf_mlex)

definition ThreadJumps :: "func \<Rightarrow> func" where
  "ThreadJumps f =
     (let ext = externalEntry f;
          f1 = fold (thread_block ext) (f_Blocks f) f;
          reachable = fold (\<lambda>b r. if ext b then thread_walk f1 [Some b] r else r) (f_Blocks f1) (thread_walk f1 [f_Start f1] {})
      in f1\<lparr>f_Blocks := filter (\<lambda>b. b \<in> reachable) (f_Blocks f1)\<rparr>)"

section \<open>Forwarding\<close>

text \<open>One forwarding block, to what it jumps to.\<close>

definition skips :: "(bptr \<Rightarrow> bool) \<Rightarrow> func \<Rightarrow> (bptr option \<times> bptr option) set" where
  "skips ext f = {(Some p, j_To (b_Jmp (blk f p))) | p. bypassable ext f p}"

text \<open>Where forwarding stops: at a block that does something, or in an endless loop of blocks that do not.\<close>

definition lands :: "(bptr \<Rightarrow> bool) \<Rightarrow> func \<Rightarrow> bptr option \<Rightarrow> bool" where
  "lands ext f t \<longleftrightarrow> (\<forall>p. t = Some p \<and> bypassable ext f p \<longrightarrow> (t, t) \<in> (skips ext f)\<^sup>+)"

lemma forward_seen_spec:
  assumes "\<forall>q \<in> seen. (Some q, t) \<in> (skips ext f)\<^sup>+"
  shows "(t, forward_seen ext f seen t) \<in> (skips ext f)\<^sup>* \<and> lands ext f (forward_seen ext f seen t)"
  using assms
proof (induction ext f seen t rule: forward_seen.induct)
  case (1 ext f seen t)
  show ?case
  proof (cases t)
    case None
    then show ?thesis by (subst (1 2) forward_seen.simps) (simp add: lands_def)
  next
    case (Some p)
    show ?thesis
    proof (cases "bypassable ext f p \<and> p \<notin> seen")
      case True
      let ?n = "j_To (b_Jmp (blk f p))"
      have s: "(Some p, ?n) \<in> skips ext f" using True by (auto simp: skips_def)
      have "\<forall>q \<in> insert p seen. (Some q, ?n) \<in> (skips ext f)\<^sup>+" using 1(2) s Some by (auto intro: trancl_into_trancl)
      from 1(1)[OF Some True this] s True Some show ?thesis
        by (subst (1 2) forward_seen.simps) (auto intro: converse_rtrancl_into_rtrancl)
    next
      case False
      then have "forward_seen ext f seen t = t" using Some by (subst forward_seen.simps) auto
      then show ?thesis using False 1(2) Some by (auto simp: lands_def)
    qed
  qed
qed

lemma forward_spec: "(t, forward ext f t) \<in> (skips ext f)\<^sup>*" "lands ext f (forward ext f t)"
  using forward_seen_spec[of "{}" t ext f] by (simp_all add: forward_def)

section \<open>What changes\<close>

text \<open>Functions that differ in the jumps of their blocks, which go to where forwarding leads.\<close>

definition rerouted :: "(bptr \<Rightarrow> bool) \<Rightarrow> func \<Rightarrow> func \<Rightarrow> bool" where
  "rerouted ext f g \<longleftrightarrow> same_frame f g \<and> f_Start g = f_Start f \<and> length (f_arena g) = length (f_arena f) \<and>
     (\<forall>b. \<exists>j. blk g b = (blk f b)\<lparr>b_Jmp := j\<rparr> \<and> jumps_alike (\<lambda>c c'. (c, c') \<in> (skips ext f)\<^sup>*) (b_Jmp (blk f b)) j)"

lemma jumps_alike_refl: "(\<And>c. P c c) \<Longrightarrow> jumps_alike P j j"
  by (auto simp: jumps_alike_def list.rel_refl split: jmpKind.split)

lemma rerouted_refl: "rerouted ext f f"
proof -
  have "\<exists>j. blk f b = (blk f b)\<lparr>b_Jmp := j\<rparr> \<and> jumps_alike (\<lambda>c c'. (c, c') \<in> (skips ext f)\<^sup>*) (b_Jmp (blk f b)) j" for b
    by (intro exI[of _ "b_Jmp (blk f b)"] conjI jumps_alike_refl) simp_all
  then show ?thesis by (simp add: rerouted_def)
qed

lemma reroutedD:
  assumes "rerouted ext f g"
  shows "bypassable ext g = bypassable ext f" "skips ext g \<subseteq> (skips ext f)\<^sup>+" "lands ext g t \<Longrightarrow> lands ext f t"
proof -
  have b: "\<exists>j. blk g b = (blk f b)\<lparr>b_Jmp := j\<rparr> \<and> jumps_alike (\<lambda>c c'. (c, c') \<in> (skips ext f)\<^sup>*) (b_Jmp (blk f b)) j" for b
    using assms by (simp add: rerouted_def)
  have k: "b_Instrs (blk g b) = b_Instrs (blk f b) \<and> b_Phis (blk g b) = b_Phis (blk f b) \<and> j_Kind (b_Jmp (blk g b)) = j_Kind (b_Jmp (blk f b))" for b
    using b[of b] by (auto simp: jumps_alike_def)
  show e: "bypassable ext g = bypassable ext f" by (auto simp: bypassable_def k fun_eq_iff)
  show s: "skips ext g \<subseteq> (skips ext f)\<^sup>+"
  proof
    fix x assume "x \<in> skips ext g"
    then obtain p where x: "x = (Some p, j_To (b_Jmp (blk g p)))" and p: "bypassable ext f p" by (auto simp: skips_def e)
    have "(j_To (b_Jmp (blk f p)), j_To (b_Jmp (blk g p))) \<in> (skips ext f)\<^sup>*"
      using b[of p] p by (auto simp: jumps_alike_def bypassable_def)
    moreover have "(Some p, j_To (b_Jmp (blk f p))) \<in> skips ext f" using p by (auto simp: skips_def)
    ultimately show "x \<in> (skips ext f)\<^sup>+" unfolding x by (rule rtrancl_into_trancl2[rotated])
  qed
  then have "(skips ext g)\<^sup>+ \<subseteq> (skips ext f)\<^sup>+" by (metis trancl_id trancl_mono_subset trans_trancl)
  then show "lands ext g t \<Longrightarrow> lands ext f t" by (auto simp: lands_def e)
qed

lemma thread_jmp_alike:
  assumes "\<And>c. P c (fw c)"
  shows "jumps_alike P j (thread_jmp fw j)"
  using assms by (auto simp: jumps_alike_def thread_jmp_def list_all2_conv_all_nth split: jmpKind.split)

lemma jumps_alike_trans:
  assumes "jumps_alike P j k" "jumps_alike P k l" "\<And>a b c. P a b \<Longrightarrow> P b c \<Longrightarrow> P a c"
  shows "jumps_alike P j l"
proof -
  have "list_all2 P xs zs" if "list_all2 P xs ys" "list_all2 P ys zs" for xs ys zs
    using that assms(3) by (rule list_all2_trans[rotated])
  moreover have "list_all2 (\<lambda>c c'. sc_Val c' = sc_Val c \<and> P (sc_Blk c) (sc_Blk c')) xs zs"
    if "list_all2 (\<lambda>c c'. sc_Val c' = sc_Val c \<and> P (sc_Blk c) (sc_Blk c')) xs ys" "list_all2 (\<lambda>c c'. sc_Val c' = sc_Val c \<and> P (sc_Blk c) (sc_Blk c')) ys zs" for xs ys zs
    using that by (rule list_all2_trans[rotated]) (auto intro: assms(3))
  ultimately show ?thesis using assms by (cases "j_Kind j") (auto simp: jumps_alike_def)
qed

lemma jumps_alike_mono: "jumps_alike P j k \<Longrightarrow> (\<And>a b. P a b \<Longrightarrow> Q a b) \<Longrightarrow> jumps_alike Q j k"
  by (cases "j_Kind j") (auto simp: jumps_alike_def elim!: list_all2_mono)

lemma thread_block_beyond: "\<not> b < length (f_arena f) \<Longrightarrow> thread_block ext b f = f"
  by (cases f) (simp add: thread_block_def upd_blk_def list_update_beyond)

lemma rerouted_step:
  assumes "rerouted ext f g"
  shows "rerouted ext f (thread_block ext b g)"
proof (cases "b < length (f_arena g)")
  case True
  have down: "(skips ext g)\<^sup>* \<subseteq> (skips ext f)\<^sup>*"
    using rtrancl_mono[OF reroutedD(2)[OF assms]] by simp
  obtain j where j: "blk g b = (blk f b)\<lparr>b_Jmp := j\<rparr>" "jumps_alike (\<lambda>c c'. (c, c') \<in> (skips ext f)\<^sup>*) (b_Jmp (blk f b)) j"
    using assms by (auto simp: rerouted_def)
  have "jumps_alike (\<lambda>c c'. (c, c') \<in> (skips ext f)\<^sup>*) j (thread_jmp (forward ext g) j)"
    by (rule thread_jmp_alike) (use forward_spec(1) down in blast)
  from jumps_alike_trans[OF j(2) this] have
    "jumps_alike (\<lambda>c c'. (c, c') \<in> (skips ext f)\<^sup>*) (b_Jmp (blk f b)) (thread_jmp (forward ext g) j)" by auto
  then have "\<exists>k. blk (thread_block ext b g) c = (blk f c)\<lparr>b_Jmp := k\<rparr> \<and> jumps_alike (\<lambda>c c'. (c, c') \<in> (skips ext f)\<^sup>*) (b_Jmp (blk f c)) k" for c
    using assms True j(1) by (cases "c = b") (auto simp: thread_block_def rerouted_def)
  moreover have "same_frame g (thread_block ext b g)" by (simp add: thread_block_def upd_blk_def same_frame_def)
  ultimately show ?thesis using assms by (auto simp: rerouted_def thread_block_def same_frame_def)
next
  case False
  then show ?thesis using assms by (simp add: thread_block_beyond)
qed

lemma rerouted_fold: "rerouted ext f (fold (thread_block ext) bs f)"
proof -
  have "rerouted ext f g \<Longrightarrow> rerouted ext f (fold (thread_block ext) bs g)" for g
    by (induction bs arbitrary: g) (auto intro: rerouted_step)
  then show ?thesis using rerouted_refl by blast
qed

text \<open>The jumps of a threaded block.\<close>

definition all_land :: "(bptr \<Rightarrow> bool) \<Rightarrow> func \<Rightarrow> block \<Rightarrow> bool" where
  "all_land ext f x \<longleftrightarrow> (\<forall>t \<in> set (block_Succs x). j_Kind (b_Jmp x) \<noteq> JmpBr \<longrightarrow> lands ext f t)"

lemma all_land_thread_jmp:
  assumes "\<And>c. lands ext f (fw c)"
  shows "all_land ext f (x\<lparr>b_Jmp := thread_jmp fw (b_Jmp x)\<rparr>)"
  using assms by (cases "j_Kind (b_Jmp x)") (auto simp: all_land_def block_Succs_def thread_jmp_def)

lemma all_land_fold:
  assumes "b \<in> set bs" "b < length (f_arena f)"
  shows "all_land ext f (blk (fold (thread_block ext) bs f) b)"
proof -
  have "all_land ext f (blk (thread_block ext c g) b)"
    if g: "rerouted ext f g" and c: "c = b \<or> all_land ext f (blk g b)" for c g
  proof (cases "c = b")
    case True
    have "all_land ext f (blk g b\<lparr>b_Jmp := thread_jmp (forward ext g) (b_Jmp (blk g b))\<rparr>)"
      by (rule all_land_thread_jmp) (rule reroutedD(3)[OF g forward_spec(2)])
    then show ?thesis using True g assms(2) by (simp add: thread_block_def rerouted_def)
  next
    case False
    have "blk (thread_block ext c g) b = blk g b"
    proof (cases "c < length (f_arena g)")
      case c: False
      then show ?thesis by (simp add: thread_block_beyond)
    qed (use False in \<open>simp add: thread_block_def\<close>)
    then show ?thesis using c False by simp
  qed
  then have "rerouted ext f g \<Longrightarrow> b \<in> set bs \<or> all_land ext f (blk g b) \<Longrightarrow> all_land ext f (blk (fold (thread_block ext) bs g) b)" for g
    by (induction bs arbitrary: g) (auto intro: rerouted_step)
  then show ?thesis using assms(1) rerouted_refl by blast
qed

lemma f_Blocks_fold: "f_Blocks (fold (thread_block ext) bs f) = f_Blocks f"
  by (induction bs arbitrary: f) (simp_all add: thread_block_def)

section \<open>Reachable blocks\<close>

definition succ_edges :: "func \<Rightarrow> (bptr \<times> bptr) set" where
  "succ_edges f = {(p, q). Some q \<in> set (block_Succs (blk f p))}"

text \<open>A set with all the successors of its members, but for those still on the stack.\<close>

lemma walk_spec:
  "succ_edges f `` r \<subseteq> r \<union> {q. Some q \<in> set st} \<Longrightarrow> thread_walk f st r = (succ_edges f)\<^sup>* `` (r \<union> {q. Some q \<in> set st})"
proof (induction f st r rule: thread_walk.induct)
  case (1 f r)
  then have "(succ_edges f)\<^sup>* `` r \<subseteq> r" by (simp add: Image_closed_trancl)
  then show ?case by auto
next
  case (2 f st r)
  then show ?case by simp
next
  case (3 f b st r)
  show ?case
  proof (cases "b \<in> r")
    case True
    then have "r \<union> {q. Some q \<in> set (Some b # st)} = r \<union> {q. Some q \<in> set st}" by auto
    then show ?thesis using True 3(1) 3(3) by simp
  next
    case False
    let ?s = "{q. Some q \<in> set (block_Succs (blk f b))}" and ?t = "r \<union> {q. Some q \<in> set (Some b # st)}"
    have e: "insert b r \<union> {q. Some q \<in> set (block_Succs (blk f b) @ st)} = ?t \<union> ?s" by auto
    have "succ_edges f `` insert b r \<subseteq> insert b r \<union> {q. Some q \<in> set (block_Succs (blk f b) @ st)}"
      using 3(3) by (auto simp: succ_edges_def)
    note IH = 3(2)[OF False this]
    have "?s \<subseteq> succ_edges f `` ?t" by (auto simp: succ_edges_def)
    then have "(succ_edges f)\<^sup>* `` (?t \<union> ?s) = (succ_edges f)\<^sup>* `` ?t"
      by (auto intro: converse_rtrancl_into_rtrancl)
    then show ?thesis using False IH unfolding e by simp
  qed
qed

lemma walk_roots:
  "fold (\<lambda>b r. if ext b then thread_walk f [Some b] r else r) bs ((succ_edges f)\<^sup>* `` A) = (succ_edges f)\<^sup>* `` (A \<union> {b \<in> set bs. ext b})"
proof (induction bs arbitrary: A)
  case (Cons b bs)
  have "succ_edges f `` ((succ_edges f)\<^sup>* `` A) \<subseteq> (succ_edges f)\<^sup>* `` A" by (auto intro: rtrancl_into_rtrancl)
  then have "thread_walk f [Some b] ((succ_edges f)\<^sup>* `` A) = (succ_edges f)\<^sup>* `` ((succ_edges f)\<^sup>* `` A \<union> {b})"
    by (subst walk_spec) auto
  also have "\<dots> = (succ_edges f)\<^sup>* `` insert b A" by (auto intro: rtrancl_trans)
  finally show ?case using Cons.IH[of A] Cons.IH[of "insert b A"] by (auto simp: insert_Collect Un_insert_left)
qed simp

definition thread_roots :: "func \<Rightarrow> bptr set" where
  "thread_roots f = {b. f_Start f = Some b \<or> b \<in> set (f_Blocks f) \<and> externalEntry f b}"

lemma ThreadJumps_spec:
  obtains f1 where "rerouted (externalEntry f) f f1" "\<And>b. blk (ThreadJumps f) b = blk f1 b" "f_arena (ThreadJumps f) = f_arena f1"
    "same_frame f (ThreadJumps f)" "f_Start (ThreadJumps f) = f_Start f"
    "f_Blocks (ThreadJumps f) = filter (\<lambda>b. b \<in> (succ_edges (ThreadJumps f))\<^sup>* `` thread_roots f) (f_Blocks f)"
    "\<And>b. b \<in> set (f_Blocks f) \<Longrightarrow> b < length (f_arena f) \<Longrightarrow> all_land (externalEntry f) f (blk f1 b)"
proof -
  let ?ext = "externalEntry f"
  define f1 where "f1 = fold (thread_block ?ext) (f_Blocks f) f"
  have r: "rerouted ?ext f f1" unfolding f1_def by (rule rerouted_fold)
  have bl: "f_Blocks f1 = f_Blocks f" unfolding f1_def by (rule f_Blocks_fold)
  have st: "f_Start f1 = f_Start f" "same_frame f f1" using r by (simp_all add: rerouted_def)
  have "thread_walk f1 [f_Start f1] {} = (succ_edges f1)\<^sup>* `` {b. f_Start f = Some b}"
    by (subst walk_spec) (auto simp: st)
  then have w: "fold (\<lambda>b r. if ?ext b then thread_walk f1 [Some b] r else r) (f_Blocks f1) (thread_walk f1 [f_Start f1] {}) = (succ_edges f1)\<^sup>* `` thread_roots f"
    using walk_roots[of ?ext f1 "f_Blocks f1" "{b. f_Start f = Some b}"] by (simp add: bl thread_roots_def Collect_disj_eq)
  have T: "ThreadJumps f = f1\<lparr>f_Blocks := filter (\<lambda>b. b \<in> (succ_edges f1)\<^sup>* `` thread_roots f) (f_Blocks f)\<rparr>"
    unfolding ThreadJumps_def Let_def f1_def[symmetric] w[unfolded bl] bl by (rule refl)
  have b: "blk (ThreadJumps f) b = blk f1 b" for b by (simp add: T blk_def)
  then have e: "succ_edges (ThreadJumps f) = succ_edges f1" by (simp add: succ_edges_def)
  show thesis
  proof (rule that[OF r b])
    show "f_arena (ThreadJumps f) = f_arena f1" "f_Start (ThreadJumps f) = f_Start f" "same_frame f (ThreadJumps f)"
      using st by (simp_all add: T same_frame_def)
    show "f_Blocks (ThreadJumps f) = filter (\<lambda>b. b \<in> (succ_edges (ThreadJumps f))\<^sup>* `` thread_roots f) (f_Blocks f)"
      unfolding e by (simp add: T)
    show "all_land ?ext f (blk f1 b)" if "b \<in> set (f_Blocks f)" "b < length (f_arena f)" for b
      unfolding f1_def by (rule all_land_fold[OF that])
  qed
qed

text \<open>
  C18: \<open>ThreadJumps\<close> changes nothing of a block but where its jumps go, and each goes to a block its old
  target leads to through empty jump-only blocks.  Its targets now do something, may be entered from
  elsewhere, or are part of an endless loop of empty blocks.  The blocks listed are, in the old order,
  those reachable from the entry, from a secondary entry or from a block whose address is taken.
\<close>

theorem ThreadJumps_blocks:
  assumes "\<forall>b \<in> set (f_Blocks f). b < length (f_arena f)"
  shows "(\<forall>b. \<exists>j. blk (ThreadJumps f) b = (blk f b)\<lparr>b_Jmp := j\<rparr> \<and>
       jumps_alike (\<lambda>c c'. (c, c') \<in> (skips (externalEntry f) f)\<^sup>*) (b_Jmp (blk f b)) j) \<and>
    (\<forall>b \<in> set (f_Blocks (ThreadJumps f)). \<forall>t \<in> set (block_Succs (blk (ThreadJumps f) b)).
       j_Kind (b_Jmp (blk f b)) \<noteq> JmpBr \<longrightarrow> lands (externalEntry f) f t) \<and>
    f_Blocks (ThreadJumps f) = filter (\<lambda>b. \<exists>e. (f_Start f = Some e \<or> e \<in> set (f_Blocks f) \<and> externalEntry f e) \<and>
       (e, b) \<in> (succ_edges (ThreadJumps f))\<^sup>*) (f_Blocks f)"
proof -
  obtain f1 where r: "rerouted (externalEntry f) f f1" and b: "\<And>b. blk (ThreadJumps f) b = blk f1 b"
    and bl: "f_Blocks (ThreadJumps f) = filter (\<lambda>b. b \<in> (succ_edges (ThreadJumps f))\<^sup>* `` thread_roots f) (f_Blocks f)"
    and land: "\<And>b. b \<in> set (f_Blocks f) \<Longrightarrow> b < length (f_arena f) \<Longrightarrow> all_land (externalEntry f) f (blk f1 b)"
    using ThreadJumps_spec by blast
  have alike: "\<exists>j. blk f1 b = (blk f b)\<lparr>b_Jmp := j\<rparr> \<and> jumps_alike (\<lambda>c c'. (c, c') \<in> (skips (externalEntry f) f)\<^sup>*) (b_Jmp (blk f b)) j" for b
    using r by (simp add: rerouted_def)
  have kind: "j_Kind (b_Jmp (blk f1 b)) = j_Kind (b_Jmp (blk f b))" for b using alike[of b] by (auto simp: jumps_alike_def)
  have "lands (externalEntry f) f t" if "b \<in> set (f_Blocks (ThreadJumps f))" "t \<in> set (block_Succs (blk f1 b))" "j_Kind (b_Jmp (blk f b)) \<noteq> JmpBr" for b t
    using land[of b] that kind assms by (auto simp: bl all_land_def)
  then have l: "\<forall>b \<in> set (f_Blocks (ThreadJumps f)). \<forall>t \<in> set (block_Succs (blk (ThreadJumps f) b)).
       j_Kind (b_Jmp (blk f b)) \<noteq> JmpBr \<longrightarrow> lands (externalEntry f) f t" unfolding b by blast
  have "(b \<in> (succ_edges (ThreadJumps f))\<^sup>* `` thread_roots f) \<longleftrightarrow> (\<exists>e. (f_Start f = Some e \<or> e \<in> set (f_Blocks f) \<and> externalEntry f e) \<and>
       (e, b) \<in> (succ_edges (ThreadJumps f))\<^sup>*)" for b
    by (auto simp: thread_roots_def)
  then show ?thesis using l bl alike unfolding b[symmetric] by simp
qed

section \<open>No program can tell\<close>

text \<open>Functions after SSA destruction, some of them threaded.\<close>

definition threaded :: "func \<Rightarrow> func \<Rightarrow> bool" where
  "threaded f g \<longleftrightarrow> g = f \<or> (\<forall>b < length (f_arena f). b_Phis (blk f b) = []) \<and> g = ThreadJumps f"

text \<open>A threaded function may enter the block that skipping empty ones leads to.\<close>

definition thread_at :: "func \<Rightarrow> func \<Rightarrow> block_ref option \<Rightarrow> bptr option \<Rightarrow> block_ref option \<Rightarrow> bptr option \<Rightarrow> bool" where
  "thread_at f g from c from' c' \<longleftrightarrow> from' = from \<and> c' = c \<or>
     (\<forall>b. b_Phis (blk f b) = []) \<and> g = ThreadJumps f \<and> (c, c') \<in> (skips (externalEntry f) f)\<^sup>*"

lemma threadedD:
  assumes "threaded f g"
  shows "same_frame f g" "f_Start g = f_Start f" "\<exists>j. blk g b = (blk f b)\<lparr>b_Jmp := j\<rparr> \<and> jumps_alike (\<lambda>c c'. thread_at f g (Some p) c (Some p) c') (b_Jmp (blk f b)) j"
proof -
  have "same_frame f g \<and> f_Start g = f_Start f \<and> (\<exists>j. blk g b = (blk f b)\<lparr>b_Jmp := j\<rparr> \<and> jumps_alike (\<lambda>c c'. thread_at f g (Some p) c (Some p) c') (b_Jmp (blk f b)) j)"
  proof (cases "g = f")
    case True
    then show ?thesis by (auto simp: thread_at_def intro!: exI[of _ "b_Jmp (blk f b)"] jumps_alike_refl)
  next
    case False
    then have g: "\<forall>b < length (f_arena f). b_Phis (blk f b) = []" "g = ThreadJumps f" using assms by (auto simp: threaded_def)
    then have np: "\<forall>b. b_Phis (blk f b) = []" by (auto simp: blk_def block0_def)
    obtain f1 where r: "rerouted (externalEntry f) f f1" and b: "\<And>b. blk (ThreadJumps f) b = blk f1 b"
      and s: "same_frame f (ThreadJumps f)" "f_Start (ThreadJumps f) = f_Start f" using ThreadJumps_spec by blast
    obtain j where j: "blk f1 b = (blk f b)\<lparr>b_Jmp := j\<rparr>" "jumps_alike (\<lambda>c c'. (c, c') \<in> (skips (externalEntry f) f)\<^sup>*) (b_Jmp (blk f b)) j"
      using r by (auto simp: rerouted_def)
    have "jumps_alike (\<lambda>c c'. thread_at f g (Some p) c (Some p) c') (b_Jmp (blk f b)) j"
      by (rule jumps_alike_mono[OF j(2)]) (simp add: thread_at_def np g(2))
    then show ?thesis using g(2) b s j(1) by auto
  qed
  then show "same_frame f g" "f_Start g = f_Start f" "\<exists>j. blk g b = (blk f b)\<lparr>b_Jmp := j\<rparr> \<and> jumps_alike (\<lambda>c c'. thread_at f g (Some p) c (Some p) c') (b_Jmp (blk f b)) j"
    by blast+
qed

lemma run_skip:
  assumes "bypassable ext f p"
  shows "run (Suc n) fo ex f from (Some p) st = run n fo ex f (Some (f_Name f, p)) (j_To (b_Jmp (blk f p))) st"
  using assms by (cases st) (simp add: bypassable_def exec_block_def resolvePhis_def Let_def e_then_def execTerminator_def)

lemma thread_phis_alike:
  assumes "threaded f g" "thread_at f g from (Some b) from' (Some b)"
  shows "phis_alike f from b g from' b"
proof -
  obtain j where "blk g b = (blk f b)\<lparr>b_Jmp := j\<rparr>" using threadedD(3)[OF assms(1)] by blast
  moreover have "f_Name g = f_Name f" using threadedD(1)[OF assms(1)] by (simp add: same_frame_def)
  ultimately show ?thesis using assms(2) by (auto simp: phis_alike_def thread_at_def list.rel_refl)
qed

lemma thread_real:
  assumes "threaded f g" "thread_at f g from c from' c'" "c \<noteq> c'"
  obtains p where "c = Some p" "bypassable (externalEntry f) f p" "thread_at f g (Some (f_Name f, p)) (j_To (b_Jmp (blk f p))) from' c'"
    "\<forall>b. b_Phis (blk f b) = []" "g = ThreadJumps f" "(c, c') \<in> (skips (externalEntry f) f)\<^sup>*"
proof -
  have a: "\<forall>b. b_Phis (blk f b) = []" "g = ThreadJumps f" "(c, c') \<in> (skips (externalEntry f) f)\<^sup>*"
    using assms(2,3) by (auto simp: thread_at_def)
  from a(3) show thesis
  proof (cases rule: converse_rtranclE)
    case (step t)
    then show thesis using that a by (auto simp: skips_def thread_at_def)
  qed (use assms(3) in simp)
qed

interpretation tr: recoding "defaultExterns fo ff" threaded "\<lambda>_. True" for fo ff
  by unfold_locales (rule threadedD(1))

interpretation fwd: simulation "defaultExterns fo ff" threaded "\<lambda>_. True" fo thread_at for fo ff
proof
  show "threaded f g \<Longrightarrow> thread_at f g None (f_Start f) None (f_Start g)" for f g by (simp add: thread_at_def threadedD(2))
next
  fix f g "from" c from' c' st st' n
  assume r: "threaded f g" and at: "thread_at f g from c from' c'" and st: "state_rel threaded (\<lambda>_. True) st st'"
    and calls: "calls_rel threaded (\<lambda>_. True) (callFunc_with (run n fo (defaultExterns fo ff))) (\<lambda>m. callFunc_with (run m fo (defaultExterns fo ff)))"
    and IH: "\<And>h h' from c from' c' st st'. threaded h h' \<Longrightarrow> thread_at h h' from c from' c' \<Longrightarrow> state_rel threaded (\<lambda>_. True) st st' \<Longrightarrow>
      settles (rel_prod (=) (machine_rel threaded (\<lambda>_. True))) (run n fo (defaultExterns fo ff) h from c st) (\<lambda>m. run m fo (defaultExterns fo ff) h' from' c' st')"
  have name: "f_Name g = f_Name f" using threadedD(1)[OF r] by (simp add: same_frame_def)
  show "settles (rel_prod (=) (machine_rel threaded (\<lambda>_. True))) (run (Suc n) fo (defaultExterns fo ff) f from c st) (\<lambda>m. run m fo (defaultExterns fo ff) g from' c' st')"
  proof (cases "c = c'")
    case True
    show ?thesis
    proof (cases c)
      case None
      then show ?thesis unfolding True[symmetric] by - (rule settles_Suc, simp)
    next
      case (Some b)
      obtain j where j: "blk g b = (blk f b)\<lparr>b_Jmp := j\<rparr>"
        "jumps_alike (\<lambda>c c'. thread_at f g (Some (f_Name f, b)) c (Some (f_Name f, b)) c') (b_Jmp (blk f b)) j" using threadedD(3)[OF r] by blast
      show ?thesis unfolding True[symmetric] Some
      proof (rule tr.run_block_settles[OF calls r thread_phis_alike[OF r] _ _ st])
        show "thread_at f g from (Some b) from' (Some b)" using at True Some by simp
        show "b_Instrs (blk g b) = b_Instrs (blk f b)" using j(1) by simp
        show "jumps_alike (\<lambda>c c'. thread_at f g (Some (f_Name f, b)) c (Some (f_Name f, b)) c') (b_Jmp (blk f b)) (b_Jmp (blk g b))" using j by simp
      qed (simp_all add: IH[OF r] IH[OF _ _] name thread_at_def)
    qed
  next
    case False
    obtain p where p: "c = Some p" "bypassable (externalEntry f) f p" "thread_at f g (Some (f_Name f, p)) (j_To (b_Jmp (blk f p))) from' c'"
      using thread_real[OF r at False] by blast
    show ?thesis unfolding p(1) run_skip[OF p(2)] by (rule IH[OF r p(3) st])
  qed
qed

text \<open>The other way round: the threaded function is run, and the old one takes the steps it skips.\<close>

lemma run_skips:
  assumes "(c, c') \<in> (skips ext f)\<^sup>*" "\<And>from. settles Q x (\<lambda>m. run m fo ex f from c' st)"
  shows "settles Q x (\<lambda>m. run m fo ex f from c st)"
  using assms(1)
proof (induction arbitrary: "from" rule: converse_rtrancl_induct)
  case (step c d)
  then obtain p where "c = Some p" "d = j_To (b_Jmp (blk f p))" "bypassable ext f p" by (auto simp: skips_def)
  then show ?case using step.IH by - (rule settles_Suc, simp add: run_skip del: run.simps)
qed (rule assms(2))

interpretation rt: recoding "defaultExterns fo ff" "threaded\<inverse>\<inverse>" "\<lambda>_. True" for fo ff
  by unfold_locales (simp add: threadedD(1) same_frame_sym)

interpretation bwd: simulation "defaultExterns fo ff" "threaded\<inverse>\<inverse>" "\<lambda>_. True" fo "\<lambda>g f from' c' from c. thread_at f g from c from' c'" for fo ff
proof
  show "threaded\<inverse>\<inverse> g f \<Longrightarrow> thread_at f g None (f_Start f) None (f_Start g)" for f g by (simp add: thread_at_def threadedD(2))
next
  fix g f "from" c from' c' st st' n
  assume r': "threaded\<inverse>\<inverse> g f" and at: "thread_at f g from' c' from c" and st: "state_rel threaded\<inverse>\<inverse> (\<lambda>_. True) st st'"
    and calls: "calls_rel threaded\<inverse>\<inverse> (\<lambda>_. True) (callFunc_with (run n fo (defaultExterns fo ff))) (\<lambda>m. callFunc_with (run m fo (defaultExterns fo ff)))"
    and IH: "\<And>h h' from c from' c' st st'. threaded\<inverse>\<inverse> h h' \<Longrightarrow> thread_at h' h from' c' from c \<Longrightarrow> state_rel threaded\<inverse>\<inverse> (\<lambda>_. True) st st' \<Longrightarrow>
      settles (rel_prod (=) (machine_rel threaded\<inverse>\<inverse> (\<lambda>_. True))) (run n fo (defaultExterns fo ff) h from c st) (\<lambda>m. run m fo (defaultExterns fo ff) h' from' c' st')"
  have r: "threaded f g" using r' by simp
  have name: "f_Name g = f_Name f" using threadedD(1)[OF r] by (simp add: same_frame_def)
  have real: "settles (rel_prod (=) (machine_rel threaded\<inverse>\<inverse> (\<lambda>_. True))) (run (Suc n) fo (defaultExterns fo ff) g from c st)
    (\<lambda>m. run m fo (defaultExterns fo ff) f from2 c st')" if a: "thread_at f g from2 c from c" for from2
  proof (cases c)
    case None
    then show ?thesis by - (rule settles_Suc, simp)
  next
    case (Some b)
    obtain j where j: "blk g b = (blk f b)\<lparr>b_Jmp := j\<rparr>"
      "jumps_alike (\<lambda>c c'. thread_at f g (Some (f_Name f, b)) c (Some (f_Name f, b)) c') (b_Jmp (blk f b)) j" using threadedD(3)[OF r] by blast
    have P: "phis_alike f from2 b g from b" by (rule thread_phis_alike[OF r]) (use a Some in simp)
    then have P': "phis_alike g from b f from2 b" by (auto simp: phis_alike_def list_all2_conv_all_nth)
    show ?thesis unfolding Some
    proof (rule rt.run_block_settles[OF calls r' P' _ _ st])
      show "b_Instrs (blk f b) = b_Instrs (blk g b)" using j(1) by simp
      show "jumps_alike (\<lambda>c' c. thread_at f g (Some (f_Name f, b)) c (Some (f_Name f, b)) c') (b_Jmp (blk g b)) (b_Jmp (blk f b))"
        using jumps_alike_converse[OF j(2)] j(1) by simp
    qed (simp_all add: IH[OF r'] IH[OF _ _] name thread_at_def)
  qed
  show "settles (rel_prod (=) (machine_rel threaded\<inverse>\<inverse> (\<lambda>_. True))) (run (Suc n) fo (defaultExterns fo ff) g from c st) (\<lambda>m. run m fo (defaultExterns fo ff) f from' c' st')"
  proof (cases "c' = c")
    case True
    then show ?thesis using real at by simp
  next
    case False
    have a: "\<forall>b. b_Phis (blk f b) = []" "g = ThreadJumps f" "(c', c) \<in> (skips (externalEntry f) f)\<^sup>*" using thread_real[OF r at False] by blast+
    show ?thesis by (rule run_skips[OF a(3)]) (rule real, simp add: thread_at_def a(1,2))
  qed
qed

text \<open>
  C17: Jump threading is invisible to a program.  Let one machine hold, for some of the functions of
  another that have no phis left, what \<open>ThreadJumps\<close> makes of them.  A call that returns or traps in
  one of the two within some allowance of block entries does so in the other, in every large enough
  allowance, with the same value or the same trap, the same memory and the same output.
\<close>

theorem ThreadJumps_preserves_programs:
  assumes "machine_rel threaded (\<lambda>_. True) mc mc'"
  shows "(Call n fo (defaultExterns fo ff) name args mc \<noteq> Inl OutOfSteps \<longrightarrow>
      (\<exists>m0. \<forall>m \<ge> m0. same_result threaded (Call n fo (defaultExterns fo ff) name args mc) (Call m fo (defaultExterns fo ff) name args mc'))) \<and>
    (Call n fo (defaultExterns fo ff) name args mc' \<noteq> Inl OutOfSteps \<longrightarrow>
      (\<exists>m0. \<forall>m \<ge> m0. same_result threaded (Call m fo (defaultExterns fo ff) name args mc) (Call n fo (defaultExterns fo ff) name args mc')))"
proof
  show "Call n fo (defaultExterns fo ff) name args mc \<noteq> Inl OutOfSteps \<longrightarrow>
      (\<exists>m0. \<forall>m \<ge> m0. same_result threaded (Call n fo (defaultExterns fo ff) name args mc) (Call m fo (defaultExterns fo ff) name args mc'))"
    using fwd.Call_settles[OF assms, of n fo ff name args] by (auto simp: settles_def same_result_def)
  show "Call n fo (defaultExterns fo ff) name args mc' \<noteq> Inl OutOfSteps \<longrightarrow>
      (\<exists>m0. \<forall>m \<ge> m0. same_result threaded (Call m fo (defaultExterns fo ff) name args mc) (Call n fo (defaultExterns fo ff) name args mc'))"
    using bwd.Call_settles[OF machine_rel_converse[OF assms], of n fo ff name args] same_result_converse[of threaded]
    by (auto simp: settles_def same_result_def)
qed

text \<open>An instance: a forwarding block between the entry and a block that returns, and a dropped block.\<close>

definition hop_fn :: func where
  "hop_fn = func0\<lparr>f_Name := ''hop'', f_Start := Some 0, f_Blocks := [0, 1, 2], f_arena := [
     block0\<lparr>b_Instrs := [instr0], b_Jmp := jmp0\<lparr>j_Kind := JmpJmp, j_To := Some 1\<rparr>\<rparr>,
     block0\<lparr>b_Jmp := jmp0\<lparr>j_Kind := JmpJmp, j_To := Some 2\<rparr>\<rparr>,
     block0\<lparr>b_Jmp := jmp0\<lparr>j_Kind := JmpRet\<rparr>\<rparr>]\<rparr>"

lemma hop_threaded: "b_Jmp (blk (ThreadJumps hop_fn) 0) = jmp0\<lparr>j_Kind := JmpJmp, j_To := Some 2\<rparr>" "f_Blocks (ThreadJumps hop_fn) = [0, 2]"
  by code_simp+

theorem ThreadJumps_blocks_witness:
  "f_Blocks hop_fn = [0, 1, 2] \<and> f_Blocks (ThreadJumps hop_fn) = [0, 2] \<and>
   (Some 1, Some 2) \<in> (skips (externalEntry hop_fn) hop_fn)\<^sup>* \<and> lands (externalEntry hop_fn) hop_fn (Some 2)"
proof -
  have len: "\<forall>b \<in> set (f_Blocks hop_fn). b < length (f_arena hop_fn)" by code_simp
  note T = ThreadJumps_blocks[OF len]
  obtain j where j: "blk (ThreadJumps hop_fn) 0 = (blk hop_fn 0)\<lparr>b_Jmp := j\<rparr>"
    "jumps_alike (\<lambda>c c'. (c, c') \<in> (skips (externalEntry hop_fn) hop_fn)\<^sup>*) (b_Jmp (blk hop_fn 0)) j"
    using T[THEN conjunct1] by blast
  have b0: "b_Jmp (blk hop_fn 0) = jmp0\<lparr>j_Kind := JmpJmp, j_To := Some 1\<rparr>" by code_simp
  have "j = jmp0\<lparr>j_Kind := JmpJmp, j_To := Some 2\<rparr>" using j(1) hop_threaded(1) by simp
  then have "(Some 1, Some 2) \<in> (skips (externalEntry hop_fn) hop_fn)\<^sup>*" using j(2) b0 by (simp add: jumps_alike_def)
  moreover have "lands (externalEntry hop_fn) hop_fn (Some 2)"
    using T[THEN conjunct2, THEN conjunct1, rule_format, of 0 "Some 2"] hop_threaded b0 by (simp add: block_Succs_def)
  ultimately show ?thesis using hop_threaded(2) by (simp add: hop_fn_def)
qed

lemma nop_step: "mc_fuel mc = 0 \<Longrightarrow> exec_step fo ext call own instr0 (fr, mc) = Inr (fr, mc)"
  by (simp add: exec_step_def tick_def execInstr_def instr0_def)

lemma hop_call: "Call 3 fo ext ''hop'' [] (machine_of hop_fn 0) = Inr (val0, machine_of hop_fn 0)"
  by (simp add: Call_def callFunc_def callFunc_with_def bind_params_def exec_block_def resolvePhis_def Let_def hop_fn_def machine_of_def func0_def
      blk_def block0_def jmp0_def execTerminator_def e_then_def ref_IsNone_def R_def numeral_3_eq_3 nop_step)

theorem ThreadJumps_preserves_programs_witness:
  "\<forall>fo ff. \<exists>m mc'. Call m fo (defaultExterns fo ff) ''hop'' [] (machine_of (ThreadJumps hop_fn) 0) = Inr (val0, mc') \<and>
     mc_mem mc' = newMemory \<and> mc_stdout mc' = []"
proof (intro allI)
  fix fo ff
  let ?f = "hop_fn" and ?g = "ThreadJumps hop_fn"
  have np: "\<forall>b < length (f_arena hop_fn). b_Phis (blk hop_fn b) = []"
    by (simp add: hop_fn_def blk_def block0_def nth_Cons split: nat.split)
  then have t: "threaded ?f ?g" by (simp add: threaded_def)
  then have n: "f_Name ?g = f_Name ?f" using threadedD(1) by (simp add: same_frame_def)
  have "machine_of ?g 0 = recode [f_Name ?f \<mapsto> ?g] Map.empty Map.empty (machine_of ?f 0)" by (simp add: machine_of_def recode_def n)
  moreover have "codes_rel threaded (machine_of ?f 0) (machine_of ?g 0)" using t by (simp add: codes_rel_def machine_of_def n)
  ultimately have rel: "machine_rel threaded (\<lambda>_. True) (machine_of ?f 0) (machine_of ?g 0)" by (auto simp: machine_rel_def)
  have "Call 3 fo (defaultExterns fo ff) ''hop'' [] (machine_of ?f 0) \<noteq> Inl OutOfSteps" by (simp add: hop_call)
  then obtain m where "same_result threaded (Inr (val0, machine_of ?f 0)) (Call m fo (defaultExterns fo ff) ''hop'' [] (machine_of ?g 0))"
    using ThreadJumps_preserves_programs[OF rel, of 3 fo ff "''hop''" "[]"] unfolding hop_call by blast
  then obtain mc' where "Call m fo (defaultExterns fo ff) ''hop'' [] (machine_of ?g 0) = Inr (val0, mc')" "machine_rel threaded (\<lambda>_. True) (machine_of ?f 0) mc'"
    unfolding same_result_def by (cases "Call m fo (defaultExterns fo ff) ''hop'' [] (machine_of ?g 0)") auto
  moreover from this(2) have "mc_mem mc' = newMemory" "mc_stdout mc' = []" by (auto simp: machine_rel_def) (simp_all add: machine_of_def)
  ultimately show "\<exists>m mc'. Call m fo (defaultExterns fo ff) ''hop'' [] (machine_of (ThreadJumps hop_fn) 0) = Inr (val0, mc') \<and>
     mc_mem mc' = newMemory \<and> mc_stdout mc' = []" by blast
qed

end
