(* ===== verification/Selects.thy ===== *)
theory Selects
  imports Recode Switch_Run
begin

text \<open>
  Conditional selects as diamonds (\<open>lower/select.go\<close>): the block is cut at the select, its head
  branches to two empty arms, and a phi of the block they join in takes the value.  \<open>None\<close> is a panic: a select
  without three operands, or a nil successor.  The theory shows that no program without a fuel
  budget can tell the difference.
\<close>

section \<open>The pass\<close>

definition redirect_to :: "bptr \<Rightarrow> bptr \<Rightarrow> bptr option \<Rightarrow> func \<Rightarrow> func" where
  "redirect_to b cont s = upd_blk (the s) (\<lambda>x. x\<lparr>b_Phis := map (redirect_phi b cont) (b_Phis x)\<rparr>)"

definition expandSelect :: "bptr \<Rightarrow> nat \<Rightarrow> func \<Rightarrow> func option" where
  "expandSelect b j f =
     (let sel = b_Instrs (blk f b) ! j in
      if length (in_Args sel) < 3 then None
      else let (cont, f1) = NewBlock [] f;
               f2 = upd_blk cont (\<lambda>x. x\<lparr>b_Instrs := drop (Suc j) (b_Instrs (blk f1 b)), b_Jmp := b_Jmp (blk f1 b)\<rparr>) f1
      in if None \<in> set (block_Succs (blk f2 cont)) then None
      else let f3 = fold (redirect_to b cont) (block_Succs (blk f2 cont)) f2;
               (armT, f4) = NewBlock [] f3;
               (armF, f5) = NewBlock [] f4;
               f6 = Goto armF (Some cont) (Goto armT (Some cont) f5);
               f7 = upd_blk b (\<lambda>x. x\<lparr>b_Instrs := take j (b_Instrs x), b_Jmp := jmp0\<rparr>) f6;
               f8 = Jnz b (in_Args sel ! 0) (Some armT) (Some armF) f7
      in Some (upd_blk cont (\<lambda>x. x\<lparr>b_Phis := b_Phis x @ [\<lparr>p_Cls = in_Cls sel, p_To = in_To sel,
           p_Args = [in_Args sel ! 1, in_Args sel ! 2], p_Blocks = [Some armT, Some armF]\<rparr>]\<rparr>) f8))"

text \<open>The first select of a block.\<close>

definition sel_index :: "instr list \<Rightarrow> nat option" where
  "sel_index is = (let k = length (takeWhile (\<lambda>i. in_Op i \<noteq> OSel) is) in if k < length is then Some k else None)"

partial_function (option) selects_loop :: "nat \<Rightarrow> bool \<Rightarrow> func \<Rightarrow> (func \<times> bool) option" where
  "selects_loop i changed f =
     (if i < length (f_Blocks f)
      then (case sel_index (b_Instrs (blk f (f_Blocks f ! i))) of
          None \<Rightarrow> selects_loop (Suc i) changed f
        | Some j \<Rightarrow> Option.bind (expandSelect (f_Blocks f ! i) j f) (\<lambda>g. selects_loop (Suc i) True g))
      else Some (f, changed))"

declare selects_loop.simps [code]

definition Selects :: "func \<Rightarrow> (func \<times> bool) option" where
  "Selects f = selects_loop 0 False f"

section \<open>One expansion\<close>

lemma NewBlock_new:
  assumes "NewBlock [] f = (p, g)"
  shows "p = length (f_arena f)" "length (f_arena g) = Suc p" "f_Blocks g = f_Blocks f @ [p]" "same_frame f g"
    "f_Start f \<noteq> None \<Longrightarrow> f_Start g = f_Start f" "\<And>q. q < p \<Longrightarrow> blk g q = blk f q"
    "b_Phis (blk g p) = []" "b_Instrs (blk g p) = []" "b_Jmp (blk g p) = jmp0"
proof -
  note n = arena_NewBlock[OF assms]
  obtain nm where a: "f_arena g = f_arena f @ [block0\<lparr>b_Name := nm, b_ID := length (f_Blocks f)\<rparr>]" using n(2) by blast
  show "same_frame f g" using assms by (cases "f_Start f") (auto simp: NewBlock_def Let_def same_frame_def)
  show "p = length (f_arena f)" "length (f_arena g) = Suc p" "f_Blocks g = f_Blocks f @ [p]" "f_Start f \<noteq> None \<Longrightarrow> f_Start g = f_Start f"
    using n a by simp_all
  show "\<And>q. q < p \<Longrightarrow> blk g q = blk f q" "b_Phis (blk g p) = []" "b_Instrs (blk g p) = []" "b_Jmp (blk g p) = jmp0"
    using n(1) a by (simp_all add: blk_def nth_append block0_def)
qed

lemma same_frame_upd [simp]: "same_frame f (upd_blk b h g) = same_frame f g"
  by (simp add: same_frame_def upd_blk_def)

lemma same_frame_trans: "same_frame f g \<Longrightarrow> same_frame g h \<Longrightarrow> same_frame f h"
  by (simp add: same_frame_def)

lemma redirect_phi_idem: "b \<noteq> c \<Longrightarrow> redirect_phi b c (redirect_phi b c p) = redirect_phi b c p"
  by (simp add: redirect_phi_def comp_def)

lemma redirect_fold:
  assumes "\<forall>s \<in> set ss. \<exists>q. s = Some q \<and> q < length (f_arena f)" "b \<noteq> c"
  defines "g \<equiv> fold (redirect_to b c) ss f"
  shows "blk g p = (if Some p \<in> set ss then (blk f p)\<lparr>b_Phis := map (redirect_phi b c) (b_Phis (blk f p))\<rparr> else blk f p)"
    "length (f_arena g) = length (f_arena f)" "f_Blocks g = f_Blocks f" "f_Start g = f_Start f" "same_frame f g"
proof -
  have "(\<forall>p. blk (fold (redirect_to b c) ss f) p = (if Some p \<in> set ss then (blk f p)\<lparr>b_Phis := map (redirect_phi b c) (b_Phis (blk f p))\<rparr> else blk f p)) \<and>
    length (f_arena (fold (redirect_to b c) ss f)) = length (f_arena f) \<and> f_Blocks (fold (redirect_to b c) ss f) = f_Blocks f \<and>
    f_Start (fold (redirect_to b c) ss f) = f_Start f \<and> same_frame f (fold (redirect_to b c) ss f)"
    using assms(1)
  proof (induction ss rule: rev_induct)
    case (snoc s ss)
    then obtain q where q: "s = Some q" "q < length (f_arena f)" by auto
    then show ?case using snoc by (auto simp: redirect_to_def redirect_phi_idem[OF assms(2)])
  qed simp
  then show "blk g p = (if Some p \<in> set ss then (blk f p)\<lparr>b_Phis := map (redirect_phi b c) (b_Phis (blk f p))\<rparr> else blk f p)"
    "length (f_arena g) = length (f_arena f)" "f_Blocks g = f_Blocks f" "f_Start g = f_Start f" "same_frame f g"
    unfolding g_def by blast+
qed

text \<open>What an expansion leaves, block by block.\<close>

definition expanded :: "func \<Rightarrow> bptr \<Rightarrow> nat \<Rightarrow> func \<Rightarrow> bool" where
  "expanded f b j g \<longleftrightarrow> (let y = length (f_arena f); sel = b_Instrs (blk f b) ! j in
     length (f_arena g) = y + 3 \<and> f_Blocks g = f_Blocks f @ [y, Suc y, Suc (Suc y)] \<and> same_frame f g \<and> f_Start g = f_Start f \<and>
     (\<forall>p < y. b_Name (blk g p) = b_Name (blk f p) \<and>
       b_Phis (blk g p) = (if Some p \<in> set (block_Succs (blk f b)) then map (redirect_phi b y) (b_Phis (blk f p)) else b_Phis (blk f p)) \<and>
       (p \<noteq> b \<longrightarrow> b_Instrs (blk g p) = b_Instrs (blk f p) \<and> b_Jmp (blk g p) = b_Jmp (blk f p))) \<and>
     b_Instrs (blk g b) = take j (b_Instrs (blk f b)) \<and>
     b_Jmp (blk g b) = jmp0\<lparr>j_Kind := JmpJnz, j_Arg := in_Args sel ! 0, j_To := Some (Suc y), j_To2 := Some (Suc (Suc y))\<rparr> \<and>
     b_Instrs (blk g y) = drop (Suc j) (b_Instrs (blk f b)) \<and> b_Jmp (blk g y) = b_Jmp (blk f b) \<and>
     b_Phis (blk g y) = [\<lparr>p_Cls = in_Cls sel, p_To = in_To sel, p_Args = [in_Args sel ! 1, in_Args sel ! 2], p_Blocks = [Some (Suc y), Some (Suc (Suc y))]\<rparr>] \<and>
     (\<forall>a \<in> {Suc y, Suc (Suc y)}. b_Phis (blk g a) = [] \<and> b_Instrs (blk g a) = [] \<and> b_Jmp (blk g a) = jmp0\<lparr>j_Kind := JmpJmp, j_To := Some y\<rparr>))"

lemma expandSelect_expanded:
  assumes start: "f_Start f \<noteq> None" and b: "b < length (f_arena f)" and args: "3 \<le> length (in_Args (b_Instrs (blk f b) ! j))"
    and succs: "\<forall>s \<in> set (block_Succs (blk f b)). \<exists>q. s = Some q \<and> q < length (f_arena f)"
  shows "\<exists>g. expandSelect b j f = Some g \<and> expanded f b j g"
proof -
  define sel where "sel = b_Instrs (blk f b) ! j"
  obtain y f1 where n1: "NewBlock [] f = (y, f1)" by fastforce
  note N1 = NewBlock_new[OF n1]
  define f2 where "f2 = upd_blk y (\<lambda>x. x\<lparr>b_Instrs := drop (Suc j) (b_Instrs (blk f1 b)), b_Jmp := b_Jmp (blk f1 b)\<rparr>) f1"
  have yb: "b \<noteq> y" "b < y" using b N1(1) by simp_all
  have cont: "b_Instrs (blk f2 y) = drop (Suc j) (b_Instrs (blk f b))" "b_Jmp (blk f2 y) = b_Jmp (blk f b)" "b_Phis (blk f2 y) = []"
    using N1(2,6-9) yb by (simp_all add: f2_def)
  have ss: "block_Succs (blk f2 y) = block_Succs (blk f b)" by (simp only: block_Succs_def cont(2))
  have old2: "blk f2 p = blk f p" if "p < y" for p using that N1(2,6) by (simp add: f2_def)
  have l2: "length (f_arena f2) = Suc y" "f_Blocks f2 = f_Blocks f @ [y]" "same_frame f f2" "f_Start f2 = f_Start f"
    using N1(2-5) start by (simp_all add: f2_def)
  define f3 where "f3 = fold (redirect_to b y) (block_Succs (blk f b)) f2"
  have "\<forall>s \<in> set (block_Succs (blk f b)). \<exists>q. s = Some q \<and> q < length (f_arena f2)" using succs l2(1) N1(1) by force
  note R = redirect_fold[OF this yb(1), folded f3_def]
  have l3: "length (f_arena f3) = Suc y" "f_Blocks f3 = f_Blocks f @ [y]" "same_frame f f3" "f_Start f3 = f_Start f" "f_Start f3 \<noteq> None"
    using R(2-4) l2 start same_frame_trans[OF l2(3) R(5)] by simp_all
  obtain t f4 where n4: "NewBlock [] f3 = (t, f4)" by fastforce
  obtain u f5 where n5: "NewBlock [] f4 = (u, f5)" by fastforce
  note N4 = NewBlock_new[OF n4] and N5 = NewBlock_new[OF n5]
  have tu: "t = Suc y" "u = Suc (Suc y)" "length (f_arena f5) = y + 3" using N4(1,2) N5(1,2) l3(1) by simp_all
  have ut: "Suc t = u" using tu by simp
  have l5: "f_Blocks f5 = f_Blocks f @ [y, t, u]" "same_frame f f5" "f_Start f5 = f_Start f"
    using N4(3,5) N5(3,5) l3 same_frame_trans[OF same_frame_trans[OF l3(3) N4(4)] N5(4)] by simp_all
  have arms: "b_Phis (blk f5 a) = [] \<and> b_Instrs (blk f5 a) = [] \<and> b_Jmp (blk f5 a) = jmp0" if "a \<in> {t, u}" for a
    using that N4(7-9) N5(6)[of t] N5(7-9) tu by auto
  have old5: "blk f5 p = blk f3 p" if "p \<le> y" for p using that N4(6)[of p] N5(6)[of p] tu by simp
  let ?phi = "\<lparr>p_Cls = in_Cls sel, p_To = in_To sel, p_Args = [in_Args sel ! 1, in_Args sel ! 2], p_Blocks = [Some t, Some u]\<rparr>"
  define f6 where "f6 = Goto u (Some y) (Goto t (Some y) f5)"
  define f7 where "f7 = upd_blk b (\<lambda>x. x\<lparr>b_Instrs := take j (b_Instrs x), b_Jmp := jmp0\<rparr>) f6"
  define f8 where "f8 = Jnz b (in_Args sel ! 0) (Some t) (Some u) f7"
  define g where "g = upd_blk y (\<lambda>x. x\<lparr>b_Phis := b_Phis x @ [?phi]\<rparr>) f8"
  have res: "expandSelect b j f = Some g"
  proof -
    have "None \<notin> set (block_Succs (blk f b))" using succs by force
    then show ?thesis using args unfolding expandSelect_def Let_def sel_def[symmetric] n1 prod.case f2_def[symmetric] ss f3_def[symmetric] n4 n5
        f6_def[symmetric] f7_def[symmetric] f8_def[symmetric] g_def[symmetric] by simp
  qed
  have l: "length (f_arena f6) = y + 3" "length (f_arena f7) = y + 3" "length (f_arena f8) = y + 3" "length (f_arena g) = y + 3"
    using tu(3) by (simp_all add: f6_def f7_def f8_def g_def Goto_def Jnz_def)
  have old: "blk g p = blk f3 p" if "p < y" "p \<noteq> b" for p
    using that yb tu old5[of p] l by (simp add: g_def f8_def f7_def f6_def Goto_def Jnz_def)
  have gb: "blk g b = (blk f3 b)\<lparr>b_Instrs := take j (b_Instrs (blk f3 b)), b_Jmp := jmp0\<lparr>j_Kind := JmpJnz, j_Arg := in_Args sel ! 0, j_To := Some t, j_To2 := Some u\<rparr>\<rparr>"
    using yb tu old5[of b] l by (simp add: g_def f8_def f7_def f6_def Goto_def Jnz_def)
  have gy: "blk g y = (blk f3 y)\<lparr>b_Phis := b_Phis (blk f3 y) @ [?phi]\<rparr>"
    using yb tu old5[of y] l by (simp add: g_def f8_def f7_def f6_def Goto_def Jnz_def)
  have far: "t \<noteq> u" "t \<noteq> y" "u \<noteq> y" "t \<noteq> b" "u \<noteq> b" "t < y + 3" "u < y + 3" using yb tu by simp_all
  have gt: "blk g t = (blk f5 t)\<lparr>b_Jmp := jmp0\<lparr>j_Kind := JmpJmp, j_To := Some y\<rparr>\<rparr>"
    using far tu(3) by (simp add: g_def f8_def f7_def f6_def Goto_def Jnz_def)
  have gu: "blk g u = (blk f5 u)\<lparr>b_Jmp := jmp0\<lparr>j_Kind := JmpJmp, j_To := Some y\<rparr>\<rparr>"
    using far tu(3) by (simp add: g_def f8_def f7_def f6_def Goto_def Jnz_def)
  have "Some y \<notin> set (block_Succs (blk f b))" using succs N1(1) by force
  then have y3: "blk f3 y = blk f2 y" using R(1)[of y] by simp
  have p3: "blk f3 p = (if Some p \<in> set (block_Succs (blk f b)) then (blk f p)\<lparr>b_Phis := map (redirect_phi b y) (b_Phis (blk f p))\<rparr> else blk f p)"
    if "p < y" for p using R(1)[of p] old2[OF that] by simp
  have frame: "f_Blocks g = f_Blocks f @ [y, t, u]" "same_frame f g" "f_Start g = f_Start f"
    using l5 by (simp_all add: g_def f8_def f7_def f6_def Goto_def Jnz_def)
  have "expanded f b j g" unfolding expanded_def Let_def sel_def[symmetric] N1(1)[symmetric] tu(1)[symmetric] ut
  proof (intro conjI allI impI ballI)
    fix p assume p: "p < y"
    show "b_Name (blk g p) = b_Name (blk f p)" using p3[OF p] old[OF p] gb by (cases "p = b") auto
    show "b_Phis (blk g p) = (if Some p \<in> set (block_Succs (blk f b)) then map (redirect_phi b y) (b_Phis (blk f p)) else b_Phis (blk f p))"
      using p3[OF p] old[OF p] gb by (cases "p = b") auto
    show "b_Instrs (blk g p) = b_Instrs (blk f p)" "b_Jmp (blk g p) = b_Jmp (blk f p)" if "p \<noteq> b" using p3[OF p] old[OF p that] by auto
  next
    show "b_Instrs (blk g b) = take j (b_Instrs (blk f b))" using gb p3[OF yb(2)] by simp
    show "b_Jmp (blk g b) = jmp0\<lparr>j_Kind := JmpJnz, j_Arg := in_Args sel ! 0, j_To := Some t, j_To2 := Some u\<rparr>" using gb by simp
  next
    fix a assume a: "a \<in> {t, u}"
    then have "blk g a = (blk f5 a)\<lparr>b_Jmp := jmp0\<lparr>j_Kind := JmpJmp, j_To := Some y\<rparr>\<rparr>" using gt gu by blast
    then show "b_Phis (blk g a) = []" "b_Instrs (blk g a) = []" "b_Jmp (blk g a) = jmp0\<lparr>j_Kind := JmpJmp, j_To := Some y\<rparr>" using arms[OF a] by simp_all
  qed (use l(4) frame gy y3 cont in simp_all)
  with res show ?thesis by blast
qed

section \<open>A function cut at its selects\<close>

text \<open>The branch, the arms and the join that stand for a select.\<close>

definition diamond :: "nat \<Rightarrow> func \<Rightarrow> bptr \<Rightarrow> instr \<Rightarrow> bptr \<Rightarrow> bool" where
  "diamond n g x sel y \<longleftrightarrow> (\<exists>t u. n \<le> y \<and> n \<le> t \<and> n \<le> u \<and> t \<noteq> u \<and>
     b_Jmp (blk g x) = jmp0\<lparr>j_Kind := JmpJnz, j_Arg := in_Args sel ! 0, j_To := Some t, j_To2 := Some u\<rparr> \<and>
     (\<forall>a \<in> {t, u}. a < length (f_arena g) \<and> b_Phis (blk g a) = [] \<and> b_Instrs (blk g a) = [] \<and> b_Jmp (blk g a) = jmp0\<lparr>j_Kind := JmpJmp, j_To := Some y\<rparr>) \<and>
     y < length (f_arena g) \<and>
     b_Phis (blk g y) = [\<lparr>p_Cls = in_Cls sel, p_To = in_To sel, p_Args = [in_Args sel ! 1, in_Args sel ! 2], p_Blocks = [Some t, Some u]\<rparr>])"

text \<open>From \<open>x\<close> on, \<open>g\<close> does the instructions \<open>is\<close> and ends in \<open>e\<close>, with the terminator \<open>j\<close>.  Blocks from \<open>n\<close> on are new.\<close>

inductive piece :: "nat \<Rightarrow> func \<Rightarrow> jmp \<Rightarrow> bptr \<Rightarrow> instr list \<Rightarrow> bptr \<Rightarrow> bool" for n g j where
  piece_whole: "b_Instrs (blk g x) = is \<Longrightarrow> b_Jmp (blk g x) = j \<Longrightarrow> piece n g j x is x"
| piece_split: "b_Instrs (blk g x) = is1 \<Longrightarrow> \<forall>i \<in> set is1. in_Op i \<noteq> OSel \<Longrightarrow> in_Op sel = OSel \<Longrightarrow> diamond n g x sel y \<Longrightarrow>
    piece n g j y is2 e \<Longrightarrow> piece n g j x (is1 @ sel # is2) e"

lemma piece_end: "piece n g j x is e \<Longrightarrow> b_Jmp (blk g e) = j \<and> (\<exists>pre. is = pre @ b_Instrs (blk g e))"
  by (induction rule: piece.induct) (metis append_Nil, metis append_Cons append_assoc)

text \<open>A change of other blocks: nothing happens to a block without a select, except to the phis of old blocks.\<close>

definition untouched :: "nat \<Rightarrow> func \<Rightarrow> func \<Rightarrow> bptr \<Rightarrow> bool" where
  "untouched n g h x \<longleftrightarrow> length (f_arena g) \<le> length (f_arena h) \<and>
     (\<forall>p < length (f_arena g). (n \<le> p \<longrightarrow> b_Phis (blk h p) = b_Phis (blk g p)) \<and>
       (p \<noteq> x \<longrightarrow> b_Instrs (blk h p) = b_Instrs (blk g p) \<and> b_Jmp (blk h p) = b_Jmp (blk g p)))"

lemma diamond_untouched:
  assumes "diamond n g p sel y" "untouched n g h x" "p \<noteq> x" "p < length (f_arena g)" "b_Instrs (blk g x) \<noteq> []"
  shows "diamond n h p sel y"
proof -
  obtain t u where d: "n \<le> y" "n \<le> t" "n \<le> u" "t \<noteq> u"
    "b_Jmp (blk g p) = jmp0\<lparr>j_Kind := JmpJnz, j_Arg := in_Args sel ! 0, j_To := Some t, j_To2 := Some u\<rparr>"
    "\<forall>a \<in> {t, u}. a < length (f_arena g) \<and> b_Phis (blk g a) = [] \<and> b_Instrs (blk g a) = [] \<and> b_Jmp (blk g a) = jmp0\<lparr>j_Kind := JmpJmp, j_To := Some y\<rparr>"
    "y < length (f_arena g)"
    "b_Phis (blk g y) = [\<lparr>p_Cls = in_Cls sel, p_To = in_To sel, p_Args = [in_Args sel ! 1, in_Args sel ! 2], p_Blocks = [Some t, Some u]\<rparr>]"
    using assms(1) unfolding diamond_def by blast
  have "t \<noteq> x" "u \<noteq> x" using d(6) assms(5) by auto
  then show ?thesis unfolding diamond_def using d assms(2-4)
    by (intro exI[of _ t] exI[of _ u]) (simp add: untouched_def)
qed

lemma diamond_less: "diamond n g x sel y \<Longrightarrow> y < length (f_arena g)"
  by (auto simp: diamond_def)

text \<open>The block \<open>x\<close> is cut.  Pieces that end elsewhere stay, the one that ends in \<open>x\<close> goes on to \<open>y\<close>.\<close>

lemma piece_untouched:
  assumes "piece n g j p is e" "untouched n g h x" "p < length (f_arena g)" "i \<in> set (b_Instrs (blk g x))" "in_Op i = OSel" "e \<noteq> x"
  shows "piece n h j p is e"
  using assms(1,3,6)
proof (induction rule: piece.induct)
  case (piece_whole p "is")
  then show ?case using assms(2) by (intro piece.piece_whole) (simp_all add: untouched_def)
next
  case (piece_split p is1 sel y is2 e)
  have "p \<noteq> x" using piece_split.hyps(1,2) assms(4,5) by auto
  moreover have "diamond n h p sel y"
    by (rule diamond_untouched[OF piece_split.hyps(4) assms(2) calculation piece_split.prems(1)]) (use assms(4) in auto)
  ultimately show ?case using piece_split assms(2) diamond_less[OF piece_split.hyps(4)]
    by (intro piece.piece_split) (simp_all add: untouched_def)
qed

lemma piece_cut:
  assumes "piece n g j p is e" "untouched n g h x" "p < length (f_arena g)" "e = x"
    and x: "b_Instrs (blk g x) = is1 @ sel # is2" "\<forall>i \<in> set is1. in_Op i \<noteq> OSel" "in_Op sel = OSel"
    and h: "b_Instrs (blk h x) = is1" "diamond n h x sel y" "b_Instrs (blk h y) = is2" "b_Jmp (blk h y) = b_Jmp (blk g x)"
  shows "piece n h j p is y"
  using assms(1,3,4)
proof (induction rule: piece.induct)
  case (piece_whole p "is")
  then have "is = is1 @ sel # is2" "b_Jmp (blk h y) = j" "p = x" using x(1) h(4) by simp_all
  then show ?case using x h by (auto intro!: piece.piece_split piece.piece_whole)
next
  case (piece_split p is1' sel' y' is2' e)
  have "p \<noteq> x" using piece_split.hyps(1,2) x(1,3) by auto
  moreover have "diamond n h p sel' y'"
    by (rule diamond_untouched[OF piece_split.hyps(4) assms(2) calculation piece_split.prems(1)]) (simp add: x(1))
  ultimately show ?case using piece_split assms(2) diamond_less[OF piece_split.hyps(4)]
    by (intro piece.piece_split) (simp_all add: untouched_def)
qed

section \<open>The whole pass\<close>

text \<open>
  What is asked of a function: its jumps and the operands of its phis name blocks it has, a phi names a block only
  for an edge from there, and a select has its operands and a result.
\<close>

definition selects_ready :: "func \<Rightarrow> bool" where
  "selects_ready f \<longleftrightarrow> f_Start f \<noteq> None \<and> (\<forall>b. f_Start f = Some b \<longrightarrow> b < length (f_arena f)) \<and> (\<forall>b \<in> set (f_Blocks f). b < length (f_arena f)) \<and>
     (\<forall>b < length (f_arena f). (\<forall>s \<in> set (block_Succs (blk f b)). \<exists>q. s = Some q \<and> q < length (f_arena f)) \<and>
       (\<forall>p \<in> set (b_Phis (blk f b)). \<forall>q \<in> set (p_Blocks p). \<exists>u < length (f_arena f). q = Some u \<and> Some b \<in> set (block_Succs (blk f u))) \<and>
       (\<forall>i \<in> set (b_Instrs (blk f b)). in_Op i = OSel \<longrightarrow> 3 \<le> length (in_Args i) \<and> \<not> ref_IsNone (in_To i)))"

definition retarget :: "(bptr \<Rightarrow> bptr) \<Rightarrow> phi \<Rightarrow> phi" where
  "retarget L p = p\<lparr>p_Blocks := map (map_option L) (p_Blocks p)\<rparr>"

text \<open>\<open>g\<close> is \<open>f\<close> cut at some selects; \<open>L b\<close> is the block that took over the terminator of \<open>b\<close>.\<close>

definition cut :: "func \<Rightarrow> func \<Rightarrow> (bptr \<Rightarrow> bptr) \<Rightarrow> bool" where
  "cut f g L \<longleftrightarrow> length (f_arena f) \<le> length (f_arena g) \<and> same_frame f g \<and> f_Start g = f_Start f \<and>
     (\<forall>b < length (f_arena f). b_Name (blk g b) = b_Name (blk f b) \<and> b_Phis (blk g b) = map (retarget L) (b_Phis (blk f b)) \<and>
       piece (length (f_arena f)) g (b_Jmp (blk f b)) b (b_Instrs (blk f b)) (L b) \<and>
       L b < length (f_arena g)) \<and>
     inj_on L {..<length (f_arena f)} \<and>
     (\<forall>x < length (f_arena g). (\<exists>i \<in> set (b_Instrs (blk g x)). in_Op i = OSel) \<longrightarrow> (\<exists>b < length (f_arena f). L b = x)) \<and>
     (\<forall>b \<in> set (f_Blocks g). b < length (f_arena g))"

lemma cut_refl:
  assumes "selects_ready f"
  shows "cut f f id"
proof -
  have "map (retarget id) ps = ps" for ps by (rule map_idI) (simp add: retarget_def option.map_id0)
  then show ?thesis using assms by (auto simp: cut_def selects_ready_def intro: piece_whole)
qed

lemma sel_index_split:
  assumes "sel_index is = Some j"
  shows "is = take j is @ is ! j # drop (Suc j) is" "\<forall>i \<in> set (take j is). in_Op i \<noteq> OSel" "in_Op (is ! j) = OSel" "j < length is"
proof -
  let ?k = "length (takeWhile (\<lambda>i. in_Op i \<noteq> OSel) is)"
  have j: "j = ?k" "?k < length is" using assms by (auto simp: sel_index_def Let_def split: if_splits)
  then show "j < length is" by simp
  then show "is = take j is @ is ! j # drop (Suc j) is" by (rule id_take_nth_drop)
  have "take j is = takeWhile (\<lambda>i. in_Op i \<noteq> OSel) is" unfolding j(1) by (rule takeWhile_eq_take[symmetric])
  then show "\<forall>i \<in> set (take j is). in_Op i \<noteq> OSel" by (auto dest: set_takeWhileD)
  show "in_Op (is ! j) = OSel" using nth_length_takeWhile[OF j(2)] j(1) by simp
qed

lemma sel_index_None: "sel_index is = None \<longleftrightarrow> (\<forall>i \<in> set is. in_Op i \<noteq> OSel)"
  by (induction "is") (auto simp: sel_index_def Let_def split: if_splits)

lemma cut_step:
  assumes ready: "selects_ready f" and C: "cut f g L" and x: "x \<in> set (f_Blocks g)" and j: "sel_index (b_Instrs (blk g x)) = Some j"
  shows "\<exists>h L'. expandSelect x j g = Some h \<and> cut f h L' \<and> expanded g x j h"
proof -
  let ?n = "length (f_arena f)" and ?is = "b_Instrs (blk g x)"
  define y where "y = length (f_arena g)"
  note S = sel_index_split[OF j]
  let ?sel = "?is ! j"
  have xl: "x < length (f_arena g)" using C x by (simp add: cut_def)
  have "?sel \<in> set ?is" using S(4) by simp
  then obtain b where b: "b < ?n" "L b = x" using C xl S(3) unfolding cut_def by blast
  have pb: "piece ?n g (b_Jmp (blk f b)) b (b_Instrs (blk f b)) x" using C b by (auto simp: cut_def)
  note E = piece_end[OF pb]
  have jx: "b_Jmp (blk g x) = b_Jmp (blk f b)" using E by simp
  then have succs: "block_Succs (blk g x) = block_Succs (blk f b)" by (simp only: block_Succs_def)
  have inr: "\<forall>s \<in> set (block_Succs (blk g x)). \<exists>q. s = Some q \<and> q < ?n" using ready b(1) unfolding succs by (simp add: selects_ready_def)
  have len: "?n \<le> y" using C by (simp add: cut_def y_def)
  have "?sel \<in> set (b_Instrs (blk f b))" using E \<open>?sel \<in> set ?is\<close> by auto
  then have args: "3 \<le> length (in_Args ?sel)" using ready b(1) S(3) by (auto simp: selects_ready_def)
  have start: "f_Start g \<noteq> None" using C ready by (simp add: cut_def selects_ready_def)
  obtain h where h: "expandSelect x j g = Some h" "expanded g x j h"
    using expandSelect_expanded[OF start xl args] inr len unfolding y_def by (meson order_less_le_trans)
  note H = h(2)[unfolded expanded_def Let_def y_def[symmetric]]
  let ?L = "L(b := y)"
  have yn: "\<forall>p. Some p \<in> set (block_Succs (blk g x)) \<longrightarrow> p < ?n" using inr by auto
  have unt: "untouched ?n g h x" unfolding untouched_def
  proof (intro conjI allI impI)
    fix p assume p: "p < length (f_arena g)"
    show "b_Phis (blk h p) = b_Phis (blk g p)" if "?n \<le> p" using H p yn that unfolding y_def by (metis leD)
    show "b_Instrs (blk h p) = b_Instrs (blk g p)" "b_Jmp (blk h p) = b_Jmp (blk g p)" if "p \<noteq> x" using H p that by (simp_all add: y_def)
  qed (use H in \<open>simp add: y_def\<close>)
  have dia: "diamond ?n h x ?sel y" unfolding diamond_def using H len
    by (intro exI[of _ "Suc y"] exI[of _ "Suc (Suc y)"]) simp
  have pieces: "piece ?n h (b_Jmp (blk f b')) b' (b_Instrs (blk f b')) (?L b')" if b': "b' < ?n" for b'
  proof (cases "b' = b")
    case True
    have "piece ?n h (b_Jmp (blk f b)) b (b_Instrs (blk f b)) y"
      by (rule piece_cut[OF pb unt _ refl S(1-3) _ dia]) (use H b(1) len in \<open>simp_all add: y_def\<close>)
    then show ?thesis using True by simp
  next
    case False
    have "L b' \<noteq> x" using C b b' False unfolding cut_def inj_on_def by blast
    have "piece ?n g (b_Jmp (blk f b')) b' (b_Instrs (blk f b')) (L b')" using C b' by (simp add: cut_def)
    then have "piece ?n h (b_Jmp (blk f b')) b' (b_Instrs (blk f b')) (L b')"
      by (rule piece_untouched[OF _ unt _ \<open>?sel \<in> set ?is\<close> S(3) \<open>L b' \<noteq> x\<close>]) (use b' len in \<open>simp add: y_def\<close>)
    then show ?thesis using False by simp
  qed
  have phis: "b_Phis (blk h p) = map (retarget ?L) (b_Phis (blk f p))" if p: "p < ?n" for p
  proof -
    have gp: "b_Phis (blk g p) = map (retarget L) (b_Phis (blk f p))" using C p by (simp add: cut_def)
    have ops: "\<exists>u < ?n. q = Some u \<and> Some p \<in> set (block_Succs (blk f u))" if "ph \<in> set (b_Phis (blk f p))" "q \<in> set (p_Blocks ph)" for ph q
      using ready p that by (simp add: selects_ready_def)
    show ?thesis
    proof (cases "Some p \<in> set (block_Succs (blk g x))")
      case True
      have "redirect_phi x y (retarget L ph) = retarget ?L ph" if ph: "ph \<in> set (b_Phis (blk f p))" for ph
      proof -
        have "(if map_option L q = Some x then Some y else map_option L q) = map_option ?L q" if q: "q \<in> set (p_Blocks ph)" for q
        proof -
          obtain u where u: "u < ?n" "q = Some u" using ops[OF ph q] by blast
          have "L u = x \<longleftrightarrow> u = b" using C b u(1) unfolding cut_def inj_on_def by blast
          then show ?thesis by (simp add: u(2))
        qed
        then show ?thesis by (simp add: redirect_phi_def retarget_def)
      qed
      then show ?thesis using H True p len gp by (simp add: y_def)
    next
      case False
      have "retarget L ph = retarget ?L ph" if ph: "ph \<in> set (b_Phis (blk f p))" for ph
      proof -
        have "map_option L q = map_option ?L q" if "q \<in> set (p_Blocks ph)" for q
          using ops[OF ph that] False succs by auto
        then show ?thesis by (simp add: retarget_def)
      qed
      then show ?thesis using H False p len gp by (simp add: y_def)
    qed
  qed
  have sels: "\<exists>b' < ?n. ?L b' = p" if p: "p < length (f_arena h)" "i \<in> set (b_Instrs (blk h p))" "in_Op i = OSel" for p i
  proof -
    have pl: "p < y + 3" using p(1) H by simp
    have "p \<noteq> x" using H S(2) p by auto
    have "p \<noteq> Suc y" "p \<noteq> Suc (Suc y)" using H p(2) by auto
    then consider "p = y" | "p < y" using pl by linarith
    then show ?thesis
    proof cases
      case 1
      then show ?thesis using b(1) by (intro exI[of _ b]) simp
    next
      case 2
      then have "b_Instrs (blk h p) = b_Instrs (blk g p)" using H \<open>p \<noteq> x\<close> by simp
      then obtain b' where b': "b' < ?n" "L b' = p" using C 2 p(2,3) unfolding cut_def y_def by metis
      then show ?thesis using \<open>p \<noteq> x\<close> b(2) by (intro exI[of _ b']) auto
    qed
  qed
  have Lt: "L b' < y" if "b' < ?n" for b' using C that by (simp add: cut_def y_def)
  have "inj_on L {..<?n}" using C by (simp add: cut_def)
  then have inj: "inj_on ?L {..<?n}" by (rule inj_on_fun_updI) (use Lt in force)
  have hl: "length (f_arena h) = y + 3" using H by blast
  then have lt: "?L b' < length (f_arena h)" if "b' < ?n" for b' using Lt[OF that] by simp
  have fr: "same_frame f h" "f_Start h = f_Start f" using C H same_frame_trans unfolding cut_def by (blast, simp)
  have bl: "\<forall>p \<in> set (f_Blocks h). p < length (f_arena h)" using C H unfolding cut_def y_def by auto
  have nm: "b_Name (blk h p) = b_Name (blk f p)" if "p < ?n" for p using C H that len by (simp add: cut_def y_def)
  have "cut f h ?L" unfolding cut_def
  proof (intro conjI)
    show "?n \<le> length (f_arena h)" using hl len by simp
    show "\<forall>b' < ?n. b_Name (blk h b') = b_Name (blk f b') \<and> b_Phis (blk h b') = map (retarget ?L) (b_Phis (blk f b')) \<and>
       piece ?n h (b_Jmp (blk f b')) b' (b_Instrs (blk f b')) (?L b') \<and> ?L b' < length (f_arena h)"
      using nm phis pieces lt by blast
    show "\<forall>p < length (f_arena h). (\<exists>i \<in> set (b_Instrs (blk h p)). in_Op i = OSel) \<longrightarrow> (\<exists>b < ?n. ?L b = p)" using sels by blast
  qed (fact fr inj bl)+
  then show ?thesis using h by blast
qed

text \<open>The loop visits the blocks in order, those the expansions add included.\<close>

definition sels_in :: "func \<Rightarrow> bptr list \<Rightarrow> nat" where
  "sels_in f bs = (\<Sum>b \<leftarrow> bs. length (filter (\<lambda>i. in_Op i = OSel) (b_Instrs (blk f b))))"

lemma expanded_sels:
  assumes "expanded f b j g" "sel_index (b_Instrs (blk f b)) = Some j" "b < length (f_arena f)" "\<forall>p \<in> set bs. p < length (f_arena f)"
  shows "sels_in g (bs @ [length (f_arena f), Suc (length (f_arena f)), Suc (Suc (length (f_arena f)))]) < sels_in f (b # bs)"
proof -
  let ?c = "\<lambda>is. length (filter (\<lambda>i. in_Op i = OSel) is)" and ?is = "b_Instrs (blk f b)" and ?y = "length (f_arena f)"
  note X = assms(1)[unfolded expanded_def Let_def] and S = sel_index_split[OF assms(2)]
  have i: "b_Instrs (blk g b) = take j ?is" "b_Instrs (blk g ?y) = drop (Suc j) ?is" "b_Instrs (blk g (Suc ?y)) = []" "b_Instrs (blk g (Suc (Suc ?y))) = []"
    "\<And>p. p < ?y \<Longrightarrow> p \<noteq> b \<Longrightarrow> b_Instrs (blk g p) = b_Instrs (blk f p)" using X by simp_all
  have z: "?c (take j ?is) = 0" using S(2) by (simp add: filter_empty_conv)
  have "?c ?is = Suc (?c (drop (Suc j) ?is))" by (subst S(1)) (use z S(3) in simp)
  moreover have "sels_in g bs \<le> sels_in f bs" unfolding sels_in_def
  proof (rule sum_list_mono)
    fix p assume "p \<in> set bs"
    then show "?c (b_Instrs (blk g p)) \<le> ?c (b_Instrs (blk f p))" using assms(4) i(1,5) z by (cases "p = b") auto
  qed
  ultimately show ?thesis using i(2-4) by (simp add: sels_in_def)
qed

lemma selects_loop_cut:
  assumes ready: "selects_ready f" and "cut f g L" "\<forall>p \<in> set (take i (f_Blocks g)). sel_index (b_Instrs (blk g p)) = None"
  shows "\<exists>h c L'. selects_loop i changed g = Some (h, c) \<and> cut f h L' \<and> (\<forall>p \<in> set (f_Blocks h). sel_index (b_Instrs (blk h p)) = None) \<and>
    (c \<longleftrightarrow> changed \<or> (\<exists>p \<in> set (drop i (f_Blocks g)). sel_index (b_Instrs (blk g p)) \<noteq> None)) \<and> prefix (f_Blocks g) (f_Blocks h) \<and> (c \<or> h = g)"
  using assms(2,3)
proof (induction "4 * sels_in g (drop i (f_Blocks g)) + (length (f_Blocks g) - i)" arbitrary: g L i changed rule: less_induct)
  case less
  show ?case
  proof (cases "i < length (f_Blocks g)")
    case False
    then show ?thesis using less.prems by (subst selects_loop.simps) auto
  next
    case True
    let ?x = "f_Blocks g ! i"
    have x: "?x \<in> set (f_Blocks g)" "drop i (f_Blocks g) = ?x # drop (Suc i) (f_Blocks g)" "take (Suc i) (f_Blocks g) = take i (f_Blocks g) @ [?x]"
      using True by (simp_all add: Cons_nth_drop_Suc take_Suc_conv_app_nth)
    show ?thesis
    proof (cases "sel_index (b_Instrs (blk g ?x))")
      case None
      have "selects_loop i changed g = selects_loop (Suc i) changed g" using True None by (subst selects_loop.simps) simp
      moreover have "\<exists>h c L'. selects_loop (Suc i) changed g = Some (h, c) \<and> cut f h L' \<and> (\<forall>p \<in> set (f_Blocks h). sel_index (b_Instrs (blk h p)) = None) \<and>
        (c \<longleftrightarrow> changed \<or> (\<exists>p \<in> set (drop (Suc i) (f_Blocks g)). sel_index (b_Instrs (blk g p)) \<noteq> None)) \<and> prefix (f_Blocks g) (f_Blocks h) \<and> (c \<or> h = g)"
      proof (rule less.hyps[OF _ less.prems(1)])
        show "4 * sels_in g (drop (Suc i) (f_Blocks g)) + (length (f_Blocks g) - Suc i) < 4 * sels_in g (drop i (f_Blocks g)) + (length (f_Blocks g) - i)"
          using True unfolding x(2) by (simp add: sels_in_def)
        show "\<forall>p \<in> set (take (Suc i) (f_Blocks g)). sel_index (b_Instrs (blk g p)) = None" using less.prems(2) None unfolding x(3) by simp
      qed
      ultimately show ?thesis using None by (simp add: x(2))
    next
      case (Some j)
      obtain h L' where h: "expandSelect ?x j g = Some h" "cut f h L'" "expanded g ?x j h" using cut_step[OF ready less.prems(1) x(1) Some] by blast
      note X = h(3)[unfolded expanded_def Let_def]
      let ?y = "length (f_arena g)"
      have bl: "f_Blocks h = f_Blocks g @ [?y, Suc ?y, Suc (Suc ?y)]" "length (f_Blocks h) = length (f_Blocks g) + 3" using X by auto
      have inb: "p < ?y" if "p \<in> set (f_Blocks g)" for p using less.prems(1) that by (simp add: cut_def)
      have ds: "drop (Suc i) (f_Blocks h) = drop (Suc i) (f_Blocks g) @ [?y, Suc ?y, Suc (Suc ?y)]" using True bl by simp
      have ts: "take (Suc i) (f_Blocks h) = take i (f_Blocks g) @ [?x]" using True bl x(3) by simp
      have "selects_loop i changed g = selects_loop (Suc i) True h" using True Some h(1) by (subst selects_loop.simps) simp
      moreover have "\<exists>h' c L'. selects_loop (Suc i) True h = Some (h', c) \<and> cut f h' L' \<and> (\<forall>p \<in> set (f_Blocks h'). sel_index (b_Instrs (blk h' p)) = None) \<and>
        (c \<longleftrightarrow> True \<or> (\<exists>p \<in> set (drop (Suc i) (f_Blocks h)). sel_index (b_Instrs (blk h p)) \<noteq> None)) \<and> prefix (f_Blocks h) (f_Blocks h') \<and> (c \<or> h' = h)"
      proof (rule less.hyps[OF _ h(2)])
        have "sels_in h (drop (Suc i) (f_Blocks h)) < sels_in g (drop i (f_Blocks g))" unfolding x(2) ds
          by (rule expanded_sels[OF h(3) Some]) (use inb x(1) in \<open>auto dest: in_set_dropD\<close>)
        then show "4 * sels_in h (drop (Suc i) (f_Blocks h)) + (length (f_Blocks h) - Suc i) < 4 * sels_in g (drop i (f_Blocks g)) + (length (f_Blocks g) - i)"
          using True bl(2) by simp
        show "\<forall>p \<in> set (take (Suc i) (f_Blocks h)). sel_index (b_Instrs (blk h p)) = None" unfolding ts
        proof
          fix p assume p: "p \<in> set (take i (f_Blocks g) @ [?x])"
          show "sel_index (b_Instrs (blk h p)) = None"
          proof (cases "p = ?x")
            case True
            then have "b_Instrs (blk h p) = take j (b_Instrs (blk g ?x))" using X by simp
            then show ?thesis using sel_index_split(2)[OF Some] by (simp only: sel_index_None)
          next
            case False
            then have "p \<in> set (take i (f_Blocks g))" using p by simp
            then have "p < ?y" "sel_index (b_Instrs (blk g p)) = None" using inb less.prems(2) by (auto dest: in_set_takeD)
            then show ?thesis using X False by simp
          qed
        qed
      qed
      moreover have "prefix (f_Blocks g) (f_Blocks h') " if "prefix (f_Blocks h) (f_Blocks h')" for h' using that bl(1) by (auto simp: prefix_def)
      ultimately show ?thesis using Some by (auto simp: x(2))
    qed
  qed
qed

lemma Selects_cut:
  assumes "selects_ready f"
  shows "\<exists>g c L. Selects f = Some (g, c) \<and> cut f g L \<and> (\<forall>p \<in> set (f_Blocks g). sel_index (b_Instrs (blk g p)) = None) \<and>
    (c \<longleftrightarrow> (\<exists>p \<in> set (f_Blocks f). sel_index (b_Instrs (blk f p)) \<noteq> None)) \<and> prefix (f_Blocks f) (f_Blocks g) \<and> (c \<or> g = f)"
  using selects_loop_cut[OF assms cut_refl[OF assms], of 0 False] by (simp add: Selects_def)

section \<open>Running a diamond\<close>

text \<open>What is left of a block: the instructions \<open>is\<close>, its terminator, and the blocks after it.\<close>

definition tail_run :: "nat \<Rightarrow> float_ops \<Rightarrow> (string \<Rightarrow> extern option) \<Rightarrow> func \<Rightarrow> bptr \<Rightarrow> instr list \<Rightarrow> frame \<times> machine \<Rightarrow> trap + val \<times> machine" where
  "tail_run N fo ext own cur is st =
     e_then (e_fold (exec_step fo ext (callFunc_with (run N fo ext)) own) is st) (\<lambda>(fr, mc).
     e_then (execTerminator fo mc own fr (b_Jmp (blk own cur))) (\<lambda>t. case t of
         Return v \<Rightarrow> Inr (v, mc)
       | Next g c \<Rightarrow> run N fo ext g (Some (f_Name own, cur)) c (fr, mc)))"

lemma run_from_tail: "run_from N fo ext own cur k st = tail_run N fo ext own cur (drop k (b_Instrs (blk own cur))) st"
  by (simp add: run_from_def tail_run_def)

lemma tail_run_append:
  "tail_run N fo ext own cur (xs @ ys) st =
     e_then (e_fold (exec_step fo ext (callFunc_with (run N fo ext)) own) xs st) (tail_run N fo ext own cur ys)"
  by (simp add: tail_run_def e_fold_append e_then_assoc) (simp add: tail_run_def[abs_def])

lemma tail_run_Cons:
  "tail_run N fo ext own cur (i # is) st = e_then (exec_step fo ext (callFunc_with (run N fo ext)) own i st) (tail_run N fo ext own cur is)"
  using tail_run_append[of N fo ext own cur "[i]" "is" st] by (simp add: e_then_def split: sum.split_asm)

lemma run_tail:
  "run (Suc N) fo ext own from (Some b) (fr, mc) =
     e_then (resolvePhis fo mc own b from fr) (\<lambda>fr1. tail_run N fo ext own b (b_Instrs (blk own b)) (fr1, mc))"
  using run_run_from[of N fo ext own "from" b fr mc 0] by (simp add: run_from_tail e_then_def split: sum.split)

text \<open>The value of a select, put where it belongs, and going on with \<open>k\<close>.\<close>

definition select_then :: "float_ops \<Rightarrow> instr \<Rightarrow> (frame \<times> machine \<Rightarrow> trap + 'a) \<Rightarrow> val \<Rightarrow> frame \<times> machine \<Rightarrow> trap + 'a" where
  "select_then fo sel k c st = e_then (evalRef fo (snd st) (fst st) (in_Args sel ! (if val_u64 c \<noteq> 0 then 1 else 2))) (\<lambda>v.
     e_then (set_val (in_To sel) (asClass (in_Cls sel) v) (fst st)) (\<lambda>fr. k (fr, snd st)))"

lemma asClass_idem: "asClass c (asClass c v) = asClass c v"
  by (simp add: asClass_def Let_def)

lemma tail_run_select:
  assumes "in_Op sel = OSel" "3 \<le> length (in_Args sel)" "\<not> ref_IsNone (in_To sel)" "mc_fuel mc \<le> 0"
  shows "tail_run N fo ext own cur (sel # is) (fr, mc) =
    e_then (evalRef fo mc fr (in_Args sel ! 0)) (\<lambda>c. select_then fo sel (tail_run N fo ext own cur is) c (fr, mc))"
proof -
  have op: "op_IsLoad OSel = False" "op_IsStore OSel = False" "op_IsAlloc OSel = False" by code_simp+
  have t: "tick mc = (False, mc)" using assms(4) by (simp add: tick_def)
  have a: "instr_Arg sel k = in_Args sel ! k" if "k < 3" for k using assms(2) that by (simp add: instr_Arg_def)
  have arm: "instr_Arg sel (if b then 1 else 2) = in_Args sel ! (if b then 1 else 2)" for b using a[of 1] a[of 2] by simp
  have ev: "evalValueOp fo mc fr sel = e_then (evalRef fo mc fr (in_Args sel ! 0)) (\<lambda>cond.
      e_then (evalRef fo mc fr (in_Args sel ! (if val_u64 cond \<noteq> 0 then 1 else 2))) (\<lambda>v. Inr (asClass (in_Cls sel) v)))"
    using assms(1) a[of 0] by (simp add: evalValueOp_def is_int_binop_def arm)
  have x: "exec_step fo ext call own sel (fr, mc) = e_then (evalValueOp fo mc fr sel) (\<lambda>v.
      e_then (set_val (in_To sel) (asClass (in_Cls sel) v) fr) (\<lambda>fr'. Inr (fr', mc)))" for call
    using t assms(1,3) by (simp add: exec_step_def execInstr_def op bind_result_def)
  show ?thesis unfolding tail_run_Cons x ev select_then_def e_then_assoc fst_conv snd_conv
    by (simp add: e_then_def asClass_idem split: sum.split)
qed

lemma diamond_runs:
  assumes d: "diamond n g x sel y" and k: "drop k (b_Instrs (blk g x)) = []"
  shows "run_from N fo ext g x k (fr, mc) = e_then (evalRef fo mc fr (in_Args sel ! 0)) (\<lambda>c.
    case N of Suc (Suc m) \<Rightarrow> select_then fo sel (run_from m fo ext g y 0) c (fr, mc) | _ \<Rightarrow> Inl OutOfSteps)"
proof -
  obtain t u where d: "t \<noteq> u"
    "b_Jmp (blk g x) = jmp0\<lparr>j_Kind := JmpJnz, j_Arg := in_Args sel ! 0, j_To := Some t, j_To2 := Some u\<rparr>"
    "\<forall>a \<in> {t, u}. b_Phis (blk g a) = [] \<and> b_Instrs (blk g a) = [] \<and> b_Jmp (blk g a) = jmp0\<lparr>j_Kind := JmpJmp, j_To := Some y\<rparr>"
    "b_Phis (blk g y) = [\<lparr>p_Cls = in_Cls sel, p_To = in_To sel, p_Args = [in_Args sel ! 1, in_Args sel ! 2], p_Blocks = [Some t, Some u]\<rparr>]"
    using d unfolding diamond_def by blast
  have phis: "resolvePhis fo mc g y (Some (f_Name g, a)) fr = e_then (evalRef fo mc fr (in_Args sel ! (if a = t then 1 else 2))) (\<lambda>v.
      set_val (in_To sel) (asClass (in_Cls sel) v) fr)" if "a \<in> {t, u}" for a
    using that d(1,4) by (auto simp: resolvePhis_def stage_phi_def phi_index_def Let_def e_then_def split: sum.split)
  have arm: "run N fo ext g from (Some a) (fr, mc) = (case N of Suc (Suc m) \<Rightarrow>
      e_then (evalRef fo mc fr (in_Args sel ! (if a = t then 1 else 2))) (\<lambda>v. e_then (set_val (in_To sel) (asClass (in_Cls sel) v) fr) (\<lambda>fr'. run_from m fo ext g y 0 (fr', mc)))
      | _ \<Rightarrow> Inl OutOfSteps)" if a: "a \<in> {t, u}" for a "from" N
  proof (cases N)
    case (Suc N1)
    have "run N fo ext g from (Some a) (fr, mc) = run N1 fo ext g (Some (f_Name g, a)) (Some y) (fr, mc)"
      using d(3) a unfolding Suc by (subst run_enter) (auto simp: run_from_def e_then_def execTerminator_def jmp0_def)
    moreover have "run (Suc m) fo ext g (Some (f_Name g, a)) (Some y) (fr, mc) =
        e_then (evalRef fo mc fr (in_Args sel ! (if a = t then 1 else 2))) (\<lambda>v. e_then (set_val (in_To sel) (asClass (in_Cls sel) v) fr) (\<lambda>fr'. run_from m fo ext g y 0 (fr', mc)))" for m
      unfolding run_tail phis[OF a] e_then_assoc run_from_tail drop_0 by (rule refl)
    ultimately show ?thesis using Suc by (cases N1) simp_all
  qed simp
  have "run_from N fo ext g x k (fr, mc) = e_then (evalRef fo mc fr (in_Args sel ! 0)) (\<lambda>c.
      run N fo ext g (Some (f_Name g, x)) (Some (if val_u64 c \<noteq> 0 then t else u)) (fr, mc))"
    using k d(2) by (simp add: run_from_def e_then_def execTerminator_def jmp0_def split: sum.split)
  also have "\<dots> = e_then (evalRef fo mc fr (in_Args sel ! 0)) (\<lambda>c.
    case N of Suc (Suc m) \<Rightarrow> select_then fo sel (run_from m fo ext g y 0) c (fr, mc) | _ \<Rightarrow> Inl OutOfSteps)"
  proof (rule arg_cong[where f = "e_then _"], rule ext)
    fix c
    show "run N fo ext g (Some (f_Name g, x)) (Some (if val_u64 c \<noteq> 0 then t else u)) (fr, mc) =
      (case N of Suc (Suc m) \<Rightarrow> select_then fo sel (run_from m fo ext g y 0) c (fr, mc) | _ \<Rightarrow> Inl OutOfSteps)"
      using arm[of t N "Some (f_Name g, x)"] arm[of u N "Some (f_Name g, x)"] d(1) by (simp add: select_then_def split: nat.split)
  qed
  finally show ?thesis .
qed

section \<open>No program can tell\<close>

text \<open>
  A program \<open>T\<close>, its functions by their names, and the same with the functions named in \<open>S\<close> rewritten;
  \<open>L f\<close> gives the last block of each block of \<open>f\<close>.
\<close>

definition selected :: "(string \<Rightarrow> func option) \<Rightarrow> string set \<Rightarrow> func \<Rightarrow> func \<Rightarrow> bool" where
  "selected T S f g \<longleftrightarrow> T (f_Name f) = Some f \<and> (if f_Name f \<in> S then selects_ready f \<and> (\<exists>c. Selects f = Some (g, c)) else g = f)"

definition selected_by :: "(string \<Rightarrow> func option) \<Rightarrow> string set \<Rightarrow> (func \<Rightarrow> bptr \<Rightarrow> bptr) \<Rightarrow> func \<Rightarrow> func \<Rightarrow> bool" where
  "selected_by T S L f g \<longleftrightarrow> selected T S f g \<and> (f_Name f \<in> S \<longrightarrow> cut f g (L f))"

text \<open>Where a block was entered from, before and after.\<close>

definition sel_from :: "(string \<Rightarrow> func option) \<Rightarrow> string set \<Rightarrow> (func \<Rightarrow> bptr \<Rightarrow> bptr) \<Rightarrow> block_ref option \<Rightarrow> block_ref option \<Rightarrow> bool" where
  "sel_from T S L from from' \<longleftrightarrow> (case from of None \<Rightarrow> from' = None
     | Some (nm, p) \<Rightarrow> (case T nm of
         Some f \<Rightarrow> if nm \<in> S then p < length (f_arena f) \<and> from' = Some (nm, L f p) else from' = from
       | None \<Rightarrow> from' = from))"

definition sel_at :: "(string \<Rightarrow> func option) \<Rightarrow> string set \<Rightarrow> (func \<Rightarrow> bptr \<Rightarrow> bptr) \<Rightarrow> func \<Rightarrow> func \<Rightarrow> block_ref option \<Rightarrow> bptr option \<Rightarrow> block_ref option \<Rightarrow> bptr option \<Rightarrow> bool" where
  "sel_at T S L f g from c from' c' \<longleftrightarrow> c' = c \<and> (\<forall>b. c = Some b \<and> f_Name f \<in> S \<longrightarrow> b < length (f_arena f)) \<and> sel_from T S L from from'"

lemma selected_frame: "selected_by T S L f g \<Longrightarrow> same_frame f g"
  by (auto simp: selected_by_def selected_def cut_def split: if_split_asm)

lemma phi_index_other:
  assumes "\<forall>q \<in> set ps. map_option (Pair nm) q \<noteq> from"
  shows "phi_index nm from ps = None"
proof -
  have tw: "takeWhile (\<lambda>q. map_option (Pair nm) q \<noteq> from) ps = ps" using assms by (simp add: takeWhile_eq_all_conv)
  show ?thesis unfolding phi_index_def tw by simp
qed

lemma phi_index_retarget:
  assumes "inj_on L {..<n}" "p < n" "\<forall>q \<in> set ps. \<exists>u < n. q = Some u"
  shows "phi_index nm (Some (nm, L p)) (map (map_option L) ps) = phi_index nm (Some (nm, p)) ps"
proof -
  have "takeWhile (\<lambda>q. map_option (Pair nm) (map_option L q) \<noteq> Some (nm, L p)) ps = takeWhile (\<lambda>q. map_option (Pair nm) q \<noteq> Some (nm, p)) ps"
  proof (rule takeWhile_cong[OF refl])
    fix q assume "q \<in> set ps"
    then obtain u where "u < n" "q = Some u" using assms(3) by blast
    then show "(map_option (Pair nm) (map_option L q) \<noteq> Some (nm, L p)) = (map_option (Pair nm) q \<noteq> Some (nm, p))"
      using assms(1,2) by (auto simp: inj_on_def)
  qed
  then show ?thesis by (simp add: phi_index_def takeWhile_map comp_def)
qed

lemma selected_phis:
  assumes r: "selected_by T S L f g" and b: "f_Name f \<in> S \<Longrightarrow> b < length (f_arena f)" and fr: "sel_from T S L from from'"
  shows "phis_alike f from b g from' b"
proof (cases "f_Name f \<in> S")
  case True
  let ?n = "length (f_arena f)"
  have c: "cut f g (L f)" "selects_ready f" "T (f_Name f) = Some f" using r True by (simp_all add: selected_by_def selected_def)
  have g: "b_Name (blk g b) = b_Name (blk f b)" "b_Phis (blk g b) = map (retarget (L f)) (b_Phis (blk f b))" "f_Name g = f_Name f"
    using c(1) b[OF True] by (simp_all add: cut_def same_frame_def)
  have "phi_index (f_Name f) from' (map (map_option (L f)) (p_Blocks p)) = phi_index (f_Name f) from (p_Blocks p)" if p: "p \<in> set (b_Phis (blk f b))" for p
  proof -
    have ops: "\<forall>q \<in> set (p_Blocks p). \<exists>u < ?n. q = Some u" using c(2) b[OF True] p unfolding selects_ready_def by blast
    show ?thesis
    proof (cases "from")
      case None
      then have "from' = None" using fr by (simp add: sel_from_def)
      then show ?thesis using None ops by (subst (1 2) phi_index_other) auto
    next
      case (Some r)
      obtain nm q where q: "from = Some (nm, q)" using Some by (cases r) auto
      show ?thesis
      proof (cases "nm = f_Name f")
        case True
        then have "q < ?n" "from' = Some (f_Name f, L f q)" using fr q c(3) \<open>f_Name f \<in> S\<close> by (simp_all add: sel_from_def)
        then show ?thesis using True q phi_index_retarget[OF _ _ ops] c(1) by (simp add: cut_def)
      next
        case False
        then have "\<exists>q'. from' = Some (nm, q')" using fr q by (auto simp: sel_from_def split: option.splits if_splits)
        then show ?thesis using False q by (subst (1 2) phi_index_other) auto
      qed
    qed
  qed
  then show ?thesis using g by (auto simp: phis_alike_def list_all2_map2 retarget_def intro!: list.rel_refl_strong)
next
  case False
  then have g: "g = f" using r by (simp add: selected_by_def selected_def)
  have "phi_index (f_Name f) from' ps = phi_index (f_Name f) from ps" for ps
  proof (cases "from' = from")
    case False
    then obtain nm p p' where "from = Some (nm, p)" "from' = Some (nm, p')" "nm \<in> S"
      using fr by (auto simp: sel_from_def split: option.splits if_splits)
    moreover from this(3) have "nm \<noteq> f_Name f" using \<open>f_Name f \<notin> S\<close> by auto
    ultimately show ?thesis by (subst (1 2) phi_index_other) auto
  qed simp
  then show ?thesis by (auto simp: phis_alike_def g intro!: list.rel_refl_strong)
qed

lemma jumps_alike_self:
  assumes "P None None" "\<And>s. s \<in> set (block_Succs x) \<Longrightarrow> P s s"
  shows "jumps_alike P (b_Jmp x) (b_Jmp x)"
proof -
  have "P (j_To (b_Jmp x)) (j_To (b_Jmp x))" if "j_Kind (b_Jmp x) = JmpJmp"
    using assms that by (cases "j_To (b_Jmp x)") (auto simp: block_Succs_def)
  then show ?thesis using assms(2) by (auto simp: jumps_alike_def block_Succs_def list_all2_same split: jmpKind.split)
qed

interpretation sel: recoding "defaultExterns fo ff" "selected_by T S L" "\<lambda>n. n \<le> 0" for T S L fo ff
  by unfold_locales (simp_all add: selected_frame)

text \<open>The end of a block in both programs, and a select before it.\<close>

context recoding
begin

lemma tail_settles:
  assumes calls: "crel (callFunc_with (run n fo ext)) (\<lambda>m. callFunc_with (run m fo ext))" and own: "rel own own'"
    and jmp: "jumps_alike P (b_Jmp (blk own b)) (b_Jmp (blk own' b'))" and st: "srel st st'"
    and direct: "\<And>c c' st st'. P c c' \<Longrightarrow> srel st st' \<Longrightarrow>
      settles vrel (run n fo ext own (Some (f_Name own, b)) c st) (\<lambda>m. run m fo ext own' (Some (f_Name own', b')) c' st')"
    and indirect: "\<And>h h' c st st'. j_Kind (b_Jmp (blk own b)) = JmpBr \<Longrightarrow> rel h h' \<Longrightarrow> c < length (f_arena h) \<Longrightarrow> c < length (f_arena h') \<Longrightarrow> srel st st' \<Longrightarrow>
      settles vrel (run n fo ext h (Some (f_Name own, b)) (Some c) st) (\<lambda>m. run m fo ext h' (Some (f_Name own', b')) (Some c) st')"
  shows "settles vrel (tail_run n fo ext own b is st) (\<lambda>m. tail_run m fo ext own' b' is st')"
proof -
  have nm: "f_Name own' = f_Name own" using rel_frame[OF own] by (simp add: same_frame_def)
  show ?thesis unfolding tail_run_def
  proof (rule settles_then[OF exec_steps_settle[OF calls nm st]])
    fix u v assume uv: "srel u v"
    obtain fr mc fr' mc' where e: "u = (fr, mc)" "v = (fr', mc')" by fastforce
    have go: "settles vrel (case t of Next g c \<Rightarrow> run n fo ext g (Some (f_Name own, b)) c (fr, mc) | Return v \<Rightarrow> Inr (v, mc))
       (\<lambda>m. case t' of Next g c \<Rightarrow> run m fo ext g (Some (f_Name own', b')) c (fr', mc') | Return v \<Rightarrow> Inr (v, mc'))"
      if "transfer_rel rel P own own' (b_Jmp (blk own b)) t t'" for t t'
      by (rule transfer_settles[OF that uv[unfolded e] direct indirect, unfolded snd_conv])
    show "settles vrel
       (case u of (fr, mc) \<Rightarrow> e_then (execTerminator fo mc own fr (b_Jmp (blk own b))) (\<lambda>t. case t of Return v \<Rightarrow> Inr (v, mc)
          | Next g c \<Rightarrow> run n fo ext g (Some (f_Name own, b)) c (fr, mc)))
       (\<lambda>m. case v of (fr, mc) \<Rightarrow> e_then (execTerminator fo mc own' fr (b_Jmp (blk own' b'))) (\<lambda>t. case t of Return v \<Rightarrow> Inr (v, mc)
          | Next g c \<Rightarrow> run m fo ext g (Some (f_Name own', b')) c (fr, mc)))"
      unfolding e prod.case
      by (rule settles_then[where Q = "transfer_rel rel P own own' (b_Jmp (blk own b))"], rule settles_const,
          rule execTerminator_alike[OF uv[unfolded e] own jmp], rule go)
  qed
qed

lemma select_settles:
  assumes st: "srel (fr, mc) (fr', mc')" and k: "\<And>st st'. srel st st' \<Longrightarrow> settles vrel (k st) (\<lambda>m. l m st')"
  shows "settles vrel (e_then (evalRef fo mc fr r) (\<lambda>c. select_then fo sel k c (fr, mc)))
    (\<lambda>m. e_then (evalRef fo mc' fr' r) (\<lambda>c. select_then fo sel (l m) c (fr', mc')))"
proof -
  have ev: "evalRef fo mc' fr' x = evalRef fo mc fr x" for x using evalRef_srel[OF st] by simp
  obtain g F A B where s: "(fr', mc') = restate g (recode F A B) (fr, mc)" "rel (fr_fn fr) g" "mrel mc (recode F A B mc)"
    using srelE st by blast
  then have e: "fr' = fr\<lparr>fr_fn := g\<rparr>" "mc' = recode F A B mc" by (simp_all add: restate_def)
  have set: "rel_sum (=) (\<lambda>x y. srel (x, mc) (y, mc')) (set_val r v fr) (set_val r v fr')" for r v
  proof (cases "set_val r v fr")
    case (Inr fr1)
    have "srel (fr1, mc) (fr1\<lparr>fr_fn := g\<rparr>, recode F A B mc)" using srelI[of fr1 g mc F A B] s(2,3) set_val_fn[OF Inr] by (simp add: restate_def)
    then show ?thesis using Inr by (simp add: e set_val_recode)
  qed (simp add: e set_val_recode)
  have eq: "settles (=) x (\<lambda>_. x)" for x :: "trap + val" by (rule settles_const) (cases x, auto)
  show ?thesis unfolding ev select_then_def fst_conv snd_conv
  proof (rule settles_then[OF eq], simp only:, rule settles_then[OF eq], simp only:)
    fix a b :: val
    show "settles vrel (e_then (set_val (in_To sel) (asClass (in_Cls sel) b) fr) (\<lambda>fr. k (fr, mc)))
      (\<lambda>m. e_then (set_val (in_To sel) (asClass (in_Cls sel) b) fr') (\<lambda>fr. l m (fr, mc')))"
      by (rule settles_then[OF settles_const[OF set]]) (rule k)
  qed
qed

end

text \<open>A block and its pieces, both ways.\<close>

lemma selected_jumps:
  assumes r: "selected_by T S L f g" and f: "f_Name f \<in> S" and b: "b < length (f_arena f)"
  shows "b_Jmp (blk g (L f b)) = b_Jmp (blk f b)" "sel_from T S L (Some (f_Name f, b)) (Some (f_Name g, L f b))"
    "jumps_alike (\<lambda>c c'. sel_at T S L f g (Some (f_Name f, b)) c (Some (f_Name g, L f b)) c') (b_Jmp (blk f b)) (b_Jmp (blk g (L f b)))"
proof -
  have c: "cut f g (L f)" "selects_ready f" "T (f_Name f) = Some f" using r f by (simp_all add: selected_by_def selected_def)
  have "piece (length (f_arena f)) g (b_Jmp (blk f b)) b (b_Instrs (blk f b)) (L f b)" using c(1) b by (simp add: cut_def)
  then show j: "b_Jmp (blk g (L f b)) = b_Jmp (blk f b)" using piece_end by blast
  have "f_Name g = f_Name f" using selected_frame[OF r] by (simp add: same_frame_def)
  then show fr: "sel_from T S L (Some (f_Name f, b)) (Some (f_Name g, L f b))" using c(3) f b by (simp add: sel_from_def)
  have "\<forall>s \<in> set (block_Succs (blk f b)). \<exists>q. s = Some q \<and> q < length (f_arena f)" using c(2) b by (simp add: selects_ready_def)
  then show "jumps_alike (\<lambda>c c'. sel_at T S L f g (Some (f_Name f, b)) c (Some (f_Name g, L f b)) c') (b_Jmp (blk f b)) (b_Jmp (blk g (L f b)))"
    unfolding j by (intro jumps_alike_self) (use fr in \<open>auto simp: sel_at_def\<close>)
qed

lemma sel_at_indirect:
  "sel_from T S L from from' \<Longrightarrow> c < length (f_arena h) \<Longrightarrow> sel_at T S L h h' from (Some c) from' (Some c)"
  by (simp add: sel_at_def)

definition sels_ok :: "instr list \<Rightarrow> bool" where
  "sels_ok is \<longleftrightarrow> (\<forall>i \<in> set is. in_Op i = OSel \<longrightarrow> 3 \<le> length (in_Args i) \<and> \<not> ref_IsNone (in_To i))"

lemma piece_forward:
  fixes T S L fo ff n
  defines "rel \<equiv> selected_by T S L" and "ext \<equiv> defaultExterns fo ff"
  assumes p: "piece n0 g (b_Jmp (blk f b)) x is e" and e: "e = L f b" and ok: "sels_ok is"
    and r: "rel f g" and f: "f_Name f \<in> S" and b: "b < length (f_arena f)"
    and calls: "calls_rel rel (\<lambda>n. n \<le> 0) (callFunc_with (run n fo ext)) (\<lambda>m. callFunc_with (run m fo ext))"
    and IH: "\<And>h h' from c from' c' st st'. rel h h' \<Longrightarrow> sel_at T S L h h' from c from' c' \<Longrightarrow> state_rel rel (\<lambda>n. n \<le> 0) st st' \<Longrightarrow>
        settles (rel_prod (=) (machine_rel rel (\<lambda>n. n \<le> 0))) (run n fo ext h from c st) (\<lambda>m. run m fo ext h' from' c' st')"
    and st: "state_rel rel (\<lambda>n. n \<le> 0) st st'"
  shows "settles (rel_prod (=) (machine_rel rel (\<lambda>n. n \<le> 0))) (tail_run n fo ext f b is st) (\<lambda>m. run_from m fo ext g x 0 st')"
  using p e ok st
proof (induction arbitrary: st st' rule: piece.induct)
  case (piece_whole x "is")
  note J = selected_jumps[OF r[unfolded rel_def] f b]
  have ins: "b_Instrs (blk g (L f b)) = is" using piece_whole.hyps(1) piece_whole.prems(1) by simp
  show ?case unfolding run_from_tail drop_0 piece_whole.prems(1) ins ext_def rel_def
  proof (rule sel.tail_settles[OF calls[unfolded rel_def ext_def] r[unfolded rel_def] J(3) piece_whole.prems(3)[unfolded rel_def]], goal_cases)
    case (1 c c' st st')
    then show ?case using IH[OF r] by (simp add: rel_def ext_def)
  next
    case (2 h h' c st st')
    then show ?case using IH[OF _ sel_at_indirect[OF J(2)]] by (simp add: rel_def ext_def)
  qed
next
  case (piece_split x is1 sel y is2 e)
  have nm: "f_Name g = f_Name f" using selected_frame[OF r[unfolded rel_def]] by (simp add: same_frame_def)
  have ok2: "3 \<le> length (in_Args sel)" "\<not> ref_IsNone (in_To sel)" "sels_ok is2" using piece_split.prems(2) piece_split.hyps(3) by (simp_all add: sels_ok_def)
  have calls2: "calls_rel rel (\<lambda>n. n \<le> 0) (callFunc_with (run n fo ext)) (\<lambda>m. callFunc_with (run (m + 2) fo ext))"
    using calls settles_later[where k = 2] unfolding calls_rel_def by blast
  have run2: "run_from (m + 2) fo ext g x 0 st' = e_then (e_fold (exec_step fo ext (callFunc_with (run (m + 2) fo ext)) g) is1 st') (run_from (m + 2) fo ext g x (length is1))" for m
    using tail_run_append[of "m + 2" fo ext g x is1 "[]" st'] piece_split.hyps(1) by (simp add: run_from_tail[abs_def])
  show ?case
  proof (rule settles_shift[where k = 2], unfold run2 tail_run_append, rule settles_then)
    show "settles (state_rel rel (\<lambda>n. n \<le> 0)) (e_fold (exec_step fo ext (callFunc_with (run n fo ext)) f) is1 st)
        (\<lambda>m. e_fold (exec_step fo ext (callFunc_with (run (m + 2) fo ext)) g) is1 st')"
      using sel.exec_steps_settle[OF calls2[unfolded rel_def ext_def] nm piece_split.prems(3)[unfolded rel_def]] by (simp add: rel_def ext_def)
    fix u v assume uv: "state_rel rel (\<lambda>n. n \<le> 0) u v"
    obtain fr mc fr' mc' where uv': "u = (fr, mc)" "v = (fr', mc')" by fastforce
    have fuel: "mc_fuel mc \<le> 0" using uv by (simp add: uv' state_rel_def machine_rel_def)
    have dr: "run_from (m + 2) fo ext g x (length is1) (fr', mc') = e_then (evalRef fo mc' fr' (in_Args sel ! 0)) (\<lambda>c. select_then fo sel (run_from m fo ext g y 0) c (fr', mc'))" for m
      using diamond_runs[OF piece_split.hyps(4), of "length is1" "m + 2" fo ext fr' mc'] piece_split.hyps(1) by simp
    show "settles (rel_prod (=) (machine_rel rel (\<lambda>n. n \<le> 0))) (tail_run n fo ext f b (sel # is2) u) (\<lambda>m. run_from (m + 2) fo ext g x (length is1) v)"
      unfolding uv' dr tail_run_select[OF piece_split.hyps(3) ok2(1,2) fuel] rel_def
      by (rule sel.select_settles[OF uv[unfolded uv' rel_def]]) (use piece_split.IH[OF piece_split.prems(1) ok2(3)] in \<open>simp add: rel_def\<close>)
  qed
qed

lemma calls_rel_le:
  "calls_rel rel F (callFunc_with (run n fo ext)) p \<Longrightarrow> N \<le> n \<Longrightarrow> calls_rel rel F (callFunc_with (run N fo ext)) p"
proof -
  assume c: "calls_rel rel F (callFunc_with (run n fo ext)) p" and N: "N \<le> n"
  have "le_call (callFunc_with (run N fo ext)) (callFunc_with (run n fo ext))" by (intro le_callFunc_with le_run N)
  then show ?thesis using c settles_le unfolding calls_rel_def le_call_def by metis
qed

interpretation les: recoding "defaultExterns fo ff" "(selected_by T S L)\<inverse>\<inverse>" "\<lambda>n. n \<le> 0" for T S L fo ff
  by unfold_locales (simp_all add: selected_frame same_frame_sym)

lemma piece_backward:
  fixes T S L fo ff n
  defines "rel \<equiv> (selected_by T S L)\<inverse>\<inverse>" and "ext \<equiv> defaultExterns fo ff"
  assumes p: "piece n0 g (b_Jmp (blk f b)) x is e" and e: "e = L f b" and ok: "sels_ok is"
    and r: "selected_by T S L f g" and f: "f_Name f \<in> S" and b: "b < length (f_arena f)"
    and calls: "calls_rel rel (\<lambda>n. n \<le> 0) (callFunc_with (run n fo ext)) (\<lambda>m. callFunc_with (run m fo ext))"
    and IH: "\<And>h h' from c from' c' st st'. rel h' h \<Longrightarrow> sel_at T S L h h' from c from' c' \<Longrightarrow> state_rel rel (\<lambda>n. n \<le> 0) st' st \<Longrightarrow>
        settles (rel_prod (=) (machine_rel rel (\<lambda>n. n \<le> 0))) (run n fo ext h' from' c' st') (\<lambda>m. run m fo ext h from c st)"
    and st: "state_rel rel (\<lambda>n. n \<le> 0) st' st" and N: "N \<le> n"
  shows "settles (rel_prod (=) (machine_rel rel (\<lambda>n. n \<le> 0))) (run_from N fo ext g x 0 st') (\<lambda>m. tail_run m fo ext f b is st)"
  using p e ok st N
proof (induction arbitrary: st st' N rule: piece.induct)
  case (piece_whole x "is")
  note J = selected_jumps[OF r f b] and callsN = calls_rel_le[OF calls piece_whole.prems(4)]
  have ins: "b_Instrs (blk g (L f b)) = is" using piece_whole.hyps(1) piece_whole.prems(1) by simp
  have IHN: "settles (rel_prod (=) (machine_rel rel (\<lambda>n. n \<le> 0))) (run N fo ext h' from' c' st') (\<lambda>m. run m fo ext h from c st)"
    if "rel h' h" "sel_at T S L h h' from c from' c'" "state_rel rel (\<lambda>n. n \<le> 0) st' st" for h h' "from" c from' c' st st'
    by (rule settles_le[OF le_run[OF piece_whole.prems(4)] IH[OF that]])
  have jm: "jumps_alike (\<lambda>c' c. sel_at T S L f g (Some (f_Name f, b)) c (Some (f_Name g, L f b)) c') (b_Jmp (blk g (L f b))) (b_Jmp (blk f b))"
    by (rule jumps_alike_converse[OF J(3)])
  have rr: "rel g f" using r by (simp add: rel_def)
  show ?case unfolding run_from_tail drop_0 piece_whole.prems(1) ins ext_def rel_def
  proof (rule les.tail_settles[OF callsN[unfolded rel_def ext_def] rr[unfolded rel_def] jm piece_whole.prems(3)[unfolded rel_def]], goal_cases)
    case (1 c c' st st')
    then show ?case using IHN[OF rr] by (simp add: rel_def ext_def)
  next
    case (2 h h' c st st')
    then show ?case using IHN[OF _ sel_at_indirect[OF J(2)]] by (simp add: rel_def ext_def)
  qed
next
  case (piece_split x is1 sel y is2 e)
  have nm: "f_Name f = f_Name g" using selected_frame[OF r] by (simp add: same_frame_def)
  have ok2: "3 \<le> length (in_Args sel)" "\<not> ref_IsNone (in_To sel)" "sels_ok is2" using piece_split.prems(2) piece_split.hyps(3) by (simp_all add: sels_ok_def)
  note callsN = calls_rel_le[OF calls piece_split.prems(4)]
  have runN: "run_from N fo ext g x 0 st' = e_then (e_fold (exec_step fo ext (callFunc_with (run N fo ext)) g) is1 st') (run_from N fo ext g x (length is1))"
    using tail_run_append[of N fo ext g x is1 "[]" st'] piece_split.hyps(1) by (simp add: run_from_tail[abs_def])
  show ?case
  proof (unfold runN tail_run_append, rule settles_then)
    show "settles (state_rel rel (\<lambda>n. n \<le> 0)) (e_fold (exec_step fo ext (callFunc_with (run N fo ext)) g) is1 st')
        (\<lambda>m. e_fold (exec_step fo ext (callFunc_with (run m fo ext)) f) is1 st)"
      using les.exec_steps_settle[OF callsN[unfolded rel_def ext_def] nm piece_split.prems(3)[unfolded rel_def]] by (simp add: rel_def ext_def)
    fix v u assume uv: "state_rel rel (\<lambda>n. n \<le> 0) v u"
    obtain fr mc fr' mc' where uv': "u = (fr, mc)" "v = (fr', mc')" by fastforce
    have fuel: "mc_fuel mc \<le> 0" using uv by (auto simp: uv' state_rel_def machine_rel_def)
    have drop: "drop (length is1) (b_Instrs (blk g x)) = []" using piece_split.hyps(1) by simp
    have trap: "settles (rel_prod (=) (machine_rel rel (\<lambda>n. n \<le> 0))) (e_then (evalRef fo mc' fr' (in_Args sel ! 0)) (\<lambda>c. Inl OutOfSteps)) p'" if "p' = (\<lambda>m. e_then (evalRef fo mc fr (in_Args sel ! 0)) (k m))" for p' k
      unfolding that using les.evalRef_srel[OF uv[unfolded rel_def]] by (cases "evalRef fo mc' fr' (in_Args sel ! 0)") (simp_all add: uv' e_then_def)
    show "settles (rel_prod (=) (machine_rel rel (\<lambda>n. n \<le> 0))) (run_from N fo ext g x (length is1) v) (\<lambda>m. tail_run m fo ext f b (sel # is2) u)"
      unfolding uv' diamond_runs[OF piece_split.hyps(4) drop] tail_run_select[OF piece_split.hyps(3) ok2(1,2) fuel]
    proof (cases N rule: nat.exhaust)
      case zero
      then show "settles (rel_prod (=) (machine_rel rel (\<lambda>n. n \<le> 0))) (e_then (evalRef fo mc' fr' (in_Args sel ! 0)) (\<lambda>c.
         case N of Suc (Suc m) \<Rightarrow> select_then fo sel (run_from m fo ext g y 0) c (fr', mc') | _ \<Rightarrow> Inl OutOfSteps))
         (\<lambda>m. e_then (evalRef fo mc fr (in_Args sel ! 0)) (\<lambda>c. select_then fo sel (tail_run m fo ext f b is2) c (fr, mc)))"
        by (simp add: trap)
    next
      case (Suc N1)
      show "settles (rel_prod (=) (machine_rel rel (\<lambda>n. n \<le> 0))) (e_then (evalRef fo mc' fr' (in_Args sel ! 0)) (\<lambda>c.
         case N of Suc (Suc m) \<Rightarrow> select_then fo sel (run_from m fo ext g y 0) c (fr', mc') | _ \<Rightarrow> Inl OutOfSteps))
         (\<lambda>m. e_then (evalRef fo mc fr (in_Args sel ! 0)) (\<lambda>c. select_then fo sel (tail_run m fo ext f b is2) c (fr, mc)))"
      proof (cases N1)
        case 0
        then show ?thesis by (simp add: Suc trap)
      next
        case (Suc M)
        have "M \<le> n" using piece_split.prems(4) Suc \<open>N = Suc N1\<close> by simp
        then show ?thesis unfolding \<open>N = Suc N1\<close> Suc nat.case rel_def
          by - (rule les.select_settles[OF uv[unfolded uv' rel_def]], rule piece_split.IH[OF piece_split.prems(1) ok2(3), unfolded rel_def], assumption, rule \<open>M \<le> n\<close>)
      qed
    qed
  qed
qed

lemma selected_entry: "selected_by T S L f g \<Longrightarrow> sel_at T S L f g None (f_Start f) None (f_Start g)"
  by (auto simp: sel_at_def sel_from_def selected_by_def selected_def cut_def selects_ready_def split: if_split_asm)

text \<open>The block entered, when its function was left alone and when it was rewritten.\<close>

lemma unselected_jumps:
  assumes "selected_by T S L f f" "f_Name f \<notin> S"
  shows "sel_from T S L (Some (f_Name f, b)) (Some (f_Name f, b))"
    "jumps_alike (\<lambda>c c'. sel_at T S L f f (Some (f_Name f, b)) c (Some (f_Name f, b)) c') (b_Jmp (blk f b)) (b_Jmp (blk f b))"
proof -
  show fr: "sel_from T S L (Some (f_Name f, b)) (Some (f_Name f, b))" using assms by (simp add: sel_from_def selected_by_def selected_def)
  show "jumps_alike (\<lambda>c c'. sel_at T S L f f (Some (f_Name f, b)) c (Some (f_Name f, b)) c') (b_Jmp (blk f b)) (b_Jmp (blk f b))"
    by (intro jumps_alike_self) (use fr assms(2) in \<open>simp_all add: sel_at_def\<close>)
qed

lemma selected_pieces:
  assumes "selected_by T S L f g" "f_Name f \<in> S" "b < length (f_arena f)"
  shows "piece (length (f_arena f)) g (b_Jmp (blk f b)) b (b_Instrs (blk f b)) (L f b)" "sels_ok (b_Instrs (blk f b))"
  using assms by (simp_all add: selected_by_def selected_def cut_def selects_ready_def sels_ok_def)

interpretation sfwd: simulation "defaultExterns fo ff" "selected_by T S L" "\<lambda>n. n \<le> 0" fo "sel_at T S L" for T S L fo ff
proof
  show "selected_by T S L f g \<Longrightarrow> sel_at T S L f g None (f_Start f) None (f_Start g)" for f g by (rule selected_entry)
next
  fix f g "from" c from' c' st st' n
  let ?X = "defaultExterns fo ff" and ?F = "\<lambda>n::int. n \<le> 0"
  let ?R = "selected_by T S L" and ?V = "rel_prod (=) (machine_rel (selected_by T S L) (\<lambda>n. n \<le> 0)) :: val \<times> machine \<Rightarrow> _"
  assume r: "?R f g" and at: "sel_at T S L f g from c from' c'" and st: "state_rel ?R ?F st st'"
    and calls: "calls_rel ?R ?F (callFunc_with (run n fo ?X)) (\<lambda>m. callFunc_with (run m fo ?X))"
    and IH: "\<And>h h' from c from' c' st st'. ?R h h' \<Longrightarrow> sel_at T S L h h' from c from' c' \<Longrightarrow> state_rel ?R ?F st st' \<Longrightarrow>
      settles ?V (run n fo ?X h from c st) (\<lambda>m. run m fo ?X h' from' c' st')"
  have c': "c' = c" and fr: "sel_from T S L from from'" using at by (simp_all add: sel_at_def)
  show "settles ?V (run (Suc n) fo ?X f from c st) (\<lambda>m. run m fo ?X g from' c' st')"
  proof (cases c)
    case None
    then show ?thesis unfolding c' by - (rule settles_Suc, simp)
  next
    case (Some b)
    have inr: "f_Name f \<in> S \<Longrightarrow> b < length (f_arena f)" using at Some by (simp add: sel_at_def)
    have ph: "phis_alike f from b g from' b" by (rule selected_phis[OF r _ fr]) (rule inr)
    show ?thesis
    proof (cases "f_Name f \<in> S")
      case True
      note P = selected_pieces[OF r True inr[OF True]]
      obtain f1 mc f1' mc' where s: "st = (f1, mc)" "st' = (f1', mc')" by fastforce
      have g0: "tail_run m fo ?X g b (b_Instrs (blk g b)) = run_from m fo ?X g b 0" for m by (rule ext) (simp add: run_from_tail)
      show ?thesis unfolding c' Some s
      proof (rule settles_Suc, unfold run_tail g0, rule settles_then[OF settles_const[OF sel.resolvePhis_srel[OF ph st[unfolded s]]]])
        fix x y assume xy: "state_rel ?R ?F (x, mc) (y, mc')"
        show "settles ?V (tail_run n fo ?X f b (b_Instrs (blk f b)) (x, mc)) (\<lambda>m. run_from m fo ?X g b 0 (y, mc'))"
          by (rule piece_forward[OF P(1) refl P(2) r True inr[OF True] calls IH xy])
      qed
    next
      case False
      have g: "g = f" using r False by (simp add: selected_by_def selected_def)
      note U = unselected_jumps[OF r[unfolded g] False]
      show ?thesis unfolding c' Some g
      proof (rule sel.run_block_settles[OF calls r[unfolded g] ph[unfolded g] refl U(2) st], goal_cases)
        case (1 c c' st st')
        then show ?case using IH[OF r[unfolded g]] by blast
      next
        case (2 h h' c st st')
        then show ?case using IH[OF _ sel_at_indirect[OF U(1)]] by blast
      qed
    qed
  qed
qed

interpretation sbwd: simulation "defaultExterns fo ff" "(selected_by T S L)\<inverse>\<inverse>" "\<lambda>n. n \<le> 0" fo "\<lambda>g f from' c' from c. sel_at T S L f g from c from' c'" for T S L fo ff
proof
  show "(selected_by T S L)\<inverse>\<inverse> g f \<Longrightarrow> sel_at T S L f g None (f_Start f) None (f_Start g)" for f g by (simp add: selected_entry)
next
  fix g f from' c' "from" c st' st n
  let ?X = "defaultExterns fo ff" and ?F = "\<lambda>n::int. n \<le> 0"
  let ?R = "(selected_by T S L)\<inverse>\<inverse>" and ?V = "rel_prod (=) (machine_rel (selected_by T S L)\<inverse>\<inverse> (\<lambda>n. n \<le> 0)) :: val \<times> machine \<Rightarrow> _"
  assume r': "?R g f" and at: "sel_at T S L f g from c from' c'" and st: "state_rel ?R ?F st' st"
    and calls: "calls_rel ?R ?F (callFunc_with (run n fo ?X)) (\<lambda>m. callFunc_with (run m fo ?X))"
    and IH: "\<And>h' h from' c' from c st' st. ?R h' h \<Longrightarrow> sel_at T S L h h' from c from' c' \<Longrightarrow> state_rel ?R ?F st' st \<Longrightarrow>
      settles ?V (run n fo ?X h' from' c' st') (\<lambda>m. run m fo ?X h from c st)"
  have r: "selected_by T S L f g" using r' by simp
  have c': "c' = c" and fr: "sel_from T S L from from'" using at by (simp_all add: sel_at_def)
  show "settles ?V (run (Suc n) fo ?X g from' c' st') (\<lambda>m. run m fo ?X f from c st)"
  proof (cases c)
    case None
    then show ?thesis unfolding c' by - (rule settles_Suc, simp)
  next
    case (Some b)
    have inr: "f_Name f \<in> S \<Longrightarrow> b < length (f_arena f)" using at Some by (simp add: sel_at_def)
    have ph: "phis_alike g from' b f from b" using selected_phis[OF r inr fr] by (auto simp: phis_alike_def list_all2_conv_all_nth)
    show ?thesis
    proof (cases "f_Name f \<in> S")
      case True
      note P = selected_pieces[OF r True inr[OF True]]
      obtain f1 mc f1' mc' where s: "st = (f1, mc)" "st' = (f1', mc')" by fastforce
      have g0: "tail_run m fo ?X g b (b_Instrs (blk g b)) = run_from m fo ?X g b 0" for m by (rule ext) (simp add: run_from_tail)
      show ?thesis unfolding c' Some s
      proof (rule settles_Suc, unfold run_tail g0, rule settles_then[OF settles_const[OF les.resolvePhis_srel[OF ph st[unfolded s]]]])
        fix y x assume xy: "state_rel ?R ?F (y, mc') (x, mc)"
        show "settles ?V (run_from n fo ?X g b 0 (y, mc')) (\<lambda>m. tail_run m fo ?X f b (b_Instrs (blk f b)) (x, mc))"
          by (rule piece_backward[OF P(1) refl P(2) r True inr[OF True] calls IH xy order_refl])
      qed
    next
      case False
      have g: "g = f" using r False by (simp add: selected_by_def selected_def)
      note U = unselected_jumps[OF r[unfolded g] False]
      show ?thesis unfolding c' Some g
      proof (rule les.run_block_settles[OF calls r'[unfolded g] ph[unfolded g] refl jumps_alike_converse[OF U(2)] st], goal_cases)
        case (1 c c' st st')
        then show ?case using IH[OF r'[unfolded g]] by blast
      next
        case (2 h h' c st st')
        then show ?case using IH[OF _ sel_at_indirect[OF U(1)]] by blast
      qed
    qed
  qed
qed

text \<open>The relation of machines does not depend on how the blocks were cut.\<close>

lemma machine_rel_mono:
  assumes "machine_rel rel1 F mc mc'" "\<And>f g. rel1 f g \<Longrightarrow> rel2 f g" "\<And>n. F n \<Longrightarrow> F' n"
  shows "machine_rel rel2 F' mc mc'"
proof -
  have "rel_option rel1 x y \<Longrightarrow> rel_option rel2 x y" for x y by (rule option.rel_mono_strong[of rel1]) (auto intro: assms(2))
  moreover have "rel_option (blockref_rel rel1) x y \<Longrightarrow> rel_option (blockref_rel rel2) x y" for x y
    by (rule option.rel_mono_strong[of "blockref_rel rel1"]) (auto simp: blockref_rel_def intro: assms(2))
  ultimately show ?thesis using assms(1,3) by (auto simp: machine_rel_def codes_rel_def)
qed

lemma selected_by_some: "\<exists>L. selected T S = selected_by T S L"
proof -
  have "\<exists>L. \<forall>g. selected T S f g \<longrightarrow> f_Name f \<in> S \<longrightarrow> cut f g L" for f
  proof (cases "selects_ready f")
    case True
    then obtain g c L where "Selects f = Some (g, c)" "cut f g L" using Selects_cut by blast
    then show ?thesis by (intro exI[of _ L]) (simp add: selected_def)
  next
    case False
    then show ?thesis by (simp add: selected_def)
  qed
  then have "\<exists>L. \<forall>f g. selected T S f g \<longrightarrow> f_Name f \<in> S \<longrightarrow> cut f g (L f)" by (intro choice allI) blast
  then obtain L where "\<And>f g. selected T S f g \<Longrightarrow> f_Name f \<in> S \<Longrightarrow> cut f g (L f)" by blast
  then have "selected T S = selected_by T S L" unfolding selected_by_def by (intro ext) blast
  then show ?thesis by blast
qed

lemma same_result_weaken:
  assumes "rel_sum (=) (rel_prod (=) (machine_rel rel1 F)) x y"
  shows "same_result rel1 x y"
proof -
  have "machine_rel rel1 (\<lambda>_. True) a b" if "machine_rel rel1 F a b" for a b by (rule machine_rel_mono[OF that]) simp_all
  then show ?thesis using assms unfolding same_result_def by (cases x; cases y) auto
qed

text \<open>
  C19: Replacing selects is invisible to a program without a fuel budget.  Let one machine hold the program \<open>T\<close>, and
  another the same program where \<open>Selects\<close> was run on the functions named in \<open>S\<close>.  A call that returns or
  traps in one of the two within some allowance of block entries does so in the other, in every
  large enough allowance, with the same value or the same trap, the same memory and the same output.
\<close>

theorem Selects_preserves_programs:
  assumes "machine_rel (selected T S) (\<lambda>n. n \<le> 0) mc mc'"
  shows "(Call n fo (defaultExterns fo ff) name args mc \<noteq> Inl OutOfSteps \<longrightarrow>
      (\<exists>m0. \<forall>m \<ge> m0. same_result (selected T S) (Call n fo (defaultExterns fo ff) name args mc) (Call m fo (defaultExterns fo ff) name args mc'))) \<and>
    (Call n fo (defaultExterns fo ff) name args mc' \<noteq> Inl OutOfSteps \<longrightarrow>
      (\<exists>m0. \<forall>m \<ge> m0. same_result (selected T S) (Call m fo (defaultExterns fo ff) name args mc) (Call n fo (defaultExterns fo ff) name args mc')))"
proof
  obtain L where L: "selected T S = selected_by T S L" using selected_by_some by blast
  let ?C = "\<lambda>n mc. Call n fo (defaultExterns fo ff) name args mc"
  have "settles (rel_prod (=) (machine_rel (selected T S) (\<lambda>n. n \<le> 0))) (?C n mc) (\<lambda>m. ?C m mc')"
    using sfwd.Call_settles[OF assms[unfolded L], of n fo ff name args] unfolding L .
  then show "?C n mc \<noteq> Inl OutOfSteps \<longrightarrow> (\<exists>m0. \<forall>m \<ge> m0. same_result (selected T S) (?C n mc) (?C m mc'))"
    using same_result_weaken unfolding settles_def by metis
  have "settles (rel_prod (=) (machine_rel (selected T S)\<inverse>\<inverse> (\<lambda>n. n \<le> 0))) (?C n mc') (\<lambda>m. ?C m mc)"
    using sbwd.Call_settles[OF machine_rel_converse[OF assms[unfolded L]], of n fo ff name args] unfolding L .
  then show "?C n mc' \<noteq> Inl OutOfSteps \<longrightarrow> (\<exists>m0. \<forall>m \<ge> m0. same_result (selected T S) (?C m mc) (?C n mc'))"
    using same_result_weaken[of "(selected T S)\<inverse>\<inverse>"] same_result_converse[of "selected T S"] unfolding settles_def by metis
qed

text \<open>
  C20: \<open>Selects\<close> returns and leaves no select in a block it lists; the blocks listed before are
  listed first, and the flag tells whether there was a select.  Every block is cut into pieces that end in a
  block of its own, with its instructions in order, a diamond for each select, and its terminator; the phis have
  the operands they had, under the names of the last pieces.
\<close>

theorem Selects_cuts:
  assumes "selects_ready f"
  shows "\<exists>g c L. Selects f = Some (g, c) \<and> (\<forall>b \<in> set (f_Blocks g). \<forall>i \<in> set (b_Instrs (blk g b)). in_Op i \<noteq> OSel) \<and>
    prefix (f_Blocks f) (f_Blocks g) \<and> (c \<longleftrightarrow> (\<exists>b \<in> set (f_Blocks f). \<exists>i \<in> set (b_Instrs (blk f b)). in_Op i = OSel)) \<and> (c \<or> g = f) \<and>
    (\<forall>b < length (f_arena f). b_Phis (blk g b) = map (retarget L) (b_Phis (blk f b)) \<and>
       piece (length (f_arena f)) g (b_Jmp (blk f b)) b (b_Instrs (blk f b)) (L b)) \<and> inj_on L {..<length (f_arena f)}"
proof -
  obtain g c L where g: "Selects f = Some (g, c)" "cut f g L" "\<forall>p \<in> set (f_Blocks g). sel_index (b_Instrs (blk g p)) = None"
    "c \<longleftrightarrow> (\<exists>p \<in> set (f_Blocks f). sel_index (b_Instrs (blk f p)) \<noteq> None)" "prefix (f_Blocks f) (f_Blocks g)" "c \<or> g = f"
    using Selects_cut[OF assms] by blast
  from g(2) have "\<forall>b < length (f_arena f). b_Phis (blk g b) = map (retarget L) (b_Phis (blk f b)) \<and>
       piece (length (f_arena f)) g (b_Jmp (blk f b)) b (b_Instrs (blk f b)) (L b)" "inj_on L {..<length (f_arena f)}"
    by (simp_all add: cut_def)
  with g(1,3-6) show ?thesis unfolding sel_index_None by (intro exI[of _ g] exI[of _ c] exI[of _ L]) auto
qed

text \<open>An instance: a function that selects one of two constants.\<close>

definition sel_fn :: func where
  "sel_fn = (snd (newTemp ''r'' ClsW func0))\<lparr>f_Name := ''pick'', f_HasRet := True, f_Retty := ClsW, f_Start := Some 0, f_Blocks := [0],
     f_Consts := map (\<lambda>k. const0\<lparr>c_Cls := ClsW, c_Int := k\<rparr>) [1, 7, 9], f_arena := [
     block0\<lparr>b_Instrs := [instr0\<lparr>in_Op := OSel, in_Cls := ClsW, in_To := tempRef 0, in_Args := [constRef 0, constRef 1, constRef 2]\<rparr>],
       b_Jmp := jmp0\<lparr>j_Kind := JmpRet, j_Arg := tempRef 0\<rparr>\<rparr>]\<rparr>"

lemma sel_fn_simps: "f_Name sel_fn = ''pick''" "f_Start sel_fn = Some 0" "f_Blocks sel_fn = [0]" "length (f_arena sel_fn) = 1"
  "blk sel_fn 0 = block0\<lparr>b_Instrs := [instr0\<lparr>in_Op := OSel, in_Cls := ClsW, in_To := tempRef 0, in_Args := [constRef 0, constRef 1, constRef 2]\<rparr>],
       b_Jmp := jmp0\<lparr>j_Kind := JmpRet, j_Arg := tempRef 0\<rparr>\<rparr>"
  by (simp_all add: sel_fn_def blk_def newTemp_def)

lemma sel_fn_ready: "selects_ready sel_fn"
  by (simp add: selects_ready_def sel_fn_simps block_Succs_def block0_def ref_IsNone_def tempRef_def)

theorem Selects_cuts_witness:
  "\<exists>g. Selects sel_fn = Some (g, True) \<and> (\<forall>i \<in> set (b_Instrs (blk g 0)). in_Op i \<noteq> OSel)"
proof -
  obtain g c where g: "Selects sel_fn = Some (g, c)" "\<forall>b \<in> set (f_Blocks g). \<forall>i \<in> set (b_Instrs (blk g b)). in_Op i \<noteq> OSel"
    "prefix (f_Blocks sel_fn) (f_Blocks g)" "c \<longleftrightarrow> (\<exists>b \<in> set (f_Blocks sel_fn). \<exists>i \<in> set (b_Instrs (blk sel_fn b)). in_Op i = OSel)"
    using Selects_cuts[OF sel_fn_ready] by blast
  have "Selects sel_fn = Some (g, True)" using g(1,4) by (simp add: sel_fn_simps)
  moreover have "0 \<in> set (f_Blocks g)" using g(3) by (auto simp: sel_fn_simps prefix_def)
  ultimately show ?thesis using g(2) by blast
qed

lemma sel_call: "Call 1 fo ext ''pick'' [] (machine_of sel_fn 0) = Inr (intVal ClsW 7, machine_of sel_fn 0)"
proof -
  have op: "op_IsLoad OSel = False" "op_IsStore OSel = False" "op_IsAlloc OSel = False" by code_simp+
  have c: "asClass ClsW (intVal ClsW 7) = intVal ClsW 7" by (rule asClass_same) (simp add: normCls_def)
  have v: "val_u64 (intVal ClsW 1) = 1" "asClass ClsW (asClass ClsW (intVal ClsW 7)) = intVal ClsW 7" by (code_simp, simp add: c)
  show ?thesis
    by (simp add: Call_def callFunc_def callFunc_with_def bind_params_def exec_block_def resolvePhis_def Let_def sel_fn_def newTemp_def machine_of_def func0_def
      blk_def block0_def jmp0_def execTerminator_def e_then_def ref_IsNone_def exec_step_def tick_def execInstr_def op evalValueOp_def is_int_binop_def
      instr0_def instr_Arg_def evalRef_def evalConst_def constRef_def tempRef_def const0_def bind_result_def set_val_def v c)
qed

theorem Selects_preserves_programs_witness:
  "\<forall>fo ff. \<exists>g m mc'. Selects sel_fn = Some (g, True) \<and> Call m fo (defaultExterns fo ff) ''pick'' [] (machine_of g 0) = Inr (intVal ClsW 7, mc') \<and>
     mc_mem mc' = newMemory \<and> mc_stdout mc' = []"
proof (intro allI)
  fix fo ff
  let ?f = "sel_fn" and ?T = "[''pick'' \<mapsto> sel_fn]" and ?S = "{''pick''}"
  obtain g c L where g: "Selects ?f = Some (g, c)" "cut ?f g L" "c \<longleftrightarrow> (\<exists>p \<in> set (f_Blocks ?f). sel_index (b_Instrs (blk ?f p)) \<noteq> None)"
    using Selects_cut[OF sel_fn_ready] by blast
  have c: "Selects ?f = Some (g, True)" using g(1,3) by (simp add: sel_fn_simps sel_index_None)
  have n: "f_Name g = f_Name ?f" using g(2) by (simp add: cut_def same_frame_def)
  have t: "selected ?T ?S ?f g" using g(1) sel_fn_ready by (simp add: selected_def sel_fn_simps(1))
  have "machine_of g 0 = recode [f_Name ?f \<mapsto> g] Map.empty Map.empty (machine_of ?f 0)" by (simp add: machine_of_def recode_def n)
  moreover have "codes_rel (selected ?T ?S) (machine_of ?f 0) (machine_of g 0)" using t by (simp add: codes_rel_def machine_of_def n)
  ultimately have rel: "machine_rel (selected ?T ?S) (\<lambda>n. n \<le> 0) (machine_of ?f 0) (machine_of g 0)" by (auto simp: machine_rel_def) (simp add: machine_of_def)
  have "Call 1 fo (defaultExterns fo ff) ''pick'' [] (machine_of ?f 0) \<noteq> Inl OutOfSteps" by (simp add: sel_call[unfolded One_nat_def])
  then obtain m where "same_result (selected ?T ?S) (Inr (intVal ClsW 7, machine_of ?f 0)) (Call m fo (defaultExterns fo ff) ''pick'' [] (machine_of g 0))"
    using Selects_preserves_programs[OF rel, of 1 fo ff "''pick''" "[]"] unfolding sel_call by blast
  then obtain mc' where "Call m fo (defaultExterns fo ff) ''pick'' [] (machine_of g 0) = Inr (intVal ClsW 7, mc')"
      "machine_rel (selected ?T ?S) (\<lambda>_. True) (machine_of ?f 0) mc'"
    unfolding same_result_def by (cases "Call m fo (defaultExterns fo ff) ''pick'' [] (machine_of g 0)") auto
  moreover from this(2) have "mc_mem mc' = newMemory" "mc_stdout mc' = []" by (auto simp: machine_rel_def) (simp_all add: machine_of_def)
  ultimately show "\<exists>g m mc'. Selects sel_fn = Some (g, True) \<and> Call m fo (defaultExterns fo ff) ''pick'' [] (machine_of g 0) = Inr (intVal ClsW 7, mc') \<and>
     mc_mem mc' = newMemory \<and> mc_stdout mc' = []" using c by blast
qed

end
