(* ===== verification/Hoist_Allocas.thy ===== *)
theory Hoist_Allocas
  imports SSA_Check "HOL-Library.Multiset"
begin

text \<open>
  Stack slots of a fixed size move to the entry block (\<open>lower/alloca.go\<close>).  \<open>None\<close> is the panic of a function with such a
  slot and no entry.  The theory shows that nothing else moves, and that the slots are defined before every use.
\<close>

section \<open>The pass\<close>

definition hoistable :: "instr \<Rightarrow> bool" where
  "hoistable i \<longleftrightarrow> op_IsAlloc (in_Op i) \<and> r_Kind (instr_Arg i 0) = RefConst"

definition take_allocas :: "bptr \<Rightarrow> func \<times> instr list \<Rightarrow> func \<times> instr list" where
  "take_allocas b = (\<lambda>(f, allocas).
     (upd_blk b (\<lambda>x. x\<lparr>b_Instrs := filter (\<lambda>i. \<not> hoistable i) (b_Instrs x)\<rparr>) f, allocas @ filter hoistable (b_Instrs (blk f b))))"

text \<open>The leading placeholders of incoming parameters.\<close>

definition leading_pars :: "instr list \<Rightarrow> nat" where
  "leading_pars is = length (takeWhile (\<lambda>i. in_Op i = OPar \<or> in_Op i = OParEnv) is)"

definition HoistAllocas :: "func \<Rightarrow> func option" where
  "HoistAllocas f =
     (let (f1, allocas) = fold take_allocas (f_Blocks f) (f, []) in
      if allocas = [] then Some f1
      else map_option (\<lambda>s. upd_blk s (\<lambda>x. let i = leading_pars (b_Instrs x) in
        x\<lparr>b_Instrs := take i (b_Instrs x) @ allocas @ drop i (b_Instrs x)\<rparr>) f1) (f_Start f1))"

section \<open>What moves\<close>

definition kept :: "instr list \<Rightarrow> instr list" where
  "kept is = filter (\<lambda>i. \<not> hoistable i) is"

definition slots :: "func \<Rightarrow> instr list" where
  "slots f = concat (map (\<lambda>b. filter hoistable (b_Instrs (blk f b))) (f_Blocks f))"

lemma kept_no_slots: "filter hoistable is = [] \<Longrightarrow> kept is = is"
  by (induction "is") (auto simp: kept_def split: if_splits)

lemma func_eq_blocks:
  assumes "g = f\<lparr>f_arena := f_arena g\<rparr>" "length (f_arena g) = length (f_arena f)" "\<forall>p. blk g p = blk f p"
  shows "g = f"
proof -
  have "f_arena g ! i = f_arena f ! i" if "i < length (f_arena g)" for i
    using assms(3)[rule_format, of i] assms(2) that by (simp add: blk_def)
  then have "f_arena g = f_arena f" using assms(2) by (intro nth_equalityI) simp_all
  then show ?thesis by (subst assms(1)) simp
qed

lemma take_allocas_fold:
  assumes "distinct bs" "\<forall>b \<in> set bs. b < length (f_arena f)"
  shows "\<exists>g. fold take_allocas bs (f, al) = (g, al @ concat (map (\<lambda>b. filter hoistable (b_Instrs (blk f b))) bs)) \<and>
    (\<forall>p. blk g p = (if p \<in> set bs then (blk f p)\<lparr>b_Instrs := kept (b_Instrs (blk f p))\<rparr> else blk f p)) \<and>
    length (f_arena g) = length (f_arena f) \<and> g = f\<lparr>f_arena := f_arena g\<rparr>"
  using assms
proof (induction bs arbitrary: f al)
  case (Cons b bs)
  define h where "h = upd_blk b (\<lambda>x. x\<lparr>b_Instrs := filter (\<lambda>i. \<not> hoistable i) (b_Instrs x)\<rparr>) f"
  have h: "blk h p = (if p = b then (blk f b)\<lparr>b_Instrs := kept (b_Instrs (blk f b))\<rparr> else blk f p)" for p
    using Cons.prems by (simp add: h_def kept_def)
  have hs: "length (f_arena h) = length (f_arena f)" "h = f\<lparr>f_arena := f_arena h\<rparr>" by (simp_all add: h_def upd_blk_def)
  have same: "map (\<lambda>b. filter hoistable (b_Instrs (blk h b))) bs = map (\<lambda>b. filter hoistable (b_Instrs (blk f b))) bs"
    using Cons.prems(1) h by (intro map_cong) auto
  have "\<forall>p \<in> set bs. p < length (f_arena h)" using Cons.prems(2) hs(1) by simp
  then obtain g where g: "fold take_allocas bs (h, al @ filter hoistable (b_Instrs (blk f b))) =
      (g, (al @ filter hoistable (b_Instrs (blk f b))) @ concat (map (\<lambda>b. filter hoistable (b_Instrs (blk h b))) bs))"
    "\<forall>p. blk g p = (if p \<in> set bs then (blk h p)\<lparr>b_Instrs := kept (b_Instrs (blk h p))\<rparr> else blk h p)"
    "length (f_arena g) = length (f_arena h)" "g = h\<lparr>f_arena := f_arena g\<rparr>"
    using Cons.IH[of h "al @ filter hoistable (b_Instrs (blk f b))"] Cons.prems(1) by (auto simp del: append_assoc)
  have "h\<lparr>f_arena := a\<rparr> = f\<lparr>f_arena := a\<rparr>" for a by (simp add: h_def upd_blk_def)
  then have frame: "g = f\<lparr>f_arena := f_arena g\<rparr>" using g(4) by metis
  have "take_allocas b (f, al) = (h, al @ filter hoistable (b_Instrs (blk f b)))" by (simp add: take_allocas_def h_def)
  then have "fold take_allocas (b # bs) (f, al) =
    (g, al @ concat (map (\<lambda>b. filter hoistable (b_Instrs (blk f b))) (b # bs)))" using g(1) same by simp
  moreover have "\<forall>p. blk g p = (if p \<in> set (b # bs) then (blk f p)\<lparr>b_Instrs := kept (b_Instrs (blk f p))\<rparr> else blk f p)"
    using g(2) Cons.prems(1) by (auto simp: h)
  ultimately show ?case using g(3) hs(1) frame by (intro exI[of _ g]) simp
qed simp

text \<open>The entry: its parameters, the slots, and what it had.\<close>

definition hoisted :: "func \<Rightarrow> bptr \<Rightarrow> instr list" where
  "hoisted f e = (let is = kept (b_Instrs (blk f e)); i = leading_pars is in take i is @ slots f @ drop i is)"

definition hoisted_blk :: "func \<Rightarrow> bptr \<Rightarrow> bptr \<Rightarrow> block" where
  "hoisted_blk f e p = (if p = e then (blk f e)\<lparr>b_Instrs := hoisted f e\<rparr>
     else if p \<in> set (f_Blocks f) then (blk f p)\<lparr>b_Instrs := kept (b_Instrs (blk f p))\<rparr> else blk f p)"

lemma HoistAllocas_spec:
  assumes "distinct (f_Blocks f)" "\<forall>b \<in> set (f_Blocks f). b < length (f_arena f)" "f_Start f = Some e" "e \<in> set (f_Blocks f)"
  shows "\<exists>g. HoistAllocas f = Some g \<and> g = f\<lparr>f_arena := f_arena g\<rparr> \<and> length (f_arena g) = length (f_arena f) \<and>
    (\<forall>p. blk g p = hoisted_blk f e p)"
proof -
  obtain f1 where f1: "fold take_allocas (f_Blocks f) (f, []) = (f1, slots f)"
    "\<forall>p. blk f1 p = (if p \<in> set (f_Blocks f) then (blk f p)\<lparr>b_Instrs := kept (b_Instrs (blk f p))\<rparr> else blk f p)"
    "length (f_arena f1) = length (f_arena f)" "f1 = f\<lparr>f_arena := f_arena f1\<rparr>"
    using take_allocas_fold[OF assms(1,2), of "[]"] by (auto simp: slots_def)
  have st: "f_Start f1 = Some e" using assms(3) by (subst f1(4)) simp
  show ?thesis
  proof (cases "slots f = []")
    case True
    then have "hoisted f e = kept (b_Instrs (blk f e))" by (simp add: hoisted_def Let_def)
    moreover have "HoistAllocas f = Some f1" using f1(1) True by (simp add: HoistAllocas_def)
    ultimately show ?thesis using f1 assms(4) by (intro exI[of _ f1]) (simp add: hoisted_blk_def)
  next
    case False
    define g where "g = upd_blk e (\<lambda>x. let i = leading_pars (b_Instrs x) in
        x\<lparr>b_Instrs := take i (b_Instrs x) @ slots f @ drop i (b_Instrs x)\<rparr>) f1"
    have e: "e < length (f_arena f1)" using assms(2,4) f1(3) by simp
    have "g = f\<lparr>f_arena := f_arena g\<rparr>" unfolding g_def upd_blk_def by (subst f1(4)) simp
    moreover have "HoistAllocas f = Some g" using f1(1) False st by (simp add: HoistAllocas_def g_def)
    moreover have "blk g p = hoisted_blk f e p" for p
      using f1(2) e assms(4) by (simp add: g_def hoisted_blk_def hoisted_def Let_def)
    moreover have "length (f_arena g) = length (f_arena f)" using f1(3) by (simp add: g_def)
    ultimately show ?thesis by blast
  qed
qed

lemma kept_parts [simp]: "kept (xs @ ys) = kept xs @ kept ys" "kept (kept xs) = kept xs" "filter hoistable (kept xs) = []"
  by (simp_all add: kept_def)

lemma slots_hoistable: "x \<in> set (slots f) \<Longrightarrow> hoistable x"
  by (auto simp: slots_def)

lemma kept_slots [simp]: "kept (slots f) = []" "filter hoistable (slots f) = slots f"
  using slots_hoistable by (auto simp: kept_def)

lemma kept_take_drop: "kept (take n (kept xs)) = take n (kept xs)" "kept (drop n (kept xs)) = drop n (kept xs)"
  by (auto simp: kept_def filter_id_conv dest!: in_set_takeD in_set_dropD)

lemma hoisted_parts: "kept (hoisted f e) = kept (b_Instrs (blk f e))" "filter hoistable (hoisted f e) = slots f"
proof -
  let ?k = "kept (b_Instrs (blk f e))" and ?n = "leading_pars (kept (b_Instrs (blk f e)))"
  show "kept (hoisted f e) = ?k" by (simp add: hoisted_def Let_def kept_take_drop)
  have no: "filter hoistable (take ?n ?k) = []" "filter hoistable (drop ?n ?k) = []"
    by (auto simp: kept_def filter_empty_conv dest!: in_set_takeD in_set_dropD)
  show "filter hoistable (hoisted f e) = slots f" using no by (simp add: hoisted_def Let_def)
qed

lemma mset_hoisted: "mset (hoisted f e) = mset (kept (b_Instrs (blk f e))) + mset (slots f)"
proof -
  have "mset (take n xs) + mset (drop n xs) = mset xs" for n and xs :: "instr list"
    by (metis append_take_drop_id mset_append)
  then show ?thesis by (simp add: hoisted_def Let_def ac_simps)
qed

lemma mset_kept_slots: "mset (concat (map (\<lambda>b. kept (F b)) bs)) + mset (concat (map (\<lambda>b. filter hoistable (F b)) bs)) = mset (concat (map F bs))"
proof (induction bs)
  case (Cons b bs)
  have "mset (kept (F b)) + mset (filter hoistable (F b)) = mset (F b)"
    by (simp add: kept_def add.commute)
  then show ?case using Cons.IH by (simp add: ac_simps)
qed simp

lemma slots_once:
  fixes e :: bptr
  assumes "distinct bs" "e \<in> set bs"
  shows "concat (map (\<lambda>b. if b = e then s else []) bs) = s"
    "mset (concat (map (\<lambda>b. if b = e then I else kept (F b)) bs)) + mset (kept (F e)) = mset (concat (map (\<lambda>b. kept (F b)) bs)) + mset I"
proof -
  obtain xs ys where bs: "bs = xs @ e # ys" using assms(2) by (meson split_list)
  have others: "map (\<lambda>b. if b = e then x else h b) zs = map h zs" if "e \<notin> set zs" for zs x and h :: "bptr \<Rightarrow> instr list"
    using that by (intro map_cong) auto
  have "e \<notin> set xs" "e \<notin> set ys" using assms(1) bs by auto
  note o = others[OF this(1)] others[OF this(2)]
  have o': "map (\<lambda>b. if b = e then s else []) zs = replicate (length zs) []" if "e \<notin> set zs" for zs
    using that by (induction zs) auto
  show "concat (map (\<lambda>b. if b = e then s else []) bs) = s" by (simp add: bs o'[OF \<open>e \<notin> set xs\<close>] o'[OF \<open>e \<notin> set ys\<close>])
  show "mset (concat (map (\<lambda>b. if b = e then I else kept (F b)) bs)) + mset (kept (F e)) = mset (concat (map (\<lambda>b. kept (F b)) bs)) + mset I"
    by (simp add: bs o ac_simps)
qed

lemma use_place:
  "(r, u, ui) \<in> block_uses g b \<Longrightarrow>
   \<exists>i. ui = int i \<and> i \<le> length (b_Instrs (blk g u)) \<and> (i < length (b_Instrs (blk g u)) \<longrightarrow> r \<in> set (in_Args (b_Instrs (blk g u) ! i)))"
  by (auto simp: block_uses_def)

text \<open>A use in the entry that no parameter and no slot makes comes after the slots.\<close>

lemma hoisted_order:
  assumes x: "x \<in> set (slots f)" and i: "i \<le> length (hoisted f e)"
    and use: "i < length (hoisted f e) \<Longrightarrow> \<not> hoistable (hoisted f e ! i) \<and> in_Op (hoisted f e ! i) \<notin> {OPar, OParEnv}"
  shows "\<exists>k < length (hoisted f e). hoisted f e ! k = x \<and> k < i"
proof -
  let ?k = "kept (b_Instrs (blk f e))" and ?n = "leading_pars (kept (b_Instrs (blk f e)))"
  let ?p = "take ?n ?k" let ?d = "drop ?n ?k"
  have n: "?n \<le> length ?k" by (simp add: leading_pars_def length_takeWhile_le)
  then have lp: "length ?p = ?n" by simp
  have H: "hoisted f e = ?p @ slots f @ ?d" by (simp add: hoisted_def Let_def)
  obtain j where j: "j < length (slots f)" "slots f ! j = x" using x by (meson in_set_conv_nth)
  have par: "in_Op (hoisted f e ! i) \<in> {OPar, OParEnv}" if "i < ?n"
  proof -
    have tw: "takeWhile (\<lambda>i. in_Op i = OPar \<or> in_Op i = OParEnv) ?k = ?p" by (metis leading_pars_def takeWhile_eq_take)
    then have "?p ! i \<in> set (takeWhile (\<lambda>i. in_Op i = OPar \<or> in_Op i = OParEnv) ?k)" using that lp by (metis nth_mem)
    then show ?thesis using that lp by (auto simp: H nth_append dest!: set_takeWhileD)
  qed
  have slot: "hoistable (hoisted f e ! i)" if "?n \<le> i" "i < ?n + length (slots f)"
    using that lp slots_hoistable[of "slots f ! (i - ?n)" f] by (auto simp: H nth_append)
  have len: "?n + length (slots f) \<le> length (hoisted f e)" using lp by (simp add: H del: length_take)
  have "?n + length (slots f) \<le> i"
  proof (cases "i < length (hoisted f e)")
    case True
    show ?thesis using use[OF True] par slot by (meson not_le)
  next
    case False
    then show ?thesis using len by simp
  qed
  then show ?thesis using j lp by (intro exI[of _ "?n + j"]) (auto simp: H nth_append)
qed

text \<open>
  C21: \<open>HoistAllocas\<close> returns.  In the entry, the slots of all blocks, in order, follow the leading
  parameters; the other blocks keep the rest of their instructions, in order, and nothing else of the function
  changes, so that the same instructions are there.  If no parameter placeholder of the entry and no slot reads a temporary,
  every use of a slot in the function comes later in the entry, or in a block the entry dominates.  Running the pass again
  changes nothing.
\<close>

theorem HoistAllocas_correct:
  assumes "distinct (f_Blocks f)" "\<forall>b \<in> set (f_Blocks f). b < length (f_arena f)" "f_Start f = Some e" "e \<in> set (f_Blocks f)"
  shows "\<exists>g. HoistAllocas f = Some g \<and> g = f\<lparr>f_arena := f_arena g\<rparr> \<and> (\<forall>p. blk g p = hoisted_blk f e p) \<and>
    mset (concat (map (\<lambda>b. b_Instrs (blk g b)) (f_Blocks f))) = mset (concat (map (\<lambda>b. b_Instrs (blk f b)) (f_Blocks f))) \<and>
    ((\<forall>i \<in> set (b_Instrs (blk g e)). hoistable i \<or> in_Op i \<in> {OPar, OParEnv} \<longrightarrow> (\<forall>a \<in> set (in_Args i). r_Kind a \<noteq> RefTemp)) \<longrightarrow>
      (\<forall>x \<in> set (slots f). \<forall>b ub ui. r_Kind (in_To x) = RefTemp \<and> (in_To x, ub, ui) \<in> block_uses g b \<longrightarrow>
        (\<exists>k < length (b_Instrs (blk g e)). b_Instrs (blk g e) ! k = x \<and> (if ub = e then int k < ui else block_dominates g e ub)))) \<and>
    HoistAllocas g = Some g"
proof -
  obtain g where g: "HoistAllocas f = Some g" "g = f\<lparr>f_arena := f_arena g\<rparr>" "length (f_arena g) = length (f_arena f)"
    "\<forall>p. blk g p = hoisted_blk f e p" using HoistAllocas_spec[OF assms] by blast
  have fr: "f_Blocks g = f_Blocks f" "f_Start g = Some e" using assms(3) by (subst g(2), simp)+
  have ins: "b_Instrs (blk g b) = (if b = e then hoisted f e else kept (b_Instrs (blk f b)))" if "b \<in> set (f_Blocks f)" for b
    using that g(4) by (simp add: hoisted_blk_def)
  have E: "b_Instrs (blk g e) = hoisted f e" using ins[OF assms(4)] by simp
  have ms: "mset (concat (map (\<lambda>b. b_Instrs (blk g b)) (f_Blocks f))) = mset (concat (map (\<lambda>b. b_Instrs (blk f b)) (f_Blocks f)))"
  proof -
    have eq: "map (\<lambda>b. b_Instrs (blk g b)) (f_Blocks f) = map (\<lambda>b. if b = e then hoisted f e else kept (b_Instrs (blk f b))) (f_Blocks f)"
      using ins by (intro map_cong) simp_all
    show ?thesis unfolding eq
      using slots_once(2)[OF assms(1,4), of "hoisted f e" "\<lambda>b. b_Instrs (blk f b)"]
        mset_kept_slots[of "\<lambda>b. b_Instrs (blk f b)" "f_Blocks f"] by (simp add: mset_hoisted slots_def ac_simps)
  qed
  have again: "HoistAllocas g = Some g"
  proof -
    have sl: "slots g = slots f"
    proof -
      have eq: "map (\<lambda>b. filter hoistable (b_Instrs (blk g b))) (f_Blocks f) = map (\<lambda>b. if b = e then slots f else []) (f_Blocks f)"
        using ins by (intro map_cong) (simp_all add: hoisted_parts)
      show ?thesis unfolding slots_def[of g] fr(1) eq by (rule slots_once(1)[OF assms(1,4)])
    qed
    have "\<forall>b \<in> set (f_Blocks g). b < length (f_arena g)" using assms(2) fr g(3) by simp
    then obtain h where h: "HoistAllocas g = Some h" "h = g\<lparr>f_arena := f_arena h\<rparr>" "length (f_arena h) = length (f_arena g)"
      "\<forall>p. blk h p = hoisted_blk g e p" using HoistAllocas_spec[of g e] assms(1,4) fr by auto
    have "hoisted g e = hoisted f e" 
      by (simp only: hoisted_def[of g] E hoisted_parts(1) sl) (simp only: hoisted_def)
    then have "\<forall>p. blk h p = blk g p" using h(4) g(4) fr by (simp add: hoisted_blk_def E)
    then show ?thesis using func_eq_blocks[OF h(2,3)] h(1) by simp
  qed
  have uses: "\<exists>k < length (b_Instrs (blk g e)). b_Instrs (blk g e) ! k = x \<and> (if ub = e then int k < ui else block_dominates g e ub)"
    if free: "\<forall>i \<in> set (b_Instrs (blk g e)). hoistable i \<or> in_Op i \<in> {OPar, OParEnv} \<longrightarrow> (\<forall>a \<in> set (in_Args i). r_Kind a \<noteq> RefTemp)"
      and x: "x \<in> set (slots f)" "r_Kind (in_To x) = RefTemp" and u: "(in_To x, ub, ui) \<in> block_uses g b" for x b ub ui
  proof (cases "ub = e")
    case True
    obtain i where i: "ui = int i" "i \<le> length (hoisted f e)" "i < length (hoisted f e) \<longrightarrow> in_To x \<in> set (in_Args (hoisted f e ! i))"
      using use_place[of "in_To x" e ui g b] u True E by auto
    have "\<not> hoistable (hoisted f e ! i) \<and> in_Op (hoisted f e ! i) \<notin> {OPar, OParEnv}" if "i < length (hoisted f e)"
      using free i(3)[rule_format, OF that] x(2) nth_mem[OF that] by (metis E)
    from hoisted_order[OF x(1) i(2) this] show ?thesis using True i(1) E by auto
  next
    case False
    have "block_dominates g e ub" by (auto simp: block_dominates_def cfg_path_def fr)
    moreover have "x \<in> set (hoisted f e)" using x(1) by (simp add: hoisted_def Let_def)
    ultimately show ?thesis using False E by (auto simp: in_set_conv_nth)
  qed
  show ?thesis using g(1,2,4) ms again uses by blast
qed

text \<open>A slot in an arm that one path to its use jumps past.\<close>

definition example_jump_past :: func where
  "example_jump_past = func0\<lparr>f_Start := Some 0, f_Blocks := [0, 1, 2], f_arena := [
     block0\<lparr>b_Instrs := [instr0\<lparr>in_Op := OPar, in_To := tempRef 0\<rparr>, instr0\<lparr>in_Op := OCopy, in_To := tempRef 1, in_Args := [tempRef 0]\<rparr>],
       b_Jmp := jmp0\<lparr>j_Kind := JmpJnz, j_Arg := tempRef 1, j_To := Some 1, j_To2 := Some 2\<rparr>\<rparr>,
     block0\<lparr>b_Instrs := [instr0\<lparr>in_Op := OAlloc4, in_To := tempRef 2, in_Args := [R\<lparr>r_Kind := RefConst\<rparr>]\<rparr>], b_Jmp := jmp0\<lparr>j_Kind := JmpJmp, j_To := Some 2\<rparr>\<rparr>,
     block0\<lparr>b_Jmp := jmp0\<lparr>j_Kind := JmpRet, j_Arg := tempRef 2\<rparr>\<rparr>]\<rparr>"

theorem HoistAllocas_correct_witness:
  "\<exists>g. HoistAllocas example_jump_past = Some g \<and> HoistAllocas g = Some g \<and> block_dominates g 0 2 \<and>
     map (\<lambda>b. map in_Op (b_Instrs (blk g b))) [0, 1, 2] = [[OPar, OAlloc4, OCopy], [], []]"
proof -
  let ?f = example_jump_past
  let ?x = "instr0\<lparr>in_Op := OAlloc4, in_To := tempRef 2, in_Args := [R\<lparr>r_Kind := RefConst\<rparr>]\<rparr>"
  have F: "f_Blocks ?f = [0, 1, 2]" "length (f_arena ?f) = 3" "f_Start ?f = Some 0"
    by (simp_all add: example_jump_past_def func0_def)
  have B: "b_Jmp (blk ?f 2) = jmp0\<lparr>j_Kind := JmpRet, j_Arg := tempRef 2\<rparr>" "b_Phis (blk ?f 2) = []"
    "b_Instrs (blk ?f 0) = [instr0\<lparr>in_Op := OPar, in_To := tempRef 0\<rparr>, instr0\<lparr>in_Op := OCopy, in_To := tempRef 1, in_Args := [tempRef 0]\<rparr>]"
    "b_Instrs (blk ?f 1) = [?x]" "b_Instrs (blk ?f 2) = []"
    by (simp_all add: example_jump_past_def func0_def blk_def block0_def)
  have K: "hoistable ?x" "\<not> hoistable (instr0\<lparr>in_Op := OPar, in_To := t\<rparr>)" "\<not> hoistable (instr0\<lparr>in_Op := OCopy, in_To := t, in_Args := as\<rparr>)" for t as
    by (simp_all add: hoistable_def op_IsAlloc_def instr_Arg_def R_def)
  have S: "slots ?f = [?x]" "hoisted ?f 0 = [instr0\<lparr>in_Op := OPar, in_To := tempRef 0\<rparr>, ?x, instr0\<lparr>in_Op := OCopy, in_To := tempRef 1, in_Args := [tempRef 0]\<rparr>]"
    by (simp_all add: slots_def hoisted_def kept_def leading_pars_def F B K del: One_nat_def)
  have D: "distinct (f_Blocks ?f)" "\<forall>b \<in> set (f_Blocks ?f). b < length (f_arena ?f)" "f_Start ?f = Some 0" "0 \<in> set (f_Blocks ?f)"
    by (simp_all add: F)
  obtain g where g: "HoistAllocas ?f = Some g" "\<forall>p. blk g p = hoisted_blk ?f 0 p" "HoistAllocas g = Some g"
    "(\<forall>i \<in> set (b_Instrs (blk g 0)). hoistable i \<or> in_Op i \<in> {OPar, OParEnv} \<longrightarrow> (\<forall>a \<in> set (in_Args i). r_Kind a \<noteq> RefTemp)) \<longrightarrow>
      (\<forall>x \<in> set (slots ?f). \<forall>b ub ui. r_Kind (in_To x) = RefTemp \<and> (in_To x, ub, ui) \<in> block_uses g b \<longrightarrow>
        (\<exists>k < length (b_Instrs (blk g 0)). b_Instrs (blk g 0) ! k = x \<and> (if ub = 0 then int k < ui else block_dominates g 0 ub)))"
    using HoistAllocas_correct[OF D] by blast
  have G: "b_Instrs (blk g 0) = hoisted ?f 0" "b_Instrs (blk g 1) = []" "b_Instrs (blk g 2) = []" "b_Jmp (blk g 2) = b_Jmp (blk ?f 2)" "b_Phis (blk g 2) = []"
    by (simp_all add: g(2) hoisted_blk_def F B kept_def K del: One_nat_def)
  have free: "\<forall>i \<in> set (b_Instrs (blk g 0)). hoistable i \<or> in_Op i \<in> {OPar, OParEnv} \<longrightarrow> (\<forall>a \<in> set (in_Args i). r_Kind a \<noteq> RefTemp)"
    by (simp add: G S R_def instr0_def hoistable_def op_IsAlloc_def)
  have x: "?x \<in> set (slots ?f)" "r_Kind (in_To ?x) = RefTemp" "(in_To ?x, 2, 0) \<in> block_uses g 2"
    by (simp_all add: S tempRef_def R_def block_uses_def G B)
  obtain k where "if (2::nat) = 0 then int k < 0 else block_dominates g 0 2" using bspec[OF mp[OF g(4) free] x(1)] x(2,3) by blast
  then have "block_dominates g 0 2" by simp
  moreover have "map (\<lambda>b. map in_Op (b_Instrs (blk g b))) [0, 1, 2] = [[OPar, OAlloc4, OCopy], [], []]"
    by (simp add: G S del: One_nat_def)
  ultimately show ?thesis using g(1,3) by (intro exI[of _ g] conjI)
qed

end
