(* ===== verification/Interp_Typed.thy ===== *)
theory Interp_Typed
  imports Interp_Ops
begin

text \<open>
  The canonical-form discipline of the interpreter: on well-typed instructions every temporary
  holds, at every point, a canonical value of its own class.
\<close>

section \<open>Typing\<close>

definition same_bank :: "cls \<Rightarrow> cls \<Rightarrow> bool" where
  "same_bank c d \<longleftrightarrow> cls_IsInt c \<and> cls_IsInt d \<or> normCls c = normCls d"

text \<open>A temporary not assigned yet holds Go's zero value.\<close>

definition val_typed :: "cls \<Rightarrow> val \<Rightarrow> bool" where
  "val_typed c v \<longleftrightarrow> v = val0 \<or> canonical v \<and> v_Cls v = normCls c"

definition consts_typed :: "func \<Rightarrow> bool" where
  "consts_typed f \<longleftrightarrow> (\<forall>c \<in> set (f_Consts f).
     (c_Kind c = ConstFloat \<longrightarrow> c_Cls c = ClsS \<or> c_Cls c = ClsD) \<and> (c_Kind c \<noteq> ConstFloat \<longrightarrow> cls_IsInt (c_Cls c)))"

definition frame_typed :: "frame \<Rightarrow> bool" where
  "frame_typed fr \<longleftrightarrow> consts_typed (fr_fn fr) \<and> length (fr_vals fr) = length (f_Temps (fr_fn fr)) \<and>
     (\<forall>t < length (fr_vals fr). val_typed (t_Cls (f_Temps (fr_fn fr) ! t)) (fr_vals fr ! t))"

definition arg_bank :: "func \<Rightarrow> instr \<Rightarrow> nat \<Rightarrow> bool" where
  "arg_bank f i k \<longleftrightarrow> (\<exists>c. ClassOf f (instr_Arg i k) = Some c \<and> same_bank c (in_Cls i))"

definition int_result :: "op \<Rightarrow> bool" where
  "int_result o' \<longleftrightarrow> is_int_extend o' \<or>
     o' \<in> {OClz, OCmp, OStosi, OStoui, OLoadsb, OLoadub, OLoadsh, OLoaduh, OLoadsw, OLoaduw, OLoadl}"

text \<open>The instruction's class is that of its result temporary and fits its operation.\<close>

definition instr_typed :: "func \<Rightarrow> instr \<Rightarrow> bool" where
  "instr_typed f i \<longleftrightarrow>
     (\<not> ref_IsNone (in_To i) \<longrightarrow> r_ID (in_To i) < length (f_Temps f) \<and> normCls (t_Cls (f_Temps f ! r_ID (in_To i))) = normCls (in_Cls i)) \<and>
     (is_int_binop (in_Op i) \<or> in_Op i = ONeg \<or> in_Op i = OCast \<longrightarrow> in_Cls i \<noteq> ClsQ) \<and>
     (int_result (in_Op i) \<longrightarrow> cls_IsInt (in_Cls i)) \<and>
     (in_Op i = OExts \<or> in_Op i = OLoadd \<longrightarrow> in_Cls i = ClsD) \<and>
     (in_Op i = OTruncd \<or> in_Op i = OLoads \<longrightarrow> in_Cls i = ClsS) \<and>
     (in_Op i = OSltof \<or> in_Op i = OUltof \<longrightarrow> in_Cls i = ClsS \<or> in_Cls i = ClsD) \<and>
     (op_IsAlloc (in_Op i) \<or> in_Op i = OAllocN \<or> in_Op i = OBlockAddr \<longrightarrow> normCls (in_Cls i) = ClsL) \<and>
     (in_Op i = OCopy \<longrightarrow> arg_bank f i 0) \<and> (in_Op i = OSel \<longrightarrow> arg_bank f i 1 \<and> arg_bank f i 2)"

section \<open>Operands and results\<close>

text \<open>An operand of static class \<open>c\<close>: canonical, and of that bank unless its bits are clear.\<close>

definition operand_typed :: "cls \<Rightarrow> val \<Rightarrow> bool" where
  "operand_typed c v \<longleftrightarrow> canonical v \<and> (v_Bits v = 0 \<or> same_bank (v_Cls v) c)"

lemma canonical_asClass_operand: "operand_typed c v \<Longrightarrow> same_bank c d \<Longrightarrow> canonical (asClass d v)"
proof -
  assume v: "operand_typed c v" "same_bank c d"
  show ?thesis
  proof (cases "v_Bits v = 0")
    case True
    then show ?thesis using v(1) by (auto simp: operand_typed_def asClass_def Let_def canonical_def intVal_def val_i64_def)
  next
    case False
    then have "same_bank (v_Cls v) d" using v by (auto simp: operand_typed_def same_bank_def cls_IsInt_def normCls_def split: if_splits)
    moreover have "v_Cls v \<noteq> ClsP" "canonical v" using v by (auto simp: operand_typed_def canonical_def)
    ultimately show ?thesis by (intro canonical_asClass) (auto simp: same_bank_def normCls_def)
  qed
qed

lemma evalRef_typed:
  assumes "frame_typed fr" "evalRef fo mc fr r = Inr v" "ClassOf (fr_fn fr) r = Some c"
  shows "operand_typed c v"
proof -
  consider (temp) "r_Kind r = RefTemp" "r_ID r < length (fr_vals fr)" "v = fr_vals fr ! r_ID r" "c = t_Cls (f_Temps (fr_fn fr) ! r_ID r)"
    | (const) k where "k \<in> set (f_Consts (fr_fn fr))" "evalConst fo mc k = Inr v" "c = c_Cls k"
  proof (cases "r_Kind r")
    case RefConst
    then have "r_ID r < length (f_Consts (fr_fn fr))" "evalConst fo mc (f_Consts (fr_fn fr) ! r_ID r) = Inr v" "c = c_Cls (f_Consts (fr_fn fr) ! r_ID r)"
      using assms(2,3) by (auto simp: evalRef_def ClassOf_def split: if_splits)
    then show ?thesis using const nth_mem by blast
  qed (use assms temp in \<open>auto simp: evalRef_def ClassOf_def frame_typed_def split: if_splits\<close>)
  then show ?thesis
  proof cases
    case temp
    then have "val_typed c v" using assms(1) by (auto simp: frame_typed_def)
    then show ?thesis by (auto simp: val_typed_def operand_typed_def same_bank_def val0_def canonical_def)
  next
    case const
    then have k: "c_Kind k = ConstFloat \<Longrightarrow> c = ClsS \<or> c = ClsD" "c_Kind k \<noteq> ConstFloat \<Longrightarrow> cls_IsInt c"
      using assms(1) by (auto simp: frame_typed_def consts_typed_def)
    show ?thesis
    proof (cases "c_Kind k")
      case ConstFloat
      then show ?thesis using k(1) const by (auto simp: evalConst_def operand_typed_def same_bank_def floatVal_def canonical_def)
    qed (use k(2) const in \<open>auto simp: evalConst_def operand_typed_def same_bank_def cls_IsInt_def[of ClsL] split: option.splits\<close>)
  qed
qed

lemma bind_result_typed:
  assumes "frame_typed fr" "instr_typed (fr_fn fr) i" "canonical v" "v_Cls v = normCls (in_Cls i)" "bind_result i v fr = Inr fr'"
  shows "frame_typed fr' \<and> fr_fn fr' = fr_fn fr"
proof (cases "ref_IsNone (in_To i)")
  case True
  then show ?thesis using assms(1,5) by (simp add: bind_result_def)
next
  case False
  let ?t = "r_ID (in_To i)"
  have to: "normCls (t_Cls (f_Temps (fr_fn fr) ! ?t)) = normCls (in_Cls i)" using assms(2) False unfolding instr_typed_def by blast
  have fr': "?t < length (fr_vals fr)" "fr' = fr\<lparr>fr_vals := (fr_vals fr)[?t := v]\<rparr>"
    using assms(5) False by (auto simp: bind_result_def set_val_def split: if_splits)
  have "val_typed (t_Cls (f_Temps (fr_fn fr) ! ?t)) v" using assms(3,4) to by (simp add: val_typed_def)
  then show ?thesis using assms(1) fr' by (auto simp: frame_typed_def nth_list_update)
qed

lemma intBinop_typed: "intBinop z o' c a b = Inr v \<Longrightarrow> cls_IsInt c \<Longrightarrow> canonical v \<and> v_Cls v = normCls c"
  by (auto simp: intBinop_def Let_def split: if_splits)

lemma floatBinop_typed: "floatBinop fo o' c a b = Inr v \<Longrightarrow> c = ClsS \<or> c = ClsD \<Longrightarrow> canonical v \<and> v_Cls v = normCls c"
  by (auto simp: floatBinop_def Let_def canonical_def normCls_def floatVal_def split: if_splits)

lemma cls_split: "c \<noteq> ClsQ \<Longrightarrow> cls_IsFloat c \<longleftrightarrow> c = ClsS \<or> c = ClsD" "\<not> cls_IsFloat c \<longleftrightarrow> cls_IsInt c"
  by (cases c; simp add: cls_IsFloat_def cls_IsInt_def)+

lemma negFloat_typed: "c = ClsS \<or> c = ClsD \<Longrightarrow> canonical (negFloat c a) \<and> v_Cls (negFloat c a) = normCls c"
proof -
  have x: "uint32_of (uint32_of x XOR uint32_of y) = uint32_of x XOR uint32_of y" for x y
    by (rule bit_word_eqI) (auto simp: uint32_of_def bit_simps)
  have "push_bit 31 1 = uint32_of (push_bit 31 1)" by (simp add: uint32_of_def)
  then have "uint32_of (uint32_of x XOR push_bit 31 1) = uint32_of x XOR push_bit 31 1" for x using x by metis
  then show "c = ClsS \<or> c = ClsD \<Longrightarrow> ?thesis" by (auto simp: negFloat_def canonical_def normCls_def)
qed

text \<open>What \<open>execInstr\<close> writes for a pure operation.\<close>

lemma evalValueOp_typed:
  assumes fr: "frame_typed fr" and i: "instr_typed (fr_fn fr) i" and v: "evalValueOp fo mc fr i = Inr v"
  shows "canonical (asClass (in_Cls i) v)"
proof -
  let ?c = "in_Cls i" and ?o = "in_Op i"
  have ok: "canonical (asClass ?c v)" if "canonical v" "v_Cls v = normCls ?c" using that asClass_same[of ?c v] by simp
  note I = i[unfolded instr_typed_def]
  consider "is_int_binop ?o" | "?o = ONeg" | "int_result ?o" "cls_IsInt ?c" "\<exists>x. v = intVal ?c x \<or> v = intVal ClsW x \<or> v = intVal ClsL x"
    | "?o = OSel" | "?o = OExts \<or> ?o = OTruncd \<or> ?o = OSltof \<or> ?o = OUltof" | "?o = OCast" | "?o = OCopy"
  proof -
    have "int_result ?o \<Longrightarrow> cls_IsInt ?c" using I by blast
    moreover have "int_result ?o \<Longrightarrow> \<exists>x. v = intVal ?c x \<or> v = intVal ClsW x \<or> v = intVal ClsL x"
      using v unfolding int_result_def
      by (auto simp: evalValueOp_def Let_def is_int_binop_def is_int_extend_def interp_evalCmp_def split: if_splits option.splits)
    moreover have "is_int_binop ?o \<or> ?o = ONeg \<or> int_result ?o \<or> ?o = OSel \<or> ?o = OExts \<or> ?o = OTruncd \<or> ?o = OSltof \<or> ?o = OUltof \<or> ?o = OCast \<or> ?o = OCopy"
      using v by (auto simp: evalValueOp_def Let_def int_result_def split: if_splits)
    ultimately show thesis using that by metis
  qed
  then show ?thesis
  proof cases
    case 1
    then have q: "?c \<noteq> ClsQ" using I by blast
    from 1 v obtain a b where "(if cls_IsFloat ?c then floatBinop fo ?o ?c a b else intBinop (mc_divZeroZero mc) ?o ?c a b) = Inr v"
      by (auto simp: evalValueOp_def Let_def)
    then show ?thesis using q cls_split[of ?c] floatBinop_typed intBinop_typed ok by (metis (full_types))
  next
    case 2
    then have q: "?c \<noteq> ClsQ" using I by blast
    from 2 v obtain a where "v = (if cls_IsFloat ?c then negFloat ?c a else intVal ?c (truncInt ?c (- val_i64 a)))"
      by (auto simp: evalValueOp_def Let_def is_int_binop_def)
    then show ?thesis using q cls_split[of ?c] negFloat_typed[of ?c a] ok by (cases "cls_IsFloat ?c") auto
  next
    case 3
    then have "canonical v" "cls_IsInt (v_Cls v)" by (auto simp: cls_IsInt_def normCls_def)
    then show ?thesis using 3(2) by (intro canonical_asClass) auto
  next
    case 4
    then obtain k x where k: "evalRef fo mc fr (instr_Arg i k) = Inr x" "v = asClass ?c x" "k = 1 \<or> k = 2"
      using v by (auto simp: evalValueOp_def Let_def is_int_binop_def split: if_splits)
    then obtain d where "ClassOf (fr_fn fr) (instr_Arg i k) = Some d" "same_bank d ?c" using I 4 unfolding arg_bank_def by metis
    then have "canonical v" using evalRef_typed[OF fr k(1)] canonical_asClass_operand k(2) by blast
    then show ?thesis using k(2) ok by simp
  next
    case 5
    have c: "?o = OExts \<Longrightarrow> ?c = ClsD" "?o = OTruncd \<Longrightarrow> ?c = ClsS" "?o = OSltof \<or> ?o = OUltof \<Longrightarrow> ?c = ClsS \<or> ?c = ClsD"
      using I by blast+
    have "\<exists>x. v = floatVal fo (if ?o = OExts then ClsD else if ?o = OTruncd then ClsS else ?c) x"
      using v 5 by (elim disjE; simp add: evalValueOp_def Let_def is_int_binop_def is_int_extend_def split: option.splits) blast+
    then have "\<exists>x. v = floatVal fo ?c x" "?c = ClsS \<or> ?c = ClsD" using c 5 by (auto split: if_splits)
    then show ?thesis by (intro ok) (auto simp: floatVal_def normCls_def canonical_def)
  next
    case 6
    then have "?c \<noteq> ClsQ" using I by blast
    moreover obtain a where "v = castValue ?c a" using v 6 by (auto simp: evalValueOp_def Let_def is_int_binop_def is_int_extend_def)
    ultimately show ?thesis using canonical_castValue[of ?c a] ok by (auto simp: normCls_def split: if_splits)
  next
    case 7
    then obtain x where k: "evalRef fo mc fr (instr_Arg i 0) = Inr x" "v = asClass ?c x"
      using v by (auto simp: evalValueOp_def Let_def is_int_binop_def is_int_extend_def)
    then obtain d where "ClassOf (fr_fn fr) (instr_Arg i 0) = Some d" "same_bank d ?c" using I 7 unfolding arg_bank_def by metis
    then have "canonical v" using evalRef_typed[OF fr k(1)] canonical_asClass_operand k(2) by blast
    then show ?thesis using k(2) ok by simp
  qed
qed

lemma load_value_typed:
  assumes i: "instr_typed (fr_fn fr) i" and v: "load_value mc i a = Inr v"
  shows "canonical (asClass (in_Cls i) v)"
proof -
  let ?c = "in_Cls i" and ?o = "in_Op i"
  have I: "int_result ?o \<Longrightarrow> cls_IsInt ?c" "?o = OLoads \<Longrightarrow> ?c = ClsS" "?o = OLoadd \<Longrightarrow> ?c = ClsD" using i unfolding instr_typed_def by blast+
  have m: "uint32_of (x AND 0xffffffff) = x AND 0xffffffff" for x
  proof -
    have "x AND 0xffffffff = take_bit 32 x" by (simp add: take_bit_eq_mask mask_eq_exp_minus_1)
    then show ?thesis by (auto intro!: bit_word_eqI simp: uint32_of_def bit_simps)
  qed
  consider (int) x where "int_result ?o" "v = intVal ?c x" | (single) x where "?o = OLoads" "v = \<lparr>v_Cls = ClsS, v_Bits = x AND 0xffffffff\<rparr>"
    | (double) x where "?o = OLoadd" "v = \<lparr>v_Cls = ClsD, v_Bits = x\<rparr>"
    using v by (auto simp: load_value_def Let_def int_result_def split: if_splits)
  then show ?thesis
  proof cases
    case int
    then have "canonical v" "v_Cls v = normCls ?c" using I(1) by auto
    then show ?thesis using asClass_same[of ?c v] by simp
  next
    case single
    then have "canonical v" "v_Cls v = normCls ?c" using I(2) m by (auto simp: canonical_def normCls_def)
    then show ?thesis using asClass_same[of ?c v] by simp
  next
    case double
    then have "canonical v" "v_Cls v = normCls ?c" using I(3) by (auto simp: canonical_def normCls_def)
    then show ?thesis using asClass_same[of ?c v] by simp
  qed
qed

text \<open>The operations whose result class the verifier cannot see in the instruction alone.\<close>

definition opaque_op :: "op \<Rightarrow> bool" where
  "opaque_op o' \<longleftrightarrow> o' = OCall \<or> o' = OIntrinsic \<or> o' = OVaArg"

text \<open>What each memory operation leaves of the frame.\<close>

lemma execLoad_frame:
  "execLoad fo i (fr, mc) = Inr (fr', mc') \<Longrightarrow> \<exists>a v. load_value mc i a = Inr v \<and> bind_result i (asClass (in_Cls i) v) fr = Inr fr'"
  by (auto simp: execLoad_def)

lemma execAlloc_frame: "execAlloc fo i (fr, mc) = Inr (fr', mc') \<Longrightarrow> \<exists>a. bind_result i (ptrVal a) fr = Inr fr'"
  by (auto simp: execAlloc_def Let_def split: if_splits option.splits)

lemma execStore_frame: "execStore fo i (fr, mc) = Inr (fr', mc') \<Longrightarrow> fr' = fr"
  by (auto simp: execStore_def Let_def split: if_splits prod.splits bool.splits)

lemma execBlit_frame: "execBlit fo i (fr, mc) = Inr (fr', mc') \<Longrightarrow> fr' = fr"
  by (auto simp: execBlit_def)

lemma execVaStart_frame: "execVaStart fo i (fr, mc) = Inr (fr', mc') \<Longrightarrow> fr' = fr"
  by (auto simp: execVaStart_def Let_def split: prod.splits bool.splits) (metis surj_pair)

lemma execInstr_frame:
  assumes ex: "execInstr fo call own i (fr, mc) = Inr (fr', mc')" and o': "\<not> opaque_op (in_Op i)"
  obtains (same) "fr' = fr"
    | (load) a v where "load_value mc i a = Inr v" "bind_result i (asClass (in_Cls i) v) fr = Inr fr'"
    | (pure) v where "evalValueOp fo mc fr i = Inr v" "bind_result i (asClass (in_Cls i) v) fr = Inr fr'"
    | (ptr) a where "op_IsAlloc (in_Op i) \<or> in_Op i = OAllocN \<or> in_Op i = OBlockAddr" "bind_result i (ptrVal a) fr = Inr fr'"
proof -
  have no: "in_Op i \<noteq> OCall" "in_Op i \<noteq> OIntrinsic" "in_Op i \<noteq> OVaArg" using o' by (auto simp: opaque_op_def)
  show thesis
  proof (cases "in_Op i = OSafepoint \<or> in_Op i = ONop \<or> op_IsLoad (in_Op i) \<or> op_IsStore (in_Op i)")
    case True
    then show thesis using ex no execLoad_frame[of fo i fr mc fr' mc'] execStore_frame[of fo i fr mc fr' mc'] same load
      unfolding execInstr_def by (auto split: if_splits)
  next
    case q: False
    show thesis
    proof (cases "op_IsAlloc (in_Op i) \<or> in_Op i = OAllocN \<or> in_Op i = OBlit \<or> in_Op i = OVaStart")
      case True
      then show thesis using ex no q execAlloc_frame[of fo i fr mc fr' mc'] execBlit_frame[of fo i fr mc fr' mc']
          execVaStart_frame[of fo i fr mc fr' mc'] same ptr
        unfolding execInstr_def by (auto split: if_splits)
    next
      case False
      then show thesis using ex no q ptr pure unfolding execInstr_def by (auto split: if_splits option.splits)
    qed
  qed
qed

text \<open>
  C25: The canonical-form discipline of the interpreter.  When every temporary holds a canonical value
  of its class and an instruction other than a call, an intrinsic or \<open>vaarg\<close> agrees with the class
  of its result, executing it without a trap leaves every temporary canonical and of its class.
\<close>

theorem execInstr_typed:
  assumes fr: "frame_typed fr" and i: "instr_typed (fr_fn fr) i" and o': "\<not> opaque_op (in_Op i)"
    and ex: "execInstr fo call own i (fr, mc) = Inr (fr', mc')"
  shows "frame_typed fr' \<and> fr_fn fr' = fr_fn fr"
proof -
  have bind: "frame_typed fr' \<and> fr_fn fr' = fr_fn fr" if "bind_result i v fr = Inr fr'" "canonical v" "v_Cls v = normCls (in_Cls i)" for v
    using bind_result_typed[OF fr i that(2,3,1)] .
  from ex o' show ?thesis
  proof (cases rule: execInstr_frame)
    case (load a v)
    then show ?thesis using bind load_value_typed[OF i load(1)] by simp
  next
    case (pure v)
    then show ?thesis using bind evalValueOp_typed[OF fr i pure(1)] by simp
  next
    case (ptr a)
    then show ?thesis using bind i unfolding instr_typed_def by simp
  qed (use fr in simp)
qed

definition add_frame :: frame where
  "add_frame = \<lparr>fr_fn = snd (newTemp ''y'' ClsW (snd (newTemp ''x'' ClsW func0))), fr_vals = [val_W 3, val0], fr_varargs = [], fr_spBase = 0\<rparr>"

definition add_instr :: instr where
  "add_instr = instr0\<lparr>in_Op := OAdd, in_Cls := ClsW, in_Args := [tempRef 0, tempRef 0], in_To := tempRef 1\<rparr>"

lemma add_frame_simps: "fr_vals add_frame = [val_W 3, val0]" "map t_Cls (f_Temps (fr_fn add_frame)) = [ClsW, ClsW]" "f_Consts (fr_fn add_frame) = []"
  by (simp_all add: add_frame_def newTemp_def Let_def func0_def)

lemma add_frame_typed: "frame_typed add_frame" "instr_typed (fr_fn add_frame) add_instr" "\<not> opaque_op (in_Op add_instr)"
proof -
  have v: "val_typed ClsW (val_W 3)" "val_typed ClsW val0" by (simp_all add: val_typed_def val_W_def canonical_def normCls_def int32_of_def)
  have l: "length (f_Temps (fr_fn add_frame)) = 2" using add_frame_simps(2) by (metis length_map length_Cons list.size(3) numeral_2_eq_2)
  have "map t_Cls (f_Temps (fr_fn add_frame)) ! k = ClsW" if "k < 2" for k using that by (auto simp: add_frame_simps less_2_cases_iff)
  then have c: "t_Cls (f_Temps (fr_fn add_frame) ! k) = ClsW" if "k < 2" for k using that l by simp
  show "frame_typed add_frame" using v l c by (auto simp: frame_typed_def consts_typed_def add_frame_simps less_Suc_eq)
  show "instr_typed (fr_fn add_frame) add_instr" using l c
    by (simp add: instr_typed_def add_instr_def int_result_def is_int_extend_def op_class_defs less_eq_op_def tempRef_def)
qed (simp add: add_instr_def opaque_op_def)

lemma add_frame_steps: "execInstr fo call own add_instr (add_frame, mc) = Inr (add_frame\<lparr>fr_vals := [val_W 3, val_W 6]\<rparr>, mc)"
proof -
  have "evalValueOp fo mc add_frame add_instr = Inr (val_W 6)"
    by (simp add: evalValueOp_def add_instr_def is_int_binop_def evalRef_def instr_Arg_def tempRef_def add_frame_simps Let_def
        cls_IsFloat_def intBinop_def val_i64_def intVal_def val_W_def truncInt_def int32_of_def normCls_def)
  then show ?thesis
    by (simp add: execInstr_def add_instr_def op_class_defs less_eq_op_def bind_result_def set_val_def add_frame_simps tempRef_def
        ref_IsNone_def asClass_def val_W_def normCls_def)
qed

theorem execInstr_typed_witness: "frame_typed (add_frame\<lparr>fr_vals := [val_W 3, val_W 6]\<rparr>)"
  using execInstr_typed[OF add_frame_typed add_frame_steps] by blast

end
