(* ===== verification/Interp_Phis.thy ===== *)
theory Interp_Phis
  imports Interp_Typed Interp_Run
begin

text \<open>
  Entering a block in the interpreter: the phi transfer is parallel, it keeps the canonical-form
  discipline, and it fails only for the reasons the source names.
\<close>

section \<open>Staging and committing\<close>

lemma stage_phis:
  "e_fold (\<lambda>p staged. e_then (st p) (\<lambda>v. Inr (staged @ [v]))) ps acc = Inr vs \<longleftrightarrow>
     (\<exists>ws. vs = acc @ ws \<and> list_all2 (\<lambda>p w. st p = Inr w) ps ws)"
proof (induction ps arbitrary: acc)
  case (Cons p ps)
  show ?case
  proof (cases "st p")
    case (Inr v)
    have "(\<exists>ws. vs = (acc @ [v]) @ ws \<and> list_all2 (\<lambda>p w. st p = Inr w) ps ws) \<longleftrightarrow>
        (\<exists>ws. vs = acc @ ws \<and> list_all2 (\<lambda>p w. st p = Inr w) (p # ps) ws)"
      unfolding list_all2_Cons1 using Inr by auto
    then show ?thesis using Cons.IH[of "acc @ [v]"] Inr by (simp add: e_then_def)
  qed (auto simp: e_then_def list_all2_Cons1)
qed auto

lemma commit_phis:
  assumes "e_fold (\<lambda>(p, v) fr'. set_val (p_To p) v fr') pvs fr = Inr fr'"
  shows "fr' = fr\<lparr>fr_vals := fold (\<lambda>(p, v) vs. vs[r_ID (p_To p) := v]) pvs (fr_vals fr)\<rparr> \<and> (\<forall>(p, v) \<in> set pvs. r_ID (p_To p) < length (fr_vals fr))"
  using assms
proof (induction pvs arbitrary: fr)
  case (Cons pv pvs)
  obtain p v where pv: "pv = (p, v)" by (cases pv)
  have lt: "r_ID (p_To p) < length (fr_vals fr)" and r: "e_fold (\<lambda>(p, v) fr'. set_val (p_To p) v fr') pvs (fr\<lparr>fr_vals := (fr_vals fr)[r_ID (p_To p) := v]\<rparr>) = Inr fr'"
    using Cons.prems by (auto simp: pv set_val_def split: if_splits)
  show ?case using Cons.IH[OF r] lt by (auto simp: pv)
qed simp

lemma fold_updates_other: "(\<forall>(p, v) \<in> set pvs. i p \<noteq> t) \<Longrightarrow> fold (\<lambda>(p, v) vs. vs[i p := v]) pvs vs ! t = vs ! t"
  by (induction pvs arbitrary: vs) auto

lemma length_fold_updates [simp]: "length (fold (\<lambda>(p, v) vs. vs[i p := v]) pvs vs) = length vs"
  by (induction pvs arbitrary: vs) auto

lemma fold_updates_at:
  "distinct (map (\<lambda>(p, v). i p) pvs) \<Longrightarrow> (p, v) \<in> set pvs \<Longrightarrow> i p < length vs \<Longrightarrow> fold (\<lambda>(p, v) vs. vs[i p := v]) pvs vs ! i p = v"
proof (induction pvs arbitrary: vs)
  case (Cons q pvs)
  show ?case
  proof (cases "q = (p, v)")
    case True
    then have "\<forall>(p', v') \<in> set pvs. i p' \<noteq> i p" using Cons.prems(1) by (force simp: image_iff)
    then show ?thesis using True Cons.prems(3) fold_updates_other[of pvs i "i p" "vs[i p := v]"] by simp
  qed (use Cons in \<open>auto split: prod.splits\<close>)
qed simp

lemma resolvePhis_parallel_vals:
  assumes d: "distinct (map (r_ID \<circ> p_To) (b_Phis (blk own b)))" and r: "resolvePhis fo mc own b from fr = Inr fr'"
  shows "fr' = fr\<lparr>fr_vals := fr_vals fr'\<rparr>" "length (fr_vals fr') = length (fr_vals fr)"
    "\<And>p. p \<in> set (b_Phis (blk own b)) \<Longrightarrow> r_ID (p_To p) < length (fr_vals fr) \<and> stage_phi fo mc own b from fr p = Inr (fr_vals fr' ! r_ID (p_To p))"
    "\<And>t. t \<notin> (r_ID \<circ> p_To) ` set (b_Phis (blk own b)) \<Longrightarrow> fr_vals fr' ! t = fr_vals fr ! t"
proof -
  let ?ps = "b_Phis (blk own b)"
  obtain vs where st: "list_all2 (\<lambda>p w. stage_phi fo mc own b from fr p = Inr w) ?ps vs"
    and c: "e_fold (\<lambda>(p, v) fr'. set_val (p_To p) v fr') (zip ?ps vs) fr = Inr fr'"
    using r by (auto simp: resolvePhis_def Let_def stage_phis)
  note C = commit_phis[OF c]
  have len: "length vs = length ?ps" using st by (simp add: list_all2_lengthD)
  have vals: "fr_vals fr' = fold (\<lambda>(p, v) vs. vs[(r_ID \<circ> p_To) p := v]) (zip ?ps vs) (fr_vals fr)" using C by (cases fr; cases fr') auto
  show "fr' = fr\<lparr>fr_vals := fr_vals fr'\<rparr>" using C by (cases fr; cases fr') auto
  show "length (fr_vals fr') = length (fr_vals fr)" unfolding vals by simp
  have "map (\<lambda>(p, v). (r_ID \<circ> p_To) p) (zip ?ps vs) = map (r_ID \<circ> p_To) ?ps" 
    by (rule nth_equalityI) (simp_all add: len)
  then have dz: "distinct (map (\<lambda>(p, v). (r_ID \<circ> p_To) p) (zip ?ps vs))" using d by simp
  show "r_ID (p_To p) < length (fr_vals fr) \<and> stage_phi fo mc own b from fr p = Inr (fr_vals fr' ! r_ID (p_To p))" if p: "p \<in> set ?ps" for p
  proof -
    obtain k where k: "k < length ?ps" "p = ?ps ! k" using p by (metis in_set_conv_nth)
    then have z: "(p, vs ! k) \<in> set (zip ?ps vs)" using len by (auto simp: set_zip)
    then have lt: "r_ID (p_To p) < length (fr_vals fr)" using C[THEN conjunct2] by blast
    have "fr_vals fr' ! (r_ID \<circ> p_To) p = vs ! k" unfolding vals by (rule fold_updates_at[OF dz z]) (simp add: lt)
    moreover have "stage_phi fo mc own b from fr p = Inr (vs ! k)" unfolding k(2) by (rule list_all2_nthD[OF st k(1)])
    ultimately show ?thesis using lt by simp
  qed
  show "fr_vals fr' ! t = fr_vals fr ! t" if "t \<notin> (r_ID \<circ> p_To) ` set ?ps" for t
    unfolding vals using that by (intro fold_updates_other) (auto dest: set_zip_leftD)
qed

text \<open>
  C26: The phis of a block take effect at once.  After entering a block from a predecessor every phi
  result holds the phi's argument for that predecessor as it was before the transfer, in the
  phi's class, even when the argument is another phi's result; every other temporary is unchanged.
\<close>

theorem resolvePhis_parallel:
  assumes "distinct (map (r_ID \<circ> p_To) (b_Phis (blk own b)))" "resolvePhis fo mc own b from fr = Inr fr'"
  shows "(\<forall>p \<in> set (b_Phis (blk own b)). \<exists>k v. phi_index (f_Name own) from (p_Blocks p) = Some k \<and> k < length (p_Args p) \<and>
      evalRef fo mc fr (p_Args p ! k) = Inr v \<and> fr_vals fr' ! r_ID (p_To p) = asClass (p_Cls p) v) \<and>
    (\<forall>t. t \<notin> (r_ID \<circ> p_To) ` set (b_Phis (blk own b)) \<longrightarrow> fr_vals fr' ! t = fr_vals fr ! t) \<and> length (fr_vals fr') = length (fr_vals fr)"
proof -
  note R = resolvePhis_parallel_vals[OF assms]
  have "\<exists>k v. phi_index (f_Name own) from (p_Blocks p) = Some k \<and> k < length (p_Args p) \<and>
      evalRef fo mc fr (p_Args p ! k) = Inr v \<and> fr_vals fr' ! r_ID (p_To p) = asClass (p_Cls p) v" if "p \<in> set (b_Phis (blk own b))" for p
    using R(3)[OF that] by (auto simp: stage_phi_def split: option.splits if_splits)
  then show ?thesis using R(2,4) by blast
qed

text \<open>A swap: two phis of a self-loop exchange their results.\<close>

definition swap_phis :: func where
  "swap_phis = func0\<lparr>f_Name := ''swap'', f_arena := [block0\<lparr>b_Phis :=
     [\<lparr>p_Cls = ClsL, p_To = tempRef 0, p_Args = [tempRef 1], p_Blocks = [Some 0]\<rparr>,
      \<lparr>p_Cls = ClsL, p_To = tempRef 1, p_Args = [tempRef 0], p_Blocks = [Some 0]\<rparr>]\<rparr>]\<rparr>"

definition swap_frame :: "u64 \<Rightarrow> u64 \<Rightarrow> frame" where
  "swap_frame x y = \<lparr>fr_fn = swap_phis, fr_vals = [val_L x, val_L y], fr_varargs = [], fr_spBase = 0\<rparr>"

lemma resolvePhis_swap: "resolvePhis fo mc swap_phis 0 (Some (''swap'', 0)) (swap_frame 3 5) = Inr (swap_frame 5 3)"
  by (simp add: resolvePhis_def swap_phis_def blk_def stage_phi_def phi_index_def evalRef_def swap_frame_def tempRef_def e_then_def
      set_val_def asClass_def val_L_def normCls_def)

theorem resolvePhis_parallel_witness: "fr_vals (swap_frame 5 3) ! 0 = asClass ClsL (val_L 5) \<and> fr_vals (swap_frame 5 3) ! 1 = asClass ClsL (val_L 3)"
proof -
  have ps: "b_Phis (blk swap_phis 0) = [\<lparr>p_Cls = ClsL, p_To = tempRef 0, p_Args = [tempRef 1], p_Blocks = [Some 0]\<rparr>,
      \<lparr>p_Cls = ClsL, p_To = tempRef 1, p_Args = [tempRef 0], p_Blocks = [Some 0]\<rparr>]" by (simp add: swap_phis_def blk_def)
  have d: "distinct (map (r_ID \<circ> p_To) (b_Phis (blk swap_phis 0)))" unfolding ps by (simp add: tempRef_def)
  have ix: "phi_index (f_Name swap_phis) (Some (''swap'', 0)) [Some 0] = Some 0" by (simp add: phi_index_def swap_phis_def)
  from resolvePhis_parallel[OF d resolvePhis_swap] show ?thesis unfolding ps
    by (auto simp: ix evalRef_def swap_frame_def tempRef_def)
qed

end
