(* ===== verification/Opt_Rewrite.thy ===== *)
theory Opt_Rewrite
  imports IR_Func
begin

text \<open>
  What the optimiser's passes share (\<open>opt/rewrite.go\<close>): substitutions of temporaries, use counts and the
  removal of placeholders.  \<open>None\<close> of a substitution is a chain that never ends.
\<close>

type_synonym subst = "nat \<Rightarrow> ref option"

partial_function (option) subst_resolve :: "subst \<Rightarrow> ref \<Rightarrow> ref option" where
  "subst_resolve s r = (if r_Kind r = RefTemp then
       (case s (r_ID r) of None \<Rightarrow> Some r | Some n \<Rightarrow> subst_resolve s n)
     else Some r)"

declare subst_resolve.simps [code]

definition subst_refs :: "subst \<Rightarrow> ref list \<Rightarrow> ref list option" where
  "subst_refs s rs = those (map (subst_resolve s) rs)"

definition subst_phi :: "subst \<Rightarrow> phi \<Rightarrow> phi option" where
  "subst_phi s p = map_option (\<lambda>as. p\<lparr>p_Args := as\<rparr>) (subst_refs s (p_Args p))"

definition subst_instr :: "subst \<Rightarrow> instr \<Rightarrow> instr option" where
  "subst_instr s i = Option.bind (subst_refs s (in_Args i)) (\<lambda>as.
     let i' = i\<lparr>in_Args := as\<rparr>; context = instr_ClosureContext i' in
     if ref_IsNone context then Some i' else map_option (\<lambda>c. instr_SetClosureContext c i') (subst_resolve s context))"

definition subst_jmp :: "subst \<Rightarrow> jmp \<Rightarrow> jmp option" where
  "subst_jmp s j = Option.bind (subst_resolve s (j_Arg j)) (\<lambda>a.
     map_option (\<lambda>as. j\<lparr>j_Arg := a, j_Args := as\<rparr>) (subst_refs s (j_Args j)))"

definition subst_block :: "subst \<Rightarrow> block \<Rightarrow> block option" where
  "subst_block s x = Option.bind (those (map (subst_phi s) (b_Phis x))) (\<lambda>ps.
     Option.bind (those (map (subst_instr s) (b_Instrs x))) (\<lambda>is.
     map_option (\<lambda>j. x\<lparr>b_Phis := ps, b_Instrs := is, b_Jmp := j\<rparr>) (subst_jmp s (b_Jmp x))))"

definition applySubst :: "subst \<Rightarrow> func \<Rightarrow> func option" where
  "applySubst s f = fold_opt (\<lambda>b g. map_option (\<lambda>x. upd_blk b (\<lambda>_. x) g) (subst_block s (blk g b))) (f_Blocks f) f"

text \<open>The operands of a function, in the order \<open>useCounts\<close> meets them; the counters are unbounded.\<close>

definition func_uses :: "func \<Rightarrow> ref list" where
  "func_uses f = concat (map (\<lambda>b. let x = blk f b in
     concat (map p_Args (b_Phis x)) @ concat (map instr_Uses (b_Instrs x)) @ j_Arg (b_Jmp x) # j_Args (b_Jmp x)) (f_Blocks f))"

definition count_use :: "ref \<Rightarrow> nat list \<Rightarrow> nat list" where
  "count_use r u = (if r_Kind r = RefTemp \<and> r_ID r < length u then u[r_ID r := u ! r_ID r + 1] else u)"

definition useCounts :: "func \<Rightarrow> nat list" where
  "useCounts f = fold count_use (func_uses f) (replicate (length (f_Temps f)) 0)"

definition useCountOf :: "nat list \<Rightarrow> ref \<Rightarrow> nat" where
  "useCountOf uses r = (if r_Kind r \<noteq> RefTemp \<or> length uses \<le> r_ID r then 0 else uses ! r_ID r)"

definition removeNops :: "func \<Rightarrow> func" where
  "removeNops f = fold (\<lambda>b. upd_blk b (\<lambda>x. x\<lparr>b_Instrs := filter (\<lambda>i. in_Op i \<noteq> ONop) (b_Instrs x)\<rparr>)) (f_Blocks f) f"

text \<open>An outer \<open>None\<close> is an index panic.\<close>

definition constInt :: "func \<Rightarrow> ref \<Rightarrow> i64 option option" where
  "constInt f r = (if r_Kind r = RefConst then
       (if r_ID r < length (f_Consts f)
        then (let c = f_Consts f ! r_ID r in Some (if c_Kind c = ConstInt then Some (c_Int c) else None)) else None)
     else Some None)"

section \<open>Use counts\<close>

lemma length_count_use [simp]: "length (count_use r u) = length u"
  by (simp add: count_use_def)

lemma length_fold_count_use [simp]: "length (fold count_use rs u) = length u"
  by (induction rs arbitrary: u) auto

lemma length_useCounts [simp]: "length (useCounts f) = length (f_Temps f)"
  by (simp add: useCounts_def)

lemma fold_count_use: "t < length u \<Longrightarrow> fold count_use rs u ! t = u ! t + count_list rs (tempRef t)"
proof (induction rs arbitrary: u)
  case (Cons r rs)
  have r: "r = tempRef t \<longleftrightarrow> r_Kind r = RefTemp \<and> r_ID r = t" by (cases r) (auto simp: tempRef_def)
  show ?case using Cons.IH[of "count_use r u"] Cons.prems r by (auto simp: count_use_def nth_list_update)
qed simp

lemma useCountOf_eq: "useCountOf (useCounts f) r = (if r_Kind r = RefTemp \<and> r_ID r < length (f_Temps f) then count_list (func_uses f) r else 0)"
proof (cases "r_Kind r = RefTemp \<and> r_ID r < length (f_Temps f)")
  case True
  then have "count_list (func_uses f) (tempRef (r_ID r)) = count_list (func_uses f) r" by (metis ref_temp_eta)
  then show ?thesis using True fold_count_use[of "r_ID r" "replicate (length (f_Temps f)) 0" "func_uses f"]
    by (simp add: useCountOf_def useCounts_def)
qed (auto simp: useCountOf_def)

lemma useCountOf_0: "useCountOf (useCounts f) r = 0 \<longleftrightarrow> r_Kind r \<noteq> RefTemp \<or> length (f_Temps f) \<le> r_ID r \<or> r \<notin> set (func_uses f)"
  by (auto simp: useCountOf_eq count_list_0_iff not_less)

section \<open>Resolving a substitution\<close>

text \<open>A rank that falls along every entry; it makes each chain end.\<close>

definition subst_ranked :: "(nat \<Rightarrow> nat) \<Rightarrow> subst \<Rightarrow> bool" where
  "subst_ranked rk s \<longleftrightarrow> (\<forall>t r. s t = Some r \<longrightarrow> r_Kind r = RefTemp \<longrightarrow> rk (r_ID r) < rk t)"

lemma subst_resolve_ends:
  assumes "subst_ranked rk s"
  shows "\<exists>r'. subst_resolve s r = Some r' \<and> (r_Kind r' = RefTemp \<longrightarrow> s (r_ID r') = None)"
proof (cases "r_Kind r = RefTemp")
  case True
  then show ?thesis
  proof (induction "rk (r_ID r)" arbitrary: r rule: less_induct)
    case less
    show ?case
    proof (cases "s (r_ID r)")
      case None
      then show ?thesis using less.prems by (subst subst_resolve.simps) simp
    next
      case (Some n)
      show ?thesis
      proof (cases "r_Kind n = RefTemp")
        case True
        then have "rk (r_ID n) < rk (r_ID r)" using assms Some unfolding subst_ranked_def by blast
        from less.hyps[OF this True] show ?thesis using less.prems Some by (subst subst_resolve.simps) simp
      next
        case False
        then have "subst_resolve s n = Some n" by (subst subst_resolve.simps) simp
        then show ?thesis using less.prems Some False by (subst subst_resolve.simps) simp
      qed
    qed
  qed
qed (subst subst_resolve.simps, simp)

text \<open>Values respected by a substitution are respected by resolving it.\<close>

lemma subst_resolve_value:
  "subst_resolve s r = Some r' \<Longrightarrow> (\<forall>t n. s t = Some n \<longrightarrow> val (tempRef t) = val n) \<Longrightarrow> val r = val r'"
proof (induction s r r' rule: subst_resolve.raw_induct[rotated, consumes 1, case_names step])
  case (step res s r r')
  show ?case
  proof (cases "r_Kind r = RefTemp")
    case True
    then have t: "tempRef (r_ID r) = r" by (metis ref_temp_eta)
    show ?thesis
    proof (cases "s (r_ID r)")
      case (Some n)
      then have "res s n = Some r'" using step(2) True by simp
      then have "val n = val r'" using step by blast
      then show ?thesis using step(3) Some t by metis
    qed (use step(2) True in simp)
  qed (use step(2) in simp)
qed

end
