(* ===== verification/Opt_DCE.thy ===== *)
theory Opt_DCE
  imports Opt_Rewrite Intrinsics Interp_Run
begin

text \<open>
  Dead-code elimination (\<open>opt/dce.go\<close>).  \<open>None\<close> is the nil panic of an intrinsic instruction without its
  descriptor, or a loop that does not end; the theorem excludes both.
\<close>

definition hasSideEffect :: "instr \<Rightarrow> bool option" where
  "hasSideEffect i = (let o' = in_Op i in
     if in_Volatile i then Some True
     else if op_IsStore o' then Some True
     else if o' = OCall \<or> o' = OBlit \<or> o' = OVaStart then Some True
     else if o' = OSafepoint then Some True
     else if op_IsLifetime o' then Some True
     else if o' = OGetReg \<or> o' = OSetReg then Some True
     else if o' = OThreadPtr \<or> o' = OTLSOffset \<or> o' = OTLSIndexAddr then Some False
     else if o' = OAllocN then Some True
     else if o' = OIntrinsic then (case instr_Intrin i of
         None \<Rightarrow> None
       | Some n \<Rightarrow> Some (case LookupIntrinsic (io_Name n) of None \<Rightarrow> True | Some e \<Rightarrow> ie_SideEffect e \<or> ie_WritesMemory e))
     else Some (o' = OAsm))"

definition isDead :: "nat list \<Rightarrow> instr \<Rightarrow> bool option" where
  "isDead uses i = map_option (\<lambda>se. \<not> se \<and> (r_Kind (in_To i) \<noteq> RefTemp \<or> useCountOf uses (in_To i) = 0)) (hasSideEffect i)"

definition phi_dead :: "nat list \<Rightarrow> phi \<Rightarrow> bool" where
  "phi_dead uses p \<longleftrightarrow> r_Kind (p_To p) = RefTemp \<and> useCountOf uses (p_To p) = 0"

definition filterPhis :: "nat list \<Rightarrow> phi list \<Rightarrow> phi list" where
  "filterPhis uses = filter (\<lambda>p. \<not> phi_dead uses p)"

text \<open>The instructions kept, and whether one was dropped.\<close>

fun prune_instrs :: "nat list \<Rightarrow> instr list \<Rightarrow> (instr list \<times> bool) option" where
  "prune_instrs uses [] = Some ([], False)"
| "prune_instrs uses (i # is) = Option.bind (isDead uses i) (\<lambda>d.
     Option.bind (prune_instrs uses is) (\<lambda>(out, r). Some (if d then (out, True) else (i # out, r))))"

definition dce_block :: "nat list \<Rightarrow> bptr \<Rightarrow> func \<times> bool \<Rightarrow> (func \<times> bool) option" where
  "dce_block uses b = (\<lambda>(f, removed).
     let x = blk f b; kept = filterPhis uses (b_Phis x) in
     Option.bind (prune_instrs uses (b_Instrs x)) (\<lambda>(out, r).
       Some (upd_blk b (\<lambda>_. x\<lparr>b_Phis := kept, b_Instrs := out\<rparr>) f, removed \<or> length kept \<noteq> length (b_Phis x) \<or> r)))"

definition dce_round :: "func \<Rightarrow> (func \<times> bool) option" where
  "dce_round f = fold_opt (dce_block (useCounts f)) (f_Blocks f) (f, False)"

partial_function (option) dce_loop :: "func \<Rightarrow> bool \<Rightarrow> (func \<times> bool) option" where
  "dce_loop f changed = Option.bind (dce_round f) (\<lambda>(f', removed). if removed then dce_loop f' True else Some (f', changed))"

declare dce_loop.simps [code]

definition DCE :: "func \<Rightarrow> (func \<times> bool) option" where
  "DCE f = dce_loop f False"

section \<open>One round\<close>

definition side_effect :: "instr \<Rightarrow> bool" where
  "side_effect i \<longleftrightarrow> hasSideEffect i = Some True"

definition has_descriptors :: "func \<Rightarrow> bool" where
  "has_descriptors f \<longleftrightarrow> (\<forall>b. \<forall>i \<in> set (b_Instrs (blk f b)). in_Op i = OIntrinsic \<longrightarrow> instr_Intrin i \<noteq> None)"

definition dead :: "nat list \<Rightarrow> instr \<Rightarrow> bool" where
  "dead uses i \<longleftrightarrow> \<not> side_effect i \<and> (r_Kind (in_To i) \<noteq> RefTemp \<or> useCountOf uses (in_To i) = 0)"

lemma isDead_eq: "(in_Op i = OIntrinsic \<longrightarrow> instr_Intrin i \<noteq> None) \<Longrightarrow> isDead uses i = Some (dead uses i)"
  by (auto simp: isDead_def dead_def side_effect_def hasSideEffect_def Let_def split: option.splits)

lemma prune_instrs_eq:
  "\<forall>i \<in> set is. in_Op i = OIntrinsic \<longrightarrow> instr_Intrin i \<noteq> None \<Longrightarrow>
     prune_instrs uses is = Some (filter (\<lambda>i. \<not> dead uses i) is, \<exists>i \<in> set is. dead uses i)"
  by (induction "is") (auto simp: isDead_eq)

text \<open>What a round makes of a block.\<close>

definition pruned :: "nat list \<Rightarrow> block \<Rightarrow> block" where
  "pruned uses x = x\<lparr>b_Phis := filterPhis uses (b_Phis x), b_Instrs := filter (\<lambda>i. \<not> dead uses i) (b_Instrs x)\<rparr>"

definition block_dead :: "nat list \<Rightarrow> block \<Rightarrow> bool" where
  "block_dead uses x \<longleftrightarrow> (\<exists>p \<in> set (b_Phis x). phi_dead uses p) \<or> (\<exists>i \<in> set (b_Instrs x). dead uses i)"

lemma pruned_idem [simp]: "pruned uses (pruned uses x) = pruned uses x" "\<not> block_dead uses (pruned uses x)"
  by (auto simp: pruned_def filterPhis_def block_dead_def)

lemma dce_block_eq:
  assumes "has_descriptors f"
  shows "dce_block uses b (f, r) = Some (upd_blk b (pruned uses) f, r \<or> block_dead uses (blk f b))"
proof -
  have "length (filterPhis uses ps) \<noteq> length ps \<longleftrightarrow> (\<exists>p \<in> set ps. phi_dead uses p)" for ps
    unfolding filterPhis_def by (induction ps) (auto simp: le_imp_less_Suc less_imp_neq dest: sym)
  then show ?thesis
    using assms prune_instrs_eq[of "b_Instrs (blk f b)" uses]
    by (auto simp: dce_block_def Let_def has_descriptors_def block_dead_def upd_blk_def pruned_def)
qed

lemma blk_pruned: "blk (upd_blk b (pruned uses) f) b' = (if b' = b then pruned uses (blk f b) else blk f b')"
proof (cases "b < length (f_arena f)")
  case False
  then show ?thesis by (auto simp: upd_blk_def blk_def pruned_def block0_def filterPhis_def)
qed simp

lemma has_descriptors_pruned: "has_descriptors f \<Longrightarrow> has_descriptors (upd_blk b (pruned uses) f)"
  unfolding has_descriptors_def blk_pruned by (auto simp: pruned_def)

lemma dce_blocks_eq:
  assumes "has_descriptors f"
  shows "fold_opt (dce_block uses) bs (f, r) = Some (fold (\<lambda>b. upd_blk b (pruned uses)) bs f, r \<or> (\<exists>b \<in> set bs. block_dead uses (blk f b)))"
  using assms
proof (induction bs arbitrary: f r)
  case (Cons b bs)
  have "(\<exists>b' \<in> set bs. block_dead uses (blk (upd_blk b (pruned uses) f) b')) \<or> block_dead uses (blk f b) \<longleftrightarrow>
      (\<exists>b' \<in> set (b # bs). block_dead uses (blk f b'))" by (auto simp: blk_pruned split: if_splits)
  then show ?case using Cons.IH[OF has_descriptors_pruned[OF Cons.prems]] dce_block_eq[OF Cons.prems] by auto
qed simp

lemma blk_prune_fold: "blk (fold (\<lambda>b. upd_blk b (pruned uses)) bs f) b' = (if b' \<in> set bs then pruned uses (blk f b') else blk f b')"
  by (induction bs arbitrary: f) (auto simp: blk_pruned)

lemma prune_fold_sel [simp]:
  "f_Blocks (fold (\<lambda>b. upd_blk b (pruned uses)) bs f) = f_Blocks f" "f_Temps (fold (\<lambda>b. upd_blk b (pruned uses)) bs f) = f_Temps f"
  "length (f_arena (fold (\<lambda>b. upd_blk b (pruned uses)) bs f)) = length (f_arena f)"
  by (induction bs arbitrary: f) auto

abbreviation sweep :: "func \<Rightarrow> func" where
  "sweep f \<equiv> fold (\<lambda>b. upd_blk b (pruned (useCounts f))) (f_Blocks f) f"

lemma dce_round_eq: "has_descriptors f \<Longrightarrow> dce_round f = Some (sweep f, \<exists>b \<in> set (f_Blocks f). block_dead (useCounts f) (blk f b))"
  unfolding dce_round_def by (simp add: dce_blocks_eq)

lemma has_descriptors_sweep: "has_descriptors f \<Longrightarrow> has_descriptors (sweep f)"
  unfolding has_descriptors_def blk_prune_fold by (auto simp: pruned_def)

section \<open>The loop\<close>

definition block_size :: "block \<Rightarrow> nat" where
  "block_size x = length (b_Phis x) + length (b_Instrs x)"

definition code_size :: "func \<Rightarrow> nat" where
  "code_size f = (\<Sum>b < length (f_arena f). block_size (blk f b))"

lemma pruned_size: "block_size (pruned uses x) \<le> block_size x" "block_dead uses x \<Longrightarrow> block_size (pruned uses x) < block_size x"
proof -
  let ?P = "filter (\<lambda>p. \<not> phi_dead uses p) (b_Phis x)" and ?I = "filter (\<lambda>i. \<not> dead uses i) (b_Instrs x)"
  have e: "block_size (pruned uses x) = length ?P + length ?I" by (simp add: block_size_def pruned_def filterPhis_def)
  have le: "length ?P \<le> length (b_Phis x)" "length ?I \<le> length (b_Instrs x)" by (rule length_filter_le)+
  have d: "block_size x = length (b_Phis x) + length (b_Instrs x)" by (simp add: block_size_def)
  show "block_size (pruned uses x) \<le> block_size x" using le unfolding e d by (rule add_mono)
  assume "block_dead uses x"
  then consider p where "p \<in> set (b_Phis x)" "phi_dead uses p" | i where "i \<in> set (b_Instrs x)" "dead uses i" by (auto simp: block_dead_def)
  then have "length ?P < length (b_Phis x) \<or> length ?I < length (b_Instrs x)"
  proof cases
    case (1 p)
    then show ?thesis using length_filter_less[of p "b_Phis x" "\<lambda>p. \<not> phi_dead uses p"] by blast
  next
    case (2 i)
    then show ?thesis using length_filter_less[of i "b_Instrs x" "\<lambda>i. \<not> dead uses i"] by blast
  qed
  then show "block_size (pruned uses x) < block_size x" unfolding e d using le by linarith
qed

lemma sweep_size:
  assumes "b \<in> set (f_Blocks f)" "block_dead (useCounts f) (blk f b)"
  shows "code_size (sweep f) < code_size f"
proof -
  have b: "b < length (f_arena f)" using assms(2) by (cases "b < length (f_arena f)") (auto simp: blk_def block0_def block_dead_def)
  show ?thesis unfolding code_size_def
  proof (simp only: prune_fold_sel, rule sum_strict_mono_ex1)
    show "\<forall>b \<in> {..<length (f_arena f)}. block_size (blk (sweep f) b) \<le> block_size (blk f b)" by (auto simp: blk_prune_fold pruned_size)
    show "\<exists>b \<in> {..<length (f_arena f)}. block_size (blk (sweep f) b) < block_size (blk f b)" using assms b by (intro bexI[of _ b]) (auto simp: blk_prune_fold pruned_size)
  qed simp
qed

text \<open>A function is what is left of another one after dropping code nothing in it uses.\<close>

definition leaves_live :: "func \<Rightarrow> func \<Rightarrow> bool" where
  "leaves_live f g \<longleftrightarrow> f_Blocks g = f_Blocks f \<and> f_Temps g = f_Temps f \<and> (\<forall>b. b_Jmp (blk g b) = b_Jmp (blk f b)) \<and> set (func_uses g) \<subseteq> set (func_uses f) \<and>
     (\<exists>Q R. (\<forall>b \<in> set (f_Blocks f). b_Instrs (blk g b) = filter Q (b_Instrs (blk f b)) \<and> b_Phis (blk g b) = filter R (b_Phis (blk f b))) \<and>
        (\<forall>i. side_effect i \<or> useCountOf (useCounts g) (in_To i) \<noteq> 0 \<longrightarrow> Q i) \<and>
        (\<forall>p. r_Kind (p_To p) \<noteq> RefTemp \<or> useCountOf (useCounts g) (p_To p) \<noteq> 0 \<longrightarrow> R p))"

lemma leaves_live_refl: "leaves_live f f"
  unfolding leaves_live_def by (auto intro!: exI[of _ "\<lambda>_. True"])

lemma sweep_uses: "set (func_uses (sweep f)) \<subseteq> set (func_uses f)"
  unfolding func_uses_def prune_fold_sel blk_prune_fold by (auto simp: Let_def pruned_def filterPhis_def)

lemma useCountOf_mono:
  "set (func_uses g) \<subseteq> set (func_uses f) \<Longrightarrow> f_Temps g = f_Temps f \<Longrightarrow> useCountOf (useCounts g) r \<noteq> 0 \<Longrightarrow> useCountOf (useCounts f) r \<noteq> 0"
  unfolding useCountOf_0 by auto

lemma leaves_live_sweep:
  assumes "leaves_live f g"
  shows "leaves_live f (sweep g)"
proof -
  obtain Q R where QR: "\<forall>b \<in> set (f_Blocks f). b_Instrs (blk g b) = filter Q (b_Instrs (blk f b)) \<and> b_Phis (blk g b) = filter R (b_Phis (blk f b))"
    "\<forall>i. side_effect i \<or> useCountOf (useCounts g) (in_To i) \<noteq> 0 \<longrightarrow> Q i" "\<forall>p. r_Kind (p_To p) \<noteq> RefTemp \<or> useCountOf (useCounts g) (p_To p) \<noteq> 0 \<longrightarrow> R p"
    and sel: "f_Blocks g = f_Blocks f" "f_Temps g = f_Temps f" "\<forall>b. b_Jmp (blk g b) = b_Jmp (blk f b)" "set (func_uses g) \<subseteq> set (func_uses f)"
    using assms unfolding leaves_live_def by blast
  let ?u = "useCounts g" and ?Q = "\<lambda>i. \<not> dead (useCounts g) i \<and> Q i" and ?R = "\<lambda>p. \<not> phi_dead (useCounts g) p \<and> R p"
  have m: "useCountOf (useCounts (sweep g)) r \<noteq> 0 \<Longrightarrow> useCountOf ?u r \<noteq> 0" for r by (rule useCountOf_mono[OF sweep_uses prune_fold_sel(2)])
  have "\<forall>b \<in> set (f_Blocks f). b_Instrs (blk (sweep g) b) = filter ?Q (b_Instrs (blk f b)) \<and> b_Phis (blk (sweep g) b) = filter ?R (b_Phis (blk f b))"
    using QR(1) sel(1) by (simp add: blk_prune_fold pruned_def filterPhis_def conj_commute del: prune_fold_sel)
  moreover have "\<forall>i. side_effect i \<or> useCountOf (useCounts (sweep g)) (in_To i) \<noteq> 0 \<longrightarrow> ?Q i"
  proof (intro allI impI)
    fix i
    assume a: "side_effect i \<or> useCountOf (useCounts (sweep g)) (in_To i) \<noteq> 0"
    then have "side_effect i \<or> useCountOf ?u (in_To i) \<noteq> 0" using m by blast
    moreover have "useCountOf ?u r \<noteq> 0 \<Longrightarrow> r_Kind r = RefTemp" for r by (simp add: useCountOf_def split: if_splits)
    ultimately show "?Q i" using QR(2) unfolding dead_def by blast
  qed
  moreover have "\<forall>p. r_Kind (p_To p) \<noteq> RefTemp \<or> useCountOf (useCounts (sweep g)) (p_To p) \<noteq> 0 \<longrightarrow> ?R p"
    using QR(3) m unfolding phi_dead_def by blast
  moreover have "\<forall>b. b_Jmp (blk (sweep g) b) = b_Jmp (blk f b)" using sel(3) by (simp add: blk_prune_fold pruned_def)
  moreover have "set (func_uses (sweep g)) \<subseteq> set (func_uses f)" using sweep_uses[of g] sel(4) by blast
  ultimately show ?thesis unfolding leaves_live_def using sel(1,2) by (simp only: prune_fold_sel) blast
qed

lemma dce_loop_spec:
  assumes "has_descriptors g" "leaves_live f g"
  shows "\<exists>h. dce_loop g c = Some (h, c \<or> (\<exists>b \<in> set (f_Blocks g). block_dead (useCounts g) (blk g b))) \<and> leaves_live f h \<and>
    (\<forall>b \<in> set (f_Blocks h). \<not> block_dead (useCounts h) (blk h b))"
  using assms
proof (induction "code_size g" arbitrary: g c rule: less_induct)
  case less
  let ?d = "\<exists>b \<in> set (f_Blocks g). block_dead (useCounts g) (blk g b)"
  have step: "dce_loop g c = (if ?d then dce_loop (sweep g) True else Some (sweep g, c))"
    by (subst dce_loop.simps) (simp add: dce_round_eq[OF less.prems(1)])
  show ?case
  proof (cases ?d)
    case True
    then have "code_size (sweep g) < code_size g" using sweep_size by blast
    from less.hyps[OF this has_descriptors_sweep[OF less.prems(1)] leaves_live_sweep[OF less.prems(2)], of True]
    show ?thesis unfolding step using True by auto
  next
    case False
    have "blk (sweep g) b = blk g b" for b
    proof -
      have "\<not> block_dead u x \<Longrightarrow> pruned u x = x" for u x
        by (auto simp: block_dead_def pruned_def filterPhis_def intro!: block.equality filter_True)
      then show ?thesis using False by (simp add: blk_prune_fold)
    qed
    then have u: "useCounts (sweep g) = useCounts g" "\<forall>b \<in> set (f_Blocks (sweep g)). \<not> block_dead (useCounts g) (blk (sweep g) b)"
      using False by (auto simp: useCounts_def func_uses_def)
    show ?thesis unfolding step using False leaves_live_sweep[OF less.prems(2)] u by auto
  qed
qed


text \<open>An instance: a sum nothing uses.\<close>

definition dead_sum :: func where
  "dead_sum = func0\<lparr>f_Blocks := [0], f_Start := Some 0, f_arena := [block0\<lparr>
     b_Instrs := [instr0\<lparr>in_Op := OAdd, in_To := tempRef 0, in_Args := [constRef 0, constRef 0]\<rparr>], b_Jmp := jmp0\<lparr>j_Kind := JmpRet\<rparr>\<rparr>]\<rparr>"

lemma dead_sum_simps: "f_Blocks dead_sum = [0]" "b_Phis (blk dead_sum 0) = []" "f_Temps dead_sum = []"
  "b_Instrs (blk dead_sum 0) = [instr0\<lparr>in_Op := OAdd, in_To := tempRef 0, in_Args := [constRef 0, constRef 0]\<rparr>]" "b_Instrs (blk dead_sum (Suc b)) = []"
  by (simp_all add: dead_sum_def func0_def blk_def block0_def)


section \<open>An effect the pass does not see\<close>

text \<open>
  A \<open>vaarg\<close> whose result is unused counts as dead, but executing it is not without effect: it
  advances the argument list, so that removing it makes the next \<open>vaarg\<close> read a different argument.
\<close>

theorem vaarg_dead_with_effect:
  assumes "in_Op i = OVaArg" "\<not> in_Volatile i" "useCountOf uses (in_To i) = 0" "execInstr fo call own i (fr, mc) = Inr (fr', mc')"
  shows "isDead uses i = Some True \<and> mc' \<noteq> mc"
proof
  show "isDead uses i = Some True" using assms(1-3)
    by (auto simp: isDead_def hasSideEffect_def op_class_defs op_IsLifetime_def less_eq_op_def Let_def)
  have "execVaArg fo i (fr, mc) = Inr (fr', mc')" using assms(1,4) by (simp add: execInstr_def op_class_defs less_eq_op_def)
  then obtain k where k: "k < length (mc_vaLists mc)"
    "mc' = mc\<lparr>mc_vaLists := (mc_vaLists mc)[k := (mc_vaLists mc ! k)\<lparr>va_next := va_next (mc_vaLists mc ! k) + 1\<rparr>]\<rparr>"
    by (fastforce simp: execVaArg_def va_take_def not_le split: if_splits)
  then have "va_next (mc_vaLists mc' ! k) \<noteq> va_next (mc_vaLists mc ! k)" by simp
  then show "mc' \<noteq> mc" by auto
qed

text \<open>An instance: a list of one argument whose token is in the page at address 0.\<close>

definition va_machine :: machine where
  "va_machine = bare_machine\<lparr>mc_mem := \<lparr>pages = [0 \<mapsto> zero_page]\<rparr>, mc_vaLists := [\<lparr>va_args = [val_W 7], va_next = 0\<rparr>]\<rparr>"

definition va_frame :: frame where
  "va_frame = \<lparr>fr_fn = func0\<lparr>f_Consts := [const0]\<rparr>, fr_vals = [], fr_varargs = [], fr_spBase = 0\<rparr>"

definition va_instr :: instr where
  "va_instr = instr0\<lparr>in_Op := OVaArg, in_Args := [constRef 0]\<rparr>"

lemma va_instr_exec:
  "execInstr fo call own va_instr (va_frame, va_machine) =
     Inr (va_frame, va_machine\<lparr>mc_vaLists := [\<lparr>va_args = [val_W 7], va_next = 1\<rparr>]\<rparr>)"
proof -
  have g: "get_byte (mc_mem va_machine) a = Some 0" if "a \<in> {0, 1, 2, 3, 4, 5, 6, 7}" for a
    using that by (elim insertE) (simp_all add: get_byte_eq va_machine_def page_base_def pageSize_def zero_page_def)
  have "mem_load (mc_mem va_machine) 0 8 = Some 0"
    by (simp add: mem_load_def upt_conv_Cons numeral_eq_Suc g)
  moreover have "evalRef fo va_machine va_frame (instr_Arg va_instr 0) = Inr (intVal ClsW 0)"
    by (simp add: evalRef_def va_instr_def va_frame_def instr_Arg_def constRef_def evalConst_def const0_def)
  ultimately show ?thesis
    by (simp add: execInstr_def va_instr_def op_class_defs less_eq_op_def execVaArg_def intVal_def val_u64_def normCls_def va_take_def
        va_machine_def bind_result_def instr0_def ref_IsNone_def R_def)
qed

theorem vaarg_dead_with_effect_witness: "isDead [] va_instr = Some True \<and> va_machine\<lparr>mc_vaLists := [\<lparr>va_args = [val_W 7], va_next = 1\<rparr>]\<rparr> \<noteq> va_machine"
  by (rule vaarg_dead_with_effect[OF _ _ _ va_instr_exec]) (simp_all add: va_instr_def instr0_def useCountOf_def R_def)

end
