(* ===== verification/Opt_Fold.thy ===== *)
theory Opt_Fold
  imports Opt_Rewrite Interp_Typed
begin

text \<open>
  Constant folding and local simplification (\<open>opt/fold.go\<close>).  An outer \<open>None\<close> is an index panic (a
  missing operand, a constant out of range, the class of something that has none) or a
  substitution chain that does not end.
\<close>

section \<open>Constant evaluation\<close>

definition asS :: "cls \<Rightarrow> i64 \<Rightarrow> i64" where
  "asS c v = (if c = ClsW then int32_of v else v)"

definition asU :: "cls \<Rightarrow> i64 \<Rightarrow> u64" where
  "asU c v = (if c = ClsW then uint32_of v else v)"

definition truncCls :: "cls \<Rightarrow> i64 \<Rightarrow> i64" where
  "truncCls c v = (if c = ClsW then int32_of v else v)"

definition fold_shiftMask :: "cls \<Rightarrow> nat" where
  "fold_shiftMask c = (if c = ClsW then 31 else 63)"

definition evalBinop :: "op \<Rightarrow> cls \<Rightarrow> i64 \<Rightarrow> i64 \<Rightarrow> i64 option" where
  "evalBinop o' c a b =
     (let sa = asS c a; sb = asS c b; ua = asU c a; ub = asU c b; shift = unat (b AND of_nat (fold_shiftMask c));
          res = (\<lambda>v. Some (truncCls c v))
      in if o' = OAdd then res (a + b)
         else if o' = OSub then res (a - b)
         else if o' = OMul then res (a * b)
         else if o' = OAnd then res (a AND b)
         else if o' = OOr then res (a OR b)
         else if o' = OXor then res (a XOR b)
         else if o' = OShl then res (push_bit shift a)
         else if o' = OShr then res (drop_bit shift ua)
         else if o' = OSar then res (signed_drop_bit shift sa)
         else if o' = ODiv then
           (if sb = 0 then None else if sa = word_of_int (- (2 ^ 63)) \<and> sb = -1 then Some sa else res (go_sdiv sa sb))
         else if o' = ORem then
           (if sb = 0 then None else if sa = word_of_int (- (2 ^ 63)) \<and> sb = -1 then Some 0 else res (go_srem sa sb))
         else if o' = OUDiv then (if ub = 0 then None else res (ua div ub))
         else if o' = OURem then (if ub = 0 then None else res (ua mod ub))
         else None)"

definition evalCmp :: "cmp \<Rightarrow> cls \<Rightarrow> i64 \<Rightarrow> i64 \<Rightarrow> i64" where
  "evalCmp pred c a b =
     (let sa = asS c a; sb = asS c b; ua = asU c a; ub = asU c b
      in b2i (case pred of
           CmpEq \<Rightarrow> sa = sb | CmpNe \<Rightarrow> sa \<noteq> sb
         | CmpSlt \<Rightarrow> sa <s sb | CmpSle \<Rightarrow> sa \<le>s sb | CmpSgt \<Rightarrow> sb <s sa | CmpSge \<Rightarrow> sb \<le>s sa
         | CmpUlt \<Rightarrow> ua < ub | CmpUle \<Rightarrow> ua \<le> ub | CmpUgt \<Rightarrow> ub < ua | CmpUge \<Rightarrow> ub \<le> ua
         | _ \<Rightarrow> False))"

definition cmpReflexive :: "cmp \<Rightarrow> i64" where
  "cmpReflexive pred = (if pred \<in> {CmpEq, CmpSle, CmpSge, CmpUle, CmpUge} then 1 else 0)"

definition isPow2 :: "i64 \<Rightarrow> bool" where
  "isPow2 v \<longleftrightarrow> 1 <s v \<and> v AND (v - 1) = 0"

text \<open>The loop halves a positive number, so it ends.\<close>

function fold_log2_loop :: "i64 \<Rightarrow> i64 \<Rightarrow> i64" where
  "fold_log2_loop v n = (if 1 <s v then fold_log2_loop (signed_drop_bit 1 v) (n + 1) else n)"
  by pat_completeness auto
termination
proof (relation "measure (\<lambda>(v, n). nat (sint v))")
  fix v n :: i64
  assume "1 <s v"
  then have v: "1 < sint v" by (simp add: word_sless_alt)
  have "sint (signed_drop_bit 1 v) = sint v div 2" by (simp add: sint_signed_drop_bit_eq drop_bit_eq_div)
  then show "((signed_drop_bit 1 v, n + 1), v, n) \<in> measure (\<lambda>(v, n). nat (sint v))" using v by simp
qed simp

definition fold_log2 :: "i64 \<Rightarrow> i64" where
  "fold_log2 v = fold_log2_loop v 0"

section \<open>Operands and definitions\<close>

text \<open>\<open>in.Args[k]\<close>, panicking past the end; an instruction by its position.\<close>

definition arg_at :: "instr \<Rightarrow> nat \<Rightarrow> ref option" where
  "arg_at i k = (if k < length (in_Args i) then Some (in_Args i ! k) else None)"

type_synonym instr_pos = "bptr \<times> nat"

definition instr_at :: "func \<Rightarrow> instr_pos \<Rightarrow> instr" where
  "instr_at f = (\<lambda>(b, k). b_Instrs (blk f b) ! k)"

definition set_instr :: "instr_pos \<Rightarrow> instr \<Rightarrow> func \<Rightarrow> func" where
  "set_instr = (\<lambda>(b, k) i. upd_blk b (\<lambda>x. x\<lparr>b_Instrs := (b_Instrs x)[k := i]\<rparr>))"

text \<open>\<open>defMap\<close> holds pointers into the blocks, so it is read through the current function.\<close>

type_synonym defs = "nat \<Rightarrow> instr_pos option"

definition positions :: "func \<Rightarrow> instr_pos list" where
  "positions f = concat (map (\<lambda>b. map (Pair b) [0..<length (b_Instrs (blk f b))]) (f_Blocks f))"

definition defMap :: "func \<Rightarrow> defs" where
  "defMap f = fold (\<lambda>p def. let i = instr_at f p in
     if r_Kind (in_To i) = RefTemp then def(r_ID (in_To i) := Some p) else def) (positions f) (\<lambda>_. None)"

definition is_one :: "func \<Rightarrow> ref \<Rightarrow> bool option" where
  "is_one f r = map_option (\<lambda>c. c = Some 1) (constInt f r)"

definition isBoolean :: "func \<Rightarrow> defs \<Rightarrow> ref \<Rightarrow> bool option" where
  "isBoolean f def r =
     (if r_Kind r \<noteq> RefTemp then Some False
      else case def (r_ID r) of
        None \<Rightarrow> Some False
      | Some p \<Rightarrow> (let d = instr_at f p in
          if in_Op d = OCmp then Some True
          else if in_Op d = OAnd then
            Option.bind (arg_at d 0) (\<lambda>a. Option.bind (is_one f a) (\<lambda>x.
              if x then Some True else Option.bind (arg_at d 1) (is_one f)))
          else Some False))"

definition is_zero :: "func \<Rightarrow> ref \<Rightarrow> bool option" where
  "is_zero f r = map_option (\<lambda>c. c = Some 0) (constInt f r)"

definition zeroCmpOperand :: "func \<Rightarrow> instr \<Rightarrow> (ref \<times> cmp) option option" where
  "zeroCmpOperand f i =
     (if in_Op i \<noteq> OCmp \<or> (in_Cmp i \<noteq> CmpEq \<and> in_Cmp i \<noteq> CmpNe) then Some None
      else Option.bind (arg_at i 1) (\<lambda>b. Option.bind (is_zero f b) (\<lambda>z1. Option.bind (arg_at i 0) (\<lambda>a.
        if z1 then Some (Some (a, in_Cmp i))
        else Option.bind (is_zero f a) (\<lambda>z0. Some (if z0 then Some (b, in_Cmp i) else None))))))"

section \<open>Folding an instruction\<close>

text \<open>The constants known of the two operands are \<open>ca\<close> and \<open>cb\<close>.\<close>

definition binIdentity :: "func \<Rightarrow> instr \<Rightarrow> ref \<Rightarrow> ref \<Rightarrow> i64 option \<Rightarrow> i64 option \<Rightarrow> ref option \<times> func" where
  "binIdentity f i a b ca cb =
     (let o' = in_Op i; keep = (\<lambda>r. (Some r, f)); zero = map_prod Some id (func_ConstInt (in_Cls i) 0 f) in
      if o' = OAdd \<or> o' = OOr \<or> o' = OXor then
        (if cb = Some 0 then keep a else if ca = Some 0 then keep b
         else if o' = OOr \<and> a = b then keep a else (None, f))
      else if o' = OSub then (if cb = Some 0 then keep a else if a = b then zero else (None, f))
      else if o' = OShl \<or> o' = OShr \<or> o' = OSar then (if cb = Some 0 then keep a else (None, f))
      else if o' = OMul then
        (if cb = Some 0 \<or> ca = Some 0 then zero else if cb = Some 1 then keep a else if ca = Some 1 then keep b else (None, f))
      else if o' = ODiv \<or> o' = OUDiv then (if cb = Some 1 then keep a else (None, f))
      else if o' = OAnd then
        (if cb = Some 0 \<or> ca = Some 0 then zero else if cb = Some (-1) then keep a else if ca = Some (-1) then keep b
         else if a = b then keep a else (None, f))
      else (None, f))"

definition fold_const :: "cls \<Rightarrow> i64 \<Rightarrow> func \<Rightarrow> ref option \<times> func" where
  "fold_const c v f = map_prod Some id (func_ConstInt c v f)"

definition fold_binop :: "func \<Rightarrow> instr \<Rightarrow> (ref option \<times> func) option" where
  "fold_binop f i =
     (if cls_IsFloat (in_Cls i) then Some (None, f)
      else Option.bind (arg_at i 0) (\<lambda>a. Option.bind (arg_at i 1) (\<lambda>b.
        Option.bind (constInt f a) (\<lambda>ca. Option.bind (constInt f b) (\<lambda>cb.
        Some (case (ca, cb) of
          (Some x, Some y) \<Rightarrow> (case evalBinop (in_Op i) (in_Cls i) x y of
              Some v \<Rightarrow> fold_const (in_Cls i) v f
            | None \<Rightarrow> binIdentity f i a b ca cb)
        | _ \<Rightarrow> binIdentity f i a b ca cb))))))"

definition fold_neg :: "func \<Rightarrow> instr \<Rightarrow> (ref option \<times> func) option" where
  "fold_neg f i = (if cls_IsFloat (in_Cls i) then Some (None, f)
     else Option.bind (arg_at i 0) (\<lambda>a. Option.bind (constInt f a) (\<lambda>ca.
       Some (case ca of Some x \<Rightarrow> fold_const (in_Cls i) (truncCls (in_Cls i) (- x)) f | None \<Rightarrow> (None, f)))))"

definition fold_sel :: "func \<Rightarrow> instr \<Rightarrow> (ref option \<times> func) option" where
  "fold_sel f i = Option.bind (arg_at i 0) (\<lambda>c. Option.bind (constInt f c) (\<lambda>cc. case cc of
       Some x \<Rightarrow> Option.bind (arg_at i (if x \<noteq> 0 then 1 else 2)) (\<lambda>r. Some (Some r, f))
     | None \<Rightarrow> Option.bind (arg_at i 1) (\<lambda>a. Option.bind (arg_at i 2) (\<lambda>b. Some (if a = b then Some a else None, f)))))"

definition fold_ext :: "func \<Rightarrow> instr \<Rightarrow> (ref option \<times> func) option" where
  "fold_ext f i = Option.bind (arg_at i 0) (\<lambda>a. Option.bind (constInt f a) (\<lambda>ca.
     Some (case ca of Some x \<Rightarrow> fold_const (in_Cls i)
         (if in_Op i = OExtsw then int32_of x else if in_Op i = OExtuw then uint32_of x
          else if in_Op i = OExtsb then int8_of x else if in_Op i = OExtub then uint8_of x
          else if in_Op i = OExtsh then int16_of x else uint16_of x) f
     | None \<Rightarrow> (None, f))))"

text \<open>The last rule of \<open>OCmp\<close>: a test against zero of what is already 0 or 1.\<close>

definition fold_bool_test :: "func \<Rightarrow> defs \<Rightarrow> instr \<Rightarrow> (ref option \<times> func) option" where
  "fold_bool_test f def i =
     (if in_Cmp i \<noteq> CmpNe then Some (None, f)
      else Option.bind (zeroCmpOperand f i) (\<lambda>z. case z of
        None \<Rightarrow> Some (None, f)
      | Some (x, _) \<Rightarrow> Option.bind (isBoolean f def x) (\<lambda>bl.
          if \<not> bl then Some (None, f)
          else Option.bind (ClassOf f x) (\<lambda>c. Some (if c = in_Cls i then Some x else None, f)))))"

definition fold_cmp :: "func \<Rightarrow> defs \<Rightarrow> instr \<Rightarrow> (ref option \<times> func) option" where
  "fold_cmp f def i = Option.bind (arg_at i 0) (\<lambda>a. Option.bind (arg_at i 1) (\<lambda>b.
     if a = b \<and> \<not> cmp_IsFloat (in_Cmp i) then Some (fold_const (in_Cls i) (cmpReflexive (in_Cmp i)) f)
     else Option.bind (constInt f a) (\<lambda>ca. Option.bind (constInt f b) (\<lambda>cb.
       case (ca, cb, cmp_IsFloat (in_Cmp i)) of
         (Some x, Some y, False) \<Rightarrow> Option.bind (ClassOf f a) (\<lambda>c. Some (fold_const (in_Cls i) (evalCmp (in_Cmp i) c x y) f))
       | _ \<Rightarrow> fold_bool_test f def i))))"

definition foldInstr :: "func \<Rightarrow> defs \<Rightarrow> instr \<Rightarrow> (ref option \<times> func) option" where
  "foldInstr f def i =
     (if is_int_binop (in_Op i) then fold_binop f i
      else if in_Op i = ONeg then fold_neg f i
      else if in_Op i = OSel then fold_sel f i
      else if is_int_extend (in_Op i) then fold_ext f i
      else if in_Op i = OCmp then fold_cmp f def i
      else Some (None, f))"

definition shl_by :: "func \<Rightarrow> instr \<Rightarrow> ref \<Rightarrow> i64 \<Rightarrow> bool \<times> instr \<times> func" where
  "shl_by f i x c = (let (k, f') = func_ConstInt (in_Cls i) (fold_log2 c) f in (True, i\<lparr>in_Op := OShl, in_Args := [x, k]\<rparr>, f'))"

definition strengthReduce :: "func \<Rightarrow> instr \<Rightarrow> (bool \<times> instr \<times> func) option" where
  "strengthReduce f i =
     (if in_Op i \<noteq> OMul \<or> cls_IsFloat (in_Cls i) then Some (False, i, f)
      else Option.bind (arg_at i 0) (\<lambda>a. Option.bind (arg_at i 1) (\<lambda>b.
        Option.bind (constInt f b) (\<lambda>cb. case cb of
          Some y \<Rightarrow> if isPow2 y then Some (shl_by f i a y)
             else Option.bind (constInt f a) (\<lambda>ca. Some (case ca of Some x \<Rightarrow> if isPow2 x then shl_by f i b x else (False, i, f) | None \<Rightarrow> (False, i, f)))
        | None \<Rightarrow> Option.bind (constInt f a) (\<lambda>ca. Some (case ca of Some x \<Rightarrow> if isPow2 x then shl_by f i b x else (False, i, f) | None \<Rightarrow> (False, i, f)))))))"

text \<open>\<open>floatingComparison\<close> of \<open>opt/inline.go\<close>.\<close>

definition floatingComparison :: "cmp \<Rightarrow> cmp" where
  "floatingComparison c = (case c of
     CmpEq \<Rightarrow> CmpFeq | CmpNe \<Rightarrow> CmpFne
   | CmpSlt \<Rightarrow> CmpFlt | CmpUlt \<Rightarrow> CmpFlt | CmpSle \<Rightarrow> CmpFle | CmpUle \<Rightarrow> CmpFle
   | CmpSgt \<Rightarrow> CmpFgt | CmpUgt \<Rightarrow> CmpFgt | CmpSge \<Rightarrow> CmpFge | CmpUge \<Rightarrow> CmpFge
   | _ \<Rightarrow> c)"

section \<open>The pass\<close>

record fold_state =
  fs_fn :: func
  fs_subst :: subst
  fs_changed :: bool

definition fix_float_cmp :: "instr_pos \<Rightarrow> fold_state \<Rightarrow> fold_state option" where
  "fix_float_cmp p st =
     (let f = fs_fn st; i = instr_at f p in
      if in_Op i = OCmp \<and> in_Args i \<noteq> [] then
        Option.bind (ClassOf f (hd (in_Args i))) (\<lambda>c.
          Some (if cls_IsFloat c \<and> \<not> cmp_IsFloat (in_Cmp i)
                then st\<lparr>fs_fn := set_instr p (i\<lparr>in_Cmp := floatingComparison (in_Cmp i)\<rparr>) f, fs_changed := True\<rparr> else st))
      else Some st)"

definition fold_instr_step :: "defs \<Rightarrow> instr_pos \<Rightarrow> fold_state \<Rightarrow> fold_state option" where
  "fold_instr_step def p st0 = Option.bind (fix_float_cmp p st0) (\<lambda>st.
     let f = fs_fn st; i = instr_at f p in
     if ref_IsNone (in_To i) then Some st
     else Option.bind (foldInstr f def i) (\<lambda>(res, f1). case res of
       Some r \<Rightarrow> Option.bind (ClassOf f1 r) (\<lambda>c.
           Some (if c \<noteq> in_Cls i then st\<lparr>fs_fn := f1\<rparr>
                 else st\<lparr>fs_fn := set_instr p instr0 f1, fs_subst := (fs_subst st)(r_ID (in_To i) := Some r), fs_changed := True\<rparr>))
     | None \<Rightarrow> Option.bind (strengthReduce f1 i) (\<lambda>(red, i', f2).
           Some (st\<lparr>fs_fn := set_instr p i' f2, fs_changed := fs_changed st \<or> red\<rparr>))))"

definition foldBranch :: "func \<Rightarrow> defs \<Rightarrow> jmp \<Rightarrow> jmp option option" where
  "foldBranch f def j =
     (if j_Kind j \<noteq> JmpJnz \<or> r_Kind (j_Arg j) \<noteq> RefTemp then Some None
      else case def (r_ID (j_Arg j)) of
        None \<Rightarrow> Some None
      | Some p \<Rightarrow> Option.bind (zeroCmpOperand f (instr_at f p)) (\<lambda>z. Some (case z of
          None \<Rightarrow> None
        | Some (x, pred) \<Rightarrow> Some (if pred = CmpEq then j\<lparr>j_Arg := x, j_To := j_To2 j, j_To2 := j_To j\<rparr> else j\<lparr>j_Arg := x\<rparr>))))"

definition fold_branch_step :: "defs \<Rightarrow> bptr \<Rightarrow> fold_state \<Rightarrow> fold_state option" where
  "fold_branch_step def b st = Option.bind (foldBranch (fs_fn st) def (b_Jmp (blk (fs_fn st) b))) (\<lambda>r. case r of
       None \<Rightarrow> Some st
     | Some j \<Rightarrow> Some (st\<lparr>fs_fn := upd_blk b (\<lambda>x. x\<lparr>b_Jmp := j\<rparr>) (fs_fn st), fs_changed := True\<rparr>))"

definition Fold :: "func \<Rightarrow> (func \<times> bool) option" where
  "Fold f = (let def = defMap f in
     Option.bind (fold_opt (fold_instr_step def) (positions f) \<lparr>fs_fn = f, fs_subst = (\<lambda>_. None), fs_changed = False\<rparr>) (\<lambda>st1.
     Option.bind (fold_opt (fold_branch_step def) (f_Blocks f) st1) (\<lambda>st2.
       if fs_changed st2 then map_option (\<lambda>g. (removeNops g, True)) (applySubst (fs_subst st2) (fs_fn st2))
       else Some (fs_fn st2, False))))"

end
