(* ===== verification/Opt_Fold_Sound.thy ===== *)
theory Opt_Fold_Sound
  imports Opt_Fold
begin

lemma ucast32_hom:
  fixes x y :: "64 word"
  shows "(ucast (x + y) :: 32 word) = ucast x + ucast y" "(ucast (x - y) :: 32 word) = ucast x - ucast y"
    "(ucast (x * y) :: 32 word) = ucast x * ucast y" "(ucast (x AND y) :: 32 word) = ucast x AND ucast y"
    "(ucast (x OR y) :: 32 word) = ucast x OR ucast y" "(ucast (x XOR y) :: 32 word) = ucast x XOR ucast y"
    "(ucast (push_bit n x) :: 32 word) = push_bit n (ucast x)" "(ucast (- x) :: 32 word) = - ucast x"
proof -
  have t: "take_bit 32 (take_bit 64 x) = take_bit 32 x" for x :: int by simp
  have "take_bit 32 (take_bit 64 x + take_bit 64 y) = take_bit 32 (x + y)" for x y :: int
    using take_bit_add[of 32 "take_bit 64 x" "take_bit 64 y"] take_bit_add[of 32 x y] by (simp only: t)
  then show "(ucast (x + y) :: 32 word) = ucast x + ucast y" by transfer (simp add: take_bit_add)
  have "take_bit 32 (take_bit 64 x - take_bit 64 y) = take_bit 32 (x - y)" for x y :: int
    using take_bit_diff[of 32 "take_bit 64 x" "take_bit 64 y"] take_bit_diff[of 32 x y] by (simp only: t)
  then show "(ucast (x - y) :: 32 word) = ucast x - ucast y" by transfer (simp add: take_bit_diff)
  have "take_bit 32 (take_bit 64 x * take_bit 64 y) = take_bit 32 (x * y)" for x y :: int
    using take_bit_mult[of 32 "take_bit 64 x" "take_bit 64 y"] take_bit_mult[of 32 x y] by (simp only: t)
  then show "(ucast (x * y) :: 32 word) = ucast x * ucast y" by transfer (simp add: take_bit_mult)
  have "take_bit 32 (- take_bit 64 x) = take_bit 32 (- x)" for x :: int
    using take_bit_minus[of 32 "take_bit 64 x"] take_bit_minus[of 32 x] by (simp only: t)
  then show "(ucast (- x) :: 32 word) = - ucast x" by transfer (simp add: take_bit_minus)
  show "(ucast (x AND y) :: 32 word) = ucast x AND ucast y" "(ucast (x OR y) :: 32 word) = ucast x OR ucast y" "(ucast (x XOR y) :: 32 word) = ucast x XOR ucast y"
    "(ucast (push_bit n x) :: 32 word) = push_bit n (ucast x)"
    by (rule bit_word_eqI; auto simp: bit_simps)+
qed

text \<open>Two numbers an operation of class \<open>c\<close> cannot tell apart.\<close>

definition reads :: "cls \<Rightarrow> i64 \<Rightarrow> i64 \<Rightarrow> bool" where
  "reads c x y \<longleftrightarrow> (if c = ClsW then (ucast x :: 32 word) = ucast y else x = y)"

lemma reads_refl [simp]: "reads c x x"
  by (simp add: reads_def)

lemma readsD:
  assumes "reads c x y"
  shows "asSigned c x = asS c y" "asUnsigned c x = asU c y" "truncInt c x = truncCls c y" "intVal c x = intVal c y"
    "shiftAmount c x = unat (y AND of_nat (fold_shiftMask c))"
proof -
  have m: "z AND 31 = uint32_of z AND 31" for z :: i64
  proof -
    have "z AND mask 5 = uint32_of z AND mask 5" by (rule bit_word_eqI) (auto simp: uint32_of_def bit_simps simp del: mask_numeral)
    moreover have "(31 :: i64) = mask 5" by (simp add: mask_eq_exp_minus_1)
    ultimately show ?thesis by metis
  qed
  show "asSigned c x = asS c y" "asUnsigned c x = asU c y" "truncInt c x = truncCls c y" "intVal c x = intVal c y"
    using assms by (auto simp: reads_def asSigned_def asS_def asUnsigned_def asU_def truncInt_def truncCls_def intVal_def Let_def normCls_def
        intro: int32_of_cong uint32_of_cong)
  show "shiftAmount c x = unat (y AND of_nat (fold_shiftMask c))"
    using assms m[of x] m[of y] uint32_of_cong[of x y] by (auto simp: reads_def shiftAmount_def shiftMask_def fold_shiftMask_def)
qed

lemma reads_hom:
  assumes "reads c x a" "reads c y b"
  shows "reads c (x + y) (a + b)" "reads c (x - y) (a - b)" "reads c (x * y) (a * b)" "reads c (x AND y) (a AND b)"
    "reads c (x OR y) (a OR b)" "reads c (x XOR y) (a XOR b)" "reads c (push_bit n x) (push_bit n a)" "reads c (- x) (- a)"
  using assms by (auto simp: reads_def ucast32_hom)

lemma intBinop_evalBinop:
  assumes "is_int_binop o'" "reads c (val_i64 av) a" "reads c (val_i64 bv) b"
  shows "intBinop z o' c av bv = (case evalBinop o' c a b of Some v \<Rightarrow> Inr (intVal c v)
     | None \<Rightarrow> if z then Inr (intVal c 0) else Inl DivideByZero)"
proof -
  note r = readsD[OF assms(2)] readsD[OF assms(3)]
  note h = reads_hom[OF assms(2,3), THEN readsD(3)]
  show ?thesis
    using assms(1) unfolding intBinop_def evalBinop_def is_int_binop_def Let_def r h
    by (auto simp: truncInt_def truncCls_def)
qed

section \<open>Operands\<close>

definition w_consts :: "func \<Rightarrow> bool" where
  "w_consts f \<longleftrightarrow> (\<forall>c \<in> set (f_Consts f). c_Kind c = ConstInt \<and> c_Cls c = ClsW \<longrightarrow> int32_of (c_Int c) = c_Int c)"

lemma constInt_value:
  assumes "w_consts (fr_fn fr)" "constInt (fr_fn fr) r = Some (Some x)" "evalRef fo mc fr r = Inr w"
  shows "val_i64 w = x" "val_u64 w \<noteq> 0 \<longleftrightarrow> x \<noteq> 0"
proof -
  let ?k = "f_Consts (fr_fn fr) ! r_ID r"
  have k: "r_Kind r = RefConst" "r_ID r < length (f_Consts (fr_fn fr))" "c_Kind ?k = ConstInt" "x = c_Int ?k"
    using assms(2) by (auto simp: constInt_def Let_def split: if_splits)
  then have w: "w = intVal (c_Cls ?k) x" using assms(3) by (simp add: evalRef_def evalConst_def)
  have "c_Cls ?k = ClsW \<Longrightarrow> int32_of x = x" using assms(1) k nth_mem unfolding w_consts_def by metis
  then show v: "val_i64 w = x" unfolding w by (auto simp: val_i64_intVal truncInt_def)
  have "uint32_of x \<noteq> 0 \<longleftrightarrow> x \<noteq> 0" if "int32_of x = x"
    using that uint32_of_eq_iff[of x 0] int32_of_eq_iff[of x 0] by simp
  then show "val_u64 w \<noteq> 0 \<longleftrightarrow> x \<noteq> 0" unfolding w using \<open>c_Cls ?k = ClsW \<Longrightarrow> int32_of x = x\<close>
    by (auto simp: val_u64_intVal asUnsigned_def)
qed

lemma int_operand_value:
  assumes "operand_typed c w" "cls_IsInt c"
  shows "asClass c w = intVal c (val_i64 w)"
  using assms by (auto simp: operand_typed_def same_bank_def asClass_def Let_def intVal_def val_i64_def canonical_def normCls_def cls_IsInt_def)

text \<open>Growing the constant pool changes no operand.\<close>

lemma evalRef_grow:
  assumes "f_Temps f' = f_Temps (fr_fn fr)" "\<exists>cs. f_Consts f' = f_Consts (fr_fn fr) @ cs" "evalRef fo mc fr r = Inr w"
  shows "evalRef fo mc (fr\<lparr>fr_fn := f'\<rparr>) r = Inr w"
proof -
  have ec: "evalConst fo mc c = evalConst fo mc c" for c ..
  show ?thesis using assms by (auto simp: evalRef_def nth_append split: refkind.splits if_splits)
qed

lemma fold_const_value:
  assumes "constIdx_ok f" "fold_const c x f = (Some r, f')"
  shows "evalRef fo mc (fr\<lparr>fr_fn := f'\<rparr>) r = Inr (intVal c x)"
proof -
  have "func_ConstInt c x f = (r, f')" using assms(2) by (cases "func_ConstInt c x f") (simp add: fold_const_def)
  from func_ConstInt_get[OF assms(1) this] show ?thesis by (simp add: evalRef_def evalConst_def)
qed

section \<open>Identities\<close>

lemma asS_1 [simp]: "asS c 1 = 1" "asU c 1 = 1" "asS c 0 = 0" "asU c 0 = 0" "truncCls c 0 = 0"
  by (simp_all add: asS_def asU_def truncCls_def uint32_of_def)

lemma truncCls_canon: "truncCls c (asS c x) = truncCls c x" "truncCls c (asU c x) = truncCls c x"
  by (simp_all add: truncCls_def asS_def asU_def)

lemma go_sdiv_1: "go_sdiv x 1 = x"
  by (simp add: go_sdiv_def)

lemma evalBinop_identity:
  "o' \<in> {OAdd, OOr, OXor, OSub, OShl, OShr, OSar} \<Longrightarrow> evalBinop o' c x 0 = Some (truncCls c x)"
  "o' \<in> {OAdd, OOr, OXor} \<Longrightarrow> evalBinop o' c 0 x = Some (truncCls c x)"
  "o' \<in> {OMul, ODiv, OUDiv} \<Longrightarrow> evalBinop o' c x 1 = Some (truncCls c x)"
  "evalBinop OMul c 1 x = Some (truncCls c x)" "evalBinop OAnd c x (-1) = Some (truncCls c x)" "evalBinop OAnd c (-1) x = Some (truncCls c x)"
  "o' \<in> {OMul, OAnd} \<Longrightarrow> evalBinop o' c x 0 = Some 0" "o' \<in> {OMul, OAnd} \<Longrightarrow> evalBinop o' c 0 x = Some 0"
  "evalBinop OSub c x x = Some 0" "o' \<in> {OAnd, OOr} \<Longrightarrow> evalBinop o' c x x = Some (truncCls c x)"
  by (auto simp: evalBinop_def Let_def truncCls_canon go_sdiv_1)

section \<open>Soundness of a fold\<close>

text \<open>Reading \<open>r\<close> in the new function gives the value \<open>v\<close> has in class \<open>c\<close>.\<close>

definition stands_for :: "float_ops \<Rightarrow> machine \<Rightarrow> frame \<Rightarrow> func \<Rightarrow> cls \<Rightarrow> ref \<Rightarrow> val \<Rightarrow> bool" where
  "stands_for fo mc fr f' c r v \<longleftrightarrow> (\<exists>w. evalRef fo mc (fr\<lparr>fr_fn := f'\<rparr>) r = Inr w \<and> asClass c w = asClass c v)"

lemma stands_for_const: "constIdx_ok f \<Longrightarrow> fold_const c x f = (Some r, f') \<Longrightarrow> stands_for fo mc fr f' c r (intVal c x)"
  unfolding stands_for_def using fold_const_value by blast

lemma asClass_intVal [simp]: "asClass c (intVal c x) = intVal c x"
  by (simp add: asClass_same)

lemma stands_for_operand:
  assumes "frame_typed fr" "fr_fn fr = f" "evalRef fo mc fr r = Inr w" "ClassOf f r = Some c" "cls_IsInt c" "v = intVal c (val_i64 w)"
  shows "stands_for fo mc fr f c r v"
proof -
  have "operand_typed c w" using evalRef_typed assms(1-4) by blast
  then show ?thesis using int_operand_value assms unfolding stands_for_def by fastforce
qed

lemma intVal_truncCls [simp]: "intVal c (truncCls c x) = intVal c x"
  by (simp add: truncCls_def intVal_def Let_def normCls_def)

lemma binIdentity_sound:
  assumes fr: "frame_typed fr" "fr_fn fr = f" "w_consts f" "constIdx_ok f" and i: "is_int_binop (in_Op i)" "cls_IsInt (in_Cls i)"
    and av: "evalRef fo mc fr a = Inr av" "constInt f a = Some ca" and bv: "evalRef fo mc fr b = Inr bv" "constInt f b = Some cb"
    and v: "intBinop z (in_Op i) (in_Cls i) av bv = Inr v"
    and r: "binIdentity f i a b ca cb = (Some r, f')" "ClassOf f' r = Some (in_Cls i)"
  shows "stands_for fo mc fr f' (in_Cls i) r v"
proof -
  let ?c = "in_Cls i" and ?o = "in_Op i"
  have e: "Inr v = (case evalBinop ?o ?c (val_i64 av) (val_i64 bv) of Some y \<Rightarrow> Inr (intVal ?c y) | None \<Rightarrow> if z then Inr (intVal ?c 0) else Inl DivideByZero)"
    unfolding v[symmetric] by (rule intBinop_evalBinop[OF i(1)]) simp_all
  have ca: "ca = Some x \<Longrightarrow> val_i64 av = x" and cb: "cb = Some x \<Longrightarrow> val_i64 bv = x" for x
    using constInt_value[of fr _ _ fo mc] fr(2,3) av bv by blast+
  have same: "a = b \<Longrightarrow> av = bv" using av(1) bv(1) by simp
  have keep: "stands_for fo mc fr f ?c a v" if "evalBinop ?o ?c (val_i64 av) (val_i64 bv) = Some (truncCls ?c (val_i64 av))" "ClassOf f a = Some ?c"
    using stands_for_operand[OF fr(1,2) av(1) that(2) i(2)] e that(1) by simp
  have keep': "stands_for fo mc fr f ?c b v" if "evalBinop ?o ?c (val_i64 av) (val_i64 bv) = Some (truncCls ?c (val_i64 bv))" "ClassOf f b = Some ?c"
    using stands_for_operand[OF fr(1,2) bv(1) that(2) i(2)] e that(1) by simp
  have zero: "stands_for fo mc fr f' ?c r v" if "evalBinop ?o ?c (val_i64 av) (val_i64 bv) = Some 0" "map_prod Some id (func_ConstInt ?c 0 f) = (Some r, f')"
    using stands_for_const[OF fr(4), of ?c 0 r f'] e that by (simp add: fold_const_def)
  consider "?o \<in> {OAdd, OOr, OXor}" | "?o = OSub" | "?o \<in> {OShl, OShr, OSar}" | "?o = OMul" | "?o \<in> {ODiv, OUDiv}" | "?o = OAnd" | "?o \<in> {ORem, OURem}"
    using i(1) by (auto simp: is_int_binop_def)
  then show ?thesis
  proof cases
    case 1
    then show ?thesis using r keep keep' ca cb same evalBinop_identity(1,2,10)[of ?o ?c] by (auto simp: binIdentity_def Let_def split: if_splits)
  next
    case 2
    then show ?thesis using r keep zero cb same evalBinop_identity(1)[of ?o ?c] evalBinop_identity(9) by (auto simp: binIdentity_def Let_def split: if_splits)
  next
    case 3
    then show ?thesis using r keep cb evalBinop_identity(1)[of ?o ?c] by (auto simp: binIdentity_def Let_def split: if_splits)
  next
    case 4
    then show ?thesis using r keep keep' zero ca cb evalBinop_identity(3,7,8)[of ?o ?c] evalBinop_identity(4) by (auto simp: binIdentity_def Let_def split: if_splits)
  next
    case 5
    then show ?thesis using r keep cb evalBinop_identity(3)[of ?o ?c] by (auto simp: binIdentity_def Let_def split: if_splits)
  next
    case 6
    then show ?thesis using r keep keep' zero ca cb same evalBinop_identity(7,8,10)[of ?o ?c] evalBinop_identity(5,6) by (auto simp: binIdentity_def Let_def split: if_splits)
  next
    case 7
    then show ?thesis using r by (auto simp: binIdentity_def Let_def split: if_splits)
  qed
qed

section \<open>Each rule\<close>

text \<open>What a fold is asked to preserve: \<open>r\<close> has the class of \<open>i\<close> and reads as the value \<open>v\<close> of \<open>i\<close>.\<close>

lemma arg_at_iff: "arg_at i k = Some r \<longleftrightarrow> k < length (in_Args i) \<and> instr_Arg i k = r"
  by (auto simp: arg_at_def instr_Arg_def)

lemma fold_binop_sound:
  assumes fr: "frame_typed fr" "fr_fn fr = f" "w_consts f" "constIdx_ok f" and i: "is_int_binop (in_Op i)" "in_Cls i \<noteq> ClsQ"
    and v: "evalValueOp fo mc fr i = Inr v"
    and r: "fold_binop f i = Some (Some r, f')" "ClassOf f' r = Some (in_Cls i)"
  shows "stands_for fo mc fr f' (in_Cls i) r v"
proof -
  let ?c = "in_Cls i" and ?o = "in_Op i"
  obtain a b ca cb where ab: "instr_Arg i 0 = a" "instr_Arg i 1 = b" "constInt f a = Some ca" "constInt f b = Some cb"
    and nf: "\<not> cls_IsFloat ?c"
    and res: "(case (ca, cb) of (Some x, Some y) \<Rightarrow> (case evalBinop ?o ?c x y of Some w \<Rightarrow> fold_const ?c w f | None \<Rightarrow> binIdentity f i a b ca cb)
        | _ \<Rightarrow> binIdentity f i a b ca cb) = (Some r, f')"
    using r(1) by (auto simp: fold_binop_def bind_eq_Some_conv arg_at_iff split: if_splits)
  have int: "cls_IsInt ?c" using nf cls_split(2) by blast
  obtain av bv where av: "evalRef fo mc fr a = Inr av" and bv: "evalRef fo mc fr b = Inr bv"
    and vv: "intBinop (mc_divZeroZero mc) ?o ?c av bv = Inr v"
    using v i(1) ab nf by (auto simp: evalValueOp_def Let_def e_then_Inr)
  show ?thesis
  proof (cases "\<exists>x y w. ca = Some x \<and> cb = Some y \<and> evalBinop ?o ?c x y = Some w")
    case True
    then obtain x y w where x: "ca = Some x" "cb = Some y" "evalBinop ?o ?c x y = Some w" by blast
    have "val_i64 av = x" "val_i64 bv = y" using constInt_value(1)[of fr] fr(2,3) av bv ab x by blast+
    then have "v = intVal ?c w" using intBinop_evalBinop[OF i(1), of ?c av x bv y] x(3) vv by simp
    then show ?thesis using stands_for_const[OF fr(4)] res x by simp
  next
    case False
    then have "binIdentity f i a b ca cb = (Some r, f')" using res by (auto split: option.splits)
    then show ?thesis using binIdentity_sound[OF fr i(1) int av ab(3) bv ab(4) vv _ r(2)] by blast
  qed
qed

lemma fold_neg_sound:
  assumes fr: "fr_fn fr = f" "w_consts f" "constIdx_ok f" and i: "in_Op i = ONeg"
    and v: "evalValueOp fo mc fr i = Inr v" and r: "fold_neg f i = Some (Some r, f')"
  shows "stands_for fo mc fr f' (in_Cls i) r v"
proof -
  obtain a x where a: "instr_Arg i 0 = a" "constInt f a = Some (Some x)" "\<not> cls_IsFloat (in_Cls i)"
    and r': "fold_const (in_Cls i) (truncCls (in_Cls i) (- x)) f = (Some r, f')"
    using r by (auto simp: fold_neg_def bind_eq_Some_conv arg_at_iff split: if_splits option.splits)
  obtain av where av: "evalRef fo mc fr a = Inr av" "v = intVal (in_Cls i) (truncInt (in_Cls i) (- val_i64 av))"
    using v a i by (auto simp: evalValueOp_def Let_def e_then_Inr is_int_binop_def)
  have "val_i64 av = x" using constInt_value(1)[of fr] fr a av by blast
  then have "v = intVal (in_Cls i) (truncCls (in_Cls i) (- x))" using av(2) by (simp add: intVal_canon)
  then show ?thesis using stands_for_const[OF fr(3) r'] by simp
qed

lemma fold_ext_sound:
  assumes fr: "fr_fn fr = f" "w_consts f" "constIdx_ok f" and i: "is_int_extend (in_Op i)"
    and v: "evalValueOp fo mc fr i = Inr v" and r: "fold_ext f i = Some (Some r, f')"
  shows "stands_for fo mc fr f' (in_Cls i) r v"
proof -
  obtain a x where a: "instr_Arg i 0 = a" "constInt f a = Some (Some x)"
    and r': "fold_const (in_Cls i) (extendInt (in_Op i) x) f = (Some r, f')"
    using r i by (auto simp: fold_ext_def extendInt_def is_int_extend_def bind_eq_Some_conv arg_at_iff split: option.splits)
  obtain av where av: "evalRef fo mc fr a = Inr av" "v = intVal (in_Cls i) (extendInt (in_Op i) (val_i64 av))"
    using v a i by (auto simp: evalValueOp_def Let_def e_then_Inr is_int_binop_def is_int_extend_def)
  have "val_i64 av = x" using constInt_value(1)[of fr] fr a av by blast
  then show ?thesis using stands_for_const[OF fr(3) r'] av(2) by simp
qed

lemma stands_for_asClass:
  assumes "fr_fn fr = f" "evalRef fo mc fr r = Inr w"
  shows "stands_for fo mc fr f c r (asClass c w)"
proof -
  have "fr\<lparr>fr_fn := f\<rparr> = fr" using assms(1) by simp
  then show ?thesis using assms(2) by (auto simp: stands_for_def asClass_same)
qed

lemma fold_sel_sound:
  assumes fr: "fr_fn fr = f" "w_consts f" and i: "in_Op i = OSel"
    and v: "evalValueOp fo mc fr i = Inr v" and r: "fold_sel f i = Some (Some r, f')"
  shows "stands_for fo mc fr f' (in_Cls i) r v"
proof -
  obtain c cc where c: "instr_Arg i 0 = c" "constInt f c = Some cc"
    and r': "case cc of Some x \<Rightarrow> instr_Arg i (if x \<noteq> 0 then 1 else 2) = r \<and> f' = f
        | None \<Rightarrow> instr_Arg i 1 = r \<and> instr_Arg i 2 = r \<and> f' = f"
    using r by (auto simp: fold_sel_def bind_eq_Some_conv arg_at_iff split: option.splits if_split_asm)
  obtain cv w where cv: "evalRef fo mc fr c = Inr cv" "evalRef fo mc fr (instr_Arg i (if val_u64 cv \<noteq> 0 then 1 else 2)) = Inr w" "v = asClass (in_Cls i) w"
    using v c i by (auto simp: evalValueOp_def Let_def e_then_Inr is_int_binop_def)
  have "cc = Some x \<Longrightarrow> val_u64 cv \<noteq> 0 \<longleftrightarrow> x \<noteq> 0" for x using constInt_value(2)[of fr] fr c cv(1) by blast
  then have "evalRef fo mc fr r = Inr w \<and> f' = f" using r' cv(2) by (auto split: option.splits if_splits)
  then show ?thesis using stands_for_asClass fr(1) cv(3) by blast
qed

section \<open>Comparisons\<close>

lemma intCmp_refl: "intCmp p c x x = (cmpReflexive p = 1)"
  by (cases p) (simp_all add: intCmp_def cmpReflexive_def)

lemma cmpReflexive_b2i: "cmpReflexive p = b2i (intCmp p c x x)"
  unfolding intCmp_refl by (simp add: cmpReflexive_def b2i_def)

lemma evalCmp_intCmp: "evalCmp p c x y = b2i (intCmp p c x y)"
  by (cases p) (simp_all add: evalCmp_def intCmp_def Let_def asS_def asU_def asSigned_def asUnsigned_def)

text \<open>Every temporary \<open>isBoolean\<close> accepts holds 0 or 1.\<close>

definition booleans_hold :: "float_ops \<Rightarrow> machine \<Rightarrow> frame \<Rightarrow> defs \<Rightarrow> bool" where
  "booleans_hold fo mc fr def \<longleftrightarrow> (\<forall>x w. isBoolean (fr_fn fr) def x = Some True \<longrightarrow> evalRef fo mc fr x = Inr w \<longrightarrow> val_i64 w \<in> {0, 1})"

lemma intCmp_ne_0: "val \<in> {0, 1} \<Longrightarrow> b2i (intCmp CmpNe c val 0) = val" "val \<in> {0, 1} \<Longrightarrow> b2i (intCmp CmpNe c 0 val) = val"
  by (auto simp: intCmp_def b2i_def asSigned_def)

lemma fold_bool_test_sound:
  assumes fr: "frame_typed fr" "fr_fn fr = f" "w_consts f" "booleans_hold fo mc fr def" and i: "in_Op i = OCmp" "cls_IsInt (in_Cls i)"
    and v: "interp_evalCmp fo mc fr i = Inr v" and r: "fold_bool_test f def i = Some (Some r, f')"
  shows "stands_for fo mc fr f' (in_Cls i) r v"
proof -
  have ne: "in_Cmp i = CmpNe" using r by (simp add: fold_bool_test_def split: if_split_asm)
  obtain x p where z0: "zeroCmpOperand f i = Some (Some (x, p))"
    using r ne by (cases "zeroCmpOperand f i") (auto simp: fold_bool_test_def split: option.split_asm)
  then have bl0: "isBoolean f def x = Some True" using r ne by (cases "isBoolean f def x") (auto simp: fold_bool_test_def split: if_split_asm)
  then obtain c where "ClassOf f x = Some c" using r ne z0 by (cases "ClassOf f x") (auto simp: fold_bool_test_def)
  then have "c = in_Cls i \<and> x = r \<and> f' = f" using r ne z0 bl0 by (simp add: fold_bool_test_def split: if_split_asm)
  with z0 bl0 \<open>ClassOf f x = Some c\<close> have z: "zeroCmpOperand f i = Some (Some (r, p))" and bl: "isBoolean f def r = Some True"
    and c: "ClassOf f r = Some (in_Cls i)" and f': "f' = f" by simp_all
  obtain a b ac where a: "evalRef fo mc fr (instr_Arg i 0) = Inr a" and b: "evalRef fo mc fr (instr_Arg i 1) = Inr b"
    and vv: "v = intVal (in_Cls i) (b2i (intCmp CmpNe ac (val_i64 a) (val_i64 b)))"
    using v ne by (auto simp: interp_evalCmp_def e_then_Inr cmp_IsFloat_def split: option.splits)
  have zero: "is_zero f x = Some True \<Longrightarrow> evalRef fo mc fr x = Inr w \<Longrightarrow> val_i64 w = 0" for x w
    using constInt_value(1)[of fr x 0] fr(2,3) by (auto simp: is_zero_def)
  have "(instr_Arg i 0 = r \<and> val_i64 b = 0) \<or> (instr_Arg i 1 = r \<and> val_i64 a = 0)"
    using z i(1) ne zero a b by (auto simp: zeroCmpOperand_def bind_eq_Some_conv arg_at_iff split: if_splits)
  then obtain w where w: "evalRef fo mc fr r = Inr w" "v = intVal (in_Cls i) (val_i64 w)"
    using a b vv fr(2,4) bl by (auto simp: booleans_hold_def intCmp_ne_0)
  show ?thesis unfolding f' by (rule stands_for_operand[OF fr(1,2) w(1) c i(2) w(2)])
qed

lemma fold_cmp_sound:
  assumes fr: "frame_typed fr" "fr_fn fr = f" "w_consts f" "constIdx_ok f" "booleans_hold fo mc fr def"
    and i: "in_Op i = OCmp" "cls_IsInt (in_Cls i)"
    and v: "evalValueOp fo mc fr i = Inr v" and r: "fold_cmp f def i = Some (Some r, f')"
  shows "stands_for fo mc fr f' (in_Cls i) r v"
proof -
  have vv: "interp_evalCmp fo mc fr i = Inr v" using v i(1) by (simp add: evalValueOp_def Let_def is_int_binop_def)
  then obtain a b ac where a: "evalRef fo mc fr (instr_Arg i 0) = Inr a" and b: "evalRef fo mc fr (instr_Arg i 1) = Inr b"
    and ac: "ClassOf f (instr_Arg i 0) = Some ac"
    and vi: "\<not> cmp_IsFloat (in_Cmp i) \<Longrightarrow> v = intVal (in_Cls i) (b2i (intCmp (in_Cmp i) ac (val_i64 a) (val_i64 b)))"
    using fr(2) by (auto simp: interp_evalCmp_def e_then_Inr split: option.splits)
  consider (same) "instr_Arg i 0 = instr_Arg i 1" "\<not> cmp_IsFloat (in_Cmp i)" "fold_const (in_Cls i) (cmpReflexive (in_Cmp i)) f = (Some r, f')"
    | (both) x y where "constInt f (instr_Arg i 0) = Some (Some x)" "constInt f (instr_Arg i 1) = Some (Some y)" "\<not> cmp_IsFloat (in_Cmp i)"
        "fold_const (in_Cls i) (evalCmp (in_Cmp i) ac x y) f = (Some r, f')"
    | (bool) "fold_bool_test f def i = Some (Some r, f')"
    using r ac by (auto simp: fold_cmp_def bind_eq_Some_conv arg_at_iff split: if_split_asm option.splits bool.splits)
  then show ?thesis
  proof cases
    case same
    then have "v = intVal (in_Cls i) (cmpReflexive (in_Cmp i))" using a b vi cmpReflexive_b2i by simp
    then show ?thesis using stands_for_const[OF fr(4) same(3)] by simp
  next
    case both
    then have "val_i64 a = x" "val_i64 b = y" using constInt_value(1)[of fr] fr(2,3) a b by blast+
    then show ?thesis using stands_for_const[OF fr(4) both(4)] vi both(3) evalCmp_intCmp by simp
  next
    case bool
    then show ?thesis using fold_bool_test_sound[OF fr(1,2,3,5) i vv] by blast
  qed
qed

text \<open>What \<open>isBoolean\<close> looks for does produce 0 or 1.\<close>

lemma isBoolean_defining:
  assumes "isBoolean f def x = Some True" "def (r_ID x) = Some p" "instr_at f p = d"
    and fr: "fr_fn fr = f" "w_consts f" and v: "evalValueOp fo mc fr d = Inr v" and int: "cls_IsInt (in_Cls d)"
  shows "val_i64 (asClass (in_Cls d) v) \<in> {0, 1}"
proof (cases "in_Op d = OCmp")
  case True
  then have "interp_evalCmp fo mc fr d = Inr v" using v by (simp add: evalValueOp_def Let_def is_int_binop_def)
  then obtain t where "v = intVal (in_Cls d) (b2i t)" by (auto simp: interp_evalCmp_def e_then_Inr split: option.splits)
  then show ?thesis by (auto simp: val_i64_intVal truncInt_def b2i_def)
next
  case False
  then have o: "in_Op d = OAnd" and one: "is_one f (instr_Arg d 0) = Some True \<or> is_one f (instr_Arg d 1) = Some True"
    using assms(1-3) by (auto simp: isBoolean_def Let_def bind_eq_Some_conv arg_at_iff split: if_split_asm)
  have "\<not> cls_IsFloat (in_Cls d)" using int cls_split(2) by blast
  then obtain a b where ab: "evalRef fo mc fr (instr_Arg d 0) = Inr a" "evalRef fo mc fr (instr_Arg d 1) = Inr b"
    "v = intVal (in_Cls d) (truncInt (in_Cls d) (val_i64 a AND val_i64 b))"
    using v o by (auto simp: evalValueOp_def Let_def e_then_Inr is_int_binop_def intBinop_def)
  have "is_one f x = Some True \<Longrightarrow> evalRef fo mc fr x = Inr w \<Longrightarrow> val_i64 w = 1" for x w
    using constInt_value(1)[of fr x 1] fr by (auto simp: is_one_def)
  then have "val_i64 a = 1 \<or> val_i64 b = 1" using one ab by blast
  then have "val_i64 a AND val_i64 b \<in> {0, 1}" by (auto simp: and_one_eq one_and_eq mod_2_eq_odd)
  then show ?thesis using ab(3) by (auto simp: val_i64_intVal truncInt_def)
qed

section \<open>Multiplication by a power of two\<close>

lemma int_pow2_step:
  fixes v :: int
  assumes "1 < v" "v AND (v - 1) = 0"
  shows "even v" "v div 2 AND (v div 2 - 1) = 0"
proof -
  show ev: "even v"
  proof (rule ccontr)
    assume "odd v"
    then obtain w where w: "v = 2 * w + 1" by (elim oddE)
    then have "v div 2 = w" "(v - 1) div 2 = w" by simp_all
    then have "(v AND (v - 1)) div 2 = w" using and_rec[of v "v - 1"] by simp
    then have "w = 0" using assms(2) by simp
    then show False using assms(1) w by simp
  qed
  then obtain w where w: "v = 2 * w" by (elim evenE)
  then have "v div 2 = w" "(v - 1) div 2 = w - 1" by simp_all
  then show "v div 2 AND (v div 2 - 1) = 0" using and_rec[of v "v - 1"] assms(2) ev by simp
qed

lemma fold_log2_loop_pow2:
  "0 < sint v \<Longrightarrow> sint v AND (sint v - 1) = 0 \<Longrightarrow> \<exists>k. sint v = 2 ^ k \<and> fold_log2_loop v n = n + of_nat k"
proof (induction v n rule: fold_log2_loop.induct)
  case (1 v n)
  show ?case
  proof (cases "1 <s v")
    case True
    then have v: "1 < sint v" by (simp add: word_sless_alt)
    have h: "sint (signed_drop_bit 1 v) = sint v div 2" by (simp add: sint_signed_drop_bit_eq drop_bit_eq_div)
    have e: "even (sint v)" "sint v div 2 AND (sint v div 2 - 1) = 0" using int_pow2_step[OF v 1(3)] by auto
    have p: "0 < sint (signed_drop_bit 1 v)" "sint (signed_drop_bit 1 v) AND (sint (signed_drop_bit 1 v) - 1) = 0"
      unfolding h using v e(2) by linarith+
    from 1(1)[OF True p] obtain k where k: "sint (signed_drop_bit 1 v) = 2 ^ k" "fold_log2_loop (signed_drop_bit 1 v) (n + 1) = n + 1 + of_nat k"
      by blast
    then have "sint v = 2 ^ Suc k" using e(1) unfolding h by (metis dvd_mult_div_cancel power_Suc)
    moreover have "fold_log2_loop v n = n + of_nat (Suc k)" using k(2) True by (simp del: fold_log2_loop.simps add: fold_log2_loop.simps[of v n])
    ultimately show ?thesis by blast
  next
    case False
    then have "sint v = 2 ^ 0" using 1(2) by (simp add: word_sless_alt)
    moreover have "fold_log2_loop v n = n + of_nat 0" using False by (simp add: fold_log2_loop.simps[of v n])
    ultimately show ?thesis by blast
  qed
qed

lemma isPow2_log2:
  assumes "isPow2 v"
  obtains k where "v = 2 ^ k" "fold_log2 v = of_nat k" "k < 63" "int32_of v = v \<Longrightarrow> k < 31"
proof -
  have v: "1 < sint v" using assms by (simp add: isPow2_def word_sless_alt)
  have "sint (v - 1) = sint v - 1"
    using v sint_lt[of v] by (subst sint_word_ariths(2)) (simp add: signed_take_bit_int_eq_self)
  moreover have "sint (v AND (v - 1)) = sint v AND sint (v - 1)" by (rule bit_eqI) (auto simp: bit_simps)
  ultimately have "sint v AND (sint v - 1) = 0" using assms by (simp add: isPow2_def)
  then obtain k where k: "sint v = 2 ^ k" "fold_log2_loop v 0 = 0 + of_nat k" using fold_log2_loop_pow2[of v 0] v by auto
  have "v = word_of_int (sint v)" by simp
  then have "v = 2 ^ k" unfolding k(1) by simp
  moreover have "(2 :: int) ^ k < 2 ^ 63" using sint_lt[of v] k(1) by simp
  then have "k < 63" by (rule power_less_imp_less_exp[rotated]) simp
  moreover have "k < 31" if "int32_of v = v"
  proof -
    have "sint (scast (ucast v :: 32 word) :: i64) = sint (ucast v :: 32 word)" by (rule sint_up_scast) (simp add: is_up)
    then have "sint v = sint (ucast v :: 32 word)" using that by (simp add: int32_of_def)
    then have "(2 :: int) ^ k < 2 ^ 31" using sint_lt[of "ucast v :: 32 word"] k(1) by simp
    then show ?thesis by (rule power_less_imp_less_exp[rotated]) simp
  qed
  ultimately show ?thesis using that k(2) by (simp add: fold_log2_def)
qed

lemma shiftAmount_of_nat: "k < (if c = ClsW then 32 else 64) \<Longrightarrow> shiftAmount c (truncInt c (of_nat k)) = k"
proof -
  assume k: "k < (if c = ClsW then 32 else 64)"
  have "int32_of (of_nat k) = (of_nat k :: i64)" if "k < 32"
  proof -
    have "take_bit 64 (int k) = int k" "signed_take_bit 31 (int k) = int k" using that
      by (simp_all add: take_bit_int_eq_self signed_take_bit_int_eq_self)
    then show ?thesis unfolding int32_of_def by transfer simp
  qed
  moreover have "unat ((of_nat k :: i64) AND mask n) = k" if "k < 2 ^ n" "n \<le> 6" for n
  proof -
    have "(2 :: nat) ^ n \<le> 2 ^ 6" using that(2) by (rule power_increasing) simp
    then have "k < 2 ^ 64" using that(1) by simp
    then have "unat (of_nat k :: i64) = k" by (simp add: unat_of_nat)
    then show ?thesis using that(1) by (simp add: take_bit_eq_mask[symmetric] unsigned_take_bit_eq take_bit_nat_eq_self del: unat_of_nat)
  qed
  note this[of 5] this[of 6]
  moreover have "(31 :: i64) = mask 5" "(63 :: i64) = mask 6" by (simp_all add: mask_eq_exp_minus_1)
  ultimately show ?thesis using k by (auto simp: shiftAmount_def shiftMask_def truncInt_def)
qed

lemma shl_by_sound:
  assumes fr: "fr_fn fr = f" "constIdx_ok f" and c: "cls_IsInt (in_Cls i)" "y = 2 ^ k" "fold_log2 y = of_nat k" "k < (if in_Cls i = ClsW then 32 else 64)"
    and xv: "evalRef fo mc fr x = Inr xv" and r: "shl_by f i x y = (True, i', f')"
  shows "evalValueOp fo mc (fr\<lparr>fr_fn := f'\<rparr>) i' = Inr (intVal (in_Cls i) (truncInt (in_Cls i) (val_i64 xv * y)))"
proof -
  obtain q where q: "func_ConstInt (in_Cls i) (of_nat k) f = (q, f')" "i' = i\<lparr>in_Op := OShl, in_Args := [x, q]\<rparr>"
    using r c(3) by (auto simp: shl_by_def split: prod.splits)
  note g = func_ConstInt_get[OF fr(2) q(1)]
  have nf: "\<not> cls_IsFloat (in_Cls i)" using c(1) cls_split(2) by blast
  have x: "evalRef fo mc (fr\<lparr>fr_fn := f'\<rparr>) x = Inr xv" using evalRef_grow[of f' fr fo mc x xv] g xv fr(1) by simp
  have qv: "evalRef fo mc (fr\<lparr>fr_fn := f'\<rparr>) q = Inr (intVal (in_Cls i) (of_nat k))" using g by (simp add: evalRef_def evalConst_def)
  have s: "shiftAmount (in_Cls i) (truncInt (in_Cls i) (of_nat k)) = k" using c(4) by (intro shiftAmount_of_nat)
  show ?thesis using x qv s nf unfolding q(2)
    by (simp add: evalValueOp_def Let_def is_int_binop_def instr_Arg_def intBinop_def val_i64_intVal c(2) push_bit_eq_mult)
qed

end
