(* ===== verification/Opt_Fold_Claims.thy ===== *)
theory Opt_Fold_Claims
  imports Opt_Fold_Sound Interp_Run
begin

text \<open>Constant folding keeps what the program computes: the claims, over the interpreter's semantics.\<close>

definition syms_long :: "func \<Rightarrow> bool" where
  "syms_long f \<longleftrightarrow> (\<forall>c \<in> set (f_Consts f). c_Kind c = ConstSym \<longrightarrow> normCls (c_Cls c) = ClsL)"

lemma evalRef_nonzero:
  assumes "frame_typed fr" "syms_long (fr_fn fr)" "evalRef fo mc fr r = Inr w" "ClassOf (fr_fn fr) r = Some c" "cls_IsInt c"
  shows "val_u64 w \<noteq> 0 \<longleftrightarrow> asSigned c (val_i64 w) \<noteq> 0"
proof -
  have t: "operand_typed c w" using evalRef_typed assms by blast
  have "v_Cls w = normCls c \<or> v_Bits w = 0"
  proof (cases "r_Kind r = RefConst")
    case True
    let ?k = "f_Consts (fr_fn fr) ! r_ID r"
    have "?k \<in> set (f_Consts (fr_fn fr))" "c = c_Cls ?k" "evalConst fo mc ?k = Inr w"
      using assms(3,4) True by (auto simp: evalRef_def ClassOf_def split: if_split_asm)
    moreover from this have "c_Kind ?k \<noteq> ConstFloat" using assms(1,5) by (auto simp: frame_typed_def consts_typed_def cls_IsInt_def)
    ultimately show ?thesis using assms(2,5) by (auto simp: evalConst_def syms_long_def normCls_def cls_IsInt_def split: constKind.splits option.splits)
  next
    case False
    then have "r_ID r < length (fr_vals fr)" "w = fr_vals fr ! r_ID r" "c = t_Cls (f_Temps (fr_fn fr) ! r_ID r)"
      using assms(3,4) by (auto simp: evalRef_def ClassOf_def split: refkind.splits if_split_asm)
    then show ?thesis using assms(1) by (auto simp: frame_typed_def val_typed_def val0_def)
  qed
  then show ?thesis using t assms(5) uint32_of_eq_iff[of "v_Bits w" 0] int32_of_eq_iff[of "v_Bits w" 0]
    by (auto simp: operand_typed_def canonical_def val_u64_def val_i64_def asSigned_def normCls_def cls_IsInt_def)
qed

section \<open>An instance\<close>

text \<open>Words \<open>x = 3\<close>, \<open>y = 1\<close>, and the constants 0 and 8.\<close>

definition fold_instr0 :: "op \<Rightarrow> nat \<Rightarrow> instr" where
  "fold_instr0 o' k = instr0\<lparr>in_Op := o', in_Cls := ClsW, in_Cmp := CmpNe, in_Args := [tempRef 0, constRef k], in_To := tempRef 1\<rparr>"

definition fold_fn0 :: func where
  "fold_fn0 = (snd (func_ConstInt ClsW 8 (snd (func_ConstInt ClsW 0 (fr_fn add_frame)))))\<lparr>f_arena := [block0\<lparr>b_Instrs := [fold_instr0 OCmp 0]\<rparr>]\<rparr>"

definition fold_frame :: frame where
  "fold_frame = \<lparr>fr_fn = fold_fn0, fr_vals = [val_W 3, val_W 1], fr_varargs = [], fr_spBase = 0\<rparr>"

lemma fold_fn0_simps: "f_Consts fold_fn0 = [const0\<lparr>c_Cls := ClsW, c_Int := 0\<rparr>, const0\<lparr>c_Cls := ClsW, c_Int := 8\<rparr>]"
  "map t_Cls (f_Temps fold_fn0) = [ClsW, ClsW]" "constIdx_ok fold_fn0"
  by (simp_all add: fold_fn0_def func_ConstInt_def internConst_def add_frame_def newTemp_def Let_def func0_def constIdx_ok_def
      constKey_eq_def const0_def)

lemma fold_fn0_temps: "length (f_Temps fold_fn0) = 2" "k < 2 \<Longrightarrow> t_Cls (f_Temps fold_fn0 ! k) = ClsW"
proof -
  show l: "length (f_Temps fold_fn0) = 2" using fold_fn0_simps(2) by (metis length_map length_Cons list.size(3) numeral_2_eq_2)
  assume k: "k < 2"
  then have "map t_Cls (f_Temps fold_fn0) ! k = ClsW" by (auto simp: fold_fn0_simps less_2_cases_iff)
  then show "t_Cls (f_Temps fold_fn0 ! k) = ClsW" using l k by simp
qed

lemma fold_frame_ok: "frame_typed fold_frame" "fr_fn fold_frame = fold_fn0" "w_consts fold_fn0" "syms_long fold_fn0"
    "booleans_hold fo mc fold_frame (\<lambda>_. None)"
  using fold_fn0_temps
  by (auto simp: frame_typed_def fold_frame_def consts_typed_def fold_fn0_simps val_typed_def val_W_def canonical_def normCls_def int32_of_def
      less_Suc_eq const0_def cls_IsInt_def w_consts_def syms_long_def booleans_hold_def isBoolean_def)

lemma fold_frame_simps [simp]: "ClassOf fold_fn0 (tempRef 0) = Some ClsW" "ClassOf fold_fn0 (tempRef (Suc 0)) = Some ClsW"
    "ClassOf fold_fn0 (constRef 0) = Some ClsW" "ClassOf fold_fn0 (constRef (Suc 0)) = Some ClsW"
    "constInt fold_fn0 (tempRef k) = Some None" "constInt fold_fn0 (constRef 0) = Some (Some 0)" "constInt fold_fn0 (constRef (Suc 0)) = Some (Some 8)"
    "evalRef fo mc fold_frame (tempRef 0) = Inr (val_W 3)" "evalRef fo mc fold_frame (tempRef (Suc 0)) = Inr (val_W 1)"
    "evalRef fo mc fold_frame (constRef 0) = Inr (intVal ClsW 0)" "evalRef fo mc fold_frame (constRef (Suc 0)) = Inr (intVal ClsW 8)"
  using fold_fn0_temps
  by (auto simp: ClassOf_def tempRef_def constRef_def fold_fn0_simps const0_def constInt_def Let_def evalRef_def fold_frame_def evalConst_def)

lemma fold_instr0_simps: "instr_Arg (fold_instr0 o' k) 0 = tempRef 0" "instr_Arg (fold_instr0 o' k) (Suc 0) = constRef k"
    "arg_at (fold_instr0 o' k) 0 = Some (tempRef 0)" "arg_at (fold_instr0 o' k) (Suc 0) = Some (constRef k)"
    "in_Op (fold_instr0 o' k) = o'" "in_Cls (fold_instr0 o' k) = ClsW" "in_Cmp (fold_instr0 o' k) = CmpNe" "in_To (fold_instr0 o' k) = tempRef 1"
  by (simp_all add: fold_instr0_def instr_Arg_def arg_at_def)

lemma fold_instr0_values:
    "evalValueOp fo mc fold_frame (fold_instr0 OAdd 0) = Inr (val_W 3)"
    "evalValueOp fo mc fold_frame (fold_instr0 OMul 1) = Inr (val_W 24)"
    "evalValueOp fo mc fold_frame (fold_instr0 OCmp 0) = Inr (val_W 1)"
  by (simp_all add: evalValueOp_def fold_instr0_simps is_int_binop_def Let_def cls_IsFloat_def intBinop_def val_i64_def intVal_def val_W_def
      truncInt_def int32_of_def normCls_def interp_evalCmp_def fold_frame_ok cmp_IsFloat_def intCmp_def asSigned_def b2i_def)

lemma fold_instr0_folds: "foldInstr fold_fn0 (\<lambda>_. None) (fold_instr0 OAdd 0) = Some (Some (tempRef 0), fold_fn0)"
    "\<exists>i' f'. strengthReduce fold_fn0 (fold_instr0 OMul 1) = Some (True, i', f')"
  by (simp_all add: foldInstr_def is_int_binop_def fold_binop_def fold_instr0_simps cls_IsFloat_def binIdentity_def Let_def
      strengthReduce_def shl_by_def isPow2_def word_sless_alt split: prod.splits)

text \<open>The folder's constant evaluator agrees with the interpreter's integer operators on every operand: the same
  value, and no value exactly where the interpreter divides by zero.\<close>

theorem evalBinop_interp:
  assumes "is_int_binop o'"
  shows "intBinop z o' c a b = (case evalBinop o' c (val_i64 a) (val_i64 b) of Some v \<Rightarrow> Inr (intVal c v)
     | None \<Rightarrow> if z then Inr (intVal c 0) else Inl DivideByZero)"
  using assms by (rule intBinop_evalBinop) simp_all

theorem evalBinop_interp_witness:
  "intBinop False ODiv ClsW (val_W 7) (val_W 0) = Inl DivideByZero"
  using evalBinop_interp[of ODiv False ClsW "val_W 7" "val_W 0"]
  by (simp add: is_int_binop_def evalBinop_def Let_def val_i64_def val_W_def asS_def int32_of_def)



text \<open>C36: a multiplication the pass turned into a shift computes the same value, when the operands have the
  instruction's class and constants of class \<open>w\<close> are in range.\<close>

theorem strengthReduce_sound:
  assumes "fr_fn fr = f" "w_consts f" "constIdx_ok f" "ClassOf f (instr_Arg i 0) = Some (in_Cls i)" "ClassOf f (instr_Arg i 1) = Some (in_Cls i)"
    "in_Cls i \<noteq> ClsQ" and v: "evalValueOp fo mc fr i = Inr v" and r: "strengthReduce f i = Some (True, i', f')"
  shows "evalValueOp fo mc (fr\<lparr>fr_fn := f'\<rparr>) i' = Inr v \<and> in_Op i' = OShl"
proof -
  let ?c = "in_Cls i"
  have o: "in_Op i = OMul" "\<not> cls_IsFloat ?c" using r by (auto simp: strengthReduce_def split: if_split_asm)
  then have int: "cls_IsInt ?c" using cls_split(2) by blast
  obtain a b where ab: "evalRef fo mc fr (instr_Arg i 0) = Inr a" "evalRef fo mc fr (instr_Arg i 1) = Inr b"
    and vv: "v = intVal ?c (truncInt ?c (val_i64 a * val_i64 b))"
    using v o by (auto simp: evalValueOp_def Let_def e_then_Inr is_int_binop_def intBinop_def)
  have shl: "evalValueOp fo mc (fr\<lparr>fr_fn := f'\<rparr>) i' = Inr (intVal ?c (truncInt ?c (val_i64 xv * val_i64 yv))) \<and> in_Op i' = OShl"
    if y: "constInt f q = Some (Some y)" "isPow2 y" "ClassOf f q = Some ?c" "evalRef fo mc fr q = Inr yv" "evalRef fo mc fr x = Inr xv"
      and e: "shl_by f i x y = (True, i', f')" for x xv q yv y
  proof -
    have yv: "val_i64 yv = y" using constInt_value(1)[of fr] assms(1,2) y(1,4) by blast
    have w: "?c = ClsW \<Longrightarrow> int32_of y = y" using y(1,3) assms(2) nth_mem
      by (fastforce simp: constInt_def Let_def ClassOf_def w_consts_def split: if_split_asm)
    obtain k where "y = 2 ^ k" "fold_log2 y = of_nat k" "k < 63" "int32_of y = y \<Longrightarrow> k < 31" using isPow2_log2[OF y(2)] by blast
    moreover from this have "k < (if ?c = ClsW then 32 else 64)" using w by fastforce
    ultimately show ?thesis using shl_by_sound[OF assms(1,3) int _ _ _ y(5) e] yv e by (auto simp: shl_by_def split: prod.splits)
  qed
  have comm: "val_i64 b * val_i64 a = val_i64 a * val_i64 b" by simp
  consider y where "constInt f (instr_Arg i 1) = Some (Some y)" "isPow2 y" "shl_by f i (instr_Arg i 0) y = (True, i', f')"
    | x where "constInt f (instr_Arg i 0) = Some (Some x)" "isPow2 x" "shl_by f i (instr_Arg i 1) x = (True, i', f')"
    using r o by (auto simp: strengthReduce_def bind_eq_Some_conv arg_at_iff split: if_split_asm option.splits)
  then show ?thesis
  proof cases
    case 1
    then show ?thesis using shl[OF 1(1,2) assms(5) ab(2,1)] vv by simp
  next
    case 2
    then show ?thesis using shl[OF 2(1,2) assms(4) ab] vv comm by simp
  qed
qed

theorem strengthReduce_sound_witness:
  "\<forall>fo mc. \<exists>i' f'. strengthReduce fold_fn0 (fold_instr0 OMul 1) = Some (True, i', f') \<and>
     evalValueOp fo mc (fold_frame\<lparr>fr_fn := f'\<rparr>) i' = Inr (val_W 24) \<and> in_Op i' = OShl"
proof (intro allI)
  fix fo mc
  obtain i' f' where r: "strengthReduce fold_fn0 (fold_instr0 OMul 1) = Some (True, i', f')" using fold_instr0_folds(2) by blast
  have "evalValueOp fo mc (fold_frame\<lparr>fr_fn := f'\<rparr>) i' = Inr (val_W 24) \<and> in_Op i' = OShl"
    by (rule strengthReduce_sound[OF fold_frame_ok(2,3) fold_fn0_simps(3) _ _ _ fold_instr0_values(2) r]) (simp_all add: fold_instr0_simps)
  then show "\<exists>i' f'. strengthReduce fold_fn0 (fold_instr0 OMul 1) = Some (True, i', f') \<and>
     evalValueOp fo mc (fold_frame\<lparr>fr_fn := f'\<rparr>) i' = Inr (val_W 24) \<and> in_Op i' = OShl" using r by blast
qed

text \<open>The rewritten branch goes where the old one went, when the tested temporary holds what its compare
  computes.\<close>

theorem foldBranch_sound:
  assumes fr: "frame_typed fr" "fr_fn fr = f" "w_consts f" "syms_long f"
    and c: "ClassOf f (instr_Arg d 0) = Some c" "ClassOf f (instr_Arg d 1) = Some c" "cls_IsInt c" "cls_IsInt (in_Cls d)"
    and d: "def (r_ID (j_Arg j)) = Some p" "instr_at f p = d" "evalValueOp fo mc fr d = Inr v" "evalRef fo mc fr (j_Arg j) = Inr (asClass (in_Cls d) v)"
    and r: "foldBranch f def j = Some (Some j')"
  shows "execTerminator fo mc own fr j' = execTerminator fo mc own fr j"
proof -
  have k: "j_Kind j = JmpJnz" using r by (simp add: foldBranch_def split: if_split_asm)
  have r': "Option.bind (zeroCmpOperand f d) (\<lambda>z. Some (case z of None \<Rightarrow> None
      | Some (x, pred) \<Rightarrow> Some (if pred = CmpEq then j\<lparr>j_Arg := x, j_To := j_To2 j, j_To2 := j_To j\<rparr> else j\<lparr>j_Arg := x\<rparr>))) = Some (Some j')"
    using r d(1,2) by (simp add: foldBranch_def split: if_split_asm)
  then obtain x pred where z: "zeroCmpOperand f d = Some (Some (x, pred))"
    by (cases "zeroCmpOperand f d") (auto split: option.split_asm)
  have j': "j' = (if pred = CmpEq then j\<lparr>j_Arg := x, j_To := j_To2 j, j_To2 := j_To j\<rparr> else j\<lparr>j_Arg := x\<rparr>)"
    using r' z by simp
  have p: "in_Op d = OCmp" "pred = in_Cmp d" "pred = CmpEq \<or> pred = CmpNe" and
    xz: "x = instr_Arg d 0 \<and> is_zero f (instr_Arg d 1) = Some True \<or> x = instr_Arg d 1 \<and> is_zero f (instr_Arg d 0) = Some True"
    using z by (auto simp: zeroCmpOperand_def bind_eq_Some_conv arg_at_iff split: if_split_asm)
  have "interp_evalCmp fo mc fr d = Inr v" using d(3) p(1) by (simp add: evalValueOp_def Let_def is_int_binop_def)
  then obtain a b where a: "evalRef fo mc fr (instr_Arg d 0) = Inr a" and b: "evalRef fo mc fr (instr_Arg d 1) = Inr b"
    and v: "v = intVal (in_Cls d) (b2i (intCmp pred c (val_i64 a) (val_i64 b)))"
    using c(1) fr(2) p(2,3) by (auto simp: interp_evalCmp_def e_then_Inr cmp_IsFloat_def)
  have zero: "is_zero f q = Some True \<Longrightarrow> evalRef fo mc fr q = Inr w \<Longrightarrow> val_i64 w = 0" for q w
    using constInt_value(1)[of fr q 0] fr(2,3) by (auto simp: is_zero_def)
  obtain w where w: "evalRef fo mc fr x = Inr w" "ClassOf f x = Some c"
    and cmp: "intCmp pred c (val_i64 a) (val_i64 b) = (if pred = CmpEq then asSigned c (val_i64 w) = 0 else asSigned c (val_i64 w) \<noteq> 0)"
    using xz a b c(1,2) p(3) zero by (fastforce simp: intCmp_def asSigned_def)
  have nz: "val_u64 w \<noteq> 0 \<longleftrightarrow> asSigned c (val_i64 w) \<noteq> 0" using evalRef_nonzero fr w c(3) by blast
  have "val_u64 (asClass (in_Cls d) v) \<noteq> 0 \<longleftrightarrow> intCmp pred c (val_i64 a) (val_i64 b)"
    unfolding v by (simp add: val_u64_intVal asUnsigned_def b2i_def uint32_of_def)
  then show ?thesis using d(4) w(1) nz cmp k j' p(3) by (auto simp: execTerminator_def e_then_def)
qed

theorem foldBranch_sound_witness:
  "\<forall>fo mc. execTerminator fo mc fold_fn0 fold_frame (jmp0\<lparr>j_Kind := JmpJnz, j_To := Some 1, j_To2 := Some 2, j_Arg := tempRef 0\<rparr>)
     = execTerminator fo mc fold_fn0 fold_frame (jmp0\<lparr>j_Kind := JmpJnz, j_To := Some 1, j_To2 := Some 2, j_Arg := tempRef 1\<rparr>)"
proof (intro allI)
  fix fo mc
  let ?j = "jmp0\<lparr>j_Kind := JmpJnz, j_To := Some 1, j_To2 := Some 2, j_Arg := tempRef 1\<rparr>"
  let ?def = "(\<lambda>_. None)(1 := Some (0, 0))"
  have at: "instr_at fold_fn0 (0, 0) = fold_instr0 OCmp 0" by (simp add: instr_at_def blk_def fold_fn0_def)
  have "is_zero fold_fn0 (constRef 0) = Some True" by (simp add: is_zero_def)
  then have "foldBranch fold_fn0 ?def ?j = Some (Some (?j\<lparr>j_Arg := tempRef 0\<rparr>))"
    using at by (simp add: foldBranch_def tempRef_def[of 1] zeroCmpOperand_def fold_instr0_simps)
  from foldBranch_sound[OF fold_frame_ok(1-4) _ _ _ _ _ at fold_instr0_values(3) _ this, of ClsW fo mc fold_fn0]
  have "execTerminator fo mc fold_fn0 fold_frame (?j\<lparr>j_Arg := tempRef 0\<rparr>) = execTerminator fo mc fold_fn0 fold_frame ?j"
    by (simp add: fold_instr0_simps cls_IsInt_def tempRef_def[of 1] tempRef_def[of "Suc 0"] asClass_def val_W_def normCls_def evalRef_def fold_frame_def)
  then show "execTerminator fo mc fold_fn0 fold_frame (jmp0\<lparr>j_Kind := JmpJnz, j_To := Some 1, j_To2 := Some 2, j_Arg := tempRef 0\<rparr>)
     = execTerminator fo mc fold_fn0 fold_frame ?j" by simp
qed

text \<open>Without the range condition the shift is wrong: the constant \<open>2 ^ 32\<close> of class \<open>w\<close> is zero to a multiplication,
  and its logarithm is zero to a shift.\<close>

definition wide_fn :: func where
  "wide_fn = snd (func_ConstInt ClsW 4294967296 (fr_fn add_frame))"

definition wide_frame :: frame where
  "wide_frame = \<lparr>fr_fn = wide_fn, fr_vals = [val_W 3, val_W 1], fr_varargs = [], fr_spBase = 0\<rparr>"

lemma strengthReduce_wide_constant:
  "\<exists>i' f'. strengthReduce wide_fn (fold_instr0 OMul 0) = Some (True, i', f') \<and>
     evalValueOp fo mc wide_frame (fold_instr0 OMul 0) = Inr (val_W 0) \<and>
     evalValueOp fo mc (wide_frame\<lparr>fr_fn := f'\<rparr>) i' = Inr (val_W 3)"
proof -
  have k: "f_Consts wide_fn = [const0\<lparr>c_Cls := ClsW, c_Int := 4294967296\<rparr>]" "constIdx_ok wide_fn"
    by (simp_all add: wide_fn_def func_ConstInt_def internConst_def add_frame_def newTemp_def Let_def func0_def constIdx_ok_def const0_def)
  have c: "constInt wide_fn (constRef 0) = Some (Some 4294967296)" "evalRef fo mc wide_frame (constRef 0) = Inr (intVal ClsW 4294967296)"
    by (simp_all add: constInt_def constRef_def Let_def k const0_def evalRef_def evalConst_def wide_frame_def)
  have p: "isPow2 4294967296" by (simp add: isPow2_def word_sless_alt)
  have l: "fold_log2 4294967296 = 32"
  proof -
    obtain n where n: "(4294967296 :: i64) = 2 ^ n" "fold_log2 4294967296 = of_nat n" "n < 63" using isPow2_log2[OF p] by metis
    have "(2 :: nat) ^ n < 2 ^ 64" using n(3) by (intro power_strict_increasing) simp_all
    then have "unat (of_nat (2 ^ n) :: i64) = 2 ^ n" by (simp only: unat_of_nat) simp
    then have "(2 :: nat) ^ n = 2 ^ 32" using n(1) by simp
    then show ?thesis using n(2) by (simp only: power_inject_exp) simp
  qed
  obtain q f' where q: "func_ConstInt ClsW 32 wide_fn = (q, f')" by fastforce
  note g = func_ConstInt_get[OF k(2) q]
  have "evalRef fo mc (wide_frame\<lparr>fr_fn := f'\<rparr>) q = Inr (intVal ClsW 32)" using g by (simp add: evalRef_def evalConst_def)
  moreover have "evalRef fo mc (wide_frame\<lparr>fr_fn := h\<rparr>) (tempRef 0) = Inr (val_W 3)" "evalRef fo mc wide_frame (tempRef 0) = Inr (val_W 3)" for h
    by (simp_all add: evalRef_def wide_frame_def tempRef_def)
  moreover have "shl_by wide_fn (fold_instr0 OMul 0) (tempRef 0) 4294967296 = (True, (fold_instr0 OMul 0)\<lparr>in_Op := OShl, in_Args := [tempRef 0, q]\<rparr>, f')"
    by (simp add: shl_by_def l q fold_instr0_simps)
  moreover have "instr_Arg (i\<lparr>in_Op := OShl, in_Args := [tempRef 0, q]\<rparr>) 0 = tempRef 0"
    "instr_Arg (i\<lparr>in_Op := OShl, in_Args := [tempRef 0, q]\<rparr>) (Suc 0) = q" for i by (simp_all add: instr_Arg_def)
  ultimately show ?thesis using p c
    by (simp add: strengthReduce_def fold_instr0_simps cls_IsFloat_def evalValueOp_def is_int_binop_def Let_def intBinop_def
        val_i64_def intVal_def val_W_def truncInt_def int32_of_def normCls_def shiftAmount_def shiftMask_def)
qed

end
