(* ===== verification/Opt_Copy.thy ===== *)
theory Opt_Copy
  imports Opt_Fold "HOL-Library.AList" IR_Verify
begin

text \<open>
  Copy elimination (\<open>opt/copy.go\<close>).  An outer \<open>None\<close> is an index panic or a chain of copies
  that never ends.
\<close>

declare subst_resolve.simps [code]

section \<open>The pass\<close>

text \<open>The test both loops of \<open>Copy\<close> make.\<close>

definition plain_copy :: "func \<Rightarrow> instr \<Rightarrow> bool option" where
  "plain_copy f i =
     (if in_Op i \<noteq> OCopy \<or> r_Kind (in_To i) \<noteq> RefTemp then Some False
      else Option.bind (func_Temp f (in_To i)) (\<lambda>t. case t of
        None \<Rightarrow> None
      | Some t \<Rightarrow> if t_Fixed t then Some False
          else Option.bind (arg_at i 0) (\<lambda>a. map_option (\<lambda>c. c = in_Cls i) (ClassOf f a))))"

definition raw_copy :: "func \<Rightarrow> instr_pos \<Rightarrow> (nat \<times> ref) list \<Rightarrow> (nat \<times> ref) list option" where
  "raw_copy f p raw = (let i = instr_at f p in
     Option.bind (plain_copy f i) (\<lambda>cp. Some (if cp then AList.update (r_ID (in_To i)) (hd (in_Args i)) raw else raw)))"

text \<open>Following the copies from a temporary.\<close>

partial_function (option) chase_from :: "(nat \<times> ref) list \<Rightarrow> ref \<Rightarrow> ref option" where
  "chase_from raw src = (if r_Kind src = RefTemp then
       (case map_of raw (r_ID src) of None \<Rightarrow> Some src | Some n \<Rightarrow> chase_from raw n)
     else Some src)"

declare chase_from.simps [code]

definition chase :: "(nat \<times> ref) list \<Rightarrow> nat \<Rightarrow> ref option" where
  "chase raw t = Option.bind (map_of raw t) (chase_from raw)"

definition resolve_copies :: "(nat \<times> ref) list \<Rightarrow> subst option" where
  "resolve_copies raw = fold_opt (\<lambda>t s. map_option (\<lambda>r. s(t := Some r)) (chase raw t)) (map fst raw) (\<lambda>_. None)"

definition drop_copy :: "instr_pos \<Rightarrow> func \<Rightarrow> func option" where
  "drop_copy p f = map_option (\<lambda>cp. if cp then set_instr p instr0 f else f) (plain_copy f (instr_at f p))"

definition Copy :: "func \<Rightarrow> (func \<times> bool) option" where
  "Copy f = Option.bind (fold_opt (raw_copy f) (positions f) []) (\<lambda>raw.
     if raw = [] then Some (f, False)
     else Option.bind (resolve_copies raw) (\<lambda>resolved.
          Option.bind (applySubst resolved f) (\<lambda>g.
          map_option (\<lambda>h. (removeNops h, True)) (fold_opt drop_copy (positions g) g))))"

section \<open>The copies\<close>

abbreviation is_plain :: "func \<Rightarrow> instr \<Rightarrow> bool" where
  "is_plain f i \<equiv> plain_copy f i = Some True"

lemma plain_copy_cong: "f_Temps g = f_Temps f \<Longrightarrow> f_Consts g = f_Consts f \<Longrightarrow> plain_copy g = plain_copy f"
proof -
  assume a: "f_Temps g = f_Temps f" "f_Consts g = f_Consts f"
  have "ClassOf g = ClassOf f" "func_Temp g = func_Temp f" by (rule ext, simp only: a ClassOf_def func_Temp_def)+
  then show ?thesis by (intro ext) (simp only: plain_copy_def)
qed

lemma is_plainD:
  assumes "is_plain f i"
  shows "in_Op i = OCopy" "r_Kind (in_To i) = RefTemp" "in_Args i \<noteq> []" "ClassOf f (hd (in_Args i)) = Some (in_Cls i)"
  using assms by (auto simp: plain_copy_def bind_eq_Some_conv arg_at_def hd_conv_nth split: if_split_asm option.split_asm)

lemma raw_copies:
  assumes "fold_opt (raw_copy f) ps raw0 = Some raw" "map_of raw t = Some r"
  shows "map_of raw0 t = Some r \<or> (\<exists>p \<in> set ps. is_plain f (instr_at f p) \<and> in_To (instr_at f p) = tempRef t \<and> hd (in_Args (instr_at f p)) = r)"
  using assms(1)
proof (induction ps arbitrary: raw0)
  case (Cons p ps)
  let ?i = "instr_at f p"
  obtain raw1 where raw1: "raw_copy f p raw0 = Some raw1" "fold_opt (raw_copy f) ps raw1 = Some raw" using Cons.prems by (auto simp: bind_eq_Some_conv)
  from Cons.IH[OF raw1(2)] have "map_of raw1 t = Some r \<or> (\<exists>p \<in> set (p # ps). is_plain f (instr_at f p) \<and> in_To (instr_at f p) = tempRef t \<and> hd (in_Args (instr_at f p)) = r)"
    by auto
  moreover have "map_of raw0 t = Some r \<or> is_plain f ?i \<and> in_To ?i = tempRef t \<and> hd (in_Args ?i) = r" if "map_of raw1 t = Some r"
    using raw1(1) that is_plainD(2)[of f ?i] ref_temp_eta[of "in_To ?i"]
    by (auto simp: raw_copy_def Let_def bind_eq_Some_conv update_conv' split: if_split_asm)
  ultimately show ?case by auto
qed (use assms(2) in simp)

lemma chase_from_value:
  "chase_from raw src = Some r \<Longrightarrow> (\<forall>t n. map_of raw t = Some n \<longrightarrow> val (tempRef t) = val n) \<Longrightarrow> val src = val r"
proof (induction raw src r rule: chase_from.raw_induct[rotated, consumes 1, case_names step])
  case (step cf raw src r)
  show ?case
  proof (cases "r_Kind src = RefTemp")
    case True
    then have t: "tempRef (r_ID src) = src" by (metis ref_temp_eta)
    show ?thesis
    proof (cases "map_of raw (r_ID src)")
      case (Some n)
      then have "cf raw n = Some r" using step(2) True by simp
      then have "val n = val r" using step by blast
      then show ?thesis using step(3) Some t by metis
    qed (use step(2) True in simp)
  qed (use step(2) in simp)
qed

lemma chase_value:
  assumes "chase raw t = Some r" "\<forall>t n. map_of raw t = Some n \<longrightarrow> val (tempRef t) = val n"
  shows "val (tempRef t) = val r"
proof -
  obtain n where "map_of raw t = Some n" "chase_from raw n = Some r" using assms(1) by (auto simp: chase_def bind_eq_Some_conv)
  then show ?thesis using chase_from_value[of raw n r val] assms(2) by metis
qed

lemma resolve_copies_chase:
  assumes "resolve_copies raw = Some s" "s t = Some r"
  shows "chase raw t = Some r"
proof -
  define step where "step = (\<lambda>t s. map_option (\<lambda>r. s(t := Some r :: ref option)) (chase raw t))"
  have "s0 t = Some r \<or> chase raw t = Some r" if "fold_opt step ts s0 = Some s" for ts s0
    using that
  proof (induction ts arbitrary: s0)
    case (Cons u ts)
    then obtain s1 where s1: "step u s0 = Some s1" "fold_opt step ts s1 = Some s" by (auto simp: bind_eq_Some_conv)
    then obtain v where "chase raw u = Some v" "s1 = s0(u := Some v)" by (auto simp: step_def)
    then show ?case using Cons.IH[OF s1(2)] by (auto split: if_split_asm)
  qed (use assms(2) in simp)
  from this[of "map fst raw" "\<lambda>_. None"] show ?thesis using assms(1) unfolding resolve_copies_def step_def by simp
qed

lemma resolve_copies_value:
  assumes "resolve_copies raw = Some s" "\<forall>t n. map_of raw t = Some n \<longrightarrow> val (tempRef t) = val n"
  shows "\<forall>t n. s t = Some n \<longrightarrow> val (tempRef t) = val n"
  using resolve_copies_chase[OF assms(1)] chase_value assms(2) by blast

section \<open>Substituting and dropping, block by block\<close>

definition in_arena :: "func \<Rightarrow> bool" where
  "in_arena f \<longleftrightarrow> distinct (f_Blocks f) \<and> (\<forall>b \<in> set (f_Blocks f). b < length (f_arena f))"

lemma applySubst_blocks:
  assumes "applySubst s f = Some g" "in_arena f"
  shows "f_Blocks g = f_Blocks f \<and> f_Temps g = f_Temps f \<and> f_Consts g = f_Consts f \<and> length (f_arena g) = length (f_arena f) \<and>
    (\<forall>b. if b \<in> set (f_Blocks f) then subst_block s (blk f b) = Some (blk g b) else blk g b = blk f b)"
proof -
  define body where "body = (\<lambda>b g. map_option (\<lambda>x. upd_blk b (\<lambda>_. x) g) (subst_block s (blk g b)))"
  have "f_Blocks g = f_Blocks f0 \<and> f_Temps g = f_Temps f0 \<and> f_Consts g = f_Consts f0 \<and> length (f_arena g) = length (f_arena f0) \<and>
    (\<forall>b. if b \<in> set bs then subst_block s (blk f0 b) = Some (blk g b) else blk g b = blk f0 b)"
    if "fold_opt body bs f0 = Some g" "distinct bs" "\<forall>b \<in> set bs. b < length (f_arena f0)" for bs f0
    using that
  proof (induction bs arbitrary: f0)
    case (Cons b bs)
    then obtain g1 where g1: "body b f0 = Some g1" "fold_opt body bs g1 = Some g" by (auto simp: bind_eq_Some_conv)
    then obtain x where "subst_block s (blk f0 b) = Some x" "g1 = upd_blk b (\<lambda>_. x) f0" by (auto simp: body_def)
    with g1 have x: "subst_block s (blk f0 b) = Some x" "fold_opt body bs (upd_blk b (\<lambda>_. x) f0) = Some g" by simp_all
    from Cons.IH[OF x(2)] Cons.prems(2,3) x(1) show ?case by (auto split: if_split_asm)
  qed simp
  from this[of "f_Blocks f" f] show ?thesis using assms unfolding applySubst_def body_def in_arena_def by blast
qed

lemma set_instr_sel [simp]: "f_Blocks (set_instr p i f) = f_Blocks f" "f_Temps (set_instr p i f) = f_Temps f" "f_Consts (set_instr p i f) = f_Consts f"
  "length (f_arena (set_instr p i f)) = length (f_arena f)"
  by (simp_all add: set_instr_def split: prod.splits)

lemma blk_set_instr:
  "b < length (f_arena f) \<Longrightarrow> blk (set_instr (b, k) i f) b' = (if b' = b then (blk f b)\<lparr>b_Instrs := (b_Instrs (blk f b))[k := i]\<rparr> else blk f b')"
  by (simp add: set_instr_def)

lemma map_upto_update:
  "k < length xs \<Longrightarrow> (map F (take k xs) @ drop k xs)[k := F (xs ! k)] = map F (take (Suc k) xs) @ drop (Suc k) xs"
  by (subst Cons_nth_drop_Suc[symmetric]) (simp_all add: list_update_append take_Suc_conv_app_nth min_def)

text \<open>One block of the second loop.\<close>

lemma drop_copy_block:
  assumes "b < length (f_arena f)" "n \<le> length (b_Instrs (blk f b))" "fold_opt drop_copy (map (Pair b) [0..<n]) f = Some g"
  shows "f_Blocks g = f_Blocks f \<and> f_Temps g = f_Temps f \<and> f_Consts g = f_Consts f \<and> length (f_arena g) = length (f_arena f) \<and>
    (\<forall>b'. b' \<noteq> b \<longrightarrow> blk g b' = blk f b') \<and>
    blk g b = (blk f b)\<lparr>b_Instrs := map (\<lambda>i. if is_plain f i then instr0 else i) (take n (b_Instrs (blk f b))) @ drop n (b_Instrs (blk f b))\<rparr>"
  using assms(2,3)
proof (induction n arbitrary: g)
  case 0
  then show ?case by simp
next
  case (Suc n)
  let ?F = "\<lambda>i. if is_plain f i then instr0 else i" and ?xs = "b_Instrs (blk f b)"
  obtain h where h: "fold_opt drop_copy (map (Pair b) [0..<n]) f = Some h" "drop_copy (b, n) h = Some g"
    using Suc.prems(2) by (auto simp: fold_opt_append bind_eq_Some_conv)
  have n: "n < length ?xs" using Suc.prems(1) by simp
  note H = Suc.IH[OF _ h(1)]
  have ih: "f_Blocks h = f_Blocks f" "f_Temps h = f_Temps f" "f_Consts h = f_Consts f" "length (f_arena h) = length (f_arena f)"
    "\<And>b'. b' \<noteq> b \<Longrightarrow> blk h b' = blk f b'" "b_Instrs (blk h b) = map ?F (take n ?xs) @ drop n ?xs"
    "blk h b = (blk f b)\<lparr>b_Instrs := map ?F (take n ?xs) @ drop n ?xs\<rparr>"
    using H n by auto
  have p: "plain_copy h = plain_copy f" using ih(2,3) by (rule plain_copy_cong)
  have at: "instr_at h (b, n) = ?xs ! n" using n ih(6) by (simp add: instr_at_def nth_append Cons_nth_drop_Suc[symmetric])
  have g: "g = (if is_plain f (?xs ! n) then set_instr (b, n) instr0 h else h)" and
    "plain_copy f (?xs ! n) \<noteq> None" using h(2) at p by (auto simp: drop_copy_def)
  have upd: "(map ?F (take n ?xs) @ drop n ?xs)[n := ?F (?xs ! n)] = map ?F (take (Suc n) ?xs) @ drop (Suc n) ?xs"
    using n by (rule map_upto_update)
  have "blk g b = (blk f b)\<lparr>b_Instrs := (map ?F (take n ?xs) @ drop n ?xs)[n := ?F (?xs ! n)]\<rparr>"
  proof (cases "is_plain f (?xs ! n)")
    case True
    then show ?thesis using g ih assms(1) blk_set_instr[of b h n instr0 b] by simp
  next
    case False
    have "(map ?F (take n ?xs) @ drop n ?xs)[n := ?xs ! n] = map ?F (take n ?xs) @ drop n ?xs"
      using n by (auto simp: list_update_append Cons_nth_drop_Suc[symmetric])
    then show ?thesis using False g ih(7) by simp
  qed
  moreover have "b' \<noteq> b \<Longrightarrow> blk g b' = blk f b'" for b' using g ih(4,5) assms(1) blk_set_instr[of b h n instr0 b'] by auto
  moreover have "f_Blocks g = f_Blocks f" "f_Temps g = f_Temps f" "f_Consts g = f_Consts f" "length (f_arena g) = length (f_arena f)"
    using g ih(1-4) by auto
  ultimately show ?case using upd by simp
qed

lemma drop_copies_blocks:
  assumes "fold_opt drop_copy (concat (map (\<lambda>b. map (Pair b) [0..<length (b_Instrs (blk f b))]) bs)) f = Some g"
    "distinct bs" "\<forall>b \<in> set bs. b < length (f_arena f)"
  shows "f_Blocks g = f_Blocks f \<and> f_Temps g = f_Temps f \<and> f_Consts g = f_Consts f \<and> length (f_arena g) = length (f_arena f) \<and>
    (\<forall>b. blk g b = (if b \<in> set bs then (blk f b)\<lparr>b_Instrs := map (\<lambda>i. if is_plain f i then instr0 else i) (b_Instrs (blk f b))\<rparr> else blk f b))"
  using assms
proof (induction bs arbitrary: f)
  case (Cons b bs)
  then obtain h where h: "fold_opt drop_copy (map (Pair b) [0..<length (b_Instrs (blk f b))]) f = Some h"
    "fold_opt drop_copy (concat (map (\<lambda>b. map (Pair b) [0..<length (b_Instrs (blk f b))]) bs)) h = Some g"
    by (auto simp: fold_opt_append bind_eq_Some_conv)
  have sel: "f_Blocks h = f_Blocks f" "f_Temps h = f_Temps f" "f_Consts h = f_Consts f" "length (f_arena h) = length (f_arena f)"
    and other: "\<And>b'. b' \<noteq> b \<Longrightarrow> blk h b' = blk f b'"
    and here: "blk h b = (blk f b)\<lparr>b_Instrs := map (\<lambda>i. if is_plain f i then instr0 else i) (b_Instrs (blk f b))\<rparr>"
    using drop_copy_block[OF _ order_refl h(1)] Cons.prems(3) by simp_all
  have "map (\<lambda>b. map (Pair b) [0..<length (b_Instrs (blk f b))]) bs = map (\<lambda>b. map (Pair b) [0..<length (b_Instrs (blk h b))]) bs"
  proof (rule map_cong[OF refl])
    fix x assume "x \<in> set bs"
    then have "x \<noteq> b" using Cons.prems(2) by auto
    then show "map (Pair x) [0..<length (b_Instrs (blk f x))] = map (Pair x) [0..<length (b_Instrs (blk h x))]" using other by simp
  qed
  with h(2) have h2: "fold_opt drop_copy (concat (map (\<lambda>b. map (Pair b) [0..<length (b_Instrs (blk h b))]) bs)) h = Some g" by simp
  have p: "plain_copy h = plain_copy f" using sel(2,3) by (rule plain_copy_cong)
  have "distinct bs" "\<forall>b \<in> set bs. b < length (f_arena h)" "b \<notin> set bs" using Cons.prems(2,3) sel(4) by auto
  moreover have "blk h b' = blk f b'" if "b' \<in> set bs" for b' using that other calculation by metis
  ultimately show ?case using Cons.IH[OF h2] sel other here by (auto simp: p)
qed simp

lemma removeNops_blocks:
  assumes "in_arena f"
  shows "f_Blocks (removeNops f) = f_Blocks f \<and> f_Temps (removeNops f) = f_Temps f \<and> f_Consts (removeNops f) = f_Consts f \<and>
    (\<forall>b \<in> set (f_Blocks f). blk (removeNops f) b = (blk f b)\<lparr>b_Instrs := filter (\<lambda>i. in_Op i \<noteq> ONop) (b_Instrs (blk f b))\<rparr>)"
proof -
  have "f_Blocks g = f_Blocks f0 \<and> f_Temps g = f_Temps f0 \<and> f_Consts g = f_Consts f0 \<and>
    (\<forall>b. blk g b = (if b \<in> set bs then (blk f0 b)\<lparr>b_Instrs := filter (\<lambda>i. in_Op i \<noteq> ONop) (b_Instrs (blk f0 b))\<rparr> else blk f0 b))"
    if "g = fold (\<lambda>b. upd_blk b (\<lambda>x. x\<lparr>b_Instrs := filter (\<lambda>i. in_Op i \<noteq> ONop) (b_Instrs x)\<rparr>)) bs f0" "distinct bs" "\<forall>b \<in> set bs. b < length (f_arena f0)" for bs f0 g
    using that
  proof (induction bs arbitrary: f0)
    case (Cons b bs)
    then have b: "b < length (f_arena f0)" by simp
    show ?case using Cons.IH[of "upd_blk b (\<lambda>x. x\<lparr>b_Instrs := filter (\<lambda>i. in_Op i \<noteq> ONop) (b_Instrs x)\<rparr>) f0"] Cons.prems b by auto
  qed simp
  from this[of "removeNops f" "f_Blocks f" f] show ?thesis using assms unfolding removeNops_def in_arena_def by simp
qed

section \<open>What the pass keeps\<close>

text \<open>An instruction, a phi and a terminator that read the same values.\<close>

definition reads_same :: "(ref \<Rightarrow> 'v) \<Rightarrow> instr \<Rightarrow> instr \<Rightarrow> bool" where
  "reads_same val i j \<longleftrightarrow> (\<exists>as. map val as = map val (in_Args i) \<and>
     (if ref_IsNone (instr_ClosureContext i) then j = i\<lparr>in_Args := as\<rparr>
      else \<exists>c. val c = val (instr_ClosureContext i) \<and> j = instr_SetClosureContext c (i\<lparr>in_Args := as\<rparr>)))"

definition phi_reads_same :: "(ref \<Rightarrow> 'v) \<Rightarrow> phi \<Rightarrow> phi \<Rightarrow> bool" where
  "phi_reads_same val p q \<longleftrightarrow> (\<exists>as. q = p\<lparr>p_Args := as\<rparr> \<and> map val as = map val (p_Args p))"

definition jmp_reads_same :: "(ref \<Rightarrow> 'v) \<Rightarrow> jmp \<Rightarrow> jmp \<Rightarrow> bool" where
  "jmp_reads_same val j k \<longleftrightarrow> (\<exists>a as. k = j\<lparr>j_Arg := a, j_Args := as\<rparr> \<and> val a = val (j_Arg j) \<and> map val as = map val (j_Args j))"

definition subst_respects :: "(ref \<Rightarrow> 'v) \<Rightarrow> subst \<Rightarrow> bool" where
  "subst_respects val s \<longleftrightarrow> (\<forall>t n. s t = Some n \<longrightarrow> val (tempRef t) = val n)"

lemma subst_resolve_respects: "subst_respects val s \<Longrightarrow> subst_resolve s r = Some r' \<Longrightarrow> val r' = val r"
  using subst_resolve_value[of s r r' val] by (simp add: subst_respects_def)

lemma subst_refs_respects:
  assumes "subst_respects val s" "subst_refs s rs = Some rs'"
  shows "map val rs' = map val rs"
proof -
  have "list_all2 (\<lambda>x y. subst_resolve s x = Some y) rs rs'" using assms(2) those_map_SomeD unfolding subst_refs_def by blast
  then show ?thesis using subst_resolve_respects[OF assms(1)] by (induction rule: list_all2_induct) simp_all
qed

lemma subst_instr_respects:
  assumes "subst_respects val s" "subst_instr s i = Some j"
  shows "reads_same val i j"
proof -
  obtain as where as: "subst_refs s (in_Args i) = Some as"
    "(if ref_IsNone (instr_ClosureContext (i\<lparr>in_Args := as\<rparr>)) then Some (i\<lparr>in_Args := as\<rparr>)
      else map_option (\<lambda>c. instr_SetClosureContext c (i\<lparr>in_Args := as\<rparr>)) (subst_resolve s (instr_ClosureContext (i\<lparr>in_Args := as\<rparr>)))) = Some j"
    using assms(2) by (auto simp: subst_instr_def bind_eq_Some_conv Let_def)
  have c: "instr_ClosureContext (i\<lparr>in_Args := as\<rparr>) = instr_ClosureContext i" by (simp add: instr_ClosureContext_def)
  show ?thesis using subst_refs_respects[OF assms(1) as(1)] as(2) subst_resolve_respects[OF assms(1)] unfolding reads_same_def c
    by (auto split: if_split_asm)
qed

lemma subst_phi_respects: "subst_respects val s \<Longrightarrow> subst_phi s p = Some q \<Longrightarrow> phi_reads_same val p q"
  using subst_refs_respects[of val s] by (auto simp: subst_phi_def phi_reads_same_def)

lemma subst_jmp_respects: "subst_respects val s \<Longrightarrow> subst_jmp s j = Some k \<Longrightarrow> jmp_reads_same val j k"
  using subst_refs_respects[of val s] subst_resolve_respects[of val s] by (fastforce simp: subst_jmp_def jmp_reads_same_def bind_eq_Some_conv)

lemma subst_block_respects:
  assumes "subst_respects val s" "subst_block s x = Some y"
  shows "list_all2 (phi_reads_same val) (b_Phis x) (b_Phis y) \<and> list_all2 (reads_same val) (b_Instrs x) (b_Instrs y) \<and> jmp_reads_same val (b_Jmp x) (b_Jmp y)"
proof -
  obtain ps "is" j where "those (map (subst_phi s) (b_Phis x)) = Some ps" "those (map (subst_instr s) (b_Instrs x)) = Some is" "subst_jmp s (b_Jmp x) = Some j"
    "y = x\<lparr>b_Phis := ps, b_Instrs := is, b_Jmp := j\<rparr>" using assms(2) by (auto simp: subst_block_def bind_eq_Some_conv)
  moreover from this have "list_all2 (\<lambda>p q. subst_phi s p = Some q) (b_Phis x) ps" "list_all2 (\<lambda>i j. subst_instr s i = Some j) (b_Instrs x) is"
    by (auto intro: those_map_SomeD)
  then have "list_all2 (phi_reads_same val) (b_Phis x) ps" "list_all2 (reads_same val) (b_Instrs x) is"
    using subst_phi_respects[OF assms(1)] subst_instr_respects[OF assms(1)] by (auto elim!: list_all2_mono)
  ultimately show ?thesis using subst_jmp_respects[OF assms(1)] by simp
qed

section \<open>The claims\<close>

text \<open>A copy's destination has the class of the copy.\<close>

definition copies_typed :: "func \<Rightarrow> bool" where
  "copies_typed f \<longleftrightarrow> (\<forall>p \<in> set (positions f). is_plain f (instr_at f p) \<longrightarrow> ClassOf f (in_To (instr_at f p)) = Some (in_Cls (instr_at f p)))"

text \<open>A reading of references in which every copy has been made.\<close>

definition copies_hold :: "(ref \<Rightarrow> 'v) \<Rightarrow> func \<Rightarrow> bool" where
  "copies_hold val f \<longleftrightarrow> (\<forall>p \<in> set (positions f). is_plain f (instr_at f p) \<longrightarrow> val (in_To (instr_at f p)) = val (hd (in_Args (instr_at f p))))"

lemma resolve_copies_respects:
  assumes "fold_opt (raw_copy f) (positions f) [] = Some raw" "resolve_copies raw = Some s" "copies_hold val f"
  shows "subst_respects val s"
proof -
  have "val (tempRef t) = val n" if m: "map_of raw t = Some n" for t n
  proof -
    obtain p where p: "p \<in> set (positions f)" "is_plain f (instr_at f p)" "in_To (instr_at f p) = tempRef t" "hd (in_Args (instr_at f p)) = n"
      using raw_copies[OF assms(1) m] by auto
    then have "val (in_To (instr_at f p)) = val (hd (in_Args (instr_at f p)))" using assms(3) unfolding copies_hold_def by blast
    then show ?thesis using p by simp
  qed
  then have "\<forall>t n. map_of raw t = Some n \<longrightarrow> val (tempRef t) = val n" by blast
  from resolve_copies_value[OF assms(2) this] show ?thesis unfolding subst_respects_def .
qed

text \<open>Substituting operands of the same class does not change what counts as a copy.\<close>

lemma reads_same_sel: "reads_same val i j \<Longrightarrow> in_Op j = in_Op i \<and> in_To j = in_To i \<and> in_Cls j = in_Cls i \<and> map val (in_Args j) = map val (in_Args i)"
  by (auto simp: reads_same_def instr_SetClosureContext_def split: if_split_asm)

lemma is_plain_reads_same:
  assumes "reads_same (ClassOf f) i j"
  shows "plain_copy f j = plain_copy f i"
proof -
  have "map_option (ClassOf f) (arg_at j 0) = map_option (ClassOf f) (arg_at i 0)"
    using reads_same_sel[OF assms] by (cases "in_Args i"; cases "in_Args j") (auto simp: arg_at_def)
  then have "Option.bind (arg_at j 0) (\<lambda>a. map_option (\<lambda>c. c = k) (ClassOf f a)) = Option.bind (arg_at i 0) (\<lambda>a. map_option (\<lambda>c. c = k) (ClassOf f a))" for k
    by (cases "arg_at j 0"; cases "arg_at i 0") auto
  moreover have "in_Op j = in_Op i" "in_To j = in_To i" "in_Cls j = in_Cls i" using reads_same_sel[OF assms] by simp_all
  ultimately show ?thesis by (simp only: plain_copy_def)
qed

lemma Copy_blocks:
  assumes c: "Copy f = Some (g, True)" and f: "in_arena f" "copies_typed f"
  obtains s raw where "fold_opt (raw_copy f) (positions f) [] = Some raw" "resolve_copies raw = Some s"
    "f_Blocks g = f_Blocks f" "f_Temps g = f_Temps f" "f_Consts g = f_Consts f"
    "\<And>b. b \<in> set (f_Blocks f) \<Longrightarrow> \<exists>y. subst_block s (blk f b) = Some y \<and> list_all2 (reads_same (ClassOf f)) (b_Instrs (blk f b)) (b_Instrs y) \<and>
       blk g b = y\<lparr>b_Instrs := filter (\<lambda>i. \<not> is_plain f i \<and> in_Op i \<noteq> ONop) (b_Instrs y)\<rparr>"
proof -
  obtain raw s h d where raw: "fold_opt (raw_copy f) (positions f) [] = Some raw" and s: "resolve_copies raw = Some s"
    and h: "applySubst s f = Some h" and d: "fold_opt drop_copy (positions h) h = Some d" and g: "g = removeNops d"
    using c by (auto simp: Copy_def bind_eq_Some_conv split: if_split_asm)
  note H = applySubst_blocks[OF h f(1)]
  have ih: "in_arena h" using H f(1) by (simp add: in_arena_def)
  then have "distinct (f_Blocks h)" "\<forall>b \<in> set (f_Blocks h). b < length (f_arena h)" by (auto simp: in_arena_def)
  note D = drop_copies_blocks[OF d[unfolded positions_def] this]
  have "in_arena d" using D ih by (simp add: in_arena_def)
  note N = removeNops_blocks[OF this]
  have p: "plain_copy h = plain_copy f" using H by (intro plain_copy_cong) simp_all
  have "copies_hold (ClassOf f) f" using f(2) is_plainD(4) unfolding copies_hold_def copies_typed_def by metis
  then have r: "subst_respects (ClassOf f) s" by (rule resolve_copies_respects[OF raw s])
  have "\<exists>y. subst_block s (blk f b) = Some y \<and> list_all2 (reads_same (ClassOf f)) (b_Instrs (blk f b)) (b_Instrs y) \<and>
       blk g b = y\<lparr>b_Instrs := filter (\<lambda>i. \<not> is_plain f i \<and> in_Op i \<noteq> ONop) (b_Instrs y)\<rparr>" if b: "b \<in> set (f_Blocks f)" for b
  proof -
    have y: "subst_block s (blk f b) = Some (blk h b)" using H b by metis
    have "filter (\<lambda>i. in_Op i \<noteq> ONop) (map (\<lambda>i. if is_plain f i then instr0 else i) xs) = filter (\<lambda>i. \<not> is_plain f i \<and> in_Op i \<noteq> ONop) xs" for xs
      by (induction xs) (auto simp: instr0_def)
    then have "blk g b = (blk h b)\<lparr>b_Instrs := filter (\<lambda>i. \<not> is_plain f i \<and> in_Op i \<noteq> ONop) (b_Instrs (blk h b))\<rparr>"
      using N D H b p g by simp
    then show ?thesis using y subst_block_respects[OF r y] by blast
  qed
  then show ?thesis using that[OF raw s] H D N g by simp
qed

text \<open>What is left reads what it did.\<close>

lemma Copy_sound:
  assumes "Copy f = Some (g, True)" "in_arena f" "copies_typed f" "copies_hold val f"
  shows "f_Blocks g = f_Blocks f \<and> f_Temps g = f_Temps f \<and> f_Consts g = f_Consts f \<and>
    (\<forall>b. b \<in> set (f_Blocks f) \<longrightarrow>
       list_all2 (phi_reads_same val) (b_Phis (blk f b)) (b_Phis (blk g b)) \<and>
       list_all2 (reads_same val) (filter (\<lambda>i. \<not> is_plain f i \<and> in_Op i \<noteq> ONop) (b_Instrs (blk f b))) (b_Instrs (blk g b)) \<and>
       jmp_reads_same val (b_Jmp (blk f b)) (b_Jmp (blk g b)))"
proof -
  obtain s raw where raw: "fold_opt (raw_copy f) (positions f) [] = Some raw" "resolve_copies raw = Some s"
    and sel: "f_Blocks g = f_Blocks f" "f_Temps g = f_Temps f" "f_Consts g = f_Consts f"
    and blocks: "\<And>b. b \<in> set (f_Blocks f) \<Longrightarrow> \<exists>y. subst_block s (blk f b) = Some y \<and> list_all2 (reads_same (ClassOf f)) (b_Instrs (blk f b)) (b_Instrs y) \<and>
       blk g b = y\<lparr>b_Instrs := filter (\<lambda>i. \<not> is_plain f i \<and> in_Op i \<noteq> ONop) (b_Instrs y)\<rparr>"
    using Copy_blocks[OF assms(1-3)] by blast
  have r: "subst_respects val s" by (rule resolve_copies_respects[OF raw assms(4)])
  have "list_all2 (phi_reads_same val) (b_Phis (blk f b)) (b_Phis (blk g b)) \<and>
       list_all2 (reads_same val) (filter (\<lambda>i. \<not> is_plain f i \<and> in_Op i \<noteq> ONop) (b_Instrs (blk f b))) (b_Instrs (blk g b)) \<and>
       jmp_reads_same val (b_Jmp (blk f b)) (b_Jmp (blk g b))" if b: "b \<in> set (f_Blocks f)" for b
  proof -
    obtain y where y: "subst_block s (blk f b) = Some y" "list_all2 (reads_same (ClassOf f)) (b_Instrs (blk f b)) (b_Instrs y)"
      "blk g b = y\<lparr>b_Instrs := filter (\<lambda>i. \<not> is_plain f i \<and> in_Op i \<noteq> ONop) (b_Instrs y)\<rparr>" using blocks[OF b] by blast
    note R = subst_block_respects[OF r y(1)]
    have "list_all2 (\<lambda>i j. reads_same val i j \<and> reads_same (ClassOf f) i j) (b_Instrs (blk f b)) (b_Instrs y)"
      using R y(2) by (simp add: list_all2_conv_all_nth)
    then have "list_all2 (reads_same val) (filter (\<lambda>i. \<not> is_plain f i \<and> in_Op i \<noteq> ONop) (b_Instrs (blk f b)))
        (filter (\<lambda>i. \<not> is_plain f i \<and> in_Op i \<noteq> ONop) (b_Instrs y))"
      by (induction rule: list_all2_induct) (auto dest: is_plain_reads_same reads_same_sel)
    then show ?thesis using R y(3) by simp
  qed
  then show ?thesis using sel by blast
qed

section \<open>The pass returns\<close>

lemma chase_from_resolve: "subst_resolve s r = Some r' \<Longrightarrow> s = map_of raw \<Longrightarrow> chase_from raw r = Some r'"
proof (induction s r r' rule: subst_resolve.raw_induct[rotated, consumes 1, case_names step])
  case (step res s r r')
  show ?case
  proof (cases "r_Kind r = RefTemp")
    case True
    then show ?thesis using step by (subst chase_from.simps) (auto split: option.splits)
  next
    case False
    then show ?thesis using step(2) by (subst chase_from.simps) simp
  qed
qed

definition copies_acyclic :: "func \<Rightarrow> bool" where
  "copies_acyclic f \<longleftrightarrow> (\<exists>rk. \<forall>p \<in> set (positions f). is_plain f (instr_at f p) \<longrightarrow> r_Kind (hd (in_Args (instr_at f p))) = RefTemp \<longrightarrow>
     rk (r_ID (hd (in_Args (instr_at f p)))) < (rk (r_ID (in_To (instr_at f p))) :: nat))"

definition copies_indexed :: "func \<Rightarrow> bool" where
  "copies_indexed f \<longleftrightarrow> (\<forall>p \<in> set (positions f). plain_copy f (instr_at f p) \<noteq> None)"

lemma raw_copies_total: "(\<And>p. p \<in> set ps \<Longrightarrow> plain_copy f (instr_at f p) \<noteq> None) \<Longrightarrow> \<exists>raw. fold_opt (raw_copy f) ps raw0 = Some raw"
proof (induction ps arbitrary: raw0)
  case (Cons p ps)
  obtain cp where cp: "plain_copy f (instr_at f p) = Some cp" using Cons.prems[of p] by auto
  then obtain raw1 where raw1: "raw_copy f p raw0 = Some raw1" by (simp add: raw_copy_def Let_def)
  obtain raw where "fold_opt (raw_copy f) ps raw1 = Some raw" using Cons.IH[of raw1] Cons.prems by auto
  then show ?case using raw1 by auto
qed simp

lemma chase_total:
  assumes "subst_ranked rk (map_of raw)" "map_of raw t = Some n"
  shows "\<exists>r. chase raw t = Some r \<and> (r_Kind r = RefTemp \<longrightarrow> map_of raw (r_ID r) = None)"
proof -
  obtain r where "subst_resolve (map_of raw) n = Some r" "r_Kind r = RefTemp \<longrightarrow> map_of raw (r_ID r) = None"
    using subst_resolve_ends[OF assms(1)] by blast
  then show ?thesis using assms(2) chase_from_resolve[of "map_of raw" n r raw] by (auto simp: chase_def)
qed

lemma resolve_copies_total:
  assumes "subst_ranked rk (map_of raw)"
  shows "\<exists>s. resolve_copies raw = Some s \<and> (\<forall>t r. s t = Some r \<longrightarrow> r_Kind r = RefTemp \<longrightarrow> s (r_ID r) = None)"
proof -
  define step where "step = (\<lambda>t s. map_option (\<lambda>r. s(t := Some r :: ref option)) (chase raw t))"
  have "\<exists>s. fold_opt step (map fst raw) (\<lambda>_. None) = Some s \<and> (\<forall>t. s t \<noteq> None \<longrightarrow> map_of raw t \<noteq> None \<and> s t = chase raw t)"
  proof (rule fold_opt_invar)
    fix t ys zs s
    assume m: "map fst raw = ys @ t # zs" and i: "\<forall>t. s t \<noteq> None \<longrightarrow> map_of raw t \<noteq> None \<and> s t = chase raw t"
    have "t \<in> fst ` set raw" using arg_cong[OF m, of set] by auto
    then obtain n where n: "map_of raw t = Some n" by (meson map_of_eq_None_iff not_None_eq)
    then obtain r where "chase raw t = Some r" using chase_total[OF assms] by blast
    then show "\<exists>s'. step t s = Some s' \<and> (\<forall>t. s' t \<noteq> None \<longrightarrow> map_of raw t \<noteq> None \<and> s' t = chase raw t)"
      using i n by (auto simp: step_def)
  qed simp
  then obtain s where s: "resolve_copies raw = Some s" "\<And>t. s t \<noteq> None \<Longrightarrow> map_of raw t \<noteq> None \<and> s t = chase raw t"
    unfolding resolve_copies_def step_def by auto
  have "s (r_ID r) = None" if r: "s t = Some r" "r_Kind r = RefTemp" for t r
  proof -
    obtain n where n: "map_of raw t = Some n" "chase raw t = Some r" using s(2)[of t] r by auto
    then have "map_of raw (r_ID r) = None" using chase_total[OF assms n(1)] r(2) by auto
    then show ?thesis using s(2)[of "r_ID r"] by (cases "s (r_ID r)") auto
  qed
  then show ?thesis using s(1) by blast
qed

lemma subst_block_total:
  assumes "\<And>r. \<exists>r'. subst_resolve s r = Some r'"
  shows "\<exists>y. subst_block s x = Some y"
proof -
  have "subst_resolve s r \<noteq> None" for r using assms[of r] by auto
  then have refs: "\<exists>as. subst_refs s rs = Some as" for rs unfolding subst_refs_def by (rule those_map_total)
  have "subst_phi s p \<noteq> None" for p using refs[of "p_Args p"] by (auto simp: subst_phi_def)
  then obtain ps where ps: "those (map (subst_phi s) (b_Phis x)) = Some ps" using those_map_total[of "b_Phis x" "subst_phi s"] by metis
  have "subst_instr s i \<noteq> None" for i
  proof -
    obtain as where as: "subst_refs s (in_Args i) = Some as" using refs by blast
    obtain c where "subst_resolve s (instr_ClosureContext (i\<lparr>in_Args := as\<rparr>)) = Some c" using assms by blast
    then show ?thesis using as by (simp add: subst_instr_def Let_def)
  qed
  then obtain "is" where i: "those (map (subst_instr s) (b_Instrs x)) = Some is" using those_map_total[of "b_Instrs x" "subst_instr s"] by metis
  obtain a where "subst_resolve s (j_Arg (b_Jmp x)) = Some a" using assms by blast
  moreover obtain as where "subst_refs s (j_Args (b_Jmp x)) = Some as" using refs by blast
  ultimately show ?thesis using ps i by (simp add: subst_block_def subst_jmp_def)
qed

lemma applySubst_total:
  assumes "\<And>r. \<exists>r'. subst_resolve s r = Some r'"
  shows "\<exists>g. applySubst s f = Some g"
proof -
  define body where "body = (\<lambda>b g. map_option (\<lambda>x. upd_blk b (\<lambda>_. x) g) (subst_block s (blk g b)))"
  have "\<exists>g. fold_opt body (f_Blocks f) f = Some g \<and> True"
  proof (rule fold_opt_invar)
    fix b ys zs g
    obtain y where "subst_block s (blk g b) = Some y" using subst_block_total[OF assms] by blast
    then show "\<exists>g'. body b g = Some g' \<and> True" by (simp add: body_def)
  qed simp
  then show ?thesis unfolding applySubst_def body_def by simp
qed

lemma instr_at_set_instr: "q \<noteq> p \<Longrightarrow> instr_at (set_instr p i f) q = instr_at f q"
proof -
  assume n: "q \<noteq> p"
  obtain b k c j where bk: "p = (b, k)" "q = (c, j)" by (cases p; cases q)
  show ?thesis
  proof (cases "b < length (f_arena f)")
    case True
    then show ?thesis using n bk blk_set_instr[OF True, of k i c] by (auto simp: instr_at_def)
  next
    case False
    then have "set_instr p i f = f" using bk by (simp add: set_instr_def upd_blk_def list_update_beyond)
    then show ?thesis by simp
  qed
qed

lemma drop_copies_total:
  assumes "\<And>p. p \<in> set ps \<Longrightarrow> plain_copy f (instr_at f p) \<noteq> None" "distinct ps"
  shows "\<exists>g. fold_opt drop_copy ps f = Some g"
  using assms
proof (induction ps arbitrary: f)
  case (Cons p ps)
  obtain cp where cp: "plain_copy f (instr_at f p) = Some cp" using Cons.prems(1)[of p] by auto
  define g where "g = (if cp then set_instr p instr0 f else f)"
  have g: "drop_copy p f = Some g" using cp by (simp add: drop_copy_def g_def)
  have pc: "plain_copy g = plain_copy f" by (rule plain_copy_cong) (simp_all add: g_def)
  have "plain_copy g (instr_at g q) \<noteq> None" if q: "q \<in> set ps" for q
  proof -
    have "q \<noteq> p" using q Cons.prems(2) by auto
    then have "instr_at g q = instr_at f q" using instr_at_set_instr[of q p instr0 f] by (simp add: g_def)
    then show ?thesis using Cons.prems(1)[of q] q pc by simp
  qed
  then show ?case using Cons.IH[of g] Cons.prems(2) g by simp
qed simp

lemma distinct_positions: "distinct (f_Blocks f) \<Longrightarrow> distinct (positions f)"
proof -
  have "distinct bs \<Longrightarrow> distinct (concat (map (\<lambda>b. map (Pair b) [0..<F b]) bs))" for bs :: "bptr list" and F :: "bptr \<Rightarrow> nat"
    by (induction bs) (auto simp: distinct_map inj_on_def)
  then show "distinct (f_Blocks f) \<Longrightarrow> distinct (positions f)" by (simp add: positions_def)
qed

lemma in_positions: "(b, k) \<in> set (positions f) \<longleftrightarrow> b \<in> set (f_Blocks f) \<and> k < length (b_Instrs (blk f b))"
  by (auto simp: positions_def image_iff)

lemma Copy_returns:
  assumes f: "in_arena f" "copies_typed f" and a: "copies_acyclic f" "copies_indexed f"
  shows "\<exists>g c. Copy f = Some (g, c)"
proof -
  have ok: "\<And>p. p \<in> set (positions f) \<Longrightarrow> plain_copy f (instr_at f p) \<noteq> None" using a(2) unfolding copies_indexed_def by blast
  obtain raw where raw: "fold_opt (raw_copy f) (positions f) [] = Some raw" using raw_copies_total[OF ok] by blast
  obtain rk :: "nat \<Rightarrow> nat" where rk: "\<And>p. p \<in> set (positions f) \<Longrightarrow> is_plain f (instr_at f p) \<Longrightarrow> r_Kind (hd (in_Args (instr_at f p))) = RefTemp \<Longrightarrow>
     rk (r_ID (hd (in_Args (instr_at f p)))) < rk (r_ID (in_To (instr_at f p)))" using a(1) unfolding copies_acyclic_def by blast
  have "subst_ranked rk (map_of raw)" unfolding subst_ranked_def
  proof (intro allI impI)
    fix t r assume m: "map_of raw t = Some r" "r_Kind r = RefTemp"
    obtain p where "p \<in> set (positions f)" "is_plain f (instr_at f p)" "in_To (instr_at f p) = tempRef t" "hd (in_Args (instr_at f p)) = r"
      using raw_copies[OF raw m(1)] by auto
    then show "rk (r_ID r) < rk t" using rk[of p] m(2) by (simp add: tempRef_def)
  qed
  then obtain s where s: "resolve_copies raw = Some s" "\<And>t r. s t = Some r \<Longrightarrow> r_Kind r = RefTemp \<Longrightarrow> s (r_ID r) = None"
    using resolve_copies_total by blast
  have "subst_ranked (\<lambda>t. if s t = None then 0 else 1) s" using s(2) by (auto simp: subst_ranked_def)
  then have "\<exists>r'. subst_resolve s r = Some r'" for r using subst_resolve_ends by blast
  then obtain h where h: "applySubst s f = Some h" using applySubst_total by blast
  note H = applySubst_blocks[OF h f(1)]
  have "copies_hold (ClassOf f) f" using f(2) is_plainD(4) unfolding copies_hold_def copies_typed_def by metis
  then have r: "subst_respects (ClassOf f) s" by (rule resolve_copies_respects[OF raw s(1)])
  have pc: "plain_copy h = plain_copy f" using H by (intro plain_copy_cong) simp_all
  have "plain_copy h (instr_at h p) \<noteq> None" if p: "p \<in> set (positions h)" for p
  proof -
    obtain b k where bk: "p = (b, k)" by (cases p)
    then have b: "b \<in> set (f_Blocks f)" "k < length (b_Instrs (blk h b))" using p H by (simp_all add: in_positions)
    then have y: "subst_block s (blk f b) = Some (blk h b)" using H by metis
    have l: "list_all2 (reads_same (ClassOf f)) (b_Instrs (blk f b)) (b_Instrs (blk h b))" using subst_block_respects[OF r y] by blast
    then have k: "k < length (b_Instrs (blk f b))" using b(2) by (simp add: list_all2_lengthD)
    have "reads_same (ClassOf f) (instr_at f p) (instr_at h p)" using list_all2_nthD[OF l k] bk by (simp add: instr_at_def)
    then have "plain_copy f (instr_at h p) = plain_copy f (instr_at f p)" by (rule is_plain_reads_same)
    then show ?thesis using ok[of p] b(1) k bk pc by (simp add: in_positions)
  qed
  moreover have "distinct (positions h)" using H f(1) by (intro distinct_positions) (simp add: in_arena_def)
  ultimately obtain d where "fold_opt drop_copy (positions h) h = Some d" using drop_copies_total by blast
  then show ?thesis using raw s(1) h by (cases "raw = []") (auto simp: Copy_def)
qed

section \<open>The claim\<close>

lemma Copy_unchanged: "Copy f = Some (g, False) \<Longrightarrow> g = f"
  by (auto simp: Copy_def bind_eq_Some_conv split: if_split_asm)


text \<open>An instance: \<open>y = copy x; ret y\<close>.\<close>

definition copy_fn :: func where
  "copy_fn = (fr_fn add_frame)\<lparr>f_Blocks := [0], f_arena := [block0\<lparr>
     b_Instrs := [instr0\<lparr>in_Op := OCopy, in_Cls := ClsW, in_To := tempRef 1, in_Args := [tempRef 0]\<rparr>], b_Jmp := jmp0\<lparr>j_Kind := JmpRet, j_Arg := tempRef 1\<rparr>\<rparr>]\<rparr>"

lemma copy_fn_runs: "map_option (\<lambda>(g, c). (map b_Instrs (f_arena g), j_Arg (b_Jmp (blk g 0)), c)) (Copy copy_fn) = Some ([[]], tempRef 0, True)"
  by code_simp


section \<open>A copy lost\<close>

text \<open>
  The second loop asks again which copies are plain, after the substitution: here \<open>z = copy y\<close> was not,
  as \<open>y\<close> is of class \<open>p\<close>, and has become one.  It is dropped, and \<open>z\<close> is left without a definition.
\<close>

definition lost_fn :: func where
  "lost_fn = (snd (newTemp ''z'' ClsL (snd (newTemp ''y'' ClsP (snd (newTemp ''x'' ClsL func0))))))
     \<lparr>f_Params := [0], f_Start := Some 0, f_Blocks := [0], f_arena := [block0\<lparr>
     b_Instrs := [instr0\<lparr>in_Op := OCopy, in_Cls := ClsL, in_To := tempRef 1, in_Args := [tempRef 0]\<rparr>,
       instr0\<lparr>in_Op := OCopy, in_Cls := ClsL, in_To := tempRef 2, in_Args := [tempRef 1]\<rparr>], b_Jmp := jmp0\<lparr>j_Kind := JmpRet, j_Arg := tempRef 2\<rparr>\<rparr>]\<rparr>"


end
