(* ===== verification/Coalesce.thy ===== *)
theory Coalesce
  imports Liveness
begin

text \<open>
  Coalescing the phis at the targets of computed gotos (\<open>CoalescePhis\<close> and \<open>buildPhiInterference\<close> of
  \<open>lower/ssa.go\<close>).  \<open>None\<close> is a panic: an index out of range, a nil block or a nil set.
\<close>

definition nth_opt :: "'a list \<Rightarrow> nat \<Rightarrow> 'a option" where
  "nth_opt xs k = (if k < length xs then Some (xs ! k) else None)"

definition set_opt :: "nat \<Rightarrow> 'a \<Rightarrow> 'a list \<Rightarrow> 'a list option" where
  "set_opt k x xs = (if k < length xs then Some (xs[k := x]) else None)"

section \<open>The phi operands that arrive over a computed goto\<close>

definition br_edge :: "func \<Rightarrow> phi \<Rightarrow> nat \<Rightarrow> bool option" where
  "br_edge f p k = Option.bind (nth_opt (p_Blocks p) k) (map_option (\<lambda>u. j_Kind (b_Jmp (blk f u)) = JmpBr))"

definition br_args :: "func \<Rightarrow> phi \<Rightarrow> (nat \<times> nat) list option" where
  "br_args f p =
     (if r_Kind (p_To p) \<noteq> RefTemp then Some []
      else fold_opt (\<lambda>(k, a) ps.
             if r_Kind a = RefTemp
             then Option.bind (br_edge f p k) (\<lambda>br. Some (if br then ps @ [(r_ID (p_To p), r_ID a)] else ps))
             else Some ps) (enumerate 0 (p_Args p)) [])"

text \<open>Both passes over the phis visit the same pairs of a result and an operand.\<close>

definition br_pairs :: "func \<Rightarrow> (nat \<times> nat) list option" where
  "br_pairs f = fold_opt (\<lambda>p ps. map_option (\<lambda>qs. ps @ qs) (br_args f p)) (concat (map (\<lambda>b. b_Phis (blk f b)) (f_Blocks f))) []"

definition mark_pair :: "nat \<times> nat \<Rightarrow> bool list \<Rightarrow> bool list option" where
  "mark_pair = (\<lambda>(d, a) invd. Option.bind (set_opt d True invd) (set_opt a True))"

section \<open>Interference\<close>

type_synonym interference = "tempset option list"

definition interf_add :: "nat \<Rightarrow> nat \<Rightarrow> interference \<Rightarrow> interference option" where
  "interf_add a b I = Option.bind (nth_opt I a) (\<lambda>s. Option.bind s (\<lambda>s. Option.bind (ts_Add b s) (\<lambda>(_, s'). Some (I[a := Some s']))))"

definition addEdge :: "bool list \<Rightarrow> nat \<Rightarrow> nat \<Rightarrow> interference \<Rightarrow> interference option" where
  "addEdge invd a b I =
     (if a = b then Some I
      else Option.bind (nth_opt invd a) (\<lambda>ia. if \<not> ia then Some I
      else Option.bind (nth_opt invd b) (\<lambda>ib. if \<not> ib then Some I
      else Option.bind (interf_add a b I) (interf_add b a))))"

definition def_point :: "bool list \<Rightarrow> nat \<Rightarrow> tempset \<Rightarrow> interference \<Rightarrow> interference option" where
  "def_point invd d liveNow I = Option.bind (nth_opt invd d) (\<lambda>i.
     if i then snd (ts_All liveNow (\<lambda>t st. (True, Option.bind st (addEdge invd d t))) (Some I)) else Some I)"

definition def_ref :: "bool list \<Rightarrow> ref \<Rightarrow> tempset \<times> interference \<Rightarrow> (tempset \<times> interference) option" where
  "def_ref invd r = (\<lambda>(liveNow, I).
     if r_Kind r = RefTemp
     then Option.bind (def_point invd (r_ID r) liveNow I) (\<lambda>I'. map_option (\<lambda>l. (l, I')) (ts_Remove (r_ID r) liveNow))
     else Some (liveNow, I))"

definition instr_interf :: "bool list \<Rightarrow> instr \<Rightarrow> tempset \<times> interference \<Rightarrow> (tempset \<times> interference) option" where
  "instr_interf invd i st = Option.bind (def_ref invd (in_To i) st) (\<lambda>st1.
     Option.bind (fold_opt (def_ref invd) (instr_Defs i) st1) (\<lambda>(liveNow, I).
     map_option (\<lambda>l. (l, I)) (fold_opt addRef (instr_Uses i) liveNow)))"

fun phi_interf :: "bool list \<Rightarrow> tempset \<Rightarrow> phi list \<Rightarrow> interference \<Rightarrow> interference option" where
  "phi_interf invd liveNow [] I = Some I"
| "phi_interf invd liveNow (p # ps) I =
     (if r_Kind (p_To p) \<noteq> RefTemp then phi_interf invd liveNow ps I
      else Option.bind (def_point invd (r_ID (p_To p)) liveNow I) (\<lambda>I1.
           Option.bind (fold_opt (\<lambda>q J. if r_Kind (p_To q) = RefTemp then addEdge invd (r_ID (p_To p)) (r_ID (p_To q)) J else Some J) ps I1)
             (phi_interf invd liveNow ps)))"

definition block_interf :: "func \<Rightarrow> liveness \<Rightarrow> bool list \<Rightarrow> bptr \<Rightarrow> interference \<Rightarrow> interference option" where
  "block_interf f l invd b I = (let x = blk f b in
     Option.bind (lv_Out l b) (\<lambda>out.
     Option.bind (addRef (j_Arg (b_Jmp x)) (ts_Copy out)) (\<lambda>l1.
     Option.bind (fold_opt addRef (j_Args (b_Jmp x)) l1) (\<lambda>l2.
     Option.bind (fold_opt (instr_interf invd) (rev (b_Instrs x)) (l2, I)) (\<lambda>(l3, I').
     phi_interf invd l3 (b_Phis x) I')))))"

definition buildPhiInterference :: "func \<Rightarrow> cfg \<Rightarrow> liveness \<Rightarrow> nat \<Rightarrow> bool list \<Rightarrow> interference option" where
  "buildPhiInterference f c l nt invd = fold_opt (block_interf f l invd) (cfg_RPO c)
     (map (\<lambda>i. if invd ! i then Some (NewTempSet nt) else None) [0..<nt])"

section \<open>Union-find\<close>

record classes =
  uf_parent :: "nat list"
  uf_size :: "nat list"
  uf_members :: "nat list list"
  uf_interf :: interference

definition classes0 :: "nat \<Rightarrow> bool list \<Rightarrow> interference \<Rightarrow> classes" where
  "classes0 nt invd I = \<lparr>uf_parent = [0..<nt], uf_size = map (\<lambda>i. if invd ! i then 1 else 0) [0..<nt],
     uf_members = map (\<lambda>i. if invd ! i then [i] else []) [0..<nt], uf_interf = I\<rparr>"

text \<open>\<open>find\<close> halves the path it walks.\<close>

partial_function (option) uf_find :: "nat \<Rightarrow> nat list \<Rightarrow> (nat \<times> nat list) option" where
  "uf_find x par = (case nth_opt par x of
     None \<Rightarrow> None
   | Some y \<Rightarrow> if y = x then Some (x, par)
       else (case nth_opt par y of None \<Rightarrow> None | Some z \<Rightarrow> uf_find z (par[x := z])))"

declare uf_find.simps [code]

fun any_has :: "tempset \<Rightarrow> nat list \<Rightarrow> bool option" where
  "any_has s [] = Some False"
| "any_has s (m # ms) = Option.bind (ts_Has m s) (\<lambda>h. if h then Some True else any_has s ms)"

definition uf_link :: "nat \<Rightarrow> nat \<Rightarrow> classes \<Rightarrow> classes option" where
  "uf_link ra rb u = Option.bind (Option.bind (nth_opt (uf_interf u) ra) id) (\<lambda>ia.
     Option.bind (any_has ia (uf_members u ! rb)) (\<lambda>clash.
       if clash then Some u
       else Option.bind (Option.bind (nth_opt (uf_interf u) rb) id) (\<lambda>ib.
            Option.bind (ts_Union ia ib) (\<lambda>(_, ia').
            Some \<lparr>uf_parent = (uf_parent u)[rb := ra],
                  uf_size = (uf_size u)[ra := uf_size u ! ra + uf_size u ! rb],
                  uf_members = (uf_members u)[ra := uf_members u ! ra @ uf_members u ! rb, rb := []],
                  uf_interf = (uf_interf u)[ra := Some ia']\<rparr>))))"

definition uf_union :: "nat \<times> nat \<Rightarrow> classes \<Rightarrow> classes option" where
  "uf_union = (\<lambda>(a, b) u.
     Option.bind (uf_find a (uf_parent u)) (\<lambda>(ra, par1).
     Option.bind (uf_find b par1) (\<lambda>(rb, par2).
       let u' = u\<lparr>uf_parent := par2\<rparr> in
       if ra = rb then Some u'
       else if uf_size u ! ra < uf_size u ! rb then uf_link rb ra u' else uf_link ra rb u')))"

section \<open>Renaming\<close>

definition class_rep :: "classes \<Rightarrow> nat \<Rightarrow> nat list" where
  "class_rep u nt = fold (\<lambda>i rep. let ms = uf_members u ! i in
     if ms = [] then rep else fold (\<lambda>m rep. rep[m := fold min ms i]) ms rep) [0..<nt] [0..<nt]"

definition rename_ref :: "nat list \<Rightarrow> ref \<Rightarrow> ref option" where
  "rename_ref rep r = (if r_Kind r = RefTemp then map_option (\<lambda>i. r\<lparr>r_ID := i\<rparr>) (nth_opt rep (r_ID r)) else Some r)"

definition rename_refs :: "nat list \<Rightarrow> ref list \<Rightarrow> ref list option" where
  "rename_refs rep rs = those (map (rename_ref rep) rs)"

definition rename_phi :: "nat list \<Rightarrow> phi \<Rightarrow> phi option" where
  "rename_phi rep p = Option.bind (rename_ref rep (p_To p)) (\<lambda>t. map_option (\<lambda>as. p\<lparr>p_To := t, p_Args := as\<rparr>) (rename_refs rep (p_Args p)))"

definition rename_context :: "nat list \<Rightarrow> instr \<Rightarrow> instr option" where
  "rename_context rep i = (let c = instr_ClosureContext i in
     if ref_IsNone c then Some i else map_option (\<lambda>c'. instr_SetClosureContext c' i) (rename_ref rep c))"

definition rename_defs :: "nat list \<Rightarrow> instr \<Rightarrow> instr option" where
  "rename_defs rep i = (if instr_Defs i = [] then Some i else map_option (\<lambda>ds. instr_SetDefs ds i) (rename_refs rep (instr_Defs i)))"

definition rename_instr :: "nat list \<Rightarrow> instr \<Rightarrow> instr option" where
  "rename_instr rep i = Option.bind (rename_ref rep (in_To i)) (\<lambda>t. Option.bind (rename_refs rep (in_Args i)) (\<lambda>as.
     Option.bind (rename_context rep (i\<lparr>in_To := t, in_Args := as\<rparr>)) (rename_defs rep)))"

definition rename_jmp :: "nat list \<Rightarrow> jmp \<Rightarrow> jmp option" where
  "rename_jmp rep j = Option.bind (rename_ref rep (j_Arg j)) (\<lambda>a. map_option (\<lambda>as. j\<lparr>j_Arg := a, j_Args := as\<rparr>) (rename_refs rep (j_Args j)))"

definition rename_block :: "nat list \<Rightarrow> block \<Rightarrow> block option" where
  "rename_block rep x = Option.bind (those (map (rename_phi rep) (b_Phis x))) (\<lambda>ps.
     Option.bind (those (map (rename_instr rep) (b_Instrs x))) (\<lambda>is.
     map_option (\<lambda>j. x\<lparr>b_Phis := ps, b_Instrs := is, b_Jmp := j\<rparr>) (rename_jmp rep (b_Jmp x))))"

definition rename_func :: "nat list \<Rightarrow> func \<Rightarrow> func option" where
  "rename_func rep f = fold_opt (\<lambda>b g. map_option (\<lambda>x. upd_blk b (\<lambda>_. x) g) (rename_block rep (blk g b))) (f_Blocks f) f"

section \<open>The pass\<close>

text \<open>The classes of temporaries that may share a name.\<close>

definition coalesce_classes :: "func \<Rightarrow> cfg \<Rightarrow> (nat \<times> nat) list \<Rightarrow> classes option" where
  "coalesce_classes f c ps = (let nt = length (f_Temps f) in
     Option.bind (fold_opt mark_pair ps (replicate nt False)) (\<lambda>invd.
     Option.bind (Liveness f c) (\<lambda>l.
     Option.bind (buildPhiInterference f c l nt invd) (\<lambda>I.
     fold_opt uf_union ps (classes0 nt invd I)))))"

definition CoalescePhis :: "func \<Rightarrow> func option" where
  "CoalescePhis f =
     (if f_Temps f = [] then Some f
      else Option.bind (br_pairs f) (\<lambda>ps.
        if ps = [] then Some f
        else case BuildCFG None [] f of (c, f', _) \<Rightarrow>
          Option.bind (coalesce_classes f' c ps) (\<lambda>u. rename_func (class_rep u (length (f_Temps f'))) f')))"

end
