(* ===== verification/Coalesce_Interf.thy ===== *)
theory Coalesce_Interf
  imports Coalesce
begin

text \<open>
  The interference graph of \<open>buildPhiInterference\<close>: it returns, it relates only different involved
  temporaries, symmetrically, and wherever one is defined while another is live it has the edge.
\<close>

section \<open>The interference graph\<close>

definition edges :: "interference \<Rightarrow> (nat \<times> nat) set" where
  "edges I = {(a, b). a < length I \<and> (\<exists>s. I ! a = Some s \<and> b \<in> ts_set s)}"

text \<open>Sets for the involved temporaries; a symmetric relation between different involved temporaries.\<close>

definition interf_ok :: "nat \<Rightarrow> bool list \<Rightarrow> interference \<Rightarrow> bool" where
  "interf_ok nt invd I \<longleftrightarrow> length I = nt \<and> length invd = nt \<and>
     (\<forall>a < nt. invd ! a \<longrightarrow> (\<exists>s. I ! a = Some s \<and> ts_cap s = ts_cap (NewTempSet nt))) \<and>
     (\<forall>a b. (a, b) \<in> edges I \<longrightarrow> (b, a) \<in> edges I \<and> a \<noteq> b \<and> a < nt \<and> b < nt \<and> invd ! a \<and> invd ! b)"

definition new_edges :: "bool list \<Rightarrow> nat set \<Rightarrow> nat set \<Rightarrow> (nat \<times> nat) set" where
  "new_edges invd D T = {(a, b). a \<noteq> b \<and> invd ! a \<and> invd ! b \<and> (a \<in> D \<and> b \<in> T \<or> a \<in> T \<and> b \<in> D)}"

lemma interf_add_spec:
  assumes "a < length I" "I ! a = Some s" "b < ts_cap s"
  shows "\<exists>s'. interf_add a b I = Some (I[a := Some s']) \<and> ts_set s' = insert b (ts_set s) \<and> ts_cap s' = ts_cap s"
proof -
  obtain s' where "ts_Add b s = Some (b \<notin> ts_set s, s')" "ts_set s' = insert b (ts_set s)" "ts_cap s' = ts_cap s"
    using ts.add[OF assms(3)] by blast
  then show ?thesis using assms(1,2) by (intro exI[of _ s']) (simp add: interf_add_def nth_opt_def)
qed

lemma edges_update: "a < length I \<Longrightarrow> edges (I[a := Some s']) = {(x, y). if x = a then y \<in> ts_set s' else (x, y) \<in> edges I}"
  by (auto simp: edges_def nth_list_update)

lemma addEdge_spec:
  assumes I: "interf_ok nt invd I" and ab: "a < nt" "b < nt"
  shows "\<exists>I'. addEdge invd a b I = Some I' \<and> interf_ok nt invd I' \<and> edges I' = edges I \<union> new_edges invd {a} {b}"
proof (cases "a \<noteq> b \<and> invd ! a \<and> invd ! b")
  case False
  then have "addEdge invd a b I = Some I" using I ab by (auto simp: addEdge_def nth_opt_def interf_ok_def)
  moreover have "new_edges invd {a} {b} = {}" using False by (auto simp: new_edges_def)
  ultimately show ?thesis using I by simp
next
  case True
  let ?cap = "ts_cap (NewTempSet nt)"
  have len: "length I = nt" "length invd = nt" and sets: "\<And>x. x < nt \<Longrightarrow> invd ! x \<Longrightarrow> \<exists>s. I ! x = Some s \<and> ts_cap s = ?cap"
    using I by (auto simp: interf_ok_def)
  have cap: "a < ?cap" "b < ?cap" using ab ts_cap_New(1)[of nt] by auto
  obtain sa where sa: "I ! a = Some sa" "ts_cap sa = ?cap" using sets ab True by blast
  obtain sb where sb: "I ! b = Some sb" "ts_cap sb = ?cap" using sets ab True by blast
  obtain sa' where sa': "interf_add a b I = Some (I[a := Some sa'])" "ts_set sa' = insert b (ts_set sa)" "ts_cap sa' = ?cap"
    using interf_add_spec[of a I sa b] ab len sa cap by auto
  let ?I1 = "I[a := Some sa']"
  have "?I1 ! b = Some sb" using True sb by simp
  then obtain sb' where sb': "interf_add b a ?I1 = Some (?I1[b := Some sb'])" "ts_set sb' = insert a (ts_set sb)" "ts_cap sb' = ?cap"
    using interf_add_spec[of b ?I1 sb a] ab len sb cap by auto
  let ?I2 = "?I1[b := Some sb']"
  have e: "edges ?I2 = edges I \<union> new_edges invd {a} {b}"
    using True len ab sa sb by (auto simp: edges_update sa' sb' new_edges_def) (auto simp: edges_def)
  have "addEdge invd a b I = Some ?I2" using True ab len sa' sb' by (simp add: addEdge_def nth_opt_def)
  moreover have "interf_ok nt invd ?I2"
    unfolding interf_ok_def
  proof (intro conjI)
    show "\<forall>x<nt. invd ! x \<longrightarrow> (\<exists>s. ?I2 ! x = Some s \<and> ts_cap s = ?cap)" 
    proof (intro allI impI)
      fix x assume x: "x < nt" "invd ! x"
      then obtain s where "I ! x = Some s" "ts_cap s = ?cap" using sets by blast
      then show "\<exists>s. ?I2 ! x = Some s \<and> ts_cap s = ?cap" using sa' sb' len x by (cases "x = b"; cases "x = a") auto
    qed
    show "\<forall>x y. (x, y) \<in> edges ?I2 \<longrightarrow> (y, x) \<in> edges ?I2 \<and> x \<noteq> y \<and> x < nt \<and> y < nt \<and> invd ! x \<and> invd ! y"
      unfolding e using I ab by (auto simp: new_edges_def interf_ok_def)
  qed (use len in simp_all)
  ultimately show ?thesis using e by blast
qed

lemma new_edges_Un: "new_edges invd D (S \<union> T) = new_edges invd D S \<union> new_edges invd D T" "new_edges invd D {} = {}"
  "new_edges invd (C \<union> D) T = new_edges invd C T \<union> new_edges invd D T"
  by (auto simp: new_edges_def)

lemma addEdges_spec:
  assumes "interf_ok nt invd I" "d < nt" "set ts \<subseteq> {..<nt}"
  shows "\<exists>I'. fold_opt (addEdge invd d) ts I = Some I' \<and> interf_ok nt invd I' \<and> edges I' = edges I \<union> new_edges invd {d} (set ts)"
  using assms(1,3)
proof (induction ts arbitrary: I)
  case (Cons t ts)
  obtain I1 where I1: "addEdge invd d t I = Some I1" "interf_ok nt invd I1" "edges I1 = edges I \<union> new_edges invd {d} {t}"
    using addEdge_spec[OF Cons.prems(1) assms(2), of t] Cons.prems(2) by auto
  obtain I2 where "fold_opt (addEdge invd d) ts I1 = Some I2" "interf_ok nt invd I2" "edges I2 = edges I1 \<union> new_edges invd {d} (set ts)"
    using Cons.IH[OF I1(2)] Cons.prems(2) by auto
  moreover have "new_edges invd {d} (set (t # ts)) = new_edges invd {d} {t} \<union> new_edges invd {d} (set ts)"
    using new_edges_Un(1)[of invd "{d}" "{t}" "set ts"] by simp
  ultimately show ?case using I1 by auto
qed (simp add: new_edges_Un)

lemma yield_list_fold: "snd (yield_list (\<lambda>t st. (True, Option.bind st (g t))) ts (Some I)) = fold_opt g ts I"
proof -
  have n: "snd (yield_list (\<lambda>t st. (True, Option.bind st (g t))) ts None) = None" for ts by (induction ts) auto
  show ?thesis
  proof (induction ts arbitrary: I)
    case (Cons t ts)
    then show ?case using n by (cases "g t I") simp_all
  qed simp
qed

lemma def_point_spec:
  assumes "interf_ok nt invd I" "d < nt" "ts_set live \<subseteq> {..<nt}"
  shows "\<exists>I'. def_point invd d live I = Some I' \<and> interf_ok nt invd I' \<and> edges I' = edges I \<union> new_edges invd {d} (ts_set live)"
proof (cases "invd ! d")
  case True
  have l: "d < length invd" using assms(1,2) by (simp add: interf_ok_def)
  show ?thesis using addEdges_spec[OF assms(1,2), of "ts_Members live"] assms(3) True l
    by (simp add: def_point_def nth_opt_def ts_All_yield_list yield_list_fold)
next
  case False
  then have "new_edges invd {d} (ts_set live) = {}" by (auto simp: new_edges_def)
  then show ?thesis using False assms by (auto simp: def_point_def nth_opt_def interf_ok_def)
qed

section \<open>A walk over a block\<close>

definition instr_defs :: "instr \<Rightarrow> nat set" where
  "instr_defs i = ref_temps (in_To i # instr_Defs i)"

text \<open>What the walk takes for live: unlike the analysis it counts the operands of lifetime markers.\<close>

fun walk_before :: "instr list \<Rightarrow> nat set \<Rightarrow> nat set" where
  "walk_before [] X = X"
| "walk_before (i # is) X = ref_temps (instr_Uses i) \<union> (walk_before is X - instr_defs i)"

definition fits :: "nat \<Rightarrow> tempset \<Rightarrow> bool" where
  "fits nt s \<longleftrightarrow> ts_cap s = ts_cap (NewTempSet nt) \<and> ts_set s \<subseteq> {..<nt}"

lemma def_ref_spec:
  assumes "interf_ok nt invd I" "fits nt live" "ref_temps [r] \<subseteq> {..<nt}"
  shows "\<exists>live' I'. def_ref invd r (live, I) = Some (live', I') \<and> interf_ok nt invd I' \<and> fits nt live' \<and>
    ts_set live' = ts_set live - ref_temps [r] \<and> edges I' = edges I \<union> new_edges invd (ref_temps [r]) (ts_set live)"
proof (cases "r_Kind r = RefTemp")
  case True
  then have r: "ref_temps [r] = {r_ID r}" "r_ID r < nt" using assms(3) by (auto simp: ref_temps_def)
  obtain I' where I': "def_point invd (r_ID r) live I = Some I'" "interf_ok nt invd I'" "edges I' = edges I \<union> new_edges invd {r_ID r} (ts_set live)"
    using def_point_spec[OF assms(1) r(2), of live] assms(2) by (auto simp: fits_def)
  have "r_ID r < ts_cap live" using r(2) assms(2) ts_cap_New(1)[of nt] by (simp add: fits_def)
  then obtain live' where "ts_Remove (r_ID r) live = Some live'" "ts_set live' = ts_set live - {r_ID r}" "ts_cap live' = ts_cap live"
    using ts.remove by blast
  then show ?thesis using True I' r assms(2) by (auto simp: def_ref_def fits_def)
next
  case False
  then have "ref_temps [r] = {}" by (auto simp: ref_temps_def)
  then show ?thesis using False assms by (simp add: def_ref_def new_edges_def)
qed

lemma def_refs_spec:
  assumes "interf_ok nt invd I" "fits nt live" "ref_temps rs \<subseteq> {..<nt}"
  shows "\<exists>live' I'. fold_opt (def_ref invd) rs (live, I) = Some (live', I') \<and> interf_ok nt invd I' \<and> fits nt live' \<and>
    ts_set live' = ts_set live - ref_temps rs \<and> edges I \<union> new_edges invd (ref_temps rs) (ts_set live - ref_temps rs) \<subseteq> edges I'"
  using assms
proof (induction rs arbitrary: live I)
  case Nil
  then show ?case by (simp add: ref_temps_def new_edges_def)
next
  case (Cons r rs)
  have sub: "ref_temps [r] \<subseteq> {..<nt}" "ref_temps rs \<subseteq> {..<nt}" using Cons.prems(3) ref_temps_Cons[of r rs] by auto
  obtain l1 I1 where 1: "def_ref invd r (live, I) = Some (l1, I1)" "interf_ok nt invd I1" "fits nt l1"
    "ts_set l1 = ts_set live - ref_temps [r]" "edges I1 = edges I \<union> new_edges invd (ref_temps [r]) (ts_set live)"
    using def_ref_spec[OF Cons.prems(1,2) sub(1)] by blast
  obtain l2 I2 where 2: "fold_opt (def_ref invd) rs (l1, I1) = Some (l2, I2)" "interf_ok nt invd I2" "fits nt l2"
    "ts_set l2 = ts_set l1 - ref_temps rs" "edges I1 \<union> new_edges invd (ref_temps rs) (ts_set l1 - ref_temps rs) \<subseteq> edges I2"
    using Cons.IH[OF 1(2,3) sub(2)] by blast
  have "ref_temps (r # rs) = ref_temps [r] \<union> ref_temps rs" by (rule ref_temps_Cons)
  moreover have "new_edges invd (ref_temps [r] \<union> ref_temps rs) (ts_set live - (ref_temps [r] \<union> ref_temps rs)) \<subseteq>
      new_edges invd (ref_temps [r]) (ts_set live) \<union> new_edges invd (ref_temps rs) (ts_set l1 - ref_temps rs)"
    unfolding 1(4) by (auto simp: new_edges_def)
  ultimately show ?case using 1 2 by (intro exI[of _ l2] exI[of _ I2]) auto
qed

lemma addRefs_fits:
  assumes "fits nt s" "ref_temps rs \<subseteq> {..<nt}"
  shows "\<exists>s'. fold_opt addRef rs s = Some s' \<and> fits nt s' \<and> ts_set s' = ts_set s \<union> ref_temps rs"
proof -
  have "ref_temps rs \<subseteq> {..<ts_cap s}" using assms ts_cap_New(1)[of nt] by (auto simp: fits_def)
  from addRefs[OF this] show ?thesis using assms by (auto simp: fits_def)
qed

lemma instr_interf_spec:
  assumes "interf_ok nt invd I" "fits nt live" "ref_temps (in_To i # instr_Defs i @ instr_Uses i) \<subseteq> {..<nt}"
  shows "\<exists>live' I'. instr_interf invd i (live, I) = Some (live', I') \<and> interf_ok nt invd I' \<and> fits nt live' \<and>
    ts_set live' = ref_temps (instr_Uses i) \<union> (ts_set live - instr_defs i) \<and>
    edges I \<union> new_edges invd (instr_defs i) (ts_set live - instr_defs i) \<subseteq> edges I'"
proof -
  have sub: "ref_temps (in_To i # instr_Defs i) \<subseteq> {..<nt}" "ref_temps (instr_Uses i) \<subseteq> {..<nt}"
    using assms(3) by (auto simp: ref_temps_def)
  obtain l1 I1 where 1: "fold_opt (def_ref invd) (in_To i # instr_Defs i) (live, I) = Some (l1, I1)" "interf_ok nt invd I1" "fits nt l1"
    "ts_set l1 = ts_set live - instr_defs i" "edges I \<union> new_edges invd (instr_defs i) (ts_set live - instr_defs i) \<subseteq> edges I1"
    using def_refs_spec[OF assms(1,2) sub(1)] unfolding instr_defs_def by blast
  obtain l2 where 2: "fold_opt addRef (instr_Uses i) l1 = Some l2" "fits nt l2" "ts_set l2 = ts_set l1 \<union> ref_temps (instr_Uses i)"
    using addRefs_fits[OF 1(3) sub(2)] by blast
  from 1(1) obtain st where st: "def_ref invd (in_To i) (live, I) = Some st" "fold_opt (def_ref invd) (instr_Defs i) st = Some (l1, I1)"
    by (auto simp: bind_eq_Some_conv)
  have "instr_interf invd i (live, I) = Some (l2, I1)" using st 2(1) by (simp add: instr_interf_def)
  then show ?thesis using 1 2 by auto
qed

text \<open>A definition in a list of instructions, with something live behind it.\<close>

definition def_conflict :: "instr list \<Rightarrow> nat set \<Rightarrow> nat \<Rightarrow> nat \<Rightarrow> bool" where
  "def_conflict is X d t \<longleftrightarrow> (\<exists>pre i post. is = pre @ i # post \<and> d \<in> instr_defs i \<and> t \<in> walk_before post X - instr_defs i)"

lemma instrs_interf_spec:
  assumes "interf_ok nt invd I" "fits nt live" "\<forall>i \<in> set is. ref_temps (in_To i # instr_Defs i @ instr_Uses i) \<subseteq> {..<nt}"
  shows "\<exists>live' I'. fold_opt (instr_interf invd) (rev is) (live, I) = Some (live', I') \<and> interf_ok nt invd I' \<and> fits nt live' \<and>
    ts_set live' = walk_before is (ts_set live) \<and> edges I \<subseteq> edges I' \<and>
    (\<forall>d t. def_conflict is (ts_set live) d t \<longrightarrow> invd ! d \<longrightarrow> invd ! t \<longrightarrow> (d, t) \<in> edges I')"
  using assms(3)
proof (induction "is")
  case Nil
  then show ?case using assms(1,2) by (simp add: def_conflict_def)
next
  case (Cons i "is")
  obtain l1 I1 where 1: "fold_opt (instr_interf invd) (rev is) (live, I) = Some (l1, I1)" "interf_ok nt invd I1" "fits nt l1"
    "ts_set l1 = walk_before is (ts_set live)" "edges I \<subseteq> edges I1"
    "\<And>d t. def_conflict is (ts_set live) d t \<Longrightarrow> invd ! d \<Longrightarrow> invd ! t \<Longrightarrow> (d, t) \<in> edges I1"
    using Cons by auto
  obtain l2 I2 where 2: "instr_interf invd i (l1, I1) = Some (l2, I2)" "interf_ok nt invd I2" "fits nt l2"
    "ts_set l2 = ref_temps (instr_Uses i) \<union> (ts_set l1 - instr_defs i)" "edges I1 \<union> new_edges invd (instr_defs i) (ts_set l1 - instr_defs i) \<subseteq> edges I2"
    using instr_interf_spec[OF 1(2,3), of i] Cons.prems by auto
  have "(d, t) \<in> edges I2" if c: "def_conflict (i # is) (ts_set live) d t" "invd ! d" "invd ! t" for d t
  proof -
    from c(1) obtain pre j post where j: "i # is = pre @ j # post" "d \<in> instr_defs j" "t \<in> walk_before post (ts_set live) - instr_defs j"
      unfolding def_conflict_def by blast
    show ?thesis
    proof (cases pre)
      case Nil
      then have "d \<in> instr_defs i" "t \<in> ts_set l1 - instr_defs i" using j 1(4) by auto
      then have "(d, t) \<in> new_edges invd (instr_defs i) (ts_set l1 - instr_defs i)" using c(2,3) by (auto simp: new_edges_def)
      then show ?thesis using 2(5) by blast
    next
      case (Cons x xs)
      then have "def_conflict is (ts_set live) d t" using j unfolding def_conflict_def by auto
      then show ?thesis using 1(6) c(2,3) 2(5) by blast
    qed
  qed
  then show ?case using 1 2 by (intro exI[of _ l2] exI[of _ I2]) (auto simp: fold_opt_append)
qed

definition phi_conflict :: "phi list \<Rightarrow> nat set \<Rightarrow> nat \<Rightarrow> nat \<Rightarrow> bool" where
  "phi_conflict ps X d t \<longleftrightarrow> d \<noteq> t \<and> d \<in> ref_temps (map p_To ps) \<and> (t \<in> X \<or> t \<in> ref_temps (map p_To ps))"

lemma phi_pairs_spec:
  assumes "interf_ok nt invd I" "d < nt" "ref_temps (map p_To ps) \<subseteq> {..<nt}"
  shows "\<exists>I'. fold_opt (\<lambda>q J. if r_Kind (p_To q) = RefTemp then addEdge invd d (r_ID (p_To q)) J else Some J) ps I = Some I' \<and>
    interf_ok nt invd I' \<and> edges I' = edges I \<union> new_edges invd {d} (ref_temps (map p_To ps))"
  using assms(1,3)
proof (induction ps arbitrary: I)
  case Nil
  then show ?case by (simp add: ref_temps_def new_edges_def)
next
  case (Cons p ps)
  let ?T = "ref_temps [p_To p]"
  have split: "ref_temps (map p_To (p # ps)) = ?T \<union> ref_temps (map p_To ps)" by (simp only: list.map ref_temps_Cons[of "p_To p" "map p_To ps"])
  have "\<exists>I1. (if r_Kind (p_To p) = RefTemp then addEdge invd d (r_ID (p_To p)) I else Some I) = Some I1 \<and> interf_ok nt invd I1 \<and>
      edges I1 = edges I \<union> new_edges invd {d} ?T"
  proof (cases "r_Kind (p_To p) = RefTemp")
    case True
    then have "?T = {r_ID (p_To p)}" by (auto simp: ref_temps_def)
    then show ?thesis using addEdge_spec[OF Cons.prems(1) assms(2), of "r_ID (p_To p)"] Cons.prems(2) split True by simp
  next
    case False
    then have "?T = {}" by (auto simp: ref_temps_def)
    then show ?thesis using False Cons.prems(1) by (simp add: new_edges_def)
  qed
  then obtain I1 where 1: "(if r_Kind (p_To p) = RefTemp then addEdge invd d (r_ID (p_To p)) I else Some I) = Some I1" "interf_ok nt invd I1"
    "edges I1 = edges I \<union> new_edges invd {d} ?T" by blast
  have "ref_temps (map p_To ps) \<subseteq> {..<nt}" using Cons.prems(2) split by blast
  from Cons.IH[OF 1(2) this] show ?case using 1 split new_edges_Un(1)[of invd "{d}" ?T] by auto
qed

lemma phi_interf_spec:
  assumes "interf_ok nt invd I" "fits nt live" "ref_temps (map p_To ps) \<subseteq> {..<nt}"
  shows "\<exists>I'. phi_interf invd live ps I = Some I' \<and> interf_ok nt invd I' \<and> edges I \<subseteq> edges I' \<and>
    (\<forall>d t. phi_conflict ps (ts_set live) d t \<longrightarrow> invd ! d \<longrightarrow> invd ! t \<longrightarrow> (d, t) \<in> edges I')"
  using assms(1,3)
proof (induction ps arbitrary: I)
  case Nil
  then show ?case by (simp add: phi_conflict_def ref_temps_def)
next
  case (Cons p ps)
  have split: "ref_temps (map p_To (p # ps)) = ref_temps [p_To p] \<union> ref_temps (map p_To ps)" by (simp only: list.map ref_temps_Cons[of "p_To p" "map p_To ps"])
  then have sub: "ref_temps [p_To p] \<subseteq> {..<nt}" "ref_temps (map p_To ps) \<subseteq> {..<nt}" using Cons.prems(2) by auto
  show ?case
  proof (cases "r_Kind (p_To p) = RefTemp")
    case False
    then have "ref_temps [p_To p] = {}" by (auto simp: ref_temps_def)
    then have "phi_conflict (p # ps) = phi_conflict ps" using split by (intro ext) (simp add: phi_conflict_def)
    then show ?thesis using Cons.IH[OF Cons.prems(1) sub(2)] False by simp
  next
    case True
    let ?d = "r_ID (p_To p)"
    have d: "ref_temps [p_To p] = {?d}" "?d < nt" using True sub(1) by (auto simp: ref_temps_def)
    obtain I1 where 1: "def_point invd ?d live I = Some I1" "interf_ok nt invd I1" "edges I1 = edges I \<union> new_edges invd {?d} (ts_set live)"
      using def_point_spec[OF Cons.prems(1) d(2), of live] assms(2) by (auto simp: fits_def)
    obtain I2 where 2: "fold_opt (\<lambda>q J. if r_Kind (p_To q) = RefTemp then addEdge invd ?d (r_ID (p_To q)) J else Some J) ps I1 = Some I2"
      "interf_ok nt invd I2" "edges I2 = edges I1 \<union> new_edges invd {?d} (ref_temps (map p_To ps))"
      using phi_pairs_spec[OF 1(2) d(2) sub(2)] by blast
    obtain I3 where 3: "phi_interf invd live ps I2 = Some I3" "interf_ok nt invd I3" "edges I2 \<subseteq> edges I3"
      "\<And>d t. phi_conflict ps (ts_set live) d t \<Longrightarrow> invd ! d \<Longrightarrow> invd ! t \<Longrightarrow> (d, t) \<in> edges I3"
      using Cons.IH[OF 2(2) sub(2)] by blast
    have "(a, t) \<in> edges I3" if c: "phi_conflict (p # ps) (ts_set live) a t" "invd ! a" "invd ! t" for a t
    proof (cases "phi_conflict ps (ts_set live) a t")
      case True
      then show ?thesis using 3(4) c by blast
    next
      case False
      then have "(a, t) \<in> new_edges invd {?d} (ts_set live) \<union> new_edges invd {?d} (ref_temps (map p_To ps))"
        using c unfolding phi_conflict_def split d(1) by (auto simp: new_edges_def)
      then show ?thesis using 1(3) 2(3) 3(3) by blast
    qed
    then show ?thesis using True 1 2 3 by auto
  qed
qed

text \<open>What is live behind a block's instructions.\<close>

abbreviation block_live :: "block \<Rightarrow> nat set \<Rightarrow> nat set" where
  "block_live x X \<equiv> X \<union> jmp_use x"

definition block_conflict :: "block \<Rightarrow> nat set \<Rightarrow> nat \<Rightarrow> nat \<Rightarrow> bool" where
  "block_conflict x X d t \<longleftrightarrow> def_conflict (b_Instrs x) (block_live x X) d t \<or>
     phi_conflict (b_Phis x) (walk_before (b_Instrs x) (block_live x X)) d t"

lemma block_interf_spec:
  assumes "interf_ok nt invd I" "lv_Out l b = Some out" "fits nt out" "block_below nt (blk f b)"
  shows "\<exists>I'. block_interf f l invd b I = Some I' \<and> interf_ok nt invd I' \<and> edges I \<subseteq> edges I' \<and>
    (\<forall>d t. block_conflict (blk f b) (ts_set out) d t \<longrightarrow> invd ! d \<longrightarrow> invd ! t \<longrightarrow> (d, t) \<in> edges I')"
proof -
  let ?x = "blk f b"
  have sub: "ref_temps (j_Arg (b_Jmp ?x) # j_Args (b_Jmp ?x)) \<subseteq> {..<nt}"
    "\<forall>i \<in> set (b_Instrs ?x). ref_temps (in_To i # instr_Defs i @ instr_Uses i) \<subseteq> {..<nt}" "ref_temps (map p_To (b_Phis ?x)) \<subseteq> {..<nt}"
    using assms(4) by (auto simp: block_below_def ref_temps_def)
  have "fits nt (ts_Copy out)" using assms(3) by (simp add: fits_def ts_Copy_spec)
  from addRefs_fits[OF this sub(1)] obtain l2 where l2: "fold_opt addRef (j_Arg (b_Jmp ?x) # j_Args (b_Jmp ?x)) (ts_Copy out) = Some l2"
    "fits nt l2" "ts_set l2 = block_live ?x (ts_set out)" by (auto simp: jmp_use_def ts_Copy_spec)
  then obtain l1 where l1: "addRef (j_Arg (b_Jmp ?x)) (ts_Copy out) = Some l1" "fold_opt addRef (j_Args (b_Jmp ?x)) l1 = Some l2"
    by (auto simp: bind_eq_Some_conv)
  obtain l3 I3 where 3: "fold_opt (instr_interf invd) (rev (b_Instrs ?x)) (l2, I) = Some (l3, I3)" "interf_ok nt invd I3" "fits nt l3"
    "ts_set l3 = walk_before (b_Instrs ?x) (ts_set l2)" "edges I \<subseteq> edges I3"
    "\<And>d t. def_conflict (b_Instrs ?x) (ts_set l2) d t \<Longrightarrow> invd ! d \<Longrightarrow> invd ! t \<Longrightarrow> (d, t) \<in> edges I3"
    using instrs_interf_spec[OF assms(1) l2(2) sub(2)] by blast
  obtain I4 where 4: "phi_interf invd l3 (b_Phis ?x) I3 = Some I4" "interf_ok nt invd I4" "edges I3 \<subseteq> edges I4"
    "\<And>d t. phi_conflict (b_Phis ?x) (ts_set l3) d t \<Longrightarrow> invd ! d \<Longrightarrow> invd ! t \<Longrightarrow> (d, t) \<in> edges I4"
    using phi_interf_spec[OF 3(2,3) sub(3)] by blast
  have "block_interf f l invd b I = Some I4" using assms(2) l1 3(1) 4(1) by (simp add: block_interf_def Let_def)
  moreover have "\<forall>d t. block_conflict ?x (ts_set out) d t \<longrightarrow> invd ! d \<longrightarrow> invd ! t \<longrightarrow> (d, t) \<in> edges I4"
    using 3(6) 4(3,4) unfolding block_conflict_def l2(3)[symmetric] 3(4)[symmetric] by blast
  ultimately show ?thesis using 3(5) 4 by blast
qed

lemma buildPhiInterference_spec:
  assumes len: "length invd = nt" and below: "temps_below nt f"
    and out: "\<And>b. b \<in> set (cfg_RPO c) \<Longrightarrow> \<exists>s. lv_Out l b = Some s \<and> fits nt s"
  shows "\<exists>I. buildPhiInterference f c l nt invd = Some I \<and> interf_ok nt invd I \<and>
    (\<forall>b \<in> set (cfg_RPO c). \<forall>d t. block_conflict (blk f b) (ts_set (the (lv_Out l b))) d t \<longrightarrow> invd ! d \<longrightarrow> invd ! t \<longrightarrow> (d, t) \<in> edges I)"
proof -
  let ?I0 = "map (\<lambda>i. if invd ! i then Some (NewTempSet nt) else None) [0..<nt]"
  have e0: "edges ?I0 = {}" by (auto simp: edges_def split: if_split_asm)
  have ok0: "interf_ok nt invd ?I0" unfolding interf_ok_def e0 using len by simp
  have "\<exists>I. fold_opt (block_interf f l invd) bs I0 = Some I \<and> interf_ok nt invd I \<and> edges I0 \<subseteq> edges I \<and>
    (\<forall>b \<in> set bs. \<forall>d t. block_conflict (blk f b) (ts_set (the (lv_Out l b))) d t \<longrightarrow> invd ! d \<longrightarrow> invd ! t \<longrightarrow> (d, t) \<in> edges I)"
    if "interf_ok nt invd I0" "set bs \<subseteq> set (cfg_RPO c)" for bs I0
    using that
  proof (induction bs arbitrary: I0)
    case (Cons b bs)
    obtain s where s: "lv_Out l b = Some s" "fits nt s" using out Cons.prems(2) by auto
    obtain I1 where 1: "block_interf f l invd b I0 = Some I1" "interf_ok nt invd I1" "edges I0 \<subseteq> edges I1"
      "\<And>d t. block_conflict (blk f b) (ts_set s) d t \<Longrightarrow> invd ! d \<Longrightarrow> invd ! t \<Longrightarrow> (d, t) \<in> edges I1"
      using block_interf_spec[OF Cons.prems(1) s temps_below_blk[OF below]] by blast
    obtain I2 where 2: "fold_opt (block_interf f l invd) bs I1 = Some I2" "interf_ok nt invd I2" "edges I1 \<subseteq> edges I2"
      "\<forall>b \<in> set bs. \<forall>d t. block_conflict (blk f b) (ts_set (the (lv_Out l b))) d t \<longrightarrow> invd ! d \<longrightarrow> invd ! t \<longrightarrow> (d, t) \<in> edges I2"
      using Cons.IH[OF 1(2)] Cons.prems(2) by auto
    then show ?case using 1 s(1) by (intro exI[of _ I2]) auto
  qed simp
  from this[OF ok0 order_refl] show ?thesis unfolding buildPhiInterference_def by blast
qed

end
