(* ===== verification/Coalesce_Classes.thy ===== *)
theory Coalesce_Classes
  imports Coalesce_Interf
begin

text \<open>
  The union-find of \<open>CoalescePhis\<close>: \<open>find\<close> ends, as sizes grow towards the roots, and no class ever
  holds two temporaries with an edge between them.
\<close>

section \<open>The union-find structure\<close>

text \<open>Sizes grow along parent links, so \<open>find\<close> ends.\<close>

definition forest :: "nat \<Rightarrow> bool list \<Rightarrow> nat list \<Rightarrow> nat list \<Rightarrow> bool" where
  "forest nt invd sz par \<longleftrightarrow> length par = nt \<and> length sz = nt \<and>
     (\<forall>x < nt. par ! x < nt \<and> (par ! x \<noteq> x \<longrightarrow> sz ! x < sz ! (par ! x)) \<and> (invd ! x \<longrightarrow> invd ! (par ! x)))"

lemma forest_halve:
  assumes "forest nt invd sz par" "x < nt"
  shows "forest nt invd sz (par[x := par ! (par ! x)])" "\<And>y. y < nt \<Longrightarrow> par[x := par ! (par ! x)] ! y = y \<longleftrightarrow> par ! y = y"
proof -
  let ?y = "par ! x" and ?z = "par ! (par ! x)"
  have f: "length par = nt" "length sz = nt" "\<And>x. x < nt \<Longrightarrow> par ! x < nt" "\<And>x. x < nt \<Longrightarrow> par ! x \<noteq> x \<Longrightarrow> sz ! x < sz ! (par ! x)"
    "\<And>x. x < nt \<Longrightarrow> invd ! x \<Longrightarrow> invd ! (par ! x)" using assms(1) by (auto simp: forest_def)
  have z: "?z < nt" "invd ! x \<Longrightarrow> invd ! ?z" using f assms(2) by blast+
  have up: "sz ! x < sz ! ?z" if "?y \<noteq> x"
  proof (cases "?z = ?y")
    case False
    then show ?thesis using f(4)[OF assms(2) that] f(4)[OF f(3)[OF assms(2)]] by simp
  qed (use f(4)[OF assms(2) that] in simp)
  have root: "?z = x \<longleftrightarrow> ?y = x" using up by (cases "?y = x") auto
  show "forest nt invd sz (par[x := ?z])" unfolding forest_def
  proof (intro conjI allI impI)
    fix y assume y: "y < nt"
    have n: "par[x := ?z] ! y = (if y = x then ?z else par ! y)" using f(1) assms(2) by simp
    show "par[x := ?z] ! y < nt" "invd ! y \<Longrightarrow> invd ! (par[x := ?z] ! y)" unfolding n using f z y by auto
    show "par[x := ?z] ! y \<noteq> y \<Longrightarrow> sz ! y < sz ! (par[x := ?z] ! y)" unfolding n using f(4)[OF y] up root by auto
  qed (use f in simp_all)
  show "\<And>y. y < nt \<Longrightarrow> par[x := ?z] ! y = y \<longleftrightarrow> par ! y = y" using root f(1) assms(2) by (auto simp: nth_list_update)
qed

lemma uf_find_spec:
  assumes "forest nt invd sz par" "x < nt"
  shows "\<exists>r par'. uf_find x par = Some (r, par') \<and> r < nt \<and> par' ! r = r \<and> (invd ! x \<longrightarrow> invd ! r) \<and> forest nt invd sz par' \<and>
    (\<forall>y < nt. par' ! y = y \<longleftrightarrow> par ! y = y)"
  using assms
proof (induction "sum_list sz - sz ! x" arbitrary: x par rule: less_induct)
  case less
  have f: "length par = nt" "length sz = nt" "par ! x < nt" "par ! (par ! x) < nt" "invd ! x \<Longrightarrow> invd ! (par ! (par ! x))"
    "par ! x \<noteq> x \<Longrightarrow> sz ! x < sz ! (par ! x)" "par ! (par ! x) \<noteq> par ! x \<Longrightarrow> sz ! (par ! x) < sz ! (par ! (par ! x))"
    using less.prems by (auto simp: forest_def)
  show ?case
  proof (cases "par ! x = x")
    case True
    then have "uf_find x par = Some (x, par)" using f(1) less.prems(2) by (subst uf_find.simps) (simp add: nth_opt_def)
    then show ?thesis using True less.prems by blast
  next
    case False
    let ?z = "par ! (par ! x)" and ?par = "par[x := par ! (par ! x)]"
    have step: "uf_find x par = uf_find ?z ?par" using f False less.prems(2) by (subst uf_find.simps) (simp add: nth_opt_def)
    have lt: "sz ! x < sz ! ?z" using f(6)[OF False] f(7) by (cases "?z = par ! x") auto
    have "sz ! ?z \<le> sum_list sz" using f(2,4) by (intro member_le_sum_list) simp_all
    then have m: "sum_list sz - sz ! ?z < sum_list sz - sz ! x" using lt by linarith
    note h = forest_halve[OF less.prems]
    from less.hyps[OF m h(1) f(4)] show ?thesis unfolding step using h(2) f(5) by metis
  qed
qed

definition uf_ok :: "nat \<Rightarrow> bool list \<Rightarrow> (nat \<times> nat) set \<Rightarrow> classes \<Rightarrow> bool" where
  "uf_ok nt invd E u \<longleftrightarrow> forest nt invd (uf_size u) (uf_parent u) \<and> length (uf_members u) = nt \<and> length (uf_interf u) = nt \<and>
     (\<forall>x < nt. invd ! x \<longrightarrow> (\<exists>s. uf_interf u ! x = Some s \<and> ts_cap s = ts_cap (NewTempSet nt) \<and>
        (uf_parent u ! x = x \<longrightarrow> uf_members u ! x \<noteq> [] \<and> 0 < uf_size u ! x \<and> ts_set s = {t. \<exists>m \<in> set (uf_members u ! x). (m, t) \<in> E}))) \<and>
     (\<forall>x < nt. uf_members u ! x \<noteq> [] \<longrightarrow> x \<in> set (uf_members u ! x)) \<and>
     (\<forall>x < nt. \<forall>m \<in> set (uf_members u ! x). m < nt \<and> invd ! m) \<and>
     (\<forall>x < nt. \<forall>y < nt. x \<noteq> y \<longrightarrow> set (uf_members u ! x) \<inter> set (uf_members u ! y) = {}) \<and>
     (\<forall>x < nt. \<forall>m \<in> set (uf_members u ! x). \<forall>m' \<in> set (uf_members u ! x). (m, m') \<notin> E)"

lemma any_has_spec: "(\<And>m. m \<in> set ms \<Longrightarrow> m < ts_cap s) \<Longrightarrow> any_has s ms = Some (\<exists>m \<in> set ms. m \<in> ts_set s)"
  by (induction ms) (auto simp: ts_Has_spec)

lemma uf_link_spec:
  assumes ok: "uf_ok nt invd E u" and sym: "\<And>a b. (a, b) \<in> E \<Longrightarrow> (b, a) \<in> E"
    and r: "ra < nt" "rb < nt" "ra \<noteq> rb" "invd ! ra" "invd ! rb" "uf_parent u ! ra = ra" "uf_parent u ! rb = rb"
  shows "\<exists>u'. uf_link ra rb u = Some u' \<and> uf_ok nt invd E u'"
proof -
  let ?P = "uf_parent u" and ?S = "uf_size u" and ?M = "uf_members u" and ?I = "uf_interf u" and ?cap = "ts_cap (NewTempSet nt)"
  have fo: "forest nt invd ?S ?P" and len: "length ?M = nt" "length ?I = nt"
    and sets: "\<And>x. x < nt \<Longrightarrow> invd ! x \<Longrightarrow> \<exists>s. ?I ! x = Some s \<and> ts_cap s = ?cap \<and>
        (?P ! x = x \<longrightarrow> ?M ! x \<noteq> [] \<and> 0 < ?S ! x \<and> ts_set s = {t. \<exists>m \<in> set (?M ! x). (m, t) \<in> E})"
    and self: "\<And>x. x < nt \<Longrightarrow> ?M ! x \<noteq> [] \<Longrightarrow> x \<in> set (?M ! x)"
    and mem: "\<And>x m. x < nt \<Longrightarrow> m \<in> set (?M ! x) \<Longrightarrow> m < nt \<and> invd ! m"
    and disj: "\<And>x y. x < nt \<Longrightarrow> y < nt \<Longrightarrow> x \<noteq> y \<Longrightarrow> set (?M ! x) \<inter> set (?M ! y) = {}"
    and clean: "\<And>x m m'. x < nt \<Longrightarrow> m \<in> set (?M ! x) \<Longrightarrow> m' \<in> set (?M ! x) \<Longrightarrow> (m, m') \<notin> E"
    using ok unfolding uf_ok_def by blast+
  obtain sa where sa: "?I ! ra = Some sa" "ts_cap sa = ?cap" "0 < ?S ! ra" "ts_set sa = {t. \<exists>m \<in> set (?M ! ra). (m, t) \<in> E}" "?M ! ra \<noteq> []"
    using sets[OF r(1,4)] r(6) by blast
  obtain sb where sb: "?I ! rb = Some sb" "ts_cap sb = ?cap" "0 < ?S ! rb" "ts_set sb = {t. \<exists>m \<in> set (?M ! rb). (m, t) \<in> E}" "?M ! rb \<noteq> []"
    using sets[OF r(2,5)] r(7) by blast
  have "\<And>m. m \<in> set (?M ! rb) \<Longrightarrow> m < ts_cap sa" using mem[OF r(2)] sa(2) ts_cap_New(1)[of nt] by fastforce
  then have has: "any_has sa (?M ! rb) = Some (\<exists>m \<in> set (?M ! rb). m \<in> ts_set sa)" by (rule any_has_spec)
  show ?thesis
  proof (cases "\<exists>m \<in> set (?M ! rb). m \<in> ts_set sa")
    case True
    then have "uf_link ra rb u = Some u" using has sa(1) r len by (simp add: uf_link_def nth_opt_def)
    then show ?thesis using ok by blast
  next
    case False
    obtain s' where s': "ts_Union sa sb = Some (\<not> ts_set sb \<subseteq> ts_set sa, s')" "ts_set s' = ts_set sa \<union> ts_set sb" "ts_cap s' = ?cap"
      using ts.union[of sa sb] sa(2) sb(2) by auto
    let ?S' = "?S[ra := ?S ! ra + ?S ! rb]" and ?P' = "?P[rb := ra]" and ?M' = "?M[ra := ?M ! ra @ ?M ! rb, rb := []]" and ?I' = "?I[ra := Some s']"
    let ?u = "\<lparr>uf_parent = ?P', uf_size = ?S', uf_members = ?M', uf_interf = ?I'\<rparr>"
    have link: "uf_link ra rb u = Some ?u" using has False sa(1) sb(1) s'(1) r len by (simp add: uf_link_def nth_opt_def)
    have lens: "length ?P = nt" "length ?S = nt" using fo by (auto simp: forest_def)
    have mm: "?M' ! x = (if x = rb then [] else if x = ra then ?M ! ra @ ?M ! rb else ?M ! x)" if "x < nt" for x
      using len r that by (auto simp: nth_list_update)
    have grow: "?S ! x \<le> ?S' ! x" if "x < nt" for x using lens r that by (auto simp: nth_list_update)
    have no: "m \<in> set (?M ! ra) \<Longrightarrow> m' \<in> set (?M ! rb) \<Longrightarrow> (m, m') \<notin> E \<and> (m', m) \<notin> E" for m m'
      using False sym unfolding sa(4) by blast
    have fo': "forest nt invd ?S' ?P'"
      unfolding forest_def
    proof (intro conjI allI impI)
      fix x assume x: "x < nt"
      note F = fo[unfolded forest_def, THEN conjunct2, THEN conjunct2, rule_format, OF x]
      show "?P' ! x < nt" using F r lens by (auto simp: nth_list_update)
      show "invd ! x \<Longrightarrow> invd ! (?P' ! x)" using F r lens x by (auto simp: nth_list_update)
      assume p: "?P' ! x \<noteq> x"
      show "?S' ! x < ?S' ! (?P' ! x)"
      proof (cases "x = rb")
        case True
        then show ?thesis using r sa(3) lens by simp
      next
        case False
        then have q: "?P' ! x = ?P ! x" "x \<noteq> ra" using p r by auto
        then have "?S ! x < ?S ! (?P ! x)" using F p by simp
        moreover have "?S' ! x = ?S ! x" using q(2) by simp
        ultimately show ?thesis using grow[of "?P ! x"] F q(1) by simp
      qed
    qed (use lens in simp_all)
    have "uf_ok nt invd E ?u"
      unfolding uf_ok_def classes.simps
    proof (intro conjI allI impI ballI)
      fix x assume x: "x < nt" "invd ! x"
      show "\<exists>s. ?I' ! x = Some s \<and> ts_cap s = ?cap \<and> (?P' ! x = x \<longrightarrow> ?M' ! x \<noteq> [] \<and> 0 < ?S' ! x \<and> ts_set s = {t. \<exists>m \<in> set (?M' ! x). (m, t) \<in> E})"
      proof (cases "x = ra")
        case True
        then have "?I' ! x = Some s'" "?M' ! x = ?M ! ra @ ?M ! rb" "0 < ?S' ! x" using len lens r mm[of ra] sa(3) by auto
        moreover have "ts_set s' = {t. \<exists>m \<in> set (?M ! ra @ ?M ! rb). (m, t) \<in> E}" using s'(2) sa(4) sb(4) by auto
        ultimately show ?thesis using s'(3) sa(5) by simp
      next
        case False
        obtain s where s: "?I ! x = Some s" "ts_cap s = ?cap" "?P ! x = x \<longrightarrow> ?M ! x \<noteq> [] \<and> 0 < ?S ! x \<and> ts_set s = {t. \<exists>m \<in> set (?M ! x). (m, t) \<in> E}"
          using sets[OF x] by blast
        have "x = rb \<Longrightarrow> ?P' ! x \<noteq> x" using r lens by simp
        moreover have "x \<noteq> rb \<Longrightarrow> ?P' ! x = ?P ! x \<and> ?M' ! x = ?M ! x \<and> ?S' ! x = ?S ! x" using False by simp
        ultimately show ?thesis using s False by (cases "x = rb") auto
      qed
    next
      fix x assume "x < nt" "?M' ! x \<noteq> []"
      then show "x \<in> set (?M' ! x)" using mm[of x] self[of x] self[OF r(1) sa(5)] by (auto split: if_split_asm)
    next
      fix x m assume "x < nt" "m \<in> set (?M' ! x)"
      then have "m \<in> set (?M ! x) \<or> m \<in> set (?M ! ra) \<or> m \<in> set (?M ! rb)" using mm[of x] by (auto split: if_split_asm)
      then show "m < nt" "invd ! m" using mem \<open>x < nt\<close> r(1,2) by blast+
    next
      fix x y assume xy: "x < nt" "y < nt" "x \<noteq> y"
      show "set (?M' ! x) \<inter> set (?M' ! y) = {}"
        using mm[OF xy(1)] mm[OF xy(2)] disj[OF xy] disj[OF r(1) xy(1)] disj[OF r(1) xy(2)] disj[OF r(2) xy(1)] disj[OF r(2) xy(2)] xy(3)
        by auto
    next
      fix x m m' assume "x < nt" "m \<in> set (?M' ! x)" "m' \<in> set (?M' ! x)"
      then show "(m, m') \<notin> E" using mm[of x] clean[of x m m'] clean[OF r(1)] clean[OF r(2)] no by (auto split: if_split_asm)
    qed (use fo' len in simp_all)
    then show ?thesis using link by blast
  qed
qed

lemma uf_union_spec:
  assumes ok: "uf_ok nt invd E u" and sym: "\<And>a b. (a, b) \<in> E \<Longrightarrow> (b, a) \<in> E" and ab: "a < nt" "b < nt" "invd ! a" "invd ! b"
  shows "\<exists>u'. uf_union (a, b) u = Some u' \<and> uf_ok nt invd E u'"
proof -
  have fo: "forest nt invd (uf_size u) (uf_parent u)" using ok by (simp add: uf_ok_def)
  obtain ra p1 where 1: "uf_find a (uf_parent u) = Some (ra, p1)" "ra < nt" "p1 ! ra = ra" "invd ! ra" "forest nt invd (uf_size u) p1"
    "\<And>y. y < nt \<Longrightarrow> p1 ! y = y \<longleftrightarrow> uf_parent u ! y = y" using uf_find_spec[OF fo ab(1)] ab(3) by blast
  obtain rb p2 where 2: "uf_find b p1 = Some (rb, p2)" "rb < nt" "p2 ! rb = rb" "invd ! rb" "forest nt invd (uf_size u) p2"
    "\<And>y. y < nt \<Longrightarrow> p2 ! y = y \<longleftrightarrow> p1 ! y = y" using uf_find_spec[OF 1(5) ab(2)] ab(4) by blast
  let ?u = "u\<lparr>uf_parent := p2\<rparr>"
  have ok': "uf_ok nt invd E ?u" using ok 2(5,6) 1(6) unfolding uf_ok_def by auto
  have ra: "p2 ! ra = ra" using 1(2,3) 2(6) by simp
  show ?thesis
  proof (cases "ra = rb")
    case True
    then show ?thesis using 1(1) 2(1) ok' by (simp add: uf_union_def Let_def)
  next
    case False
    then show ?thesis using 1(1) 2(1) uf_link_spec[OF ok' sym 1(2) 2(2) False 1(4) 2(4)] uf_link_spec[OF ok' sym 2(2) 1(2) _ 2(4) 1(4)] ra 2(3)
      by (simp add: uf_union_def Let_def)
  qed
qed

lemma uf_unions_spec:
  assumes "uf_ok nt invd E u" "\<And>a b. (a, b) \<in> E \<Longrightarrow> (b, a) \<in> E" "\<forall>(a, b) \<in> set ps. a < nt \<and> b < nt \<and> invd ! a \<and> invd ! b"
  shows "\<exists>u'. fold_opt uf_union ps u = Some u' \<and> uf_ok nt invd E u'"
  using assms(1,3)
proof (induction ps arbitrary: u)
  case (Cons p ps)
  obtain a b where p: "p = (a, b)" "a < nt" "b < nt" "invd ! a" "invd ! b" using Cons.prems(2) by auto
  obtain u1 where 1: "uf_union (a, b) u = Some u1" "uf_ok nt invd E u1" using uf_union_spec[OF Cons.prems(1) assms(2) p(2-5)] by blast
  then show ?case using Cons.IH[OF 1(2)] Cons.prems(2) p(1) by simp
qed simp

lemma uf_ok_classes0:
  assumes "interf_ok nt invd I"
  shows "uf_ok nt invd (edges I) (classes0 nt invd I)"
proof -
  have len: "length I = nt" "length invd = nt" and sets: "\<And>a. a < nt \<Longrightarrow> invd ! a \<Longrightarrow> \<exists>s. I ! a = Some s \<and> ts_cap s = ts_cap (NewTempSet nt)"
    and irr: "\<And>a. (a, a) \<notin> edges I" using assms unfolding interf_ok_def by blast+
  show ?thesis unfolding uf_ok_def classes0_def classes.simps forest_def
  proof (intro conjI allI impI)
    fix x assume x: "x < nt" "invd ! x"
    obtain s where s: "I ! x = Some s" "ts_cap s = ts_cap (NewTempSet nt)" using sets[OF x] by blast
    have "ts_set s = {t. (x, t) \<in> edges I}" using s(1) x(1) len by (simp add: edges_def)
    then show "\<exists>s. I ! x = Some s \<and> ts_cap s = ts_cap (NewTempSet nt) \<and> ([0..<nt] ! x = x \<longrightarrow> map (\<lambda>i. if invd ! i then [i] else []) [0..<nt] ! x \<noteq> [] \<and>
        0 < map (\<lambda>i. if invd ! i then 1 else 0 :: nat) [0..<nt] ! x \<and> ts_set s = {t. \<exists>m \<in> set (map (\<lambda>i. if invd ! i then [i] else []) [0..<nt] ! x). (m, t) \<in> edges I})"
      using s x by simp
  qed (use len irr in \<open>auto split: if_split_asm\<close>)
qed

section \<open>Representatives\<close>

lemma fold_min_in: "fold min ms (i :: nat) \<in> insert i (set ms)"
proof (induction ms arbitrary: i)
  case (Cons m ms)
  from Cons[of "min m i"] show ?case by (auto simp: min_def split: if_split_asm)
qed simp

lemma fold_set_same: "length (fold (\<lambda>m rep. rep[m := v]) ms rep) = length rep"
  "k < length rep \<Longrightarrow> fold (\<lambda>m rep. rep[m := v]) ms rep ! k = (if k \<in> set ms then v else rep ! k)"
  by (induction ms arbitrary: rep) (auto simp: nth_list_update)

lemma class_rep_nth:
  assumes disj: "\<And>x y. x < nt \<Longrightarrow> y < nt \<Longrightarrow> x \<noteq> y \<Longrightarrow> set (uf_members u ! x) \<inter> set (uf_members u ! y) = {}"
  shows "length (class_rep u nt) = nt"
    "\<And>x m. x < nt \<Longrightarrow> m < nt \<Longrightarrow> m \<in> set (uf_members u ! x) \<Longrightarrow> class_rep u nt ! m = fold min (uf_members u ! x) x"
    "\<And>m. m < nt \<Longrightarrow> (\<And>x. x < nt \<Longrightarrow> m \<notin> set (uf_members u ! x)) \<Longrightarrow> class_rep u nt ! m = m"
proof -
  define body where "body = (\<lambda>i rep. let ms = uf_members u ! i in if ms = [] then rep else fold (\<lambda>m rep. rep[m := fold min ms i]) ms rep)"
  have b: "length (body i rep) = length rep" "k < length rep \<Longrightarrow> body i rep ! k = (if k \<in> set (uf_members u ! i) then fold min (uf_members u ! i) i else rep ! k)" for i k rep
    by (auto simp: body_def Let_def fold_set_same)
  have "length (fold body [0..<n] [0..<nt]) = nt \<and> (\<forall>m < nt. (\<forall>x < n. m \<in> set (uf_members u ! x) \<longrightarrow> fold body [0..<n] [0..<nt] ! m = fold min (uf_members u ! x) x) \<and>
      ((\<forall>x < n. m \<notin> set (uf_members u ! x)) \<longrightarrow> fold body [0..<n] [0..<nt] ! m = m))" if "n \<le> nt" for n
    using that
  proof (induction n)
    case (Suc n)
    let ?rep = "fold body [0..<n] [0..<nt]"
    have ih: "length ?rep = nt" "\<And>m x. m < nt \<Longrightarrow> x < n \<Longrightarrow> m \<in> set (uf_members u ! x) \<Longrightarrow> ?rep ! m = fold min (uf_members u ! x) x"
      "\<And>m. m < nt \<Longrightarrow> (\<And>x. x < n \<Longrightarrow> m \<notin> set (uf_members u ! x)) \<Longrightarrow> ?rep ! m = m" using Suc by auto
    have e: "fold body [0..<Suc n] [0..<nt] = body n ?rep" by simp
    have "m \<notin> set (uf_members u ! n)" if "x < n" "m \<in> set (uf_members u ! x)" for x m
      using disj[of x n] that Suc.prems by auto
    then show ?case unfolding e using b ih by (auto simp: less_Suc_eq)
  qed simp
  from this[of nt] show "length (class_rep u nt) = nt"
    "\<And>x m. x < nt \<Longrightarrow> m < nt \<Longrightarrow> m \<in> set (uf_members u ! x) \<Longrightarrow> class_rep u nt ! m = fold min (uf_members u ! x) x"
    "\<And>m. m < nt \<Longrightarrow> (\<And>x. x < nt \<Longrightarrow> m \<notin> set (uf_members u ! x)) \<Longrightarrow> class_rep u nt ! m = m"
    unfolding class_rep_def body_def by (simp_all add: Let_def)
qed

text \<open>Temporaries given one name lie in one class, and so have no edge between them.\<close>

lemma class_rep_sound:
  assumes ok: "uf_ok nt invd E u" and ab: "a < nt" "b < nt" "a \<noteq> b" "class_rep u nt ! a = class_rep u nt ! b"
  shows "invd ! a \<and> invd ! b \<and> (a, b) \<notin> E"
proof -
  let ?M = "uf_members u"
  have self: "\<And>x. x < nt \<Longrightarrow> ?M ! x \<noteq> [] \<Longrightarrow> x \<in> set (?M ! x)"
    and mem: "\<And>x m. x < nt \<Longrightarrow> m \<in> set (?M ! x) \<Longrightarrow> m < nt \<and> invd ! m"
    and disj: "\<And>x y. x < nt \<Longrightarrow> y < nt \<Longrightarrow> x \<noteq> y \<Longrightarrow> set (?M ! x) \<inter> set (?M ! y) = {}"
    and clean: "\<And>x m m'. x < nt \<Longrightarrow> m \<in> set (?M ! x) \<Longrightarrow> m' \<in> set (?M ! x) \<Longrightarrow> (m, m') \<notin> E"
    using ok unfolding uf_ok_def by blast+
  have R: "x < nt \<Longrightarrow> m < nt \<Longrightarrow> m \<in> set (?M ! x) \<Longrightarrow> class_rep u nt ! m = fold min (?M ! x) x"
    "m < nt \<Longrightarrow> (\<And>x. x < nt \<Longrightarrow> m \<notin> set (?M ! x)) \<Longrightarrow> class_rep u nt ! m = m" for x m
    using class_rep_nth(2,3)[of nt u] disj by blast+
  have rep: "\<exists>x < nt. c \<in> set (?M ! x) \<and> class_rep u nt ! c \<in> set (?M ! x)" if c: "c < nt" "\<exists>x < nt. c \<in> set (?M ! x)" for c
  proof -
    obtain x where x: "x < nt" "c \<in> set (?M ! x)" using c(2) by blast
    then have "x \<in> set (?M ! x)" using self[of x] by force
    then show ?thesis using R(1)[OF x(1) c(1) x(2)] fold_min_in[of "?M ! x" x] x by auto
  qed
  have none: "class_rep u nt ! c = c" if "c < nt" "\<not> (\<exists>x < nt. c \<in> set (?M ! x))" for c using R(2) that by blast
  consider (both) "\<exists>x < nt. a \<in> set (?M ! x)" "\<exists>x < nt. b \<in> set (?M ! x)" | (a) "\<exists>x < nt. a \<in> set (?M ! x)" "\<not> (\<exists>x < nt. b \<in> set (?M ! x))"
    | (b) "\<not> (\<exists>x < nt. a \<in> set (?M ! x))" by blast
  then show ?thesis
  proof cases
    case both
    obtain x y where xy: "x < nt" "a \<in> set (?M ! x)" "class_rep u nt ! a \<in> set (?M ! x)" "y < nt" "b \<in> set (?M ! y)" "class_rep u nt ! b \<in> set (?M ! y)"
      using rep[OF ab(1) both(1)] rep[OF ab(2) both(2)] by blast
    then have "x = y" using disj[of x y] ab(4) by fastforce
    then show ?thesis using clean[of x a b] mem[of x a] mem[of x b] xy by blast
  next
    case a
    then show ?thesis using rep[OF ab(1) a(1)] none[OF ab(2) a(2)] ab(4) by auto
  next
    case b
    then have "class_rep u nt ! b = a" using none[OF ab(1)] ab(4) by simp
    then show ?thesis using rep[OF ab(2)] none[OF ab(2)] b ab(3) by metis
  qed
qed

end
