(* ===== verification/Coalesce_Sound.thy ===== *)
theory Coalesce_Sound
  imports Coalesce_Classes
begin

text \<open>
  \<open>CoalescePhis\<close> as a whole: it returns, it never gives one name to a temporary and to another that is
  live where the first is written, and what it overlooks: parameters are written nowhere.
\<close>

section \<open>Pairs and marks\<close>

definition phi_blocks :: "func \<Rightarrow> bool" where
  "phi_blocks f \<longleftrightarrow> (\<forall>b \<in> set (f_Blocks f). \<forall>p \<in> set (b_Phis (blk f b)). None \<notin> set (p_Blocks p))"

lemma br_args_spec:
  assumes "ref_temps (p_To p # p_Args p) \<subseteq> {..<nt}" "length (p_Args p) = length (p_Blocks p)" "None \<notin> set (p_Blocks p)"
  shows "\<exists>ps. br_args f p = Some ps \<and> (\<forall>(d, a) \<in> set ps. d < nt \<and> a < nt)"
proof (cases "r_Kind (p_To p) = RefTemp")
  case True
  let ?body = "\<lambda>(k, a) ps. if r_Kind a = RefTemp then Option.bind (br_edge f p k) (\<lambda>br. Some (if br then ps @ [(r_ID (p_To p), r_ID a)] else ps)) else Some ps"
  have "\<exists>ps. fold_opt ?body (enumerate 0 (p_Args p)) [] = Some ps \<and> (\<forall>(d, a) \<in> set ps. d < nt \<and> a < nt)"
  proof (rule fold_opt_invar)
    fix x ys zs ps
    assume e: "enumerate 0 (p_Args p) = ys @ x # zs" and I: "\<forall>(d, a) \<in> set ps. d < nt \<and> a < nt"
    have "x \<in> set (enumerate 0 (p_Args p))" using e by simp
    moreover obtain k a where "x = (k, a)" by (rule prod.exhaust)
    ultimately have k: "x = (k, p_Args p ! k)" "k < length (p_Args p)" by (auto simp: in_set_enumerate_eq)
    obtain u where u: "p_Blocks p ! k = Some u" using assms(2,3) k(2) nth_mem by (metis not_None_eq)
    have "p_Args p ! k \<in> set (p_Args p)" using k(2) by simp
    then have "r_Kind (p_Args p ! k) = RefTemp \<Longrightarrow> r_ID (p_Args p ! k) < nt" "r_ID (p_To p) < nt"
      using assms(1) True unfolding ref_temps_def by auto
    then show "\<exists>t'. ?body x ps = Some t' \<and> (\<forall>(d, a) \<in> set t'. d < nt \<and> a < nt)"
      using k u assms(2) I by (auto simp: br_edge_def nth_opt_def)
  qed simp
  then show ?thesis using True by (simp add: br_args_def)
qed (simp add: br_args_def)

lemma br_pairs_spec:
  assumes "temps_below nt f" "phi_blocks f"
  shows "\<exists>ps. br_pairs f = Some ps \<and> (\<forall>(d, a) \<in> set ps. d < nt \<and> a < nt)"
  unfolding br_pairs_def
proof (rule fold_opt_invar)
  fix p ys zs ps
  assume e: "concat (map (\<lambda>b. b_Phis (blk f b)) (f_Blocks f)) = ys @ p # zs" and I: "\<forall>(d, a) \<in> set ps. d < nt \<and> a < nt"
  have "p \<in> set (concat (map (\<lambda>b. b_Phis (blk f b)) (f_Blocks f)))" unfolding e by simp
  then obtain b where b: "b \<in> set (f_Blocks f)" "p \<in> set (b_Phis (blk f b))" by auto
  have "ref_temps (p_To p # p_Args p) \<subseteq> {..<nt}" "length (p_Args p) = length (p_Blocks p)"
    using temps_below_blk[OF assms(1), of b] b(2) unfolding block_below_def by blast+
  moreover have "None \<notin> set (p_Blocks p)" using assms(2) b unfolding phi_blocks_def by blast
  ultimately obtain qs where "br_args f p = Some qs" "\<forall>(d, a) \<in> set qs. d < nt \<and> a < nt" using br_args_spec by blast
  then show "\<exists>t'. map_option (\<lambda>qs. ps @ qs) (br_args f p) = Some t' \<and> (\<forall>(d, a) \<in> set t'. d < nt \<and> a < nt)" using I by auto
qed simp

lemma mark_pairs_spec:
  assumes "\<forall>(d, a) \<in> set ps. d < nt \<and> a < nt"
  shows "\<exists>invd. fold_opt mark_pair ps (replicate nt False) = Some invd \<and> length invd = nt \<and> (\<forall>(d, a) \<in> set ps. invd ! d \<and> invd ! a)"
proof -
  have "\<exists>invd. fold_opt mark_pair ps (replicate nt False) = Some invd \<and> (length invd = nt \<and> (\<forall>(d, a) \<in> set ps. invd ! d \<and> invd ! a))"
  proof (rule fold_opt_invar[where I = "\<lambda>ys invd. length invd = nt \<and> (\<forall>(d, a) \<in> set ys. invd ! d \<and> invd ! a)"])
    fix x ys zs invd
    assume e: "ps = ys @ x # zs" and I: "length invd = nt \<and> (\<forall>(d, a) \<in> set ys. invd ! d \<and> invd ! a)"
    obtain d a where x: "x = (d, a)" by (cases x)
    then have da: "d < nt" "a < nt" using assms e by auto
    let ?invd = "invd[d := True, a := True]"
    have "mark_pair x invd = Some ?invd" using I da x by (simp add: mark_pair_def set_opt_def)
    moreover have "invd ! k \<Longrightarrow> ?invd ! k" for k using I da x by (cases "k = a"; cases "k = d") auto
    ultimately show "\<exists>t'. mark_pair x invd = Some t' \<and> (length t' = nt \<and> (\<forall>(d, a) \<in> set (ys @ [x]). t' ! d \<and> t' ! a))"
      using I da x by (intro exI[of _ ?invd]) (auto simp: nth_list_update)
  qed simp
  then show ?thesis by blast
qed

section \<open>Liveness\<close>

lemma live_before_below:
  assumes "\<forall>i \<in> set is. ref_temps (in_To i # instr_Defs i @ instr_Uses i) \<subseteq> {..<nt}" "X \<subseteq> {..<nt}"
  shows "live_before is X \<subseteq> {..<nt}"
  using assms by (induction "is") (auto simp: instr_use_def ref_temps_def)

lemma live_below:
  assumes "temps_below nt f"
  shows "live_in f b t \<Longrightarrow> t < nt" "live_out f b t \<Longrightarrow> t < nt"
proof (induction rule: live_in_live_out.inducts)
  case (use_here t b)
  have "block_below nt (blk f b)" using assms by (rule temps_below_blk)
  then have "\<forall>i \<in> set (b_Instrs (blk f b)). ref_temps (in_To i # instr_Defs i @ instr_Uses i) \<subseteq> {..<nt}" "jmp_use (blk f b) \<subseteq> {..<nt}"
    by (auto simp: block_below_def jmp_use_def)
  from live_before_below[OF this] show ?case using use_here by (auto simp: block_use_def block_in_def)
next
  case (on_edge b s t)
  have "block_below nt (blk f s)" using assms by (rule temps_below_blk)
  then show ?case using on_edge(2) nth_mem unfolding edge_use_def block_below_def ref_temps_def by fastforce
qed

lemma live_preds_only:
  assumes "preds_only f g"
  shows "live_in f b t \<Longrightarrow> live_in g b t" "live_out f b t \<Longrightarrow> live_out g b t"
proof -
  note p = preds_only_sel[OF assms]
  have u: "block_use (blk g b) = block_use (blk f b)" "block_def (blk g b) = block_def (blk f b)" "edge_use g b s = edge_use f b s" for b s
    by (simp_all add: block_use_def block_in_def jmp_use_def phi_def_def block_def_def edge_use_def p(8-10))
  show "live_in f b t \<Longrightarrow> live_in g b t" "live_out f b t \<Longrightarrow> live_out g b t"
    by (induction rule: live_in_live_out.inducts) (auto intro: live_in_live_out.intros simp: u p(4))
qed

lemma live_out_fillPreds: "live_out (fillPreds f) b t = live_out f b t"
proof -
  have "preds_only g f" if "preds_only f g" for g using that by (simp add: preds_only_def)
  then show ?thesis using live_preds_only(2) preds_only_fillPreds by blast
qed

text \<open>Writing \<open>d\<close> somewhere reachable while \<open>t\<close> is live there.\<close>

definition clobbers :: "func \<Rightarrow> nat \<Rightarrow> nat \<Rightarrow> bool" where
  "clobbers f d t \<longleftrightarrow> (\<exists>b. reachable f b \<and> (let x = blk f b; X = {t. live_out f b t} \<union> jmp_use x in
     (\<exists>pre i post. b_Instrs x = pre @ i # post \<and> d \<in> instr_def i \<and> t \<in> live_before post X - instr_def i) \<or>
     d \<noteq> t \<and> d \<in> phi_def x \<and> (t \<in> live_before (b_Instrs x) X \<or> t \<in> phi_def x)))"

definition lifetimes_pure :: "func \<Rightarrow> bool" where
  "lifetimes_pure f \<longleftrightarrow> (\<forall>b. \<forall>i \<in> set (b_Instrs (blk f b)). op_IsLifetime (in_Op i) \<longrightarrow> instr_defs i = {})"

lemma live_walk_before:
  assumes "\<forall>i \<in> set is. op_IsLifetime (in_Op i) \<longrightarrow> instr_defs i = {}"
  shows "live_before is X \<subseteq> walk_before is X"
  using assms by (induction "is") (auto simp: instr_use_def instr_def_def instr_defs_def)

lemma clobbers_conflict:
  assumes "clobbers f d t" "lifetimes_pure f"
  shows "\<exists>b. reachable f b \<and> block_conflict (blk f b) {t. live_out f b t} d t"
proof -
  obtain b where b: "reachable f b" and c: "(\<exists>pre i post. b_Instrs (blk f b) = pre @ i # post \<and> d \<in> instr_def i \<and> t \<in> live_before post ({t. live_out f b t} \<union> jmp_use (blk f b)) - instr_def i) \<or>
     d \<noteq> t \<and> d \<in> phi_def (blk f b) \<and> (t \<in> live_before (b_Instrs (blk f b)) ({t. live_out f b t} \<union> jmp_use (blk f b)) \<or> t \<in> phi_def (blk f b))"
    using assms(1) unfolding clobbers_def Let_def by blast
  have pure: "\<forall>i \<in> set (b_Instrs (blk f b)). op_IsLifetime (in_Op i) \<longrightarrow> instr_defs i = {}" using assms(2) unfolding lifetimes_pure_def by blast
  from c show ?thesis
  proof (elim disjE)
    assume "\<exists>pre i post. b_Instrs (blk f b) = pre @ i # post \<and> d \<in> instr_def i \<and> t \<in> live_before post ({t. live_out f b t} \<union> jmp_use (blk f b)) - instr_def i"
    then obtain pre i post where i: "b_Instrs (blk f b) = pre @ i # post" "d \<in> instr_def i" "t \<in> live_before post ({t. live_out f b t} \<union> jmp_use (blk f b)) - instr_def i"
      by blast
    then have "instr_defs i = instr_def i" by (auto simp: instr_def_def instr_defs_def split: if_split_asm)
    moreover have "t \<in> walk_before post ({t. live_out f b t} \<union> jmp_use (blk f b))" using live_walk_before[of post] pure i(1,3) by auto
    ultimately show ?thesis using b i unfolding block_conflict_def def_conflict_def by blast
  next
    assume "d \<noteq> t \<and> d \<in> phi_def (blk f b) \<and> (t \<in> live_before (b_Instrs (blk f b)) ({t. live_out f b t} \<union> jmp_use (blk f b)) \<or> t \<in> phi_def (blk f b))"
    then have "phi_conflict (b_Phis (blk f b)) (walk_before (b_Instrs (blk f b)) ({t. live_out f b t} \<union> jmp_use (blk f b))) d t"
      using live_walk_before[OF pure] unfolding phi_conflict_def phi_def_def by blast
    then show ?thesis using b unfolding block_conflict_def by blast
  qed
qed

section \<open>Renaming succeeds\<close>

lemma rename_refs_total: "ref_temps rs \<subseteq> {..<length rep} \<Longrightarrow> \<exists>rs'. rename_refs rep rs = Some rs'"
proof (induction rs)
  case (Cons r rs)
  have "r_Kind r = RefTemp \<Longrightarrow> r_ID r < length rep" using Cons.prems by (auto simp: ref_temps_def)
  then obtain r' where "rename_ref rep r = Some r'" by (cases "r_Kind r = RefTemp") (auto simp: rename_ref_def nth_opt_def)
  moreover have "ref_temps rs \<subseteq> {..<length rep}" using Cons.prems by (auto simp: ref_temps_def)
  ultimately show ?case using Cons.IH by (auto simp: rename_refs_def)
qed (simp add: rename_refs_def)

lemma rename_ref_total:
  assumes "ref_temps [r] \<subseteq> {..<length rep}"
  shows "\<exists>r'. rename_ref rep r = Some r'"
  using rename_refs_total[OF assms] by (auto simp: rename_refs_def split: option.splits)

lemma rename_instr_total:
  assumes "ref_temps (in_To i # instr_Defs i @ instr_Uses i) \<subseteq> {..<length rep}" "ref_temps (in_Args i) \<subseteq> {..<length rep}"
    "ref_temps [instr_ClosureContext i] \<subseteq> {..<length rep}"
  shows "\<exists>j. rename_instr rep i = Some j"
proof -
  have sub: "ref_temps [in_To i] \<subseteq> {..<length rep}" "ref_temps (instr_Defs i) \<subseteq> {..<length rep}" using assms(1) by (auto simp: ref_temps_def)
  obtain t where t: "rename_ref rep (in_To i) = Some t" using rename_ref_total[OF sub(1)] by blast
  obtain as where as: "rename_refs rep (in_Args i) = Some as" using rename_refs_total[OF assms(2)] by blast
  let ?i = "i\<lparr>in_To := t, in_Args := as\<rparr>"
  have sel: "instr_ClosureContext ?i = instr_ClosureContext i" "instr_Defs ?i = instr_Defs i" by (simp_all add: instr_ClosureContext_def instr_Defs_def)
  obtain c where c: "rename_ref rep (instr_ClosureContext i) = Some c" using rename_ref_total[OF assms(3)] by blast
  obtain j where j: "rename_context rep ?i = Some j" "instr_Defs j = instr_Defs i"
    using c sel by (cases "ref_IsNone (instr_ClosureContext i)") (auto simp: rename_context_def Let_def)
  obtain ds where "rename_refs rep (instr_Defs i) = Some ds" using rename_refs_total[OF sub(2)] by blast
  then have "\<exists>k. rename_defs rep j = Some k" using j(2) by (simp add: rename_defs_def)
  then show ?thesis using t as j(1) by (auto simp: rename_instr_def)
qed

lemma instr_uses_below:
  assumes "ref_temps (instr_Uses i) \<subseteq> {..<n}"
  shows "ref_temps (in_Args i) \<subseteq> {..<n}" "ref_temps [instr_ClosureContext i] \<subseteq> {..<n}"
  using assms by (auto simp: instr_Uses_def Let_def ref_temps_def ref_IsNone_def split: if_split_asm)

lemma rename_block_total:
  assumes "block_below (length rep) x"
  shows "\<exists>y. rename_block rep x = Some y"
proof -
  have ins: "\<And>i. i \<in> set (b_Instrs x) \<Longrightarrow> ref_temps (in_To i # instr_Defs i @ instr_Uses i) \<subseteq> {..<length rep}"
    and phis: "\<And>p. p \<in> set (b_Phis x) \<Longrightarrow> ref_temps (p_To p # p_Args p) \<subseteq> {..<length rep}"
    and jmp: "ref_temps (j_Arg (b_Jmp x) # j_Args (b_Jmp x)) \<subseteq> {..<length rep}" using assms unfolding block_below_def by blast+
  have "\<exists>q. rename_phi rep p = Some q" if p: "p \<in> set (b_Phis x)" for p
  proof -
    have sub: "ref_temps [p_To p] \<subseteq> {..<length rep}" "ref_temps (p_Args p) \<subseteq> {..<length rep}" using phis[OF p] by (auto simp: ref_temps_def)
    show ?thesis using rename_ref_total[OF sub(1)] rename_refs_total[OF sub(2)] by (auto simp: rename_phi_def)
  qed
  then obtain ps where ps: "those (map (rename_phi rep) (b_Phis x)) = Some ps" using those_map_total[of "b_Phis x" "rename_phi rep"] by fastforce
  have "\<exists>j. rename_instr rep i = Some j" if i: "i \<in> set (b_Instrs x)" for i
  proof -
    have "ref_temps (instr_Uses i) \<subseteq> {..<length rep}" using ins[OF i] by (auto simp: ref_temps_def)
    from rename_instr_total[OF ins[OF i] instr_uses_below[OF this]] show ?thesis .
  qed
  then obtain "is" where i: "those (map (rename_instr rep) (b_Instrs x)) = Some is" using those_map_total[of "b_Instrs x" "rename_instr rep"] by fastforce
  have sub: "ref_temps [j_Arg (b_Jmp x)] \<subseteq> {..<length rep}" "ref_temps (j_Args (b_Jmp x)) \<subseteq> {..<length rep}" using jmp by (auto simp: ref_temps_def)
  then obtain j where "rename_jmp rep (b_Jmp x) = Some j" using rename_ref_total[OF sub(1)] rename_refs_total[OF sub(2)] by (auto simp: rename_jmp_def)
  then show ?thesis using ps i by (simp add: rename_block_def)
qed

lemma rename_func_total:
  assumes "temps_below (length rep) f" "distinct (f_Blocks f)"
  shows "\<exists>g. rename_func rep f = Some g"
proof -
  define body where "body = (\<lambda>b g. map_option (\<lambda>x. upd_blk b (\<lambda>_. x) g) (rename_block rep (blk g b)))"
  have "\<exists>g. fold_opt body bs f0 = Some g" if "distinct bs" "\<forall>b \<in> set bs. block_below (length rep) (blk f0 b)" for bs f0
    using that
  proof (induction bs arbitrary: f0)
    case (Cons b bs)
    obtain y where y: "rename_block rep (blk f0 b) = Some y" using rename_block_total[of rep "blk f0 b"] Cons.prems(2) by auto
    have "blk (upd_blk b (\<lambda>_. y) f0) b' = blk f0 b'" if "b' \<in> set bs" for b'
      using that Cons.prems(1) by (intro blk_upd_blk_other) auto
    then have "\<exists>g. fold_opt body bs (upd_blk b (\<lambda>_. y) f0) = Some g" using Cons by auto
    then show ?case using y by (simp add: body_def)
  qed simp
  from this[of "f_Blocks f" f] show ?thesis using assms temps_below_blk unfolding rename_func_def body_def by blast
qed
section \<open>The claim\<close>

lemma coalesce_classes_spec:
  assumes f: "temps_below (length (f_Temps f)) f" and c: "c = computeRPO f []" and ps: "\<forall>(d, a) \<in> set ps. d < length (f_Temps f) \<and> a < length (f_Temps f)"
  shows "\<exists>u. coalesce_classes f c ps = Some u \<and> (\<forall>a b. a < length (f_Temps f) \<longrightarrow> b < length (f_Temps f) \<longrightarrow> a \<noteq> b \<longrightarrow>
    class_rep u (length (f_Temps f)) ! a = class_rep u (length (f_Temps f)) ! b \<longrightarrow>
    (\<forall>x. reachable f x \<longrightarrow> \<not> block_conflict (blk f x) {t. live_out f x t} a b)) \<and> length (class_rep u (length (f_Temps f))) = length (f_Temps f)"
proof -
  let ?nt = "length (f_Temps f)"
  obtain invd where invd: "fold_opt mark_pair ps (replicate ?nt False) = Some invd" "length invd = ?nt" "\<forall>(d, a) \<in> set ps. invd ! d \<and> invd ! a"
    using mark_pairs_spec[OF ps] by blast
  obtain l where l: "Liveness f c = Some l" "\<And>b. b \<in> set (cfg_RPO c) \<Longrightarrow> \<exists>i o'. LiveIn l b = Some i \<and> LiveOut l b = Some o' \<and>
    ts_set i = {t. live_in f b t} \<and> ts_set o' = {t. live_out f b t} \<and> ts_cap o' = ts_cap (NewTempSet ?nt)"
    using Liveness_spec[OF c f] by blast
  have out: "\<exists>s. lv_Out l b = Some s \<and> fits ?nt s \<and> ts_set s = {t. live_out f b t}" if "b \<in> set (cfg_RPO c)" for b
    using l(2)[OF that] live_below(2)[OF f] by (auto simp: LiveOut_def fits_def)
  obtain I where I: "buildPhiInterference f c l ?nt invd = Some I" "interf_ok ?nt invd I"
    "\<And>b d t. b \<in> set (cfg_RPO c) \<Longrightarrow> block_conflict (blk f b) (ts_set (the (lv_Out l b))) d t \<Longrightarrow> invd ! d \<Longrightarrow> invd ! t \<Longrightarrow> (d, t) \<in> edges I"
    using buildPhiInterference_spec[OF invd(2) f, of c l] out by blast
  have sym: "\<And>a b. (a, b) \<in> edges I \<Longrightarrow> (b, a) \<in> edges I" using I(2) by (simp add: interf_ok_def)
  have "\<forall>(a, b) \<in> set ps. a < ?nt \<and> b < ?nt \<and> invd ! a \<and> invd ! b" using ps invd(3) by auto
  from uf_unions_spec[OF uf_ok_classes0[OF I(2)] sym this]
  obtain u where u: "fold_opt uf_union ps (classes0 ?nt invd I) = Some u" "uf_ok ?nt invd (edges I) u" by blast
  have "coalesce_classes f c ps = Some u" using invd(1) l(1) I(1) u(1) by (simp add: coalesce_classes_def Let_def)
  moreover have "\<not> block_conflict (blk f x) {t. live_out f x t} a b"
    if ab: "a < ?nt" "b < ?nt" "a \<noteq> b" "class_rep u ?nt ! a = class_rep u ?nt ! b" and x: "reachable f x" for a b x
  proof
    assume k: "block_conflict (blk f x) {t. live_out f x t} a b"
    have "x \<in> set (cfg_RPO c)" using x walk.rpo_reach[of _ f] c unfolding reachable_def by auto
    then have "invd ! a \<Longrightarrow> invd ! b \<Longrightarrow> (a, b) \<in> edges I" using I(3) out k by fastforce
    then show False using class_rep_sound[OF u(2) ab] by blast
  qed
  moreover have "length (class_rep u ?nt) = ?nt" using class_rep_nth(1)[of ?nt u] u(2) unfolding uf_ok_def by blast
  ultimately show ?thesis by blast
qed

text \<open>
  C39: \<open>CoalescePhis\<close> returns, and it either leaves the function alone or renames its temporaries so
  that no two of them get one name where one is written, by an instruction or a phi of a block
  reachable from the entry, while the other is live.
\<close>

theorem CoalescePhis_sound:
  assumes "temps_below (length (f_Temps f)) f" "phi_blocks f" "distinct (f_Blocks f)" "lifetimes_pure f"
  shows "\<exists>g. CoalescePhis f = Some g \<and> (g = f \<or> (\<exists>rep. length rep = length (f_Temps f) \<and> rename_func rep (fillPreds f) = Some g \<and>
    (\<forall>a b. a < length rep \<and> b < length rep \<and> a \<noteq> b \<and> rep ! a = rep ! b \<longrightarrow> \<not> clobbers f a b)))"
proof (cases "f_Temps f = []")
  case True
  then show ?thesis by (simp add: CoalescePhis_def)
next
  case False
  let ?f = "fillPreds f"
  note po = preds_only_sel[OF preds_only_fillPreds[of f]]
  obtain ps where ps: "br_pairs f = Some ps" "\<forall>(d, a) \<in> set ps. d < length (f_Temps f) \<and> a < length (f_Temps f)"
    using br_pairs_spec[OF assms(1,2)] by blast
  show ?thesis
  proof (cases "ps = []")
    case True
    then show ?thesis using ps(1) by (simp add: CoalescePhis_def)
  next
    case False
    obtain c f' p' where b: "BuildCFG None [] f = (c, f', p')" by (metis prod_cases3)
    have c: "c = computeRPO ?f []" "f' = ?f" using BuildCFG_clean[OF _ b] by (simp_all add: pool_clean_def)
    have below: "temps_below (length (f_Temps ?f)) ?f"
    proof -
      have "block_below (length (f_Temps f)) (blk ?f b)" for b using temps_below_blk[OF assms(1), of b] by (simp add: block_below_def po)
      then show ?thesis unfolding temps_below_def po(11) by (metis blk_def in_set_conv_nth)
    qed
    obtain u where u: "coalesce_classes ?f c ps = Some u" "length (class_rep u (length (f_Temps ?f))) = length (f_Temps ?f)"
      "\<And>a b x. a < length (f_Temps ?f) \<Longrightarrow> b < length (f_Temps ?f) \<Longrightarrow> a \<noteq> b \<Longrightarrow> class_rep u (length (f_Temps ?f)) ! a = class_rep u (length (f_Temps ?f)) ! b \<Longrightarrow>
        reachable ?f x \<Longrightarrow> \<not> block_conflict (blk ?f x) {t. live_out ?f x t} a b"
      using coalesce_classes_spec[OF below c(1), of ps] ps(2) po(11) by auto
    let ?rep = "class_rep u (length (f_Temps ?f))"
    obtain g where g: "rename_func ?rep ?f = Some g" using rename_func_total[of ?rep ?f] below u(2) assms(3) po(5) by auto
    have "CoalescePhis f = Some g" using \<open>f_Temps f \<noteq> []\<close> ps(1) False b u(1) g c by (simp add: CoalescePhis_def)
    moreover have "\<not> clobbers f a b" if "a < length ?rep" "b < length ?rep" "a \<noteq> b" "?rep ! a = ?rep ! b" for a b
    proof
      assume "clobbers f a b"
      then obtain x where x: "reachable f x" "block_conflict (blk f x) {t. live_out f x t} a b" using clobbers_conflict assms(4) by blast
      have "{t. live_out ?f x t} = {t. live_out f x t}" by (simp add: live_out_fillPreds)
      moreover have "block_conflict (blk ?f x) X = block_conflict (blk f x) X" for X
        by (intro ext) (simp add: block_conflict_def jmp_use_def po)
      moreover have "reachable ?f x" using x(1) reachable_preds_only[OF preds_only_fillPreds] by simp
      ultimately show False using u(3)[of a b x] that x(2) u(2) by simp
    qed
    ultimately show ?thesis using g u(2) po(11) by (intro exI[of _ g]) auto
  qed
qed

text \<open>
  An instance: block 0 branches to the computed gotos of blocks 1 and 2, and block 3 takes parameter 0
  from the one and parameter 1 from the other.
\<close>

definition merge_fn :: func where
  "merge_fn = (let t = \<lparr>t_ID = 0, t_Name = [], t_Cls = ClsW, t_Slot = -1, t_Reg = NoReg, t_Fixed = False,
       t_Agg = None, t_GCRef = False, t_GCType = 0, t_ClosureContext = False\<rparr> in
     func0\<lparr>f_Start := Some 0, f_Blocks := [0, 1, 2, 3], f_Temps := [t, t, t, t], f_Params := [0, 1, 3], f_arena := [
     block0\<lparr>b_Jmp := jmp0\<lparr>j_Kind := JmpJnz, j_Arg := tempRef 3, j_To := Some 1, j_To2 := Some 2\<rparr>\<rparr>,
     block0\<lparr>b_Jmp := jmp0\<lparr>j_Kind := JmpBr, j_Arg := tempRef 3, j_Targets := [Some 3, Some 2]\<rparr>\<rparr>,
     block0\<lparr>b_Jmp := jmp0\<lparr>j_Kind := JmpBr, j_Arg := tempRef 3, j_Targets := [Some 3, Some 1]\<rparr>\<rparr>,
     block0\<lparr>b_Phis := [\<lparr>p_Cls = ClsW, p_To = tempRef 2, p_Args = [tempRef 0, tempRef 1], p_Blocks = [Some 1, Some 2]\<rparr>],
       b_Jmp := jmp0\<lparr>j_Kind := JmpRet, j_Arg := tempRef 2\<rparr>\<rparr>]\<rparr>)"

lemma merge_fn_ok: "temps_below (length (f_Temps merge_fn)) merge_fn" "phi_blocks merge_fn" "distinct (f_Blocks merge_fn)" "lifetimes_pure merge_fn"
proof -
  show "temps_below (length (f_Temps merge_fn)) merge_fn"
    by (auto simp: merge_fn_def Let_def temps_below_def block_below_def ref_temps_def func0_def block0_def jmp0_def tempRef_def R_def)
  show "phi_blocks merge_fn" by (auto simp: phi_blocks_def merge_fn_def Let_def func0_def blk_def block0_def nth_Cons split: nat.splits)
  show "distinct (f_Blocks merge_fn)" by (simp add: merge_fn_def Let_def)
  have "b_Instrs (blk merge_fn b) = []" for b by (auto simp: merge_fn_def Let_def func0_def blk_def block0_def nth_Cons split: nat.splits)
  then show "lifetimes_pure merge_fn" by (simp add: lifetimes_pure_def)
qed

theorem CoalescePhis_sound_witness:
  "\<exists>g. CoalescePhis merge_fn = Some g \<and> (g = merge_fn \<or> (\<exists>rep. length rep = 4 \<and> rename_func rep (fillPreds merge_fn) = Some g))"
proof -
  have "length (f_Temps merge_fn) = 4" by (simp add: merge_fn_def Let_def)
  then show ?thesis using CoalescePhis_sound[OF merge_fn_ok] by auto
qed

lemma merge_fn_live: "map_option (\<lambda>l. map_option ts_Members (LiveIn l 0)) (Liveness merge_fn (computeRPO merge_fn [])) = Some (Some [0, 1, 3])"
  by code_simp

lemma merge_fn_merged: "map_option (\<lambda>g. (f_Params g, map p_Args (b_Phis (blk g 3)))) (CoalescePhis merge_fn) = Some ([0, 1, 3], [[tempRef 0, tempRef 0]])"
  by code_simp


end
